(* ===== verification/Prelude.thy ===== *)
theory Prelude
  imports Main "HOL-Library.Word"
begin

text \<open>
  Shared by all theories: the machine words, sequences of 32-bit digits, least significant first, the
  natural number \<open>nval\<close> that such a sequence stands for, and the lemmas on words and lists that the
  components share.
\<close>

unbundle bit_operations_syntax

type_synonym u8 = "8 word"
type_synonym u16 = "16 word"
type_synonym u32 = "32 word"
type_synonym u64 = "64 word"

lemma unat_u32_lt: "unat (x :: u32) < 4294967296"
  using unsigned_less [of x, where 'a = nat] by simp

lemma nat_mod_add_once:
  fixes x :: nat
  assumes "x < 2 * m"
  shows "x mod m = (if x < m then x else x - m)"
  using assms by (simp add: mod_if)

lemma mult_div_mod_split: "(p :: nat) * x = p * (x div d) * d + p * (x mod d)"
proof -
  have "p * x = p * (x div d * d + x mod d)"
    by (simp only: div_mult_mod_eq)
  then show ?thesis
    by (simp only: distrib_left mult.assoc)
qed

lemma u32_full_adder:
  fixes u v k :: u32
  assumes "unat k \<le> 1"
  shows "unat (u + v + k) + 4294967296 * (if u + v < u \<or> u + v + k < u + v then 1 else 0)
           = unat u + unat v + unat k"
proof -
  have 1: "unat (u + v) = (if unat u + unat v < 4294967296 then unat u + unat v
             else unat u + unat v - 4294967296)"
    using unat_u32_lt [of u] unat_u32_lt [of v]
      nat_mod_add_once [of "unat u + unat v" 4294967296]
    by (simp add: unat_word_ariths)
  have 2: "unat (u + v + k) = (if unat (u + v) + unat k < 4294967296 then unat (u + v) + unat k
             else unat (u + v) + unat k - 4294967296)"
    using unat_u32_lt [of "u + v"] unat_u32_lt [of k]
      nat_mod_add_once [of "unat (u + v) + unat k" 4294967296]
    by (subst unat_word_ariths(1)) simp
  show ?thesis
    using assms 1 2 unat_u32_lt [of u] unat_u32_lt [of v]
    unfolding word_less_nat_alt by (auto split: if_splits)
qed

lemma u32_full_subtractor:
  fixes u v k :: u32
  assumes "unat k \<le> 1"
  shows "unat (u - v - k) + unat v + unat k
           = unat u + 4294967296 * (if u < u - v \<or> u - v < u - v - k then 1 else 0)"
proof -
  have 1: "unat (u - v) = (if unat v \<le> unat u then unat u - unat v
             else unat u + 4294967296 - unat v)"
    by (auto simp: unat_sub_if_size word_size)
  have 2: "unat (u - v - k) = (if unat k \<le> unat (u - v) then unat (u - v) - unat k
             else unat (u - v) + 4294967296 - unat k)"
    by (subst unat_sub_if_size) (auto simp: word_size)
  show ?thesis
    using assms 1 2 unat_u32_lt [of u] unat_u32_lt [of v]
    unfolding word_less_nat_alt
    by (cases "unat v \<le> unat u"; cases "unat k \<le> unat (u - v)") (simp_all, linarith+)
qed


lemma unat_u64_lt: "unat (x :: u64) < 18446744073709551616"
  using unsigned_less [of x, where 'a = nat] by simp

lemma unat_ucast_u32_u64 [simp]: "unat (ucast (x :: u32) :: u64) = unat x"
  by (simp add: unsigned_ucast_eq take_bit_nat_eq_self_iff)
    (rule less_trans [OF unat_u32_lt], simp)

lemma unat_ucast_u64_u32: "unat (ucast (t :: u64) :: u32) = unat t mod 4294967296"
  by (simp add: unsigned_ucast_eq take_bit_eq_mod)

lemma unat_drop_bit_32_u64: "unat (drop_bit 32 (t :: u64)) = unat t div 4294967296"
  using unat_u64_lt [of t]
  by (subst unsigned_drop_bit_eq) (simp add: drop_bit_eq_div take_bit_nat_eq_self)

lemma unat_push_bit_32_u64:
  "unat (push_bit 32 (t :: u64)) = unat t * 4294967296 mod 18446744073709551616"
  by (subst unsigned_push_bit_eq) (simp add: push_bit_eq_mult take_bit_eq_mod)

lemma unat_ucast_high_u64_u32:
  "unat (ucast (drop_bit 32 (t :: u64)) :: u32) = unat t div 4294967296"
proof -
  have "unat t div 4294967296 < 4294967296"
    using unat_u64_lt [of t] by (simp add: less_mult_imp_div_less)
  then show ?thesis
    by (simp only: unat_ucast_u64_u32 unat_drop_bit_32_u64 mod_less)
qed

text \<open>The code clears the high half of a double digit by shifting it out and back.\<close>

lemma unat_ucast_low_u64_u32:
  "unat (ucast (drop_bit 32 (push_bit 32 (t :: u64))) :: u32) = unat t mod 4294967296"
proof -
  have "unat t * 4294967296 mod 18446744073709551616 = (unat t mod 4294967296) * 4294967296"
    using mult_mod_left [of "unat t" 4294967296 4294967296] by simp
  then show ?thesis
    by (simp only: unat_ucast_u64_u32 unat_drop_bit_32_u64 unat_push_bit_32_u64) simp
qed

lemma u64_mul_add_add:
  fixes u v w k :: u32
  shows "unat (ucast u * ucast v + ucast w + ucast k :: u64) = unat u * unat v + unat w + unat k"
proof -
  have "unat u * unat v \<le> 4294967295 * 4294967295"
    using unat_u32_lt [of u] unat_u32_lt [of v] by (intro mult_le_mono) simp_all
  then show ?thesis
    using unat_u32_lt [of w] unat_u32_lt [of k] by (simp add: unat_word_ariths)
qed

section \<open>Digit strings\<close>

text \<open>A multi-precision natural number is an array of 32-bit digits, least significant first.\<close>

type_synonym digits = "u32 list"

primrec nval :: "digits \<Rightarrow> nat" where
  "nval [] = 0"
| "nval (x # xs) = unat x + 4294967296 * nval xs"

lemma nval_append: "nval (xs @ ys) = nval xs + 4294967296 ^ length xs * nval ys"
  by (induction xs) (simp_all add: algebra_simps)

lemma nval_replicate_0 [simp]: "nval (replicate n 0) = 0"
  by (induction n) simp_all

lemma nval_less: "nval xs < 4294967296 ^ length xs"
proof (induction xs)
  case Nil
  then show ?case by simp
next
  case (Cons x xs)
  have "unat x + 4294967296 * nval xs < 4294967296 + 4294967296 * nval xs"
    using unat_u32_lt [of x] by simp
  also have "\<dots> = 4294967296 * Suc (nval xs)"
    by simp
  also have "\<dots> \<le> 4294967296 * 4294967296 ^ length xs"
    using Cons.IH by (intro mult_le_mono2) simp
  finally show ?case by simp
qed

lemma nval_eq_0_iff: "nval xs = 0 \<longleftrightarrow> (\<forall>x \<in> set xs. x = 0)"
  by (induction xs) (auto simp: unat_eq_zero)

lemma nval_take_drop:
  "n \<le> length xs \<Longrightarrow> nval xs = nval (take n xs) + 4294967296 ^ n * nval (drop n xs)"
  using nval_append [of "take n xs" "drop n xs"] by (simp add: min_absorb2)

lemma nval_update:
  assumes "i < length xs"
  shows "nval (xs[i := d]) + 4294967296 ^ i * unat (xs ! i)
           = nval xs + 4294967296 ^ i * unat d"
  using assms
proof (induction xs arbitrary: i)
  case Nil
  then show ?case by simp
next
  case (Cons x xs)
  show ?case
  proof (cases i)
    case 0
    then show ?thesis by simp
  next
    case (Suc j)
    with Cons.prems have "nval (xs[j := d]) + 4294967296 ^ j * unat (xs ! j)
        = nval xs + 4294967296 ^ j * unat d"
      by (intro Cons.IH) simp
    then have "4294967296 * (nval (xs[j := d]) + 4294967296 ^ j * unat (xs ! j))
        = 4294967296 * (nval xs + 4294967296 ^ j * unat d)"
      by simp
    with Suc show ?thesis by (simp add: algebra_simps)
  qed
qed

lemma nval_inj:
  "length xs = length ys \<Longrightarrow> nval xs = nval ys \<Longrightarrow> xs = ys"
proof (induction xs ys rule: list_induct2)
  case Nil
  then show ?case by simp
next
  case (Cons x xs y ys)
  have x: "unat x = nval (x # xs) mod 4294967296" and xs: "nval xs = nval (x # xs) div 4294967296"
    using unat_u32_lt [of x] by simp_all
  have y: "unat y = nval (y # ys) mod 4294967296" and ys: "nval ys = nval (y # ys) div 4294967296"
    using unat_u32_lt [of y] by simp_all
  have "unat x = unat y"
    by (simp only: x y Cons.prems)
  moreover have "nval xs = nval ys"
    by (simp only: xs ys Cons.prems)
  ultimately show ?case
    using Cons.IH by (simp add: word_unat_eq_iff)
qed

text \<open>Reading past the end of a digit array gives a zero digit, as the loops of the code do.\<close>

definition digit :: "digits \<Rightarrow> nat \<Rightarrow> u32" where
  "digit a j = (if j < length a then a ! j else 0)"

definition digits_from :: "digits \<Rightarrow> nat \<Rightarrow> nat \<Rightarrow> digits" where
  "digits_from a j m = map (digit a) [j..<j + m]"

lemma digits_from_0 [simp]: "digits_from a j 0 = []"
  by (simp add: digits_from_def)

lemma digits_from_Suc: "digits_from a j (Suc m) = digit a j # digits_from a (Suc j) m"
  by (simp add: digits_from_def upt_conv_Cons del: upt_Suc)

lemma digits_from_all:
  assumes "length a \<le> m"
  shows "digits_from a 0 m = a @ replicate (m - length a) 0"
  using assms by (intro nth_equalityI) (auto simp: digits_from_def digit_def nth_append)

lemma nval_digits_from_all: "length a \<le> m \<Longrightarrow> nval (digits_from a 0 m) = nval a"
  by (simp add: digits_from_all nval_append)

end
