(* ===== verification/Mpn.thy ===== *)
theory Mpn
  imports Prelude
begin

text \<open>
  Model of util/mpn.cpp: natural numbers as sequences of 32-bit digits. Comparison, addition,
  subtraction and multiplication, each with the theorem that it is exact. A digit beyond the end of a
  sequence reads as zero, as the code's bounds tests make it.
\<close>

primrec compare_loop :: "digits \<Rightarrow> digits \<Rightarrow> nat \<Rightarrow> int" where
  "compare_loop a b 0 = 0"
| "compare_loop a b (Suc j) =
     (let u = digit a j; v = digit b j
      in if v < u then 1 else if u < v then - 1 else compare_loop a b j)"

definition mpn_compare :: "digits \<Rightarrow> digits \<Rightarrow> int" where
  "mpn_compare a b = compare_loop a b (max (length a) (length b))"

primrec add_loop :: "digits \<Rightarrow> digits \<Rightarrow> nat \<Rightarrow> nat \<Rightarrow> u32 \<Rightarrow> digits" where
  "add_loop a b 0 j k = [k]"
| "add_loop a b (Suc m) j k =
     (let u = digit a j; v = digit b j;
          r = u + v; c1 = r < u;
          c = r + k; c2 = c < r
      in c # add_loop a b m (Suc j) (if c1 \<or> c2 then 1 else 0))"

primrec trim_size :: "digits \<Rightarrow> nat \<Rightarrow> nat" where
  "trim_size c 0 = 0"
| "trim_size c (Suc os) = (if 1 < Suc os \<and> c ! os = 0 then trim_size c os else Suc os)"

definition mpn_add :: "digits \<Rightarrow> digits \<Rightarrow> digits \<times> nat" where
  "mpn_add a b =
     (let len = max (length a) (length b);
          c = add_loop a b len 0 0
      in (c, trim_size c (len + 1)))"

primrec sub_loop :: "digits \<Rightarrow> digits \<Rightarrow> nat \<Rightarrow> nat \<Rightarrow> u32 \<Rightarrow> digits \<times> u32" where
  "sub_loop a b 0 j k = ([], k)"
| "sub_loop a b (Suc m) j k =
     (let u = digit a j; v = digit b j;
          r = u - v; c1 = u < r;
          c = r - k; c2 = r < c;
          (cs, k') = sub_loop a b m (Suc j) (if c1 \<or> c2 then 1 else 0)
      in (c # cs, k'))"

definition mpn_sub :: "digits \<Rightarrow> digits \<Rightarrow> digits \<times> u32" where
  "mpn_sub a b = sub_loop a b (max (length a) (length b)) 0 0"

lemma base_less:
  fixes x m p q :: nat
  assumes "p < q" and "x < m"
  shows "x + m * p < m * q"
proof -
  have "x + m * p < m * Suc p"
    using assms(2) by simp
  also have "\<dots> \<le> m * q"
    using assms(1) by (intro mult_le_mono2) simp
  finally show ?thesis .
qed

lemma compare_loop_correct:
  "compare_loop a b n = (if nval (digits_from b 0 n) < nval (digits_from a 0 n) then 1
     else if nval (digits_from a 0 n) < nval (digits_from b 0 n) then - 1 else 0)"
proof (induction n)
  case 0
  then show ?case by simp
next
  case (Suc n)
  let ?a = "nval (digits_from a 0 n)" and ?b = "nval (digits_from b 0 n)"
  have snoc: "nval (digits_from x 0 (Suc n)) = nval (digits_from x 0 n) + 4294967296 ^ n * unat (digit x n)" for x
    by (simp add: digits_from_def nval_append)
  have "?a < 4294967296 ^ n" "?b < 4294967296 ^ n"
    using nval_less [of "digits_from a 0 n"] nval_less [of "digits_from b 0 n"]
    by (simp_all add: digits_from_def)
  then have *: "?a + 4294967296 ^ n * p < ?b + 4294967296 ^ n * q"
    "?b + 4294967296 ^ n * p < ?a + 4294967296 ^ n * q" if "p < q" for p q
    using base_less [OF that] by (simp_all add: add_strict_increasing2 trans_less_add1)
  consider "unat (digit a n) < unat (digit b n)" | "unat (digit b n) < unat (digit a n)"
    | "unat (digit a n) = unat (digit b n)"
    by linarith
  then show ?case
    using Suc.IH by cases (use * in \<open>force simp: Let_def snoc word_less_nat_alt\<close>)+
qed

theorem mpn_compare_correct: "mpn_compare a b = sgn (int (nval a) - int (nval b))"
  by (simp add: mpn_compare_def compare_loop_correct nval_digits_from_all sgn_if)

lemma length_add_loop [simp]: "length (add_loop a b m j k) = Suc m"
  by (induction m arbitrary: j k) (simp_all add: Let_def)

lemma nval_add_loop:
  "unat k \<le> 1 \<Longrightarrow>
   nval (add_loop a b m j k) = nval (digits_from a j m) + nval (digits_from b j m) + unat k"
proof (induction m arbitrary: j k)
  case 0
  then show ?case by simp
next
  case (Suc m)
  let ?u = "digit a j" and ?v = "digit b j"
  define k' :: u32 where "k' = (if ?u + ?v < ?u \<or> ?u + ?v + k < ?u + ?v then 1 else 0)"
  have k': "unat k' \<le> 1"
    by (simp add: k'_def)
  have "unat (?u + ?v + k) + 4294967296 * unat k' = unat ?u + unat ?v + unat k"
    using u32_full_adder [OF Suc.prems, of ?u ?v] by (auto simp: k'_def split: if_splits)
  moreover have "add_loop a b (Suc m) j k = (?u + ?v + k) # add_loop a b m (Suc j) k'"
    by (simp add: Let_def k'_def)
  ultimately show ?case
    using Suc.IH [OF k', of "Suc j"]
    by (simp add: digits_from_Suc algebra_simps del: add_loop.simps)
qed

lemma trim_size_le: "trim_size c n \<le> n"
  by (induction n) simp_all

lemma trim_size_pos: "0 < n \<Longrightarrow> 0 < trim_size c n"
  by (induction n) simp_all

lemma trim_size_top: "1 < trim_size c n \<Longrightarrow> c ! (trim_size c n - 1) \<noteq> 0"
  by (induction n) (auto split: if_splits)

lemma nval_take_trim_size: "n \<le> length c \<Longrightarrow> nval (take (trim_size c n) c) = nval (take n c)"
  by (induction n) (simp_all add: take_Suc_conv_app_nth nval_append)

theorem mpn_add_correct:
  "case mpn_add a b of (c, os) \<Rightarrow>
     length c = Suc (max (length a) (length b)) \<and> nval c = nval a + nval b \<and>
     nval (take os c) = nval a + nval b \<and> 0 < os \<and> os \<le> length c \<and>
     (1 < os \<longrightarrow> c ! (os - 1) \<noteq> 0)"
proof -
  let ?len = "max (length a) (length b)"
  let ?c = "add_loop a b ?len 0 0"
  have c: "nval ?c = nval a + nval b"
    by (simp add: nval_add_loop nval_digits_from_all)
  moreover have "nval (take (trim_size ?c (Suc ?len)) ?c) = nval ?c"
    by (subst nval_take_trim_size) simp_all
  ultimately show ?thesis
    using trim_size_pos [of "Suc ?len" ?c] trim_size_le [of ?c "Suc ?len"]
      trim_size_top [of ?c "Suc ?len"]
    by (simp add: mpn_add_def Let_def del: trim_size.simps)
qed

lemma sub_loop_correct:
  assumes "unat k \<le> 1"
  shows "length (fst (sub_loop a b m j k)) = m \<and> unat (snd (sub_loop a b m j k)) \<le> 1 \<and>
   nval (fst (sub_loop a b m j k)) + nval (digits_from b j m) + unat k
     = nval (digits_from a j m) + 4294967296 ^ m * unat (snd (sub_loop a b m j k))"
  using assms
proof (induction m arbitrary: j k)
  case 0
  then show ?case by simp
next
  case (Suc m)
  let ?u = "digit a j" and ?v = "digit b j"
  define k' :: u32 where "k' = (if ?u < ?u - ?v \<or> ?u - ?v < ?u - ?v - k then 1 else 0)"
  have k': "unat k' \<le> 1"
    by (simp add: k'_def)
  have "unat (?u - ?v - k) + unat ?v + unat k = unat ?u + 4294967296 * unat k'"
    using u32_full_subtractor [OF Suc.prems, of ?u ?v] by (auto simp: k'_def split: if_splits)
  moreover have "sub_loop a b (Suc m) j k =
      ((?u - ?v - k) # fst (sub_loop a b m (Suc j) k'), snd (sub_loop a b m (Suc j) k'))"
    by (simp add: Let_def k'_def case_prod_beta)
  ultimately show ?case
    using Suc.IH [OF k', of "Suc j"]
    by (simp add: digits_from_Suc algebra_simps del: sub_loop.simps)
qed

theorem mpn_sub_correct:
  "case mpn_sub a b of (c, borrow) \<Rightarrow>
     length c = max (length a) (length b) \<and>
     borrow = of_bool (nval a < nval b) \<and>
     int (nval c) = int (nval a) - int (nval b) + 4294967296 ^ length c * of_bool (nval a < nval b)"
proof -
  let ?len = "max (length a) (length b)"
  obtain c k where ck: "sub_loop a b ?len 0 0 = (c, k)"
    by fastforce
  have 1: "length c = ?len" "unat k \<le> 1" "nval c + nval b = nval a + 4294967296 ^ ?len * unat k"
    using sub_loop_correct [of 0 a b ?len 0] ck by (simp_all add: nval_digits_from_all)
  have "nval c < 4294967296 ^ ?len"
    using nval_less [of c] 1(1) by simp
  moreover have k: "k = 0 \<or> k = 1"
    using 1(2) by (metis le_eq_less_or_eq less_one unat_1 unat_eq_zero word_unat_eq_iff)
  moreover have "int (nval c) + int (nval b) = int (nval a) + 4294967296 ^ ?len * int (unat k)"
    using arg_cong [OF 1(3), of int] by simp
  ultimately show ?thesis
    using 1 by (auto simp: mpn_sub_def ck)
qed


primrec mul_inner :: "digits \<Rightarrow> u32 \<Rightarrow> nat \<Rightarrow> u32 \<Rightarrow> digits \<Rightarrow> digits \<times> u32" where
  "mul_inner [] v p k c = (c, k)"
| "mul_inner (u # us) v p k c =
     (let t = (ucast u :: u64) * ucast v + ucast (c ! p) + ucast k
      in mul_inner us v (Suc p) (ucast (drop_bit 32 t))
           (c[p := ucast (drop_bit 32 (push_bit 32 t))]))"

primrec mul_outer :: "digits \<Rightarrow> digits \<Rightarrow> nat \<Rightarrow> digits \<Rightarrow> digits" where
  "mul_outer a [] j c = c"
| "mul_outer a (v # vs) j c =
     (if v = 0 then mul_outer a vs (Suc j) (c[j + length a := 0])
      else let (c', k) = mul_inner a v j 0 c
           in mul_outer a vs (Suc j) (c'[j + length a := k]))"

definition mpn_mul :: "digits \<Rightarrow> digits \<Rightarrow> digits \<Rightarrow> digits" where
  "mpn_mul a b c = mul_outer a b 0 (replicate (length a) 0 @ drop (length a) c)"

lemma mul_inner_correct:
  assumes "p + length us \<le> length c"
  shows "length (fst (mul_inner us v p k c)) = length c \<and>
    nval (take (p + length us) (fst (mul_inner us v p k c)))
        + 4294967296 ^ (p + length us) * unat (snd (mul_inner us v p k c))
      = nval (take (p + length us) c) + 4294967296 ^ p * (nval us * unat v + unat k)"
  using assms
proof (induction us arbitrary: p k c)
  case Nil
  then show ?case by simp
next
  case (Cons u us)
  define t :: u64 where "t = ucast u * ucast v + ucast (c ! p) + ucast k"
  let ?lo = "ucast (drop_bit 32 (push_bit 32 t)) :: u32" and ?hi = "ucast (drop_bit 32 t) :: u32"
  let ?c = "c[p := ?lo]" and ?n = "Suc p + length us"
  have step: "mul_inner (u # us) v p k c = mul_inner us v (Suc p) ?hi ?c"
    by (simp add: Let_def t_def)
  have "unat t = unat u * unat v + unat (c ! p) + unat k"
    unfolding t_def by (rule u64_mul_add_add)
  then have t: "unat u * unat v + unat (c ! p) + unat k = unat ?lo + 4294967296 * unat ?hi"
    by (simp only: unat_ucast_low_u64_u32 [of t] unat_ucast_high_u64_u32 [of t] mod_mult_div_eq)
  have p: "p < length (take ?n c)"
    using Cons.prems by simp
  have "nval (take ?n ?c) + 4294967296 ^ p * unat (c ! p) = nval (take ?n c) + 4294967296 ^ p * unat ?lo"
    using nval_update [OF p, of ?lo] by (simp add: take_update_swap)
  moreover have "4294967296 ^ p * (unat u * unat v + unat (c ! p) + unat k)
      = 4294967296 ^ p * (unat ?lo + 4294967296 * unat ?hi)"
    by (simp only: t)
  ultimately show ?case
    using Cons.IH [of "Suc p" ?c ?hi] Cons.prems by (simp add: step algebra_simps del: mul_inner.simps)
qed

lemma mul_outer_correct:
  assumes "j + length a + length vs \<le> length c"
  shows "length (mul_outer a vs j c) = length c \<and>
    nval (take (j + length a + length vs) (mul_outer a vs j c))
      = nval (take (j + length a) c) + 4294967296 ^ j * (nval a * nval vs)"
  using assms
proof (induction vs arbitrary: j c)
  case Nil
  then show ?case by simp
next
  case (Cons v vs)
  obtain c' k where ck: "mul_inner a v j 0 c = (c', k)"
    by fastforce
  define d where "d = (if v = 0 then c[j + length a := 0] else c'[j + length a := k])"
  have inner: "length c' = length c"
    "nval (take (j + length a) c') + 4294967296 ^ (j + length a) * unat k
       = nval (take (j + length a) c) + 4294967296 ^ j * (nval a * unat v)"
    using mul_inner_correct [of j a c v 0] ck Cons.prems by simp_all
  have "length d = length c"
    using inner(1) by (simp add: d_def)
  moreover have "nval (take (Suc (j + length a)) d)
      = nval (take (j + length a) c) + 4294967296 ^ j * (nval a * unat v)"
    using Cons.prems inner
    by (auto simp: d_def take_Suc_conv_app_nth nval_append)
  moreover have "mul_outer a (v # vs) j c = mul_outer a vs (Suc j) d"
    by (simp add: d_def ck)
  ultimately show ?case
    using Cons.IH [of "Suc j" d] Cons.prems by (simp add: algebra_simps)
qed

theorem mpn_mul_correct:
  assumes "length c = length a + length b"
  shows "length (mpn_mul a b c) = length a + length b \<and> nval (mpn_mul a b c) = nval a * nval b"
  using mul_outer_correct [of 0 a b "replicate (length a) 0 @ drop (length a) c"] assms
  by (auto simp: mpn_mul_def)

end
