(* ===== verification/MpnDiv.thy ===== *)
theory MpnDiv
  imports Mpn
begin

text \<open>
  Model of the division in util/mpn.cpp: normalization, the one-digit case, and one step of Knuth's
  Algorithm D, with the correctness of its quotient-digit estimate and of its add-back.
\<close>

definition resize_buf :: "digits \<Rightarrow> nat \<Rightarrow> digits" where
  "resize_buf c n = take n c @ replicate (n - length c) 0"

lemma length_resize_buf [simp]: "length (resize_buf c n) = n"
  by (simp add: resize_buf_def)

definition mask_first :: u32 where
  "mask_first = NOT (drop_bit 1 (- 1))"

definition first_bits :: "nat \<Rightarrow> u32 \<Rightarrow> u32" where
  "first_bits n x = drop_bit (32 - n) x"

definition last_bits :: "nat \<Rightarrow> u32 \<Rightarrow> u32" where
  "last_bits n x = drop_bit (32 - n) (push_bit (32 - n) x)"

definition base :: u64 where
  "base = push_bit 32 1"

function norm_shift :: "u32 \<Rightarrow> nat \<Rightarrow> nat" where
  "norm_shift x d = (if d < 32 \<and> push_bit d x AND mask_first = 0 then norm_shift x (Suc d) else d)"
  by pat_completeness auto
termination
  by (relation "measure (\<lambda>(x, d). 32 - d)") auto

declare norm_shift.simps [simp del]

definition shl_tail :: "nat \<Rightarrow> digits \<Rightarrow> digits" where
  "shl_tail d a = map (\<lambda>i. push_bit d (a ! i) OR first_bits d (a ! (i - 1))) [1..<length a]"

definition div_normalize :: "digits \<Rightarrow> digits \<Rightarrow> digits \<Rightarrow> digits \<Rightarrow> nat \<times> digits \<times> digits" where
  "div_normalize numer denom n_numer n_denom =
     (let lnum = length numer; lden = length denom;
          d = (if 0 < lden then norm_shift (denom ! (lden - 1)) 0 else 0);
          n_numer = resize_buf n_numer (lnum + 1);
          n_denom = resize_buf n_denom lden
      in if d = 0 then (d, numer @ [0], denom)
         else if lnum \<noteq> 0 then
           (d, push_bit d (numer ! 0) # shl_tail d numer @ [first_bits d (numer ! (lnum - 1))],
            push_bit d (denom ! 0) # shl_tail d denom)
         else (0, n_numer, n_denom))"

definition div_unnormalize :: "digits \<Rightarrow> digits \<Rightarrow> nat \<Rightarrow> digits" where
  "div_unnormalize numer denom d =
     (let n = length denom
      in if d = 0 then take n numer
         else map (\<lambda>i. drop_bit d (numer ! i) OR push_bit (32 - d) (last_bits d (numer ! (i + 1)))) [0..<n - 1]
              @ [drop_bit d (numer ! (n - 1))])"

primrec div_1_loop :: "u32 \<Rightarrow> nat \<Rightarrow> digits \<Rightarrow> digits \<Rightarrow> digits \<times> digits" where
  "div_1_loop denom 0 numer quot = (numer, quot)"
| "div_1_loop denom (Suc j) numer quot =
     (let temp = push_bit 32 (ucast (numer ! Suc j) :: u64) OR ucast (numer ! j);
          q_hat = temp div ucast denom;
          ms = temp - q_hat * ucast denom;
          borrow = temp < ms;
          numer = numer[j := ucast ms, Suc j := ucast (drop_bit 32 ms)];
          quot = quot[j := ucast q_hat]
      in if borrow
         then div_1_loop denom j (numer[Suc j := numer ! j + denom]) (quot[j := quot ! j - 1])
         else div_1_loop denom j numer quot)"

definition div_1 :: "digits \<Rightarrow> u32 \<Rightarrow> digits \<Rightarrow> digits \<times> digits" where
  "div_1 numer denom quot = div_1_loop denom (length numer - 1) numer quot"

function recheck :: "u64 \<Rightarrow> u64 \<Rightarrow> u64 \<Rightarrow> u64 \<Rightarrow> u64 \<Rightarrow> u64 \<times> u64" where
  "recheck v1 v2 u q_hat r_hat =
     (if base \<le> q_hat \<or> push_bit 32 r_hat + u < q_hat * v2
      then if r_hat + v1 < base then recheck v1 v2 u (q_hat - 1) (r_hat + v1)
           else (q_hat - 1, r_hat + v1)
      else (q_hat, r_hat))"
  by pat_completeness auto
termination
proof (relation "measure (\<lambda>(v1, v2, u, q, r). unat q)", goal_cases)
  case (2 v1 v2 u q r)
  then have "q \<noteq> 0"
    by (auto simp: base_def)
  then have "unat (q - 1) < unat q"
    by (simp add: unat_minus_one unat_gt_0)
  then show ?case by simp
qed simp

declare recheck.simps [simp del]

record div_state =
  ds_numer :: digits
  ds_quot :: digits
  ds_ms :: digits
  ds_ab :: digits

definition div_n_step :: "digits \<Rightarrow> nat \<Rightarrow> div_state \<Rightarrow> div_state" where
  "div_n_step denom j s =
     (let n = length denom; numer = ds_numer s;
          temp = push_bit 32 (ucast (numer ! (j + n)) :: u64) OR ucast (numer ! (j + n - 1));
          v1 = ucast (denom ! (n - 1));
          (q_hat, r_hat) = recheck v1 (ucast (denom ! (n - 2))) (ucast (numer ! (j + n - 2)))
             (temp div v1) (temp mod v1);
          q_hat_small = (ucast q_hat :: u32);
          ms = mpn_mul [q_hat_small] denom (resize_buf (ds_ms s) (n + 1));
          (c, borrow) = mpn_sub (take (n + 1) (drop j numer)) ms;
          numer' = take j numer @ c @ drop (j + n + 1) numer;
          quot = (ds_quot s)[j := q_hat_small]
      in if borrow \<noteq> 0
         then let ab = fst (mpn_add denom (take (n + 1) (drop j numer')))
              in s\<lparr>ds_numer := take j numer' @ take (n + 1) ab @ drop (j + n + 1) numer',
                   ds_quot := quot[j := quot ! j - 1], ds_ms := ms, ds_ab := ab\<rparr>
         else s\<lparr>ds_numer := numer', ds_quot := quot, ds_ms := ms\<rparr>)"

primrec div_n_loop :: "digits \<Rightarrow> nat \<Rightarrow> div_state \<Rightarrow> div_state" where
  "div_n_loop denom 0 s = s"
| "div_n_loop denom (Suc j) s = div_n_loop denom j (div_n_step denom j s)"

definition div_n :: "digits \<Rightarrow> digits \<Rightarrow> digits \<Rightarrow> digits \<Rightarrow> digits \<Rightarrow> div_state" where
  "div_n numer denom quot ms ab =
     div_n_loop denom (length numer - length denom)
       \<lparr>ds_numer = numer, ds_quot = quot, ds_ms = ms, ds_ab = ab\<rparr>"

record mpn_manager =
  mm_u :: digits
  mm_v :: digits
  mm_ms :: digits
  mm_ab :: digits

definition div_core :: "mpn_manager \<Rightarrow> digits \<Rightarrow> digits \<Rightarrow> digits \<Rightarrow> digits \<times> digits \<times> digits \<times> digits" where
  "div_core m u v quot =
     (if length v = 1 then (let (u, quot) = div_1 u (v ! 0) quot in (u, quot, mm_ms m, mm_ab m))
      else (let s = div_n u v quot (mm_ms m) (mm_ab m)
            in (ds_numer s, ds_quot s, ds_ms s, ds_ab s)))"

definition mpn_div ::
  "mpn_manager \<Rightarrow> digits \<Rightarrow> digits \<Rightarrow> digits \<Rightarrow> digits \<Rightarrow> (mpn_manager \<times> bool \<times> digits \<times> digits) option" where
  "mpn_div m numer denom quot rem =
     (let lnum = length numer; lden = length denom;
          copy = map (\<lambda>i. if i < lnum then numer ! i else 0) [0..<lden] @ drop lden rem
      in if lnum < lden then
           (let cnt = unat (of_nat lnum - of_nat lden + 1 :: u64)
            in if length quot < cnt \<or> length rem < lden then None
               else Some (m, False, replicate cnt 0 @ drop cnt quot, copy))
         else if \<forall>x \<in> set denom. x = 0 then Some (m, False, quot, rem)
         else if length quot < lnum - lden + 1 \<or> length rem < lden then None
         else if lnum = 1 \<and> lden = 1 then
           Some (m, False, quot[0 := numer ! 0 div denom ! 0], rem[0 := numer ! 0 mod denom ! 0])
         else if lnum < lden \<or> lnum = lden \<and> numer ! (lnum - 1) < denom ! (lden - 1) then
           Some (m, False, quot[0 := 0], copy)
         else
           (let (d, u, v) = div_normalize numer denom (mm_u m) (mm_v m);
                (u, quot, ms, ab) = div_core m u v quot
            in Some (m\<lparr>mm_u := u, mm_v := v, mm_ms := ms, mm_ab := ab\<rparr>, True, quot,
                     div_unnormalize u v d @ drop lden rem)))"

section \<open>The arithmetic of one quotient digit\<close>

lemma qhat_initial:
  fixes u0 u1 u2 v1 v2 d0 n0 P :: nat
  assumes "N = ((u0 * B + u1) * B + u2) * P + n0" "D = (v1 * B + v2) * P + d0"
    and "u2 < B" "n0 < P" "0 < v1"
  shows "N div D \<le> (u0 * B + u1) div v1"
proof -
  let ?T = "u0 * B + u1" and ?q = "(u0 * B + u1) div v1"
  have "?T < Suc ?q * v1"
    using \<open>0 < v1\<close> by (simp add: dividend_less_div_times)
  then have "Suc ?T \<le> Suc ?q * v1"
    by simp
  have "?T * B + u2 < Suc ?T * B"
    using \<open>u2 < B\<close> by simp
  then have "Suc (?T * B + u2) \<le> Suc ?T * B"
    by simp
  have "N < Suc (?T * B + u2) * P"
    using assms(1) \<open>n0 < P\<close> by simp
  also have "\<dots> \<le> Suc ?T * B * P"
    using \<open>Suc (?T * B + u2) \<le> Suc ?T * B\<close> by (rule mult_le_mono1)
  also have "\<dots> \<le> Suc ?q * v1 * B * P"
    using \<open>Suc ?T \<le> Suc ?q * v1\<close> by (intro mult_le_mono1)
  also have "\<dots> \<le> Suc ?q * D"
    by (simp add: assms(2) algebra_simps)
  finally have "N div D < Suc ?q"
    by (rule less_mult_imp_div_less)
  then show ?thesis by simp
qed

lemma qhat_too_big:
  fixes q r u2 v1 v2 d0 n0 P :: nat
  assumes "N = (T * B + u2) * P + n0" "D = (v1 * B + v2) * P + d0"
    and "q * v1 + r = T" "n0 < P" "r * B + u2 < q * v2"
  shows "N div D < q"
proof -
  have "T * B + u2 < q * (v1 * B + v2)"
    using assms(5) by (simp add: assms(3) [symmetric] algebra_simps)
  then have "Suc (T * B + u2) * P \<le> q * (v1 * B + v2) * P"
    by (intro mult_le_mono1) simp
  moreover have "N < Suc (T * B + u2) * P"
    using assms(1,4) by simp
  moreover have "q * (v1 * B + v2) * P \<le> q * D"
    by (simp add: assms(2) algebra_simps)
  ultimately have "N < q * D"
    by linarith
  then show ?thesis by (rule less_mult_imp_div_less)
qed

lemma qhat_close:
  fixes q r u2 v1 v2 d0 n0 P :: nat
  assumes "N = (T * B + u2) * P + n0" "D = (v1 * B + v2) * P + d0"
    and "q * v1 + r = T" "d0 < P" "q < B" "0 < v1" "q * v2 \<le> r * B + u2"
  shows "q * D \<le> N + D"
proof -
  have "q * (v1 * B + v2) \<le> T * B + u2"
    using assms(7) by (simp add: assms(3) [symmetric] algebra_simps)
  then have "q * (v1 * B + v2) * P \<le> (T * B + u2) * P"
    by (rule mult_le_mono1)
  moreover have "q * d0 \<le> B * P"
    using assms(4,5) by (intro mult_le_mono) simp_all
  moreover have "B * P \<le> v1 * B * P"
    using assms(6) by (cases v1) simp_all
  moreover have "v1 * B * P \<le> D" and "q * D = q * (v1 * B + v2) * P + q * d0"
    by (simp_all add: assms(2) algebra_simps)
  ultimately show ?thesis
    using assms(1) by linarith
qed

text \<open>
  The dividend slice and the divisor as the quotient-digit estimate sees them: the three top
  digits of the slice, the two top digits of the normalised divisor, and everything below.
\<close>

lemma recheck_correct:
  fixes v1 v2 u2 :: u32 and q r :: u64
  assumes N: "N = (T * 4294967296 + unat u2) * P + n0" "n0 < P"
    and D: "D = (unat v1 * 4294967296 + unat v2) * P + d0" "d0 < P"
    and v1: "0 < unat v1" and ND: "N < 4294967296 * D"
    and T: "T < (unat v1 + 1) * 4294967296"
    and inv: "unat q * unat v1 + unat r = T" "N div D \<le> unat q" "unat r < 4294967296"
  shows "case recheck (ucast v1) (ucast v2) (ucast u2) q r of (q', r') \<Rightarrow>
           unat q' < 4294967296 \<and> N div D \<le> unat q' \<and> unat q' * D \<le> N + D"
  using inv
proof (induction "ucast v1 :: u64" "ucast v2 :: u64" "ucast u2 :: u64" q r rule: recheck.induct)
  case (1 q r)
  have base: "unat base = 4294967296"
    by (simp add: base_def)
  have lhs: "unat (push_bit 32 r + ucast u2) = unat r * 4294967296 + unat u2"
    using "1.prems"(3) unat_u32_lt [of u2] by (simp add: unat_word_ariths unat_push_bit_32_u64)
  have rhs: "unat (q * ucast v2) = unat q * unat v2" if "unat q < 4294967296"
  proof -
    have "unat q * unat v2 \<le> 4294967295 * 4294967295"
      using that unat_u32_lt [of v2] by (intro mult_le_mono) simp_all
    then show ?thesis by (simp add: unat_word_ariths)
  qed
  have r': "unat (r + ucast v1) = unat r + unat v1"
    using "1.prems"(3) unat_u32_lt [of v1] by (simp add: unat_word_ariths)
  show ?case
  proof (cases "base \<le> q \<or> push_bit 32 r + ucast u2 < q * ucast v2")
    case False
    then have q: "unat q < 4294967296"
      by (simp add: word_le_nat_alt base)
    then have "unat q * unat v2 \<le> unat r * 4294967296 + unat u2"
      using False by (simp add: word_less_nat_alt lhs rhs)
    then have "unat q * D \<le> N + D"
      by (rule qhat_close [OF N(1) D(1) "1.prems"(1) D(2) q v1])
    then show ?thesis
      using False q "1.prems"(2) by (simp add: recheck.simps)
  next
    case True
    have less: "N div D < unat q"
    proof (cases "unat q < 4294967296")
      case False
      then show ?thesis
        using less_mult_imp_div_less [OF ND] by simp
    next
      case q: True
      then have "unat r * 4294967296 + unat u2 < unat q * unat v2"
        using True by (simp add: word_less_nat_alt word_le_nat_alt base lhs rhs)
      then show ?thesis
        by (rule qhat_too_big [OF N(1) D(1) "1.prems"(1) N(2)])
    qed
    then have q1: "unat (q - 1) = unat q - 1"
      by (metis gr_implies_not0 unat_0 unat_minus_one)
    have inv': "unat (q - 1) * unat v1 + unat (r + ucast v1) = T" "N div D \<le> unat (q - 1)"
    proof -
      obtain k where k: "unat q = Suc k"
        using less by (cases "unat q") simp_all
      then show "unat (q - 1) * unat v1 + unat (r + ucast v1) = T" "N div D \<le> unat (q - 1)"
        using "1.prems"(1) less by (simp_all add: q1 r')
    qed
    show ?thesis
    proof (cases "r + ucast v1 < base")
      case lt: True
      then have "unat (r + ucast v1) < 4294967296"
        by (simp add: word_less_nat_alt base)
      then show ?thesis
        using "1.hyps" [OF True lt] inv' True lt by (subst recheck.simps) simp
    next
      case ge: False
      then have r_ge: "4294967296 \<le> unat (r + ucast v1)"
        by (simp add: word_less_nat_alt base)
      have lt: "unat (q - 1) < 4294967296"
      proof (rule ccontr)
        assume "\<not> unat (q - 1) < 4294967296"
        then have "4294967296 * unat v1 \<le> unat (q - 1) * unat v1"
          by (intro mult_le_mono1) simp
        then have "4294967296 * unat v1 + 4294967296 \<le> T"
          using r_ge unfolding inv'(1) [symmetric] by (rule add_mono)
        then show False
          using T by (simp add: algebra_simps)
      qed
      have "unat (q - 1) * unat v2 \<le> unat (r + ucast v1) * 4294967296"
        using lt r_ge unat_u32_lt [of v2] by (intro mult_le_mono) simp_all
      then have "unat (q - 1) * unat v2 \<le> unat (r + ucast v1) * 4294967296 + unat u2"
        by simp
      then have "unat (q - 1) * D \<le> N + D"
        by (rule qhat_close [OF N(1) D(1) inv'(1) D(2) lt v1])
      then show ?thesis
        using True ge lt inv'(2) by (simp add: recheck.simps)
    qed
  qed
qed


lemma nval_take_mod: "n \<le> length xs \<Longrightarrow> nval (take n xs) = nval xs mod 4294967296 ^ n"
  using nval_take_drop [of n xs] nval_less [of "take n xs"] by (simp add: min_absorb2)

lemma nval_top_digit:
  assumes "length xs = Suc m"
  shows "nval xs = nval (take m xs) + 4294967296 ^ m * unat (xs ! m)"
proof -
  have "xs = take m xs @ [xs ! m]"
    using take_Suc_conv_app_nth [of m xs] assms by simp
  then have "nval xs = nval (take m xs @ [xs ! m])"
    by (rule arg_cong)
  then show ?thesis
    using assms by (simp add: nval_append)
qed

lemma nval_top2:
  assumes "length xs = m + 2"
  shows "nval xs = (unat (xs ! (m + 1)) * 4294967296 + unat (xs ! m)) * 4294967296 ^ m + nval (take m xs)"
  using nval_top_digit [of xs "m + 1"] nval_top_digit [of "take (m + 1) xs" m] assms
  by (simp add: min_absorb1 algebra_simps)

lemma nval_top3:
  assumes "length xs = m + 3"
  shows "nval xs = ((unat (xs ! (m + 2)) * 4294967296 + unat (xs ! (m + 1))) * 4294967296
            + unat (xs ! m)) * 4294967296 ^ m + nval (take m xs)"
  using nval_top_digit [of xs "m + 2"] nval_top2 [of "take (m + 2) xs" m] assms
  by (simp add: min_absorb1 algebra_simps)

lemma unat_concat_u32:
  "unat (push_bit 32 (ucast (a :: u32)) OR ucast (b :: u32) :: u64) = unat a * 4294967296 + unat b"
proof -
  have "push_bit 32 (ucast a) OR ucast b = push_bit 32 (ucast a) + (ucast b :: u64)"
    by (rule disjunctive_add [symmetric])
      (auto simp: bit_simps dest: bit_imp_le_length)
  then show ?thesis
    using unat_u32_lt [of a] unat_u32_lt [of b]
    by (simp add: unat_word_ariths unat_push_bit_32_u64)
qed

lemma qhat_step_correct:
  fixes denom numer :: digits and j :: nat
  defines "n \<equiv> length denom"
  defines "D \<equiv> nval denom" and "N \<equiv> nval (take (n + 1) (drop j numer))"
  defines "temp \<equiv> push_bit 32 (ucast (numer ! (j + n)) :: u64) OR ucast (numer ! (j + n - 1))"
  assumes "2 \<le> n" "denom ! (n - 1) \<noteq> 0" "j + n < length numer"
    and top: "nval (take n (drop (Suc j) numer)) < D"
  shows "case recheck (ucast (denom ! (n - 1))) (ucast (denom ! (n - 2))) (ucast (numer ! (j + n - 2)))
             (temp div ucast (denom ! (n - 1))) (temp mod ucast (denom ! (n - 1))) of (q, r) \<Rightarrow>
           unat q < 4294967296 \<and> N div D \<le> unat q \<and> unat q * D \<le> N + D"
proof -
  define m where "m = n - 2"
  have n: "n = m + 2"
    using \<open>2 \<le> n\<close> by (simp add: m_def)
  let ?S = "take (n + 1) (drop j numer)"
  let ?u0 = "numer ! (j + n)" and ?u1 = "numer ! (j + n - 1)" and ?u2 = "numer ! (j + n - 2)"
  let ?v1 = "denom ! (n - 1)" and ?v2 = "denom ! (n - 2)"
  have len: "length ?S = m + 3"
    using assms(7) by (simp add: n)
  have S: "?S ! (m + 2) = ?u0" "?S ! (m + 1) = ?u1" "?S ! m = ?u2"
    using assms(7) by (simp_all add: n add.assoc)
  let ?T = "unat ?u0 * 4294967296 + unat ?u1"
  have N: "N = (?T * 4294967296 + unat ?u2) * 4294967296 ^ m + nval (take m ?S)"
    unfolding N_def nval_top3 [OF len] S ..
  have N0: "nval (take m ?S) < 4294967296 ^ m"
    using nval_less [of "take m ?S"] len by (simp add: min_absorb2)
  have D: "D = (unat ?v1 * 4294967296 + unat ?v2) * 4294967296 ^ m + nval (take m denom)"
    unfolding D_def using nval_top2 [of denom m] by (simp add: n [unfolded n_def] n_def)
  have D0: "nval (take m denom) < 4294967296 ^ m"
    using nval_less [of "take m denom"] n by (simp add: n_def min_absorb2)
  have v1: "0 < unat ?v1"
    using assms(6) by (simp add: unat_gt_0)
  have "?S = numer ! j # take n (drop (Suc j) numer)"
    using assms(7) by (simp add: Cons_nth_drop_Suc [symmetric])
  then have "N = unat (numer ! j) + 4294967296 * nval (take n (drop (Suc j) numer))"
    by (simp add: N_def)
  moreover have "4294967296 * Suc (nval (take n (drop (Suc j) numer))) \<le> 4294967296 * D"
    using top by (intro mult_le_mono2) simp
  ultimately have ND: "N < 4294967296 * D"
    using unat_u32_lt [of "numer ! j"] by simp
  have "unat ?u0 * 4294967296 * 4294967296 * 4294967296 ^ m \<le> N"
    by (simp add: N algebra_simps)
  also have "N < 4294967296 * D" by (fact ND)
  also have "D < (unat ?v1 + 1) * 4294967296 * 4294967296 ^ m"
  proof -
    have "Suc (unat ?v2) * 4294967296 ^ m \<le> 4294967296 * 4294967296 ^ m"
      using unat_u32_lt [of ?v2] by (intro mult_le_mono1) simp
    then have "unat ?v2 * 4294967296 ^ m + 4294967296 ^ m \<le> 4294967296 * 4294967296 ^ m"
      by (simp only: mult_Suc add.commute)
    then show ?thesis
      using D0 unfolding D distrib_right mult.assoc by linarith
  qed
  finally have "unat ?u0 * (4294967296 * 4294967296 * 4294967296 ^ m)
      < (unat ?v1 + 1) * (4294967296 * 4294967296 * 4294967296 ^ m)"
    by (simp add: algebra_simps)
  then have "unat ?u0 < unat ?v1 + 1"
    by (simp only: mult_less_cancel2)
  then have "Suc (unat ?u0) * 4294967296 \<le> (unat ?v1 + 1) * 4294967296"
    by (intro mult_le_mono1) simp
  then have T: "?T < (unat ?v1 + 1) * 4294967296"
    using unat_u32_lt [of ?u1] by simp
  have temp: "unat temp = ?T"
    unfolding temp_def by (rule unat_concat_u32)
  have init: "unat (temp div ucast ?v1) * unat ?v1 + unat (temp mod ucast ?v1) = ?T"
    by (simp add: unat_div_distrib unat_mod_distrib temp)
  have ge: "N div D \<le> unat (temp div ucast ?v1)"
    using qhat_initial [OF N D unat_u32_lt N0 v1] by (simp add: unat_div_distrib temp)
  have lt: "unat (temp mod ucast ?v1) < 4294967296"
    using less_trans [OF mod_less_divisor [OF v1] unat_u32_lt] by (simp add: unat_mod_distrib)
  show ?thesis
    by (rule recheck_correct [OF N N0 D D0 v1 ND T init ge lt])
qed


lemma div_n_step_correct:
  fixes denom :: digits and j :: nat and s :: div_state
  defines "n \<equiv> length denom" and "D \<equiv> nval denom"
    and "N \<equiv> nval (take (length denom + 1) (drop j (ds_numer s)))"
  assumes "2 \<le> n" "denom ! (n - 1) \<noteq> 0" "j + n < length (ds_numer s)" "j < length (ds_quot s)"
    and "nval (take n (drop (Suc j) (ds_numer s))) < D"
  shows "length (ds_numer (div_n_step denom j s)) = length (ds_numer s) \<and>
    take j (ds_numer (div_n_step denom j s)) = take j (ds_numer s) \<and>
    nval (take (n + 1) (drop j (ds_numer (div_n_step denom j s)))) = N mod D \<and>
    (\<exists>q. ds_quot (div_n_step denom j s) = (ds_quot s)[j := q] \<and> unat q = N div D)"
proof -
  define numer where "numer = ds_numer s"
  define S where "S = take (n + 1) (drop j numer)"
  define temp where "temp = push_bit 32 (ucast (numer ! (j + n)) :: u64) OR ucast (numer ! (j + n - 1))"
  define v1 :: u64 where "v1 = ucast (denom ! (n - 1))"
  obtain q r where qr: "recheck v1 (ucast (denom ! (n - 2))) (ucast (numer ! (j + n - 2)))
      (temp div v1) (temp mod v1) = (q, r)"
    by fastforce
  define q' :: u32 where "q' = ucast q"
  define ms where "ms = mpn_mul [q'] denom (resize_buf (ds_ms s) (n + 1))"
  obtain c borrow where cb: "mpn_sub S ms = (c, borrow)"
    by fastforce
  have N: "N = nval S" and lenS: "length S = n + 1"
    using assms(6) by (simp_all add: N_def S_def n_def numer_def)
  have q: "unat q < 4294967296" "N div D \<le> unat q" "unat q * D \<le> N + D"
    using qhat_step_correct [of denom j numer] assms(4-8) qr
    by (simp_all add: numer_def n_def D_def N_def temp_def v1_def)
  have q': "unat q' = unat q"
    using q(1) by (simp add: q'_def unat_ucast_u64_u32)
  have ms: "length ms = n + 1" "nval ms = unat q * D"
    using mpn_mul_correct [of "resize_buf (ds_ms s) (n + 1)" "[q']" denom]
    by (simp_all add: ms_def n_def D_def q')
  have c: "length c = n + 1" "borrow = of_bool (N < unat q * D)"
    "int (nval c) = int N - int (unat q * D) + 4294967296 ^ (n + 1) * of_bool (N < unat q * D)"
    using mpn_sub_correct [of S ms] lenS ms cb by (simp_all add: N)
  have D0: "0 < D"
    using assms(8) by linarith
  have NmD: "N mod D < 4294967296 ^ (n + 1)"
    using nval_less [of S] lenS N by (metis less_le_trans mod_less_eq_dividend not_less order.strict_trans1)
  have len: "length numer = j + (n + 1) + (length numer - (j + n + 1))"
    using assms(6) by (simp add: numer_def)
  have step: "div_n_step denom j s =
    (if borrow \<noteq> 0
     then s\<lparr>ds_numer := take j numer @ take (n + 1) (fst (mpn_add denom c)) @ drop (j + n + 1) numer,
            ds_quot := (ds_quot s)[j := q' - 1], ds_ms := ms, ds_ab := fst (mpn_add denom c)\<rparr>
     else s\<lparr>ds_numer := take j numer @ c @ drop (j + n + 1) numer,
            ds_quot := (ds_quot s)[j := q'], ds_ms := ms\<rparr>)"
    unfolding div_n_step_def Let_def n_def [symmetric] numer_def [symmetric]
    unfolding temp_def [symmetric] v1_def [symmetric]
    unfolding qr prod.case
    unfolding q'_def [symmetric]
    unfolding ms_def [symmetric] S_def [symmetric]
    unfolding cb prod.case
    using c(1) assms(6,7) by (simp add: numer_def)
  show ?thesis
  proof (cases "N < unat q * D")
    case True
    have nd: "N div D = unat q - 1"
    proof -
      have "N div D < unat q"
        using True by (rule less_mult_imp_div_less)
      moreover have "unat q \<le> Suc (N div D)"
        using q(3) D0 div_le_mono [of "unat q * D" "N + D" D] by (simp add: div_add_self2)
      ultimately show ?thesis by simp
    qed
    define ab where "ab = fst (mpn_add denom c)"
    have ab: "length ab = n + 2" "nval ab = D + nval c"
      using mpn_add_correct [of denom c] c(1) by (simp_all add: ab_def n_def D_def case_prod_beta)
    have "int (D + nval c) = int (N mod D) + 4294967296 ^ (n + 1)"
    proof -
      have "unat q * D = D + (N div D) * D"
        using True nd by (cases "unat q") simp_all
      moreover have "int N = int ((N div D) * D) + int (N mod D)"
        using div_mult_mod_eq [of N D] by (metis of_nat_add)
      ultimately show ?thesis
        using c(3) True by simp
    qed
    then have "int (D + nval c) = int (N mod D + 4294967296 ^ (n + 1))"
      by simp
    then have "D + nval c = N mod D + 4294967296 ^ (n + 1)"
      by (simp only: of_nat_eq_iff)
    then have "nval (take (n + 1) ab) = N mod D"
      using nval_take_mod [of "n + 1" ab] ab NmD by simp
    moreover have "unat (q' - 1) = N div D"
      using True nd q' by (metis less_nat_zero_code mult_0 unat_0 unat_minus_one)
    ultimately show ?thesis
      using len ab(1) True c(2) by (auto simp: step ab_def [symmetric] numer_def)
  next
    case False
    have nd: "N div D = unat q"
      using q(2) False D0 by (metis div_le_mono le_antisym nonzero_mult_div_cancel_right not_less less_not_refl3)
    then have "int (nval c) = int N - int (N div D * D)"
      using c(3) False by simp
    then have "nval c = N mod D"
      using div_mult_mod_eq [of N D] by linarith
    then show ?thesis
      using len c(1) False c(2) nd q' by (auto simp: step numer_def)
  qed
qed

end
