(* ===== verification/MpnDivProof.thy ===== *)
theory MpnDivProof
  imports MpnDiv
begin

text \<open>
  Correctness of the division of util/mpn.cpp as a whole: the loop over the digits, the shifts of
  the normalization and back, the one-digit case and every path of \<open>mpn_manager::div\<close>.
\<close>

lemma div_n_loop_correct:
  assumes "2 \<le> length denom" "denom ! (length denom - 1) \<noteq> 0"
    and "j + length denom \<le> length (ds_numer s)" "j \<le> length (ds_quot s)"
    and "nval (take (length denom) (drop j (ds_numer s))) < nval denom"
  shows "length (ds_numer (div_n_loop denom j s)) = length (ds_numer s) \<and>
    length (ds_quot (div_n_loop denom j s)) = length (ds_quot s) \<and>
    drop j (ds_quot (div_n_loop denom j s)) = drop j (ds_quot s) \<and>
    nval (take (length denom) (ds_numer (div_n_loop denom j s))) < nval denom \<and>
    nval (take (j + length denom) (ds_numer s))
      = nval (take j (ds_quot (div_n_loop denom j s))) * nval denom
        + nval (take (length denom) (ds_numer (div_n_loop denom j s)))"
  using assms
proof (induction j arbitrary: s)
  case 0
  then show ?case by simp
next
  case (Suc j)
  let ?n = "length denom" and ?D = "nval denom"
  define N where "N = nval (take (?n + 1) (drop j (ds_numer s)))"
  define s' where "s' = div_n_step denom j s"
  obtain q where s': "length (ds_numer s') = length (ds_numer s)"
    "take j (ds_numer s') = take j (ds_numer s)"
    "nval (take (?n + 1) (drop j (ds_numer s'))) = N mod ?D"
    "ds_quot s' = (ds_quot s)[j := q]" "unat q = N div ?D"
    using div_n_step_correct [of denom j s] Suc.prems by (auto simp: s'_def N_def)
  have D0: "0 < ?D"
    using Suc.prems(5) by linarith
  have "?D < 4294967296 ^ ?n"
    by (rule nval_less)
  moreover have "take ?n (drop j (ds_numer s')) = take ?n (take (?n + 1) (drop j (ds_numer s')))"
    by simp
  ultimately have slice: "nval (take ?n (drop j (ds_numer s'))) = N mod ?D"
    using Suc.prems(3) s'(1,3) mod_less_divisor [OF D0, of N]
    by (simp only: nval_take_mod length_take length_drop) (simp add: nval_take_mod)
  define t where "t = div_n_loop denom j s'"
  have IH: "length (ds_numer t) = length (ds_numer s')" "length (ds_quot t) = length (ds_quot s')"
    "drop j (ds_quot t) = drop j (ds_quot s')" "nval (take ?n (ds_numer t)) < ?D"
    "nval (take (j + ?n) (ds_numer s')) = nval (take j (ds_quot t)) * ?D + nval (take ?n (ds_numer t))"
    using Suc.IH [of s'] Suc.prems s' slice mod_less_divisor [OF D0, of N] by (simp_all add: t_def)
  have j: "j < length (ds_quot t)"
    using IH(2) s'(4) Suc.prems(4) by simp
  have "drop j (ds_quot t) = q # drop (Suc j) (ds_quot s)"
    using IH(3) s'(4) Suc.prems(4) by (simp add: Cons_nth_drop_Suc [symmetric])
  then have quot: "ds_quot t ! j = q" "drop (Suc j) (ds_quot t) = drop (Suc j) (ds_quot s)"
    using Cons_nth_drop_Suc [OF j] by (metis list.inject)+
  have split: "nval (take (j + k) xs) = nval (take j xs) + 4294967296 ^ j * nval (take k (drop j xs))"
    if "j \<le> length xs" for k and xs :: digits
    using that by (simp add: take_add nval_append min_absorb2)
  have "nval (take (Suc j + ?n) (ds_numer s)) = nval (take j (ds_numer s)) + 4294967296 ^ j * N"
    using split [of "ds_numer s" "?n + 1"] Suc.prems(3) by (simp add: N_def)
  moreover have "nval (take (j + ?n) (ds_numer s')) = nval (take j (ds_numer s)) + 4294967296 ^ j * (N mod ?D)"
    using split [of "ds_numer s'" ?n] Suc.prems(3) s'(1,2) slice by simp
  moreover have "nval (take (Suc j) (ds_quot t)) = nval (take j (ds_quot t)) + 4294967296 ^ j * (N div ?D)"
    using j by (simp add: take_Suc_conv_app_nth nval_append quot s'(5))
  moreover have "4294967296 ^ j * N = 4294967296 ^ j * (N div ?D) * ?D + 4294967296 ^ j * (N mod ?D)"
    by (rule mult_div_mod_split)
  ultimately have "nval (take (Suc j + ?n) (ds_numer s))
      = nval (take (Suc j) (ds_quot t)) * ?D + nval (take ?n (ds_numer t))"
    using IH(5) by (simp add: distrib_right)
  moreover have "div_n_loop denom (Suc j) s = t"
    by (simp add: t_def s'_def)
  ultimately show ?case
    using IH(1,2,4) s'(1,4) quot(2) by simp
qed

section \<open>Normalisation\<close>

lemma bit_mask_first: "n < 32 \<Longrightarrow> bit mask_first n \<longleftrightarrow> n = 31"
  by (auto simp: mask_first_def bit_simps)

lemma unat_push_bit_u32: "unat (push_bit d (x :: u32)) = unat x * 2 ^ d mod 4294967296"
  by (subst unsigned_push_bit_eq) (simp add: push_bit_eq_mult take_bit_eq_mod)

lemma unat_drop_bit_u32: "unat (drop_bit d (x :: u32)) = unat x div 2 ^ d"
  using unat_u32_lt [of x]
  by (subst unsigned_drop_bit_eq) (simp add: drop_bit_eq_div take_bit_nat_eq_self)

lemma mask_first_test:
  assumes "d < 32"
  shows "push_bit d x AND mask_first = 0 \<longleftrightarrow> \<not> bit x (31 - d)"
proof -
  have "bit (push_bit d x AND mask_first) i \<longleftrightarrow> i = 31 \<and> bit x (31 - d)" for i
    using assms bit_mask_first by (cases "i < 32") (auto simp: bit_simps dest: bit_imp_le_length)
  then show ?thesis
    by (auto simp: bit_eq_iff [of "push_bit d x AND mask_first"])
qed

lemma bit_u32_top:
  assumes "unat (x :: u32) < 2 ^ Suc n" "n < 32"
  shows "bit x n \<longleftrightarrow> 2 ^ n \<le> unat x"
proof -
  have "bit (unat x) n \<longleftrightarrow> bit x n"
    by (simp add: bit_unsigned_iff)
  then have "bit x n \<longleftrightarrow> odd (unat x div 2 ^ n)"
    by (simp add: bit_iff_odd)
  moreover have "unat x div 2 ^ n < 2"
    using assms(1) by (simp add: less_mult_imp_div_less)
  moreover have "unat x div 2 ^ n = 0 \<longleftrightarrow> unat x < 2 ^ n"
    by (simp add: div_eq_0_iff)
  ultimately show ?thesis
    by (auto simp: less_Suc_eq numeral_2_eq_2)
qed

lemma norm_shift_correct:
  assumes "x \<noteq> 0" "d \<le> 31" "unat x < 2 ^ (32 - d)"
  shows "norm_shift x d \<le> 31 \<and> unat x < 2 ^ (32 - norm_shift x d) \<and> 2 ^ (31 - norm_shift x d) \<le> unat x"
  using assms
proof (induction x d rule: norm_shift.induct)
  case (1 x d)
  have test: "push_bit d x AND mask_first = 0 \<longleftrightarrow> unat x < 2 ^ (31 - d)"
  proof -
    have "Suc (31 - d) = 32 - d"
      using "1.prems"(2) by simp
    then have "bit x (31 - d) \<longleftrightarrow> 2 ^ (31 - d) \<le> unat x"
      using "1.prems"(3) by (intro bit_u32_top) simp_all
    then show ?thesis
      using "1.prems"(2) mask_first_test [of d x] by (simp add: not_le)
  qed
  show ?case
  proof (cases "push_bit d x AND mask_first = 0")
    case True
    then have lt: "unat x < 2 ^ (31 - d)"
      using test by simp
    then have "d < 31"
      using "1.prems"(1,2) by (cases "d = 31") (auto simp: unat_eq_zero)
    then have "norm_shift x (Suc d) \<le> 31 \<and> unat x < 2 ^ (32 - norm_shift x (Suc d)) \<and>
        2 ^ (31 - norm_shift x (Suc d)) \<le> unat x"
      using "1.IH" "1.prems" True lt by simp
    then show ?thesis
      using True \<open>d < 31\<close> by (simp add: norm_shift.simps [of x d])
  next
    case False
    then show ?thesis
      using "1.prems" test by (simp add: norm_shift.simps [of x d])
  qed
qed


lemma pow2_split: "d \<le> 32 \<Longrightarrow> (2::nat) ^ d * 2 ^ (32 - d) = 4294967296"
  by (simp flip: power_add)

lemma or_is_add_u32:
  fixes x y :: u32
  assumes "\<And>n. \<not> (bit x n \<and> bit y n)" and "unat x + unat y < 4294967296"
  shows "unat (x OR y) = unat x + unat y"
proof -
  have "x OR y = x + y"
    using assms(1) by (intro disjunctive_add [symmetric]) blast
  then show ?thesis
    using assms(2) by (simp add: unat_word_ariths)
qed

lemma unat_first_bits: "unat (first_bits d x) = unat x div 2 ^ (32 - d)"
  by (simp add: first_bits_def unat_drop_bit_u32)

lemma shl_digit_split:
  fixes m :: nat
  assumes "d \<le> 32"
  shows "m * 2 ^ d = m * 2 ^ d mod 4294967296 + 4294967296 * (m div 2 ^ (32 - d))"
proof -
  have "m * 2 ^ d div 4294967296 = m div 2 ^ (32 - d)"
    using div_mult_mult1 [of "2 ^ d" m "2 ^ (32 - d)"] pow2_split [OF assms] by (simp add: mult.commute)
  then show ?thesis
    by (metis mod_mult_div_eq add.commute)
qed

lemma unat_shl_digit:
  assumes "0 < d" "d < 32"
  shows "unat (push_bit d x OR first_bits d p) = unat x * 2 ^ d mod 4294967296 + unat p div 2 ^ (32 - d)"
proof -
  have "unat p div 2 ^ (32 - d) < 2 ^ d"
    using assms unat_u32_lt [of p] pow2_split [of d] by (simp add: less_mult_imp_div_less)
  moreover have "unat x * 2 ^ d mod 4294967296 = (unat x mod 2 ^ (32 - d)) * 2 ^ d"
    using assms pow2_split [of d] mult_mod_left [of "unat x" "2 ^ (32 - d)" "2 ^ d"]
    by (simp add: mult.commute)
  moreover have "Suc (unat x mod 2 ^ (32 - d)) * 2 ^ d \<le> 2 ^ (32 - d) * 2 ^ d"
    by (intro mult_le_mono1) (simp add: Suc_leI)
  ultimately have "unat (push_bit d x) + unat (first_bits d p) < 4294967296"
    using assms pow2_split [of d] by (simp add: unat_push_bit_u32 unat_first_bits mult.commute)
  moreover have "\<not> (bit (push_bit d x) n \<and> bit (first_bits d p) n)" for n
    using assms by (auto simp: first_bits_def bit_simps dest: bit_imp_le_length)
  ultimately have "unat (push_bit d x OR first_bits d p) = unat (push_bit d x) + unat (first_bits d p)"
    by (intro or_is_add_u32)
  then show ?thesis
    by (simp add: unat_push_bit_u32 unat_first_bits)
qed

lemma shl_tail_snoc:
  "xs \<noteq> [] \<Longrightarrow> shl_tail d (xs @ [y]) = shl_tail d xs @ [push_bit d y OR first_bits d (last xs)]"
  by (auto simp: shl_tail_def nth_append last_conv_nth Suc_le_eq)

lemma length_shl_tail [simp]: "length (shl_tail d xs) = length xs - 1"
  by (simp add: shl_tail_def)

lemma nval_shl:
  assumes "xs \<noteq> []" "0 < d" "d < 32"
  shows "nval (push_bit d (xs ! 0) # shl_tail d xs) + 4294967296 ^ length xs * (unat (last xs) div 2 ^ (32 - d))
           = nval xs * 2 ^ d"
  using assms(1)
proof (induction xs rule: rev_nonempty_induct)
  case (single x)
  have "unat x * 2 ^ d = unat x * 2 ^ d mod 4294967296 + 4294967296 * (unat x div 2 ^ (32 - d))"
    using assms by (intro shl_digit_split) simp
  then show ?case
    by (simp add: shl_tail_def unat_push_bit_u32)
next
  case (snoc y xs)
  let ?A = "push_bit d (xs ! 0) # shl_tail d xs"
  have len: "length ?A = length xs"
    using snoc.hyps by (cases xs) simp_all
  have "push_bit d ((xs @ [y]) ! 0) # shl_tail d (xs @ [y]) = ?A @ [push_bit d y OR first_bits d (last xs)]"
    using snoc.hyps by (simp add: shl_tail_snoc nth_append)
  then have "nval (push_bit d ((xs @ [y]) ! 0) # shl_tail d (xs @ [y]))
      = nval ?A + 4294967296 ^ length xs * (unat y * 2 ^ d mod 4294967296 + unat (last xs) div 2 ^ (32 - d))"
    using nval_append [of ?A "[push_bit d y OR first_bits d (last xs)]"] len assms
    by (simp only: nval.simps unat_shl_digit) simp
  moreover have "4294967296 ^ length xs * (unat y * 2 ^ d)
      = 4294967296 ^ length xs * (unat y * 2 ^ d mod 4294967296 + 4294967296 * (unat y div 2 ^ (32 - d)))"
    using shl_digit_split [of d "unat y"] assms by simp
  ultimately show ?case
    using snoc.IH by (simp add: nval_append algebra_simps)
qed

lemma unat_last_bits:
  assumes "d \<le> 32"
  shows "unat (last_bits d y) = unat y mod 2 ^ d"
proof -
  have "unat (push_bit (32 - d) y) = (unat y mod 2 ^ d) * 2 ^ (32 - d)"
    using pow2_split [OF assms] mult_mod_left [of "unat y" "2 ^ d" "2 ^ (32 - d)"]
    by (simp add: unat_push_bit_u32)
  then show ?thesis
    by (simp add: last_bits_def unat_drop_bit_u32)
qed

lemma unat_shr_digit:
  assumes "0 < d" "d < 32"
  shows "unat (drop_bit d x OR push_bit (32 - d) (last_bits d y))
           = unat x div 2 ^ d + unat y mod 2 ^ d * 2 ^ (32 - d)"
proof -
  have "unat y mod 2 ^ d * 2 ^ (32 - d) + 2 ^ (32 - d) \<le> 2 ^ d * 2 ^ (32 - d)"
    using mult_le_mono1 [of "Suc (unat y mod 2 ^ d)" "2 ^ d" "2 ^ (32 - d)"] by (simp add: Suc_leI)
  moreover have x: "unat x div 2 ^ d < 2 ^ (32 - d)"
    using assms unat_u32_lt [of x] pow2_split [of d] by (simp add: less_mult_imp_div_less mult.commute)
  moreover have "(0::nat) < 2 ^ (32 - d)"
    by simp
  ultimately have lt: "unat y mod 2 ^ d * 2 ^ (32 - d) + unat x div 2 ^ d < 4294967296"
    using assms pow2_split [of d] by simp
  then have p: "unat (push_bit (32 - d) (last_bits d y)) = unat y mod 2 ^ d * 2 ^ (32 - d)"
    using assms by (simp add: unat_push_bit_u32 unat_last_bits)
  show ?thesis
    using lt assms by (subst or_is_add_u32)
      (auto simp: p unat_drop_bit_u32 bit_simps dest: bit_imp_le_length)
qed


definition shr_digits :: "nat \<Rightarrow> digits \<Rightarrow> digits" where
  "shr_digits d xs = map (\<lambda>i. drop_bit d (xs ! i) OR push_bit (32 - d) (last_bits d (xs ! (i + 1))))
     [0..<length xs - 1] @ [drop_bit d (xs ! (length xs - 1))]"

lemma length_shr_digits: "xs \<noteq> [] \<Longrightarrow> length (shr_digits d xs) = length xs"
  by (cases xs) (simp_all add: shr_digits_def)

lemma nval_shr:
  assumes "xs \<noteq> []" "0 < d" "d < 32"
  shows "nval (shr_digits d xs) = nval xs div 2 ^ d"
  using assms(1)
proof (induction xs rule: list_nonempty_induct)
  case (single x)
  then show ?case by (simp add: shr_digits_def unat_drop_bit_u32)
next
  case (cons x xs)
  then obtain y zs where xs: "xs = y # zs"
    by (cases xs) auto
  let ?P = "(2::nat) ^ d" and ?Q = "(2::nat) ^ (32 - d)"
  have PQ: "4294967296 = ?P * ?Q"
    using pow2_split [of d] assms by simp
  have "shr_digits d (x # xs) = (drop_bit d x OR push_bit (32 - d) (last_bits d y)) # shr_digits d xs"
    by (simp add: shr_digits_def xs map_upt_Suc del: upt_Suc)
  then have "nval (shr_digits d (x # xs))
      = unat x div ?P + unat y mod ?P * ?Q + 4294967296 * (nval xs div ?P)"
    using cons.IH assms by (simp add: unat_shr_digit)
  also have "unat y mod ?P = nval xs mod ?P"
    by (simp add: xs PQ mult.assoc)
  also have "unat x div ?P + nval xs mod ?P * ?Q + 4294967296 * (nval xs div ?P)
      = unat x div ?P + ?Q * (nval xs mod ?P + ?P * (nval xs div ?P))"
    by (simp only: PQ distrib_left) (simp add: mult_ac)
  also have "\<dots> = (unat x + ?P * (?Q * nval xs)) div ?P"
    by simp
  also have "\<dots> = nval (x # xs) div ?P"
    by (simp only: PQ nval.simps mult.assoc)
  finally show ?case .
qed

lemma div_unnormalize_eq:
  assumes "denom \<noteq> []" "length denom \<le> length numer"
  shows "div_unnormalize numer denom d
    = (if d = 0 then take (length denom) numer else shr_digits d (take (length denom) numer))"
  using assms by (auto simp: div_unnormalize_def shr_digits_def Let_def min_absorb2)

lemma div_unnormalize_correct:
  assumes "denom \<noteq> []" "length denom \<le> length numer" "d < 32"
  shows "length (div_unnormalize numer denom d) = length denom \<and>
    nval (div_unnormalize numer denom d) = nval (take (length denom) numer) div 2 ^ d"
proof -
  have "take (length denom) numer \<noteq> []"
    using assms by auto
  then show ?thesis
    using assms nval_shr [of "take (length denom) numer" d]
    by (auto simp: div_unnormalize_eq length_shr_digits)
qed

lemma nval_last_bounds:
  assumes "xs \<noteq> []"
  shows "unat (last xs) * 4294967296 ^ (length xs - 1) \<le> nval xs"
    and "nval xs < Suc (unat (last xs)) * 4294967296 ^ (length xs - 1)"
  using assms by (cases xs rule: rev_cases; simp add: nval_append nval_less)+

lemma div_normalize_correct:
  assumes "numer \<noteq> []" "denom \<noteq> []" "last denom \<noteq> 0"
  shows "case div_normalize numer denom u v of (d, n_numer, n_denom) \<Rightarrow>
    d < 32 \<and> length n_numer = length numer + 1 \<and> length n_denom = length denom \<and>
    nval n_numer = nval numer * 2 ^ d \<and> nval n_denom = nval denom * 2 ^ d \<and>
    2147483648 \<le> unat (last n_denom)"
proof -
  define d where "d = norm_shift (denom ! (length denom - 1)) 0"
  have last: "denom ! (length denom - 1) = last denom"
    using assms(2) by (simp add: last_conv_nth)
  have d: "d \<le> 31" "unat (last denom) < 2 ^ (32 - d)" "2 ^ (31 - d) \<le> unat (last denom)"
    using norm_shift_correct [of "last denom" 0] assms(3) unat_u32_lt [of "last denom"]
    unfolding d_def last by simp_all
  have dn: "div_normalize numer denom u v =
    (if d = 0 then (d, numer @ [0], denom)
     else (d, push_bit d (numer ! 0) # shl_tail d numer @ [first_bits d (last numer)],
           push_bit d (denom ! 0) # shl_tail d denom))"
    using assms(1,2) by (simp add: div_normalize_def Let_def d_def last_conv_nth)
  show ?thesis
  proof (cases "d = 0")
    case True
    then show ?thesis
      using d assms by (simp add: dn nval_append)
  next
    case False
    let ?N = "push_bit d (numer ! 0) # shl_tail d numer" and ?D = "push_bit d (denom ! 0) # shl_tail d denom"
    have d0: "0 < d" "d < 32"
      using False d(1) by simp_all
    have len: "length ?N = length numer" "length ?D = length denom"
      using assms by (simp_all add: Suc_le_eq)
    have N: "nval (?N @ [first_bits d (last numer)]) = nval numer * 2 ^ d"
      using nval_shl [OF assms(1) d0] nval_append [of ?N "[first_bits d (last numer)]"] len
      by (simp only: unat_first_bits nval.simps) simp
    have D: "nval ?D = nval denom * 2 ^ d"
      using nval_shl [OF assms(2) d0] d(2) by simp
    have "2147483648 * 4294967296 ^ (length denom - 1) \<le> nval ?D"
    proof -
      have "(2147483648::nat) = 2 ^ (31 - d) * 2 ^ d"
        using d(1) by (simp flip: power_add)
      also have "\<dots> \<le> unat (last denom) * 2 ^ d"
        using d(3) by (rule mult_le_mono1)
      finally have "2147483648 * 4294967296 ^ (length denom - 1)
          \<le> unat (last denom) * 2 ^ d * 4294967296 ^ (length denom - 1)"
        by (rule mult_le_mono1)
      also have "\<dots> \<le> nval denom * 2 ^ d"
        using mult_le_mono1 [OF nval_last_bounds(1) [OF assms(2)], of "2 ^ d"] by (simp add: mult_ac)
      finally show ?thesis by (simp only: D)
    qed
    also have "nval ?D < Suc (unat (last ?D)) * 4294967296 ^ (length denom - 1)"
      using nval_last_bounds(2) [of ?D] by (simp only: len list.distinct simp_thms)
    finally have "2147483648 < Suc (unat (last ?D))"
      by (simp only: mult_less_cancel2)
    then show ?thesis
      using False d0 N D len by (simp add: dn)
  qed
qed


lemma div_1_step:
  fixes denom a b :: u32
  defines "temp \<equiv> push_bit 32 (ucast a :: u64) OR ucast b"
  assumes "a < denom"
  shows "unat (ucast (temp div ucast denom) :: u32) = unat temp div unat denom"
    and "unat (ucast (temp - temp div ucast denom * ucast denom) :: u32) = unat temp mod unat denom"
    and "(ucast (drop_bit 32 (temp - temp div ucast denom * ucast denom)) :: u32) = 0"
    and "\<not> temp < temp - temp div ucast denom * ucast denom"
    and "unat temp = unat a * 4294967296 + unat b"
proof -
  have ab: "unat a < unat denom"
    using assms(2) by (simp add: word_less_nat_alt)
  show temp: "unat temp = unat a * 4294967296 + unat b"
    unfolding temp_def by (rule unat_concat_u32)
  have "Suc (unat a) * 4294967296 \<le> unat denom * 4294967296"
    using ab by (intro mult_le_mono1) simp
  then have "unat temp < 4294967296 * unat denom"
    using temp unat_u32_lt [of b] by simp
  then have q: "unat temp div unat denom < 4294967296"
    by (rule less_mult_imp_div_less)
  then show "unat (ucast (temp div ucast denom) :: u32) = unat temp div unat denom"
    by (simp add: unat_ucast_u64_u32 unat_div_distrib)
  have ms: "temp - temp div ucast denom * ucast denom = temp mod ucast denom"
    by (metis minus_div_mult_eq_mod)
  have r: "unat (temp mod ucast denom) = unat temp mod unat denom" "unat temp mod unat denom < 4294967296"
    using less_trans [OF mod_less_divisor unat_u32_lt [of denom]] ab by (simp_all add: unat_mod_distrib)
  then show "unat (ucast (temp - temp div ucast denom * ucast denom) :: u32) = unat temp mod unat denom"
    by (simp only: ms unat_ucast_u64_u32) simp
  show "(ucast (drop_bit 32 (temp - temp div ucast denom * ucast denom)) :: u32) = 0"
    unfolding ms using r by (simp only: word_unat_eq_iff unat_ucast_high_u64_u32) simp
  show "\<not> temp < temp - temp div ucast denom * ucast denom"
    unfolding ms by (simp only: word_less_nat_alt r(1) not_less mod_less_eq_dividend)
qed

lemma div_1_loop_correct:
  assumes "j < length numer" "j \<le> length quot" "numer ! j < denom"
  shows "case div_1_loop denom j numer quot of (numer', quot') \<Rightarrow>
    length numer' = length numer \<and> length quot' = length quot \<and> drop j quot' = drop j quot \<and>
    numer' ! 0 < denom \<and>
    nval (take (Suc j) numer) = nval (take j quot') * unat denom + unat (numer' ! 0)"
  using assms
proof (induction j arbitrary: numer quot)
  case 0
  then show ?case by (cases numer) simp_all
next
  case (Suc j)
  let ?a = "numer ! Suc j" and ?b = "numer ! j"
  define temp where "temp = push_bit 32 (ucast ?a :: u64) OR ucast ?b"
  define q :: u32 where "q = ucast (temp div ucast denom)"
  define r :: u32 where "r = ucast (temp - temp div ucast denom * ucast denom)"
  note st = div_1_step [OF Suc.prems(3), of ?b, folded temp_def, folded q_def r_def]
  define numer1 where "numer1 = numer[j := r, Suc j := 0]"
  define quot1 where "quot1 = quot[j := q]"
  have step: "div_1_loop denom (Suc j) numer quot = div_1_loop denom j numer1 quot1"
    by (simp add: Let_def temp_def [symmetric] q_def [symmetric] r_def [symmetric] st(3,4)
        numer1_def quot1_def)
  have "unat r < unat denom"
    using st(2) Suc.prems(3) by (simp add: word_less_nat_alt)
  then have "numer1 ! j < denom"
    using Suc.prems(1) by (simp add: numer1_def word_less_nat_alt)
  then obtain numer' quot' where nq: "div_1_loop denom j numer1 quot1 = (numer', quot')"
    and IH: "length numer' = length numer" "length quot' = length quot" "drop j quot' = drop j quot1"
      "numer' ! 0 < denom" "nval (take (Suc j) numer1) = nval (take j quot') * unat denom + unat (numer' ! 0)"
    using Suc.IH [of numer1 quot1] Suc.prems by (auto simp: numer1_def quot1_def)
  have j: "j < length quot'"
    using IH(2) Suc.prems(2) by simp
  have "drop j quot' = q # drop (Suc j) quot"
    using IH(3) Suc.prems(2) by (simp add: quot1_def Cons_nth_drop_Suc [symmetric])
  then have quot': "quot' ! j = q" "drop (Suc j) quot' = drop (Suc j) quot"
    using Cons_nth_drop_Suc [OF j] by (metis list.inject)+
  have "nval (take (Suc j) numer1) = nval (take j numer) + 4294967296 ^ j * (unat temp mod unat denom)"
    using Suc.prems(1) by (simp add: numer1_def take_Suc_conv_app_nth nval_append st(2))
  moreover have "nval (take (Suc (Suc j)) numer) = nval (take j numer) + 4294967296 ^ j * unat temp"
    using Suc.prems(1) by (simp add: take_Suc_conv_app_nth nval_append st(5) algebra_simps)
  moreover have "nval (take (Suc j) quot') = nval (take j quot') + 4294967296 ^ j * (unat temp div unat denom)"
    using j by (simp add: take_Suc_conv_app_nth nval_append quot'(1) st(1))
  moreover have "4294967296 ^ j * unat temp = 4294967296 ^ j * (unat temp div unat denom) * unat denom
      + 4294967296 ^ j * (unat temp mod unat denom)"
    by (rule mult_div_mod_split)
  ultimately have "nval (take (Suc (Suc j)) numer) = nval (take (Suc j) quot') * unat denom + unat (numer' ! 0)"
    using IH(5) by (simp add: distrib_right)
  then show ?case
    using IH(1,2,4) quot'(2) by (simp add: step nq del: div_1_loop.simps)
qed


lemma div_scaled:
  fixes x y s :: nat
  assumes "0 < s"
  shows "(x * s) div (y * s) = x div y" "((x * s) mod (y * s)) div s = x mod y"
  using assms by (simp_all add: mod_mult_mult2)

lemma div_normalized_correct:
  assumes "numer \<noteq> []" "denom \<noteq> []" "last denom \<noteq> 0" "length denom \<le> length numer"
    and "length quot = length numer - length denom + 1"
    and dn: "div_normalize numer denom u0 v0 = (d, u, v)"
    and t: "div_core m0 u v quot = (t, quot', ms', ab')"
  shows "length quot' = length quot \<and> nval quot' = nval numer div nval denom \<and>
    length (div_unnormalize t v d) = length denom \<and>
    nval (div_unnormalize t v d) = nval numer mod nval denom"
proof -
  let ?n = "length denom"
  have norm: "d < 32" "length u = length numer + 1" "length v = ?n"
    "nval u = nval numer * 2 ^ d" "nval v = nval denom * 2 ^ d" "2147483648 \<le> unat (last v)"
    using div_normalize_correct [OF assms(1-3), of u0 v0] dn by simp_all
  have v: "v \<noteq> []"
    using norm(3) assms(2) by auto
  have lastv: "last v = v ! (?n - 1)"
    using last_conv_nth [OF v] norm(3) by simp
  define m where "m = length numer + 1 - ?n"
  have m: "m = length quot" "length u = m + ?n" "0 < m"
    using assms(4,5) norm(2) by (simp_all add: m_def)
  have top: "nval (take ?n (drop m u)) < nval v"
  proof -
    have "4294967296 ^ m * nval (drop m u) \<le> nval u"
      using nval_take_drop [of m u] m(2) by simp
    also have "nval u < 4294967296 ^ length numer * 2 ^ d"
      using norm(4) nval_less [of numer] by simp
    also have "\<dots> \<le> 4294967296 ^ length numer * 2147483648"
      using norm(1) power_increasing [of d 31 "2::nat"] by (intro mult_le_mono2) simp
    also have "4294967296 ^ length numer = 4294967296 ^ m * (4294967296 :: nat) ^ (?n - 1)"
      using assms(2,4) by (simp add: m_def Suc_le_eq flip: power_add)
    finally have "4294967296 ^ m * nval (drop m u) < 4294967296 ^ m * (2147483648 * 4294967296 ^ (?n - 1))"
      by (simp only: mult.assoc mult.commute [of _ 2147483648])
    then have "nval (drop m u) < 2147483648 * 4294967296 ^ (?n - 1)"
      by (simp only: mult_less_cancel1)
    also have "\<dots> \<le> unat (last v) * 4294967296 ^ (?n - 1)"
      using norm(6) by (rule mult_le_mono1)
    also have "\<dots> \<le> nval v"
      using nval_last_bounds(1) [OF v] norm(3) by simp
    finally show ?thesis
      using m(2) by simp
  qed
  have main: "length quot' = length quot \<and> length v \<le> length t \<and> nval (take ?n t) < nval v \<and>
      nval u = nval quot' * nval v + nval (take ?n t)"
  proof (cases "?n = 1")
    case True
    then have v1: "v = [v ! 0]"
      using norm(3) by (cases v) auto
    have "take 1 (drop m u) = [u ! m]"
      using m(2) True by (simp add: Cons_nth_drop_Suc [symmetric])
    moreover have "nval v = unat (v ! 0)"
      by (subst v1) simp
    ultimately have lt: "u ! m < v ! 0"
      using top True by (simp add: word_less_nat_alt)
    have "div_1_loop (v ! 0) m u quot = (t, quot')"
      using t True m(2) norm(3) by (simp add: div_core_def div_1_def case_prod_beta prod_eq_iff)
    then have r: "length t = length u" "length quot' = length quot" "t ! 0 < v ! 0"
      "nval (take (Suc m) u) = nval (take m quot') * unat (v ! 0) + unat (t ! 0)"
      using div_1_loop_correct [of m u quot "v ! 0"] m True lt by simp_all
    have "take 1 t = [t ! 0]"
      using r(1) m(2) True by (cases t) simp_all
    then show ?thesis
      using r m True by (subst (2 3) v1, subst v1) (simp add: word_less_nat_alt)
  next
    case False
    then have n2: "2 \<le> ?n"
      using assms(2) by (cases denom; cases "tl denom") auto
    let ?s = "\<lparr>ds_numer = u, ds_quot = quot, ds_ms = mm_ms m0, ds_ab = mm_ab m0\<rparr>"
    have s: "t = ds_numer (div_n_loop v m ?s)" "quot' = ds_quot (div_n_loop v m ?s)"
      using t False m(2) norm(3) by (simp_all add: div_core_def div_n_def Let_def)
    have "v ! (?n - 1) \<noteq> 0"
      using norm(6) lastv by auto
    then show ?thesis
      using div_n_loop_correct [of v m ?s] n2 norm(3) m top by (simp add: s)
  qed
  have P: "(0::nat) < 2 ^ d"
    by simp
  have "nval quot' = nval u div nval v" "nval (take ?n t) = nval u mod nval v"
    using main by (simp_all add: add.commute [of _ "nval (take ?n t)"])
  then have q: "nval quot' = nval numer div nval denom"
    and r: "nval (take ?n t) div 2 ^ d = nval numer mod nval denom"
    using div_scaled [OF P] norm(4,5) by simp_all
  then show ?thesis
    using main div_unnormalize_correct [of v t d] v norm(1,3) by simp
qed

theorem mpn_div_correct:
  assumes "denom \<noteq> []" "last denom \<noteq> 0" "length denom \<le> length numer"
    and "length quot = length numer - length denom + 1" "length rem = length denom"
  shows "\<exists>m' res q r. mpn_div m numer denom quot rem = Some (m', res, q, r) \<and>
           length q = length quot \<and> nval q = nval numer div nval denom \<and>
           length r = length denom \<and> nval r = nval numer mod nval denom"
proof -
  have numer: "numer \<noteq> []"
    using assms(1,3) by auto
  have nz: "\<not> (\<forall>x \<in> set denom. x = 0)"
    using assms(1,2) by (meson last_in_set)
  consider (one) "length numer = 1" "length denom = 1"
    | (small) "\<not> (length numer = 1 \<and> length denom = 1)" "length numer = length denom"
        "numer ! (length numer - 1) < denom ! (length denom - 1)"
    | (norm) "\<not> (length numer = 1 \<and> length denom = 1)"
        "\<not> (length numer = length denom \<and> numer ! (length numer - 1) < denom ! (length denom - 1))"
    by blast
  then show ?thesis
  proof cases
    case one
    then obtain x y where xy: "numer = [x]" "denom = [y]"
      by (auto simp: length_Suc_conv)
    obtain q0 r0 where qr: "quot = [q0]" "rem = [r0]"
      using assms(4,5) one by (auto simp: length_Suc_conv)
    show ?thesis
      using nz assms(4,5) by (auto simp: mpn_div_def xy qr unat_div_distrib unat_mod_distrib intro: exI [of _ False])
  next
    case small
    have lt: "nval numer < nval denom"
    proof -
      have "Suc (unat (last numer)) \<le> unat (last denom)"
        using small(3) numer assms(1) by (simp add: last_conv_nth word_less_nat_alt Suc_le_eq)
      then have "Suc (unat (last numer)) * 4294967296 ^ (length numer - 1)
          \<le> unat (last denom) * 4294967296 ^ (length denom - 1)"
        unfolding small(2) by (rule mult_le_mono1)
      then show ?thesis
        using nval_last_bounds(2) [OF numer] nval_last_bounds(1) [OF assms(1)] by linarith
    qed
    obtain q0 where q0: "quot = [q0]"
      using assms(4) small(2) by (auto simp: length_Suc_conv)
    have copy: "map (\<lambda>i. if i < length denom then numer ! i else 0) [0..<length denom] = numer"
      using small(2) by (intro nth_equalityI) simp_all
    have "mpn_div m numer denom quot rem = Some (m, False, [0], numer)"
      using nz small assms(5) by (auto simp: mpn_div_def Let_def copy q0)
    then show ?thesis
      using lt small(2) q0 by auto
  next
    case norm
    obtain d u v where dn: "div_normalize numer denom (mm_u m) (mm_v m) = (d, u, v)"
      using prod_cases3 by blast
    obtain t quot' ms' ab' where t: "div_core m u v quot = (t, quot', ms', ab')"
      using prod_cases4 by blast
    have "mpn_div m numer denom quot rem =
        Some (m\<lparr>mm_u := t, mm_v := v, mm_ms := ms', mm_ab := ab'\<rparr>, True, quot', div_unnormalize t v d)"
      using nz assms(3-5) norm by (auto simp: mpn_div_def Let_def dn t)
    then show ?thesis
      using div_normalized_correct [OF numer assms(1-4) dn t] by blast
  qed
qed

end
