(* ===== verification/Mpz.thy ===== *)
theory Mpz
  imports MpnDivProof "HOL-Library.Signed_Division"
begin

text \<open>
  Model of the multi-precision integers of util/mpz.cpp and util/mpz.h in their internal configuration
  (no GMP, 32-bit digits). A number is small, an \<open>int\<close>, or large, a sign and an array of digits.
  Capacity, ownership and the reuse of cells are memory management and are left out.
\<close>

section \<open>Representation\<close>

type_synonym i32 = "32 word"
type_synonym i64 = "64 word"

datatype mpz = Small i32 | Large int digits

definition int_min :: i32 where "int_min = push_bit 31 1"

fun is_small :: "mpz \<Rightarrow> bool" where
  "is_small (Small v) = True"
| "is_small (Large s ds) = False"

text \<open>The field \<open>m_val\<close>: the value of a small number, the sign of a large one.\<close>

fun mpz_sign :: "mpz \<Rightarrow> int" where
  "mpz_sign (Small v) = sint v"
| "mpz_sign (Large s ds) = s"

fun mpz_digits :: "mpz \<Rightarrow> digits" where
  "mpz_digits (Small v) = []"
| "mpz_digits (Large s ds) = ds"

definition mpz_is_pos :: "mpz \<Rightarrow> bool" where "mpz_is_pos a = (mpz_sign a > 0)"
definition mpz_is_neg :: "mpz \<Rightarrow> bool" where "mpz_is_neg a = (mpz_sign a < 0)"
definition mpz_is_zero :: "mpz \<Rightarrow> bool" where "mpz_is_zero a = (mpz_sign a = 0)"
definition mpz_is_one :: "mpz \<Rightarrow> bool" where "mpz_is_one a = (is_small a \<and> mpz_sign a = 1)"
definition mpz_is_minus_one :: "mpz \<Rightarrow> bool" where "mpz_is_minus_one a = (is_small a \<and> mpz_sign a = - 1)"

fun i64_of :: "mpz \<Rightarrow> i64" where
  "i64_of (Small v) = scast v"
| "i64_of (Large s ds) = word_of_int s"

section \<open>Assignment\<close>

definition split_u64 :: "u64 \<Rightarrow> digits" where
  "split_u64 v =
     (let lo = ucast v :: u32; hi = ucast (drop_bit 32 v) :: u32 in if hi = 0 then [lo] else [lo, hi])"

definition set_big_ui64 :: "u64 \<Rightarrow> mpz" where
  "set_big_ui64 v = Large 1 (split_u64 v)"

definition set_big_i64 :: "i64 \<Rightarrow> mpz" where
  "set_big_i64 v =
     (let (u, s) = (if v <s 0 then (- v, - 1) else (v, 1)) in Large s (split_u64 u))"

definition set_i64 :: "i64 \<Rightarrow> mpz" where
  "set_i64 v = (if - 2147483648 \<le> sint v \<and> sint v \<le> 2147483647 then Small (ucast v) else set_big_i64 v)"

definition set_int :: "i32 \<Rightarrow> mpz" where
  "set_int v = Small v"

definition set_unsigned :: "u32 \<Rightarrow> mpz" where
  "set_unsigned v = (if v \<le> 2147483647 then set_int v else set_i64 (ucast v))"

definition set_uint64 :: "u64 \<Rightarrow> mpz" where
  "set_uint64 v = (if v < 2147483647 then Small (ucast v) else set_big_ui64 v)"

definition drop_zeros :: "digits \<Rightarrow> digits" where
  "drop_zeros ds = rev (dropWhile (\<lambda>d. d = 0) (rev ds))"

definition set_digits :: "digits \<Rightarrow> mpz" where
  "set_digits ds =
     (case drop_zeros ds of [] \<Rightarrow> set_int 0 | [d] \<Rightarrow> set_unsigned d | ds \<Rightarrow> Large 1 ds)"

fun set_sign :: "int \<Rightarrow> mpz \<Rightarrow> mpz" where
  "set_sign s (Small v) = Small (word_of_int s)"
| "set_sign s (Large t ds) = Large s ds"

definition set_cell :: "digits \<Rightarrow> int \<Rightarrow> mpz" where
  "set_cell src s =
     (let ds = drop_zeros src in
      if ds = [] then set_int 0
      else if length ds = 1 \<and> ds ! 0 \<le> 2147483647 then Small (if s < 0 then - (ds ! 0) else ds ! 0)
      else set_sign s (set_digits ds))"

section \<open>Sign and digits of a number\<close>

fun get_sign_cell :: "mpz \<Rightarrow> int \<times> digits" where
  "get_sign_cell (Small v) =
     (if v = int_min then (- 1, [push_bit 31 1])
      else if v <s 0 then (- 1, [- v]) else (1, [v]))"
| "get_sign_cell (Large s ds) = (s, ds)"

section \<open>Big operations\<close>

definition big_add_sub :: "bool \<Rightarrow> mpz \<Rightarrow> mpz \<Rightarrow> mpz" where
  "big_add_sub SUB a b =
     (let (sign_a, ca) = get_sign_cell a; (sign_b, cb) = get_sign_cell b;
          sign_b = (if SUB then - sign_b else sign_b)
      in if sign_a = sign_b then
           (let (tmp, real_sz) = mpn_add ca cb in set_cell (take real_sz tmp) sign_a)
         else
           (let r = mpn_compare ca cb in
            if r = 0 then set_int 0
            else if r < 0 then set_cell (fst (mpn_sub cb ca)) sign_b
            else set_cell (fst (mpn_sub ca cb)) sign_a))"

definition big_add :: "mpz \<Rightarrow> mpz \<Rightarrow> mpz" where
  "big_add a b = big_add_sub False a b"

definition big_sub :: "mpz \<Rightarrow> mpz \<Rightarrow> mpz" where
  "big_sub a b = big_add_sub True a b"

definition big_mul :: "mpz \<Rightarrow> mpz \<Rightarrow> mpz" where
  "big_mul a b =
     (let (sign_a, ca) = get_sign_cell a; (sign_b, cb) = get_sign_cell b;
          tmp = mpn_mul ca cb (replicate (length ca + length cb) 0)
      in set_cell tmp (if sign_a = sign_b then 1 else - 1))"

definition new_manager :: mpn_manager where
  "new_manager = \<lparr>mm_u = [], mm_v = [], mm_ms = [], mm_ab = []\<rparr>"

text \<open>
  The quotient and remainder of the magnitudes, which the three modes share. The scratch buffers of
  the digit manager do not affect the result; \<open>None\<close> would be an out-of-range write.
\<close>

definition quot_rem_core :: "mpn_manager \<Rightarrow> mpz \<Rightarrow> mpz \<Rightarrow> (mpz \<times> mpz) option" where
  "quot_rem_core m a b =
     (let (sign_a, ca) = get_sign_cell a; (sign_b, cb) = get_sign_cell b
      in if length ca < length cb then Some (set_int 0, a)
         else
           (case mpn_div m ca cb (replicate (length ca - length cb + 1) 0) (replicate (length cb) 0) of
              None \<Rightarrow> None
            | Some (m', res, q1, r1) \<Rightarrow>
                Some (set_cell q1 (if sign_a = sign_b then 1 else - 1), set_cell r1 sign_a)))"

definition big_compare :: "mpz \<Rightarrow> mpz \<Rightarrow> int" where
  "big_compare a b =
     (let (sign_a, ca) = get_sign_cell a; (sign_b, cb) = get_sign_cell b
      in if 0 < sign_a then (if 0 < sign_b then mpn_compare ca cb else 1)
         else (if 0 < sign_b then - 1 else mpn_compare cb ca))"

section \<open>Arithmetic\<close>

definition mpz_add :: "mpz \<Rightarrow> mpz \<Rightarrow> mpz" where
  "mpz_add a b = (if is_small a \<and> is_small b then set_i64 (i64_of a + i64_of b) else big_add a b)"

definition mpz_sub :: "mpz \<Rightarrow> mpz \<Rightarrow> mpz" where
  "mpz_sub a b = (if is_small a \<and> is_small b then set_i64 (i64_of a - i64_of b) else big_sub a b)"

definition mpz_mul :: "mpz \<Rightarrow> mpz \<Rightarrow> mpz" where
  "mpz_mul a b = (if is_small a \<and> is_small b then set_i64 (i64_of a * i64_of b) else big_mul a b)"

definition mpz_addmul :: "mpz \<Rightarrow> mpz \<Rightarrow> mpz \<Rightarrow> mpz" where
  "mpz_addmul a b c =
     (if mpz_is_one b then mpz_add a c
      else if mpz_is_minus_one b then mpz_sub a c
      else mpz_add a (mpz_mul b c))"

definition mpz_submul :: "mpz \<Rightarrow> mpz \<Rightarrow> mpz \<Rightarrow> mpz" where
  "mpz_submul a b c =
     (if mpz_is_one b then mpz_sub a c
      else if mpz_is_minus_one b then mpz_add a c
      else mpz_sub a (mpz_mul b c))"

text \<open>Signed 64-bit division and remainder truncate.\<close>

definition i64_div :: "i64 \<Rightarrow> i64 \<Rightarrow> i64" where
  "i64_div a b = word_of_int (sint a sdiv sint b)"

definition i64_rem :: "i64 \<Rightarrow> i64 \<Rightarrow> i64" where
  "i64_rem a b = word_of_int (sint a smod sint b)"

text \<open>A division by zero of small numbers does not return.\<close>

definition machine_div_rem :: "mpn_manager \<Rightarrow> mpz \<Rightarrow> mpz \<Rightarrow> (mpz \<times> mpz) option" where
  "machine_div_rem m a b =
     (if is_small a \<and> is_small b then
        (if i64_of b = 0 then None
         else Some (set_i64 (i64_div (i64_of a) (i64_of b)), set_i64 (i64_rem (i64_of a) (i64_of b))))
      else quot_rem_core m a b)"

definition machine_div :: "mpn_manager \<Rightarrow> mpz \<Rightarrow> mpz \<Rightarrow> mpz option" where
  "machine_div m a b =
     (if is_small a \<and> is_small b then
        (if i64_of b = 0 then None else Some (set_i64 (i64_div (i64_of a) (i64_of b))))
      else map_option fst (quot_rem_core m a b))"

definition mpz_rem :: "mpn_manager \<Rightarrow> mpz \<Rightarrow> mpz \<Rightarrow> mpz option" where
  "mpz_rem m a b =
     (if is_small a \<and> is_small b then
        (if i64_of b = 0 then None else Some (set_i64 (i64_rem (i64_of a) (i64_of b))))
      else map_option snd (quot_rem_core m a b))"

definition div_gcd :: "mpn_manager \<Rightarrow> mpz \<Rightarrow> mpz \<Rightarrow> mpz option" where
  "div_gcd m a b = (if mpz_is_one b then Some a else machine_div m a b)"

definition mpz_div :: "mpn_manager \<Rightarrow> mpz \<Rightarrow> mpz \<Rightarrow> mpz option" where
  "mpz_div m a b =
     (if mpz_is_one b then Some a
      else if mpz_is_neg a then
        (case machine_div_rem m a b of
           None \<Rightarrow> None
         | Some (c, tmp) \<Rightarrow>
             Some (if \<not> mpz_is_zero tmp
                   then (if mpz_is_neg b then mpz_add c (set_int 1) else mpz_sub c (set_int 1))
                   else c))
      else machine_div m a b)"

definition mpz_mod :: "mpn_manager \<Rightarrow> mpz \<Rightarrow> mpz \<Rightarrow> mpz option" where
  "mpz_mod m a b =
     (case mpz_rem m a b of
        None \<Rightarrow> None
      | Some c \<Rightarrow>
          Some (if mpz_is_neg c then (if mpz_is_pos b then mpz_add c b else mpz_sub c b) else c))"

fun mpz_neg :: "mpz \<Rightarrow> mpz" where
  "mpz_neg (Small v) = (if v = int_min then set_big_i64 (- scast int_min) else Small (- v))"
| "mpz_neg (Large s ds) = Large (- s) ds"

fun mpz_abs :: "mpz \<Rightarrow> mpz" where
  "mpz_abs (Small v) =
     (if v <s 0 then (if v = int_min then set_big_i64 (- scast int_min) else Small (- v)) else Small v)"
| "mpz_abs (Large s ds) = Large 1 ds"

definition mpz_eq :: "mpz \<Rightarrow> mpz \<Rightarrow> bool" where
  "mpz_eq a b = (if is_small a \<and> is_small b then mpz_sign a = mpz_sign b else big_compare a b = 0)"

definition mpz_lt :: "mpz \<Rightarrow> mpz \<Rightarrow> bool" where
  "mpz_lt a b = (if is_small a \<and> is_small b then mpz_sign a < mpz_sign b else big_compare a b < 0)"

definition mpz_divides :: "mpn_manager \<Rightarrow> mpz \<Rightarrow> mpz \<Rightarrow> bool option" where
  "mpz_divides m a b =
     (if mpz_is_zero a then Some (mpz_is_zero b) else map_option mpz_is_zero (mpz_rem m b a))"

end
