(* ===== verification/MpzProof.thy ===== *)
theory MpzProof
  imports Mpz
begin

text \<open>
  The integer a representation stands for, the representation invariant, and the proof that every
  operation of the number manager computes its integer counterpart.
\<close>

section \<open>Values\<close>

fun mpz_val :: "mpz \<Rightarrow> int" where
  "mpz_val (Small v) = sint v"
| "mpz_val (Large s ds) = s * int (nval ds)"

text \<open>
  A large number has no leading zero digit and does not fit in a small one, but for two exceptions:
  \<open>2^31 - 1\<close> is large when set from 64 bits, and \<open>- 2^31\<close> when it is the result of a big operation.
\<close>

fun wf_mpz :: "mpz \<Rightarrow> bool" where
  "wf_mpz (Small v) = True"
| "wf_mpz (Large s ds) = ((s = 1 \<or> s = - 1) \<and> ds \<noteq> [] \<and> last ds \<noteq> 0 \<and> 2147483647 \<le> nval ds)"

section \<open>Words\<close>

lemma signed_take_bit_31_id: "\<lbrakk>- 2147483648 \<le> x; x \<le> 2147483647\<rbrakk> \<Longrightarrow> signed_take_bit 31 (x :: int) = x"
  by (simp add: signed_take_bit_int_eq_self)

lemma signed_take_bit_63_id:
  "\<lbrakk>- 9223372036854775808 \<le> x; x \<le> 9223372036854775807\<rbrakk> \<Longrightarrow> signed_take_bit 63 (x :: int) = x"
  by (simp add: signed_take_bit_int_eq_self)

lemma signed_take_bit_uint:
  "uint (v :: u32) \<le> 2147483647 \<Longrightarrow> signed_take_bit 31 (uint v) = uint v"
  "uint (v :: u32) \<le> 2147483648 \<Longrightarrow> signed_take_bit 31 (- uint v) = - uint v"
  "signed_take_bit 63 (uint (v :: u32)) = uint v"
proof -
  have b: "0 \<le> uint v" "uint v < 4294967296"
    using uint_nonnegative [of v] uint_bounded [of v] by simp_all
  show "signed_take_bit 31 (uint v) = uint v" if "uint v \<le> 2147483647"
    by (rule signed_take_bit_31_id) (use b that in linarith)+
  show "signed_take_bit 31 (- uint v) = - uint v" if "uint v \<le> 2147483648"
    by (rule signed_take_bit_31_id) (use b that in linarith)+
  show "signed_take_bit 63 (uint v) = uint v"
    by (rule signed_take_bit_63_id) (use b in linarith)+
qed

lemma uint_u32_bounds: "0 \<le> uint (v :: u32)" "uint (v :: u32) \<le> 4294967295"
  using uint_bounded [of v] by simp_all

lemma sint_i32_bounds: "- 2147483648 \<le> sint (v :: i32)" "sint (v :: i32) \<le> 2147483647"
  using sint_range_size [of v] by (simp_all add: word_size)

lemma sint_i64_bounds: "- 9223372036854775808 \<le> sint (v :: i64)" "sint (v :: i64) \<le> 9223372036854775807"
  using sint_range_size [of v] by (simp_all add: word_size)

lemma sint_word_of_int_i64:
  "\<lbrakk>- 9223372036854775808 \<le> x; x \<le> 9223372036854775807\<rbrakk> \<Longrightarrow> sint (word_of_int x :: i64) = x"
  by (simp add: signed_of_int signed_take_bit_int_eq_self)

lemma sint_word_of_int_i32:
  "\<lbrakk>- 2147483648 \<le> x; x \<le> 2147483647\<rbrakk> \<Longrightarrow> sint (word_of_int x :: i32) = x"
  by (simp add: signed_of_int signed_take_bit_int_eq_self)

lemma sint_ucast_i64_i32:
  assumes "- 2147483648 \<le> sint (v :: i64)" "sint v \<le> 2147483647"
  shows "sint (ucast v :: i32) = sint v"
proof -
  have "sint (ucast v :: i32) = signed_take_bit 31 (take_bit 64 (sint v))"
    by (simp add: signed_ucast_eq uint_sint)
  also have "\<dots> = signed_take_bit 31 (sint v)"
    by (simp add: signed_take_bit_take_bit)
  also have "\<dots> = sint v"
    using assms by (simp add: signed_take_bit_int_eq_self)
  finally show ?thesis .
qed

lemma sint_scast_i32_i64 [simp]: "sint (scast (v :: i32) :: i64) = sint v"
  using sint_i32_bounds [of v] by (simp add: signed_scast_eq signed_take_bit_int_eq_self)

lemma sint_i64_ops:
  fixes a b :: i32
  shows "sint (scast a + scast b :: i64) = sint a + sint b"
    and "sint (scast a - scast b :: i64) = sint a - sint b"
    and "sint (scast a * scast b :: i64) = sint a * sint b"
proof -
  note b = sint_i32_bounds [of a] sint_i32_bounds [of b]
  show "sint (scast a + scast b :: i64) = sint a + sint b"
    using b by (simp add: sint_word_add signed_take_bit_int_eq_self)
  show "sint (scast a - scast b :: i64) = sint a - sint b"
    using b by (simp add: sint_word_diff signed_take_bit_int_eq_self)
  have "\<bar>sint a\<bar> * \<bar>sint b\<bar> \<le> 2147483648 * 2147483648"
    using b by (intro mult_mono) auto
  then have "- 4611686018427387904 \<le> sint a * sint b" "sint a * sint b \<le> 4611686018427387904"
    by (simp_all add: abs_mult [symmetric] abs_le_iff)
  then show "sint (scast a * scast b :: i64) = sint a * sint b"
    by (simp add: sint_word_mult signed_take_bit_int_eq_self)
qed

lemma sdiv_bounds:
  fixes a b :: int
  assumes "- 2147483648 \<le> a" "a \<le> 2147483647"
  shows "- 2147483648 \<le> a sdiv b \<and> a sdiv b \<le> 2147483648"
proof -
  have "\<bar>a sdiv b\<bar> \<le> \<bar>a\<bar>"
    using zdiv_mono2 [of "\<bar>a\<bar>" 1 "\<bar>b\<bar>"]
    by (cases "b = 0") (auto simp: signed_divide_int_def abs_mult abs_sgn_eq pos_imp_zdiv_nonneg_iff)
  then show ?thesis using assms by auto
qed

section \<open>Assignment\<close>

lemma nval_two [simp]: "nval [lo, hi] = unat lo + 4294967296 * unat hi"
  by simp

lemma unat_high_u64: "unat (ucast (drop_bit 32 v) :: u32) = unat v div 4294967296" for v :: u64
  by (rule unat_ucast_high_u64_u32)

lemma nval_split_u64 [simp]: "nval (split_u64 v) = unat v"
proof -
  obtain hi :: u32 where hi: "ucast (drop_bit 32 v) = hi" by simp
  have "unat hi = unat v div 4294967296"
    using unat_high_u64 [of v] by (simp add: hi)
  then show ?thesis
    by (cases "hi = 0") (auto simp: split_u64_def Let_def hi unat_ucast_u64_u32)
qed

lemma split_u64_shape: "split_u64 v \<noteq> []" "v \<noteq> 0 \<Longrightarrow> last (split_u64 v) \<noteq> 0"
proof -
  obtain hi :: u32 where hi: "ucast (drop_bit 32 v) = hi" by simp
  have u: "unat hi = unat v div 4294967296"
    using unat_high_u64 [of v] by (simp add: hi)
  show "split_u64 v \<noteq> []"
    by (simp add: split_u64_def Let_def)
  assume "v \<noteq> 0"
  then have "unat v \<noteq> 0" by (simp add: unat_eq_0)
  moreover have "unat (ucast v :: u32) = unat v" if "hi = 0"
    using u that by (simp add: unat_ucast_u64_u32)
  ultimately show "last (split_u64 v) \<noteq> 0"
    by (auto simp: split_u64_def Let_def hi)
qed

lemma set_big_ui64_correct:
  assumes "2147483647 \<le> v"
  shows "wf_mpz (set_big_ui64 v)" "mpz_val (set_big_ui64 v) = uint v"
proof -
  have v: "2147483647 \<le> unat v" using assms by (simp add: word_le_nat_alt)
  then have "v \<noteq> 0" by auto
  then show "wf_mpz (set_big_ui64 v)" "mpz_val (set_big_ui64 v) = uint v"
    using v split_u64_shape [of v] by (simp_all add: set_big_ui64_def)
qed

lemma set_big_i64_correct:
  assumes "sint v < - 2147483648 \<or> 2147483647 < sint v"
  shows "wf_mpz (set_big_i64 v) \<and> mpz_val (set_big_i64 v) = sint v"
proof (cases "v <s 0")
  case True
  then have neg: "sint v < 0" by (simp add: word_sless_alt)
  have "uint (- v) = - sint v"
  proof -
    have "uint (- v) = uint (word_of_int (- sint v) :: i64)" by simp
    also have "\<dots> = take_bit 64 (- sint v)" by (simp only: unsigned_of_int) simp
    also have "\<dots> = - sint v"
      using neg sint_i64_bounds [of v] by (simp add: take_bit_int_eq_self_iff)
    finally show ?thesis .
  qed
  then have u: "int (unat (- v)) = - sint v" by simp
  have "- v \<noteq> 0" using neg by auto
  moreover have "2147483647 \<le> unat (- v)" using u neg assms by linarith
  ultimately show ?thesis
    using True u split_u64_shape [of "- v"] by (simp add: set_big_i64_def)
next
  case False
  then have pos: "0 \<le> sint v" by (simp add: word_sless_alt)
  then have u: "int (unat v) = sint v"
    using sint_i64_bounds [of v] by (simp add: uint_sint take_bit_int_eq_self_iff)
  have "v \<noteq> 0" using pos assms by auto
  moreover have "2147483647 \<le> unat v" using u pos assms by linarith
  ultimately show ?thesis
    using False u split_u64_shape [of v] by (simp add: set_big_i64_def)
qed

lemma set_i64_correct [simp]: "wf_mpz (set_i64 v)" "mpz_val (set_i64 v) = sint v"
  using set_big_i64_correct [of v] by (auto simp: set_i64_def sint_ucast_i64_i32)

lemma set_int_correct [simp]: "wf_mpz (set_int v)" "mpz_val (set_int v) = sint v"
  by (simp_all add: set_int_def)

lemma sint_small_u32: "v \<le> 2147483647 \<Longrightarrow> sint (v :: u32) = int (unat v)"
  using signed_take_bit_uint(1) [of v] by (simp add: word_le_def sint_uint)

lemma set_unsigned_correct [simp]:
  "wf_mpz (set_unsigned d)" "mpz_val (set_unsigned d) = int (unat d)"
proof -
  have "sint (ucast d :: i64) = int (unat d)"
    by (simp add: signed_ucast_eq signed_take_bit_uint(3))
  then show "wf_mpz (set_unsigned d)" "mpz_val (set_unsigned d) = int (unat d)"
    by (simp_all add: set_unsigned_def sint_small_u32)
qed

lemma nval_drop_zeros [simp]: "nval (drop_zeros ds) = nval ds"
proof (induction ds rule: rev_induct)
  case (snoc d ds)
  then show ?case by (simp add: drop_zeros_def nval_append)
qed (simp add: drop_zeros_def)

lemma last_drop_zeros: "drop_zeros ds \<noteq> [] \<Longrightarrow> last (drop_zeros ds) \<noteq> 0"
  using hd_dropWhile [of "\<lambda>d. d = 0" "rev ds"] by (auto simp: drop_zeros_def last_rev)

lemma nval_ge_base:
  assumes "1 < length ds" "last ds \<noteq> 0"
  shows "4294967296 \<le> nval ds"
proof -
  have ds: "ds = butlast ds @ [last ds]" using assms(1) by (cases ds rule: rev_cases) auto
  have "nval ds = nval (butlast ds) + 4294967296 ^ length (butlast ds) * unat (last ds)"
    by (subst ds) (simp add: nval_append)
  moreover have "4294967296 ^ 1 * 1 \<le> (4294967296 :: nat) ^ length (butlast ds) * unat (last ds)"
    using assms by (intro mult_le_mono power_increasing) (auto simp: Suc_le_eq unat_gt_0)
  ultimately show ?thesis by simp
qed

lemma set_cell_correct:
  assumes s: "s = 1 \<or> s = - 1"
  shows "wf_mpz (set_cell src s)" "mpz_val (set_cell src s) = s * int (nval src)"
proof -
  let ?ds = "drop_zeros src"
  have "wf_mpz (set_cell src s) \<and> mpz_val (set_cell src s) = s * int (nval ?ds)"
  proof (cases "?ds = []")
    case True
    have "nval ?ds = 0" by (simp add: True del: nval_drop_zeros)
    then show ?thesis by (simp add: set_cell_def True del: nval_drop_zeros)
  next
    case nonempty: False
    note last = last_drop_zeros [OF nonempty]
    show ?thesis
    proof (cases "length ?ds = 1")
      case True
      then obtain d where d: "?ds = [d]" by (cases ?ds) auto
      show ?thesis
      proof (cases "d \<le> 2147483647")
        case small: True
        have "sint (- d) = - sint d"
          using small signed_take_bit_uint(2) [of d]
          by (simp add: sint_word_minus sint_small_u32 word_le_def)
        then show ?thesis
          using s small by (auto simp: set_cell_def d sint_small_u32 simp del: nval_drop_zeros)
      next
        case big: False
        then have u: "2147483648 \<le> unat d" by (simp add: word_le_nat_alt)
        have "sint (ucast d :: i64) = int (unat d)"
          by (simp add: signed_ucast_eq signed_take_bit_uint(3))
        then have "\<not> sint (ucast d :: i64) \<le> 2147483647" using u by linarith
        then have "set_unsigned d = set_big_i64 (ucast d)"
          using big by (simp only: set_unsigned_def set_i64_def if_False simp_thms)
        moreover have "\<exists>t es. set_big_i64 (ucast d) = Large t es"
          by (simp add: set_big_i64_def case_prod_unfold)
        ultimately obtain t es where L: "set_unsigned d = Large t es" by auto
        have dr: "drop_zeros [d] = [d]" using last by (simp add: d) (simp add: drop_zeros_def)
        have sd: "set_digits ?ds = Large t es" by (simp add: set_digits_def dr d L)
        have "wf_mpz (Large t es)" "mpz_val (Large t es) = int (unat d)"
          using set_unsigned_correct [of d] by (simp_all only: L)
        then have te: "t = 1 \<or> t = - 1" "t * int (nval es) = int (unat d)" "es \<noteq> []" "last es \<noteq> 0"
          by (simp_all only: wf_mpz.simps mpz_val.simps simp_thms)
        have "t \<noteq> - 1"
        proof
          assume "t = - 1"
          then have "- int (nval es) = int (unat d)" using te(2) by (simp only: mult_minus1)
          then show False using u by linarith
        qed
        then have "t = 1" using te(1) by simp
        then have "nval es = unat d" using te(2) by (simp only: mult_1 of_nat_eq_iff)
        then show ?thesis
          using s big u te(3,4) sd by (simp add: set_cell_def d del: nval_drop_zeros)
      qed
    next
      case False
      then have len: "1 < length ?ds" using nonempty by (cases ?ds) auto
      then obtain d e es where ds: "?ds = d # e # es" by (cases ?ds rule: remdups_adj.cases) auto
      have dr: "drop_zeros ?ds = ?ds" using last
        by (simp add: drop_zeros_def)
      have "set_digits ?ds = Large 1 ?ds" unfolding set_digits_def dr by (simp add: ds)
      then show ?thesis
        using s nonempty len last nval_ge_base [OF len last] by (simp add: set_cell_def)
    qed
  qed
  then show "wf_mpz (set_cell src s)" "mpz_val (set_cell src s) = s * int (nval src)" by simp_all
qed


section \<open>The digits of a number\<close>

lemma sint_int_min: "sint int_min = - 2147483648"
  by (simp add: int_min_def)

lemma unat_int_min_digit: "unat (push_bit 31 1 :: u32) = 2147483648"
  by (simp add: push_bit_eq_mult)

lemma get_sign_cell_correct:
  assumes "wf_mpz a" "get_sign_cell a = (s, ds)"
  shows "s = 1 \<or> s = - 1" "ds \<noteq> []" "mpz_val a = s * int (nval ds)" "mpz_val a \<noteq> 0 \<Longrightarrow> last ds \<noteq> 0"
    "\<not> is_small a \<Longrightarrow> last ds \<noteq> 0"
proof -
  have "(s = 1 \<or> s = - 1) \<and> ds \<noteq> [] \<and> mpz_val a = s * int (nval ds) \<and>
      (mpz_val a \<noteq> 0 \<or> \<not> is_small a \<longrightarrow> last ds \<noteq> 0)"
  proof (cases a)
    case (Large t es)
    then show ?thesis using assms by auto
  next
    case (Small v)
    have pos: "int (unat v) = sint v" if "\<not> v <s 0"
    proof -
      have "0 \<le> sint v" using that by (simp add: word_sless_alt)
      then show ?thesis
        using sint_i32_bounds [of v] by (simp add: uint_sint take_bit_int_eq_self_iff)
    qed
    have neg: "int (unat (- v)) = - sint v" if "v <s 0"
    proof -
      have n: "sint v < 0" using that by (simp add: word_sless_alt)
      have "uint (- v) = uint (word_of_int (- sint v) :: i32)" by simp
      also have "\<dots> = take_bit 32 (- sint v)" by (simp only: unsigned_of_int) simp
      also have "\<dots> = - sint v"
        using n sint_i32_bounds [of v] by (simp add: take_bit_int_eq_self_iff)
      finally show ?thesis by simp
    qed
    consider "v = int_min" | "v \<noteq> int_min" "v <s 0" | "\<not> v <s 0" "v \<noteq> int_min" by blast
    then show ?thesis
    proof cases
      case 1
      then show ?thesis using assms(2) Small
        by (auto simp: sint_int_min unat_int_min_digit push_bit_eq_mult)
    next
      case 2
      then show ?thesis using assms(2) Small neg
        by (auto simp: word_sless_alt)
    next
      case 3
      then show ?thesis using assms(2) Small pos by auto
    qed
  qed
  then show "s = 1 \<or> s = - 1" "ds \<noteq> []" "mpz_val a = s * int (nval ds)" "mpz_val a \<noteq> 0 \<Longrightarrow> last ds \<noteq> 0"
    "\<not> is_small a \<Longrightarrow> last ds \<noteq> 0" by auto
qed

lemma is_small_cases: "is_small a \<longleftrightarrow> (\<exists>v. a = Small v)"
  by (cases a) auto

lemma mpz_sign_correct:
  assumes "wf_mpz a"
  shows "mpz_is_pos a \<longleftrightarrow> 0 < mpz_val a" "mpz_is_neg a \<longleftrightarrow> mpz_val a < 0" "mpz_is_zero a \<longleftrightarrow> mpz_val a = 0"
    "mpz_is_one a \<longleftrightarrow> mpz_val a = 1" "mpz_is_minus_one a \<longleftrightarrow> mpz_val a = - 1"
  using assms
  by (cases a; auto simp: mpz_is_pos_def mpz_is_neg_def mpz_is_zero_def mpz_is_one_def mpz_is_minus_one_def)+

section \<open>Big addition, multiplication, comparison, division\<close>

text \<open>
  What the number manager uses of the digit manager, as an interface: comparison, addition,
  subtraction of a smaller from a larger number, and product.
\<close>

locale digit_arithmetic =
  fixes cmp :: "digits \<Rightarrow> digits \<Rightarrow> int" and add :: "digits \<Rightarrow> digits \<Rightarrow> digits"
    and sub :: "digits \<Rightarrow> digits \<Rightarrow> digits" and mul :: "digits \<Rightarrow> digits \<Rightarrow> digits"
  assumes cmp_val: "cmp a b = sgn (int (nval a) - int (nval b))"
    and add_val: "nval (add a b) = nval a + nval b"
    and sub_val: "nval b \<le> nval a \<Longrightarrow> nval (sub a b) = nval a - nval b"
    and mul_val: "nval (mul a b) = nval a * nval b"
begin

text \<open>Sign-magnitude addition, given a constructor that reads a sign and digits.\<close>

lemma signed_add:
  assumes s: "sa = 1 \<or> sa = - 1" "sb = 1 \<or> sb = - 1" and z: "val (mk [] 0) = 0"
    and mk: "\<And>ds t. t = 1 \<or> t = - 1 \<Longrightarrow> val (mk ds t) = t * int (nval ds)"
  shows "val (if sa = sb then mk (add a b) sa
      else if cmp a b = 0 then mk [] 0
      else if cmp a b < 0 then mk (sub b a) sb else mk (sub a b) sa)
    = sa * int (nval a) + sb * int (nval b)"
proof -
  consider "sa = sb" | "sa = - sb" "nval a = nval b" | "sa = - sb" "nval a < nval b"
    | "sa = - sb" "nval b < nval a" using s by fastforce
  then show ?thesis
  proof cases
    case 1
    then show ?thesis using s mk by (simp add: add_val algebra_simps)
  next
    case 2
    then show ?thesis using s z by (auto simp: cmp_val)
  next
    case 3
    then show ?thesis using s mk [OF s(2)] by (auto simp: cmp_val sub_val sgn_if of_nat_diff)
  next
    case 4
    then show ?thesis using s mk [OF s(1)] by (auto simp: cmp_val sub_val sgn_if of_nat_diff)
  qed
qed

lemma signed_mul:
  assumes "sa = 1 \<or> sa = - 1" "sb = 1 \<or> sb = - 1"
  shows "(if sa = sb then 1 else - 1) * int (nval (mul a b)) = (sa * int (nval a)) * (sb * int (nval b))"
  using assms by (auto simp: mul_val)

lemma signed_cmp:
  assumes "sa = 1 \<or> sa = - 1" "sb = 1 \<or> sb = - 1" "sa = - 1 \<Longrightarrow> 0 < nval a" "sb = - 1 \<Longrightarrow> 0 < nval b"
  shows "(if 0 < sa then (if 0 < sb then cmp a b else 1) else (if 0 < sb then - 1 else cmp b a))
    = sgn (sa * int (nval a) - sb * int (nval b))"
  using assms by (auto simp: cmp_val sgn_if)

end

interpretation mpn: digit_arithmetic mpn_compare "\<lambda>a b. case mpn_add a b of (c, os) \<Rightarrow> take os c"
  "\<lambda>a b. fst (mpn_sub a b)" "\<lambda>a b. mpn_mul a b (replicate (length a + length b) 0)"
proof
  fix a b :: digits
  show "mpn_compare a b = sgn (int (nval a) - int (nval b))"
    by (rule mpn_compare_correct)
  show "nval (case mpn_add a b of (c, os) \<Rightarrow> take os c) = nval a + nval b"
    using mpn_add_correct [of a b] by (auto split: prod.splits)
  show "nval (fst (mpn_sub a b)) = nval a - nval b" if "nval b \<le> nval a"
    using mpn_sub_correct [of a b] that by (auto simp: of_nat_diff split: prod.splits)
  show "nval (mpn_mul a b (replicate (length a + length b) 0)) = nval a * nval b"
    using mpn_mul_correct [of "replicate (length a + length b) 0" a b] by simp
qed

lemma big_add_sub_correct:
  assumes wf: "wf_mpz a" "wf_mpz b"
  shows "wf_mpz (big_add_sub SUB a b)"
    and "mpz_val (big_add_sub SUB a b) = (if SUB then mpz_val a - mpz_val b else mpz_val a + mpz_val b)"
proof -
  obtain sa da sb db where c: "get_sign_cell a = (sa, da)" "get_sign_cell b = (sb, db)" by fastforce
  note A = get_sign_cell_correct [OF wf(1) c(1)] and B = get_sign_cell_correct [OF wf(2) c(2)]
  let ?sb = "if SUB then - sb else sb"
  let ?mk = "\<lambda>ds s. if s = 0 then set_int 0 else set_cell ds s"
  have mk: "mpz_val (?mk ds t) = t * int (nval ds) \<and> wf_mpz (?mk ds t)" if "t = 1 \<or> t = - 1" for ds t
    using that set_cell_correct by auto
  have nz: "sa \<noteq> 0" "sb \<noteq> 0" using A(1) B(1) by auto
  have e: "big_add_sub SUB a b = (if sa = ?sb then ?mk (case mpn_add da db of (c, os) \<Rightarrow> take os c) sa
      else if mpn_compare da db = 0 then ?mk [] 0
      else if mpn_compare da db < 0 then ?mk (fst (mpn_sub db da)) ?sb else ?mk (fst (mpn_sub da db)) sa)"
    using nz by (auto simp: big_add_sub_def c Let_def split: prod.splits)
  have "mpz_val (big_add_sub SUB a b) = sa * int (nval da) + ?sb * int (nval db)"
    unfolding e by (rule mpn.signed_add) (use A(1) B(1) mk in auto)
  then show "mpz_val (big_add_sub SUB a b) = (if SUB then mpz_val a - mpz_val b else mpz_val a + mpz_val b)"
    using A(3) B(3) by simp
  show "wf_mpz (big_add_sub SUB a b)"
    unfolding e using A(1) B(1) by (auto simp: set_cell_correct(1))
qed

lemma big_mul_correct:
  assumes wf: "wf_mpz a" "wf_mpz b"
  shows "wf_mpz (big_mul a b)" "mpz_val (big_mul a b) = mpz_val a * mpz_val b"
proof -
  obtain sa da sb db where c: "get_sign_cell a = (sa, da)" "get_sign_cell b = (sb, db)" by fastforce
  note A = get_sign_cell_correct [OF wf(1) c(1)] and B = get_sign_cell_correct [OF wf(2) c(2)]
  show "wf_mpz (big_mul a b)"
    using set_cell_correct(1) by (simp add: big_mul_def c Let_def)
  show "mpz_val (big_mul a b) = mpz_val a * mpz_val b"
    using mpn.signed_mul [OF A(1) B(1), of da db] set_cell_correct(2) A(3) B(3)
    by (simp add: big_mul_def c Let_def)
qed

lemma big_compare_correct:
  assumes wf: "wf_mpz a" "wf_mpz b"
  shows "big_compare a b = sgn (mpz_val a - mpz_val b)"
proof -
  obtain sa da sb db where c: "get_sign_cell a = (sa, da)" "get_sign_cell b = (sb, db)" by fastforce
  note A = get_sign_cell_correct [OF wf(1) c(1)] and B = get_sign_cell_correct [OF wf(2) c(2)]
  have pos: "0 < nval ds" if "get_sign_cell x = (- 1, ds)" "wf_mpz x" for x ds
    using that by (cases x) (auto simp: word_sless_alt unat_gt_0 unat_int_min_digit split: if_splits)
  have "(if 0 < sa then (if 0 < sb then mpn_compare da db else 1)
      else (if 0 < sb then - 1 else mpn_compare db da)) = sgn (sa * int (nval da) - sb * int (nval db))"
    by (rule mpn.signed_cmp [OF A(1) B(1)]) (use pos c wf in blast)+
  then show ?thesis
    using A(3) B(3) by (simp only: big_compare_def c Let_def prod.case)
qed


lemma digit_length_value:
  assumes "length da < length db" "last db \<noteq> 0" "db \<noteq> []"
  shows "nval da < nval db"
proof -
  have db: "db = butlast db @ [last db]" using assms(3) by simp
  have "nval da < 4294967296 ^ length da" by (rule nval_less)
  also have "\<dots> \<le> 4294967296 ^ length (butlast db)" using assms(1) by (intro power_increasing) auto
  also have "\<dots> * 1 \<le> 4294967296 ^ length (butlast db) * unat (last db)"
    using assms(2) by (intro mult_le_mono) (auto simp: Suc_le_eq unat_gt_0)
  also have "\<dots> \<le> nval db" by (subst (3) db) (simp add: nval_append)
  finally show ?thesis by simp
qed

lemma sdiv_sign_magnitude:
  fixes x y :: nat
  assumes "s = 1 \<or> s = - 1" "t = 1 \<or> t = - 1"
  shows "(if s = t then 1 else - 1) * int (x div y) = (s * int x) sdiv (t * int y)"
    and "s * int (x mod y) = (s * int x) smod (t * int y)"
  using assms by (auto simp: signed_divide_int_def signed_modulo_int_def zdiv_int zmod_int sgn_if
      minus_div_mult_eq_mod [symmetric] algebra_simps)

lemma quot_rem_core_correct:
  assumes wf: "wf_mpz a" "wf_mpz b" and nz: "mpz_val b \<noteq> 0"
  shows "\<exists>q r. quot_rem_core m a b = Some (q, r) \<and> wf_mpz q \<and> wf_mpz r \<and>
    mpz_val q = mpz_val a sdiv mpz_val b \<and> mpz_val r = mpz_val a smod mpz_val b"
proof -
  obtain sa da sb db where c: "get_sign_cell a = (sa, da)" "get_sign_cell b = (sb, db)" by fastforce
  note A = get_sign_cell_correct [OF wf(1) c(1)] and B = get_sign_cell_correct [OF wf(2) c(2)]
  note S = sdiv_sign_magnitude [OF A(1) B(1), of "nval da" "nval db"]
  show ?thesis
  proof (cases "length da < length db")
    case True
    then have "nval da < nval db" using B(2,4) nz by (intro digit_length_value) auto
    then have "mpz_val a sdiv mpz_val b = 0" "mpz_val a smod mpz_val b = mpz_val a"
      using S A(3) B(3) by auto
    then show ?thesis using True wf by (simp add: quot_rem_core_def c)
  next
    case False
    then obtain m' res q r where d: "mpn_div m da db (replicate (length da - length db + 1) 0) (replicate (length db) 0)
        = Some (m', res, q, r)" "nval q = nval da div nval db" "nval r = nval da mod nval db"
      using mpn_div_correct [of db da "replicate (length da - length db + 1) 0" "replicate (length db) 0" m]
        B(2,4) nz by auto
    then show ?thesis
      using False A(1,3) B(1,3) S set_cell_correct by (auto simp: quot_rem_core_def c)
  qed
qed

section \<open>The arithmetic operations\<close>

lemma i64_of_small: "is_small a \<Longrightarrow> sint (i64_of a) = mpz_val a"
  by (cases a) auto

lemma mpz_add_correct:
  assumes "wf_mpz a" "wf_mpz b"
  shows "wf_mpz (mpz_add a b)" "mpz_val (mpz_add a b) = mpz_val a + mpz_val b"
  using big_add_sub_correct [OF assms]
  by (cases a; cases b; simp add: mpz_add_def big_add_def sint_i64_ops)+

lemma mpz_sub_correct:
  assumes "wf_mpz a" "wf_mpz b"
  shows "wf_mpz (mpz_sub a b)" "mpz_val (mpz_sub a b) = mpz_val a - mpz_val b"
  using big_add_sub_correct [OF assms]
  by (cases a; cases b; simp add: mpz_sub_def big_sub_def sint_i64_ops)+

lemma mpz_mul_correct:
  assumes "wf_mpz a" "wf_mpz b"
  shows "wf_mpz (mpz_mul a b)" "mpz_val (mpz_mul a b) = mpz_val a * mpz_val b"
  using big_mul_correct [OF assms]
  by (cases a; cases b; simp add: mpz_mul_def sint_i64_ops)+

lemma mpz_addmul_correct:
  assumes "wf_mpz a" "wf_mpz b" "wf_mpz c"
  shows "wf_mpz (mpz_addmul a b c)" "mpz_val (mpz_addmul a b c) = mpz_val a + mpz_val b * mpz_val c"
    "wf_mpz (mpz_submul a b c)" "mpz_val (mpz_submul a b c) = mpz_val a - mpz_val b * mpz_val c"
  using assms mpz_mul_correct [OF assms(2,3)]
  by (auto simp: mpz_addmul_def mpz_submul_def mpz_sign_correct mpz_add_correct mpz_sub_correct)

lemma sign_magnitude: "\<exists>s n. (s = 1 \<or> s = - 1) \<and> (x :: int) = s * int n"
  by (cases x rule: int_cases2) auto

lemma smod_bound: "\<bar>(x :: int) smod y\<bar> \<le> \<bar>x\<bar>"
proof -
  obtain s n where x: "s = 1 \<or> s = - 1" "x = s * int n" using sign_magnitude by blast
  obtain t m where y: "t = 1 \<or> t = - 1" "y = t * int m" using sign_magnitude by blast
  have "x smod y = s * int (n mod m)"
    using sdiv_sign_magnitude(2) [OF x(1) y(1), of n m] by (simp only: x(2) y(2))
  moreover have "n mod m \<le> n" by simp
  ultimately show ?thesis using x by (auto simp: abs_mult simp del: of_nat_mod)
qed

lemma sint_i64_div:
  fixes v w :: i32
  shows "sint (i64_div (scast v) (scast w)) = sint v sdiv sint w"
    and "sint (i64_rem (scast v) (scast w)) = sint v smod sint w"
proof -
  note b = sint_i32_bounds [of v] sint_i32_bounds [of w]
  have d: "- 2147483648 \<le> sint v sdiv sint w \<and> sint v sdiv sint w \<le> 2147483648"
    using b by (intro sdiv_bounds)
  then show "sint (i64_div (scast v) (scast w)) = sint v sdiv sint w"
    by (simp add: i64_div_def sint_word_of_int_i64)
  have "\<bar>sint v smod sint w\<bar> \<le> \<bar>sint v\<bar>"
    by (rule smod_bound)
  then show "sint (i64_rem (scast v) (scast w)) = sint v smod sint w"
    using b by (simp add: i64_rem_def sint_word_of_int_i64)
qed


lemma sdiv_1 [simp]: "(x :: int) sdiv 1 = x" "(x :: int) smod 1 = 0"
  by (simp_all add: signed_divide_int_def signed_modulo_int_def mult.commute [of "sgn x"] abs_mult_sgn)

lemma machine_div_rem_correct:
  assumes wf: "wf_mpz a" "wf_mpz b" and nz: "mpz_val b \<noteq> 0"
  shows "\<exists>q r. machine_div_rem m a b = Some (q, r) \<and> wf_mpz q \<and> wf_mpz r \<and>
    mpz_val q = mpz_val a sdiv mpz_val b \<and> mpz_val r = mpz_val a smod mpz_val b"
proof (cases "is_small a \<and> is_small b")
  case True
  then obtain v w where vw: "a = Small v" "b = Small w" by (cases a; cases b) auto
  have "scast w \<noteq> (0 :: i64)"
    using nz sint_scast_i32_i64 [of w] by (metis mpz_val.simps(1) sint_0 vw(2))
  then show ?thesis by (simp add: machine_div_rem_def vw sint_i64_div)
next
  case False
  then show ?thesis using quot_rem_core_correct [OF wf nz] by (auto simp: machine_div_rem_def)
qed

lemma machine_div_eq: "machine_div m a b = map_option fst (machine_div_rem m a b)"
  by (simp add: machine_div_def machine_div_rem_def)

lemma mpz_rem_eq: "mpz_rem m a b = map_option snd (machine_div_rem m a b)"
  by (simp add: mpz_rem_def machine_div_rem_def)

lemma machine_div_correct:
  assumes "wf_mpz a" "wf_mpz b" "mpz_val b \<noteq> 0"
  shows "\<exists>q. machine_div m a b = Some q \<and> wf_mpz q \<and> mpz_val q = mpz_val a sdiv mpz_val b"
  using machine_div_rem_correct [OF assms, of m] by (auto simp: machine_div_eq)

lemma mpz_rem_correct:
  assumes "wf_mpz a" "wf_mpz b" "mpz_val b \<noteq> 0"
  shows "\<exists>r. mpz_rem m a b = Some r \<and> wf_mpz r \<and> mpz_val r = mpz_val a smod mpz_val b"
  using machine_div_rem_correct [OF assms, of m] by (auto simp: mpz_rem_eq)

lemma div_gcd_correct:
  assumes "wf_mpz a" "wf_mpz b" "mpz_val b \<noteq> 0"
  shows "\<exists>q. div_gcd m a b = Some q \<and> wf_mpz q \<and> mpz_val q = mpz_val a sdiv mpz_val b"
  using machine_div_correct [OF assms, of m] assms
  by (auto simp: div_gcd_def mpz_sign_correct)

text \<open>Division rounds so that the remainder is never negative.\<close>

lemma euclidean_of_truncated:
  fixes x y :: int
  assumes "y \<noteq> 0"
  defines "q \<equiv> (if x < 0 \<and> x smod y \<noteq> 0 then (if y < 0 then x sdiv y + 1 else x sdiv y - 1) else x sdiv y)"
    and "r \<equiv> (if x smod y < 0 then (if 0 < y then x smod y + y else x smod y - y) else x smod y)"
  shows "q * y + r = x" "0 \<le> r" "r < \<bar>y\<bar>"
proof -
  obtain s n where x: "s = 1 \<or> s = - 1" "x = s * int n" using sign_magnitude by blast
  obtain t m where y: "t = 1 \<or> t = - 1" "y = t * int m" using sign_magnitude by blast
  have d: "x sdiv y = (if s = t then 1 else - 1) * int (n div m)" and r': "x smod y = s * int (n mod m)"
    using sdiv_sign_magnitude [OF x(1) y(1), of n m] by (simp_all only: x(2) y(2))
  have m: "0 < m" using assms(1) y by (cases m) auto
  obtain k e where k: "n div m = k" and e: "n mod m = e" by simp
  have lt: "int e < int m" "0 \<le> int e" using m e by auto
  have n: "int n = int m * int k + int e"
    by (metis k e mult_div_mod_eq of_nat_add of_nat_mult)
  have pos: "0 \<le> int m * int k" by simp
  have q: "q = (if s = - 1 \<and> e \<noteq> 0 then (if t = - 1 then int k + 1 else - int k - 1)
      else if s = t then int k else - int k)"
  proof -
    have "x < 0" if "s = - 1" "e \<noteq> 0"
    proof -
      have "0 < int e" using that(2) by simp
      then have "0 < int n" using n pos by linarith
      then show ?thesis using that(1) x(2) by simp
    qed
    then show ?thesis
      using x y lt m unfolding q_def d r' k e by (auto simp: mult_less_0_iff)
  qed
  have r: "r = (if s = - 1 \<and> e \<noteq> 0 then int m - int e else int e)"
    using x y lt m unfolding r_def r' e by (auto simp: mult_less_0_iff)
  show "q * y + r = x"
    using x y n unfolding q r by (auto simp: algebra_simps)
  show "0 \<le> r" "r < \<bar>y\<bar>"
    using y lt unfolding r by auto
qed

lemma mpz_div_correct:
  assumes wf: "wf_mpz a" "wf_mpz b" and nz: "mpz_val b \<noteq> 0"
  shows "\<exists>q r. mpz_div m a b = Some q \<and> mpz_mod m a b = Some r \<and> wf_mpz q \<and> wf_mpz r \<and>
    mpz_val q * mpz_val b + mpz_val r = mpz_val a \<and> 0 \<le> mpz_val r \<and> mpz_val r < \<bar>mpz_val b\<bar>"
proof -
  obtain q r where qr: "machine_div_rem m a b = Some (q, r)" "wf_mpz q" "wf_mpz r"
    "mpz_val q = mpz_val a sdiv mpz_val b" "mpz_val r = mpz_val a smod mpz_val b"
    using machine_div_rem_correct [OF assms, of m] by blast
  note E = euclidean_of_truncated [OF nz, of "mpz_val a"]
  let ?q = "if mpz_val a < 0 \<and> mpz_val a smod mpz_val b \<noteq> 0
      then (if mpz_val b < 0 then mpz_val a sdiv mpz_val b + 1 else mpz_val a sdiv mpz_val b - 1)
      else mpz_val a sdiv mpz_val b"
  let ?r = "if mpz_val a smod mpz_val b < 0
      then (if 0 < mpz_val b then mpz_val a smod mpz_val b + mpz_val b else mpz_val a smod mpz_val b - mpz_val b)
      else mpz_val a smod mpz_val b"
  have one: "wf_mpz (set_int 1)" "mpz_val (set_int 1) = 1" by (simp_all add: set_int_def)
  have "\<exists>q'. mpz_div m a b = Some q' \<and> wf_mpz q' \<and> mpz_val q' = ?q"
  proof (cases "mpz_is_one b")
    case True
    then have "mpz_val b = 1" using wf by (simp add: mpz_sign_correct)
    then show ?thesis using True wf by (simp add: mpz_div_def)
  next
    case False
    note sg = mpz_sign_correct [OF wf(1)] mpz_sign_correct [OF wf(2)] mpz_sign_correct [OF qr(3)]
    show ?thesis
    proof (cases "mpz_val a < 0")
      case True
      then show ?thesis
        using qr False sg mpz_add_correct [OF qr(2) one(1)] mpz_sub_correct [OF qr(2) one(1)] one(2)
        by (simp add: mpz_div_def)
    next
      case nonneg: False
      then show ?thesis
        using qr False sg by (simp add: mpz_div_def machine_div_eq)
    qed
  qed
  moreover have "\<exists>r'. mpz_mod m a b = Some r' \<and> wf_mpz r' \<and> mpz_val r' = ?r"
    using qr(1,3,5) mpz_sign_correct [OF wf(2)] mpz_sign_correct [OF qr(3)]
      mpz_add_correct [OF qr(3) wf(2)] mpz_sub_correct [OF qr(3) wf(2)]
    by (simp add: mpz_mod_def mpz_rem_eq)
  ultimately obtain q' r' where "mpz_div m a b = Some q'" "wf_mpz q'" "mpz_val q' = ?q"
      "mpz_mod m a b = Some r'" "wf_mpz r'" "mpz_val r' = ?r" by blast
  then show ?thesis using E by (intro exI [of _ q'] exI [of _ r']) (simp only: simp_thms)
qed

lemma minus_int_min: "sint (- scast int_min :: i64) = 2147483648"
  by (simp add: sint_word_minus sint_int_min signed_take_bit_int_eq_self)

lemma sint_uminus_i32: "v \<noteq> int_min \<Longrightarrow> sint (- v) = - sint v"
proof -
  assume "v \<noteq> int_min"
  then have "sint v \<noteq> - 2147483648" using sint_int_min by (metis signed_word_eqI)
  then have "- 2147483647 \<le> sint v" using sint_i32_bounds [of v] by linarith
  then show ?thesis
    using sint_i32_bounds [of v] by (simp add: sint_word_minus signed_take_bit_int_eq_self)
qed

lemma mpz_neg_correct:
  assumes "wf_mpz a"
  shows "wf_mpz (mpz_neg a)" "mpz_val (mpz_neg a) = - mpz_val a"
  using assms set_big_i64_correct [of "- scast int_min"]
  by (cases a; auto simp: minus_int_min sint_int_min sint_uminus_i32)+

lemma mpz_abs_correct:
  assumes "wf_mpz a"
  shows "wf_mpz (mpz_abs a)" "mpz_val (mpz_abs a) = \<bar>mpz_val a\<bar>"
  using assms set_big_i64_correct [of "- scast int_min"]
  by (cases a; auto simp: minus_int_min sint_int_min sint_uminus_i32 word_sless_alt abs_mult)+

lemma mpz_compare_correct:
  assumes "wf_mpz a" "wf_mpz b"
  shows "mpz_eq a b \<longleftrightarrow> mpz_val a = mpz_val b" "mpz_lt a b \<longleftrightarrow> mpz_val a < mpz_val b"
  using big_compare_correct [OF assms]
  by (cases a; cases b; simp add: mpz_eq_def mpz_lt_def sgn_if)+

lemma mpz_divides_correct:
  assumes "wf_mpz a" "wf_mpz b"
  shows "mpz_divides m a b = Some (mpz_val a dvd mpz_val b)"
proof (cases "mpz_val a = 0")
  case True
  then show ?thesis using assms by (simp add: mpz_divides_def mpz_sign_correct)
next
  case False
  obtain r where r: "mpz_rem m b a = Some r" "wf_mpz r" "mpz_val r = mpz_val b smod mpz_val a"
    using mpz_rem_correct [OF assms(2,1) False, of m] by blast
  obtain s n where x: "s = 1 \<or> s = - 1" "mpz_val a = s * int n" using sign_magnitude by blast
  obtain t k where y: "t = 1 \<or> t = - 1" "mpz_val b = t * int k" using sign_magnitude by blast
  have "mpz_val r = t * int (k mod n)"
    using r(3) sdiv_sign_magnitude(2) [OF y(1) x(1), of k n] by (simp only: x(2) y(2))
  then have "mpz_val r = 0 \<longleftrightarrow> n dvd k" using y by (auto simp: mod_eq_0_iff_dvd simp del: of_nat_mod)
  then show ?thesis
    using False assms r x y by (auto simp: mpz_divides_def mpz_sign_correct int_dvd_int_iff)
qed

end
