(* ===== verification/MpzBits.thy ===== *)
theory MpzBits
  imports MpzProof
begin

text \<open>
  The operations of util/mpz.cpp that work on the binary representation: shifts, logarithms, powers
  of two, conversions from and to machine integers, and the binary gcd of two machine words.
\<close>

section \<open>Machine words\<close>

definition log2_step :: "nat \<Rightarrow> u32 \<Rightarrow> u32 \<times> nat \<Rightarrow> u32 \<times> nat" where
  "log2_step n m vr = (case vr of (v, r) \<Rightarrow> if v AND m \<noteq> 0 then (drop_bit n v, r OR n) else (v, r))"

definition log2_u32 :: "u32 \<Rightarrow> nat" where
  "log2_u32 v = snd (log2_step 1 0x2 (log2_step 2 0xC (log2_step 4 0xF0
     (log2_step 8 0xFF00 (log2_step 16 0xFFFF0000 (v, 0))))))"

definition is_power_of_two_u32 :: "u32 \<Rightarrow> bool" where
  "is_power_of_two_u32 v = (v AND (v - 1) = 0 \<and> v \<noteq> 0)"

definition count_step :: "nat \<Rightarrow> int \<times> nat \<Rightarrow> int \<times> nat" where
  "count_step n vr = (case vr of (v, r) \<Rightarrow> if v smod 2 ^ n = 0 then (v sdiv 2 ^ n, r + n) else (v, r))"

definition count_digit_right_zeros :: "int \<Rightarrow> nat \<Rightarrow> nat" where
  "count_digit_right_zeros v r =
     snd (count_step 1 (count_step 2 (count_step 4 (count_step 8 (count_step 16 (v, r))))))"

definition trailing_zeros :: "u32 \<Rightarrow> nat" where
  "trailing_zeros v = count_digit_right_zeros (uint v) 0"

function u_gcd_loop :: "nat \<Rightarrow> u32 \<Rightarrow> u32 \<Rightarrow> u32" where
  "u_gcd_loop 0 u v = u"
| "u_gcd_loop (Suc fuel) u v =
     (let v = drop_bit (trailing_zeros v) v;
          diff = u - v;
          mdiff = diff AND signed_drop_bit 31 diff;
          u = v + mdiff;
          v = diff - 2 * mdiff
      in if v \<noteq> 0 then u_gcd_loop fuel u v else u)"
  by pat_completeness auto
termination by (relation "measure fst") auto

definition u_gcd :: "u32 \<Rightarrow> u32 \<Rightarrow> u32" where
  "u_gcd u v =
     (if u = 0 then v
      else if v = 0 then u
      else
        let shift = trailing_zeros (u OR v); u = drop_bit (trailing_zeros u) u
        in if u = 1 \<or> v = 1 then push_bit shift 1
           else if u = v then push_bit shift u
           else push_bit shift (u_gcd_loop (unat u + unat v) u v))"

section \<open>Normalization and shifts\<close>

fun mpz_normalize :: "mpz \<Rightarrow> mpz" where
  "mpz_normalize (Small v) = Small v"
| "mpz_normalize (Large s ds) =
     (let ds = drop_zeros ds in
      if ds = [] then set_int 0
      else if length ds = 1 \<and> ds ! 0 \<le> 2147483647 then Small (if s < 0 then - (ds ! 0) else ds ! 0)
      else Large s ds)"

primrec shift_right :: "nat \<Rightarrow> digits \<Rightarrow> digits" where
  "shift_right b [] = []"
| "shift_right b (d # ds) =
     (drop_bit b d OR (case ds of [] \<Rightarrow> 0 | e # _ \<Rightarrow> push_bit (32 - b) e)) # shift_right b ds"

fun machine_div2k :: "mpz \<Rightarrow> nat \<Rightarrow> mpz" where
  "machine_div2k (Small v) k =
     (if k = 0 \<or> v = 0 then Small v
      else if k < 32 then Small (word_of_int (sint v sdiv sint (push_bit k 1 :: i32)))
      else Small 0)"
| "machine_div2k (Large s ds) k =
     (if k = 0 then Large s ds
      else
        let digit_shift = k div 32; sz = length ds in
        if sz \<le> digit_shift then set_int 0
        else
          let bit_shift = k mod 32; ds = drop digit_shift ds
          in mpz_normalize (Large s (if bit_shift = 0 then ds else shift_right bit_shift ds)))"

primrec shl_digits :: "nat \<Rightarrow> u32 \<Rightarrow> digits \<Rightarrow> digits" where
  "shl_digits b prev [] = []"
| "shl_digits b prev (d # ds) = (push_bit b d OR prev) # shl_digits b (drop_bit (32 - b) d) ds"

definition mul2k :: "mpz \<Rightarrow> nat \<Rightarrow> mpz" where
  "mul2k a k =
     (if k = 0 \<or> mpz_is_zero a then a
      else if is_small a \<and> k < 32 then set_i64 (i64_of a * push_bit k 1)
      else
        let word_shift = k div 32; bit_shift = k mod 32;
            (s, ds) = get_sign_cell a;
            ds = replicate word_shift 0 @ ds @ [0]
        in mpz_normalize (Large s
             (if 0 < bit_shift then take word_shift ds @ shl_digits bit_shift 0 (drop word_shift ds) else ds)))"

primrec zero_digits :: "digits \<Rightarrow> nat \<Rightarrow> nat" where
  "zero_digits [] r = r"
| "zero_digits (d # ds) r = (if d \<noteq> 0 then count_digit_right_zeros (uint d) r else zero_digits ds (r + 32))"

fun power_of_two_multiple :: "mpz \<Rightarrow> nat" where
  "power_of_two_multiple (Small v) = (if v = 0 then 0 else count_digit_right_zeros (sint v) 0)"
| "power_of_two_multiple (Large s ds) = zero_digits ds 0"

fun mpz_log2 :: "mpz \<Rightarrow> nat" where
  "mpz_log2 (Small v) = (if sint v \<le> 0 then 0 else log2_u32 v)"
| "mpz_log2 (Large s ds) = (if s \<le> 0 then 0 else (length ds - 1) * 32 + log2_u32 (last ds))"

fun mpz_mlog2 :: "mpz \<Rightarrow> nat" where
  "mpz_mlog2 (Small v) = (if 0 \<le> sint v then 0 else log2_u32 (- v))"
| "mpz_mlog2 (Large s ds) = (if 0 \<le> s then 0 else (length ds - 1) * 32 + log2_u32 (last ds))"

definition mpz_bitsize :: "mpz \<Rightarrow> nat" where
  "mpz_bitsize a = (if \<not> mpz_is_neg a then mpz_log2 a + 1 else mpz_mlog2 a + 1)"

text \<open>The shift, when the number is a power of two.\<close>

fun mpz_is_power_of_two :: "mpz \<Rightarrow> nat option" where
  "mpz_is_power_of_two (Small v) =
     (if sint v \<le> 0 then None else if is_power_of_two_u32 v then Some (log2_u32 v) else None)"
| "mpz_is_power_of_two (Large s ds) =
     (if s \<le> 0 then None
      else if \<exists>d \<in> set (butlast ds). d \<noteq> 0 then None
      else if last ds AND (last ds - 1) = 0 \<and> last ds \<noteq> 0 then Some (mpz_log2 (Large s ds))
      else None)"

section \<open>Machine integers\<close>

fun big_abs_to_uint64 :: "digits \<Rightarrow> u64" where
  "big_abs_to_uint64 [d] = ucast d"
| "big_abs_to_uint64 (lo # hi # _) = push_bit 32 (ucast hi) OR ucast lo"
| "big_abs_to_uint64 [] = 0"

fun is_uint64 :: "mpz \<Rightarrow> bool" where
  "is_uint64 (Small v) = (0 \<le> sint v)"
| "is_uint64 (Large s ds) = (0 \<le> s \<and> length ds \<le> 2)"

fun get_uint64 :: "mpz \<Rightarrow> u64" where
  "get_uint64 (Small v) = scast v"
| "get_uint64 (Large s ds) = big_abs_to_uint64 ds"

fun is_int64 :: "mpz \<Rightarrow> bool" where
  "is_int64 (Small v) = True"
| "is_int64 (Large s ds) =
     (if 2 < length ds then False
      else
        let num = big_abs_to_uint64 ds; msb_val = push_bit 63 1 AND num
        in if 0 \<le> s then msb_val = 0 else msb_val = 0 \<or> msb_val = num)"

fun get_int64 :: "mpz \<Rightarrow> i64" where
  "get_int64 (Small v) = scast v"
| "get_int64 (Large s ds) =
     (let num = big_abs_to_uint64 ds
      in if s < 0 then (if num \<noteq> 0 \<and> push_bit 1 num = 0 then push_bit 63 1 else - num) else num)"

fun mpz_is_even :: "mpz \<Rightarrow> bool" where
  "mpz_is_even (Small v) = (v AND 1 = 0)"
| "mpz_is_even (Large s ds) = (1 AND ds ! 0 = 0)"

fun decompose :: "mpz \<Rightarrow> digits \<times> bool" where
  "decompose (Small v) = (if v <s 0 then ([- v], True) else ([v], False))"
| "decompose (Large s ds) = (ds, s < 0)"

end
