(* ===== verification/MpzBitsProof.thy ===== *)
theory MpzBitsProof
  imports MpzBits
begin

text \<open>
  Correctness of the logarithm of a machine word, the count of trailing zeros, and the logarithms,
  power-of-two tests and multiplicities of the multi-precision integers.
\<close>

section \<open>Logarithm and powers of two\<close>

lemma unat_drop_bit_word: "unat (drop_bit n (v :: u32)) = unat v div 2 ^ n"
  using unat_u32_lt [of v]
  by (subst unsigned_drop_bit_eq) (simp add: drop_bit_eq_div take_bit_nat_eq_self)

lemma drop_bit_eq_0: "drop_bit n (v :: u32) = 0 \<longleftrightarrow> unat v < 2 ^ n"
  by (simp add: unat_eq_zero [symmetric] unat_drop_bit_word div_eq_0_iff)

lemma drop_bit_0_bits: "drop_bit n (v :: u32) = 0 \<longleftrightarrow> (\<forall>i. n \<le> i \<longrightarrow> \<not> bit v i)"
proof
  assume z: "drop_bit n v = 0"
  show "\<forall>i. n \<le> i \<longrightarrow> \<not> bit v i"
  proof (intro allI impI)
    fix i assume "n \<le> i"
    then have "bit v i = bit (drop_bit n v) (i - n)" by (simp add: bit_drop_bit_eq)
    then show "\<not> bit v i" by (simp add: z)
  qed
qed (simp add: bit_eq_iff bit_drop_bit_eq)

lemma and_high_eq_0:
  assumes "unat v < 2 ^ (n + n)" "n + n \<le> 32"
  shows "v AND push_bit n (mask n) = (0 :: u32) \<longleftrightarrow> unat v < 2 ^ n"
proof -
  have z: "\<not> bit v i" if "n + n \<le> i" for i
    using assms(1) that drop_bit_eq_0 [of "n + n" v] by (simp add: drop_bit_0_bits)
  have "v AND push_bit n (mask n) = (0 :: u32) \<longleftrightarrow> (\<forall>i. n \<le> i \<longrightarrow> \<not> bit v i)"
  proof
    assume a: "v AND push_bit n (mask n) = 0"
    show "\<forall>i. n \<le> i \<longrightarrow> \<not> bit v i"
    proof (intro allI impI)
      fix i assume i: "n \<le> i"
      have "\<not> bit (v AND push_bit n (mask n)) i" by (simp add: a)
      then show "\<not> bit v i"
        using i z [of i] assms(2) by (cases "i < n + n") (auto simp: bit_simps)
    qed
  qed (auto simp: bit_eq_iff bit_simps)
  then show ?thesis using drop_bit_eq_0 [of n v] by (simp add: drop_bit_0_bits)
qed

text \<open>One halving step of the search keeps the quotient by the power found so far.\<close>

lemma log2_step:
  assumes "unat v < 2 ^ (n + n)" "n + n \<le> 32" "m = push_bit n (mask n)" "0 < unat v"
  shows "0 < unat (fst (log2_step n m (v, r)))" "unat (fst (log2_step n m (v, r))) < 2 ^ n"
    "unat (fst (log2_step n m (v, r))) = unat v div 2 ^ (if unat v < 2 ^ n then 0 else n)"
    "snd (log2_step n m (v, r)) = (if unat v < 2 ^ n then r else r OR n)"
  using assms and_high_eq_0 [OF assms(1,2)]
  by (auto simp: log2_step_def unat_drop_bit_word power_add less_mult_imp_div_less div_greater_zero_iff)

lemma or_bits_sum:
  assumes "r1 = (if p1 then 0 else 0 OR 16)" "r2 = (if p2 then r1 else r1 OR 8)"
    "r3 = (if p3 then r2 else r2 OR 4)" "r4 = (if p4 then r3 else r3 OR 2)"
    "r5 = (if p5 then r4 else r4 OR (1 :: nat))"
  shows "r5 = (if p1 then 0 else 16) + (if p2 then 0 else 8) + (if p3 then 0 else 4) + (if p4 then 0 else 2) +
    (if p5 then 0 else 1)"
  unfolding assms by (cases p1; cases p2; cases p3; cases p4; cases p5; simp)

lemma log2_u32_correct:
  assumes "v \<noteq> 0"
  shows "2 ^ log2_u32 v \<le> unat v \<and> unat v < 2 ^ Suc (log2_u32 v)"
proof -
  have masks: "0xFFFF0000 = push_bit 16 (mask 16 :: u32)" "0xFF00 = push_bit 8 (mask 8 :: u32)"
    "0xF0 = push_bit 4 (mask 4 :: u32)" "0xC = push_bit 2 (mask 2 :: u32)" "0x2 = push_bit 1 (mask 1 :: u32)"
    by (simp_all add: mask_eq_exp_minus_1 push_bit_eq_mult)
  have v: "0 < unat v" "unat v < 2 ^ (16 + 16)" using assms unat_u32_lt [of v] by (simp_all add: unat_gt_0)
  obtain v1 r1 where 1: "log2_step 16 0xFFFF0000 (v, 0) = (v1, r1)" by fastforce
  note s1 = log2_step [OF v(2) _ masks(1) v(1), of 0, unfolded 1 fst_conv snd_conv]
  obtain v2 r2 where 2: "log2_step 8 0xFF00 (v1, r1) = (v2, r2)" by fastforce
  have "unat v1 < 2 ^ (8 + 8)" "0 < unat v1" using s1 by simp_all
  note s2 = log2_step [OF this(1) _ masks(2) this(2), of r1, unfolded 2 fst_conv snd_conv]
  obtain v3 r3 where 3: "log2_step 4 0xF0 (v2, r2) = (v3, r3)" by fastforce
  have "unat v2 < 2 ^ (4 + 4)" "0 < unat v2" using s2 by simp_all
  note s3 = log2_step [OF this(1) _ masks(3) this(2), of r2, unfolded 3 fst_conv snd_conv]
  obtain v4 r4 where 4: "log2_step 2 0xC (v3, r3) = (v4, r4)" by fastforce
  have "unat v3 < 2 ^ (2 + 2)" "0 < unat v3" using s3 by simp_all
  note s4 = log2_step [OF this(1) _ masks(4) this(2), of r3, unfolded 4 fst_conv snd_conv]
  obtain v5 r5 where 5: "log2_step 1 0x2 (v4, r4) = (v5, r5)" by fastforce
  have "unat v4 < 2 ^ (1 + 1)" "0 < unat v4" using s4 by simp_all
  note s5 = log2_step [OF this(1) _ masks(5) this(2), of r4, unfolded 5 fst_conv snd_conv]
  have r: "log2_u32 v = r5" by (simp only: log2_u32_def 1 2 3 4 5 snd_conv)
  let ?a = "if unat v < 2 ^ 16 then 0 else 16" and ?b = "if unat v1 < 2 ^ 8 then 0 else 8"
    and ?c = "if unat v2 < 2 ^ 4 then 0 else 4" and ?d = "if unat v3 < 2 ^ 2 then 0 else 2"
    and ?e = "if unat v4 < 2 ^ 1 then 0 else (1 :: nat)"
  have e: "r1 = (if unat v < 2 ^ 16 then 0 else 0 OR 16)" "r2 = (if unat v1 < 2 ^ 8 then r1 else r1 OR 8)"
    "r3 = (if unat v2 < 2 ^ 4 then r2 else r2 OR 4)" "r4 = (if unat v3 < 2 ^ 2 then r3 else r3 OR 2)"
    "r5 = (if unat v4 < 2 ^ 1 then r4 else r4 OR 1)"
    using s1(4) s2(4) s3(4) s4(4) s5(4) by simp_all
  have r5: "r5 = ?a + ?b + ?c + ?d + ?e"
    using e by (rule or_bits_sum)
  have "unat v5 = unat v div 2 ^ (?a + ?b + ?c + ?d + ?e)"
    using s1 s2 s3 s4 s5 by (simp only: power_add div_mult2_eq)
  moreover have "unat v5 = 1" using s5 by simp
  ultimately have "unat v div 2 ^ r5 = 1" by (simp only: r5)
  moreover have "unat v = unat v div 2 ^ r5 * 2 ^ r5 + unat v mod 2 ^ r5"
    by (simp only: div_mult_mod_eq)
  ultimately have "unat v = 2 ^ r5 + unat v mod 2 ^ r5"
    by (simp only: mult_1)
  moreover have "unat v mod 2 ^ r5 < 2 ^ r5" by simp
  ultimately show ?thesis
    unfolding r power_Suc by linarith
qed


section \<open>Trailing zeros\<close>

lemma smod_0_iff: "(x :: int) smod y = 0 \<longleftrightarrow> y dvd x"
proof -
  obtain s n where x: "s = 1 \<or> s = - 1" "x = s * int n" using sign_magnitude by blast
  obtain t k where y: "t = 1 \<or> t = - 1" "y = t * int k" using sign_magnitude by blast
  have "x smod y = s * int (n mod k)"
    using sdiv_sign_magnitude(2) [OF x(1) y(1), of n k] by (simp only: x(2) y(2))
  then have "x smod y = 0 \<longleftrightarrow> n mod k = 0" using x by auto
  also have "\<dots> \<longleftrightarrow> y dvd x" using x y by (auto simp: mod_eq_0_iff_dvd int_dvd_int_iff)
  finally show ?thesis .
qed

lemma sdiv_exact: "y dvd x \<Longrightarrow> (x :: int) sdiv y * y = x"
proof -
  assume dvd: "y dvd x"
  obtain s n where x: "s = 1 \<or> s = - 1" "x = s * int n" using sign_magnitude by blast
  obtain t k where y: "t = 1 \<or> t = - 1" "y = t * int k" using sign_magnitude by blast
  have "x sdiv y = (if s = t then 1 else - 1) * int (n div k)"
    using sdiv_sign_magnitude(1) [OF x(1) y(1), of n k] by (simp only: x(2) y(2))
  moreover have "k dvd n" using dvd x y by (auto simp: int_dvd_int_iff)
  then have "int (n div k) * int k = int n" by (simp flip: of_nat_mult)
  ultimately show ?thesis using x y by (auto simp del: of_nat_div)
qed

lemma count_step_correct:
  assumes "v \<noteq> 0" "\<not> 2 ^ (n + n) dvd (v :: int)"
  shows "case count_step n (v, r) of (v', r') \<Rightarrow>
    v' \<noteq> 0 \<and> v = v' * 2 ^ (r' - r) \<and> r \<le> r' \<and> \<not> 2 ^ n dvd v'"
proof (cases "2 ^ n dvd v")
  case True
  then obtain w where w: "v sdiv 2 ^ n = w" "w * 2 ^ n = v" using sdiv_exact by auto
  have "\<not> 2 ^ n dvd w"
  proof
    assume "2 ^ n dvd w"
    then have "2 ^ n * 2 ^ n dvd w * 2 ^ n" by (intro mult_dvd_mono) auto
    then show False using assms(2) w(2) by (simp add: power_add)
  qed
  then show ?thesis using True w assms(1) by (auto simp: count_step_def smod_0_iff)
next
  case False
  then show ?thesis using assms(1) by (simp add: count_step_def smod_0_iff)
qed

lemma count_digit_right_zeros_correct:
  assumes "v \<noteq> 0" "\<bar>v\<bar> < 4294967296"
  shows "r \<le> count_digit_right_zeros v r \<and>
    (\<exists>w. odd w \<and> v = w * 2 ^ (count_digit_right_zeros v r - r))"
proof -
  have "\<not> 2 ^ (16 + 16) dvd v"
    using assms zdvd_imp_le [of "2 ^ 32" "\<bar>v\<bar>"] by auto
  note s1 = count_step_correct [OF assms(1) this, of r]
  obtain v1 r1 where 1: "count_step 16 (v, r) = (v1, r1)" by fastforce
  have i1: "v1 \<noteq> 0" "v = v1 * 2 ^ (r1 - r)" "r \<le> r1" "\<not> 2 ^ (8 + 8) dvd v1" using s1 by (simp_all add: 1)
  note s2 = count_step_correct [OF i1(1,4), of r1]
  obtain v2 r2 where 2: "count_step 8 (v1, r1) = (v2, r2)" by fastforce
  have i2: "v2 \<noteq> 0" "v1 = v2 * 2 ^ (r2 - r1)" "r1 \<le> r2" "\<not> 2 ^ (4 + 4) dvd v2" using s2 by (simp_all add: 2)
  note s3 = count_step_correct [OF i2(1,4), of r2]
  obtain v3 r3 where 3: "count_step 4 (v2, r2) = (v3, r3)" by fastforce
  have i3: "v3 \<noteq> 0" "v2 = v3 * 2 ^ (r3 - r2)" "r2 \<le> r3" "\<not> 2 ^ (2 + 2) dvd v3" using s3 by (simp_all add: 3)
  note s4 = count_step_correct [OF i3(1,4), of r3]
  obtain v4 r4 where 4: "count_step 2 (v3, r3) = (v4, r4)" by fastforce
  have i4: "v4 \<noteq> 0" "v3 = v4 * 2 ^ (r4 - r3)" "r3 \<le> r4" "\<not> 2 ^ (1 + 1) dvd v4" using s4 by (simp_all add: 4)
  note s5 = count_step_correct [OF i4(1,4), of r4]
  obtain v5 r5 where 5: "count_step 1 (v4, r4) = (v5, r5)" by fastforce
  have i5: "v5 \<noteq> 0" "v4 = v5 * 2 ^ (r5 - r4)" "r4 \<le> r5" "\<not> 2 ^ 1 dvd v5"
    using s5 unfolding 5 by simp_all
  have c: "count_digit_right_zeros v r = r5"
    by (simp only: count_digit_right_zeros_def 1 2 3 4 5 snd_conv)
  have "v = v5 * 2 ^ ((r5 - r4) + (r4 - r3) + (r3 - r2) + (r2 - r1) + (r1 - r))"
    unfolding i1(2) i2(2) i3(2) i4(2) i5(2) by (simp only: power_add mult.assoc)
  also have "(r5 - r4) + (r4 - r3) + (r3 - r2) + (r2 - r1) + (r1 - r) = r5 - r"
    using i1 i2 i3 i4 i5 by linarith
  finally show ?thesis using c i1(3) i2(3) i3(3) i4(3) i5(3,4) by auto
qed

lemma power_of_two_multiple_correct:
  assumes "wf_mpz a" "mpz_val a \<noteq> 0"
  shows "\<exists>w. odd w \<and> mpz_val a = w * 2 ^ power_of_two_multiple a"
proof (cases a)
  case (Small v)
  have "v \<noteq> 0" using assms Small by auto
  moreover have "\<bar>sint v\<bar> < 4294967296" using sint_i32_bounds [of v] by linarith
  ultimately show ?thesis
    using count_digit_right_zeros_correct [of "sint v" 0] assms Small by simp
next
  case (Large s ds)
  have z: "\<exists>w. odd w \<and> int (nval ds) * 2 ^ r = w * 2 ^ zero_digits ds r" if "\<exists>d \<in> set ds. d \<noteq> 0" for r
    using that
  proof (induction ds arbitrary: r)
    case (Cons d ds)
    show ?case
    proof (cases "d = 0")
      case True
      then obtain w where "odd w" "int (nval ds) * 2 ^ (r + 32) = w * 2 ^ zero_digits ds (r + 32)"
        using Cons by auto
      then show ?thesis using True by (intro exI [of _ w]) (simp add: power_add algebra_simps)
    next
      case False
      have "uint d \<noteq> 0" "\<bar>uint d\<bar> < 4294967296"
        using False uint_u32_bounds [of d] uint_0_iff [of d] by (simp_all add: abs_if)
      then obtain w where w: "odd w" "uint d = w * 2 ^ (count_digit_right_zeros (uint d) r - r)"
          "r \<le> count_digit_right_zeros (uint d) r"
        using count_digit_right_zeros_correct [of "uint d" r] by auto
      let ?c = "count_digit_right_zeros (uint d) r - r"
      have "?c < 32"
      proof (rule ccontr)
        assume "\<not> ?c < 32"
        then have "(2 :: int) ^ 32 \<le> 2 ^ ?c" by (intro power_increasing) auto
        moreover have "2 ^ ?c dvd uint d" by (subst w(2)) simp
        then have "2 ^ ?c \<le> uint d"
          using \<open>uint d \<noteq> 0\<close> by (intro zdvd_imp_le) (simp_all add: less_le)
        ultimately have "2 ^ 32 \<le> uint d" by linarith
        then show False using \<open>\<bar>uint d\<bar> < 4294967296\<close> by simp
      qed
      then have "(4294967296 :: int) = 2 ^ ?c * 2 * 2 ^ (31 - ?c)"
        by (simp flip: power_Suc power_Suc2 power_add)
      then have "int (nval (d # ds)) = (w + 2 * (2 ^ (31 - ?c) * int (nval ds))) * 2 ^ ?c"
        using w(2) by (simp add: algebra_simps)
      then have "int (nval (d # ds)) * 2 ^ r = (w + 2 * (2 ^ (31 - ?c) * int (nval ds))) * 2 ^ (?c + r)"
        by (simp add: power_add)
      then show ?thesis using False w by (intro exI [of _ "w + 2 * (2 ^ (31 - ?c) * int (nval ds))"]) simp
    qed
  qed simp
  have "last ds \<in> set ds" "last ds \<noteq> 0" using assms Large by auto
  then obtain w where "odd w" "int (nval ds) * 2 ^ 0 = w * 2 ^ zero_digits ds 0" using z [of 0] by blast
  then show ?thesis using assms Large by (intro exI [of _ "s * w"]) auto
qed

end
