(* ===== verification/MpzShift.thy ===== *)
theory MpzShift
  imports MpzBitsProof
begin

text \<open>
  Correctness of normalization and of the shifts of util/mpz.cpp: multiplication and truncated division
  by powers of two on the digits.
\<close>

section \<open>Normalization\<close>

lemma mpz_normalize_correct:
  assumes s: "s = 1 \<or> s = - 1"
  shows "wf_mpz (mpz_normalize (Large s ds)) \<and> mpz_val (mpz_normalize (Large s ds)) = s * int (nval ds)"
proof -
  let ?ds = "drop_zeros ds"
  have "wf_mpz (mpz_normalize (Large s ds)) \<and> mpz_val (mpz_normalize (Large s ds)) = s * int (nval ?ds)"
  proof (cases "?ds = []")
    case True
    have "nval ?ds = 0" by (simp add: True del: nval_drop_zeros)
    then show ?thesis by (simp add: True del: nval_drop_zeros)
  next
    case nonempty: False
    note last = last_drop_zeros [OF nonempty]
    show ?thesis
    proof (cases "length ?ds = 1")
      case True
      then obtain d where d: "?ds = [d]" by (cases ?ds) auto
      show ?thesis
      proof (cases "d \<le> 2147483647")
        case small: True
        have "sint (- d) = - sint d"
          using small signed_take_bit_uint(2) [of d] by (simp add: sint_word_minus sint_small_u32 word_le_def)
        then show ?thesis
          using s small by (auto simp: d sint_small_u32 simp del: nval_drop_zeros)
      next
        case big: False
        then have "2147483648 \<le> unat d" by (simp add: word_le_nat_alt)
        then show ?thesis
          using s big last by (auto simp: d simp del: nval_drop_zeros)
      qed
    next
      case False
      then have len: "1 < length ?ds" using nonempty by (cases ?ds) auto
      then show ?thesis
        using s nonempty last nval_ge_base [OF len last] by (auto simp: Let_def)
    qed
  qed
  then show ?thesis by simp
qed

section \<open>Shifts\<close>

lemma push_last_bits: "b < 32 \<Longrightarrow> push_bit (32 - b) (last_bits b y) = push_bit (32 - b) y"
  by (rule bit_word_eqI) (auto simp: last_bits_def bit_simps)

lemma shift_right_eq:
  assumes "ds \<noteq> []" "b < 32"
  shows "shift_right b ds = shr_digits b ds"
  using assms(1)
proof (induction ds rule: list_nonempty_induct)
  case (single d)
  then show ?case by (simp add: shr_digits_def)
next
  case (cons d ds)
  then obtain e es where ds: "ds = e # es" by (cases ds) auto
  have "shr_digits b (d # ds) = (drop_bit b d OR push_bit (32 - b) (last_bits b e)) # shr_digits b ds"
    by (simp add: shr_digits_def ds map_upt_Suc del: upt_Suc)
  then show ?case using cons.IH assms(2) by (simp add: ds push_last_bits)
qed

lemma nval_drop: "n \<le> length ds \<Longrightarrow> nval (drop n ds) = nval ds div 4294967296 ^ n"
proof -
  assume n: "n \<le> length ds"
  have "nval (take n ds) < 4294967296 ^ n" using nval_less [of "take n ds"] n by (simp add: min_absorb2)
  then show ?thesis using nval_take_drop [OF n] by simp
qed

text \<open>The value a right shift is meant to compute: truncation towards zero.\<close>

definition div2k :: "int \<Rightarrow> nat \<Rightarrow> int" where
  "div2k x k = sgn x * (\<bar>x\<bar> div 2 ^ k)"

lemma div2k_sign: "s = 1 \<or> s = - 1 \<Longrightarrow> div2k (s * int n) k = s * int (n div 2 ^ k)"
  by (auto simp: div2k_def sgn_if zdiv_int)

lemma pow2_digits: "(2 :: nat) ^ k = 4294967296 ^ (k div 32) * 2 ^ (k mod 32)"
proof -
  have "(2 :: nat) ^ (32 * (k div 32) + k mod 32) = (2 ^ 32) ^ (k div 32) * 2 ^ (k mod 32)"
    by (simp only: power_add power_mult)
  then show ?thesis by simp
qed

lemma machine_div2k_large:
  assumes wf: "wf_mpz (Large s ds)"
  shows "wf_mpz (machine_div2k (Large s ds) k)"
    "mpz_val (machine_div2k (Large s ds) k) = div2k (mpz_val (Large s ds)) k"
proof -
  have s: "s = 1 \<or> s = - 1" using wf by simp
  let ?q = "k div 32" and ?b = "k mod 32"
  have pow: "(2 :: nat) ^ k = 4294967296 ^ ?q * 2 ^ ?b"
    by (rule pow2_digits)
  have "wf_mpz (machine_div2k (Large s ds) k) \<and>
      mpz_val (machine_div2k (Large s ds) k) = s * int (nval ds div 2 ^ k)"
  proof (cases "k = 0")
    case True
    then show ?thesis using wf by simp
  next
    case k: False
    show ?thesis
    proof (cases "length ds \<le> ?q")
      case True
      have "nval ds < 4294967296 ^ length ds" by (rule nval_less)
      also have "\<dots> \<le> 4294967296 ^ ?q" using True by (intro power_increasing) auto
      also have "\<dots> * 1 \<le> 4294967296 ^ ?q * 2 ^ ?b" by (intro mult_le_mono) auto
      finally show ?thesis using True k by (simp add: pow)
    next
      case False
      let ?d = "drop ?q ds"
      have ne: "?d \<noteq> []" using False by simp
      have "nval (if ?b = 0 then ?d else shift_right ?b ?d) = nval ?d div 2 ^ ?b"
        using nval_shr [OF ne, of ?b] shift_right_eq [OF ne, of ?b] by simp
      also have "\<dots> = nval ds div 2 ^ k"
        using False by (simp add: nval_drop pow div_mult2_eq)
      finally show ?thesis
        using False k mpz_normalize_correct [OF s] by (simp add: Let_def)
    qed
  qed
  then show "wf_mpz (machine_div2k (Large s ds) k)"
    "mpz_val (machine_div2k (Large s ds) k) = div2k (mpz_val (Large s ds)) k"
    using div2k_sign [OF s] by simp_all
qed

lemma sdiv_pow2: "(x :: int) sdiv 2 ^ k = div2k x k"
  by (simp add: signed_divide_int_def div2k_def)

lemma machine_div2k_small:
  assumes "\<not> (v = int_min \<and> k = 31)"
  shows "mpz_val (machine_div2k (Small v) k) = div2k (sint v) k"
proof (cases "k = 0 \<or> v = 0")
  case True
  then show ?thesis by (auto simp: div2k_def mult.commute [of "sgn (sint v)"] abs_mult_sgn)
next
  case nz: False
  have b: "\<bar>sint v\<bar> \<le> 2147483648" using sint_i32_bounds [of v] by linarith
  consider "k < 31" | "k = 31" | "32 \<le> k" by linarith
  then show ?thesis
  proof cases
    case 1
    have p: "(2 :: int) ^ k \<le> 2 ^ 30" using 1 by (intro power_increasing) auto
    have "sint (push_bit k 1 :: i32) = sint (word_of_int (2 ^ k) :: i32)"
      by (simp add: push_bit_eq_mult)
    also have "\<dots> = 2 ^ k" using p by (intro sint_word_of_int_i32) (auto intro: order_trans [of _ 0])
    finally have "machine_div2k (Small v) k = Small (word_of_int (div2k (sint v) k))"
      using nz 1 by (simp add: sdiv_pow2)
    moreover have "\<bar>div2k (sint v) k\<bar> \<le> \<bar>sint v\<bar> div 2 ^ k"
      by (simp add: div2k_def abs_mult abs_sgn_eq pos_imp_zdiv_nonneg_iff)
    moreover have "\<bar>sint v\<bar> div 2 ^ k \<le> \<bar>sint v\<bar> div 2 ^ 1"
      using nz by (intro zdiv_mono2 power_increasing) auto
    moreover have "\<bar>sint v\<bar> div 2 ^ 1 \<le> 1073741824" using b by simp
    ultimately have "\<bar>div2k (sint v) k\<bar> \<le> 1073741824"
      and e: "machine_div2k (Small v) k = Small (word_of_int (div2k (sint v) k))" by linarith+
    then have "sint (word_of_int (div2k (sint v) k) :: i32) = div2k (sint v) k"
      by (intro sint_word_of_int_i32) linarith+
    then show ?thesis by (simp only: e mpz_val.simps)
  next
    case 2
    have m: "sint (push_bit 31 1 :: i32) = - 2147483648"
      using sint_int_min by (simp add: int_min_def)
    have "sint v \<noteq> - 2147483648" using assms 2 sint_int_min by (metis signed_word_eqI)
    then have "\<bar>sint v\<bar> < 2147483648" using sint_i32_bounds [of v] by linarith
    then have "\<bar>sint v\<bar> div 2147483648 = 0" by simp
    then show ?thesis using nz 2 by (simp add: m signed_divide_int_def div2k_def)
  next
    case 3
    have "(2 :: int) ^ 32 \<le> 2 ^ k" using 3 by (intro power_increasing) auto
    then have "\<bar>sint v\<bar> < 2 ^ k" using b by simp
    then have "\<bar>sint v\<bar> div 2 ^ k = 0" by simp
    then show ?thesis using nz 3 by (simp add: div2k_def)
  qed
qed

text \<open>The one shift that is wrong: \<open>1 << 31\<close> is negative, so \<open>- 2^31\<close> shifted by 31 gives \<open>1\<close>.\<close>

lemma machine_div2k_int_min: "mpz_val (machine_div2k (Small int_min) 31) = 1"
  by (simp add: int_min_def signed_divide_int_def)

lemma machine_div2k_correct:
  assumes "wf_mpz a" "\<not> (a = Small int_min \<and> k = 31)"
  shows "wf_mpz (machine_div2k a k)" "mpz_val (machine_div2k a k) = div2k (mpz_val a) k"
  using assms machine_div2k_small machine_div2k_large by (cases a; simp del: machine_div2k.simps(2))+


lemma length_shl_digits [simp]: "length (shl_digits b p ds) = length ds"
  by (induction ds arbitrary: p) auto

lemma unat_or_low:
  assumes "unat (p :: u32) < 2 ^ b" "b < 32"
  shows "unat (push_bit b d OR p) = unat d * 2 ^ b mod 4294967296 + unat p"
proof -
  have p: "\<not> bit p i" if "b \<le> i" for i
    using assms(1) that drop_bit_eq_0 [of b p] by (simp add: drop_bit_0_bits)
  have "unat d * 2 ^ b mod 4294967296 = (unat d mod 2 ^ (32 - b)) * 2 ^ b"
    using assms(2) pow2_split [of b] mult_mod_left [of "unat d" "2 ^ (32 - b)" "2 ^ b"]
    by (simp add: mult.commute)
  moreover have "Suc (unat d mod 2 ^ (32 - b)) * 2 ^ b \<le> 2 ^ (32 - b) * 2 ^ b"
    by (intro mult_le_mono1) (simp add: Suc_leI)
  ultimately have "unat (push_bit b d) + unat p < 4294967296"
    using assms pow2_split [of b] by (simp add: unat_push_bit_u32 mult.commute)
  moreover have "\<not> (bit (push_bit b d) i \<and> bit p i)" for i
    using p by (auto simp: bit_simps)
  ultimately show ?thesis
    by (subst or_is_add_u32) (simp_all add: unat_push_bit_u32)
qed

lemma nval_shl_digits:
  assumes "0 < b" "b < 32"
  shows "unat p < 2 ^ b \<Longrightarrow> ds \<noteq> [] \<Longrightarrow>
    nval (shl_digits b p ds) + 4294967296 ^ length ds * (unat (last ds) div 2 ^ (32 - b)) = nval ds * 2 ^ b + unat p"
proof (induction ds arbitrary: p)
  case (Cons d ds)
  have q: "unat (drop_bit (32 - b) d) = unat d div 2 ^ (32 - b)"
    by (simp add: unat_drop_bit_word)
  have lt: "unat d div 2 ^ (32 - b) < 2 ^ b"
  proof -
    have "(4294967296 :: nat) = 2 ^ b * 2 ^ (32 - b)" using assms by (simp flip: power_add)
    then show ?thesis using unat_u32_lt [of d] by (simp add: less_mult_imp_div_less)
  qed
  have head: "unat (push_bit b d OR p) = unat d * 2 ^ b mod 4294967296 + unat p"
    by (rule unat_or_low [OF Cons.prems(1) assms(2)])
  note split = shl_digit_split [of b "unat d"]
  show ?case
  proof (cases "ds = []")
    case True
    then show ?thesis using head split assms by simp
  next
    case False
    have IH: "nval (shl_digits b (drop_bit (32 - b) d) ds) + 4294967296 ^ length ds * (unat (last ds) div 2 ^ (32 - b))
        = nval ds * 2 ^ b + unat d div 2 ^ (32 - b)"
      using Cons.IH [of "drop_bit (32 - b) d"] False lt by (simp add: q)
    have "4294967296 * (nval (shl_digits b (drop_bit (32 - b) d) ds) + 4294967296 ^ length ds * (unat (last ds) div 2 ^ (32 - b)))
        = 4294967296 * (nval ds * 2 ^ b + unat d div 2 ^ (32 - b))"
      by (simp only: IH)
    then show ?thesis using head split assms False by (simp add: algebra_simps)
  qed
qed simp

lemma i64_shift_small:
  assumes "k < 32"
  shows "sint (i64_of (Small v) * push_bit k 1) = sint v * 2 ^ k"
proof -
  have p: "(2 :: int) ^ k \<le> 2 ^ 31" using assms by (intro power_increasing) auto
  have "\<bar>sint v * 2 ^ k\<bar> \<le> 2147483648 * 2 ^ 31"
    unfolding abs_mult using sint_i32_bounds [of v] p by (intro mult_mono) auto
  then have b: "\<bar>sint v * 2 ^ k\<bar> \<le> 4611686018427387904" by simp
  have "sint (push_bit k 1 :: i64) = sint (word_of_int (2 ^ k) :: i64)"
    by (simp add: push_bit_eq_mult)
  also have "\<dots> = 2 ^ k"
    using p by (intro sint_word_of_int_i64) (auto intro: order_trans [of _ 0])
  finally have "sint (scast v * push_bit k 1 :: i64) = signed_take_bit 63 (sint v * 2 ^ k)"
    by (simp add: sint_word_mult)
  also have "\<dots> = sint v * 2 ^ k"
    using b by (intro signed_take_bit_63_id) linarith+
  finally show ?thesis by simp
qed

lemma mul2k_correct:
  assumes wf: "wf_mpz a"
  shows "wf_mpz (mul2k a k)" "mpz_val (mul2k a k) = mpz_val a * 2 ^ k"
proof -
  have "wf_mpz (mul2k a k) \<and> mpz_val (mul2k a k) = mpz_val a * 2 ^ k"
  proof (cases "k = 0 \<or> mpz_is_zero a")
    case True
    then show ?thesis using wf by (auto simp: mul2k_def mpz_sign_correct)
  next
    case nz: False
    show ?thesis
    proof (cases "is_small a \<and> k < 32")
      case True
      then obtain v where "a = Small v" by (cases a) auto
      then show ?thesis
        using nz True i64_shift_small [of k v] by (simp add: mul2k_def del: i64_of.simps)
    next
      case big: False
      obtain s ds where c: "get_sign_cell a = (s, ds)" by fastforce
      note A = get_sign_cell_correct [OF wf c]
      let ?q = "k div 32" and ?b = "k mod 32"
      let ?z = "replicate ?q 0 @ ds @ [0]"
      let ?r = "if 0 < ?b then take ?q ?z @ shl_digits ?b 0 (drop ?q ?z) else ?z"
      have "mul2k a k = mpz_normalize (Large s ?r)"
        using nz big by (auto simp: mul2k_def c Let_def simp del: mpz_normalize.simps)
      moreover have "nval ?r = nval ds * 2 ^ k"
      proof (cases "0 < ?b")
        case True
        have "nval (shl_digits ?b 0 (ds @ [0])) = nval ds * 2 ^ ?b"
          using nval_shl_digits [OF True, of 0 "ds @ [0]"] by (simp add: nval_append)
        then show ?thesis
          using True by (simp add: nval_append pow2_digits [of k])
      next
        case False
        then show ?thesis by (simp add: nval_append pow2_digits [of k])
      qed
      ultimately show ?thesis
        using mpz_normalize_correct [OF A(1), of ?r] A(3) by (simp del: mpz_normalize.simps)
    qed
  qed
  then show "wf_mpz (mul2k a k)" "mpz_val (mul2k a k) = mpz_val a * 2 ^ k" by blast+
qed


section \<open>Logarithms and powers of two\<close>

lemma nval_log2:
  assumes "ds \<noteq> []" "last ds \<noteq> 0"
  shows "2 ^ ((length ds - 1) * 32 + log2_u32 (last ds)) \<le> nval ds \<and>
    nval ds < 2 ^ Suc ((length ds - 1) * 32 + log2_u32 (last ds))"
proof -
  let ?n = "length ds - 1" and ?l = "log2_u32 (last ds)"
  let ?lo = "nval (butlast ds)" and ?hi = "unat (last ds)"
  have ds: "ds = butlast ds @ [last ds]" using assms(1) by simp
  have v: "nval ds = ?lo + 4294967296 ^ ?n * ?hi" by (subst ds) (simp add: nval_append)
  have lo: "?lo < 4294967296 ^ ?n" using nval_less [of "butlast ds"] by simp
  have hi: "2 ^ ?l \<le> ?hi" "Suc ?hi \<le> 2 ^ Suc ?l" using log2_u32_correct [OF assms(2)] by simp_all
  have p: "(2 :: nat) ^ (?n * 32 + k) = 4294967296 ^ ?n * 2 ^ k" for k
  proof -
    have "(2 :: nat) ^ (32 * ?n + k) = (2 ^ 32) ^ ?n * 2 ^ k" by (simp only: power_add power_mult)
    then show ?thesis by (simp add: mult.commute [of _ 32])
  qed
  have "4294967296 ^ ?n * 2 ^ ?l \<le> 4294967296 ^ ?n * ?hi" using hi(1) by (rule mult_le_mono2)
  moreover have "4294967296 ^ ?n * Suc ?hi \<le> 4294967296 ^ ?n * 2 ^ Suc ?l" using hi(2) by (rule mult_le_mono2)
  moreover have "4294967296 ^ ?n * Suc ?hi = 4294967296 ^ ?n + 4294967296 ^ ?n * ?hi" by simp
  ultimately show ?thesis using lo unfolding v p add_Suc_right [symmetric] by linarith
qed

lemma mpz_log2_correct:
  assumes "wf_mpz a" "0 < mpz_val a"
  shows "2 ^ mpz_log2 a \<le> mpz_val a \<and> mpz_val a < 2 ^ Suc (mpz_log2 a)"
proof (cases a)
  case (Small v)
  have u: "int (unat v) = sint v"
    using assms Small sint_i32_bounds [of v] by (simp add: uint_sint take_bit_int_eq_self_iff)
  then have "v \<noteq> 0" using assms Small by auto
  from log2_u32_correct [OF this] have "int (2 ^ log2_u32 v) \<le> int (unat v)" "int (unat v) < int (2 ^ Suc (log2_u32 v))"
    by (simp_all only: of_nat_le_iff of_nat_less_iff)
  then show ?thesis using assms Small unfolding u by simp
next
  case (Large s ds)
  then have "s = 1" "ds \<noteq> []" "last ds \<noteq> 0" using assms by (auto simp: zero_less_mult_iff)
  from nval_log2 [OF this(2,3)]
  have "int (2 ^ ((length ds - 1) * 32 + log2_u32 (last ds))) \<le> int (nval ds)"
    "int (nval ds) < int (2 ^ Suc ((length ds - 1) * 32 + log2_u32 (last ds)))"
    by (simp_all only: of_nat_le_iff of_nat_less_iff)
  then show ?thesis using Large \<open>s = 1\<close> by simp
qed

lemma unat_uminus_i32: "v <s 0 \<Longrightarrow> int (unat (- v)) = - sint (v :: i32)"
proof -
  assume "v <s 0"
  then have n: "sint v < 0" by (simp add: word_sless_alt)
  have "uint (- v) = uint (word_of_int (- sint v) :: i32)" by simp
  also have "\<dots> = take_bit 32 (- sint v)" by (simp only: unsigned_of_int) simp
  also have "\<dots> = - sint v" using n sint_i32_bounds [of v] by (simp add: take_bit_int_eq_self_iff)
  finally show ?thesis by simp
qed

lemma mpz_mlog2_correct:
  assumes "wf_mpz a" "mpz_val a < 0"
  shows "2 ^ mpz_mlog2 a \<le> - mpz_val a \<and> - mpz_val a < 2 ^ Suc (mpz_mlog2 a)"
proof (cases a)
  case (Small v)
  have u: "int (unat (- v)) = - sint v"
    using assms Small by (intro unat_uminus_i32) (simp add: word_sless_alt)
  then have "- v \<noteq> 0" using assms Small by auto
  from log2_u32_correct [OF this] have "int (2 ^ log2_u32 (- v)) \<le> int (unat (- v))"
    "int (unat (- v)) < int (2 ^ Suc (log2_u32 (- v)))"
    by (simp_all only: of_nat_le_iff of_nat_less_iff)
  then show ?thesis using assms Small unfolding u by simp
next
  case (Large s ds)
  then have "s = - 1" "ds \<noteq> []" "last ds \<noteq> 0" using assms by auto
  from nval_log2 [OF this(2,3)]
  have "int (2 ^ ((length ds - 1) * 32 + log2_u32 (last ds))) \<le> int (nval ds)"
    "int (nval ds) < int (2 ^ Suc ((length ds - 1) * 32 + log2_u32 (last ds)))"
    by (simp_all only: of_nat_le_iff of_nat_less_iff)
  then show ?thesis using Large \<open>s = - 1\<close> by simp
qed

text \<open>The test \<open>v & (v - 1)\<close> on a word.\<close>

lemma and_minus_one_pow2:
  assumes "k < 32"
  shows "(2 ^ k :: u32) AND (2 ^ k - 1) = 0"
  by (rule bit_word_eqI) (auto simp: bit_simps mask_eq_exp_minus_1 [symmetric])

lemma is_power_of_two_u32_correct: "is_power_of_two_u32 v \<longleftrightarrow> (\<exists>k. k < 32 \<and> v = 2 ^ k)"
proof
  assume p: "is_power_of_two_u32 v"
  let ?k = "log2_u32 v"
  have nz: "v \<noteq> 0" and z: "v AND (v - 1) = 0" using p by (simp_all add: is_power_of_two_u32_def)
  have l: "2 ^ ?k \<le> unat v" "unat v < 2 ^ Suc ?k" using log2_u32_correct [OF nz] by auto
  have k: "?k < 32"
  proof (rule ccontr)
    assume "\<not> ?k < 32"
    then have "(2 :: nat) ^ 32 \<le> 2 ^ ?k" by (intro power_increasing) auto
    then show False using l(1) unat_u32_lt [of v] by simp
  qed
  have b: "bit (w :: u32) ?k" if "2 ^ ?k \<le> unat w" "unat w < 2 ^ Suc ?k" for w
  proof -
    have "unat w div 2 ^ ?k = 1" using that by (simp add: div_nat_eqI)
    then have "bit (unat w) ?k" by (simp add: bit_iff_odd)
    then show ?thesis by (simp add: bit_unsigned_iff)
  qed
  have "unat (v - 1) = unat v - 1" using nz by (simp add: unat_minus_one)
  have "\<not> 2 ^ ?k \<le> unat v - 1"
  proof
    assume "2 ^ ?k \<le> unat v - 1"
    then have "bit (v AND (v - 1)) ?k"
      using b [of v] b [of "v - 1"] l \<open>unat (v - 1) = unat v - 1\<close> by (simp add: bit_simps)
    then show False using z by simp
  qed
  then have "unat v = 2 ^ ?k" using l by linarith
  then have "(of_nat (unat v) :: u32) = of_nat (2 ^ ?k)" by (rule arg_cong)
  then have "v = 2 ^ ?k" by simp
  then show "\<exists>k. k < 32 \<and> v = 2 ^ k" using k by blast
next
  assume "\<exists>k. k < 32 \<and> v = 2 ^ k"
  then obtain k where k: "k < 32" "v = 2 ^ k" by blast
  then have "v \<noteq> 0" by simp
  then show "is_power_of_two_u32 v" using and_minus_one_pow2 [OF k(1)] k(2) by (simp add: is_power_of_two_u32_def)
qed


lemma unat_pow2_u32: "k < 32 \<Longrightarrow> unat (2 ^ k :: u32) = 2 ^ k"
proof -
  assume "k < 32"
  then have "(2 :: nat) ^ k < 2 ^ 32" by (intro power_strict_increasing) auto
  moreover have "unat (push_bit k 1 :: u32) = unat (1 :: u32) * 2 ^ k mod 4294967296"
    by (rule unat_push_bit_u32)
  ultimately show ?thesis by (simp add: push_bit_eq_mult)
qed

lemma log2_u32_pow2:
  assumes "k < 32"
  shows "log2_u32 (2 ^ k) = k"
proof -
  have "(2 :: u32) ^ k \<noteq> 0" using assms by simp
  from log2_u32_correct [OF this]
  have "2 ^ log2_u32 (2 ^ k) \<le> (2 :: nat) ^ k" "(2 :: nat) ^ k < 2 ^ Suc (log2_u32 (2 ^ k))"
    using unat_pow2_u32 [OF assms] by simp_all
  then have "log2_u32 (2 ^ k) \<le> k" "k < Suc (log2_u32 (2 ^ k))"
    by (simp_all only: power_increasing_iff power_strict_increasing_iff one_less_numeral_iff semiring_norm)
  then show ?thesis by simp
qed

lemma pow2_unique: "\<lbrakk>2 ^ k \<le> x; x < 2 ^ Suc k; x = (2 :: 'a :: linordered_semidom) ^ m\<rbrakk> \<Longrightarrow> m = k"
proof -
  assume "2 ^ k \<le> x" "x < 2 ^ Suc k" "x = 2 ^ m"
  then have "(2 :: 'a) ^ k \<le> 2 ^ m" "(2 :: 'a) ^ m < 2 ^ Suc k" by simp_all
  then have "k \<le> m" "m < Suc k"
    by (simp_all only: power_increasing_iff power_strict_increasing_iff one_less_numeral_iff semiring_norm)
  then show ?thesis by simp
qed

lemma mpz_is_power_of_two_correct:
  assumes wf: "wf_mpz a"
  shows "mpz_is_power_of_two a = Some k \<longleftrightarrow> mpz_val a = 2 ^ k"
proof (cases a)
  case (Small v)
  show ?thesis
  proof (cases "0 < sint v")
    case pos: True
    have u: "int (unat v) = sint v"
      using pos sint_i32_bounds [of v] by (simp add: uint_sint take_bit_int_eq_self_iff)
    show ?thesis
    proof (cases "is_power_of_two_u32 v")
      case True
      then obtain j where j: "j < 32" "v = 2 ^ j" by (auto simp: is_power_of_two_u32_correct)
      have "unat v = 2 ^ j" unfolding j(2) by (rule unat_pow2_u32 [OF j(1)])
      then have "sint v = 2 ^ j" using u by (metis of_nat_numeral of_nat_power)
      then show ?thesis using True pos Small log2_u32_pow2 [OF j(1)] j(2) by auto
    next
      case False
      have "sint v \<noteq> 2 ^ k"
      proof
        assume e: "sint v = 2 ^ k"
        then have n: "unat v = 2 ^ k" using u by (metis of_nat_eq_iff of_nat_numeral of_nat_power)
        have "k < 32"
        proof (rule ccontr)
          assume "\<not> k < 32"
          then have "(2 :: nat) ^ 32 \<le> 2 ^ k" by (intro power_increasing) auto
          then show False using n unat_u32_lt [of v] by simp
        qed
        moreover have "(of_nat (unat v) :: u32) = of_nat (2 ^ k)" using n by (rule arg_cong)
        then have "v = 2 ^ k" by simp
        ultimately show False using False by (auto simp: is_power_of_two_u32_correct)
      qed
      then show ?thesis using False pos Small by simp
    qed
  next
    case False
    then show ?thesis using Small by (auto simp: not_less dest: order_trans [of _ _ 0])
  qed
next
  case (Large s ds)
  show ?thesis
  proof (cases "0 < s")
    case False
    then have "mpz_val a < 0" using wf Large by (auto simp: mult_less_0_iff)
    then show ?thesis using False Large by (auto simp: not_less dest: order_less_trans [of _ 0])
  next
    case True
    then have s: "s = 1" and ne: "ds \<noteq> []" "last ds \<noteq> 0" using wf Large by auto
    have ds: "ds = butlast ds @ [last ds]" using ne by simp
    have v: "nval ds = nval (butlast ds) + 4294967296 ^ (length ds - 1) * unat (last ds)"
      by (subst ds) (simp add: nval_append)
    have lb: "nval (butlast ds) < 4294967296 ^ (length ds - 1)" using nval_less [of "butlast ds"] by simp
    let ?n = "length ds - 1"
    have big: "(4294967296 :: nat) ^ ?n = 2 ^ (32 * ?n)" by (simp only: power_mult) simp
    have log: "2 ^ mpz_log2 a \<le> nval ds" "nval ds < 2 ^ Suc (mpz_log2 a)"
      using nval_log2 [OF ne] Large s by simp_all
    have iff: "(nval (butlast ds) = 0 \<and> is_power_of_two_u32 (last ds)) \<longleftrightarrow> (\<exists>m. nval ds = 2 ^ m)"
    proof
      assume l: "nval (butlast ds) = 0 \<and> is_power_of_two_u32 (last ds)"
      then obtain j where "j < 32" "last ds = 2 ^ j" by (auto simp: is_power_of_two_u32_correct)
      then have "nval ds = 2 ^ (32 * ?n + j)" using l v by (simp only: unat_pow2_u32 big power_add add_0)
      then show "\<exists>m. nval ds = 2 ^ m" ..
    next
      assume "\<exists>m. nval ds = 2 ^ m"
      then obtain m where m: "nval ds = 2 ^ m" ..
      have "32 * ?n \<le> m"
      proof (rule ccontr)
        assume "\<not> 32 * ?n \<le> m"
        then have "(2 :: nat) ^ m < 2 ^ (32 * ?n)" by (intro power_strict_increasing) auto
        moreover have "4294967296 ^ ?n * 1 \<le> 4294967296 ^ ?n * unat (last ds)"
          using ne by (intro mult_le_mono2) (simp add: Suc_le_eq unat_gt_0)
        ultimately show False using v m unfolding big by linarith
      qed
      then obtain j where j: "m = 32 * ?n + j" using le_Suc_ex by blast
      have e: "nval (butlast ds) + 4294967296 ^ ?n * unat (last ds) = 4294967296 ^ ?n * 2 ^ j"
        using v m j by (simp only: big power_add)
      then have "(nval (butlast ds) + 4294967296 ^ ?n * unat (last ds)) mod 4294967296 ^ ?n = 0"
        by (simp only: mod_mult_self1_is_0)
      then have z: "nval (butlast ds) = 0" using lb by simp
      then have u: "unat (last ds) = 2 ^ j" using e by simp
      have "j < 32"
      proof (rule ccontr)
        assume "\<not> j < 32"
        then have "(2 :: nat) ^ 32 \<le> 2 ^ j" by (intro power_increasing) auto
        then show False using u unat_u32_lt [of "last ds"] by simp
      qed
      moreover have "(of_nat (unat (last ds)) :: u32) = of_nat (2 ^ j)" using u by (rule arg_cong)
      then have "last ds = 2 ^ j" by simp
      ultimately show "nval (butlast ds) = 0 \<and> is_power_of_two_u32 (last ds)"
        using z by (auto simp: is_power_of_two_u32_correct)
    qed
    have c: "mpz_is_power_of_two a = (if nval (butlast ds) = 0 \<and> is_power_of_two_u32 (last ds)
        then Some (mpz_log2 a) else None)"
      using Large s by (auto simp: nval_eq_0_iff is_power_of_two_u32_def simp del: mpz_log2.simps)
    have v': "mpz_val a = 2 ^ k \<longleftrightarrow> nval ds = 2 ^ k"
    proof -
      have "mpz_val a = int (nval ds)" using Large s by simp
      also have "\<dots> = 2 ^ k \<longleftrightarrow> nval ds = 2 ^ k" by (metis of_nat_eq_iff of_nat_numeral of_nat_power)
      finally show ?thesis .
    qed
    show ?thesis
    proof (cases "\<exists>m. nval ds = 2 ^ m")
      case True
      then obtain m where m: "nval ds = 2 ^ m" ..
      have "m = mpz_log2 a" by (rule pow2_unique [OF log m])
      then have e: "nval ds = 2 ^ mpz_log2 a" using m by simp
      show ?thesis
        unfolding c iff v' using True pow2_unique [OF log, of k] e by auto
    next
      case False
      then show ?thesis unfolding c iff v' by auto
    qed
  qed
qed

end
