(* ===== verification/MpzWords.thy ===== *)
theory MpzWords
  imports MpzShift
begin

text \<open>
  Correctness of the conversions of util/mpz.cpp to 64-bit integers, of parity and decomposition, and of
  the binary gcd \<open>u_gcd\<close> of two machine words, whose loop runs at most \<open>u + v\<close> times.
\<close>

section \<open>Conversions to machine integers\<close>

lemma length_nval_less: "ds \<noteq> [] \<Longrightarrow> last ds \<noteq> 0 \<Longrightarrow> length ds \<le> 2 \<longleftrightarrow> nval ds < 18446744073709551616"
proof
  assume "length ds \<le> 2"
  then have "(4294967296 :: nat) ^ length ds \<le> 4294967296 ^ 2" by (intro power_increasing) auto
  then show "nval ds < 18446744073709551616" using nval_less [of ds] by simp
next
  assume ne: "ds \<noteq> []" "last ds \<noteq> 0" and l: "nval ds < 18446744073709551616"
  show "length ds \<le> 2"
  proof (rule ccontr)
    assume "\<not> length ds \<le> 2"
    then have "2 \<le> length (butlast ds)" by simp
    then have "(4294967296 :: nat) ^ 2 * 1 \<le> 4294967296 ^ length (butlast ds) * unat (last ds)"
      using ne by (intro mult_le_mono power_increasing) (auto simp: Suc_le_eq unat_gt_0)
    also have "\<dots> \<le> nval (butlast ds @ [last ds])" by (simp add: nval_append)
    finally show False using l ne by simp
  qed
qed

lemma big_abs_to_uint64_correct:
  assumes "ds \<noteq> []" "length ds \<le> 2"
  shows "unat (big_abs_to_uint64 ds) = nval ds"
proof -
  consider d where "ds = [d]" | lo hi where "ds = [lo, hi]"
    using assms by (cases ds rule: big_abs_to_uint64.cases) auto
  then show ?thesis
  proof cases
    case (2 lo hi)
    have "push_bit 32 (ucast hi :: u64) AND ucast lo = 0"
      by (rule bit_word_eqI) (auto simp: bit_simps dest: bit_imp_le_length)
    then have "push_bit 32 (ucast hi :: u64) OR ucast lo = push_bit 32 (ucast hi) + ucast lo"
      by (simp add: disjunctive_add_eq_or)
    moreover have "unat (push_bit 32 (ucast hi :: u64)) = unat hi * 4294967296"
      using unat_u32_lt [of hi] unat_push_bit_32_u64 [of "ucast hi"] by simp
    ultimately show ?thesis
      using 2 unat_u32_lt [of hi] unat_u32_lt [of lo] by (simp add: unat_word_ariths)
  qed simp
qed

lemma is_uint64_correct:
  assumes "wf_mpz a"
  shows "is_uint64 a \<longleftrightarrow> 0 \<le> mpz_val a \<and> mpz_val a < 18446744073709551616"
    and "is_uint64 a \<Longrightarrow> uint (get_uint64 a) = mpz_val a"
proof -
  have "(is_uint64 a \<longleftrightarrow> 0 \<le> mpz_val a \<and> mpz_val a < 18446744073709551616) \<and>
      (is_uint64 a \<longrightarrow> uint (get_uint64 a) = mpz_val a)"
  proof (cases a)
    case (Small v)
    have "uint (scast v :: u64) = sint v" if "0 \<le> sint v"
    proof -
      have "uint (scast v :: u64) = take_bit 64 (sint (scast v :: i64))" by (simp only: uint_sint) simp
      also have "\<dots> = sint v"
        using that sint_i32_bounds [of v] by (simp add: take_bit_int_eq_self_iff)
      finally show ?thesis .
    qed
    then show ?thesis using Small sint_i32_bounds [of v] by auto
  next
    case (Large s ds)
    then have s: "s = 1 \<or> s = - 1" and ne: "ds \<noteq> []" "last ds \<noteq> 0" "2147483647 \<le> nval ds" using assms by auto
    have "uint (big_abs_to_uint64 ds) = int (nval ds)" if "length ds \<le> 2"
      using big_abs_to_uint64_correct [OF ne(1) that] by (metis uint_nat)
    then show ?thesis using Large s ne length_nval_less [OF ne(1,2)] by auto
  qed
  then show "is_uint64 a \<longleftrightarrow> 0 \<le> mpz_val a \<and> mpz_val a < 18446744073709551616"
    "is_uint64 a \<Longrightarrow> uint (get_uint64 a) = mpz_val a" by blast+
qed

lemma msb_u64: "9223372036854775808 AND (num :: u64) = 0 \<longleftrightarrow> \<not> bit num 63"
proof -
  have m: "(9223372036854775808 :: u64) = push_bit 63 1" by (simp add: push_bit_eq_mult)
  have "push_bit 63 1 AND num = 0 \<longleftrightarrow> \<not> bit num 63"
  proof
    assume "push_bit 63 1 AND num = 0"
    then have "\<not> bit (push_bit 63 1 AND num) 63" by simp
    then show "\<not> bit num 63" by (simp only: bit_and_iff bit_push_bit_iff) simp
  next
    assume "\<not> bit num 63"
    then have n: "bit num n \<Longrightarrow> n \<noteq> 63" for n by blast
    show "push_bit 63 1 AND num = 0"
    proof (rule bit_word_eqI)
      fix n show "bit (push_bit 63 1 AND num) n = bit 0 n"
        using n [of n] by (simp only: bit_and_iff bit_push_bit_iff bit_0_eq bot_apply) (auto simp: bit_1_iff)
    qed
  qed
  then show ?thesis by (simp only: m)
qed

lemma bit_msb_u64: "bit (push_bit 63 1 :: u64) n \<longleftrightarrow> n = 63"
  by (simp only: bit_push_bit_iff) (auto simp: bit_1_iff)

lemma msb_u64_eq: "9223372036854775808 AND (num :: u64) = num \<longleftrightarrow> num = 0 \<or> num = 9223372036854775808"
proof -
  have m: "(9223372036854775808 :: u64) = push_bit 63 1" by (simp add: push_bit_eq_mult)
  have "num = push_bit 63 1" if e: "push_bit 63 1 AND num = num" and nz: "num \<noteq> 0"
  proof (rule bit_word_eqI)
    fix n
    have low: "bit num n \<Longrightarrow> n = 63" for n using e by (metis bit_and_iff bit_msb_u64)
    have "\<exists>n. bit num n"
    proof (rule ccontr)
      assume "\<nexists>n. bit num n"
      then have "num = 0" by (intro bit_word_eqI) simp
      then show False using nz by simp
    qed
    then obtain k where k: "bit num k" by blast
    have "bit num 63" using k unfolding low [OF k] .
    then show "bit num n = bit (push_bit 63 1 :: u64) n" unfolding bit_msb_u64 using low [of n] by (cases "n = 63") auto
  qed
  then show ?thesis unfolding m by (metis and.idem and_zero_eq)
qed

lemma push_bit_1_u64: "num \<noteq> 0 \<and> push_bit 1 (num :: u64) = 0 \<longleftrightarrow> num = 9223372036854775808"
proof
  assume a: "num \<noteq> 0 \<and> push_bit 1 num = 0"
  then have "num * 2 = 0" by (simp only: push_bit_eq_mult power_one_right)
  then have "unat (num * 2) = 0" by (simp only: unat_0)
  then have "unat num * 2 mod 18446744073709551616 = 0" by (simp add: unat_word_ariths)
  moreover have "0 < unat num" using a by (simp add: unat_gt_0)
  ultimately have "unat num = 9223372036854775808"
  proof -
    obtain k where k: "unat num * 2 = 18446744073709551616 * k"
      using \<open>unat num * 2 mod 18446744073709551616 = 0\<close> by (auto simp: mod_eq_0_iff_dvd)
    then have "0 < k" "k < 2" using \<open>0 < unat num\<close> unat_u64_lt [of num] by auto
    then show ?thesis using k by simp
  qed
  then show "num = 9223372036854775808" by (simp add: word_unat_eq_iff)
qed (simp add: push_bit_eq_mult)

lemma bit_63_u64: "bit (num :: u64) 63 \<longleftrightarrow> 9223372036854775808 \<le> unat num"
proof -
  have "bit num 63 \<longleftrightarrow> bit (unat num) 63" by (simp add: bit_unsigned_iff)
  also have "\<dots> \<longleftrightarrow> odd (unat num div 9223372036854775808)" by (simp add: bit_iff_odd)
  also have "\<dots> \<longleftrightarrow> 9223372036854775808 \<le> unat num"
  proof -
    have "unat num div 9223372036854775808 < 2" using unat_u64_lt [of num] by simp
    then have "unat num div 9223372036854775808 = 0 \<or> unat num div 9223372036854775808 = 1" by linarith
    then show ?thesis using div_eq_0_iff [of "unat num" 9223372036854775808] by auto
  qed
  finally show ?thesis .
qed

lemma is_int64_correct:
  assumes "wf_mpz a"
  shows "is_int64 a \<longleftrightarrow> - 9223372036854775808 \<le> mpz_val a \<and> mpz_val a \<le> 9223372036854775807"
    and "is_int64 a \<Longrightarrow> sint (get_int64 a) = mpz_val a"
proof -
  have "(is_int64 a \<longleftrightarrow> - 9223372036854775808 \<le> mpz_val a \<and> mpz_val a \<le> 9223372036854775807) \<and>
      (is_int64 a \<longrightarrow> sint (get_int64 a) = mpz_val a)"
  proof (cases a)
    case (Small v)
    then show ?thesis using sint_i32_bounds [of v] by auto
  next
    case (Large s ds)
    then have s: "s = 1 \<or> s = - 1" and ne: "ds \<noteq> []" "last ds \<noteq> 0" "2147483647 \<le> nval ds" using assms by auto
    show ?thesis
    proof (cases "length ds \<le> 2")
      case False
      then have "18446744073709551616 \<le> nval ds" using length_nval_less [OF ne(1,2)] by simp
      then show ?thesis using Large s False by auto
    next
      case True
      define num where "num = big_abs_to_uint64 ds"
      have n: "unat num = nval ds" using big_abs_to_uint64_correct [OF ne(1) True] by (simp add: num_def)
      have b: "bit num 63 \<longleftrightarrow> 9223372036854775808 \<le> nval ds" using bit_63_u64 [of num] n by simp
      have m: "num = 9223372036854775808 \<longleftrightarrow> nval ds = 9223372036854775808"
        using n by (simp add: word_unat_eq_iff)
      have m0: "num \<noteq> 0" using n ne(3) by auto
      have i: "is_int64 a \<longleftrightarrow> (if 0 \<le> s then nval ds < 9223372036854775808 else nval ds \<le> 9223372036854775808)"
        using Large True b m m0 by (auto simp: Let_def msb_u64 msb_u64_eq num_def [symmetric])
      have pos: "sint num = int (nval ds)" if "nval ds < 9223372036854775808"
      proof -
        have u: "uint num = int (nval ds)" using n by (metis uint_nat)
        have "sint num = signed_take_bit 63 (int (nval ds))" by (simp add: sint_uint u)
        then show ?thesis using that by (subst (asm) signed_take_bit_63_id) auto
      qed
      have neg: "sint (- num) = - int (nval ds)" if "nval ds < 9223372036854775808"
        using pos [OF that] that by (simp add: sint_word_minus signed_take_bit_63_id)
      have g: "get_int64 a = (if s < 0 then if num = 9223372036854775808 then 9223372036854775808 else - num else num)"
        using Large push_bit_1_u64 [of num] m0 by (auto simp: Let_def num_def [symmetric] push_bit_eq_mult)
      from s show ?thesis
      proof
        assume "s = 1"
        then show ?thesis using Large i g pos by auto
      next
        assume s: "s = - 1"
        show ?thesis
        proof (cases "nval ds < 9223372036854775808")
          case True
          then have "num \<noteq> 9223372036854775808" using m by simp
          then show ?thesis using Large s i g neg True by auto
        next
          case False
          have "sint (9223372036854775808 :: i64) = - 9223372036854775808" by simp
          then show ?thesis using Large s i g m False by auto
        qed
      qed
    qed
  qed
  then show "is_int64 a \<longleftrightarrow> - 9223372036854775808 \<le> mpz_val a \<and> mpz_val a \<le> 9223372036854775807"
    "is_int64 a \<Longrightarrow> sint (get_int64 a) = mpz_val a" by blast+
qed

section \<open>Parity, decomposition and the word gcd\<close>

lemma even_unat_iff_word: "even (x :: u32) \<longleftrightarrow> even (unat x)"
  by transfer (simp add: even_nat_iff)

lemma even_word: "x AND 1 = 0 \<longleftrightarrow> even (unat (x :: u32))"
  by (metis and_one_eq even_iff_mod_2_eq_zero even_unat_iff_word)

lemma nval_even: "ds \<noteq> [] \<Longrightarrow> even (nval ds) \<longleftrightarrow> even (unat (ds ! 0))"
  by (cases ds) auto

lemma mpz_is_even_correct: "wf_mpz a \<Longrightarrow> mpz_is_even a \<longleftrightarrow> even (mpz_val a)"
proof (cases a)
  case (Small v)
  have "even (sint v) \<longleftrightarrow> even v" 
    using bit_sint_iff [of v 0] by (simp add: bit_0)
  then show ?thesis using Small by (simp add: and_one_eq even_iff_mod_2_eq_zero)
next
  case (Large s ds)
  assume "wf_mpz a"
  then have "s = 1 \<or> s = - 1" "ds \<noteq> []" using Large by auto
  then show ?thesis using Large nval_even [of ds] even_word [of "ds ! 0"] by (auto simp: and.commute)
qed

lemma decompose_correct:
  assumes "wf_mpz a" "a \<noteq> Small int_min"
  shows "(if snd (decompose a) then - 1 else 1) * int (nval (fst (decompose a))) = mpz_val a"
proof (cases a)
  case (Small v)
  have "int (unat v) = sint v" if "\<not> v <s 0"
  proof -
    have "uint v = take_bit 32 (sint v)" using uint_lt2p [of v] uint_ge_0 [of v]
      by (simp add: sint_uint take_bit_signed_take_bit take_bit_int_eq_self)
    moreover have "0 \<le> sint v" using that by (simp add: word_sless_alt)
    ultimately have "uint v = sint v" using sint_i32_bounds [of v] by (simp add: take_bit_int_eq_self_iff)
    then show ?thesis by (simp only: uint_nat)
  qed
  then show ?thesis using Small unat_uminus_i32 [of v] by (auto simp: word_sless_alt)
next
  case (Large s ds)
  then show ?thesis using assms by auto
qed

lemma trailing_zeros_correct:
  assumes "v \<noteq> 0"
  shows "odd (unat v div 2 ^ trailing_zeros v)" "unat v = unat v div 2 ^ trailing_zeros v * 2 ^ trailing_zeros v"
proof -
  obtain w where w: "odd w" "uint v = w * 2 ^ trailing_zeros v"
  proof -
    have "\<bar>uint v\<bar> < 4294967296" "uint v \<noteq> 0" using uint_lt2p [of v] assms by (simp, metis uint_0_eq word_uint_eqI)
    from count_digit_right_zeros_correct [OF this(2,1), of 0] show ?thesis
      using that unfolding trailing_zeros_def by auto
  qed
  have "0 \<le> w * 2 ^ trailing_zeros v" using uint_ge_0 [of v] w(2) by (simp only:)
  then have p: "0 \<le> w" by (simp add: zero_le_mult_iff)
  have "unat v = nat w * 2 ^ trailing_zeros v"
    by (metis (no_types) p nat_mult_distrib nat_numeral nat_power_eq unat_eq_nat_uint w(2) zero_le_numeral)
  moreover have "odd (nat w)" using w(1) p by (simp add: even_nat_iff)
  ultimately show "odd (unat v div 2 ^ trailing_zeros v)" "unat v = unat v div 2 ^ trailing_zeros v * 2 ^ trailing_zeros v"
    by simp_all
qed

lemma gcd_odd_part: "odd (u :: nat) \<Longrightarrow> gcd u (w * 2 ^ k) = gcd u w"
  by (simp add: gcd_mult_right_right_cancel)

lemma signed_drop_31: "signed_drop_bit 31 (x :: u32) = (if bit x 31 then - 1 else 0)"
proof (rule bit_word_eqI)
  fix n assume "n < LENGTH(32)"
  then have "n = 0 \<or> 1 \<le> n" "n < 32" by auto
  then show "bit (signed_drop_bit 31 x) n = bit (if bit x 31 then - 1 else 0 :: u32) n"
    by (auto simp: bit_signed_drop_bit_iff)
qed

lemma bit_31_u32: "bit (x :: u32) 31 \<longleftrightarrow> 2147483648 \<le> unat x"
proof -
  have "bit x 31 \<longleftrightarrow> odd (unat x div 2147483648)" 

    using bit_unsigned_iff [of x 31, where ?'a = nat] by (simp add: bit_iff_odd)
  moreover have "unat x div 2147483648 < 2" using unat_u32_lt [of x] by simp
  ultimately show ?thesis by (cases "unat x div 2147483648") (auto simp: div_eq_0_iff)
qed


lemma u_gcd_loop_correct:
  assumes "odd (unat u)" "v \<noteq> 0" "unat u < 2147483648" "unat v < 2147483648" "unat u + unat v \<le> fuel"
  shows "unat (u_gcd_loop fuel u v) = gcd (unat u) (unat v)"
  using assms
proof (induction fuel arbitrary: u v)
  case 0
  then show ?case by simp
next
  case (Suc fuel)
  define w where "w = drop_bit (trailing_zeros v) v"
  have w: "unat w = unat v div 2 ^ trailing_zeros v" by (simp add: w_def unat_drop_bit_word)
  have ow: "odd (unat w)" and vw: "unat v = unat w * 2 ^ trailing_zeros v"
    using trailing_zeros_correct [OF Suc.prems(2)] by (simp_all add: w)
  have wle: "unat w \<le> unat v" by (simp add: w)
  have w0: "0 < unat w" using ow by (auto intro: odd_pos)
  have u0: "0 < unat u" using Suc.prems(1) by (auto intro: odd_pos)
  have g: "gcd (unat u) (unat v) = gcd (unat u) (unat w)"
    using gcd_odd_part [OF Suc.prems(1)] vw by metis
  show ?case
  proof (cases "unat w \<le> unat u")
    case True
    then have d: "unat (u - w) = unat u - unat w" by (simp add: unat_sub_if')
    then have m: "(u - w) AND signed_drop_bit 31 (u - w) = 0"
      using Suc.prems(3) by (auto simp: signed_drop_31 bit_31_u32)
    have e: "u_gcd_loop (Suc fuel) u v = (if u - w \<noteq> 0 then u_gcd_loop fuel w (u - w) else w)"
      by (simp add: w_def [symmetric] m Let_def)
    show ?thesis
    proof (cases "u - w = 0")
      case True
      then show ?thesis using e g by simp
    next
      case False
      have "unat (u_gcd_loop fuel w (u - w)) = gcd (unat w) (unat (u - w))"
        using ow False wle Suc.prems w0 d True by (intro Suc.IH) simp_all
      also have "\<dots> = gcd (unat u) (unat w)"
        using d gcd_diff1_nat [OF True] by (metis gcd.commute)
      finally show ?thesis using e False g by simp
    qed
  next
    case False
    then have d: "unat (w - u) = unat w - unat u" by (simp add: unat_sub_if')
    have wu: "w - u \<noteq> 0" using False by auto
    have "unat (u - w) = 4294967296 - unat (w - u)"
      using False unat_u32_lt [of w] by (simp add: unat_sub_if')
    then have "bit (u - w) 31" using d wle Suc.prems(4) by (simp add: bit_31_u32)
    then have m: "(u - w) AND signed_drop_bit 31 (u - w) = u - w" by (simp add: signed_drop_31)
    have e: "u_gcd_loop (Suc fuel) u v = u_gcd_loop fuel u (w - u)"
      using wu by (simp add: w_def [symmetric] m Let_def)
    have "unat (u_gcd_loop fuel u (w - u)) = gcd (unat u) (unat (w - u))"
      using wu wle Suc.prems u0 d False by (intro Suc.IH) simp_all
    also have "\<dots> = gcd (unat u) (unat w)"
      using d False gcd_diff1_nat [of "unat u" "unat w"] by (simp add: gcd.commute)
    finally show ?thesis using e g by simp
  qed
qed

lemma trailing_zeros_bits:
  assumes "v \<noteq> 0"
  shows "bit v (trailing_zeros v)" "i < trailing_zeros v \<Longrightarrow> \<not> bit v i"
proof -
  have b: "bit v i \<longleftrightarrow> odd (unat v div 2 ^ i)" for i
    using bit_unsigned_iff [of v i, where ?'a = nat]
    by (cases "i < 32") (auto simp: bit_iff_odd dest: bit_imp_le_length)
  show "bit v (trailing_zeros v)" using trailing_zeros_correct(1) [OF assms] b by simp
  show "\<not> bit v i" if "i < trailing_zeros v"
  proof -
    have "2 ^ Suc i dvd (2 :: nat) ^ trailing_zeros v" using that by (intro le_imp_power_dvd) simp
    then have "2 * 2 ^ i dvd unat v" using trailing_zeros_correct(2) [OF assms] by (metis dvd_mult power_Suc)
    then have "even (unat v div 2 ^ i)" by (auto elim!: dvdE)
    then show ?thesis using b by simp
  qed
qed

lemma trailing_zeros_or:
  assumes "u \<noteq> 0" "v \<noteq> 0"
  shows "trailing_zeros (u OR v) = min (trailing_zeros u) (trailing_zeros v)"
proof -
  have nz: "u OR v \<noteq> 0" using assms by (simp add: or_eq_0_iff)
  let ?k = "min (trailing_zeros u) (trailing_zeros v)"
  have "bit (u OR v) ?k" using trailing_zeros_bits(1) assms by (auto simp: bit_or_iff min_def)
  moreover have "\<not> bit (u OR v) i" if "i < ?k" for i
    using trailing_zeros_bits(2) assms that by (auto simp: bit_or_iff)
  ultimately show ?thesis using trailing_zeros_bits [OF nz] by (metis linorder_neqE_nat)
qed

lemma gcd_odd_parts:
  assumes "odd (a :: nat)" "odd b"
  shows "gcd (a * 2 ^ i) (b * 2 ^ j) = gcd a b * 2 ^ min i j"
proof -
  have le: "gcd (a * 2 ^ i) (b * 2 ^ j) = gcd a b * 2 ^ i" if "odd a" "i \<le> j" for a b i j :: nat
  proof -
    have "b * 2 ^ j = b * 2 ^ (j - i) * 2 ^ i" using that(2) by (simp add: power_add [symmetric])
    then have "gcd (a * 2 ^ i) (b * 2 ^ j) = gcd a (b * 2 ^ (j - i)) * 2 ^ i"
      by (metis gcd_mult_distrib_nat mult.commute)
    then show ?thesis using gcd_odd_part [OF that(1)] by simp
  qed
  show ?thesis
  proof (cases "i \<le> j")
    case True then show ?thesis using le [OF assms(1)] by (simp add: min_def)
  next
    case False then show ?thesis using le [OF assms(2), of j i a] by (simp add: min_def gcd.commute)
  qed
qed

lemma u_gcd_correct:
  assumes "unat u < 2147483648" "unat v < 2147483648"
  shows "unat (u_gcd u v) = gcd (unat u) (unat v)"
proof (cases "u = 0 \<or> v = 0")
  case True
  then show ?thesis by (auto simp: u_gcd_def)
next
  case False
  then have nz: "u \<noteq> 0" "v \<noteq> 0" by simp_all
  define s where "s = trailing_zeros (u OR v)"
  define u' where "u' = drop_bit (trailing_zeros u) u"
  define w where "w = unat v div 2 ^ trailing_zeros v"
  have u': "unat u' = unat u div 2 ^ trailing_zeros u" by (simp add: u'_def unat_drop_bit_word)
  have ou: "odd (unat u')" and uu: "unat u = unat u' * 2 ^ trailing_zeros u"
    using trailing_zeros_correct [OF nz(1)] by (simp_all add: u')
  have ow: "odd w" and vw: "unat v = w * 2 ^ trailing_zeros v"
    using trailing_zeros_correct [OF nz(2)] by (simp_all add: w_def)
  have g: "gcd (unat u) (unat v) = gcd (unat u') w * 2 ^ s"
    using gcd_odd_parts [OF ou ow] uu vw trailing_zeros_or [OF nz] by (metis s_def)
  have gv: "gcd (unat u') (unat v) = gcd (unat u') w" using gcd_odd_part [OF ou] vw by metis
  have sh: "unat (push_bit s x) = unat x * 2 ^ s" if "unat x = gcd (unat u') w" for x :: u32
  proof -
    have "unat x * 2 ^ s \<le> unat u"
      unfolding that g [symmetric] using nz by (intro gcd_le1_nat) (simp add: unat_eq_0)
    then have "unat x * 2 ^ s < 4294967296" using unat_u32_lt [of u] by linarith
    then show ?thesis unfolding unat_push_bit_u32 by (rule mod_less)
  qed
  show ?thesis
  proof (cases "u' = 1 \<or> v = 1")
    case True
    then have "unat (1 :: u32) = gcd (unat u') w" using gv by auto
    then have "unat (push_bit s 1 :: u32) = gcd (unat u) (unat v)" unfolding g by (metis sh)
    moreover have "u_gcd u v = push_bit s 1"
      unfolding u_gcd_def Let_def s_def using True nz by (simp only: u'_def [symmetric] if_False if_True)
    ultimately show ?thesis by (simp only:)
  next
    case F: False
    show ?thesis
    proof (cases "u' = v")
      case True
      then have "unat u' = gcd (unat u') w" using gv by simp
      then have "unat (push_bit s u') = gcd (unat u) (unat v)" unfolding g by (metis sh)
      moreover have "u_gcd u v = push_bit s u'"
        unfolding u_gcd_def Let_def s_def using True F nz by (simp only: u'_def [symmetric] if_False if_True simp_thms)
      ultimately show ?thesis by (simp only:)
    next
      case False
      let ?x = "u_gcd_loop (unat u' + unat v) u' v"
      have le: "unat u' \<le> unat u" by (simp add: u')
      have "unat ?x = gcd (unat u') w"
        using u_gcd_loop_correct [OF ou nz(2)] le assms gv by simp
      then have "unat (push_bit s ?x) = gcd (unat u) (unat v)" unfolding g by (metis sh)
      moreover have "u_gcd u v = push_bit s ?x"
        unfolding u_gcd_def Let_def s_def using False F nz by (simp only: u'_def [symmetric] if_False if_True)
      ultimately show ?thesis by (simp only:)
    qed
  qed
qed

end
