(* ===== verification/MpzGcd.thy ===== *)
theory MpzGcd
  imports MpzWords "HOL-Library.Monad_Syntax"
begin

text \<open>
  The greatest common divisor of util/mpz.cpp in its internal configuration: the binary gcd for two
  small numbers, Euclid's algorithm once the smaller number is small, and Lehmer's algorithm for two
  large ones, which runs Euclid's steps on the leading digits as long as they determine the quotient
  and then applies the accumulated matrix to the numbers. The result is the gcd, every quotient of the
  inner loop is the one of the exact numbers, and no 64-bit variable of the loop overflows.
\<close>

section \<open>The algorithm\<close>

text \<open>The inner loop on \<open>a_hat\<close>, \<open>b_hat\<close> and the cofactors \<open>A\<close>, \<open>B\<close>, \<open>C\<close>, \<open>D\<close>.\<close>

function lehmer_loop :: "int \<Rightarrow> int \<Rightarrow> int \<Rightarrow> int \<Rightarrow> int \<Rightarrow> int \<Rightarrow> int \<times> int \<times> int \<times> int" where
  "lehmer_loop a_hat b_hat A B C D =
     (if b_hat + C = 0 \<or> b_hat + D = 0 then (A, B, C, D)
      else
        let q = (a_hat + A) sdiv (b_hat + C)
        in if q \<noteq> (a_hat + B) sdiv (b_hat + D) then (A, B, C, D)
           else lehmer_loop b_hat (a_hat - q * b_hat) C D (A - q * C) (B - q * D))"
  by pat_completeness auto
termination
proof (relation "measure (\<lambda>(a_hat, b_hat, A, B, C, D). nat \<bar>b_hat + C\<bar>)")
  fix a_hat b_hat A B C D q :: int
  assume nz: "\<not> (b_hat + C = 0 \<or> b_hat + D = 0)" and q: "q = (a_hat + A) sdiv (b_hat + C)"
  have "(a_hat - q * b_hat) + (A - q * C) = (a_hat + A) - (a_hat + A) sdiv (b_hat + C) * (b_hat + C)"
    by (simp add: q algebra_simps)
  also have "\<dots> = (a_hat + A) smod (b_hat + C)" by (simp add: minus_sdiv_mult_eq_smod)
  finally have "\<bar>(a_hat - q * b_hat) + (A - q * C)\<bar> < \<bar>b_hat + C\<bar>"
    using smod_int_range [of "b_hat + C" "a_hat + A"] nz by auto
  then show "((b_hat, a_hat - q * b_hat, C, D, A - q * C, B - q * D), (a_hat, b_hat, A, B, C, D))
      \<in> measure (\<lambda>(a_hat, b_hat, A, B, C, D). nat \<bar>b_hat + C\<bar>)" by simp
qed simp

declare lehmer_loop.simps [simp del]

partial_function (option) rem_loop :: "mpn_manager \<Rightarrow> mpz \<Rightarrow> mpz \<Rightarrow> mpz option" where
  "rem_loop m a1 b1 =
     (if mpz_is_zero b1 then Some a1
      else do { tmp \<leftarrow> mpz_rem m a1 b1; rem_loop m b1 tmp })"

text \<open>
  The leading digit of the larger number, and the digit of the same weight of the smaller one. A small
  number has no digits: reading them dereferences a null pointer, which is \<open>None\<close> below.
\<close>

definition leading_digits :: "mpz \<Rightarrow> mpz \<Rightarrow> int \<times> int" where
  "leading_digits a1 b1 =
     (uint (last (mpz_digits a1)),
      if length (mpz_digits b1) = length (mpz_digits a1) then uint (last (mpz_digits b1)) else 0)"

text \<open>A row of the matrix, applied to the two numbers.\<close>

definition apply_row :: "int \<Rightarrow> int \<Rightarrow> mpz \<Rightarrow> mpz \<Rightarrow> mpz" where
  "apply_row A B a1 b1 = mpz_addmul (mpz_mul a1 (set_i64 (word_of_int A))) (set_i64 (word_of_int B)) b1"

partial_function (option) lehmer_gcd :: "mpn_manager \<Rightarrow> mpz \<Rightarrow> mpz \<Rightarrow> mpz option" where
  "lehmer_gcd m a1 b1 =
     (if is_small b1 then
        (if is_small a1 then Some (set_unsigned (u_gcd (word_of_int (mpz_sign a1)) (word_of_int (mpz_sign b1))))
         else rem_loop m a1 b1)
      else if is_small a1 then None
      else
        (case leading_digits a1 b1 of (a_hat, b_hat) \<Rightarrow>
          (case lehmer_loop a_hat b_hat 1 0 0 1 of (A, B, C, D) \<Rightarrow>
             if B = 0 then do { t \<leftarrow> mpz_rem m a1 b1; lehmer_gcd m b1 t }
             else lehmer_gcd m (apply_row A B a1 b1) (apply_row C D a1 b1))))"

definition abs_i32 :: "i32 \<Rightarrow> i32" where
  "abs_i32 v = (if v <s 0 then - v else v)"

definition mpz_gcd :: "mpn_manager \<Rightarrow> mpz \<Rightarrow> mpz \<Rightarrow> mpz option" where
  "mpz_gcd m a b =
     (if is_small a \<and> is_small b \<and> mpz_sign a \<noteq> sint int_min \<and> mpz_sign b \<noteq> sint int_min then
        Some (set_unsigned (u_gcd (abs_i32 (word_of_int (mpz_sign a))) (abs_i32 (word_of_int (mpz_sign b)))))
      else if mpz_is_zero a then Some (mpz_abs b)
      else if mpz_is_zero b then Some (mpz_abs a)
      else
        let a1 = mpz_abs a; b1 = mpz_abs b
        in if mpz_lt a1 b1 then lehmer_gcd m b1 a1 else lehmer_gcd m a1 b1)"

section \<open>The inner loop follows Euclid\<close>

text \<open>
  The exact numbers behind the leading digits: \<open>x\<close> and \<open>y\<close> are the rows of the matrix applied to the
  two numbers \<open>a\<close> and \<open>b\<close>, and lie between the bounds that the cofactors give.
\<close>

definition lehmer_signs :: "int \<Rightarrow> int \<Rightarrow> int \<Rightarrow> int \<Rightarrow> bool" where
  "lehmer_signs A B C D = (0 \<le> A \<and> B \<le> 0 \<and> C \<le> 0 \<and> 0 \<le> D \<or> A \<le> 0 \<and> 0 \<le> B \<and> 0 \<le> C \<and> D \<le> 0)"

definition lehmer_bound :: "int \<Rightarrow> int \<Rightarrow> int \<Rightarrow> int \<Rightarrow> int \<Rightarrow> int \<Rightarrow> bool" where
  "lehmer_bound a_hat b_hat A B C D =
     (0 \<le> a_hat + A \<and> 0 \<le> a_hat + B \<and> 0 \<le> b_hat + C \<and> 0 \<le> b_hat + D \<and>
      a_hat + A \<le> 4294967296 \<and> a_hat + B \<le> 4294967296 \<and> b_hat + C \<le> 4294967296 \<and> b_hat + D \<le> 4294967296 \<and>
      lehmer_signs A B C D)"

text \<open>Every variable stays far from the ends of the 64-bit range.\<close>

lemma lehmer_bound_range:
  assumes "lehmer_bound a_hat b_hat A B C D"
  shows "\<bar>A\<bar> \<le> 4294967296 \<and> \<bar>B\<bar> \<le> 4294967296 \<and> \<bar>C\<bar> \<le> 4294967296 \<and> \<bar>D\<bar> \<le> 4294967296 \<and>
    0 \<le> a_hat \<and> a_hat \<le> 4294967296 \<and> 0 \<le> b_hat \<and> b_hat \<le> 4294967296"
  using assms unfolding lehmer_bound_def lehmer_signs_def by auto

lemma sdiv_nonneg: "0 \<le> x \<Longrightarrow> 0 < y \<Longrightarrow> (x :: int) sdiv y = x div y"
  by (simp add: signed_divide_int_def sgn_if)

definition lehmer_step :: "int \<Rightarrow> int \<Rightarrow> int \<Rightarrow> int \<Rightarrow> int \<Rightarrow> int \<Rightarrow> int \<Rightarrow> bool" where
  "lehmer_step a_hat b_hat A B C D q =
     (b_hat + C \<noteq> 0 \<and> b_hat + D \<noteq> 0 \<and>
      q = (a_hat + A) sdiv (b_hat + C) \<and> q = (a_hat + B) sdiv (b_hat + D))"

lemma lehmer_step_bound:
  assumes "lehmer_bound a_hat b_hat A B C D" "lehmer_step a_hat b_hat A B C D q"
  shows "0 \<le> q" "lehmer_bound b_hat (a_hat - q * b_hat) C D (A - q * C) (B - q * D)"
proof -
  have p: "0 \<le> a_hat + A" "0 \<le> a_hat + B" "0 < b_hat + C" "0 < b_hat + D"
    and s: "lehmer_signs A B C D"
    and u: "b_hat + C \<le> 4294967296" "b_hat + D \<le> 4294967296"
    using assms unfolding lehmer_bound_def lehmer_step_def by linarith+
  have q: "q = (a_hat + A) div (b_hat + C)" "q = (a_hat + B) div (b_hat + D)"
    using assms(2) p unfolding lehmer_step_def by (simp_all add: sdiv_nonneg)
  show q0: "0 \<le> q" unfolding q(1) using p(1,3) by (simp add: pos_imp_zdiv_nonneg_iff)
  have e1: "(a_hat - q * b_hat) + (A - q * C) = (a_hat + A) mod (b_hat + C)"
    unfolding q(1) minus_div_mult_eq_mod [symmetric] by (simp add: algebra_simps)
  have e2: "(a_hat - q * b_hat) + (B - q * D) = (a_hat + B) mod (b_hat + D)"
    unfolding q(2) minus_div_mult_eq_mod [symmetric] by (simp add: algebra_simps)
  have m: "0 \<le> (a_hat + A) mod (b_hat + C)" "(a_hat + A) mod (b_hat + C) < b_hat + C"
    "0 \<le> (a_hat + B) mod (b_hat + D)" "(a_hat + B) mod (b_hat + D) < b_hat + D"
    using p by simp_all
  have "lehmer_signs C D (A - q * C) (B - q * D)"
    using s q0 unfolding lehmer_signs_def
    by (auto simp: mult_nonneg_nonpos mult_nonneg_nonneg intro: order_trans [of _ 0])
  then show "lehmer_bound b_hat (a_hat - q * b_hat) C D (A - q * C) (B - q * D)"
    unfolding lehmer_bound_def e1 e2 using m p u by linarith
qed

lemma lehmer_quotient:
  fixes a0 b0 W x y :: int
  assumes b: "lehmer_bound a_hat b_hat A B C D" "lehmer_step a_hat b_hat A B C D q"
    and W: "0 \<le> a0" "a0 < W" "0 \<le> b0" "b0 < W"
    and x: "x = a_hat * W + A * a0 + B * b0" and y: "y = b_hat * W + C * a0 + D * b0"
  shows "q * y \<le> x \<and> x < (q + 1) * y"
proof -
  have p: "0 \<le> a_hat + A" "0 \<le> a_hat + B" "0 < b_hat + C" "0 < b_hat + D"
    and s: "lehmer_signs A B C D"
    using b unfolding lehmer_bound_def lehmer_step_def by linarith+
  have q0: "0 \<le> q" by (rule lehmer_step_bound(1) [OF b])
  have q: "q = (a_hat + A) div (b_hat + C)" "q = (a_hat + B) div (b_hat + D)"
    using b(2) p unfolding lehmer_step_def by (simp_all add: sdiv_nonneg)
  have lo: "q * (b_hat + C) \<le> a_hat + A" "q * (b_hat + D) \<le> a_hat + B"
  proof -
    have m: "n div d * d \<le> n" if "0 < d" for n d :: int
      using that div_mult_mod_eq [of n d] pos_mod_sign [of d n] by linarith
    show "q * (b_hat + C) \<le> a_hat + A" using m [OF p(3)] unfolding q(1) .
    show "q * (b_hat + D) \<le> a_hat + B" using m [OF p(4)] unfolding q(2) .
  qed
  have hi: "a_hat + A < (q + 1) * (b_hat + C)" "a_hat + B < (q + 1) * (b_hat + D)"
  proof -
    have m: "n < (n div d + 1) * d" if "0 < d" for n d :: int
      using that by (simp add: distrib_right) (metis add_strict_left_mono div_mult_mod_eq pos_mod_bound)
    show "a_hat + A < (q + 1) * (b_hat + C)" using m [OF p(3)] unfolding q(1) .
    show "a_hat + B < (q + 1) * (b_hat + D)" using m [OF p(4)] unfolding q(2) .
  qed
  have W0: "0 < W" using W by linarith
  have between: "q * y \<le> x \<and> x < (q + 1) * y"
    if B: "xl * W \<le> x" "x \<le> xh * W" "yl * W \<le> y" "y \<le> yh * W"
      and Q: "q * yh \<le> xl" "xh < (q + 1) * yl" for xl xh yl yh
  proof
    have "q * y \<le> q * (yh * W)" using B(4) q0 by (rule mult_left_mono)
    also have "\<dots> \<le> xl * W" using Q(1) W0 by (metis mult.assoc mult_right_mono less_imp_le)
    finally show "q * y \<le> x" using B(1) by linarith
    have "x \<le> xh * W" by (rule B(2))
    also have "\<dots> < (q + 1) * yl * W" using Q(2) W0 by (simp add: mult_strict_right_mono)
    also have "\<dots> \<le> (q + 1) * y" using B(3) q0 by (simp add: mult.assoc mult_left_mono)
    finally show "x < (q + 1) * y" .
  qed
  have pos: "0 \<le> c \<Longrightarrow> 0 \<le> d \<Longrightarrow> d < W \<Longrightarrow> 0 \<le> c * d \<and> c * d \<le> c * W" for c d :: int
    by (simp add: mult_left_mono)
  have neg: "c \<le> 0 \<Longrightarrow> 0 \<le> d \<Longrightarrow> d < W \<Longrightarrow> c * W \<le> c * d \<and> c * d \<le> 0" for c d :: int
    by (simp add: mult_left_mono_neg mult_nonpos_nonneg)
  from s consider "0 \<le> A" "B \<le> 0" "C \<le> 0" "0 \<le> D" | "A \<le> 0" "0 \<le> B" "0 \<le> C" "D \<le> 0"
    unfolding lehmer_signs_def by blast
  then show ?thesis
  proof cases
    case 1
    show ?thesis
      using pos [OF 1(1) W(1,2)] neg [OF 1(2) W(3,4)] neg [OF 1(3) W(1,2)] pos [OF 1(4) W(3,4)] x y
      by (intro between [OF _ _ _ _ lo(2) hi(1)]) (simp_all add: distrib_right)
  next
    case 2
    show ?thesis
      using neg [OF 2(1) W(1,2)] pos [OF 2(2) W(3,4)] pos [OF 2(3) W(1,2)] neg [OF 2(4) W(3,4)] x y
      by (intro between [OF _ _ _ _ lo(1) hi(2)]) (simp_all add: distrib_right)
  qed
qed

lemma lehmer_loop_correct:
  assumes "lehmer_bound a_hat b_hat A B C D"
    and "0 \<le> a0" "a0 < W" "0 \<le> b0" "b0 < W"
    and "A * a + B * b = a_hat * W + A * a0 + B * b0" and "C * a + D * b = b_hat * W + C * a0 + D * b0"
    and "0 \<le> C * a + D * b" "C * a + D * b \<le> A * a + B * b"
    and "lehmer_loop a_hat b_hat A B C D = (A', B', C', D')"
  shows "gcd (A' * a + B' * b) (C' * a + D' * b) = gcd (A * a + B * b) (C * a + D * b) \<and>
    0 \<le> C' * a + D' * b \<and> C' * a + D' * b \<le> A' * a + B' * b \<and>
    lehmer_signs A' B' C' D' \<and> \<bar>A'\<bar> \<le> 4294967296 \<and> \<bar>B'\<bar> \<le> 4294967296 \<and> \<bar>C'\<bar> \<le> 4294967296 \<and> \<bar>D'\<bar> \<le> 4294967296 \<and>
    (C' * a + D' * b < C * a + D * b \<and> C' * a + D' * b < A' * a + B' * b \<or> (A', B', C', D') = (A, B, C, D))"
  using assms
proof (induction a_hat b_hat A B C D rule: lehmer_loop.induct)
  case (1 a_hat b_hat A B C D)
  define q where "q = (a_hat + A) sdiv (b_hat + C)"
  have r: "lehmer_signs A B C D" "\<bar>A\<bar> \<le> 4294967296 \<and> \<bar>B\<bar> \<le> 4294967296 \<and> \<bar>C\<bar> \<le> 4294967296 \<and> \<bar>D\<bar> \<le> 4294967296"
    using 1(2) lehmer_bound_range [OF 1(2)] unfolding lehmer_bound_def by blast+
  show ?case
  proof (cases "lehmer_step a_hat b_hat A B C D q")
    case False
    then have "lehmer_loop a_hat b_hat A B C D = (A, B, C, D)"
      by (subst lehmer_loop.simps) (auto simp: lehmer_step_def q_def Let_def)
    then show ?thesis using 1(9,10,11) r by auto
  next
    case True
    let ?x = "A * a + B * b" and ?y = "C * a + D * b"
    have Q: "q * ?y \<le> ?x \<and> ?x < (q + 1) * ?y"
      by (rule lehmer_quotient [OF 1(2) True 1(3,4,5,6) 1(7) 1(8)])
    have y': "(A - q * C) * a + (B - q * D) * b = ?x - q * ?y" by (simp add: algebra_simps)
    have small: "0 \<le> ?x - q * ?y" "?x - q * ?y < ?y" using Q by (simp_all add: distrib_right)
    have step: "lehmer_loop b_hat (a_hat - q * b_hat) C D (A - q * C) (B - q * D) = (A', B', C', D')"
      using 1(11) True by (subst (asm) lehmer_loop.simps) (auto simp: lehmer_step_def Let_def)
    have IH: "gcd (A' * a + B' * b) (C' * a + D' * b) = gcd ?y ((A - q * C) * a + (B - q * D) * b) \<and>
      0 \<le> C' * a + D' * b \<and> C' * a + D' * b \<le> A' * a + B' * b \<and>
      lehmer_signs A' B' C' D' \<and> \<bar>A'\<bar> \<le> 4294967296 \<and> \<bar>B'\<bar> \<le> 4294967296 \<and> \<bar>C'\<bar> \<le> 4294967296 \<and> \<bar>D'\<bar> \<le> 4294967296 \<and>
      (C' * a + D' * b < (A - q * C) * a + (B - q * D) * b \<and> C' * a + D' * b < A' * a + B' * b \<or> (A', B', C', D') = (C, D, A - q * C, B - q * D))"
    proof (rule 1(1) [OF _ q_def])
      show "\<not> (b_hat + C = 0 \<or> b_hat + D = 0)" "\<not> q \<noteq> (a_hat + B) sdiv (b_hat + D)"
        using True unfolding lehmer_step_def by blast+
      show "lehmer_bound b_hat (a_hat - q * b_hat) C D (A - q * C) (B - q * D)"
        by (rule lehmer_step_bound(2) [OF 1(2) True])
      show "(A - q * C) * a + (B - q * D) * b = (a_hat - q * b_hat) * W + (A - q * C) * a0 + (B - q * D) * b0"
        unfolding y' 1(7) 1(8) by (simp add: algebra_simps)
      show "0 \<le> (A - q * C) * a + (B - q * D) * b" "(A - q * C) * a + (B - q * D) * b \<le> ?y"
        unfolding y' using small by linarith+
    qed (fact 1(3) 1(4) 1(5) 1(6) 1(8) step)+
    have "gcd ?y (?x - q * ?y) = gcd ?x ?y"
      by (metis add.commute diff_add_cancel gcd.commute gcd_add_mult mult.commute)
    moreover have "C' * a + D' * b < ?y \<and> C' * a + D' * b < A' * a + B' * b"
      using IH small(2) unfolding y' [symmetric] by auto
    ultimately show ?thesis using IH unfolding y' by metis
  qed
qed

section \<open>Canonical numbers\<close>

lemma nval_last: "ds \<noteq> [] \<Longrightarrow> nval ds = unat (last ds) * 4294967296 ^ (length ds - 1) + nval (butlast ds)"
  using nval_append [of "butlast ds" "[last ds]"] by (simp add: length_butlast)

text \<open>
  A number is canonical when a large one does not fit in a small one. Assigning the 64-bit unsigned
  integer \<open>2^31 - 1\<close> is the one way to a number that is not.
\<close>

fun canonical :: "mpz \<Rightarrow> bool" where
  "canonical (Small v) = True"
| "canonical (Large s ds) = (2147483648 \<le> nval ds)"

lemma canonical_val: "wf_mpz a \<Longrightarrow> 2147483648 \<le> \<bar>mpz_val a\<bar> \<Longrightarrow> canonical a"
  by (cases a) (auto simp: abs_mult)

lemma canonical_set_i64 [simp]: "canonical (set_i64 v)"
proof (cases "- 2147483648 \<le> sint v \<and> sint v \<le> 2147483647")
  case True
  then show ?thesis by (simp add: set_i64_def)
next
  case False
  then show ?thesis
    using set_i64_correct [of v] by (intro canonical_val) (simp_all only: set_i64_correct, linarith)
qed

lemma canonical_set_unsigned [simp]: "canonical (set_unsigned d)"
  by (simp add: set_unsigned_def set_int_def)

lemma canonical_set_int [simp]: "canonical (set_int d)"
  by (simp add: set_int_def)

lemma canonical_set_cell:
  assumes "s = 1 \<or> s = - 1"
  shows "canonical (set_cell src s)"
proof (cases "2147483648 \<le> nval src")
  case True
  then show ?thesis
    using set_cell_correct [OF assms, of src] assms by (intro canonical_val) (auto simp: abs_mult)
next
  case False
  let ?ds = "drop_zeros src"
  show ?thesis
  proof (cases "?ds = []")
    case True
    then show ?thesis by (simp add: set_cell_def)
  next
    case ne: False
    note nv = nval_last [OF ne]
    have l0: "0 < unat (last ?ds)" using last_drop_zeros [OF ne] by (simp add: unat_gt_0)
    have len: "length ?ds = 1"
    proof (rule ccontr)
      assume "length ?ds \<noteq> 1"
      then have "1 \<le> length ?ds - 1" using ne by (cases ?ds) (auto simp: Suc_le_eq)
      then have "(1 :: nat) * 4294967296 ^ 1 \<le> unat (last ?ds) * 4294967296 ^ (length ?ds - 1)"
        using l0 by (intro mult_le_mono power_increasing) auto
      then show False using nv False by simp
    qed
    then obtain d where d: "?ds = [d]" by (cases ?ds) auto
    then have "unat d < 2147483648" using nval_drop_zeros [of src] False by (simp del: nval_drop_zeros)
    then have "d \<le> 2147483647" by (simp add: word_le_nat_alt)
    then show ?thesis by (simp add: set_cell_def d Let_def)
  qed
qed

lemma sign_get_sign_cell: "wf_mpz a \<Longrightarrow> fst (get_sign_cell a) = 1 \<or> fst (get_sign_cell a) = - 1"
  by (cases a) auto

lemma canonical_ops:
  assumes "wf_mpz a" "wf_mpz b"
  shows "canonical (mpz_add a b)" "canonical (mpz_sub a b)" "canonical (mpz_mul a b)"
proof -
  obtain sa ca sb cb where g: "get_sign_cell a = (sa, ca)" "get_sign_cell b = (sb, cb)" by fastforce
  have s: "sa = 1 \<or> sa = - 1" "sb = 1 \<or> sb = - 1"
    using sign_get_sign_cell [OF assms(1)] sign_get_sign_cell [OF assms(2)] g by simp_all
  then have sn: "- sb = 1 \<or> - sb = - 1" by auto
  have big: "canonical (big_add_sub SUB a b)" for SUB
    using canonical_set_cell [OF s(1)] canonical_set_cell [OF s(2)] canonical_set_cell [OF sn]
    by (simp add: big_add_sub_def g Let_def case_prod_unfold)
  show "canonical (mpz_add a b)" "canonical (mpz_sub a b)" "canonical (mpz_mul a b)"
    using big canonical_set_cell by (simp_all add: mpz_add_def mpz_sub_def mpz_mul_def big_add_def big_sub_def
        big_mul_def g Let_def case_prod_unfold)
qed

lemma canonical_rem:
  assumes "wf_mpz a" "wf_mpz b" "canonical a" "mpz_rem m a b = Some r"
  shows "canonical r"
proof -
  obtain sa ca sb cb where g: "get_sign_cell a = (sa, ca)" "get_sign_cell b = (sb, cb)" by fastforce
  have s: "sa = 1 \<or> sa = - 1" using sign_get_sign_cell [OF assms(1)] g by simp
  show ?thesis
    using assms(3,4) canonical_set_cell [OF s]
    by (auto simp: mpz_rem_def quot_rem_core_def g Let_def split: if_splits option.splits)
qed

lemma canonical_addmul:
  assumes "wf_mpz a" "wf_mpz b" "wf_mpz c"
  shows "canonical (mpz_addmul a b c)"
  using assms canonical_ops mpz_mul_correct [OF assms(2,3)] by (simp add: mpz_addmul_def)

section \<open>Correctness\<close>

lemma apply_row_correct:
  assumes "wf_mpz a" "wf_mpz b" "\<bar>A\<bar> \<le> 4294967296" "\<bar>B\<bar> \<le> 4294967296"
  shows "wf_mpz (apply_row A B a b)" "mpz_val (apply_row A B a b) = A * mpz_val a + B * mpz_val b"
    "canonical (apply_row A B a b)"
proof -
  have i: "sint (word_of_int x :: i64) = x" if "\<bar>x\<bar> \<le> 4294967296" for x
    using that by (simp add: sint_sbintrunc' signed_take_bit_63_id)
  note s = set_i64_correct
  note m = mpz_mul_correct [OF assms(1) s(1) [of "word_of_int A"]]
  note am = mpz_addmul_correct [OF m(1) s(1) [of "word_of_int B"] assms(2)]
  show "wf_mpz (apply_row A B a b)" "mpz_val (apply_row A B a b) = A * mpz_val a + B * mpz_val b"
    unfolding apply_row_def using am m i assms(3,4) by simp_all
  show "canonical (apply_row A B a b)"
    unfolding apply_row_def by (rule canonical_addmul [OF m(1) s(1) assms(2)])
qed

lemma rem_loop_correct:
  assumes "wf_mpz a" "wf_mpz b" "0 \<le> mpz_val a" "0 \<le> mpz_val b" "canonical a" "canonical b"
  shows "\<exists>c. rem_loop m a b = Some c \<and> wf_mpz c \<and> canonical c \<and> mpz_val c = gcd (mpz_val a) (mpz_val b)"
  using assms
proof (induction "nat (mpz_val b)" arbitrary: a b rule: less_induct)
  case less
  show ?case
  proof (cases "mpz_val b = 0")
    case True
    then show ?thesis using less.prems by (subst rem_loop.simps) (simp add: mpz_sign_correct)
  next
    case False
    then obtain t where t: "mpz_rem m a b = Some t" "wf_mpz t" "mpz_val t = mpz_val a smod mpz_val b"
      using mpz_rem_correct [OF less.prems(1,2), of m] by blast
    have b: "0 < mpz_val b" using False less.prems by linarith
    have v: "mpz_val t = mpz_val a mod mpz_val b"
      unfolding t(3) using less.prems(3) b by (simp add: signed_modulo_int_def sgn_if)
    have "nat (mpz_val t) < nat (mpz_val b)" "0 \<le> mpz_val t" using b unfolding v by simp_all
    from less.hyps [OF this(1) less.prems(2) t(2) less.prems(4) this(2) less.prems(6) canonical_rem [OF less.prems(1,2,5) t(1)]]
    have "\<exists>c. rem_loop m b t = Some c \<and> wf_mpz c \<and> canonical c \<and> mpz_val c = gcd (mpz_val b) (mpz_val t)" .
    moreover have "gcd (mpz_val b) (mpz_val t) = gcd (mpz_val a) (mpz_val b)"
      unfolding v by (simp add: gcd_red_int [symmetric] gcd.commute)
    ultimately show ?thesis
      using False less.prems t(1) by (subst rem_loop.simps) (simp add: mpz_sign_correct)
  qed
qed

lemma leading_digits_correct:
  assumes a: "ds \<noteq> []" "last ds \<noteq> 0" and b: "es \<noteq> []" "last es \<noteq> 0" "nval es \<le> nval ds"
    and l: "leading_digits (Large 1 ds) (Large 1 es) = (a_hat, b_hat)"
    and W: "W = 4294967296 ^ (length ds - 1)"
  shows "\<exists>a0 b0. 0 \<le> a0 \<and> a0 < W \<and> 0 \<le> b0 \<and> b0 < W \<and>
    int (nval ds) = a_hat * W + a0 \<and> int (nval es) = b_hat * W + b0 \<and>
    0 \<le> a_hat \<and> a_hat < 4294967296 \<and> 0 \<le> b_hat \<and> b_hat < 4294967296"
proof -
  have u: "int (unat (x :: u32)) = uint x" for x by simp
  have r: "0 \<le> uint x" "uint x < 4294967296" for x :: u32 using uint_lt2p [of x] by simp_all
  have w: "int (nval (butlast zs)) < 4294967296 ^ (length zs - 1)" for zs :: digits
    using nval_less [of "butlast zs"] by (metis length_butlast of_nat_less_iff of_nat_numeral of_nat_power)
  have ev: "int (nval zs) = uint (last zs) * 4294967296 ^ (length zs - 1) + int (nval (butlast zs))"
    if "zs \<noteq> []" for zs :: digits
    by (subst nval_last [OF that]) (simp only: of_nat_add of_nat_mult of_nat_power of_nat_numeral u)
  have le: "length es \<le> length ds"
  proof (rule ccontr)
    assume "\<not> length es \<le> length ds"
    then have "(4294967296 :: nat) ^ length ds * 1 \<le> 4294967296 ^ (length es - 1) * unat (last es)"
      using b by (intro mult_le_mono power_increasing) (auto simp: Suc_le_eq unat_gt_0)
    also have "\<dots> \<le> nval es" using nval_last [OF b(1)] by (simp add: mult.commute)
    finally show False using nval_less [of ds] b(3) by simp
  qed
  have ah: "a_hat = uint (last ds)" using l by (auto simp: leading_digits_def)
  show ?thesis
  proof (cases "length es = length ds")
    case True
    have "b_hat = uint (last es)" using l True by (auto simp: leading_digits_def)
    then show ?thesis
      using ah r w [of ds] w [of es] ev [OF a(1)] ev [OF b(1)] True W
      by (intro exI [of _ "int (nval (butlast ds))"] exI [of _ "int (nval (butlast es))"]) simp
  next
    case False
    then have bh: "b_hat = 0" using l by (auto simp: leading_digits_def)
    have "nval es < 4294967296 ^ length es" by (rule nval_less)
    also have "\<dots> \<le> 4294967296 ^ (length ds - 1)" using False le by (intro power_increasing) auto
    finally have "int (nval es) < W" using W by (metis of_nat_less_iff of_nat_numeral of_nat_power)
    then show ?thesis
      using ah bh r w [of ds] ev [OF a(1)] W
      by (intro exI [of _ "int (nval (butlast ds))"] exI [of _ "int (nval es)"]) simp
  qed
qed

lemma small_gcd:
  assumes "0 \<le> sint v" "0 \<le> sint w"
  shows "mpz_val (set_unsigned (u_gcd v w)) = gcd (sint v) (sint w)"
proof -
  have u: "int (unat x) = sint x" "unat x < 2147483648" if "0 \<le> sint x" for x :: u32
  proof -
    show "int (unat x) = sint x"
      using that sint_i32_bounds [of x] by (simp add: uint_sint take_bit_int_eq_self_iff)
    then show "unat x < 2147483648" using sint_i32_bounds [of x] by linarith
  qed
  show ?thesis
    using u_gcd_correct [OF u(2) [OF assms(1)] u(2) [OF assms(2)]]
    by (simp only: set_unsigned_correct) (metis gcd_int_int_eq u(1) assms)
qed

lemma small_below:
  assumes "wf_mpz a" "wf_mpz b" "0 \<le> mpz_val b" "mpz_val b < mpz_val a" "\<not> is_small b"
  shows "\<not> is_small a"
proof
  assume "is_small a"
  then have "mpz_val a \<le> 2147483647" using sint_i32_bounds by (cases a) auto
  moreover have "2147483647 \<le> mpz_val b" using assms by (cases b) (auto simp: zero_le_mult_iff)
  ultimately show False using assms(4) by linarith
qed

lemma lehmer_matrix:
  assumes wf: "wf_mpz a" "wf_mpz b" and ord: "0 \<le> mpz_val b" "mpz_val b \<le> mpz_val a"
    and large: "\<not> is_small a" "\<not> is_small b"
    and l: "leading_digits a b = (a_hat, b_hat)" "lehmer_loop a_hat b_hat 1 0 0 1 = (A, B, C, D)"
  shows "lehmer_bound a_hat b_hat 1 0 0 1"
    and "\<bar>A\<bar> \<le> 4294967296" "\<bar>B\<bar> \<le> 4294967296" "\<bar>C\<bar> \<le> 4294967296" "\<bar>D\<bar> \<le> 4294967296"
    and "gcd (A * mpz_val a + B * mpz_val b) (C * mpz_val a + D * mpz_val b) = gcd (mpz_val a) (mpz_val b)"
    and "B \<noteq> 0 \<Longrightarrow> 0 \<le> C * mpz_val a + D * mpz_val b \<and> C * mpz_val a + D * mpz_val b < mpz_val b \<and>
      C * mpz_val a + D * mpz_val b < A * mpz_val a + B * mpz_val b"
proof -
  obtain s ds t es where a: "a = Large s ds" and b: "b = Large t es" using large by (cases a; cases b) auto
  have "0 < nval ds" "0 < nval es" using wf a b by auto
  then have s: "s = 1" "t = 1" using wf a b ord by (auto simp: zero_le_mult_iff)
  have v: "mpz_val a = int (nval ds)" "mpz_val b = int (nval es)" using a b s by simp_all
  have ne: "ds \<noteq> []" "last ds \<noteq> 0" "es \<noteq> []" "last es \<noteq> 0" using wf a b by simp_all
  have le: "nval es \<le> nval ds" using ord v by simp
  obtain a0 b0 W where d: "0 \<le> a0" "a0 < W" "0 \<le> b0" "b0 < W"
    "int (nval ds) = a_hat * W + a0" "int (nval es) = b_hat * W + b0"
    "0 \<le> a_hat" "a_hat < 4294967296" "0 \<le> b_hat" "b_hat < 4294967296"
    using leading_digits_correct [OF ne le l(1) [unfolded a b s] refl] by blast
  show bd: "lehmer_bound a_hat b_hat 1 0 0 1"
    unfolding lehmer_bound_def lehmer_signs_def using d(7,8,9,10) by simp
  have "1 * mpz_val a + 0 * mpz_val b = a_hat * W + 1 * a0 + 0 * b0"
    "0 * mpz_val a + 1 * mpz_val b = b_hat * W + 0 * a0 + 1 * b0"
    "0 \<le> 0 * mpz_val a + 1 * mpz_val b" "0 * mpz_val a + 1 * mpz_val b \<le> 1 * mpz_val a + 0 * mpz_val b"
    using d v ord by simp_all
  note L = lehmer_loop_correct [OF bd d(1-4) this l(2)]
  show "\<bar>A\<bar> \<le> 4294967296" "\<bar>B\<bar> \<le> 4294967296" "\<bar>C\<bar> \<le> 4294967296" "\<bar>D\<bar> \<le> 4294967296"
    using L by blast+
  show "gcd (A * mpz_val a + B * mpz_val b) (C * mpz_val a + D * mpz_val b) = gcd (mpz_val a) (mpz_val b)"
    using L by simp
  show "B \<noteq> 0 \<Longrightarrow> 0 \<le> C * mpz_val a + D * mpz_val b \<and> C * mpz_val a + D * mpz_val b < mpz_val b \<and>
      C * mpz_val a + D * mpz_val b < A * mpz_val a + B * mpz_val b"
    using L by auto
qed

lemma lehmer_gcd_correct:
  assumes "wf_mpz a" "wf_mpz b" "0 \<le> mpz_val b" "mpz_val b \<le> mpz_val a" "\<not> is_small b \<longrightarrow> \<not> is_small a"
    "canonical a" "canonical b"
  shows "\<exists>c. lehmer_gcd m a b = Some c \<and> wf_mpz c \<and> canonical c \<and> mpz_val c = gcd (mpz_val a) (mpz_val b)"
  using assms
proof (induction "nat (mpz_val b)" arbitrary: a b rule: less_induct)
  case less
  show ?case
  proof (cases "is_small b")
    case True
    show ?thesis
    proof (cases "is_small a")
      case s: True
      obtain v w where vw: "a = Small v" "b = Small w" using True s by (cases a; cases b) auto
      have "lehmer_gcd m a b = Some (set_unsigned (u_gcd v w))"
        unfolding vw by (subst lehmer_gcd.simps) simp
      then show ?thesis using small_gcd [of v w] less.prems(3,4) vw by simp
    next
      case False
      have "lehmer_gcd m a b = rem_loop m a b" using True False by (subst lehmer_gcd.simps) simp
      then show ?thesis using rem_loop_correct [OF less.prems(1,2) _ less.prems(3,6,7), of m] less.prems(3,4) by auto
    qed
  next
    case large: False
    then have la: "\<not> is_small a" using less.prems by blast
    obtain a_hat b_hat where h: "leading_digits a b = (a_hat, b_hat)" by fastforce
    obtain A B C D where l: "lehmer_loop a_hat b_hat 1 0 0 1 = (A, B, C, D)" by (cases "lehmer_loop a_hat b_hat 1 0 0 1")
    note M = lehmer_matrix [OF less.prems(1-4) la large h l]
    show ?thesis
    proof (cases "B = 0")
      case True
      have b0: "0 < mpz_val b" using less.prems(2,3) large by (cases b) (auto simp: zero_le_mult_iff)
      then obtain t where t: "mpz_rem m a b = Some t" "wf_mpz t" "mpz_val t = mpz_val a smod mpz_val b"
        using mpz_rem_correct [OF less.prems(1,2), of m] by auto
      have v: "mpz_val t = mpz_val a mod mpz_val b"
        unfolding t(3) using less.prems(3,4) b0 by (simp add: signed_modulo_int_def sgn_if)
      have lt: "0 \<le> mpz_val t" "mpz_val t < mpz_val b" using b0 unfolding v by simp_all
      have "\<exists>c. lehmer_gcd m b t = Some c \<and> wf_mpz c \<and> canonical c \<and> mpz_val c = gcd (mpz_val b) (mpz_val t)"
        using lt b0 less.prems(2,7) t(2) small_below [OF less.prems(2) t(2) lt] canonical_rem [OF less.prems(1,2,6) t(1)]
        by (intro less.hyps) auto
      moreover have "gcd (mpz_val b) (mpz_val t) = gcd (mpz_val a) (mpz_val b)"
        unfolding v by (simp add: gcd_red_int [symmetric] gcd.commute)
      moreover have "lehmer_gcd m a b = lehmer_gcd m b t"
        using large la h l t(1) True by (subst lehmer_gcd.simps) simp
      ultimately show ?thesis by simp
    next
      case False
      let ?x = "apply_row A B a b" and ?y = "apply_row C D a b"
      note X = apply_row_correct [OF less.prems(1,2) M(2,3)]
      note Y = apply_row_correct [OF less.prems(1,2) M(4,5)]
      have o: "0 \<le> mpz_val ?y" "mpz_val ?y < mpz_val b" "mpz_val ?y < mpz_val ?x"
        using M(7) [OF False] unfolding X(2) Y(2) by blast+
      have "\<exists>c. lehmer_gcd m ?x ?y = Some c \<and> wf_mpz c \<and> canonical c \<and> mpz_val c = gcd (mpz_val ?x) (mpz_val ?y)"
        using o X(1,3) Y(1,3) small_below [OF X(1) Y(1) o(1,3)] less.prems(3)
        by (intro less.hyps) auto
      moreover have "gcd (mpz_val ?x) (mpz_val ?y) = gcd (mpz_val a) (mpz_val b)"
        unfolding X(2) Y(2) by (rule M(6))
      moreover have "lehmer_gcd m a b = lehmer_gcd m ?x ?y"
        using large la h l False by (subst lehmer_gcd.simps) simp
      ultimately show ?thesis by simp
    qed
  qed
qed

lemma canonical_order:
  assumes "wf_mpz a" "wf_mpz b" "canonical b" "0 \<le> mpz_val b" "mpz_val b \<le> mpz_val a" "\<not> is_small b"
  shows "\<not> is_small a"
proof
  assume "is_small a"
  then have "mpz_val a \<le> 2147483647" using sint_i32_bounds by (cases a) auto
  moreover have "2147483648 \<le> mpz_val b" using assms by (cases b) (auto simp: zero_le_mult_iff)
  ultimately show False using assms(5) by linarith
qed

lemma abs_i32_correct: "sint v \<noteq> sint int_min \<Longrightarrow> sint (abs_i32 v) = \<bar>sint v\<bar>"
  using sint_uminus_i32 [of v] by (auto simp: abs_i32_def word_sless_alt)

lemma canonical_abs: "wf_mpz a \<Longrightarrow> canonical a \<Longrightarrow> canonical (mpz_abs a)"
proof (cases "a = Small int_min")
  case True
  then show ?thesis
    using mpz_abs_correct [of "Small int_min"] by (intro canonical_val) (simp_all add: sint_int_min del: mpz_abs.simps)
qed (cases a; auto)

lemma mpz_gcd_correct:
  assumes "wf_mpz a" "wf_mpz b" "canonical a" "canonical b"
  shows "\<exists>c. mpz_gcd m a b = Some c \<and> wf_mpz c \<and> canonical c \<and> mpz_val c = gcd (mpz_val a) (mpz_val b)"
proof (cases "is_small a \<and> is_small b \<and> mpz_sign a \<noteq> sint int_min \<and> mpz_sign b \<noteq> sint int_min")
  case True
  then obtain v w where vw: "a = Small v" "b = Small w" by (cases a; cases b) auto
  then have i: "sint v \<noteq> sint int_min" "sint w \<noteq> sint int_min" using True by simp_all
  have "mpz_gcd m a b = Some (set_unsigned (u_gcd (abs_i32 v) (abs_i32 w)))"
    unfolding vw mpz_gcd_def using i by simp
  then show ?thesis using small_gcd [of "abs_i32 v" "abs_i32 w"] abs_i32_correct i vw by simp
next
  case False
  note A = mpz_abs_correct [OF assms(1)] and B = mpz_abs_correct [OF assms(2)]
  show ?thesis
  proof (cases "mpz_val a = 0 \<or> mpz_val b = 0")
    case True
    then show ?thesis
      using False A B assms canonical_abs by (auto simp: mpz_gcd_def mpz_sign_correct)
  next
    case nz: False
    have lt: "mpz_lt (mpz_abs a) (mpz_abs b) \<longleftrightarrow> \<bar>mpz_val a\<bar> < \<bar>mpz_val b\<bar>"
      using mpz_compare_correct(2) [OF A(1) B(1)] A(2) B(2) by simp
    show ?thesis
    proof (cases "\<bar>mpz_val a\<bar> < \<bar>mpz_val b\<bar>")
      case True
      have "\<exists>c. lehmer_gcd m (mpz_abs b) (mpz_abs a) = Some c \<and> wf_mpz c \<and> canonical c \<and>
          mpz_val c = gcd (mpz_val (mpz_abs b)) (mpz_val (mpz_abs a))"
        using A B True canonical_abs assms canonical_order [OF B(1) A(1) canonical_abs [OF assms(1,3)]] by (intro lehmer_gcd_correct) auto
      then show ?thesis
        using True False nz assms lt A B by (auto simp: mpz_gcd_def mpz_sign_correct gcd.commute)
    next
      case ge: False
      have "\<exists>c. lehmer_gcd m (mpz_abs a) (mpz_abs b) = Some c \<and> wf_mpz c \<and> canonical c \<and>
          mpz_val c = gcd (mpz_val (mpz_abs a)) (mpz_val (mpz_abs b))"
        using A B ge canonical_abs assms canonical_order [OF A(1) B(1) canonical_abs [OF assms(2,4)]] by (intro lehmer_gcd_correct) auto
      then show ?thesis
        using ge False nz assms lt A B by (auto simp: mpz_gcd_def mpz_sign_correct)
    qed
  qed
qed

text \<open>
  The number \<open>2^31 - 1\<close> in its two representations: the larger number is taken to have digits and is small.
\<close>

lemma mpz_gcd_int_max: "mpz_gcd m (Small 2147483647) (set_uint64 2147483647) = None"
proof -
  have b: "set_uint64 2147483647 = set_big_ui64 2147483647" by (simp add: set_uint64_def)
  obtain ds where ds: "set_big_ui64 2147483647 = Large 1 ds" by (simp add: set_big_ui64_def)
  have w: "wf_mpz (Large 1 ds)" "mpz_val (Large 1 ds) = 2147483647"
    using set_big_ui64_correct [of 2147483647] by (simp_all add: ds)
  have a: "mpz_abs (Small 2147483647) = Small 2147483647" by (simp add: word_sless_alt)
  have "\<not> mpz_lt (Small 2147483647) (Large 1 ds)"
    using mpz_compare_correct(2) [OF _ w(1), of "Small 2147483647"] w(2) by simp
  moreover have "lehmer_gcd m (Small 2147483647) (Large 1 ds) = None"
    by (subst lehmer_gcd.simps) simp
  ultimately show ?thesis
    unfolding b ds mpz_gcd_def Let_def a by (simp add: mpz_is_zero_def)
qed

section \<open>The inner loop as a transition system\<close>

inductive lehmer_reach :: "int \<Rightarrow> int \<Rightarrow> int \<times> int \<times> int \<times> int \<times> int \<times> int \<Rightarrow> bool" for x y where
  start: "lehmer_reach x y (x, y, 1, 0, 0, 1)"
| step: "\<lbrakk>lehmer_reach x y (a_hat, b_hat, A, B, C, D); lehmer_step a_hat b_hat A B C D q\<rbrakk> \<Longrightarrow>
    lehmer_reach x y (b_hat, a_hat - q * b_hat, C, D, A - q * C, B - q * D)"

lemma lehmer_reach_bound:
  assumes "lehmer_reach x y (a_hat, b_hat, A, B, C, D)" "0 \<le> y" "y \<le> x" "x < 4294967296"
  shows "lehmer_bound a_hat b_hat A B C D"
  using assms(1)
proof (induction "(a_hat, b_hat, A, B, C, D)" arbitrary: a_hat b_hat A B C D rule: lehmer_reach.induct)
  case start
  then show ?case using assms(2-) by (simp add: lehmer_bound_def lehmer_signs_def)
next
  case (step a_hat b_hat A B C D q)
  then show ?case by (intro lehmer_step_bound(2)) simp_all
qed

lemma lehmer_loop_step:
  assumes "lehmer_step a_hat b_hat A B C D q"
  shows "lehmer_loop a_hat b_hat A B C D = lehmer_loop b_hat (a_hat - q * b_hat) C D (A - q * C) (B - q * D)"
proof -
  have s: "b_hat + C \<noteq> 0 \<and> b_hat + D \<noteq> 0" and a: "(a_hat + A) sdiv (b_hat + C) = q" and b: "(a_hat + B) sdiv (b_hat + D) = q"
    using assms unfolding lehmer_step_def by (metis, metis, metis)
  have "(b_hat + C = 0 \<or> b_hat + D = 0) = False" using s by blast
  then show ?thesis by (subst lehmer_loop.simps) (simp only: Let_def if_False simp_thms a b)
qed

lemma lehmer_reach_loop:
  assumes "lehmer_reach x y (a_hat, b_hat, A, B, C, D)"
  shows "lehmer_loop x y 1 0 0 1 = lehmer_loop a_hat b_hat A B C D"
  using assms
proof (induction "(a_hat, b_hat, A, B, C, D)" arbitrary: a_hat b_hat A B C D rule: lehmer_reach.induct)
  case (step a_hat b_hat A B C D q)
  then show ?case using lehmer_loop_step [OF step(3)] by (simp only:)
qed (rule refl)

text \<open>The products that a step forms stay as small.\<close>

lemma lehmer_products:
  assumes "lehmer_bound a_hat b_hat A B C D" "lehmer_step a_hat b_hat A B C D q"
  shows "\<bar>q * b_hat\<bar> \<le> 8589934592 \<and> \<bar>q * C\<bar> \<le> 8589934592 \<and> \<bar>q * D\<bar> \<le> 8589934592"
proof -
  have tri: "\<bar>v\<bar> \<le> 8589934592" if "\<bar>u\<bar> \<le> 4294967296" "\<bar>u - v\<bar> \<le> 4294967296" for u v :: int
    using that by linarith
  have ab: "\<bar>u\<bar> \<le> 4294967296" if "0 \<le> u \<and> u \<le> 4294967296" for u :: int using that by simp
  note r = lehmer_bound_range [OF assms(1)] and s = lehmer_bound_range [OF lehmer_step_bound(2) [OF assms]]
  have "\<bar>a_hat\<bar> \<le> 4294967296" "\<bar>a_hat - q * b_hat\<bar> \<le> 4294967296" using r s by (blast intro: ab)+
  then show ?thesis using r s tri by blast
qed

end
