(* ===== verification/MpzAlgo.thy ===== *)
theory MpzAlgo
  imports MpzGcd
begin

text \<open>
  Algorithms of util/mpz.cpp on top of the arithmetic: the gcd of an array, the extended gcd, the least
  common multiple, powers, integer roots and perfect squares. A loop that may run forever is a partial
  function whose value is then \<open>None\<close>; the theorems show that it returns.
\<close>

section \<open>Definitions\<close>

primrec gcd_rest :: "mpn_manager \<Rightarrow> mpz list \<Rightarrow> mpz \<Rightarrow> mpz option" where
  "gcd_rest m [] g = Some g"
| "gcd_rest m (a # rest) g = (if mpz_is_one g then Some g else do { g' \<leftarrow> mpz_gcd m g a; gcd_rest m rest g' })"

fun gcd_array :: "mpn_manager \<Rightarrow> mpz list \<Rightarrow> mpz option" where
  "gcd_array m [] = Some (set_int 0)"
| "gcd_array m [a] = Some (mpz_abs a)"
| "gcd_array m (a # b # rest) = do { g \<leftarrow> mpz_gcd m a b; gcd_rest m rest g }"

partial_function (option) ext_gcd_loop ::
  "mpn_manager \<Rightarrow> mpz \<Rightarrow> mpz \<Rightarrow> mpz \<Rightarrow> mpz \<Rightarrow> mpz \<Rightarrow> mpz \<Rightarrow> (mpz \<times> mpz \<times> mpz) option" where
  "ext_gcd_loop m tmp1 tmp2 a b nexta nextb =
     (if mpz_is_pos tmp2 then
        do {
          quot \<leftarrow> machine_div m tmp1 tmp2;
          r \<leftarrow> mpz_rem m tmp1 tmp2;
          ext_gcd_loop m tmp2 r nexta nextb (mpz_sub a (mpz_mul quot nexta)) (mpz_sub b (mpz_mul nextb quot))
        }
      else Some (a, b, tmp1))"

text \<open>The cofactors and the gcd.\<close>

definition ext_gcd :: "mpn_manager \<Rightarrow> mpz \<Rightarrow> mpz \<Rightarrow> (mpz \<times> mpz \<times> mpz) option" where
  "ext_gcd m r1 r2 =
     do {
       (a, b, r) \<leftarrow>
         (if mpz_lt (mpz_abs r1) (mpz_abs r2)
          then ext_gcd_loop m (mpz_abs r2) (mpz_abs r1) (set_int 0) (set_int 1) (set_int 1) (set_int 0)
          else ext_gcd_loop m (mpz_abs r1) (mpz_abs r2) (set_int 1) (set_int 0) (set_int 0) (set_int 1));
       Some (if mpz_is_neg r1 then mpz_neg a else a, if mpz_is_neg r2 then mpz_neg b else b, r)
     }"

definition mpz_lcm :: "mpn_manager \<Rightarrow> mpz \<Rightarrow> mpz \<Rightarrow> mpz option" where
  "mpz_lcm m a b =
     (if mpz_is_one b then Some a
      else if mpz_is_one a \<or> mpz_eq a b then Some b
      else do {
        r \<leftarrow> mpz_gcd m a b;
        if mpz_eq r a then Some b
        else if mpz_eq r b then Some a
        else do { r \<leftarrow> machine_div m a r; Some (mpz_mul r b) }
      })"

text \<open>The mask is an unsigned machine word: once its bit is shifted out it is zero for ever.\<close>

partial_function (option) power_loop :: "u32 \<Rightarrow> u32 \<Rightarrow> mpz \<Rightarrow> mpz \<Rightarrow> mpz option" where
  "power_loop p bmask pw b =
     (if bmask \<le> p then
        power_loop p (push_bit 1 bmask) (mpz_mul pw pw) (if bmask AND p \<noteq> 0 then mpz_mul b pw else b)
      else Some b)"

definition mpz_power :: "mpz \<Rightarrow> u32 \<Rightarrow> mpz option" where
  "mpz_power a p =
     (if is_small a \<and> mpz_sign a = 2 then
        (if p < 31 then Some (Small (push_bit (unat p) 1))
         else
           let sz = unat p div 32 + 1; shift = unat p mod 32
           in Some (Large 1 (replicate (sz - 1) 0 @ [push_bit shift 1])))
      else if is_small a \<and> mpz_sign a = 0 then Some (set_int 0)
      else if is_small a \<and> mpz_sign a = 1 then Some (set_int 1)
      else power_loop p 1 a (set_int 1))"

definition div_l :: "nat \<Rightarrow> nat \<Rightarrow> nat" where
  "div_l k n = k div n"

definition div_u :: "nat \<Rightarrow> nat \<Rightarrow> nat" where
  "div_u k n = (if k mod n = 0 then k div n else k div n + 1)"

text \<open>Bisection: the root and whether it is exact.\<close>

partial_function (option) root_loop :: "mpz \<Rightarrow> u32 \<Rightarrow> mpz \<Rightarrow> mpz \<Rightarrow> (mpz \<times> bool) option" where
  "root_loop a n lower upper =
     (let mid = machine_div2k (mpz_add upper lower) 1
      in do {
        mid_n \<leftarrow> mpz_power mid n;
        if mpz_eq mid_n a then Some (mid, True)
        else if mpz_eq mid lower \<or> mpz_eq mid upper then Some (upper, False)
        else if mpz_lt mid_n a then root_loop a n mid upper
        else root_loop a n lower mid
      })"

definition mpz_root :: "mpz \<Rightarrow> u32 \<Rightarrow> (mpz \<times> bool) option" where
  "mpz_root a n =
     (if mpz_is_zero a then Some (a, True)
      else do {
        (lower, upper) \<leftarrow>
          (if mpz_is_pos a then
             do {
               lower \<leftarrow> mpz_power (set_int 2) (word_of_nat (div_l (mpz_log2 a) (unat n)));
               upper \<leftarrow> mpz_power (set_int 2) (word_of_nat (div_u (mpz_log2 a + 1) (unat n)));
               Some (lower, upper)
             }
           else
             do {
               lower \<leftarrow> mpz_power (set_int 2) (word_of_nat (div_u (mpz_mlog2 a + 1) (unat n)));
               upper \<leftarrow> mpz_power (set_int 2) (word_of_nat (div_l (mpz_mlog2 a) (unat n)));
               Some (mpz_neg lower, mpz_neg upper)
             });
        if mpz_eq lower upper then Some (lower, True)
        else root_loop a n lower upper
      })"

partial_function (option) square_loop :: "mpn_manager \<Rightarrow> mpz \<Rightarrow> mpz \<Rightarrow> mpz \<Rightarrow> mpz \<Rightarrow> mpz \<Rightarrow> (mpz \<times> bool) option" where
  "square_loop m a lo hi sq_lo sq_hi =
     (if mpz_eq sq_lo a then Some (lo, True)
      else if mpz_eq (mpz_add lo (set_int 1)) hi then Some (hi, False)
      else do {
        mid \<leftarrow> mpz_div m (mpz_add hi lo) (set_int 2);
        let sq_mid = mpz_mul mid mid;
        if mpz_lt a sq_mid then square_loop m a lo mid sq_lo sq_mid
        else square_loop m a mid hi sq_mid sq_hi
      })"

text \<open>A negative number leaves the root as it was.\<close>

definition is_perfect_square :: "mpn_manager \<Rightarrow> mpz \<Rightarrow> mpz \<Rightarrow> (mpz \<times> bool) option" where
  "is_perfect_square m a root =
     (if mpz_is_neg a then Some (root, False)
      else if mpz_is_zero a then Some (set_int 0, True)
      else if mpz_is_one a then Some (set_int 1, True)
      else square_loop m a (set_int 1) a (set_int 1) (mpz_mul a a))"

section \<open>Greatest common divisors and least common multiples\<close>

lemma mpz_val_1 [simp]: "mpz_val (set_int 1) = 1" "mpz_val (set_int 0) = 0" "mpz_val (set_int 2) = 2"
  by (simp_all add: set_int_def)

lemma gcd_rest_correct:
  assumes "wf_mpz g" "canonical g" "0 \<le> mpz_val g" "\<forall>a \<in> set as'. wf_mpz a \<and> canonical a"
  shows "\<exists>c. gcd_rest m as' g = Some c \<and> wf_mpz c \<and> mpz_val c = gcd (mpz_val g) (Gcd (mpz_val ` set as'))"
  using assms
proof (induction as' arbitrary: g)
  case (Cons a as')
  show ?case
  proof (cases "mpz_is_one g")
    case True
    then show ?thesis using Cons.prems by (simp add: mpz_sign_correct)
  next
    case False
    obtain g' where g': "mpz_gcd m g a = Some g'" "wf_mpz g'" "canonical g'" "mpz_val g' = gcd (mpz_val g) (mpz_val a)"
      using mpz_gcd_correct [of g a m] Cons.prems by auto
    have "\<exists>c. gcd_rest m as' g' = Some c \<and> wf_mpz c \<and> mpz_val c = gcd (mpz_val g') (Gcd (mpz_val ` set as'))"
      using g' Cons.prems by (intro Cons.IH) auto
    then show ?thesis using False g'(1,4) by (auto simp: gcd.assoc)
  qed
qed simp

lemma gcd_array_correct:
  assumes "\<forall>a \<in> set as'. wf_mpz a \<and> canonical a"
  shows "\<exists>c. gcd_array m as' = Some c \<and> wf_mpz c \<and> mpz_val c = Gcd (mpz_val ` set as')"
proof (cases "(m, as')" rule: gcd_array.cases)
  case (3 m' a b rest)
  then have as': "as' = a # b # rest" by simp
  obtain g where g: "mpz_gcd m a b = Some g" "wf_mpz g" "canonical g" "mpz_val g = gcd (mpz_val a) (mpz_val b)"
    using mpz_gcd_correct [of a b m] assms as' by auto
  have "\<exists>c. gcd_rest m rest g = Some c \<and> wf_mpz c \<and> mpz_val c = gcd (mpz_val g) (Gcd (mpz_val ` set rest))"
    using g assms as' by (intro gcd_rest_correct) auto
  then show ?thesis using g as' by (auto simp: gcd.assoc)
qed (use assms mpz_abs_correct in \<open>auto simp: set_int_def\<close>)

lemma ext_gcd_loop_correct:
  assumes wf: "wf_mpz tmp1" "wf_mpz tmp2" "wf_mpz a" "wf_mpz b" "wf_mpz nexta" "wf_mpz nextb"
    and nn: "0 \<le> mpz_val tmp1" "0 \<le> mpz_val tmp2"
    and inv: "mpz_val a * x + mpz_val b * y = mpz_val tmp1" "mpz_val nexta * x + mpz_val nextb * y = mpz_val tmp2"
  shows "\<exists>a' b' r. ext_gcd_loop m tmp1 tmp2 a b nexta nextb = Some (a', b', r) \<and>
    wf_mpz a' \<and> wf_mpz b' \<and> wf_mpz r \<and> mpz_val r = gcd (mpz_val tmp1) (mpz_val tmp2) \<and>
    mpz_val a' * x + mpz_val b' * y = mpz_val r"
  using assms
proof (induction "nat (mpz_val tmp2)" arbitrary: tmp1 tmp2 a b nexta nextb rule: less_induct)
  case less
  show ?case
  proof (cases "0 < mpz_val tmp2")
    case False
    then have "mpz_val tmp2 = 0" using less.prems(8) by linarith
    then show ?thesis
      using less.prems by (subst ext_gcd_loop.simps) (simp add: mpz_sign_correct)
  next
    case True
    obtain quot where q: "machine_div m tmp1 tmp2 = Some quot" "wf_mpz quot"
      "mpz_val quot = mpz_val tmp1 sdiv mpz_val tmp2"
      using machine_div_correct [OF less.prems(1,2), of m] True by auto
    obtain r where r: "mpz_rem m tmp1 tmp2 = Some r" "wf_mpz r" "mpz_val r = mpz_val tmp1 smod mpz_val tmp2"
      using mpz_rem_correct [OF less.prems(1,2), of m] True by auto
    have e: "mpz_val r = mpz_val tmp1 - mpz_val quot * mpz_val tmp2"
      unfolding r(3) q(3) by (simp add: minus_sdiv_mult_eq_smod)
    have v: "mpz_val r = mpz_val tmp1 mod mpz_val tmp2"
      unfolding r(3) using less.prems(7) True by (simp add: signed_modulo_int_def sgn_if)
    have lt: "nat (mpz_val r) < nat (mpz_val tmp2)" "0 \<le> mpz_val r" using True unfolding v by simp_all
    note qa = mpz_mul_correct [OF q(2) less.prems(5)] and qb = mpz_mul_correct [OF less.prems(6) q(2)]
    note na = mpz_sub_correct [OF less.prems(3) qa(1)] and nb = mpz_sub_correct [OF less.prems(4) qb(1)]
    have "mpz_val (mpz_sub a (mpz_mul quot nexta)) * x + mpz_val (mpz_sub b (mpz_mul nextb quot)) * y =
        (mpz_val a * x + mpz_val b * y) - mpz_val quot * (mpz_val nexta * x + mpz_val nextb * y)"
      unfolding na(2) nb(2) qa(2) qb(2) by (simp add: algebra_simps)
    also have "\<dots> = mpz_val r" unfolding less.prems(9,10) e ..
    finally have inv': "mpz_val (mpz_sub a (mpz_mul quot nexta)) * x + mpz_val (mpz_sub b (mpz_mul nextb quot)) * y = mpz_val r" .
    have "gcd (mpz_val tmp2) (mpz_val r) = gcd (mpz_val tmp1) (mpz_val tmp2)"
      unfolding v by (simp add: gcd_red_int [symmetric] gcd.commute)
    then show ?thesis
      using less.hyps [OF lt(1) less.prems(2) r(2) less.prems(5,6) na(1) nb(1) less.prems(8) lt(2) less.prems(10) inv']
        True less.prems(2) q(1) r(1)
      by (subst ext_gcd_loop.simps) (simp add: mpz_sign_correct)
  qed
qed

lemma ext_gcd_correct:
  assumes "wf_mpz r1" "wf_mpz r2"
  shows "\<exists>a b r. ext_gcd m r1 r2 = Some (a, b, r) \<and> wf_mpz a \<and> wf_mpz b \<and> wf_mpz r \<and>
    mpz_val r = gcd (mpz_val r1) (mpz_val r2) \<and>
    mpz_val a * mpz_val r1 + mpz_val b * mpz_val r2 = mpz_val r"
proof -
  note A = mpz_abs_correct [OF assms(1)] and B = mpz_abs_correct [OF assms(2)]
  have i: "wf_mpz (set_int v)" for v by simp
  let ?loop = "if mpz_lt (mpz_abs r1) (mpz_abs r2)
          then ext_gcd_loop m (mpz_abs r2) (mpz_abs r1) (set_int 0) (set_int 1) (set_int 1) (set_int 0)
          else ext_gcd_loop m (mpz_abs r1) (mpz_abs r2) (set_int 1) (set_int 0) (set_int 0) (set_int 1)"
  have "\<exists>a b r. ?loop = Some (a, b, r) \<and> wf_mpz a \<and> wf_mpz b \<and> wf_mpz r \<and>
      mpz_val r = gcd (mpz_val r1) (mpz_val r2) \<and> mpz_val a * \<bar>mpz_val r1\<bar> + mpz_val b * \<bar>mpz_val r2\<bar> = mpz_val r"
    using ext_gcd_loop_correct [OF B(1) A(1) i i i i, of 0 "\<bar>mpz_val r1\<bar>" 1 "\<bar>mpz_val r2\<bar>" 1 0 m]
      ext_gcd_loop_correct [OF A(1) B(1) i i i i, of 1 "\<bar>mpz_val r1\<bar>" 0 "\<bar>mpz_val r2\<bar>" 0 1 m]
    by (auto simp: A(2) B(2) gcd.commute)
  then obtain a b r where l: "?loop = Some (a, b, r)" "wf_mpz a" "wf_mpz b" "wf_mpz r"
      "mpz_val r = gcd (mpz_val r1) (mpz_val r2)" "mpz_val a * \<bar>mpz_val r1\<bar> + mpz_val b * \<bar>mpz_val r2\<bar> = mpz_val r"
    by blast
  have sg: "wf_mpz (if mpz_is_neg y then mpz_neg x else x)"
      "mpz_val (if mpz_is_neg y then mpz_neg x else x) * mpz_val y = mpz_val x * \<bar>mpz_val y\<bar>"
    if "wf_mpz x" "wf_mpz y" for x y
    using mpz_neg_correct [OF that(1)] mpz_sign_correct(2) [OF that(2)] that by (simp_all add: abs_if)
  let ?a = "if mpz_is_neg r1 then mpz_neg a else a" and ?b = "if mpz_is_neg r2 then mpz_neg b else b"
  have e: "ext_gcd m r1 r2 = Some (?a, ?b, r)" unfolding ext_gcd_def l(1) by simp
  have bz: "mpz_val ?a * mpz_val r1 + mpz_val ?b * mpz_val r2 = mpz_val r"
    unfolding sg(2) [OF l(2) assms(1)] sg(2) [OF l(3) assms(2)] by (rule l(6))
  show ?thesis
    by (intro exI conjI)
      (fact e sg(1) [OF l(2) assms(1)] sg(1) [OF l(3) assms(2)] l(4) l(5) bz)+
qed

lemma lcm_cases:
  fixes x y :: int
  assumes "y = 1 \<or> x = 1 \<or> x = y \<or> gcd x y = x \<or> gcd x y = y"
  shows "\<bar>if y = 1 then x else if x = 1 \<or> x = y then y else if gcd x y = x then y else x\<bar> = lcm x y"
proof -
  have l: "gcd x y = x \<Longrightarrow> lcm x y = \<bar>y\<bar>" by (metis gcd_dvd2 lcm_proj2_if_dvd_int)
  have l': "gcd x y = y \<Longrightarrow> lcm x y = \<bar>x\<bar>" by (metis gcd_dvd1 lcm_proj1_if_dvd_int)
  consider "y = 1" | "x = 1" | "x = y" | "gcd x y = x" "y \<noteq> 1" "x \<noteq> 1" "x \<noteq> y"
    | "gcd x y = y" "gcd x y \<noteq> x" "y \<noteq> 1" "x \<noteq> 1" "x \<noteq> y" using assms by blast
  then show ?thesis
    by cases (simp, simp, simp, simp only: if_False if_True simp_thms l, simp only: if_False if_True simp_thms l')
qed

lemma mpz_lcm_correct:
  assumes "wf_mpz a" "wf_mpz b" "canonical a" "canonical b"
  shows "\<exists>c. mpz_lcm m a b = Some c \<and> wf_mpz c \<and> \<bar>mpz_val c\<bar> = lcm (mpz_val a) (mpz_val b)"
proof -
  obtain r where r: "mpz_gcd m a b = Some r" "wf_mpz r" "mpz_val r = gcd (mpz_val a) (mpz_val b)"
    using mpz_gcd_correct [OF assms, of m] by blast
  have eq: "mpz_eq a b \<longleftrightarrow> mpz_val a = mpz_val b" "mpz_eq r a \<longleftrightarrow> mpz_val r = mpz_val a" "mpz_eq r b \<longleftrightarrow> mpz_val r = mpz_val b"
    using mpz_compare_correct assms r by blast+
  show ?thesis
  proof (cases "mpz_val b = 1 \<or> mpz_val a = 1 \<or> mpz_val a = mpz_val b \<or> mpz_val r = mpz_val a \<or> mpz_val r = mpz_val b")
    case True
    have one: "mpz_is_one a \<longleftrightarrow> mpz_val a = 1" "mpz_is_one b \<longleftrightarrow> mpz_val b = 1"
      using mpz_sign_correct(4) assms by blast+
    let ?c = "if mpz_val b = 1 then a else if mpz_val a = 1 \<or> mpz_val a = mpz_val b then b
        else if mpz_val r = mpz_val a then b else a"
    have E: "mpz_lcm m a b = Some ?c"
      unfolding mpz_lcm_def one eq(1) r(1) using eq(2,3) by simp (use True in blast)
    have "\<bar>mpz_val ?c\<bar> = lcm (mpz_val a) (mpz_val b)"
      using lcm_cases [of "mpz_val b" "mpz_val a"] True unfolding r(3) by (simp only: if_distrib [of mpz_val])
    moreover have "wf_mpz ?c" using assms(1,2) by simp
    ultimately show ?thesis using E by blast
  next
    case False
    have nz: "mpz_val r \<noteq> 0" using False r(3) by auto
    obtain q where q: "machine_div m a r = Some q" "wf_mpz q" "mpz_val q = mpz_val a sdiv mpz_val r"
      using machine_div_correct [OF assms(1) r(2) nz, of m] by blast
    have d: "mpz_val r dvd mpz_val a" "0 < mpz_val r" using r(3) nz by (simp_all add: less_le)
    then have qv: "mpz_val q * mpz_val r = mpz_val a" unfolding q(3) by (simp add: sdiv_exact)
    have "\<bar>mpz_val q * mpz_val b\<bar> * mpz_val r = \<bar>mpz_val a\<bar> * \<bar>mpz_val b\<bar>"
      using qv d(2) by (metis abs_mult abs_of_pos mult.assoc mult.commute)
    also have "\<dots> = lcm (mpz_val a) (mpz_val b) * mpz_val r"
      unfolding r(3) by (metis abs_mult mult.commute prod_gcd_lcm_int)
    finally have "\<bar>mpz_val q * mpz_val b\<bar> = lcm (mpz_val a) (mpz_val b)" using nz by simp
    then show ?thesis
      using False assms r(1) eq q mpz_mul_correct [OF q(2) assms(2)] by (simp add: mpz_lcm_def mpz_sign_correct)
  qed
qed

section \<open>Powers\<close>

lemma sint_pow2_i32: "k < 31 \<Longrightarrow> sint (push_bit k 1 :: i32) = 2 ^ k"
proof -
  assume k: "k < 31"
  have "(2 :: int) ^ k \<le> 2 ^ 30" using k by (intro power_increasing) auto
  then have "(2 :: int) ^ k \<le> 1073741824" by simp
  moreover have "(0 :: int) \<le> 2 ^ k" by simp
  ultimately have "signed_take_bit 31 ((2 :: int) ^ k) = 2 ^ k"
    by (intro signed_take_bit_31_id) linarith+
  moreover have "(push_bit k 1 :: i32) = word_of_int (2 ^ k)" by (simp add: push_bit_eq_mult)
  moreover have "sint (word_of_int (2 ^ k) :: i32) = signed_take_bit 31 (2 ^ k)"
    by (simp only: sint_sbintrunc') simp
  ultimately show ?thesis by (simp only:)
qed

lemma power_digits:
  "nval (replicate n 0 @ [push_bit s 1]) = 2 ^ (32 * n + s)" if "s < 32"
proof -
  have z: "nval (replicate n 0) = 0" by (induction n) auto
  have "unat (push_bit s 1 :: u32) = 2 ^ s"
    using unat_pow2_u32 [OF that] by (simp add: push_bit_eq_mult)
  then show ?thesis by (simp add: nval_append z power_add power_mult)
qed

text \<open>The loop: \<open>b * pw ^ (p div bmask)\<close> stays the result.\<close>

lemma push_bit_1_u32: "unat (push_bit 1 (x :: u32)) = 2 * unat x mod 4294967296"
  using unat_push_bit_u32 [of 1 x] by (simp add: mult.commute)

lemma and_pow2_u32: "(push_bit k 1 AND p \<noteq> 0) \<longleftrightarrow> odd (unat p div 2 ^ k)" if "k < 32" for p :: u32
proof -
  have "(push_bit k 1 AND p \<noteq> 0) \<longleftrightarrow> bit p k"
    by (simp add: push_bit_eq_mult and.commute [of _ p] and_exp_eq_0_iff_not_bit)
  then show ?thesis using bit_unsigned_iff [of p k, where ?'a = nat] that by (simp add: bit_iff_odd)
qed

lemma power_bit_step:
  fixes x :: "'a::comm_monoid_mult"
  shows "(if odd (p div 2 ^ k) then x else 1) * (x * x) ^ (p div 2 ^ Suc k) = x ^ (p div 2 ^ k)"
proof -
  let ?d = "p div 2 ^ k :: nat"
  have h: "p div 2 ^ Suc k = ?d div 2" by (metis div_mult2_eq power_Suc2)
  have "(x * x) ^ (?d div 2) = x ^ (2 * (?d div 2))" by (simp add: power_mult power2_eq_square)
  then show ?thesis
    unfolding h using odd_two_times_div_two_succ [of ?d] by (cases "odd ?d") (simp_all flip: power_Suc)
qed

lemma mask_le_u32: "unat (push_bit k 1 :: u32) \<le> 2147483648"
proof (cases "k < 32")
  case True
  have "(2 :: nat) ^ k \<le> 2 ^ 31" using True by (intro power_increasing) auto
  then show ?thesis using unat_pow2_u32 [OF True] by (simp add: push_bit_eq_mult)
next
  case False
  then have "(4294967296 :: nat) dvd 2 ^ k" using le_imp_power_dvd [of 32 k "2 :: nat"] by simp
  then show ?thesis using unat_push_bit_u32 [of k 1] by (simp add: mod_eq_0_iff_dvd)
qed

lemma power_loop_correct:
  assumes "unat p < 2147483648" "k \<le> 31" "bmask = push_bit k 1" "wf_mpz pw" "wf_mpz b"
  shows "\<exists>c. power_loop p bmask pw b = Some c \<and> wf_mpz c \<and>
    mpz_val c = mpz_val b * mpz_val pw ^ (unat p div 2 ^ k)"
  using assms(2-)
proof (induction "31 - k" arbitrary: k bmask pw b)
  case (0 k)
  then have k: "k = 31" by simp
  have "unat bmask = 2147483648" using 0 k by (simp add: unat_push_bit_u32)
  then have "\<not> bmask \<le> p" using assms(1) by (simp add: word_le_nat_alt)
  moreover have "unat p div 2 ^ k = 0" using assms(1) k by simp
  ultimately show ?case using 0 by (subst power_loop.simps) simp
next
  case (Suc n k)
  have k: "k < 31" using Suc(2) by simp
  have um: "unat bmask = 2 ^ k" using Suc(4) k unat_pow2_u32 [of k] by (simp add: push_bit_eq_mult)
  show ?case
  proof (cases "bmask \<le> p")
    case False
    then have "unat p < 2 ^ k" using um by (simp add: word_le_nat_alt)
    then show ?thesis using Suc.prems False by (subst power_loop.simps) simp
  next
    case True
    let ?b = "if bmask AND p \<noteq> 0 then mpz_mul b pw else b"
    have bit: "(bmask AND p \<noteq> 0) \<longleftrightarrow> odd (unat p div 2 ^ k)"
      unfolding Suc(4) using k by (intro and_pow2_u32) simp
    note pp = mpz_mul_correct [OF Suc(5) Suc(5)] and bp = mpz_mul_correct [OF Suc(6) Suc(5)]
    have m: "push_bit 1 bmask = push_bit (Suc k) 1" using Suc(4) by simp
    have wb: "wf_mpz ?b" using bp Suc.prems by simp
    have "\<exists>c. power_loop p (push_bit 1 bmask) (mpz_mul pw pw) ?b = Some c \<and> wf_mpz c \<and>
        mpz_val c = mpz_val ?b * mpz_val (mpz_mul pw pw) ^ (unat p div 2 ^ Suc k)"
      using Suc(2) k by (intro Suc(1) m pp(1) wb) simp_all
    moreover have "mpz_val ?b * mpz_val (mpz_mul pw pw) ^ (unat p div 2 ^ Suc k) = mpz_val b * mpz_val pw ^ (unat p div 2 ^ k)"
    proof -
      have b: "mpz_val ?b = mpz_val b * (if odd (unat p div 2 ^ k) then mpz_val pw else 1)" using bit bp(2) by simp
      show ?thesis unfolding b pp(2) mult.assoc power_bit_step ..
    qed
    ultimately show ?thesis using True by (subst power_loop.simps) simp
  qed
qed

lemma mpz_power_two:
  fixes p :: u32
  assumes "31 \<le> p"
  shows "wf_mpz (Large 1 (replicate (unat p div 32) 0 @ [push_bit (unat p mod 32) 1]))"
    "mpz_val (Large 1 (replicate (unat p div 32) 0 @ [push_bit (unat p mod 32) 1])) = 2 ^ unat p"
proof -
  have s: "unat p mod 32 < 32" by simp
  have v: "nval (replicate (unat p div 32) 0 @ [push_bit (unat p mod 32) 1]) = 2 ^ unat p"
    using power_digits [OF s] by simp
  have "(2 :: nat) ^ 31 \<le> 2 ^ unat p" using assms by (intro power_increasing) (simp_all add: word_le_nat_alt)
  moreover have "(push_bit (unat p mod 32) 1 :: u32) \<noteq> 0"
    using unat_pow2_u32 [OF s] by (metis push_bit_eq_mult lambda_one unat_0 power_not_zero zero_neq_numeral)
  ultimately show "wf_mpz (Large 1 (replicate (unat p div 32) 0 @ [push_bit (unat p mod 32) 1]))"
    "mpz_val (Large 1 (replicate (unat p div 32) 0 @ [push_bit (unat p mod 32) 1])) = 2 ^ unat p"
    using v by simp_all
qed

lemma mpz_power_correct:
  assumes wf: "wf_mpz a" and p: "unat p < 2147483648 \<or> mpz_val a = 2" and nz: "mpz_val a \<noteq> 0 \<or> p \<noteq> 0"
  shows "\<exists>c. mpz_power a p = Some c \<and> wf_mpz c \<and> mpz_val c = mpz_val a ^ unat p"
proof (cases "mpz_val a = 2")
  case True
  then have a: "is_small a" "mpz_sign a = 2" using wf by (cases a; auto)+
  show ?thesis
  proof (cases "p < 31")
    case lt: True
    then have "unat p < 31" by (simp add: word_less_nat_alt)
    then show ?thesis using a lt True sint_pow2_i32 [of "unat p"] by (simp add: mpz_power_def)
  next
    case False
    then have "31 \<le> p" by simp
    from mpz_power_two [OF this] show ?thesis using a True False by (simp add: mpz_power_def Let_def)
  qed
next
  case False
  then have p': "unat p < 2147483648" using p by simp
  have n2: "\<not> (is_small a \<and> mpz_sign a = 2)" using False by (cases a) auto
  show ?thesis
  proof (cases "mpz_val a = 0 \<or> mpz_val a = 1")
    case True
    then have a: "is_small a" "mpz_sign a = mpz_val a" using wf by (cases a; auto)+
    moreover have "mpz_val a = 0 \<Longrightarrow> unat p \<noteq> 0" using nz by (simp add: unat_eq_0)
    ultimately show ?thesis using True n2 by (auto simp: mpz_power_def)
  next
    case F: False
    then have "mpz_power a p = power_loop p 1 a (set_int 1)"
      using n2 by (cases a) (simp_all add: mpz_power_def)
    moreover have "\<exists>c. power_loop p 1 a (set_int 1) = Some c \<and> wf_mpz c \<and>
        mpz_val c = mpz_val (set_int 1) * mpz_val a ^ (unat p div 2 ^ 0)"
      by (rule power_loop_correct [OF p']) (simp_all add: wf)
    ultimately show ?thesis by simp
  qed
qed

text \<open>
  An exponent with its highest bit set: the mask is shifted out before it exceeds the exponent, and the
  loop does not end.
\<close>

lemma power_loop_diverges:
  assumes "2147483648 \<le> unat p"
  shows "power_loop p (push_bit k 1) pw b = None"
proof -
  have "2147483648 \<le> unat q \<longrightarrow> \<not> (\<exists>k. bmask = push_bit k 1)" if "power_loop q bmask pw b = Some c" for q bmask pw b c
  proof (rule power_loop.raw_induct [OF _ that])
    fix loop :: "u32 \<Rightarrow> u32 \<Rightarrow> mpz \<Rightarrow> mpz \<Rightarrow> mpz option" and q bmask pw b c
    assume IH: "\<And>q bmask pw b c. loop q bmask pw b = Some c \<Longrightarrow> 2147483648 \<le> unat q \<longrightarrow> \<not> (\<exists>k. bmask = push_bit k 1)"
      and body: "(if bmask \<le> q then loop q (push_bit 1 bmask) (mpz_mul pw pw) (if bmask AND q \<noteq> 0 then mpz_mul b pw else b)
        else Some b) = Some c"
    show "2147483648 \<le> unat q \<longrightarrow> \<not> (\<exists>k. bmask = push_bit k 1)"
    proof (intro impI notI)
      assume q: "2147483648 \<le> unat q"
      assume "\<exists>k. bmask = push_bit k 1"
      then obtain k where k: "bmask = push_bit k 1" by blast
      have "bmask \<le> q" using q mask_le_u32 [of k] k by (simp add: word_le_nat_alt)
      then have "loop q (push_bit 1 bmask) (mpz_mul pw pw) (if bmask AND q \<noteq> 0 then mpz_mul b pw else b) = Some c"
        using body by simp
      from IH [OF this] show False using k q by (metis push_bit_push_bit)
    qed
  qed
  then show ?thesis using assms by (cases "power_loop p (push_bit k 1) pw b") blast+
qed

lemma mpz_power_diverges:
  assumes "wf_mpz a" "mpz_val a \<notin> {0, 1, 2}" "2147483648 \<le> unat p"
  shows "mpz_power a p = None"
  using power_loop_diverges [OF assms(3), of 0 a "set_int 1"] assms
  by (cases a) (auto simp: mpz_power_def)

section \<open>Roots\<close>

text \<open>What a bisection leaves: an exact root, or the least integer above it.\<close>

definition root_result :: "int \<Rightarrow> nat \<Rightarrow> int \<Rightarrow> bool \<Rightarrow> bool" where
  "root_result a n r exact = (if exact then r ^ n = a else (r - 1) ^ n < a \<and> a < r ^ n)"

lemma halve_between:
  assumes "l < u" "0 \<le> l \<or> u \<le> 0"
  shows "l \<le> div2k (u + l) 1 \<and> div2k (u + l) 1 \<le> u \<and>
    (div2k (u + l) 1 = l \<or> div2k (u + l) 1 = u \<longrightarrow> u = l + 1) \<and>
    (u = l + 1 \<longrightarrow> (0 \<le> l \<longrightarrow> div2k (u + l) 1 = l) \<and> (u \<le> 0 \<longrightarrow> div2k (u + l) 1 = u))"
proof -
  have "div2k (u + l) 1 = (if 0 \<le> u + l then (u + l) div 2 else - ((- (u + l)) div 2))"
    by (simp add: div2k_def sgn_if)
  then show ?thesis using assms by auto
qed

lemma root_loop_correct:
  assumes wf: "wf_mpz a" "wf_mpz lower" "wf_mpz upper" and n: "0 < unat n" "unat n < 2147483648"
    and inv: "mpz_val lower < mpz_val upper" "mpz_val lower ^ unat n \<le> mpz_val a" "mpz_val a \<le> mpz_val upper ^ unat n"
      "0 \<le> mpz_val lower \<and> mpz_val a < mpz_val upper ^ unat n \<or> mpz_val upper \<le> 0 \<and> mpz_val lower ^ unat n < mpz_val a"
  shows "\<exists>r exact. root_loop a n lower upper = Some (r, exact) \<and> wf_mpz r \<and> root_result (mpz_val a) (unat n) (mpz_val r) exact"
  using wf(2,3) inv
proof (induction "nat (mpz_val upper - mpz_val lower)" arbitrary: lower upper rule: less_induct)
  case less
  let ?mid = "machine_div2k (mpz_add upper lower) 1"
  note s = mpz_add_correct [OF less.prems(2,1)]
  have m: "wf_mpz ?mid" "mpz_val ?mid = div2k (mpz_val upper + mpz_val lower) 1"
    using machine_div2k_correct [OF s(1), of 1] s(2) by simp_all
  have nz: "n \<noteq> 0" using n by auto
  obtain mid_n where p: "mpz_power ?mid n = Some mid_n" "wf_mpz mid_n" "mpz_val mid_n = mpz_val ?mid ^ unat n"
    using mpz_power_correct [OF m(1), of n] n nz by blast
  have cmp: "mpz_eq mid_n a \<longleftrightarrow> mpz_val mid_n = mpz_val a" "mpz_lt mid_n a \<longleftrightarrow> mpz_val mid_n < mpz_val a"
    "mpz_eq ?mid lower \<longleftrightarrow> mpz_val ?mid = mpz_val lower" "mpz_eq ?mid upper \<longleftrightarrow> mpz_val ?mid = mpz_val upper"
    using mpz_compare_correct wf(1) p(2) m(1) less.prems(1,2) by blast+
  have sg: "0 \<le> mpz_val lower \<or> mpz_val upper \<le> 0" using less.prems(6) by blast
  note h = halve_between [OF less.prems(3) sg, folded m(2)]
  have unf: "root_loop a n lower upper =
      (if mpz_val mid_n = mpz_val a then Some (?mid, True)
       else if mpz_val ?mid = mpz_val lower \<or> mpz_val ?mid = mpz_val upper then Some (upper, False)
       else if mpz_val mid_n < mpz_val a then root_loop a n ?mid upper else root_loop a n lower ?mid)"
    by (subst root_loop.simps) (simp only: Let_def p(1) cmp Option.bind.bind_lunit)
  show ?case
  proof (cases "mpz_val mid_n = mpz_val a")
    case True
    then show ?thesis using unf m(1) p(3) by (auto simp: root_result_def)
  next
    case ne: False
    show ?thesis
    proof (cases "mpz_val ?mid = mpz_val lower \<or> mpz_val ?mid = mpz_val upper")
      case True
      then have g: "mpz_val upper = mpz_val lower + 1" using h by blast
      have "mpz_val lower ^ unat n < mpz_val a \<and> mpz_val a < mpz_val upper ^ unat n"
      proof (cases "0 \<le> mpz_val lower \<and> mpz_val a < mpz_val upper ^ unat n")
        case True
        then have "mpz_val ?mid = mpz_val lower" using h g by blast
        then show ?thesis using True ne less.prems(4) unfolding p(3) by simp
      next
        case False
        then have neg: "mpz_val upper \<le> 0" "mpz_val lower ^ unat n < mpz_val a" using less.prems(6) by blast+
        then have "mpz_val ?mid = mpz_val upper" using h g by blast
        then show ?thesis using neg ne less.prems(5) unfolding p(3) by simp
      qed
      then show ?thesis using unf ne True less.prems(2) g by (auto simp: root_result_def)
    next
      case False
      then have st: "mpz_val lower < mpz_val ?mid" "mpz_val ?mid < mpz_val upper" using h by linarith+
      show ?thesis
      proof (cases "mpz_val mid_n < mpz_val a")
        case True
        have "\<exists>r exact. root_loop a n ?mid upper = Some (r, exact) \<and> wf_mpz r \<and> root_result (mpz_val a) (unat n) (mpz_val r) exact"
          using st less.prems True p(3) m(1) by (intro less.hyps) auto
        then show ?thesis using unf ne False True by simp
      next
        case ge: False
        have "\<exists>r exact. root_loop a n lower ?mid = Some (r, exact) \<and> wf_mpz r \<and> root_result (mpz_val a) (unat n) (mpz_val r) exact"
          using st less.prems ge ne p(3) m(1) by (intro less.hyps) auto
        then show ?thesis using unf ne False ge by simp
      qed
    qed
  qed
qed

lemma pow2_ceil:
  assumes "0 < n"
  shows "k \<le> n * div_u k n"
proof -
  have k: "n * (k div n) + k mod n = k" by simp
  have "k mod n < n" using assms by simp
  then have "k \<le> n * (k div n) + n" using k by linarith
  then have "k \<le> n * (k div n + 1)" by (simp only: distrib_left mult_1_right)
  then show ?thesis using k unfolding div_u_def by (cases "k mod n = 0") auto
qed

lemma pow2_floor: "n * div_l k n \<le> k"
  by (simp add: div_l_def)

lemma two_power_bounds:
  fixes x :: int
  assumes n: "0 < n" and x: "2 ^ k \<le> x" "x < 2 ^ Suc k"
  shows "(2 ^ div_l k n) ^ n \<le> x" "x < (2 ^ div_u (k + 1) n) ^ n" "(2 :: int) ^ div_l k n < 2 ^ div_u (k + 1) n"
proof -
  have "(2 ^ div_l k n) ^ n = (2 :: int) ^ (n * div_l k n)" by (metis mult.commute power_mult)
  also have "\<dots> \<le> 2 ^ k" using pow2_floor by (intro power_increasing) auto
  finally show l: "(2 ^ div_l k n) ^ n \<le> x" using x(1) by linarith
  have "x < 2 ^ Suc k" by (rule x(2))
  also have "\<dots> \<le> 2 ^ (n * div_u (k + 1) n)" using pow2_ceil [OF n, of "k + 1"] by (intro power_increasing) auto
  also have "\<dots> = (2 ^ div_u (k + 1) n) ^ n" by (metis mult.commute power_mult)
  finally show u: "x < (2 ^ div_u (k + 1) n) ^ n" .
  show "(2 :: int) ^ div_l k n < 2 ^ div_u (k + 1) n"
  proof (rule power_less_imp_less_base)
    show "((2 :: int) ^ div_l k n) ^ n < (2 ^ div_u (k + 1) n) ^ n" using l u by linarith
  qed simp
qed

lemma mpz_two_power:
  assumes "k < 4294967296"
  shows "\<exists>c. mpz_power (set_int 2) (word_of_nat k) = Some c \<and> wf_mpz c \<and> mpz_val c = 2 ^ k"
proof -
  have "unat (word_of_nat k :: u32) = k" using assms by (simp add: unat_of_nat take_bit_nat_eq_self)
  then show ?thesis using mpz_power_correct [of "set_int 2" "word_of_nat k"] by simp
qed

lemma div_u_le:
  assumes "0 < n"
  shows "div_u k n \<le> k"
proof (cases "k mod n = 0")
  case True
  then show ?thesis by (simp add: div_u_def)
next
  case False
  then have "0 < k" by (cases k) auto
  moreover have "1 < n" using False assms by (cases "n = 1") auto
  ultimately have "k div n < k" by simp
  then show ?thesis using False by (simp add: div_u_def)
qed

lemma mpz_root_correct:
  assumes wf: "wf_mpz a" and n: "0 < unat n" "unat n < 2147483648"
    and odd: "mpz_val a < 0 \<Longrightarrow> odd (unat n)"
    and size: "mpz_bitsize a < 4294967296"
  shows "\<exists>r exact. mpz_root a n = Some (r, exact) \<and> wf_mpz r \<and> root_result (mpz_val a) (unat n) (mpz_val r) exact"
proof -
  consider "mpz_val a = 0" | "0 < mpz_val a" | "mpz_val a < 0" by linarith
  then show ?thesis
  proof cases
    case 1
    then show ?thesis using wf n by (auto simp: mpz_root_def mpz_sign_correct root_result_def)
  next
    case 2
    let ?k = "mpz_log2 a"
    note b = mpz_log2_correct [OF wf 2]
    have k: "?k < 4294967295"
      using size 2 wf by (simp add: mpz_bitsize_def mpz_sign_correct)
    note t = two_power_bounds [OF n(1) conjunct1 [OF b] conjunct2 [OF b]]
    obtain l where l: "mpz_power (set_int 2) (word_of_nat (div_l ?k (unat n))) = Some l" "wf_mpz l" "mpz_val l = 2 ^ div_l ?k (unat n)"
      using mpz_two_power [of "div_l ?k (unat n)"] k div_le_dividend [of ?k "unat n"] by (auto simp: div_l_def)
    obtain u where u: "mpz_power (set_int 2) (word_of_nat (div_u (?k + 1) (unat n))) = Some u" "wf_mpz u" "mpz_val u = 2 ^ div_u (?k + 1) (unat n)"
      using mpz_two_power [of "div_u (?k + 1) (unat n)"] k div_u_le [OF n(1), of "?k + 1"] by auto
    have ne: "\<not> mpz_eq l u" using mpz_compare_correct(1) [OF l(2) u(2)] l(3) u(3) t(3) by simp
    have "mpz_root a n = root_loop a n l u"
      using 2 wf l(1) u(1) ne by (simp add: mpz_root_def mpz_sign_correct)
    then show ?thesis
      using root_loop_correct [OF wf l(2) u(2) n] l(3) u(3) t by simp
  next
    case 3
    let ?k = "mpz_mlog2 a"
    note b = mpz_mlog2_correct [OF wf 3]
    have k: "?k < 4294967295"
      using size 3 wf by (simp add: mpz_bitsize_def mpz_sign_correct)
    note t = two_power_bounds [OF n(1) conjunct1 [OF b] conjunct2 [OF b]]
    obtain l where l: "mpz_power (set_int 2) (word_of_nat (div_u (?k + 1) (unat n))) = Some l" "wf_mpz l" "mpz_val l = 2 ^ div_u (?k + 1) (unat n)"
      using mpz_two_power [of "div_u (?k + 1) (unat n)"] k div_u_le [OF n(1), of "?k + 1"] by auto
    obtain u where u: "mpz_power (set_int 2) (word_of_nat (div_l ?k (unat n))) = Some u" "wf_mpz u" "mpz_val u = 2 ^ div_l ?k (unat n)"
      using mpz_two_power [of "div_l ?k (unat n)"] k div_le_dividend [of ?k "unat n"] by (auto simp: div_l_def)
    note nl = mpz_neg_correct [OF l(2)] and nu = mpz_neg_correct [OF u(2)]
    have ne: "\<not> mpz_eq (mpz_neg l) (mpz_neg u)"
      using mpz_compare_correct(1) [OF nl(1) nu(1)] nl(2) nu(2) l(3) u(3) t(3) by simp
    have "mpz_root a n = root_loop a n (mpz_neg l) (mpz_neg u)"
      using 3 wf l(1) u(1) ne by (simp add: mpz_root_def mpz_sign_correct)
    moreover have "(- x) ^ unat n = - (x ^ unat n)" for x :: int using odd [OF 3] by simp
    ultimately show ?thesis
      using root_loop_correct [OF wf nl(1) nu(1) n] l(3) u(3) nl(2) nu(2) t by simp
  qed
qed

section \<open>Perfect squares\<close>

lemma square_loop_correct:
  assumes wf: "wf_mpz a" "wf_mpz lo" "wf_mpz hi" "wf_mpz sq_lo" "wf_mpz sq_hi"
    and inv: "0 < mpz_val lo" "mpz_val lo < mpz_val hi" "mpz_val sq_lo = mpz_val lo ^ 2" "mpz_val sq_hi = mpz_val hi ^ 2"
      "mpz_val lo ^ 2 \<le> mpz_val a" "mpz_val a < mpz_val hi ^ 2"
  shows "\<exists>r exact. square_loop m a lo hi sq_lo sq_hi = Some (r, exact) \<and> wf_mpz r \<and> 0 < mpz_val r \<and> root_result (mpz_val a) 2 (mpz_val r) exact"
  using wf(2-5) inv
proof (induction "nat (mpz_val hi - mpz_val lo)" arbitrary: lo hi sq_lo sq_hi rule: less_induct)
  case less
  note l1 = mpz_add_correct [OF less.prems(1) set_int_correct(1) [of 1]]
  note s = mpz_add_correct [OF less.prems(2,1)]
  obtain mid r where m: "mpz_div m (mpz_add hi lo) (set_int 2) = Some mid" "wf_mpz mid"
    "mpz_val mid * 2 + mpz_val r = mpz_val hi + mpz_val lo" "0 \<le> mpz_val r" "mpz_val r < 2"
    using mpz_div_correct [OF s(1) set_int_correct(1) [of 2], of m] s(2) by auto
  note sq = mpz_mul_correct [OF m(2) m(2)]
  have cmp: "mpz_eq sq_lo a \<longleftrightarrow> mpz_val sq_lo = mpz_val a" "mpz_eq (mpz_add lo (set_int 1)) hi \<longleftrightarrow> mpz_val lo + 1 = mpz_val hi"
    "mpz_lt a (mpz_mul mid mid) \<longleftrightarrow> mpz_val a < mpz_val mid ^ 2"
    using mpz_compare_correct [OF less.prems(3) wf(1)] mpz_compare_correct [OF l1(1) less.prems(2)]
      mpz_compare_correct [OF wf(1) sq(1)] l1(2) sq(2) by (simp_all add: power2_eq_square)
  have unf: "square_loop m a lo hi sq_lo sq_hi =
      (if mpz_val sq_lo = mpz_val a then Some (lo, True)
       else if mpz_val lo + 1 = mpz_val hi then Some (hi, False)
       else if mpz_val a < mpz_val mid ^ 2 then square_loop m a lo mid sq_lo (mpz_mul mid mid)
       else square_loop m a mid hi (mpz_mul mid mid) sq_hi)"
    by (subst square_loop.simps) (simp only: Let_def m(1) cmp Option.bind.bind_lunit)
  show ?case
  proof (cases "mpz_val sq_lo = mpz_val a")
    case True
    then show ?thesis using unf less.prems by (auto simp: root_result_def)
  next
    case ne: False
    show ?thesis
    proof (cases "mpz_val lo + 1 = mpz_val hi")
      case True
      then have lo: "mpz_val hi - 1 = mpz_val lo" by linarith
      have "mpz_val lo ^ 2 < mpz_val a" using ne less.prems(7,9) by simp
      then show ?thesis using unf ne True less.prems lo by (auto simp: root_result_def)
    next
      case False
      then have st: "mpz_val lo < mpz_val mid" "mpz_val mid < mpz_val hi" using m(3-5) less.prems(6) by linarith+
      show ?thesis
      proof (cases "mpz_val a < mpz_val mid ^ 2")
        case True
        have "\<exists>r exact. square_loop m a lo mid sq_lo (mpz_mul mid mid) = Some (r, exact) \<and> wf_mpz r \<and> 0 < mpz_val r \<and>
            root_result (mpz_val a) 2 (mpz_val r) exact"
          by (rule less.hyps) (use st less.prems True m(2) sq in \<open>simp_all add: power2_eq_square\<close>)
        then show ?thesis using unf ne False True by simp
      next
        case ge: False
        have "\<exists>r exact. square_loop m a mid hi (mpz_mul mid mid) sq_hi = Some (r, exact) \<and> wf_mpz r \<and> 0 < mpz_val r \<and>
            root_result (mpz_val a) 2 (mpz_val r) exact"
          by (rule less.hyps) (use st less.prems ge m(2) sq in \<open>simp_all add: power2_eq_square\<close>)
        then show ?thesis using unf ne False ge by simp
      qed
    qed
  qed
qed

lemma is_perfect_square_correct:
  assumes wf: "wf_mpz a"
  shows "\<exists>r exact. is_perfect_square m a root = Some (r, exact) \<and> (exact \<longleftrightarrow> (\<exists>x. mpz_val a = x ^ 2)) \<and>
    (exact \<longrightarrow> 0 \<le> mpz_val r \<and> mpz_val r ^ 2 = mpz_val a)"
proof -
  consider "mpz_val a < 0" | "mpz_val a = 0" | "mpz_val a = 1" | "2 \<le> mpz_val a" by linarith
  then show ?thesis
  proof cases
    case 1
    then have "\<nexists>x. mpz_val a = x ^ 2" by (metis not_less zero_le_power2)
    then show ?thesis
      using 1 wf by (intro exI [of _ root] exI [of _ False]) (simp add: is_perfect_square_def mpz_sign_correct)
  next
    case 4
    have "is_perfect_square m a root = square_loop m a (set_int 1) a (set_int 1) (mpz_mul a a)"
      using 4 wf by (simp add: is_perfect_square_def mpz_sign_correct)
    moreover have "mpz_val a < mpz_val a ^ 2" using 4 by (simp add: power2_eq_square)
    then have "\<exists>r exact. square_loop m a (set_int 1) a (set_int 1) (mpz_mul a a) = Some (r, exact) \<and> wf_mpz r \<and> 0 < mpz_val r \<and>
        root_result (mpz_val a) 2 (mpz_val r) exact"
      using 4 mpz_mul_correct [OF wf wf]
      by (intro square_loop_correct) (simp_all add: wf power2_eq_square)
    ultimately obtain r exact where r: "is_perfect_square m a root = Some (r, exact)" "0 < mpz_val r"
      "root_result (mpz_val a) 2 (mpz_val r) exact" by auto
    have "\<nexists>x. mpz_val a = x ^ 2" if "\<not> exact"
    proof
      assume "\<exists>x. mpz_val a = x ^ 2"
      then obtain x where x: "mpz_val a = x ^ 2" by blast
      have "(mpz_val r - 1) ^ 2 < \<bar>x\<bar> ^ 2" "\<bar>x\<bar> ^ 2 < mpz_val r ^ 2" using r(3) that x by (simp_all add: root_result_def)
      then have "mpz_val r - 1 < \<bar>x\<bar>" "\<bar>x\<bar> < mpz_val r" using r(2) by (simp_all add: power2_less_imp_less)
      then show False by linarith
    qed
    moreover have "exact \<Longrightarrow> mpz_val r ^ 2 = mpz_val a" using r(3) by (simp add: root_result_def)
    ultimately show ?thesis using r(1,2) by (intro exI [of _ r] exI [of _ exact]) (metis less_imp_le)
  qed (use wf in \<open>auto simp: is_perfect_square_def mpz_sign_correct intro: exI [of _ 0] exI [of _ 1]\<close>)
qed

end
