(* ===== verification/MpzText.thy ===== *)
theory MpzText
  imports MpzAlgo
begin

text \<open>
  Decimal text: \<open>mpn_manager::to_string\<close>, which divides the digits by ten until nothing is left and then
  reverses the buffer in place, \<open>mpz_manager::display\<close>, and the parser \<open>mpz_manager::set(char const *)\<close>.
  Printing and parsing are inverse.
\<close>

section \<open>Definitions\<close>

definition digit_char :: "nat \<Rightarrow> char" where
  "digit_char n = char_of (48 + n)"

text \<open>Decimal output of an unsigned machine word, as the standard library prints it.\<close>

fun decimal :: "nat \<Rightarrow> string" where
  "decimal n = (if n < 10 then [digit_char n] else decimal (n div 10) @ [digit_char (n mod 10)])"

declare decimal.simps [simp del]

definition decimal_int :: "int \<Rightarrow> string" where
  "decimal_int x = (if x < 0 then CHR 0x2D # decimal (nat (- x)) else decimal (nat x))"

partial_function (option) to_string_loop :: "digits \<Rightarrow> string \<Rightarrow> string option" where
  "to_string_loop temp buf =
     (if temp \<noteq> [] \<and> (1 < length temp \<or> temp ! 0 \<noteq> 0) then
        (case div_normalize temp [10] (replicate (length temp + 1) 0) [0] of (d, t_numer, t_denom) \<Rightarrow>
          (case div_1 t_numer (t_denom ! 0) temp of (t_numer, temp) \<Rightarrow>
            to_string_loop (drop_zeros temp)
              (buf @ [char_of (48 + unat (div_unnormalize t_numer t_denom d ! 0))])))
      else Some buf)"

definition swap_ends :: "string \<Rightarrow> string" where
  "swap_ends buf =
     (let j = length buf - 1; mid = j div 2 + (if j mod 2 \<noteq> 0 then 1 else 0)
      in foldl (\<lambda>b i. b[i := b ! (j - i), j - i := b ! i]) buf [0..<mid])"

definition mpn_to_string :: "digits \<Rightarrow> string option" where
  "mpn_to_string a =
     (if length a = 1 then Some (decimal (unat (a ! 0))) else map_option swap_ends (to_string_loop a []))"

fun mpz_to_string :: "mpz \<Rightarrow> string option" where
  "mpz_to_string (Small v) = Some (decimal_int (sint v))"
| "mpz_to_string (Large s ds) = map_option (\<lambda>str. (if s < 0 then CHR 0x2D # str else str)) (mpn_to_string ds)"

text \<open>The parser skips leading blanks, looks for a sign and then takes every decimal digit it meets.\<close>

primrec parse_digits :: "mpz \<Rightarrow> string \<Rightarrow> mpz" where
  "parse_digits a [] = a"
| "parse_digits a (c # str) =
     (if 48 \<le> (of_char c :: nat) \<and> (of_char c :: nat) \<le> 57
      then parse_digits (mpz_add (mpz_mul a (set_int 10)) (set_int (word_of_nat (of_char c - 48)))) str
      else parse_digits a str)"

definition mpz_of_string :: "string \<Rightarrow> mpz" where
  "mpz_of_string val =
     (let str = dropWhile (\<lambda>c. c = CHR 0x20) val;
          sign = (str \<noteq> [] \<and> hd str = CHR 0x2D);
          a = parse_digits (set_int 0) str
      in if sign then mpz_neg a else a)"

section \<open>Decimal strings\<close>

definition is_digit :: "char \<Rightarrow> bool" where
  "is_digit c = (48 \<le> (of_char c :: nat) \<and> (of_char c :: nat) \<le> 57)"

primrec horner10 :: "int \<Rightarrow> string \<Rightarrow> int" where
  "horner10 n [] = n"
| "horner10 n (c # str) = horner10 (10 * n + int (of_char c - 48)) str"

lemma horner10_append: "horner10 n (s @ t) = horner10 (horner10 n s) t"
  by (induction s arbitrary: n) auto

lemma digit_char [simp]: "n < 10 \<Longrightarrow> is_digit (digit_char n)" "n < 10 \<Longrightarrow> (of_char (digit_char n) :: nat) = 48 + n"
  by (simp_all add: is_digit_def digit_char_def of_char_of)

lemma decimal_correct: "horner10 0 (decimal n) = int n \<and> (\<forall>c \<in> set (decimal n). is_digit c) \<and> decimal n \<noteq> []"
proof (induction n rule: decimal.induct)
  case (1 n)
  show ?case
  proof (cases "n < 10")
    case True
    then show ?thesis by (simp add: decimal.simps)
  next
    case False
    have "10 * int (n div 10) + int (n mod 10) = int n" by (metis mult_div_mod_eq of_nat_add of_nat_mult of_nat_numeral)
    then show ?thesis using 1 False by (subst (1 2 3) decimal.simps) (auto simp: horner10_append)
  qed
qed

lemma not_digit: "\<not> is_digit CHR 0x2D" "\<not> is_digit CHR 0x20"
  by (simp_all add: is_digit_def)

lemma parse_digits_correct:
  assumes "wf_mpz a"
  shows "wf_mpz (parse_digits a str) \<and> mpz_val (parse_digits a str) = horner10 (mpz_val a) (filter is_digit str)"
  using assms
proof (induction str arbitrary: a)
  case (Cons c str)
  show ?case
  proof (cases "is_digit c")
    case True
    let ?d = "set_int (word_of_nat (of_char c - 48))"
    have "of_char c - 48 < (10 :: nat)" using True by (auto simp: is_digit_def)
    then have d: "mpz_val ?d = int (of_char c - 48)"
      by (simp add: set_int_def signed_of_nat signed_take_bit_31_id)
    have ten: "mpz_val (set_int 10) = 10" by (simp add: set_int_def)
    note m = mpz_mul_correct [OF Cons.prems set_int_correct(1) [of 10]]
    note s = mpz_add_correct [OF m(1) set_int_correct(1) [of "word_of_nat (of_char c - 48)"]]
    show ?thesis
      using True Cons.IH [OF s(1)] unfolding s(2) m(2) d ten by (simp add: is_digit_def mult.commute)
  next
    case False
    then show ?thesis using Cons by (auto simp: is_digit_def)
  qed
qed simp

text \<open>The parser reads the decimal value of all digits of the text, negated after a minus sign.\<close>

lemma mpz_of_string_correct:
  "wf_mpz (mpz_of_string str)"
  "mpz_val (mpz_of_string str) =
     (if take 1 (dropWhile (\<lambda>c. c = CHR 0x20) str) = [CHR 0x2D] then - 1 else 1) * horner10 0 (filter is_digit str)"
proof -
  let ?s = "dropWhile (\<lambda>c. c = CHR 0x20) str"
  have f: "filter is_digit ?s = filter is_digit str"
  proof -
    have "filter is_digit (takeWhile (\<lambda>c. c = CHR 0x20) str) = []"
      using not_digit by (auto simp: filter_empty_conv dest: set_takeWhileD)
    moreover have "filter is_digit str = filter is_digit (takeWhile (\<lambda>c. c = CHR 0x20) str @ ?s)"
      by (simp only: takeWhile_dropWhile_id)
    ultimately show ?thesis by (simp only: filter_append) simp
  qed
  have p: "wf_mpz (parse_digits (set_int 0) ?s)" "mpz_val (parse_digits (set_int 0) ?s) = horner10 0 (filter is_digit str)"
    using parse_digits_correct [of "set_int 0" ?s] f by simp_all
  have h: "take 1 t = [c] \<longleftrightarrow> t \<noteq> [] \<and> hd t = c" for t and c :: char by (cases t) auto
  show "wf_mpz (mpz_of_string str)"
    "mpz_val (mpz_of_string str) = (if take 1 ?s = [CHR 0x2D] then - 1 else 1) * horner10 0 (filter is_digit str)"
    unfolding mpz_of_string_def Let_def h using p mpz_neg_correct [OF p(1)] by simp_all
qed

lemma parse_decimal:
  "mpz_val (mpz_of_string (decimal_int x)) = x"
proof -
  have dw: "dropWhile (\<lambda>c. c = CHR 0x20) (decimal n) = decimal n" for n
    using decimal_correct [of n] not_digit(2) by (cases "decimal n") auto
  have fl: "filter is_digit (decimal n) = decimal n" for n using decimal_correct [of n] by simp
  have hd: "take (Suc 0) (decimal n) \<noteq> [CHR 0x2D]" for n
    using decimal_correct [of n] not_digit(1) by (cases "decimal n") auto
  show ?thesis
    using decimal_correct not_digit
    by (cases "x < 0") (simp_all add: mpz_of_string_correct(2) decimal_int_def dw fl hd)
qed

section \<open>Printing\<close>

lemma swap_prefix:
  assumes "k \<le> length buf div 2"
  shows "foldl (\<lambda>b i. b[i := b ! (length buf - 1 - i), length buf - 1 - i := b ! i]) buf [0..<k] =
    map (\<lambda>i. if i < k \<or> length buf - 1 - k < i then buf ! (length buf - 1 - i) else buf ! i) [0..<length buf]"
  using assms
proof (induction k)
  case 0
  then show ?case by (intro nth_equalityI) auto
next
  case (Suc k)
  let ?n = "length buf"
  let ?m = "map (\<lambda>i. if i < k \<or> ?n - 1 - k < i then buf ! (?n - 1 - i) else buf ! i) [0..<?n]"
  have k: "k < ?n" "?n - 1 - k < ?n" "k < ?n - 1 - k" using Suc.prems by auto
  have e: "foldl (\<lambda>b i. b[i := b ! (?n - 1 - i), ?n - 1 - i := b ! i]) buf [0..<Suc k] =
      ?m[k := buf ! (?n - 1 - k), ?n - 1 - k := buf ! k]"
    using Suc.IH Suc.prems k by simp
  show ?case
    unfolding e using k by (intro nth_equalityI) (auto simp: nth_list_update)
qed

lemma half_steps: "(n - 1) div 2 + (if (n - 1) mod 2 \<noteq> 0 then 1 else 0) = n div (2 :: nat)"
proof (cases n)
  case (Suc k)
  have e: "k mod 2 = 0 \<Longrightarrow> k div 2 = Suc k div 2" and o: "k mod 2 \<noteq> 0 \<Longrightarrow> k div 2 + 1 = Suc k div 2" by presburger+
  show ?thesis
  proof (cases "k mod 2 = 0")
    case True
    show ?thesis using e [OF True] True by (simp only: Suc diff_Suc_1 if_False simp_thms add_0_right)
  next
    case False
    show ?thesis using o [OF False] False by (simp only: Suc diff_Suc_1 if_True simp_thms)
  qed
qed simp

lemma swap_ends_rev: "swap_ends buf = rev buf"
proof -
  let ?j = "length buf - 1"
  have mid: "?j div 2 + (if ?j mod 2 \<noteq> 0 then 1 else 0) = length buf div 2"
    by (rule half_steps)
  have "map (\<lambda>i. if i < length buf div 2 \<or> ?j - length buf div 2 < i then buf ! (?j - i) else buf ! i) [0..<length buf] = rev buf"
  proof (rule nth_equalityI)
    fix i assume "i < length (map (\<lambda>i. if i < length buf div 2 \<or> ?j - length buf div 2 < i then buf ! (?j - i) else buf ! i) [0..<length buf])"
    then have i: "i < length buf" by simp
    have m: "\<not> (i < length buf div 2 \<or> ?j - length buf div 2 < i) \<Longrightarrow> ?j - i = i"
    proof -
      assume ni: "\<not> (i < length buf div 2 \<or> ?j - length buf div 2 < i)"
      have "length buf mod 2 = 0 \<or> length buf mod 2 = 1" by linarith
      then have "length buf = 2 * (length buf div 2) \<or> length buf = 2 * (length buf div 2) + 1"
        using mult_div_mod_eq [of 2 "length buf"] by linarith
      then show "?j - i = i" using ni i by linarith
    qed
    have v: "(if i < length buf div 2 \<or> ?j - length buf div 2 < i then buf ! (?j - i) else buf ! i) = buf ! (?j - i)"
    proof (cases "i < length buf div 2 \<or> ?j - length buf div 2 < i")
      case False
      show ?thesis unfolding m [OF False] by simp
    qed simp
    show "map (\<lambda>i. if i < length buf div 2 \<or> ?j - length buf div 2 < i then buf ! (?j - i) else buf ! i) [0..<length buf] ! i = rev buf ! i"
      using i v by (simp only: nth_map length_upt nth_upt add_0 diff_zero rev_nth) simp
  qed simp
  then show ?thesis
    unfolding swap_ends_def Let_def mid using swap_prefix [of "length buf div 2" buf] by simp
qed

lemma to_string_step:
  assumes "temp \<noteq> []"
    and n: "div_normalize temp [10] nb db = (d, t_numer, t_denom)"
    and q: "div_1 t_numer (t_denom ! 0) temp = (t_numer', temp')"
  shows "length temp' = length temp" "nval temp' = nval temp div 10"
    "unat (div_unnormalize t_numer' t_denom d ! 0) = nval temp mod 10"
proof -
  have l: "length t_denom = 1" using div_normalize_correct [OF assms(1), of "[10]" nb db] n by simp
  have c: "div_core new_manager t_numer t_denom temp = (t_numer', temp', [], [])"
    using l q by (simp add: div_core_def new_manager_def)
  have len: "length [10 :: u32] \<le> length temp" "length temp = length temp - length [10 :: u32] + 1"
    using assms(1) by (cases temp; simp)+
  from div_normalized_correct [OF assms(1) _ _ len n c]
  have D: "length temp' = length temp" "nval temp' = nval temp div 10"
      "length (div_unnormalize t_numer' t_denom d) = 1" "nval (div_unnormalize t_numer' t_denom d) = nval temp mod 10"
    by simp_all
  then show "length temp' = length temp" "nval temp' = nval temp div 10" by blast+
  have one: "zs = [zs ! 0]" if "length zs = 1" for zs :: digits using that by (cases zs) auto
  have "nval [div_unnormalize t_numer' t_denom d ! 0] = nval temp mod 10"
    using D(4) one [OF D(3)] by metis
  then show "unat (div_unnormalize t_numer' t_denom d ! 0) = nval temp mod 10" by simp
qed

lemma nval_zero_digits:
  assumes "temp = [] \<or> last temp \<noteq> 0"
  shows "nval temp = 0 \<longleftrightarrow> temp = []"
proof (cases "temp = []")
  case False
  then have "0 < unat (last temp)" using assms by (simp add: unat_gt_0)
  then show ?thesis using nval_last [OF False] False by simp
qed simp

lemma to_string_loop_correct:
  assumes "temp = [] \<or> last temp \<noteq> 0"
  shows "to_string_loop temp buf = Some (buf @ (if nval temp = 0 then [] else rev (decimal (nval temp))))"
  using assms
proof (induction "nval temp" arbitrary: temp buf rule: less_induct)
  case less
  note z = nval_zero_digits [OF less.prems]
  have c: "(temp \<noteq> [] \<and> (1 < length temp \<or> temp ! 0 \<noteq> 0)) \<longleftrightarrow> nval temp \<noteq> 0"
    using z less.prems by (cases temp) auto
  show ?case
  proof (cases "nval temp = 0")
    case True
    then have "to_string_loop temp buf = Some buf" using c by (subst to_string_loop.simps) (simp only: if_False simp_thms)
    then show ?thesis using True by simp
  next
    case False
    then have ne: "temp \<noteq> []" using z by simp
    obtain d t_numer t_denom where n: "div_normalize temp [10] (replicate (length temp + 1) 0) [0] = (d, t_numer, t_denom)"
      by (metis prod_cases3)
    obtain t_numer' temp' where q: "div_1 t_numer (t_denom ! 0) temp = (t_numer', temp')" by fastforce
    note st = to_string_step [OF ne n q]
    have rem: "char_of (48 + unat (div_unnormalize t_numer' t_denom d ! 0)) = digit_char (nval temp mod 10)"
      by (simp add: digit_char_def st(3))
    have v: "nval (drop_zeros temp') = nval temp div 10" by (simp add: st(2))
    have "to_string_loop temp buf = to_string_loop (drop_zeros temp') (buf @ [digit_char (nval temp mod 10)])"
      using c False n q rem by (subst to_string_loop.simps) simp
    also have "\<dots> = Some ((buf @ [digit_char (nval temp mod 10)]) @
        (if nval (drop_zeros temp') = 0 then [] else rev (decimal (nval (drop_zeros temp')))))"
      using False v last_drop_zeros by (intro less.hyps) auto
    also have "\<dots> = Some (buf @ rev (decimal (nval temp)))"
      unfolding v using False by (subst (2) decimal.simps) auto
    finally show ?thesis using False by simp
  qed
qed

lemma mpn_to_string_correct:
  assumes "ds \<noteq> []" "last ds \<noteq> 0"
  shows "mpn_to_string ds = Some (decimal (nval ds))"
proof (cases "length ds = 1")
  case True
  then obtain d where "ds = [d]" by (cases ds) auto
  then show ?thesis by (simp add: mpn_to_string_def)
next
  case False
  have "nval ds \<noteq> 0" using nval_zero_digits [of ds] assms by simp
  then show ?thesis
    using to_string_loop_correct [of ds "[]"] assms False by (simp add: mpn_to_string_def swap_ends_rev)
qed

lemma mpz_to_string_correct:
  assumes "wf_mpz a"
  shows "mpz_to_string a = Some (decimal_int (mpz_val a))"
proof (cases a)
  case (Large s ds)
  then have "0 < nval ds" "s = 1 \<or> s = - 1" using assms by auto
  then show ?thesis using Large assms mpn_to_string_correct [of ds] by (auto simp: decimal_int_def)
qed simp

text \<open>Reading back what was printed gives the number.\<close>

lemma parse_print:
  assumes "wf_mpz a"
  shows "map_option (\<lambda>str. mpz_val (mpz_of_string str)) (mpz_to_string a) = Some (mpz_val a)"
  using mpz_to_string_correct [OF assms] parse_decimal by simp

end
