(* ===== verification/MpzBitwise.thy ===== *)
theory MpzBitwise
  imports MpzAlgo
begin

text \<open>
  The bitwise operations of util/mpz.cpp on non-negative numbers. Large numbers are taken apart into
  64-bit chunks; a locale states what makes a chunk operation compute an operation on all integers, and
  its loop is proved once.
\<close>

section \<open>Definitions\<close>

definition two64 :: mpz where
  "two64 = mpz_add (set_uint64 (- 1)) (set_int 1)"

text \<open>The loop that the three binary operations share, with what is left of the operands.\<close>

partial_function (option) chunk_loop ::
  "(u64 \<Rightarrow> u64 \<Rightarrow> u64) \<Rightarrow> mpn_manager \<Rightarrow> mpz \<Rightarrow> mpz \<Rightarrow> mpz \<Rightarrow> mpz \<Rightarrow> (mpz \<times> mpz \<times> mpz \<times> mpz) option" where
  "chunk_loop f m a1 b1 mm c =
     (if \<not> mpz_is_zero a1 \<and> \<not> mpz_is_zero b1 then
        do {
          a2 \<leftarrow> mpz_mod m a1 two64;
          b2 \<leftarrow> mpz_mod m b1 two64;
          let v = f (get_uint64 a2) (get_uint64 b2);
          a1' \<leftarrow> mpz_div m a1 two64;
          b1' \<leftarrow> mpz_div m b1 two64;
          chunk_loop f m a1' b1' (mpz_mul mm two64) (mpz_add c (mpz_mul (set_uint64 v) mm))
        }
      else Some (a1, b1, mm, c))"

definition add_rest :: "mpz \<Rightarrow> mpz \<Rightarrow> mpz \<Rightarrow> mpz" where
  "add_rest c a1 mm = (if \<not> mpz_is_zero a1 then mpz_add c (mpz_mul a1 mm) else c)"

definition bitwise_or :: "mpn_manager \<Rightarrow> mpz \<Rightarrow> mpz \<Rightarrow> mpz option" where
  "bitwise_or m a b =
     (case (a, b) of
        (Small v, Small w) \<Rightarrow> Some (Small (v OR w))
      | _ \<Rightarrow> do {
          (a1, b1, mm, c) \<leftarrow> chunk_loop (OR) m a b (set_int 1) (set_int 0);
          Some (add_rest (add_rest c a1 mm) b1 mm)
        })"

definition bitwise_and :: "mpn_manager \<Rightarrow> mpz \<Rightarrow> mpz \<Rightarrow> mpz option" where
  "bitwise_and m a b =
     (case (a, b) of
        (Small v, Small w) \<Rightarrow> Some (Small (v AND w))
      | _ \<Rightarrow> do {
          (a1, b1, mm, c) \<leftarrow> chunk_loop (AND) m a b (set_int 1) (set_int 0);
          Some c
        })"

definition bitwise_xor :: "mpn_manager \<Rightarrow> mpz \<Rightarrow> mpz \<Rightarrow> mpz option" where
  "bitwise_xor m a b =
     (if is_small a \<and> is_small b then Some (set_i64 (i64_of a XOR i64_of b))
      else do {
          (a1, b1, mm, c) \<leftarrow> chunk_loop (XOR) m a b (set_int 1) (set_int 0);
          Some (add_rest (add_rest c a1 mm) b1 mm)
        })"

function not_loop :: "mpn_manager \<Rightarrow> nat \<Rightarrow> mpz \<Rightarrow> mpz \<Rightarrow> mpz \<Rightarrow> mpz option" where
  "not_loop m sz a1 mm c =
     (if 0 < sz then
        do {
          a2 \<leftarrow> mpz_mod m a1 two64;
          let v = NOT (get_uint64 a2);
          let v = (if sz < 64 then (push_bit sz 1 - 1) AND v else v);
          a1' \<leftarrow> mpz_div m a1 two64;
          not_loop m (sz - (if sz < 64 then sz else 64)) a1' (mpz_mul mm two64) (mpz_add c (mpz_mul (set_uint64 v) mm))
        }
      else Some c)"
  by pat_completeness auto
termination by (relation "measure (\<lambda>(m, sz, a1, mm, c). sz)") auto

declare not_loop.simps [simp del]

definition bitwise_not :: "mpn_manager \<Rightarrow> nat \<Rightarrow> mpz \<Rightarrow> mpz option" where
  "bitwise_not m sz a =
     (if is_small a \<and> sz \<le> 63 then Some (set_i64 (NOT (i64_of a) AND (push_bit sz 1 - 1)))
      else not_loop m sz a (set_int 1) (set_int 0))"

section \<open>Chunks\<close>

lemma set_uint64_correct: "wf_mpz (set_uint64 v)" "mpz_val (set_uint64 v) = uint v"
proof -
  have "wf_mpz (set_uint64 v) \<and> mpz_val (set_uint64 v) = uint v"
  proof (cases "v < 2147483647")
    case True
    then have u: "uint v < 2147483647" by (simp add: word_less_def)
    have "sint (ucast v :: i32) = signed_take_bit 31 (uint v)" by (simp add: signed_ucast_eq)
    also have "\<dots> = uint v" using u uint_ge_0 [of v] by (intro signed_take_bit_31_id) linarith+
    finally show ?thesis using True by (simp add: set_uint64_def)
  next
    case False
    then show ?thesis using set_big_ui64_correct [of v] by (simp add: set_uint64_def)
  qed
  then show "wf_mpz (set_uint64 v)" "mpz_val (set_uint64 v) = uint v" by blast+
qed

lemma two64_correct: "wf_mpz two64" "mpz_val two64 = 18446744073709551616"
  using mpz_add_correct [OF set_uint64_correct(1) set_int_correct(1), of "- 1" 1] set_uint64_correct(2) [of "- 1"]
  by (simp_all add: two64_def unsigned_minus_1_eq_mask mask_eq_exp_minus_1)

lemma mod_div_two64:
  assumes "wf_mpz a" "0 \<le> mpz_val a"
  shows "\<exists>r q. mpz_mod m a two64 = Some r \<and> mpz_div m a two64 = Some q \<and> wf_mpz q \<and>
    uint (get_uint64 r) = mpz_val a mod 18446744073709551616 \<and> mpz_val q = mpz_val a div 18446744073709551616"
proof -
  obtain q r where qr: "mpz_div m a two64 = Some q" "mpz_mod m a two64 = Some r" "wf_mpz q" "wf_mpz r"
      "mpz_val q * mpz_val two64 + mpz_val r = mpz_val a" "0 \<le> mpz_val r" "mpz_val r < \<bar>mpz_val two64\<bar>"
    using mpz_div_correct [OF assms(1) two64_correct(1), of m] two64_correct(2) by auto
  have e: "mpz_val q * 18446744073709551616 + mpz_val r = mpz_val a" "mpz_val r < 18446744073709551616"
    using qr(5,7) by (simp_all add: two64_correct(2))
  have r: "mpz_val r = mpz_val a mod 18446744073709551616" and q: "mpz_val q = mpz_val a div 18446744073709551616"
    using e qr(6) by (simp_all flip: e(1))
  have "is_uint64 r" using is_uint64_correct(1) [OF qr(4)] qr(6) e(2) by simp
  then have "uint (get_uint64 r) = mpz_val r" by (rule is_uint64_correct(2) [OF qr(4)])
  then show ?thesis using qr(1-3) r q by auto
qed

lemma nonneg_div: "0 \<le> x \<Longrightarrow> 0 \<le> (x :: int) div 18446744073709551616"
  by (simp add: pos_imp_zdiv_nonneg_iff)

text \<open>A chunk operation \<open>f\<close> that computes \<open>F\<close>: the low chunk by \<open>f\<close>, the rest by recursion.\<close>

locale chunk_operation =
  fixes f :: "u64 \<Rightarrow> u64 \<Rightarrow> u64" and F :: "int \<Rightarrow> int \<Rightarrow> int"
  assumes chunk: "\<lbrakk>0 \<le> x; 0 \<le> y; uint v = x mod 18446744073709551616; uint w = y mod 18446744073709551616\<rbrakk> \<Longrightarrow>
    F x y = uint (f v w) + 18446744073709551616 * F (x div 18446744073709551616) (y div 18446744073709551616)"
begin

lemma chunk_loop_correct:
  assumes "wf_mpz a" "wf_mpz b" "wf_mpz mm" "wf_mpz c" "0 \<le> mpz_val a" "0 \<le> mpz_val b"
  shows "\<exists>a' b' mm' c'. chunk_loop f m a b mm c = Some (a', b', mm', c') \<and>
    wf_mpz a' \<and> wf_mpz b' \<and> wf_mpz mm' \<and> wf_mpz c' \<and> (mpz_val a' = 0 \<or> mpz_val b' = 0) \<and>
    0 \<le> mpz_val a' \<and> 0 \<le> mpz_val b' \<and>
    mpz_val c' + mpz_val mm' * F (mpz_val a') (mpz_val b') = mpz_val c + mpz_val mm * F (mpz_val a) (mpz_val b)"
  using assms
proof (induction "nat (mpz_val a)" arbitrary: a b mm c rule: less_induct)
  case less
  show ?case
  proof (cases "mpz_val a = 0 \<or> mpz_val b = 0")
    case True
    then have "chunk_loop f m a b mm c = Some (a, b, mm, c)"
      using less.prems by (subst chunk_loop.simps) (auto simp: mpz_sign_correct)
    then show ?thesis using less.prems True by simp
  next
    case False
    obtain a2 a1 where a: "mpz_mod m a two64 = Some a2" "mpz_div m a two64 = Some a1" "wf_mpz a1"
      "uint (get_uint64 a2) = mpz_val a mod 18446744073709551616" "mpz_val a1 = mpz_val a div 18446744073709551616"
      using mod_div_two64 [OF less.prems(1,5), of m] by blast
    obtain b2 b1 where b: "mpz_mod m b two64 = Some b2" "mpz_div m b two64 = Some b1" "wf_mpz b1"
      "uint (get_uint64 b2) = mpz_val b mod 18446744073709551616" "mpz_val b1 = mpz_val b div 18446744073709551616"
      using mod_div_two64 [OF less.prems(2,6), of m] by blast
    let ?v = "f (get_uint64 a2) (get_uint64 b2)"
    note vm = mpz_mul_correct [OF set_uint64_correct(1) less.prems(3), of ?v]
    note c' = mpz_add_correct [OF less.prems(4) vm(1)]
    note mm' = mpz_mul_correct [OF less.prems(3) two64_correct(1)]
    have nn: "0 \<le> mpz_val a1" "0 \<le> mpz_val b1" unfolding a(5) b(5) using nonneg_div less.prems(5,6) by blast+
    have lt: "nat (mpz_val a1) < nat (mpz_val a)"
    proof -
      have "0 < mpz_val a" using False less.prems(5) by linarith
      then have "mpz_val a div 18446744073709551616 < mpz_val a" by (intro int_div_less_self) simp_all
      then show ?thesis unfolding a(5) using \<open>0 < mpz_val a\<close> by simp
    qed
    note ch = chunk [OF less.prems(5,6) a(4) b(4), folded a(5) b(5)]
    have step: "chunk_loop f m a b mm c = chunk_loop f m a1 b1 (mpz_mul mm two64) (mpz_add c (mpz_mul (set_uint64 ?v) mm))"
      using False less.prems a(1,2) b(1,2) by (subst chunk_loop.simps) (simp add: mpz_sign_correct Let_def)
    have val: "mpz_val (mpz_add c (mpz_mul (set_uint64 ?v) mm)) + mpz_val (mpz_mul mm two64) * F (mpz_val a1) (mpz_val b1) =
        mpz_val c + mpz_val mm * F (mpz_val a) (mpz_val b)"
      unfolding c'(2) vm(2) mm'(2) set_uint64_correct(2) two64_correct(2) ch by (simp add: algebra_simps)
    show ?thesis
      unfolding step val [symmetric]
      by (rule less.hyps [OF lt a(3) b(3) mm'(1) c'(1) nn])
  qed
qed

end

lemma split_two64: "(x :: int) = take_bit 64 x + 18446744073709551616 * drop_bit 64 x"
  using bits_ident [of 64 x] by (simp add: push_bit_eq_mult)

lemma chunk_bits: "x mod 18446744073709551616 = take_bit 64 x" "x div 18446744073709551616 = drop_bit 64 (x :: int)"
  by (simp_all add: take_bit_eq_mod drop_bit_eq_div)

interpretation or64: chunk_operation "(OR)" "(OR)"
proof
  fix x y :: int and v w :: u64
  assume "0 \<le> x" "0 \<le> y" "uint v = x mod 18446744073709551616" "uint w = y mod 18446744073709551616"
  then show "x OR y = uint (v OR w) + 18446744073709551616 * (x div 18446744073709551616 OR y div 18446744073709551616)"
    using split_two64 [of "x OR y"] by (simp add: chunk_bits uint_or drop_bit_or)
qed

interpretation and64: chunk_operation "(AND)" "(AND)"
proof
  fix x y :: int and v w :: u64
  assume "0 \<le> x" "0 \<le> y" "uint v = x mod 18446744073709551616" "uint w = y mod 18446744073709551616"
  then show "x AND y = uint (v AND w) + 18446744073709551616 * (x div 18446744073709551616 AND y div 18446744073709551616)"
    using split_two64 [of "x AND y"] by (simp add: chunk_bits uint_and drop_bit_and)
qed

interpretation xor64: chunk_operation "(XOR)" "(XOR)"
proof
  fix x y :: int and v w :: u64
  assume "0 \<le> x" "0 \<le> y" "uint v = x mod 18446744073709551616" "uint w = y mod 18446744073709551616"
  then show "x XOR y = uint (v XOR w) + 18446744073709551616 * (x div 18446744073709551616 XOR y div 18446744073709551616)"
    using split_two64 [of "x XOR y"] by (simp add: chunk_bits uint_xor drop_bit_xor)
qed

section \<open>Correctness\<close>

lemma add_rest_correct:
  assumes "wf_mpz c" "wf_mpz a1" "wf_mpz mm"
  shows "wf_mpz (add_rest c a1 mm)" "mpz_val (add_rest c a1 mm) = mpz_val c + mpz_val mm * mpz_val a1"
  using mpz_mul_correct [OF assms(2,3)] mpz_add_correct [OF assms(1), of "mpz_mul a1 mm"] assms
  by (auto simp: add_rest_def mpz_sign_correct)

text \<open>Two small operands: the bits of the signed words are those of the integers.\<close>

lemma sint_bit_ops:
  "sint (v OR w) = sint v OR sint w" "sint (v AND w) = sint v AND sint w" "sint (v XOR w) = sint v XOR sint w"
  by (simp_all add: signed_or_eq signed_and_eq signed_xor_eq)

lemma bitwise_or_correct:
  assumes "wf_mpz a" "wf_mpz b" "0 \<le> mpz_val a" "0 \<le> mpz_val b"
  shows "\<exists>c. bitwise_or m a b = Some c \<and> wf_mpz c \<and> mpz_val c = mpz_val a OR mpz_val b"
proof (cases "is_small a \<and> is_small b")
  case True
  then obtain v w where "a = Small v" "b = Small w" by (cases a; cases b) auto
  then show ?thesis by (simp add: bitwise_or_def sint_bit_ops)
next
  case False
  obtain a' b' mm c where l: "chunk_loop (OR) m a b (set_int 1) (set_int 0) = Some (a', b', mm, c)"
      "wf_mpz a'" "wf_mpz b'" "wf_mpz mm" "wf_mpz c" "mpz_val a' = 0 \<or> mpz_val b' = 0"
      "mpz_val c + mpz_val mm * (mpz_val a' OR mpz_val b') = mpz_val a OR mpz_val b"
    using or64.chunk_loop_correct [OF assms(1,2) set_int_correct(1) set_int_correct(1) assms(3,4), of m 1 0] by auto
  note r1 = add_rest_correct [OF l(5,2,4)]
  note r2 = add_rest_correct [OF r1(1) l(3,4)]
  have "bitwise_or m a b = Some (add_rest (add_rest c a' mm) b' mm)"
    using False l(1) by (cases a; cases b) (simp_all add: bitwise_or_def)
  moreover have "mpz_val (add_rest (add_rest c a' mm) b' mm) = mpz_val a OR mpz_val b"
    unfolding r2(2) r1(2) using l(6,7) by auto
  ultimately show ?thesis using r2(1) by blast
qed

lemma bitwise_and_correct:
  assumes "wf_mpz a" "wf_mpz b" "0 \<le> mpz_val a" "0 \<le> mpz_val b"
  shows "\<exists>c. bitwise_and m a b = Some c \<and> wf_mpz c \<and> mpz_val c = mpz_val a AND mpz_val b"
proof (cases "is_small a \<and> is_small b")
  case True
  then obtain v w where "a = Small v" "b = Small w" by (cases a; cases b) auto
  then show ?thesis by (simp add: bitwise_and_def sint_bit_ops)
next
  case False
  obtain a' b' mm c where l: "chunk_loop (AND) m a b (set_int 1) (set_int 0) = Some (a', b', mm, c)"
      "wf_mpz c" "mpz_val a' = 0 \<or> mpz_val b' = 0"
      "mpz_val c + mpz_val mm * (mpz_val a' AND mpz_val b') = mpz_val a AND mpz_val b"
    using and64.chunk_loop_correct [OF assms(1,2) set_int_correct(1) set_int_correct(1) assms(3,4), of m 1 0] by auto
  have "bitwise_and m a b = Some c"
    using False l(1) by (cases a; cases b) (simp_all add: bitwise_and_def)
  then show ?thesis using l(2-4) by auto
qed

lemma bitwise_xor_correct:
  assumes "wf_mpz a" "wf_mpz b" "0 \<le> mpz_val a" "0 \<le> mpz_val b"
  shows "\<exists>c. bitwise_xor m a b = Some c \<and> wf_mpz c \<and> mpz_val c = mpz_val a XOR mpz_val b"
proof (cases "is_small a \<and> is_small b")
  case True
  then obtain v w where "a = Small v" "b = Small w" by (cases a; cases b) auto
  moreover have "sint (scast v :: i64) = sint v" for v :: i32 using sint_i32_bounds [of v]
    by (simp add: signed_scast_eq signed_take_bit_63_id)
  ultimately show ?thesis by (simp add: bitwise_xor_def sint_bit_ops)
next
  case False
  obtain a' b' mm c where l: "chunk_loop (XOR) m a b (set_int 1) (set_int 0) = Some (a', b', mm, c)"
      "wf_mpz a'" "wf_mpz b'" "wf_mpz mm" "wf_mpz c" "mpz_val a' = 0 \<or> mpz_val b' = 0"
      "mpz_val c + mpz_val mm * (mpz_val a' XOR mpz_val b') = mpz_val a XOR mpz_val b"
    using xor64.chunk_loop_correct [OF assms(1,2) set_int_correct(1) set_int_correct(1) assms(3,4), of m 1 0] by auto
  note r1 = add_rest_correct [OF l(5,2,4)]
  note r2 = add_rest_correct [OF r1(1) l(3,4)]
  have "bitwise_xor m a b = Some (add_rest (add_rest c a' mm) b' mm)"
    using False l(1) by (auto simp: bitwise_xor_def)
  moreover have "mpz_val (add_rest (add_rest c a' mm) b' mm) = mpz_val a XOR mpz_val b"
    unfolding r2(2) r1(2) using l(6,7) by auto
  ultimately show ?thesis using r2(1) by blast
qed

lemma not_drop_bit: "NOT (drop_bit n (x :: int)) = drop_bit n (NOT x)"
  by (rule bit_eqI) (simp add: bit_drop_bit_eq bit_not_iff)

lemma chunk_not:
  assumes "uint x = y mod 18446744073709551616"
  shows "uint (NOT (x :: u64)) = take_bit 64 (NOT y)"
proof -
  have "uint (NOT x) = take_bit 64 (NOT (uint x))" by (simp add: unsigned_not_eq)
  also have "\<dots> = take_bit 64 (NOT y)" unfolding assms chunk_bits by (simp add: take_bit_not_take_bit)
  finally show ?thesis .
qed

lemma chunk_not_mask:
  assumes "uint x = y mod 18446744073709551616" "sz < 64"
  shows "uint ((push_bit sz 1 - 1) AND NOT (x :: u64)) = take_bit sz (NOT y)"
proof -
  have "(push_bit sz 1 - 1) AND NOT x = take_bit sz (NOT x)"
    by (simp add: take_bit_eq_mask mask_eq_exp_minus_1 push_bit_eq_mult and.commute)
  then have "uint ((push_bit sz 1 - 1) AND NOT x) = take_bit sz (uint (NOT x))" by (simp only: unsigned_take_bit_eq)
  then show ?thesis using assms(2) by (simp add: chunk_not [OF assms(1)] min_absorb1)
qed

lemma not_loop_correct:
  assumes "wf_mpz a" "wf_mpz mm" "wf_mpz c" "0 \<le> mpz_val a"
  shows "\<exists>c'. not_loop m sz a mm c = Some c' \<and> wf_mpz c' \<and>
    mpz_val c' = mpz_val c + mpz_val mm * take_bit sz (NOT (mpz_val a))"
  using assms
proof (induction sz arbitrary: a mm c rule: less_induct)
  case (less sz)
  show ?case
  proof (cases "sz = 0")
    case True
    then show ?thesis using less.prems by (subst not_loop.simps) simp
  next
    case False
    obtain a2 a1 where a: "mpz_mod m a two64 = Some a2" "mpz_div m a two64 = Some a1" "wf_mpz a1"
      "uint (get_uint64 a2) = mpz_val a mod 18446744073709551616" "mpz_val a1 = mpz_val a div 18446744073709551616"
      using mod_div_two64 [OF less.prems(1,4), of m] by blast
    let ?v = "if sz < 64 then (push_bit sz 1 - 1) AND NOT (get_uint64 a2) else NOT (get_uint64 a2)"
    let ?k = "if sz < 64 then sz else 64"
    have v: "uint ?v = take_bit ?k (NOT (mpz_val a))"
      by (cases "sz < 64") (simp_all only: if_True if_False chunk_not [OF a(4)] chunk_not_mask [OF a(4)])
    note vm = mpz_mul_correct [OF set_uint64_correct(1) less.prems(2), of ?v]
    note c' = mpz_add_correct [OF less.prems(3) vm(1)]
    note mm' = mpz_mul_correct [OF less.prems(2) two64_correct(1)]
    have n: "0 \<le> mpz_val a1" unfolding a(5) using nonneg_div less.prems(4) by blast
    have step: "not_loop m sz a mm c = not_loop m (sz - ?k) a1 (mpz_mul mm two64) (mpz_add c (mpz_mul (set_uint64 ?v) mm))"
      using False a(1,2) by (subst not_loop.simps) (simp add: Let_def)
    have "\<exists>c''. not_loop m (sz - ?k) a1 (mpz_mul mm two64) (mpz_add c (mpz_mul (set_uint64 ?v) mm)) = Some c'' \<and> wf_mpz c'' \<and>
        mpz_val c'' = mpz_val (mpz_add c (mpz_mul (set_uint64 ?v) mm)) +
          mpz_val (mpz_mul mm two64) * take_bit (sz - ?k) (NOT (mpz_val a1))"
      using False by (intro less.IH a(3) mm'(1) c'(1) n) simp
    moreover have "uint ?v + 18446744073709551616 * take_bit (sz - ?k) (NOT (mpz_val a1)) = take_bit sz (NOT (mpz_val a))"
    proof (cases "sz < 64")
      case True
      then show ?thesis using v by simp
    next
      case False
      let ?X = "NOT (mpz_val a)"
      have "take_bit 64 (take_bit sz ?X) = take_bit 64 ?X" using False by simp
      moreover have "drop_bit 64 (take_bit sz ?X) = take_bit (sz - 64) (NOT (mpz_val a1))"
        unfolding a(5) chunk_bits not_drop_bit by (simp add: drop_bit_take_bit)
      ultimately show ?thesis using False v split_two64 [of "take_bit sz ?X"] by simp
    qed
    moreover have "mpz_val c + x * mpz_val mm + mpz_val mm * 18446744073709551616 * y =
        mpz_val c + mpz_val mm * (x + 18446744073709551616 * y)" for x y by (simp add: algebra_simps)
    ultimately show ?thesis
      unfolding step c'(2) vm(2) mm'(2) set_uint64_correct(2) two64_correct(2) by metis
  qed
qed

lemma bitwise_not_correct:
  assumes "wf_mpz a" "0 \<le> mpz_val a"
  shows "\<exists>c. bitwise_not m sz a = Some c \<and> wf_mpz c \<and> mpz_val c = take_bit sz (NOT (mpz_val a))"
proof (cases "is_small a \<and> sz \<le> 63")
  case True
  then obtain v where v: "a = Small v" by (cases a) auto
  let ?x = "NOT (scast v :: i64) AND (push_bit sz 1 - 1)"
  have "uint (scast v :: i64) = sint v" using is_uint64_correct(2) [of "Small v"] assms v by simp
  then have "uint (scast v :: i64) = sint v mod 18446744073709551616"
    using uint_lt2p [of "scast v :: i64"] uint_ge_0 [of "scast v :: i64"] by simp
  from chunk_not_mask [OF this] have u: "uint ?x = take_bit sz (NOT (sint v))" using True by (simp add: and.commute)
  have "take_bit sz (NOT (sint v)) < 2 ^ sz" by (rule take_bit_int_less_exp)
  also have "(2 :: int) ^ sz \<le> 2 ^ 63" using True by (intro power_increasing) auto
  finally have "take_bit sz (NOT (sint v)) < 9223372036854775808" by simp
  then have "signed_take_bit 63 (uint ?x) = uint ?x"
    unfolding u using take_bit_nonnegative [of sz "NOT (sint v)"] by (intro signed_take_bit_63_id) linarith+
  then have "sint ?x = take_bit sz (NOT (sint v))" using u by (simp add: sint_uint)
  then show ?thesis using True v by (simp add: bitwise_not_def)
next
  case False
  then show ?thesis
    using not_loop_correct [OF assms(1) set_int_correct(1) set_int_correct(1) assms(2), of m sz 1 0]
    by (auto simp: bitwise_not_def)
qed

end
