(* ===== verification/MpzView.thy ===== *)
theory MpzView
  imports MpzText MpzBitwise
begin

text \<open>
  The integers that multi-precision numbers stand for, with executable counterparts of the operations
  that the binary rationals use, each refined by the operation on representations.
\<close>

section \<open>Definitions\<close>

function int_p2m :: "int \<Rightarrow> nat" where
  "int_p2m x = (if x = 0 \<or> odd x then 0 else Suc (int_p2m (x div 2)))"
  by pat_completeness auto
termination
  by (relation "measure (\<lambda>x. nat \<bar>x\<bar>)") (auto elim!: evenE simp: abs_mult)

declare int_p2m.simps [simp del]

fun nat_log2 :: "nat \<Rightarrow> nat" where
  "nat_log2 n = (if n < 2 then 0 else Suc (nat_log2 (n div 2)))"

declare nat_log2.simps [simp del]

definition int_log2 :: "int \<Rightarrow> nat" where
  "int_log2 x = (if x \<le> 0 then 0 else nat_log2 (nat x))"

definition int_mlog2 :: "int \<Rightarrow> nat" where
  "int_mlog2 x = (if 0 \<le> x then 0 else nat_log2 (nat (- x)))"

definition int_is_power_of_two :: "int \<Rightarrow> nat option" where
  "int_is_power_of_two x = (if 0 < x \<and> x = 2 ^ int_log2 x then Some (int_log2 x) else None)"

lemma div2k_halves: "\<bar>2 * div2k s 1 - s\<bar> \<le> 1"
proof -
  have "div2k s 1 = (if 0 \<le> s then s div 2 else - ((- s) div 2))" by (simp add: div2k_def sgn_if)
  then show ?thesis by (auto split: if_splits)
qed

lemma bisection_decreases:
  assumes "\<bar>2 * mid - (u + l)\<bar> \<le> (1 :: int)" "mid \<noteq> l" "mid \<noteq> u"
  shows "nat \<bar>u - mid\<bar> < nat \<bar>u - l\<bar>" "nat \<bar>mid - l\<bar> < nat \<bar>u - l\<bar>"
  using assms by linarith+

function int_root_loop :: "int \<Rightarrow> nat \<Rightarrow> int \<Rightarrow> int \<Rightarrow> int \<times> bool" where
  "int_root_loop a n lower upper =
     (let mid = div2k (upper + lower) 1; mid_n = mid ^ n
      in if mid_n = a then (mid, True)
         else if mid = lower \<or> mid = upper then (upper, False)
         else if mid_n < a then int_root_loop a n mid upper
         else int_root_loop a n lower mid)"
  by pat_completeness auto
termination
proof (relation "measure (\<lambda>(a, n, l, u). nat \<bar>u - l\<bar>)")
  fix a lower upper mid mid_n :: int and n
  assume m: "mid = div2k (upper + lower) 1" and "\<not> (mid = lower \<or> mid = upper)"
  then have d: "nat \<bar>upper - mid\<bar> < nat \<bar>upper - lower\<bar>" "nat \<bar>mid - lower\<bar> < nat \<bar>upper - lower\<bar>"
    using bisection_decreases [of mid upper lower] div2k_halves [of "upper + lower"] by simp_all
  show "((a, n, mid, upper), (a, n, lower, upper)) \<in> measure (\<lambda>(a, n, l, u). nat \<bar>u - l\<bar>)"
    using d(1) by (simp only: in_measure split_conv)
  show "((a, n, lower, mid), (a, n, lower, upper)) \<in> measure (\<lambda>(a, n, l, u). nat \<bar>u - l\<bar>)"
    using d(2) by (simp only: in_measure split_conv)
qed simp

declare int_root_loop.simps [simp del]

definition int_root :: "int \<Rightarrow> nat \<Rightarrow> int \<times> bool" where
  "int_root a n =
     (if a = 0 then (0, True)
      else if 0 < a then int_root_loop a n (2 ^ div_l (int_log2 a) n) (2 ^ div_u (int_log2 a + 1) n)
      else int_root_loop a n (- (2 ^ div_u (int_mlog2 a + 1) n)) (- (2 ^ div_l (int_mlog2 a) n)))"

section \<open>Powers of two and logarithms\<close>

lemma int_p2m_correct:
  assumes "x \<noteq> 0"
  shows "\<exists>w. odd w \<and> x = w * 2 ^ int_p2m x"
  using assms
proof (induction x rule: int_p2m.induct)
  case (1 x)
  show ?case
  proof (cases "odd x")
    case True
    then show ?thesis by (simp add: int_p2m.simps)
  next
    case False
    then obtain y where y: "x = 2 * y" by (auto elim: evenE)
    then obtain w where "odd w" "y = w * 2 ^ int_p2m y" using 1 False by auto
    then have "odd w \<and> x = w * 2 ^ int_p2m x" using y 1(2) by (subst int_p2m.simps) simp
    then show ?thesis by blast
  qed
qed

lemma odd_part_le:
  assumes "odd v" "odd w" "v * 2 ^ i = (w :: int) * 2 ^ j"
  shows "i \<le> j"
proof (rule ccontr)
  assume n: "\<not> i \<le> j"
  have "(2 :: int) ^ i = 2 ^ (i - j) * 2 ^ j" using n by (simp flip: power_add)
  then have "w * 2 ^ j = v * 2 ^ (i - j) * 2 ^ j" using assms(3) by (metis mult.assoc)
  then have "w = v * 2 ^ (i - j)" by simp
  then have "even w" using n by simp
  then show False using assms(2) by blast
qed

lemma odd_part_unique:
  assumes "odd v" "odd w" "v * 2 ^ i = (w :: int) * 2 ^ j"
  shows "i = j"
  using odd_part_le [OF assms] odd_part_le [OF assms(2,1) assms(3) [symmetric]] by simp

lemma power_of_two_multiple_refines:
  assumes "wf_mpz a"
  shows "power_of_two_multiple a = int_p2m (mpz_val a)"
proof (cases "mpz_val a = 0")
  case True
  have "v = 0" if "sint v = 0" for v :: i32 using that by (metis signed_eq_0_iff)
  then show ?thesis using assms True by (cases a) (auto simp: int_p2m.simps)
next
  case False
  obtain v where v: "odd v" "mpz_val a = v * 2 ^ power_of_two_multiple a"
    using power_of_two_multiple_correct [OF assms False] by blast
  obtain w where w: "odd w" "mpz_val a = w * 2 ^ int_p2m (mpz_val a)" using int_p2m_correct [OF False] by blast
  show ?thesis using odd_part_unique [OF v(1) w(1)] v(2) w(2) by metis
qed

lemma nat_log2_correct: "0 < n \<Longrightarrow> 2 ^ nat_log2 n \<le> n \<and> n < 2 ^ Suc (nat_log2 n)"
proof (induction n rule: nat_log2.induct)
  case (1 n)
  show ?case
  proof (cases "n < 2")
    case True
    then show ?thesis using 1(2) by (simp add: nat_log2.simps)
  next
    case False
    then show ?thesis using 1(1) by (subst (1 2) nat_log2.simps) (auto simp: less_mult_imp_div_less)
  qed
qed

lemma log2_le:
  assumes "(2 :: int) ^ i \<le> x" "x < 2 ^ Suc j"
  shows "i \<le> j"
proof -
  have "(2 :: int) ^ i < 2 ^ Suc j" using assms by linarith
  then have "i < Suc j" by (rule power_less_imp_less_exp [rotated]) simp
  then show ?thesis by simp
qed

lemma log2_unique:
  assumes "(2 :: int) ^ i \<le> x \<and> x < 2 ^ Suc i" "2 ^ j \<le> x \<and> x < 2 ^ Suc j"
  shows "i = j"
  using log2_le [of i x j] log2_le [of j x i] assms by simp

lemma int_log2_pos: "0 < x \<Longrightarrow> 2 ^ int_log2 x \<le> x \<and> x < 2 ^ Suc (int_log2 x)"
proof -
  assume x: "0 < x"
  then obtain n where n: "x = int n" "0 < n" by (metis of_nat_0_less_iff zero_less_imp_eq_int)
  have "int (2 ^ nat_log2 n) \<le> int n \<and> int n < int (2 ^ Suc (nat_log2 n))"
    using nat_log2_correct [OF n(2)] by (simp only: of_nat_le_iff of_nat_less_iff)
  then show ?thesis using n by (simp add: int_log2_def)
qed

lemma int_mlog2_log2: "int_mlog2 x = int_log2 (- x)"
  by (simp add: int_mlog2_def int_log2_def)

lemma mpz_log2_refines:
  assumes "wf_mpz a"
  shows "mpz_log2 a = int_log2 (mpz_val a)" "mpz_mlog2 a = int_mlog2 (mpz_val a)"
proof -
  show "mpz_log2 a = int_log2 (mpz_val a)"
  proof (cases "0 < mpz_val a")
    case True
    show ?thesis by (rule log2_unique [OF mpz_log2_correct [OF assms True] int_log2_pos [OF True]])
  next
    case False
    then have "mpz_sign a \<le> 0" using mpz_sign_correct(1) [OF assms] by (simp add: mpz_is_pos_def)
    then show ?thesis using False by (cases a) (simp_all add: int_log2_def)
  qed
  show "mpz_mlog2 a = int_mlog2 (mpz_val a)"
  proof (cases "mpz_val a < 0")
    case True
    then have p: "0 < - mpz_val a" by simp
    show ?thesis
      unfolding int_mlog2_log2 by (rule log2_unique [OF mpz_mlog2_correct [OF assms True] int_log2_pos [OF p]])
  next
    case False
    then have "0 \<le> mpz_sign a" using mpz_sign_correct(2) [OF assms] by (simp add: mpz_is_neg_def)
    then show ?thesis using False by (cases a) (simp_all add: int_mlog2_def)
  qed
qed

lemma int_is_power_of_two_correct: "int_is_power_of_two x = Some k \<longleftrightarrow> x = 2 ^ k"
proof
  assume "x = 2 ^ k"
  moreover from this have "int_log2 x = k"
    using int_log2_pos [of x] by (intro log2_unique [of _ x]) simp_all
  ultimately show "int_is_power_of_two x = Some k" by (simp add: int_is_power_of_two_def)
qed (auto simp: int_is_power_of_two_def split: if_splits)

lemma mpz_is_power_of_two_refines:
  assumes "wf_mpz a"
  shows "mpz_is_power_of_two a = int_is_power_of_two (mpz_val a)"
  using mpz_is_power_of_two_correct [OF assms] int_is_power_of_two_correct
  by (metis not_Some_eq)

section \<open>Roots\<close>

lemma int_root_loop_correct:
  assumes "lower < upper" "lower ^ n \<le> a" "a \<le> upper ^ n"
    "0 \<le> lower \<and> a < upper ^ n \<or> upper \<le> 0 \<and> lower ^ n < a"
    and "int_root_loop a n lower upper = (r, exact)"
  shows "root_result a n r exact \<and> lower \<le> r \<and> r \<le> upper"
  using assms
proof (induction a n lower upper rule: int_root_loop.induct)
  case (1 a n lower upper)
  let ?mid = "div2k (upper + lower) 1"
  have sg: "0 \<le> lower \<or> upper \<le> 0" using 1(6) by blast
  note h = halve_between [OF 1(3) sg]
  show ?case
  proof (cases "?mid ^ n = a")
    case True
    then show ?thesis using 1(7) h by (subst (asm) int_root_loop.simps) (simp add: root_result_def)
  next
    case ne: False
    show ?thesis
    proof (cases "?mid = lower \<or> ?mid = upper")
      case True
      then have g: "upper = lower + 1" using h by blast
      have "r = upper" "\<not> exact" using 1(7) ne True by (subst (asm) int_root_loop.simps, simp)+
      moreover have "lower ^ n < a \<and> a < upper ^ n"
      proof (cases "0 \<le> lower \<and> a < upper ^ n")
        case True
        then have "?mid = lower" using h g by blast
        then show ?thesis using True ne 1(4) by simp
      next
        case False
        then have neg: "upper \<le> 0" "lower ^ n < a" using 1(6) by blast+
        then have "?mid = upper" using h g by blast
        then show ?thesis using neg ne 1(5) by simp
      qed
      ultimately show ?thesis using g by (simp add: root_result_def)
    next
      case False
      then have st: "lower < ?mid" "?mid < upper" using h by linarith+
      show ?thesis
      proof (cases "?mid ^ n < a")
        case True
        have L: "int_root_loop a n ?mid upper = (r, exact)"
          using 1(7) ne False True by (subst (asm) int_root_loop.simps) simp
        have "root_result a n r exact \<and> ?mid \<le> r \<and> r \<le> upper"
        proof (rule 1(1) [OF refl refl ne False True st(2) _ 1(5) _ L])
          show "?mid ^ n \<le> a" using True by linarith
          show "0 \<le> ?mid \<and> a < upper ^ n \<or> upper \<le> 0 \<and> ?mid ^ n < a" using 1(6) True st by linarith
        qed
        then show ?thesis using st by simp
      next
        case ge: False
        have L: "int_root_loop a n lower ?mid = (r, exact)"
          using 1(7) ne False ge by (subst (asm) int_root_loop.simps) simp
        have "root_result a n r exact \<and> lower \<le> r \<and> r \<le> ?mid"
        proof (rule 1(2) [OF refl refl ne False ge st(1) 1(4) _ _ L])
          show "a \<le> ?mid ^ n" using ge by linarith
          show "0 \<le> lower \<and> a < ?mid ^ n \<or> ?mid \<le> 0 \<and> lower ^ n < a" using 1(6) ge ne st by linarith
        qed
        then show ?thesis using st by simp
      qed
    qed
  qed
qed

lemma int_root_correct:
  assumes n: "0 < n" and odd: "a < 0 \<Longrightarrow> odd n" and r: "int_root a n = (r, exact)"
  shows "root_result a n r exact \<and> (0 < a \<longrightarrow> 0 < r) \<and> (a < 0 \<longrightarrow> r < 0)"
proof -
  consider "a = 0" | "0 < a" | "a < 0" by linarith
  then show ?thesis
  proof cases
    case 1
    then show ?thesis using n r by (auto simp: int_root_def root_result_def)
  next
    case 2
    note b = int_log2_pos [OF 2]
    note t = two_power_bounds [OF n conjunct1 [OF b] conjunct2 [OF b]]
    have "int_root_loop a n (2 ^ div_l (int_log2 a) n) (2 ^ div_u (int_log2 a + 1) n) = (r, exact)"
      using r 2 by (simp add: int_root_def)
    from int_root_loop_correct [OF t(3) t(1) _ _ this] t(2)
    have "root_result a n r exact \<and> 2 ^ div_l (int_log2 a) n \<le> r" by simp
    moreover have "(0 :: int) < 2 ^ div_l (int_log2 a) n" by simp
    ultimately show ?thesis using 2 by linarith
  next
    case 3
    then have p: "0 < - a" by simp
    note b = int_log2_pos [OF p, folded int_mlog2_log2]
    note t = two_power_bounds [OF n conjunct1 [OF b] conjunct2 [OF b]]
    have neg: "(- x) ^ n = - (x ^ n)" for x :: int using odd [OF 3] by simp
    have "int_root_loop a n (- (2 ^ div_u (int_mlog2 a + 1) n)) (- (2 ^ div_l (int_mlog2 a) n)) = (r, exact)"
      using r 3 by (simp add: int_root_def)
    from int_root_loop_correct [OF _ _ _ _ this] t
    have "root_result a n r exact \<and> r \<le> - (2 ^ div_l (int_mlog2 a) n)" by (simp add: neg)
    moreover have "(0 :: int) < 2 ^ div_l (int_mlog2 a) n" by simp
    ultimately show ?thesis using 3 by linarith
  qed
qed

text \<open>The bisection on representations computes what the one on integers does.\<close>

lemma root_loop_refines:
  assumes wf: "wf_mpz a" "wf_mpz lower" "wf_mpz upper" and n: "0 < unat n" "unat n < 2147483648"
    and i: "int_root_loop (mpz_val a) (unat n) (mpz_val lower) (mpz_val upper) = (r, exact)"
  shows "\<exists>r'. root_loop a n lower upper = Some (r', exact) \<and> wf_mpz r' \<and> mpz_val r' = r"
  using wf(2,3) i
proof (induction "nat \<bar>mpz_val upper - mpz_val lower\<bar>" arbitrary: lower upper rule: less_induct)
  case less
  let ?mid = "machine_div2k (mpz_add upper lower) 1"
  note s = mpz_add_correct [OF less.prems(2,1)]
  have m: "wf_mpz ?mid" "mpz_val ?mid = div2k (mpz_val upper + mpz_val lower) 1"
    using machine_div2k_correct [OF s(1), of 1] s(2) by simp_all
  have nz: "n \<noteq> 0" using n by auto
  obtain mid_n where p: "mpz_power ?mid n = Some mid_n" "wf_mpz mid_n" "mpz_val mid_n = mpz_val ?mid ^ unat n"
    using mpz_power_correct [OF m(1), of n] n nz by blast
  have cmp: "mpz_eq mid_n a \<longleftrightarrow> mpz_val ?mid ^ unat n = mpz_val a" "mpz_lt mid_n a \<longleftrightarrow> mpz_val ?mid ^ unat n < mpz_val a"
    "mpz_eq ?mid lower \<longleftrightarrow> mpz_val ?mid = mpz_val lower" "mpz_eq ?mid upper \<longleftrightarrow> mpz_val ?mid = mpz_val upper"
    using mpz_compare_correct wf(1) p(2) m(1) less.prems(1,2) unfolding p(3) [symmetric] by blast+
  have unf: "root_loop a n lower upper =
      (if mpz_val ?mid ^ unat n = mpz_val a then Some (?mid, True)
       else if mpz_val ?mid = mpz_val lower \<or> mpz_val ?mid = mpz_val upper then Some (upper, False)
       else if mpz_val ?mid ^ unat n < mpz_val a then root_loop a n ?mid upper else root_loop a n lower ?mid)"
    by (subst root_loop.simps) (simp only: Let_def p(1) cmp Option.bind.bind_lunit)
  have iunf: "(r, exact) =
      (if mpz_val ?mid ^ unat n = mpz_val a then (mpz_val ?mid, True)
       else if mpz_val ?mid = mpz_val lower \<or> mpz_val ?mid = mpz_val upper then (mpz_val upper, False)
       else if mpz_val ?mid ^ unat n < mpz_val a then int_root_loop (mpz_val a) (unat n) (mpz_val ?mid) (mpz_val upper)
       else int_root_loop (mpz_val a) (unat n) (mpz_val lower) (mpz_val ?mid))"
    unfolding m(2) less.prems(3) [symmetric] by (subst int_root_loop.simps) (simp only: Let_def)
  show ?case
  proof (cases "mpz_val ?mid ^ unat n = mpz_val a")
    case True
    then show ?thesis using unf iunf m(1) by simp
  next
    case ne: False
    show ?thesis
    proof (cases "mpz_val ?mid = mpz_val lower \<or> mpz_val ?mid = mpz_val upper")
      case True
      then show ?thesis using unf iunf ne less.prems(2) by simp
    next
      case False
      have d: "nat \<bar>mpz_val upper - mpz_val ?mid\<bar> < nat \<bar>mpz_val upper - mpz_val lower\<bar>"
          "nat \<bar>mpz_val ?mid - mpz_val lower\<bar> < nat \<bar>mpz_val upper - mpz_val lower\<bar>"
        using bisection_decreases [OF div2k_halves [of "mpz_val upper + mpz_val lower"]] False unfolding m(2) by blast+
      show ?thesis
      proof (cases "mpz_val ?mid ^ unat n < mpz_val a")
        case True
        have "int_root_loop (mpz_val a) (unat n) (mpz_val ?mid) (mpz_val upper) = (r, exact)"
          using iunf ne False True by simp
        from less.hyps [OF d(1) m(1) less.prems(2) this] show ?thesis using unf ne False True by simp
      next
        case ge: False
        have "int_root_loop (mpz_val a) (unat n) (mpz_val lower) (mpz_val ?mid) = (r, exact)"
          using iunf ne False ge by simp
        from less.hyps [OF d(2) less.prems(1) m(1) this] show ?thesis using unf ne False ge by simp
      qed
    qed
  qed
qed

end
