(* ===== verification/Mpbq.thy ===== *)
theory Mpbq
  imports MpzView Complex_Main
begin

text \<open>
  Model of util/mpbq.cpp: binary rationals, a numerator over a power of two. The numerator is the
  integer that the multi-precision number stands for, the exponent a natural number, as the code takes
  care that its unsigned exponent does not wrap. Rationals (util/mpq.h) are the numbers with their
  canonical numerator and denominator.
\<close>

section \<open>Representation\<close>

record mpbq =
  bq_num :: int
  bq_k :: nat

definition to_rational :: "mpbq \<Rightarrow> rat" where
  "to_rational v = of_int (bq_num v) / 2 ^ bq_k v"

definition bq_normalize :: "mpbq \<Rightarrow> mpbq" where
  "bq_normalize a =
     (if bq_k a = 0 then a
      else if bq_num a = 0 then a\<lparr>bq_k := 0\<rparr>
      else
        let k = int_p2m (bq_num a); k = (if bq_k a < k then bq_k a else k)
        in \<lparr>bq_num = div2k (bq_num a) k, bq_k = bq_k a - k\<rparr>)"

definition bq_set :: "int \<Rightarrow> nat \<Rightarrow> mpbq" where
  "bq_set n k = bq_normalize \<lparr>bq_num = n, bq_k = k\<rparr>"

definition bq_set_int :: "int \<Rightarrow> mpbq" where
  "bq_set_int n = \<lparr>bq_num = n, bq_k = 0\<rparr>"

definition bq_is_int :: "mpbq \<Rightarrow> bool" where
  "bq_is_int a = (bq_k a = 0)"

section \<open>Arithmetic\<close>

definition magnitude_lb :: "mpbq \<Rightarrow> int" where
  "magnitude_lb a =
     (if bq_num a = 0 then 0
      else if 0 < bq_num a then int (int_log2 (bq_num a)) - int (bq_k a)
      else int (int_mlog2 (bq_num a)) - int (bq_k a) + 1)"

definition magnitude_ub :: "mpbq \<Rightarrow> int" where
  "magnitude_ub a =
     (if bq_num a = 0 then 0
      else if 0 < bq_num a then int (int_log2 (bq_num a)) - int (bq_k a) + 1
      else int (int_mlog2 (bq_num a)) - int (bq_k a))"

definition bq_mul2 :: "mpbq \<Rightarrow> mpbq" where
  "bq_mul2 a = (if bq_k a = 0 then a\<lparr>bq_num := bq_num a * 2 ^ 1\<rparr> else a\<lparr>bq_k := bq_k a - 1\<rparr>)"

definition bq_mul2k :: "mpbq \<Rightarrow> nat \<Rightarrow> mpbq" where
  "bq_mul2k a k =
     (if k = 0 then a
      else if bq_k a < k then \<lparr>bq_num = bq_num a * 2 ^ (k - bq_k a), bq_k = 0\<rparr>
      else a\<lparr>bq_k := bq_k a - k\<rparr>)"

definition bq_div2 :: "mpbq \<Rightarrow> mpbq" where
  "bq_div2 a = (let b = a\<lparr>bq_k := bq_k a + 1\<rparr> in if bq_k a = 0 then bq_normalize b else b)"

definition bq_div2k :: "mpbq \<Rightarrow> nat \<Rightarrow> mpbq" where
  "bq_div2k a k = (let b = a\<lparr>bq_k := bq_k a + k\<rparr> in if bq_k a = 0 then bq_normalize b else b)"

definition bq_add :: "mpbq \<Rightarrow> mpbq \<Rightarrow> mpbq" where
  "bq_add a b = bq_normalize
     (if bq_k a = bq_k b then \<lparr>bq_num = bq_num a + bq_num b, bq_k = bq_k a\<rparr>
      else if bq_k a < bq_k b then \<lparr>bq_num = bq_num b + bq_num a * 2 ^ (bq_k b - bq_k a), bq_k = bq_k b\<rparr>
      else \<lparr>bq_num = bq_num a + bq_num b * 2 ^ (bq_k a - bq_k b), bq_k = bq_k a\<rparr>)"

definition bq_add_z :: "mpbq \<Rightarrow> int \<Rightarrow> mpbq" where
  "bq_add_z a b = bq_normalize
     (if bq_k a = 0 then \<lparr>bq_num = bq_num a + b, bq_k = bq_k a\<rparr>
      else \<lparr>bq_num = bq_num a + b * 2 ^ bq_k a, bq_k = bq_k a\<rparr>)"

definition bq_sub :: "mpbq \<Rightarrow> mpbq \<Rightarrow> mpbq" where
  "bq_sub a b = bq_normalize
     (if bq_k a = bq_k b then \<lparr>bq_num = bq_num a - bq_num b, bq_k = bq_k a\<rparr>
      else if bq_k a < bq_k b then \<lparr>bq_num = bq_num a * 2 ^ (bq_k b - bq_k a) - bq_num b, bq_k = bq_k b\<rparr>
      else \<lparr>bq_num = bq_num a - bq_num b * 2 ^ (bq_k a - bq_k b), bq_k = bq_k a\<rparr>)"

definition bq_sub_z :: "mpbq \<Rightarrow> int \<Rightarrow> mpbq" where
  "bq_sub_z a b = bq_normalize
     (if bq_k a = 0 then \<lparr>bq_num = bq_num a - b, bq_k = bq_k a\<rparr>
      else \<lparr>bq_num = bq_num a - b * 2 ^ bq_k a, bq_k = bq_k a\<rparr>)"

text \<open>The product of distinct numbers, and \<open>a *= b\<close>, where the result overwrites the exponent that is tested.\<close>

definition bq_mul :: "mpbq \<Rightarrow> mpbq \<Rightarrow> mpbq" where
  "bq_mul a b =
     (let r = \<lparr>bq_num = bq_num a * bq_num b, bq_k = bq_k a + bq_k b\<rparr>
      in if bq_k a = 0 \<or> bq_k b = 0 then bq_normalize r else r)"

definition bq_mul_into :: "mpbq \<Rightarrow> mpbq \<Rightarrow> mpbq" where
  "bq_mul_into a b =
     (let r = \<lparr>bq_num = bq_num a * bq_num b, bq_k = bq_k a + bq_k b\<rparr>
      in if bq_k r = 0 \<or> bq_k b = 0 then bq_normalize r else r)"

definition bq_mul_z :: "mpbq \<Rightarrow> int \<Rightarrow> mpbq" where
  "bq_mul_z a b = bq_normalize \<lparr>bq_num = bq_num a * b, bq_k = bq_k a\<rparr>"

definition bq_addmul :: "mpbq \<Rightarrow> mpbq \<Rightarrow> mpbq \<Rightarrow> mpbq" where
  "bq_addmul a b c = bq_add a (bq_mul b c)"

definition bq_neg :: "mpbq \<Rightarrow> mpbq" where
  "bq_neg a = a\<lparr>bq_num := - bq_num a\<rparr>"

definition bq_power :: "mpbq \<Rightarrow> nat \<Rightarrow> mpbq" where
  "bq_power a k = \<lparr>bq_num = bq_num a ^ k, bq_k = bq_k a * k\<rparr>"

definition root_lower :: "mpbq \<Rightarrow> nat \<Rightarrow> mpbq \<times> bool" where
  "root_lower a n =
     (let (num, r) = int_root (bq_num a) n; num = (if \<not> r then num - 1 else num)
      in if bq_k a mod n = 0 then (bq_normalize \<lparr>bq_num = num, bq_k = bq_k a div n\<rparr>, r)
         else if num < 0 then (bq_normalize \<lparr>bq_num = num, bq_k = bq_k a div n\<rparr>, False)
         else (bq_normalize \<lparr>bq_num = num, bq_k = bq_k a div n + 1\<rparr>, False))"

definition root_upper :: "mpbq \<Rightarrow> nat \<Rightarrow> mpbq \<times> bool" where
  "root_upper a n =
     (let (num, r) = int_root (bq_num a) n
      in if bq_k a mod n = 0 then (bq_normalize \<lparr>bq_num = num, bq_k = bq_k a div n\<rparr>, r)
         else if num < 0 then (bq_normalize \<lparr>bq_num = num, bq_k = bq_k a div n + 1\<rparr>, False)
         else (bq_normalize \<lparr>bq_num = num, bq_k = bq_k a div n\<rparr>, False))"

section \<open>Comparison\<close>

definition bq_eq :: "mpbq \<Rightarrow> mpbq \<Rightarrow> bool" where
  "bq_eq a b = (bq_k a = bq_k b \<and> bq_num a = bq_num b)"

definition bq_lt :: "mpbq \<Rightarrow> mpbq \<Rightarrow> bool" where
  "bq_lt a b =
     (if bq_k a = bq_k b then bq_num a < bq_num b
      else if bq_k a < bq_k b then bq_num a * 2 ^ (bq_k b - bq_k a) < bq_num b
      else bq_num a < bq_num b * 2 ^ (bq_k a - bq_k b))"

definition lt_1div2k :: "mpbq \<Rightarrow> nat \<Rightarrow> bool" where
  "lt_1div2k a k =
     (if bq_num a \<le> 0 then True
      else if bq_k a \<le> k then False
      else bq_num a < 1 * 2 ^ (bq_k a - k))"

definition q_num :: "rat \<Rightarrow> int" where "q_num q = fst (quotient_of q)"
definition q_den :: "rat \<Rightarrow> int" where "q_den q = snd (quotient_of q)"

definition bq_eq_q :: "mpbq \<Rightarrow> rat \<Rightarrow> bool" where
  "bq_eq_q a b =
     (if bq_is_int a \<and> q_den b = 1 then bq_num a = q_num b
      else q_num b * 2 ^ bq_k a = bq_num a * q_den b)"

definition bq_lt_q :: "mpbq \<Rightarrow> rat \<Rightarrow> bool" where
  "bq_lt_q a b =
     (if bq_is_int a \<and> q_den b = 1 then bq_num a < q_num b
      else bq_num a * q_den b < q_num b * 2 ^ bq_k a)"

definition bq_le_q :: "mpbq \<Rightarrow> rat \<Rightarrow> bool" where
  "bq_le_q a b =
     (if bq_is_int a \<and> q_den b = 1 then bq_num a \<le> q_num b
      else bq_num a * q_den b \<le> q_num b * 2 ^ bq_k a)"

definition bq_lt_z :: "mpbq \<Rightarrow> int \<Rightarrow> bool" where
  "bq_lt_z a b = (if bq_is_int a then bq_num a < b else bq_num a < b * 2 ^ bq_k a)"

definition bq_le_z :: "mpbq \<Rightarrow> int \<Rightarrow> bool" where
  "bq_le_z a b = (if bq_is_int a then bq_num a \<le> b else bq_num a \<le> b * 2 ^ bq_k a)"

section \<open>Conversion and refinement\<close>

definition to_mpbq :: "rat \<Rightarrow> mpbq \<times> bool" where
  "to_mpbq q =
     (let n = q_num q; d = q_den q
      in if d = 1 then (bq_set_int n, True)
         else
           (case int_is_power_of_two d of
              Some shift \<Rightarrow> (bq_set n shift, True)
            | None \<Rightarrow> (bq_set n (int_log2 d + 1), False)))"

partial_function (option) refine_upper :: "rat \<Rightarrow> mpbq \<Rightarrow> mpbq \<Rightarrow> (mpbq \<times> mpbq) option" where
  "refine_upper q l u =
     (let mid = bq_div2 (bq_add l u)
      in if \<not> bq_le_q mid q then Some (l, mid) else refine_upper q mid u)"

partial_function (option) refine_lower :: "rat \<Rightarrow> mpbq \<Rightarrow> mpbq \<Rightarrow> (mpbq \<times> mpbq) option" where
  "refine_lower q l u =
     (let mid = bq_div2 (bq_add l u)
      in if bq_lt_q mid q then Some (mid, u) else refine_lower q l mid)"

definition bq_floor :: "mpbq \<Rightarrow> int" where
  "bq_floor a =
     (if bq_is_int a then bq_num a
      else if bq_num a < 0 then div2k (bq_num a) (bq_k a) - 1 else div2k (bq_num a) (bq_k a))"

definition bq_ceil :: "mpbq \<Rightarrow> int" where
  "bq_ceil a =
     (if bq_is_int a then bq_num a
      else if 0 < bq_num a then div2k (bq_num a) (bq_k a) + 1 else div2k (bq_num a) (bq_k a))"

definition q_floor :: "rat \<Rightarrow> int" where
  "q_floor a =
     (if q_den a = 1 then q_num a
      else if q_num a < 0 then q_num a sdiv q_den a - 1 else q_num a sdiv q_den a)"

definition q_ceil :: "rat \<Rightarrow> int" where
  "q_ceil a =
     (if q_den a = 1 then q_num a
      else if 0 < q_num a then q_num a sdiv q_den a + 1 else q_num a sdiv q_den a)"

section \<open>Selection of small numbers\<close>

text \<open>An integer in \<open>[lower, upper]\<close>, \<open>(lower, upper]\<close>, \<open>[lower, upper)\<close> and \<open>(lower, upper)\<close>.\<close>

definition select_integer :: "mpbq \<Rightarrow> mpbq \<Rightarrow> int option" where
  "select_integer lower upper =
     (if bq_is_int lower then Some (bq_num lower)
      else if bq_is_int upper then Some (bq_num upper)
      else
        let ceil_lower = bq_ceil lower; floor_upper = bq_floor upper
        in if ceil_lower \<le> floor_upper then Some ceil_lower else None)"

definition select_integer_qb :: "rat \<Rightarrow> mpbq \<Rightarrow> int option" where
  "select_integer_qb lower upper =
     (if bq_is_int upper then Some (bq_num upper)
      else
        let ceil_lower = (if q_den lower = 1 then q_num lower + 1 else q_ceil lower);
            floor_upper = bq_floor upper
        in if ceil_lower \<le> floor_upper then Some ceil_lower else None)"

definition select_integer_bq :: "mpbq \<Rightarrow> rat \<Rightarrow> int option" where
  "select_integer_bq lower upper =
     (if bq_is_int lower then Some (bq_num lower)
      else
        let ceil_lower = bq_ceil lower;
            floor_upper = (if q_den upper = 1 then q_num upper - 1 else q_floor upper)
        in if ceil_lower \<le> floor_upper then Some ceil_lower else None)"

definition select_integer_qq :: "rat \<Rightarrow> rat \<Rightarrow> int option" where
  "select_integer_qq lower upper =
     (let ceil_lower = (if q_den lower = 1 then q_num lower + 1 else q_ceil lower);
          floor_upper = (if q_den upper = 1 then q_num upper - 1 else q_floor upper)
      in if ceil_lower \<le> floor_upper then Some ceil_lower else None)"

text \<open>The linear search, which doubles both ends until an integer lies between them.\<close>

partial_function (option) doubling_loop ::
  "('l \<Rightarrow> 'u \<Rightarrow> int option) \<Rightarrow> ('l \<Rightarrow> 'l) \<Rightarrow> ('u \<Rightarrow> 'u) \<Rightarrow> nat \<Rightarrow> 'l \<Rightarrow> 'u \<Rightarrow> mpbq option" where
  "doubling_loop select dbl_l dbl_u k l2k u2k =
     (let k = k + 1; l2k = dbl_l l2k; u2k = dbl_u u2k
      in case select l2k u2k of
           Some aux \<Rightarrow> Some (bq_set aux k)
         | None \<Rightarrow> doubling_loop select dbl_l dbl_u k l2k u2k)"

text \<open>The binary search for the exponent, with the last integer that was found.\<close>

partial_function (option) binary_loop :: "mpbq \<Rightarrow> mpbq \<Rightarrow> nat \<Rightarrow> nat \<Rightarrow> int \<Rightarrow> mpbq option" where
  "binary_loop lower upper min_k max_k aux =
     (let mid_k = min_k + (max_k - min_k) div 2;
          found = select_integer (bq_mul2k lower mid_k) (bq_mul2k upper mid_k);
          (min_k, max_k, aux) = (case found of Some aux \<Rightarrow> (min_k, mid_k, aux) | None \<Rightarrow> (mid_k + 1, max_k, aux))
      in if min_k = max_k then
           (if max_k = mid_k then Some (bq_set aux max_k)
            else
              case select_integer (bq_mul2k lower max_k) (bq_mul2k upper max_k) of
                Some aux \<Rightarrow> Some (bq_set aux max_k)
              | None \<Rightarrow> None)
         else binary_loop lower upper min_k max_k aux)"

definition select_small_core :: "mpbq \<Rightarrow> mpbq \<Rightarrow> mpbq option" where
  "select_small_core lower upper =
     (case select_integer lower upper of
        Some aux \<Rightarrow> Some (bq_set_int aux)
      | None \<Rightarrow>
          let max_k = min (bq_k lower) (bq_k upper)
          in if max_k \<le> 8 then doubling_loop select_integer bq_mul2 bq_mul2 0 lower upper
             else binary_loop lower upper 0 max_k 0)"

text \<open>No number is selected from an empty interval.\<close>

definition select_small :: "mpbq \<Rightarrow> mpbq \<Rightarrow> mpbq option option" where
  "select_small lower upper =
     (if bq_lt upper lower then Some None else map_option Some (select_small_core lower upper))"

definition select_small_core_qb :: "rat \<Rightarrow> mpbq \<Rightarrow> mpbq option" where
  "select_small_core_qb lower upper =
     (case select_integer_qb lower upper of
        Some aux \<Rightarrow> Some (bq_set_int aux)
      | None \<Rightarrow> doubling_loop select_integer_qb (\<lambda>q. q * 2) bq_mul2 0 lower upper)"

definition select_small_core_bq :: "mpbq \<Rightarrow> rat \<Rightarrow> mpbq option" where
  "select_small_core_bq lower upper =
     (case select_integer_bq lower upper of
        Some aux \<Rightarrow> Some (bq_set_int aux)
      | None \<Rightarrow> doubling_loop select_integer_bq bq_mul2 (\<lambda>q. q * 2) 0 lower upper)"

definition select_small_core_qq :: "rat \<Rightarrow> rat \<Rightarrow> mpbq option" where
  "select_small_core_qq lower upper =
     (case select_integer_qq lower upper of
        Some aux \<Rightarrow> Some (bq_set_int aux)
      | None \<Rightarrow> doubling_loop select_integer_qq (\<lambda>q. q * 2) (\<lambda>q. q * 2) 0 lower upper)"

section \<open>Approximation\<close>

definition bq_approx :: "mpbq \<Rightarrow> nat \<Rightarrow> bool \<Rightarrow> mpbq" where
  "bq_approx a k to_plus_inf =
     (if bq_k a \<le> k then a
      else
        let sgn = (bq_num a < 0); inc = (sgn \<noteq> to_plus_inf); shift = bq_k a - k;
            num = div2k \<bar>bq_num a\<bar> shift;
            num = (if inc then num + 1 else num);
            num = (if sgn then - num else num)
        in bq_normalize \<lparr>bq_num = num, bq_k = k\<rparr>)"

definition bq_approx_div :: "mpbq \<Rightarrow> mpbq \<Rightarrow> nat \<Rightarrow> bool \<Rightarrow> mpbq" where
  "bq_approx_div a b k to_plus_inf =
     (case int_is_power_of_two (bq_num b) of
        Some k_prime \<Rightarrow>
          bq_normalize \<lparr>bq_num = (if 0 < bq_k b then bq_num a * 2 ^ bq_k b else bq_num a), bq_k = bq_k a + k_prime\<rparr>
      | None \<Rightarrow>
          if bq_num b dvd bq_num a then
            (let num = bq_num a div bq_num b
             in bq_normalize
                  (if bq_k b \<le> bq_k a then \<lparr>bq_num = num, bq_k = bq_k a - bq_k b\<rparr>
                   else \<lparr>bq_num = num * 2 ^ (bq_k b - bq_k a), bq_k = 0\<rparr>))
          else
            let sgn = ((bq_num a < 0) \<noteq> (bq_num b < 0));
                abs_a = \<bar>bq_num a\<bar>; abs_b = \<bar>bq_num b\<bar>;
                norm_a =
                  (if bq_k b < bq_k a then
                     (if bq_k a - bq_k b \<le> k then abs_a * 2 ^ (k - (bq_k a - bq_k b))
                      else div2k abs_a ((bq_k a - bq_k b) - k))
                   else abs_a * 2 ^ (k + bq_k b - bq_k a));
                num = norm_a div abs_b;
                num = (if sgn \<noteq> to_plus_inf then num + 1 else num);
                num = (if sgn then - num else num)
            in bq_normalize \<lparr>bq_num = num, bq_k = k\<rparr>)"

end
