(* ===== verification/MpbqProof.thy ===== *)
theory MpbqProof
  imports Mpbq
begin

text \<open>
  Correctness of the binary rationals. A normalized number has an odd numerator or no exponent; every
  operation returns a normalized number that stands for the exact result, comparisons decide the order
  of the rationals, and the directed operations err on the side they promise.
\<close>

section \<open>Normalized numbers\<close>

definition wf_bq :: "mpbq \<Rightarrow> bool" where
  "wf_bq a = (bq_k a = 0 \<or> odd (bq_num a))"

lemma to_rational_mk [simp]: "to_rational \<lparr>bq_num = n, bq_k = k\<rparr> = of_int n / 2 ^ k"
  by (simp add: to_rational_def)

lemma div2k_exact: "div2k (w * 2 ^ k) k = w"
  by (simp add: div2k_def abs_mult sgn_mult mult_sgn_abs)

lemma pow2_shift: "j \<le> k \<Longrightarrow> of_int (w * 2 ^ j) / 2 ^ k = (of_int w / 2 ^ (k - j) :: rat)"
  by (simp add: power_diff)

lemma bq_normalize_correct [simp]: "to_rational (bq_normalize a) = to_rational a" "wf_bq (bq_normalize a)"
proof -
  have "to_rational (bq_normalize a) = to_rational a \<and> wf_bq (bq_normalize a)"
  proof (cases "bq_k a = 0 \<or> bq_num a = 0")
    case True
    then show ?thesis by (auto simp: bq_normalize_def wf_bq_def to_rational_def)
  next
    case False
    then obtain w where w: "odd w" "bq_num a = w * 2 ^ int_p2m (bq_num a)" using int_p2m_correct by blast
    let ?p = "int_p2m (bq_num a)"
    show ?thesis
    proof (cases "bq_k a < ?p")
      case True
      have "bq_num a = (w * 2 ^ (?p - bq_k a)) * 2 ^ bq_k a" 
        unfolding mult.assoc power_add [symmetric] using w(2) True by simp
      then obtain v where v: "bq_num a = v * 2 ^ bq_k a" by blast
      have "bq_normalize a = \<lparr>bq_num = div2k (bq_num a) (bq_k a), bq_k = 0\<rparr>"
        using False True by (simp add: bq_normalize_def Let_def)
      then show ?thesis using v by (simp add: div2k_exact wf_bq_def to_rational_def)
    next
      case ge: False
      have "bq_normalize a = \<lparr>bq_num = div2k (bq_num a) ?p, bq_k = bq_k a - ?p\<rparr>"
        using False ge by (simp add: bq_normalize_def Let_def)
      moreover have "div2k (bq_num a) ?p = w" using div2k_exact [of w ?p] w(2) by simp
      moreover have "of_int (bq_num a) / 2 ^ bq_k a = (of_int w / 2 ^ (bq_k a - ?p) :: rat)"
        using pow2_shift [of ?p "bq_k a" w] ge w(2) by simp
      ultimately show ?thesis using w(1) by (simp add: wf_bq_def to_rational_def)
    qed
  qed
  then show "to_rational (bq_normalize a) = to_rational a" "wf_bq (bq_normalize a)" by blast+
qed

lemma bq_set_correct [simp]: "to_rational (bq_set n k) = of_int n / 2 ^ k" "wf_bq (bq_set n k)"
  "to_rational (bq_set_int n) = of_int n" "wf_bq (bq_set_int n)"
  by (simp_all add: bq_set_def bq_set_int_def) (simp add: wf_bq_def)

text \<open>A normalized number is the only one for its value.\<close>

lemma wf_bq_unique:
  assumes "wf_bq a" "wf_bq b" "to_rational a = to_rational b"
  shows "a = b"
proof -
  have le: "bq_k a \<le> bq_k b" if "wf_bq a" "to_rational a = to_rational b" for a b
  proof (rule ccontr)
    assume n: "\<not> bq_k a \<le> bq_k b"
    have "(of_int (bq_num a) :: rat) * 2 ^ bq_k b = of_int (bq_num b) * 2 ^ bq_k a"
      using that(2) by (simp add: to_rational_def field_simps)
    then have "of_int (bq_num a * 2 ^ bq_k b) = (of_int (bq_num b * 2 ^ bq_k a) :: rat)" by simp
    then have e: "bq_num a * 2 ^ bq_k b = bq_num b * 2 ^ bq_k a" by (simp only: of_int_eq_iff)
    have "(2 :: int) ^ bq_k a = 2 ^ (bq_k a - bq_k b) * 2 ^ bq_k b" using n by (simp flip: power_add)
    then have "bq_num a = bq_num b * 2 ^ (bq_k a - bq_k b)" using e by simp
    then have "even (bq_num a)" using n by simp
    then show False using that(1) n by (simp add: wf_bq_def)
  qed
  have k: "bq_k a = bq_k b" using le [OF assms(1,3)] le [OF assms(2) assms(3) [symmetric]] by simp
  then have "bq_num a = bq_num b" using assms(3) by (simp add: to_rational_def)
  then show ?thesis using k by simp
qed

section \<open>Arithmetic\<close>

lemma pow2_up: "i \<le> j \<Longrightarrow> (of_int n :: rat) * 2 ^ (j - i) / 2 ^ j = of_int n / 2 ^ i"
  by (simp add: power_diff)

lemma bq_add_correct [simp]: "to_rational (bq_add a b) = to_rational a + to_rational b" "wf_bq (bq_add a b)"
  by (cases a; cases b; auto simp: bq_add_def add_divide_distrib pow2_up)+

lemma bq_sub_correct [simp]: "to_rational (bq_sub a b) = to_rational a - to_rational b" "wf_bq (bq_sub a b)"
  by (cases a; cases b; auto simp: bq_sub_def diff_divide_distrib pow2_up)+

lemma bq_add_z_correct [simp]: "to_rational (bq_add_z a b) = to_rational a + of_int b" "wf_bq (bq_add_z a b)"
  by (cases a; auto simp: bq_add_z_def add_divide_distrib)+

lemma bq_sub_z_correct [simp]: "to_rational (bq_sub_z a b) = to_rational a - of_int b" "wf_bq (bq_sub_z a b)"
  by (cases a; auto simp: bq_sub_z_def diff_divide_distrib)+

lemma bq_mul_val [simp]: "to_rational (bq_mul a b) = to_rational a * to_rational b"
  by (cases a; cases b; auto simp: bq_mul_def Let_def power_add)

lemma bq_mul_wf: "wf_bq a \<Longrightarrow> wf_bq b \<Longrightarrow> wf_bq (bq_mul a b)"
  by (cases "bq_k a = 0 \<or> bq_k b = 0") (auto simp: bq_mul_def Let_def, auto simp: wf_bq_def)

lemma bq_mul_z_correct [simp]: "to_rational (bq_mul_z a b) = to_rational a * of_int b" "wf_bq (bq_mul_z a b)"
  by (cases a; simp add: bq_mul_z_def)+

lemma bq_addmul_correct [simp]:
  "to_rational (bq_addmul a b c) = to_rational a + to_rational b * to_rational c" "wf_bq (bq_addmul a b c)"
  by (simp_all add: bq_addmul_def)

lemma bq_neg_correct [simp]: "to_rational (bq_neg a) = - to_rational a" "wf_bq (bq_neg a) \<longleftrightarrow> wf_bq a"
  by (cases a; simp add: bq_neg_def wf_bq_def)+

lemma bq_mul2_correct [simp]: "to_rational (bq_mul2 a) = 2 * to_rational a" "wf_bq a \<Longrightarrow> wf_bq (bq_mul2 a)"
  by (cases a; cases "bq_k a"; simp add: bq_mul2_def wf_bq_def)+

lemma pow2_scale:
  "i \<le> k \<Longrightarrow> (x :: rat) * 2 ^ (k - i) = 2 ^ k * (x / 2 ^ i)"
  "k \<le> i \<Longrightarrow> (x :: rat) / 2 ^ (i - k) = 2 ^ k * (x / 2 ^ i)"
  by (simp_all add: power_diff)

lemma bq_mul2k_correct [simp]: "to_rational (bq_mul2k a k) = 2 ^ k * to_rational a" "wf_bq a \<Longrightarrow> wf_bq (bq_mul2k a k)"
proof -
  obtain n i where a: "a = \<lparr>bq_num = n, bq_k = i\<rparr>" by (cases a) auto
  show "to_rational (bq_mul2k a k) = 2 ^ k * to_rational a"
    using pow2_scale(1) [of i k "of_int n"] pow2_scale(2) [of k i "of_int n"]
    by (auto simp: a bq_mul2k_def simp del: times_divide_eq_right)
  show "wf_bq a \<Longrightarrow> wf_bq (bq_mul2k a k)" by (auto simp: a bq_mul2k_def wf_bq_def)
qed

lemma bq_div2_correct [simp]: "to_rational (bq_div2 a) = to_rational a / 2" "wf_bq a \<Longrightarrow> wf_bq (bq_div2 a)"
proof -
  show "to_rational (bq_div2 a) = to_rational a / 2" by (cases a) (auto simp: bq_div2_def Let_def)
  show "wf_bq a \<Longrightarrow> wf_bq (bq_div2 a)"
    by (cases "bq_k a = 0") (simp add: bq_div2_def, simp add: bq_div2_def wf_bq_def)
qed

lemma bq_div2k_correct [simp]: "to_rational (bq_div2k a k) = to_rational a / 2 ^ k" "wf_bq a \<Longrightarrow> wf_bq (bq_div2k a k)"
proof -
  show "to_rational (bq_div2k a k) = to_rational a / 2 ^ k" by (cases a) (auto simp: bq_div2k_def Let_def power_add)
  show "wf_bq a \<Longrightarrow> wf_bq (bq_div2k a k)"
    by (cases "bq_k a = 0") (simp add: bq_div2k_def, simp add: bq_div2k_def wf_bq_def)
qed

lemma bq_power_correct [simp]: "to_rational (bq_power a k) = to_rational a ^ k" "wf_bq a \<Longrightarrow> wf_bq (bq_power a k)"
  by (cases a; auto simp: bq_power_def wf_bq_def power_mult power_divide)+

text \<open>Multiplication into the first operand forgets to normalize: \<open>2 * (1/2)\<close> is left as \<open>2/2\<close>.\<close>

lemma bq_mul_into_not_normalized:
  "bq_mul_into (bq_set_int 2) (bq_set 1 1) = \<lparr>bq_num = 2, bq_k = 1\<rparr>"
  "\<not> bq_eq (bq_mul_into (bq_set_int 2) (bq_set 1 1)) (bq_set_int 1)"
  by (simp_all add: bq_mul_into_def bq_set_int_def bq_set_def bq_normalize_def bq_eq_def int_p2m.simps div2k_def)

section \<open>Comparison\<close>

lemma bq_eq_correct: "wf_bq a \<Longrightarrow> wf_bq b \<Longrightarrow> bq_eq a b \<longleftrightarrow> to_rational a = to_rational b"
  using wf_bq_unique [of a b] by (auto simp: bq_eq_def to_rational_def)

lemma common_exponent:
  "i \<le> j \<Longrightarrow> (of_int n :: rat) / 2 ^ i = of_int (n * 2 ^ (j - i)) / 2 ^ j"
  using pow2_up [of i j n] by simp

lemma bq_lt_correct: "bq_lt a b \<longleftrightarrow> to_rational a < to_rational b"
proof -
  obtain n i m j where ab: "a = \<lparr>bq_num = n, bq_k = i\<rparr>" "b = \<lparr>bq_num = m, bq_k = j\<rparr>" by (cases a; cases b) auto
  have lt: "(of_int x :: rat) / 2 ^ k < of_int y / 2 ^ k \<longleftrightarrow> x < y" for x y k
    by (simp add: divide_less_cancel)
  consider "i = j" | "i < j" | "j < i" by linarith
  then show ?thesis
  proof cases
    case 1
    then show ?thesis by (simp add: ab bq_lt_def lt)
  next
    case 2
    then show ?thesis using common_exponent [of i j n] by (simp add: ab bq_lt_def lt del: of_int_mult of_int_power)
  next
    case 3
    then show ?thesis using common_exponent [of j i m] by (simp add: ab bq_lt_def lt del: of_int_mult of_int_power)
  qed
qed

lemma lt_1div2k_correct: "lt_1div2k a k \<longleftrightarrow> to_rational a < 1 / 2 ^ k"
proof -
  obtain n i where a: "a = \<lparr>bq_num = n, bq_k = i\<rparr>" by (cases a) auto
  consider "n \<le> 0" | "0 < n" "i \<le> k" | "0 < n" "k < i" by linarith
  then show ?thesis
  proof cases
    case 1
    have "(of_int n :: rat) / 2 ^ i \<le> 0" using 1 by (simp add: divide_le_0_iff)
    moreover have "(0 :: rat) < 1 / 2 ^ k" by simp
    ultimately have "(of_int n :: rat) / 2 ^ i < 1 / 2 ^ k" by linarith
    then show ?thesis using 1 by (simp add: a lt_1div2k_def)
  next
    case 2
    have "(1 :: rat) / 2 ^ k \<le> 1 / 2 ^ i" using 2(2) by (simp add: frac_le power_increasing)
    also have "\<dots> \<le> of_int n / 2 ^ i" using 2(1) by (simp add: divide_right_mono)
    finally show ?thesis using 2 by (simp add: a lt_1div2k_def)
  next
    case 3
    have "(1 :: rat) / 2 ^ k = of_int (1 * 2 ^ (i - k)) / 2 ^ i" using common_exponent [of k i 1] 3 by simp
    then have "to_rational a < 1 / 2 ^ k \<longleftrightarrow> n < 1 * 2 ^ (i - k)"
      by (simp add: a divide_less_cancel del: of_int_mult of_int_power)
    then show ?thesis using 3 by (simp add: a lt_1div2k_def)
  qed
qed

lemma q_parts: "q = of_int (q_num q) / of_int (q_den q)" "0 < q_den q"
  using quotient_of_div [of q "q_num q" "q_den q"] quotient_of_denom_pos [of q "q_num q" "q_den q"]
  by (simp_all add: q_num_def q_den_def)

lemma q_int: "q_den q = 1 \<Longrightarrow> q = of_int (q_num q)"
  using q_parts(1) [of q] by simp

lemma cross_compare:
  fixes n m d :: int
  assumes "0 < d"
  shows "(of_int n :: rat) / 2 ^ k < of_int m / of_int d \<longleftrightarrow> n * d < m * 2 ^ k"
    "(of_int n :: rat) / 2 ^ k \<le> of_int m / of_int d \<longleftrightarrow> n * d \<le> m * 2 ^ k"
    "(of_int n :: rat) / 2 ^ k = of_int m / of_int d \<longleftrightarrow> m * 2 ^ k = n * d"
proof -
  have c: "a / p < b / q \<longleftrightarrow> a * q < b * p" "a / p \<le> b / q \<longleftrightarrow> a * q \<le> b * p" "a / p = b / q \<longleftrightarrow> b * p = a * q"
    if "0 < p" "0 < q" for a b p q :: rat using that by (auto simp: field_simps)
  have p: "(0 :: rat) < 2 ^ k" "(0 :: rat) < of_int d" using assms by simp_all
  have i: "(of_int n :: rat) * of_int d = of_int (n * d)" "(of_int m :: rat) * 2 ^ k = of_int (m * 2 ^ k)" by simp_all
  show "(of_int n :: rat) / 2 ^ k < of_int m / of_int d \<longleftrightarrow> n * d < m * 2 ^ k"
    "(of_int n :: rat) / 2 ^ k \<le> of_int m / of_int d \<longleftrightarrow> n * d \<le> m * 2 ^ k"
    "(of_int n :: rat) / 2 ^ k = of_int m / of_int d \<longleftrightarrow> m * 2 ^ k = n * d"
    unfolding c [OF p] i by (simp_all only: of_int_less_iff of_int_le_iff of_int_eq_iff)
qed

lemma bq_compare_q:
  "bq_eq_q a q \<longleftrightarrow> to_rational a = q" "bq_lt_q a q \<longleftrightarrow> to_rational a < q" "bq_le_q a q \<longleftrightarrow> to_rational a \<le> q"
proof -
  obtain n k where a: "a = \<lparr>bq_num = n, bq_k = k\<rparr>" by (cases a) auto
  have e: "to_rational a = of_int n / 2 ^ k" by (simp add: a)
  have c: "to_rational a = q \<longleftrightarrow> q_num q * 2 ^ k = n * q_den q" "to_rational a < q \<longleftrightarrow> n * q_den q < q_num q * 2 ^ k"
    "to_rational a \<le> q \<longleftrightarrow> n * q_den q \<le> q_num q * 2 ^ k"
    using cross_compare [OF q_parts(2) [of q], of n k "q_num q"] unfolding e q_parts(1) [of q, symmetric] by blast+
  show "bq_eq_q a q \<longleftrightarrow> to_rational a = q" "bq_lt_q a q \<longleftrightarrow> to_rational a < q" "bq_le_q a q \<longleftrightarrow> to_rational a \<le> q"
    unfolding c by (auto simp: a bq_eq_q_def bq_lt_q_def bq_le_q_def bq_is_int_def)
qed

lemma bq_compare_z: "bq_lt_z a b \<longleftrightarrow> to_rational a < of_int b" "bq_le_z a b \<longleftrightarrow> to_rational a \<le> of_int b"
proof -
  obtain n k where a: "a = \<lparr>bq_num = n, bq_k = k\<rparr>" by (cases a) auto
  show "bq_lt_z a b \<longleftrightarrow> to_rational a < of_int b" "bq_le_z a b \<longleftrightarrow> to_rational a \<le> of_int b"
    using cross_compare(1,2) [of 1 n k b] by (auto simp: a bq_lt_z_def bq_le_z_def bq_is_int_def)
qed

section \<open>Floors and ceilings\<close>

lemma floor_frac:
  assumes "0 < d" "\<not> d dvd n"
  shows "\<lfloor>(of_int n :: rat) / of_int d\<rfloor> = (if n < 0 then n sdiv d - 1 else n sdiv d)"
    "\<lceil>(of_int n :: rat) / of_int d\<rceil> = (if 0 < n then n sdiv d + 1 else n sdiv d)"
proof -
  have f: "\<lfloor>(of_int n :: rat) / of_int d\<rfloor> = n div d" by (rule floor_divide_of_int_eq)
  have nm: "(- n) mod d \<noteq> 0" "n mod d \<noteq> 0" using assms(2) by (simp_all add: mod_eq_0_iff_dvd)
  have s: "n sdiv d = (if n < 0 then - ((- n) div d) else n div d)"
    using assms(1) by (auto simp: signed_divide_int_def sgn_if)
  have m: "(- n) div d = - (n div d) - 1" using nm(2) assms(1) by (simp add: zdiv_zminus1_eq_if)
  have n0: "n \<noteq> 0" using assms(2) by auto
  show "\<lfloor>(of_int n :: rat) / of_int d\<rfloor> = (if n < 0 then n sdiv d - 1 else n sdiv d)" unfolding f s m by simp
  have "\<lceil>(of_int n :: rat) / of_int d\<rceil> = - (\<lfloor>(of_int (- n) :: rat) / of_int d\<rfloor>)" by (simp add: ceiling_def)
  also have "\<dots> = n div d + 1" unfolding floor_divide_of_int_eq m by simp
  finally show "\<lceil>(of_int n :: rat) / of_int d\<rceil> = (if 0 < n then n sdiv d + 1 else n sdiv d)"
    using n0 unfolding s m by simp
qed

lemma bq_floor_ceil:
  assumes "wf_bq a"
  shows "bq_floor a = \<lfloor>to_rational a\<rfloor>" "bq_ceil a = \<lceil>to_rational a\<rceil>"
proof -
  obtain n k where a: "a = \<lparr>bq_num = n, bq_k = k\<rparr>" by (cases a) auto
  have "bq_floor a = \<lfloor>to_rational a\<rfloor> \<and> bq_ceil a = \<lceil>to_rational a\<rceil>"
  proof (cases "k = 0")
    case True
    then show ?thesis by (simp add: a bq_floor_def bq_ceil_def bq_is_int_def)
  next
    case False
    then have "odd n" using assms by (simp add: a wf_bq_def)
    then have nd: "\<not> 2 ^ k dvd n" using False by (metis dvd_trans even_power dvd_refl gr0I)
    show ?thesis
      using floor_frac [of "2 ^ k" n] nd False by (simp add: a bq_floor_def bq_ceil_def bq_is_int_def sdiv_pow2)
  qed
  then show "bq_floor a = \<lfloor>to_rational a\<rfloor>" "bq_ceil a = \<lceil>to_rational a\<rceil>" by blast+
qed

lemma q_floor_ceil: "q_floor q = \<lfloor>q\<rfloor>" "q_ceil q = \<lceil>q\<rceil>"
proof -
  have "q_floor q = \<lfloor>q\<rfloor> \<and> q_ceil q = \<lceil>q\<rceil>"
  proof (cases "q_den q = 1")
    case True
    then show ?thesis using q_int [OF True] by (metis ceiling_of_int floor_of_int q_ceil_def q_floor_def)
  next
    case False
    have "coprime (q_num q) (q_den q)"
      using quotient_of_coprime [of q "q_num q" "q_den q"] by (simp add: q_num_def q_den_def)
    then have "\<not> q_den q dvd q_num q" using False q_parts(2) [of q]
      by (metis coprime_common_divisor_int dvd_refl abs_of_pos)
    note f = floor_frac [OF q_parts(2) this, folded q_parts(1)]
    show ?thesis using False unfolding f by (simp add: q_floor_def q_ceil_def)
  qed
  then show "q_floor q = \<lfloor>q\<rfloor>" "q_ceil q = \<lceil>q\<rceil>" by blast+
qed

lemma q_den_1_iff: "q_den q = 1 \<longleftrightarrow> q \<in> \<int>"
proof
  assume "q \<in> \<int>"
  then obtain z where "q = of_int z" by (auto elim: Ints_cases)
  then show "q_den q = 1" by (simp add: q_den_def)
qed (metis Ints_of_int q_int)

lemma int_between:
  assumes "\<lceil>l\<rceil> \<le> \<lfloor>u\<rfloor>"
  shows "(l :: rat) \<le> of_int \<lceil>l\<rceil> \<and> of_int \<lceil>l\<rceil> \<le> (u :: rat)"
  using assms by (metis le_floor_iff le_of_int_ceiling)

lemma no_int_between:
  assumes "\<not> \<lceil>l\<rceil> \<le> \<lfloor>u\<rfloor>" "(l :: rat) \<le> of_int z" "of_int z \<le> (u :: rat)"
  shows False
  using assms by (meson ceiling_le_iff le_floor_iff order_trans)

text \<open>The least integer above and the greatest integer below, strictly.\<close>

lemma strict_ceil: "(if q_den l = 1 then q_num l + 1 else q_ceil l) = \<lfloor>l\<rfloor> + 1"
proof (cases "q_den l = 1")
  case True
  then show ?thesis using q_int [OF True] by (metis floor_of_int)
next
  case False
  then have "l \<notin> \<int>" using q_den_1_iff by blast
  then show ?thesis using False by (simp add: q_floor_ceil ceiling_altdef) (metis Ints_of_int)
qed

lemma strict_floor: "(if q_den u = 1 then q_num u - 1 else q_floor u) = \<lceil>u\<rceil> - 1"
proof (cases "q_den u = 1")
  case True
  then show ?thesis using q_int [OF True] by (metis ceiling_of_int)
next
  case False
  then have "u \<notin> \<int>" using q_den_1_iff by blast
  then show ?thesis using False by (simp add: q_floor_ceil ceiling_altdef) (metis Ints_of_int)
qed

section \<open>Selection\<close>

text \<open>
  What the selection of an integer between two ends promises, whatever the kind of the ends, and the
  search that only uses this: it ends, with a number between the ends whose exponent is least.
\<close>

locale integer_selection =
  fixes select :: "'l \<Rightarrow> 'u \<Rightarrow> int option" and dbl_l :: "'l \<Rightarrow> 'l" and dbl_u :: "'u \<Rightarrow> 'u"
    and l_ok :: "'l \<Rightarrow> bool" and u_ok :: "'u \<Rightarrow> bool" and l_val :: "'l \<Rightarrow> rat" and u_val :: "'u \<Rightarrow> rat"
    and ordered above below :: "rat \<Rightarrow> rat \<Rightarrow> bool"
  assumes dbl_l: "l_ok l \<Longrightarrow> l_ok (dbl_l l)" "l_val (dbl_l l) = 2 * l_val l"
    and dbl_u: "u_ok u \<Longrightarrow> u_ok (dbl_u u)" "u_val (dbl_u u) = 2 * u_val u"
    and select_some: "\<lbrakk>l_ok l; u_ok u; ordered (l_val l) (u_val u); select l u = Some z\<rbrakk> \<Longrightarrow> above (l_val l) (of_int z) \<and> below (of_int z) (u_val u)"
    and select_none: "\<lbrakk>l_ok l; u_ok u; select l u = None; above (l_val l) (of_int z)\<rbrakk> \<Longrightarrow> \<not> below (of_int z) (u_val u)"
    and ordered_double: "ordered (2 * x) (2 * y) \<longleftrightarrow> ordered x y"
    and above_double: "above (2 * x) (2 * y) \<longleftrightarrow> above x y" and below_double: "below (2 * x) (2 * y) \<longleftrightarrow> below x y"
begin

lemma above_scale: "above (2 ^ k * x) (2 ^ k * y) \<longleftrightarrow> above x y"
  by (induction k arbitrary: x y) (simp_all add: mult.assoc above_double)

lemma ordered_scale: "ordered (2 ^ k * x) (2 ^ k * y) \<longleftrightarrow> ordered x y"
  by (induction k arbitrary: x y) (simp_all add: mult.assoc ordered_double)

lemma below_scale: "below (2 ^ k * x) (2 ^ k * y) \<longleftrightarrow> below x y"
  by (induction k arbitrary: x y) (simp_all add: mult.assoc below_double)

text \<open>A candidate with exponent \<open>k\<close>.\<close>

lemma doubling_loop_correct:
  assumes ok: "l_ok l2k" "u_ok u2k" and le: "ordered l u"
    and v: "l_val l2k = 2 ^ k * l" "u_val u2k = 2 ^ k * u"
    and ex: "k < k'" "above l (of_int z / 2 ^ k')" "below (of_int z / 2 ^ k') u"
    and none: "\<And>j w. j \<le> k \<Longrightarrow> \<not> (above l (of_int w / 2 ^ j) \<and> below (of_int w / 2 ^ j) u)"
  shows "\<exists>r. doubling_loop select dbl_l dbl_u k l2k u2k = Some r \<and> wf_bq r \<and>
    above l (to_rational r) \<and> below (to_rational r) u \<and>
    (\<forall>j w. j < bq_k r \<longrightarrow> \<not> (above l (of_int w / 2 ^ j) \<and> below (of_int w / 2 ^ j) u))"
  using assms
proof (induction "k' - k" arbitrary: k l2k u2k rule: less_induct)
  case less
  let ?l = "dbl_l l2k" and ?u = "dbl_u u2k"
  have ok: "l_ok ?l" "u_ok ?u" using dbl_l(1) dbl_u(1) less.prems by blast+
  have v: "l_val ?l = 2 ^ Suc k * l" "u_val ?u = 2 ^ Suc k * u"
    using dbl_l(2) dbl_u(2) less.prems(4,5) by simp_all
  have vle: "ordered (l_val ?l) (u_val ?u)" unfolding v ordered_scale by (rule less.prems(3))
  have scale: "above (l_val ?l) (of_int w) \<longleftrightarrow> above l (of_int w / 2 ^ Suc k)"
    "below (of_int w) (u_val ?u) \<longleftrightarrow> below (of_int w / 2 ^ Suc k) u" for w
    unfolding v using above_scale [of "Suc k" l "of_int w / 2 ^ Suc k"] below_scale [of "Suc k" "of_int w / 2 ^ Suc k" u]
    by simp_all
  show ?case
  proof (cases "select ?l ?u")
    case (Some aux)
    have r: "doubling_loop select dbl_l dbl_u k l2k u2k = Some (bq_set aux (Suc k))"
      using Some by (subst doubling_loop.simps) (simp add: Let_def)
    have in': "above l (of_int aux / 2 ^ Suc k) \<and> below (of_int aux / 2 ^ Suc k) u"
      using select_some [OF ok vle Some] unfolding scale .
    have "bq_k (bq_set aux (Suc k)) \<le> Suc k" by (simp add: bq_set_def bq_normalize_def Let_def)
    then have "\<not> (above l (of_int w / 2 ^ j) \<and> below (of_int w / 2 ^ j) u)" if "j < bq_k (bq_set aux (Suc k))" for j w
      using that less.prems(9) [of j w] by simp
    then show ?thesis using r in' by simp
  next
    case None
    have nk: "\<not> (above l (of_int w / 2 ^ Suc k) \<and> below (of_int w / 2 ^ Suc k) u)" for w
      using select_none [OF ok None] unfolding scale by blast
    then have "k' \<noteq> Suc k" using less.prems(7,8) by blast
    then have lt: "Suc k < k'" using less.prems(6) by simp
    have "\<exists>r. doubling_loop select dbl_l dbl_u (Suc k) ?l ?u = Some r \<and> wf_bq r \<and>
        above l (to_rational r) \<and> below (to_rational r) u \<and>
        (\<forall>j w. j < bq_k r \<longrightarrow> \<not> (above l (of_int w / 2 ^ j) \<and> below (of_int w / 2 ^ j) u))"
    proof (rule less.hyps [OF _ ok less.prems(3) v lt less.prems(7,8)])
      show "k' - Suc k < k' - k" using lt by simp
      show "\<not> (above l (of_int w / 2 ^ j) \<and> below (of_int w / 2 ^ j) u)" if "j \<le> Suc k" for j w
        using that less.prems(9) [of j w] nk [of w] by (cases "j = Suc k") auto
    qed
    then show ?thesis using None by (subst doubling_loop.simps) (simp add: Let_def)
  qed
qed

text \<open>The whole selection: an integer when there is one, otherwise the search.\<close>

lemma selection_correct:
  assumes ok: "l_ok l" "u_ok u" and le: "ordered (l_val l) (u_val u)"
    and ex: "0 < k'" "above (l_val l) (of_int z / 2 ^ k')" "below (of_int z / 2 ^ k') (u_val u)"
  shows "\<exists>r. (case select l u of Some aux \<Rightarrow> Some (bq_set_int aux) | None \<Rightarrow> doubling_loop select dbl_l dbl_u 0 l u) = Some r \<and>
    wf_bq r \<and> above (l_val l) (to_rational r) \<and> below (to_rational r) (u_val u) \<and>
    (\<forall>j w. j < bq_k r \<longrightarrow> \<not> (above (l_val l) (of_int w / 2 ^ j) \<and> below (of_int w / 2 ^ j) (u_val u)))"
proof (cases "select l u")
  case (Some aux)
  then show ?thesis using select_some [OF ok le Some] by (simp add: bq_set_int_def) (simp add: wf_bq_def)
next
  case None
  have "\<exists>r. doubling_loop select dbl_l dbl_u 0 l u = Some r \<and> wf_bq r \<and>
      above (l_val l) (to_rational r) \<and> below (to_rational r) (u_val u) \<and>
      (\<forall>j w. j < bq_k r \<longrightarrow> \<not> (above (l_val l) (of_int w / 2 ^ j) \<and> below (of_int w / 2 ^ j) (u_val u)))"
    using select_none [OF ok None] by (intro doubling_loop_correct [OF ok le _ _ ex]) auto
  then show ?thesis using None by simp
qed

end

lemma rat_double: "(2 * x \<le> 2 * y) \<longleftrightarrow> x \<le> y" "(2 * x < 2 * y) \<longleftrightarrow> x < (y :: rat)"
  by simp_all

lemma bq_is_int_val: "bq_is_int a \<Longrightarrow> to_rational a = of_int (bq_num a)"
  by (simp add: bq_is_int_def to_rational_def)

interpretation bb: integer_selection select_integer bq_mul2 bq_mul2 wf_bq wf_bq to_rational to_rational "(\<le>)" "(\<le>)" "(\<le>)"
proof
  fix l u z
  assume ok: "wf_bq l" "wf_bq u" and le: "to_rational l \<le> to_rational u" and s: "select_integer l u = Some z"
  show "to_rational l \<le> of_int z \<and> of_int z \<le> to_rational u"
    using s le int_between [of "to_rational l" "to_rational u"] bq_is_int_val [of l] bq_is_int_val [of u]
    by (auto simp: select_integer_def Let_def bq_floor_ceil [OF ok(1)] bq_floor_ceil [OF ok(2)] split: if_splits)
next
  fix l u z
  assume ok: "wf_bq l" "wf_bq u" and s: "select_integer l u = None" and l: "to_rational l \<le> of_int z"
  show "\<not> of_int z \<le> to_rational u"
    using s l no_int_between [of "to_rational l" "to_rational u" z]
    by (auto simp: select_integer_def Let_def bq_floor_ceil [OF ok(1)] bq_floor_ceil [OF ok(2)] split: if_splits)
qed simp_all

lemma floor_between: "\<lfloor>l\<rfloor> + 1 \<le> z \<longleftrightarrow> (l :: rat) < of_int z"
  by (simp only: floor_less_iff [symmetric]) linarith

lemma ceil_between: "z \<le> \<lceil>u\<rceil> - 1 \<longleftrightarrow> of_int z < (u :: rat)"
  by (simp add: less_ceiling_iff [symmetric])

interpretation qb: integer_selection select_integer_qb "\<lambda>q. q * 2" bq_mul2 "\<lambda>_. True" wf_bq "\<lambda>q. q" to_rational "(<)" "(<)" "(\<le>)"
proof
  fix l u z
  assume ok: "wf_bq u" and le: "l < to_rational u" and s: "select_integer_qb l u = Some z"
  show "l < of_int z \<and> of_int z \<le> to_rational u"
    using s le bq_is_int_val [of u] floor_between [of l z]
    by (auto simp: select_integer_qb_def Let_def strict_ceil bq_floor_ceil [OF ok] le_floor_iff split: if_splits)
next
  fix l u z
  assume ok: "wf_bq u" and s: "select_integer_qb l u = None" and l: "l < of_int z"
  show "\<not> of_int z \<le> to_rational u"
    using s l floor_between [of l z]
    by (auto simp: select_integer_qb_def Let_def strict_ceil bq_floor_ceil [OF ok] le_floor_iff [symmetric] split: if_splits)
qed simp_all

interpretation bq: integer_selection select_integer_bq bq_mul2 "\<lambda>q. q * 2" wf_bq "\<lambda>_. True" to_rational "\<lambda>q. q" "(<)" "(\<le>)" "(<)"
proof
  fix l u z
  assume ok: "wf_bq l" and le: "to_rational l < u" and s: "select_integer_bq l u = Some z"
  show "to_rational l \<le> of_int z \<and> of_int z < u"
    using s le bq_is_int_val [of l] ceil_between [of z u]
    by (auto simp: select_integer_bq_def Let_def strict_floor bq_floor_ceil [OF ok] ceiling_le_iff split: if_splits)
next
  fix l u z
  assume ok: "wf_bq l" and s: "select_integer_bq l u = None" and l: "to_rational l \<le> of_int z"
  show "\<not> of_int z < u"
    using s l ceil_between [of z u]
    by (auto simp: select_integer_bq_def Let_def strict_floor bq_floor_ceil [OF ok] ceiling_le_iff [symmetric] split: if_splits)
qed simp_all

interpretation qq: integer_selection select_integer_qq "\<lambda>q. q * 2" "\<lambda>q. q * 2" "\<lambda>_. True" "\<lambda>_. True" "\<lambda>q. q" "\<lambda>q. q" "(<)" "(<)" "(<)"
proof
  fix l u :: rat and z
  assume s: "select_integer_qq l u = Some z"
  show "l < of_int z \<and> of_int z < u"
    using s floor_between [of l z] ceil_between [of z u]
    by (auto simp: select_integer_qq_def Let_def strict_ceil strict_floor split: if_splits)
next
  fix l u :: rat and z
  assume s: "select_integer_qq l u = None" and l: "l < of_int z"
  show "\<not> of_int z < u"
    using s l floor_between [of l z] ceil_between [of z u]
    by (auto simp: select_integer_qq_def Let_def strict_ceil strict_floor split: if_splits)
qed simp_all

lemma dyadic_between:
  assumes "l < (u :: rat)"
  shows "\<exists>k z. 0 < k \<and> l < of_int z / 2 ^ k \<and> of_int z / 2 ^ k < u"
proof -
  obtain n :: nat where n: "2 / (u - l) < of_nat n" using reals_Archimedean2 by blast
  let ?k = "Suc n"
  have "of_nat n < (2 :: rat) ^ n" using of_nat_less_two_power by blast
  then have "2 / (u - l) < 2 ^ ?k" using n unfolding power_Suc by linarith
  then have g: "2 < 2 ^ ?k * (u - l)" using assms by (simp add: field_simps)
  let ?z = "\<lfloor>2 ^ ?k * l\<rfloor> + 1"
  have "2 ^ ?k * l < of_int ?z" "of_int ?z < 2 ^ ?k * u"
    using g floor_correct [of "2 ^ ?k * l"] by (simp_all add: right_diff_distrib) linarith+
  then have "l < of_int ?z / 2 ^ ?k" "of_int ?z / 2 ^ ?k < u"
    by (simp_all only: pos_less_divide_eq pos_divide_less_eq zero_less_power zero_less_numeral mult.commute)
  then show ?thesis by blast
qed

lemma binary_loop_correct:
  assumes wf: "wf_bq lower" "wf_bq upper" and le: "to_rational lower \<le> to_rational upper"
    and k: "min_k < max_k"
    and ex: "to_rational lower \<le> of_int z / 2 ^ max_k" "of_int z / 2 ^ max_k \<le> to_rational upper"
    and none: "\<And>j w. j < min_k \<Longrightarrow> \<not> (to_rational lower \<le> of_int w / 2 ^ j \<and> of_int w / 2 ^ j \<le> to_rational upper)"
  shows "\<exists>r. binary_loop lower upper min_k max_k aux = Some r \<and> wf_bq r \<and>
    to_rational lower \<le> to_rational r \<and> to_rational r \<le> to_rational upper \<and>
    (\<forall>j w. j < bq_k r \<longrightarrow> \<not> (to_rational lower \<le> of_int w / 2 ^ j \<and> of_int w / 2 ^ j \<le> to_rational upper))"
  using k ex none
proof (induction "max_k - min_k" arbitrary: min_k max_k aux z rule: less_induct)
  case less
  let ?in = "\<lambda>j w. to_rational lower \<le> of_int w / 2 ^ j \<and> of_int w / 2 ^ j \<le> to_rational upper"
  let ?mid = "min_k + (max_k - min_k) div 2"
  let ?sel = "\<lambda>k. select_integer (bq_mul2k lower k) (bq_mul2k upper k)"
  have mid: "min_k \<le> ?mid" "?mid < max_k" using less.prems(1) by auto
  have scale: "to_rational (bq_mul2k lower k) \<le> of_int w \<longleftrightarrow> to_rational lower \<le> of_int w / 2 ^ k"
    "of_int w \<le> to_rational (bq_mul2k upper k) \<longleftrightarrow> of_int w / 2 ^ k \<le> to_rational upper" for k w
    by (simp_all add: field_simps)
  have vle: "to_rational (bq_mul2k lower k) \<le> to_rational (bq_mul2k upper k)" for k using le by simp
  have some: "?sel k = Some w \<Longrightarrow> ?in k w" for k w
    using bb.select_some [OF bq_mul2k_correct(2) [OF wf(1)] bq_mul2k_correct(2) [OF wf(2)] vle] unfolding scale by blast
  have no: "?sel k = None \<Longrightarrow> \<not> ?in k w" for k w
    using bb.select_none [OF bq_mul2k_correct(2) [OF wf(1)] bq_mul2k_correct(2) [OF wf(2)]] unfolding scale by blast
  have mono: "?in j w \<Longrightarrow> j \<le> k \<Longrightarrow> ?in k (w * 2 ^ (k - j))" for j k :: nat and w :: int
    using common_exponent [of j k w] by simp
  have fin: "wf_bq (bq_set w k) \<and> to_rational lower \<le> to_rational (bq_set w k) \<and> to_rational (bq_set w k) \<le> to_rational upper \<and>
      (\<forall>j w'. j < bq_k (bq_set w k) \<longrightarrow> \<not> ?in j w')" if "?in k w" "\<And>j w. j < k \<Longrightarrow> \<not> ?in j w" for k :: nat and w :: int
  proof -
    have "bq_k (bq_set w k) \<le> k" by (simp add: bq_set_def bq_normalize_def Let_def)
    then show ?thesis using that by auto
  qed
  show ?case
  proof (cases "?sel ?mid")
    case (Some aux')
    have unf: "binary_loop lower upper min_k max_k aux =
        (if min_k = ?mid then Some (bq_set aux' ?mid) else binary_loop lower upper min_k ?mid aux')"
      using Some by (subst binary_loop.simps) (simp add: Let_def)
    note i = some [OF Some]
    show ?thesis
    proof (cases "min_k = ?mid")
      case True
      then have "\<And>j w. j < ?mid \<Longrightarrow> \<not> ?in j w" using less.prems(4) by simp
      then show ?thesis using unf True fin [OF i] by auto
    next
      case False
      have "\<exists>r. binary_loop lower upper min_k ?mid aux' = Some r \<and> wf_bq r \<and>
          to_rational lower \<le> to_rational r \<and> to_rational r \<le> to_rational upper \<and> (\<forall>j w. j < bq_k r \<longrightarrow> \<not> ?in j w)"
        using False mid i less.prems(4) by (intro less.hyps [where z = aux']) auto
      then show ?thesis using unf False by simp
    qed
  next
    case None
    have low: "\<not> ?in j w" if "j < Suc ?mid" for j :: nat and w :: int
      using no [OF None, of "w * 2 ^ (?mid - j)"] mono [of w j ?mid] that by linarith
    show ?thesis
    proof (cases "Suc ?mid = max_k")
      case True
      have "?sel max_k \<noteq> None" using no [of max_k z] less.prems(2,3) by blast
      then obtain w where w: "?sel max_k = Some w" by blast
      have "binary_loop lower upper min_k max_k aux = Some (bq_set w max_k)"
        using None True w mid by (subst binary_loop.simps) (simp add: Let_def)
      then show ?thesis using fin [OF some [OF w]] low True by auto
    next
      case False
      have "binary_loop lower upper min_k max_k aux = binary_loop lower upper (Suc ?mid) max_k aux"
        using None False by (subst binary_loop.simps) (simp add: Let_def)
      moreover have "\<exists>r. binary_loop lower upper (Suc ?mid) max_k aux = Some r \<and> wf_bq r \<and>
          to_rational lower \<le> to_rational r \<and> to_rational r \<le> to_rational upper \<and> (\<forall>j w. j < bq_k r \<longrightarrow> \<not> ?in j w)"
        using False mid less.prems(2,3) low by (intro less.hyps [where z = z]) auto
      ultimately show ?thesis by simp
    qed
  qed
qed

end
