(* ===== verification/MpbqBounds.thy ===== *)
theory MpbqBounds
  imports MpbqProof
begin

text \<open>
  Bounds and searches over the binary rationals: the selection of a number with the least exponent in
  an interval, the refinement of an isolating interval around a rational, logarithms of magnitudes,
  and the directed approximations of roots and quotients.
\<close>

section \<open>Selection\<close>

text \<open>What a selected number promises for the interval: it lies inside, and no exponent is smaller.\<close>

definition least_inside :: "(rat \<Rightarrow> bool) \<Rightarrow> mpbq \<Rightarrow> bool" where
  "least_inside inside r \<longleftrightarrow>
     wf_bq r \<and> inside (to_rational r) \<and> (\<forall>j w. j < bq_k r \<longrightarrow> \<not> inside (of_int w / 2 ^ j))"

lemma select_small_core_correct:
  assumes wf: "wf_bq l" "wf_bq u" and le: "to_rational l \<le> to_rational u"
  shows "\<exists>r. select_small_core l u = Some r \<and> least_inside (\<lambda>x. to_rational l \<le> x \<and> x \<le> to_rational u) r"
proof (cases "select_integer l u")
  case (Some aux)
  then show ?thesis using bb.select_some [OF wf le Some]
    by (simp add: select_small_core_def least_inside_def) (simp add: bq_set_int_def)
next
  case None
  let ?k = "min (bq_k l) (bq_k u)"
  obtain z where z: "to_rational l \<le> of_int z / 2 ^ ?k" "of_int z / 2 ^ ?k \<le> to_rational u"
  proof (cases "bq_k l \<le> bq_k u")
    case True
    then show ?thesis using that [of "bq_num l"] le by (simp add: to_rational_def)
  next
    case False
    then show ?thesis using that [of "bq_num u"] le by (simp add: to_rational_def)
  qed
  have k: "0 < ?k" using None by (auto simp: select_integer_def bq_is_int_def split: if_splits)
  show ?thesis
  proof (cases "?k \<le> 8")
    case True
    then show ?thesis using bb.selection_correct [OF wf le k z] None
      by (auto simp: select_small_core_def Let_def least_inside_def)
  next
    case False
    show ?thesis using binary_loop_correct [OF wf le k z, of 0] False None
      by (auto simp: select_small_core_def Let_def least_inside_def)
  qed
qed

lemma select_small_correct:
  assumes "wf_bq l" "wf_bq u"
  shows "if to_rational l \<le> to_rational u
         then \<exists>r. select_small l u = Some (Some r) \<and> least_inside (\<lambda>x. to_rational l \<le> x \<and> x \<le> to_rational u) r
         else select_small l u = Some None"
  using select_small_core_correct [OF assms] by (auto simp: select_small_def bq_lt_correct)

lemma select_small_strict_correct:
  shows "\<lbrakk>wf_bq u; l < to_rational u\<rbrakk> \<Longrightarrow>
      \<exists>r. select_small_core_qb l u = Some r \<and> least_inside (\<lambda>x. l < x \<and> x \<le> to_rational u) r"
    and "\<lbrakk>wf_bq m; to_rational m < u'\<rbrakk> \<Longrightarrow>
      \<exists>r. select_small_core_bq m u' = Some r \<and> least_inside (\<lambda>x. to_rational m \<le> x \<and> x < u') r"
    and "l' < u' \<Longrightarrow> \<exists>r. select_small_core_qq l' u' = Some r \<and> least_inside (\<lambda>x. l' < x \<and> x < u') r"
proof -
  assume a: "wf_bq u" "l < to_rational u"
  obtain k z where z: "0 < k" "l < of_int z / 2 ^ k" "of_int z / 2 ^ k < to_rational u"
    using dyadic_between [OF a(2)] by blast
  show "\<exists>r. select_small_core_qb l u = Some r \<and> least_inside (\<lambda>x. l < x \<and> x \<le> to_rational u) r"
    using qb.selection_correct [OF TrueI a z(1,2) less_imp_le [OF z(3)]]
    by (auto simp: select_small_core_qb_def least_inside_def)
next
  assume a: "wf_bq m" "to_rational m < u'"
  obtain k z where z: "0 < k" "to_rational m < of_int z / 2 ^ k" "of_int z / 2 ^ k < u'"
    using dyadic_between [OF a(2)] by blast
  show "\<exists>r. select_small_core_bq m u' = Some r \<and> least_inside (\<lambda>x. to_rational m \<le> x \<and> x < u') r"
    using bq.selection_correct [OF a(1) TrueI a(2) z(1) less_imp_le [OF z(2)] z(3)]
    by (auto simp: select_small_core_bq_def least_inside_def)
next
  assume a: "l' < u'"
  obtain k z where z: "0 < k" "l' < of_int z / 2 ^ k" "of_int z / 2 ^ k < u'"
    using dyadic_between [OF a] by blast
  show "\<exists>r. select_small_core_qq l' u' = Some r \<and> least_inside (\<lambda>x. l' < x \<and> x < u') r"
    using qq.selection_correct [OF TrueI TrueI a z]
    by (auto simp: select_small_core_qq_def least_inside_def)
qed

section \<open>Refinement of an isolating interval\<close>

lemma refine_upper_steps:
  assumes "wf_bq l" "wf_bq u" "to_rational l \<le> q" "q < to_rational u"
    and "to_rational u - to_rational l \<le> 2 ^ n * (to_rational u - q)"
  shows "\<exists>l' u'. refine_upper q l u = Some (l', u') \<and> wf_bq l' \<and> wf_bq u' \<and>
    to_rational l \<le> to_rational l' \<and> to_rational l' \<le> q \<and> q < to_rational u' \<and>
    to_rational u' - q \<le> (to_rational u - q) / 2"
  using assms
proof (induction n arbitrary: l)
  case 0
  let ?mid = "bq_div2 (bq_add l u)"
  have "\<not> bq_le_q ?mid q" using 0 by (simp add: bq_compare_q)
  then show ?case using 0 by (subst refine_upper.simps) (simp add: bq_compare_q field_simps)
next
  case (Suc n)
  let ?mid = "bq_div2 (bq_add l u)"
  show ?case
  proof (cases "bq_le_q ?mid q")
    case False
    then show ?thesis using Suc.prems by (subst refine_upper.simps) (simp add: bq_compare_q field_simps)
  next
    case True
    then have m: "to_rational ?mid \<le> q" by (simp add: bq_compare_q)
    have g: "to_rational u - to_rational ?mid \<le> 2 ^ n * (to_rational u - q)" using Suc.prems(5) by (simp add: field_simps)
    have s: "refine_upper q l u = refine_upper q ?mid u" using True by (subst refine_upper.simps) simp
    have up: "to_rational l \<le> to_rational ?mid" using Suc.prems(3,4) by (simp add: field_simps)
    show ?thesis using Suc.IH [OF _ Suc.prems(2) m Suc.prems(4) g] up True unfolding s by fastforce
  qed
qed

lemma refine_lower_steps:
  assumes "wf_bq l" "wf_bq u" "to_rational l < q" "q \<le> to_rational u"
    and "to_rational u - to_rational l \<le> 2 ^ n * (q - to_rational l)"
  shows "\<exists>l' u'. refine_lower q l u = Some (l', u') \<and> wf_bq l' \<and> wf_bq u' \<and>
    to_rational u' \<le> to_rational u \<and> to_rational l' < q \<and> q \<le> to_rational u' \<and>
    q - to_rational l' \<le> (q - to_rational l) / 2 "
  using assms
proof (induction n arbitrary: u)
  case 0
  let ?mid = "bq_div2 (bq_add l u)"
  have "bq_lt_q ?mid q" using 0 by (simp add: bq_compare_q)
  then show ?case using 0 by (subst refine_lower.simps) (simp add: bq_compare_q field_simps)
next
  case (Suc n)
  let ?mid = "bq_div2 (bq_add l u)"
  show ?case
  proof (cases "bq_lt_q ?mid q")
    case True
    then show ?thesis using Suc.prems by (subst refine_lower.simps) (simp add: bq_compare_q field_simps)
  next
    case False
    then have m: "q \<le> to_rational ?mid" by (simp add: bq_compare_q)
    have g: "to_rational ?mid - to_rational l \<le> 2 ^ n * (q - to_rational l)" using Suc.prems(5) by (simp add: field_simps)
    have s: "refine_lower q l u = refine_lower q l ?mid" using False by (subst refine_lower.simps) simp
    have up: "to_rational ?mid \<le> to_rational u" using Suc.prems(3,4) by (simp add: field_simps)
    show ?thesis using Suc.IH [OF Suc.prems(1) _ Suc.prems(3) m g] up unfolding s by fastforce
  qed
qed

lemma power_exceeds: "0 < d \<Longrightarrow> \<exists>n. (c :: rat) \<le> 2 ^ n * d"
proof -
  assume d: "0 < d"
  obtain n :: nat where "c / d < of_nat n" using reals_Archimedean2 by blast
  moreover have "of_nat n < (2 :: rat) ^ n" using of_nat_less_two_power by blast
  ultimately have "c / d \<le> 2 ^ n" by linarith
  then show ?thesis using d by (auto simp: field_simps)
qed

text \<open>Around a rational that is not a binary one, both refinements keep it strictly inside.\<close>

lemma refine_upper_correct:
  assumes "wf_bq l" "wf_bq u" "to_rational l < q" "q < to_rational u" "\<And>m. to_rational m \<noteq> q"
  shows "\<exists>l' u'. refine_upper q l u = Some (l', u') \<and> wf_bq l' \<and> wf_bq u' \<and>
    to_rational l \<le> to_rational l' \<and> to_rational l' < q \<and> q < to_rational u' \<and>
    to_rational u' - q \<le> (to_rational u - q) / 2"
proof -
  obtain n where "to_rational u - to_rational l \<le> 2 ^ n * (to_rational u - q)"
    using power_exceeds [of "to_rational u - q"] assms(4) by force
  then show ?thesis
    using refine_upper_steps [OF assms(1,2) less_imp_le [OF assms(3)] assms(4), of n] assms(5)
    by (metis order_le_less)
qed

lemma refine_lower_correct:
  assumes "wf_bq l" "wf_bq u" "to_rational l < q" "q < to_rational u" "\<And>m. to_rational m \<noteq> q"
  shows "\<exists>l' u'. refine_lower q l u = Some (l', u') \<and> wf_bq l' \<and> wf_bq u' \<and>
    to_rational u' \<le> to_rational u \<and> to_rational l' < q \<and> q < to_rational u' \<and>
    q - to_rational l' \<le> (q - to_rational l) / 2"
proof -
  obtain n where "to_rational u - to_rational l \<le> 2 ^ n * (q - to_rational l)"
    using power_exceeds [of "q - to_rational l"] assms(3) by force
  then show ?thesis
    using refine_lower_steps [OF assms(1-3) less_imp_le [OF assms(4)], of n] assms(5)
    by (metis order_le_less)
qed


section \<open>Magnitudes\<close>

lemma two_powi_diff: "(2 :: rat) ^ i / 2 ^ k = 2 powi (int i - int k)"
  by (simp add: power_int_diff)

lemma magnitude_pos:
  assumes p: "0 < bq_num a"
  shows "2 powi magnitude_lb a \<le> to_rational a \<and> to_rational a < 2 powi magnitude_ub a"
proof -
  let ?i = "int_log2 (bq_num a)"
  have "of_int (2 ^ ?i) \<le> (of_int (bq_num a) :: rat)" "of_int (bq_num a) < (of_int (2 ^ Suc ?i) :: rat)"
    using int_log2_pos [OF p] by (simp_all only: of_int_le_iff of_int_less_iff)
  then have "2 ^ ?i / 2 ^ bq_k a \<le> to_rational a" "to_rational a < 2 ^ Suc ?i / 2 ^ bq_k a"
    unfolding to_rational_def by (simp_all add: divide_right_mono divide_strict_right_mono)
  moreover have "magnitude_lb a = int ?i - int (bq_k a)" "magnitude_ub a = int (Suc ?i) - int (bq_k a)"
    using p by (simp_all add: magnitude_lb_def magnitude_ub_def)
  ultimately show ?thesis unfolding two_powi_diff by simp
qed

lemma magnitude_neg:
  assumes p: "bq_num a < 0"
  shows "- (2 powi magnitude_lb a) < to_rational a \<and> to_rational a \<le> - (2 powi magnitude_ub a)"
proof -
  have "magnitude_ub a = magnitude_lb (bq_neg a)" "magnitude_lb a = magnitude_ub (bq_neg a)"
    using p by (simp_all add: magnitude_lb_def magnitude_ub_def bq_neg_def int_mlog2_log2)
  moreover have "0 < bq_num (bq_neg a)" using p by (simp add: bq_neg_def)
  ultimately show ?thesis using magnitude_pos [of "bq_neg a"] by simp
qed

section \<open>Conversion of rationals\<close>

text \<open>Exact when the denominator is a power of two, otherwise a number of less than the magnitude.\<close>

lemma to_mpbq_correct:
  assumes "to_mpbq q = (r, exact)"
  shows "wf_bq r \<and> (exact \<longleftrightarrow> (\<exists>k. q_den q = 2 ^ k)) \<and> (exact \<longrightarrow> to_rational r = q) \<and>
    (\<not> exact \<longrightarrow> \<bar>to_rational r\<bar> \<le> \<bar>q\<bar> \<and> \<bar>q\<bar> \<le> 2 * \<bar>to_rational r\<bar> \<and> sgn (to_rational r) = sgn q)"
proof -
  have q: "q = of_int (q_num q) / of_int (q_den q)" "0 < q_den q" using q_parts by blast+
  consider "q_den q = 1" | k where "q_den q \<noteq> 1" "int_is_power_of_two (q_den q) = Some k"
    | "q_den q \<noteq> 1" "int_is_power_of_two (q_den q) = None" by blast
  then show ?thesis
  proof cases
    case 1
    then have "\<exists>k. q_den q = 2 ^ k" by (metis power_0)
    then show ?thesis using assms 1 q_int [OF 1] by (auto simp: to_mpbq_def Let_def)
  next
    case 2
    then have "q_den q = 2 ^ k" by (simp add: int_is_power_of_two_correct)
    then show ?thesis using assms 2 q(1) by (auto simp: to_mpbq_def Let_def)
  next
    case 3
    let ?i = "int_log2 (q_den q)"
    have n: "\<not> (\<exists>k. q_den q = 2 ^ k)" using 3(2) by (metis int_is_power_of_two_correct option.distinct(1))
    have b: "2 ^ ?i \<le> q_den q" "q_den q \<le> 2 ^ Suc ?i" using int_log2_pos [OF q(2)] by simp_all
    then have b: "2 ^ ?i \<le> (of_int (q_den q) :: rat)" "(of_int (q_den q) :: rat) \<le> 2 ^ Suc ?i"
      using of_int_le_iff [of "2 ^ ?i" "q_den q"] of_int_le_iff [of "q_den q" "2 ^ Suc ?i"] by (simp_all del: of_int_le_iff)
    have r: "r = bq_set (q_num q) (Suc ?i)" "\<not> exact" using assms 3 by (simp_all add: to_mpbq_def Let_def)
    have v: "to_rational r = of_int (q_num q) / 2 ^ Suc ?i" unfolding r by simp
    have "\<bar>of_int (q_num q) :: rat\<bar> / 2 ^ Suc ?i \<le> \<bar>of_int (q_num q)\<bar> / of_int (q_den q)"
      "\<bar>of_int (q_num q) :: rat\<bar> / of_int (q_den q) \<le> \<bar>of_int (q_num q)\<bar> / 2 ^ ?i"
      using b q(2) by (intro divide_left_mono; simp)+
    moreover have "\<bar>q\<bar> = \<bar>of_int (q_num q)\<bar> / of_int (q_den q)" using q by (metis abs_divide abs_of_pos of_int_0_less_iff)
    moreover have "sgn (to_rational r) = sgn q"
    proof -
      have "sgn q = sgn (of_int (q_num q))" using q(2) by (subst q(1)) (simp add: sgn_divide)
      then show ?thesis unfolding v by (simp add: sgn_divide)
    qed
    ultimately show ?thesis using n r(2) v unfolding r(1) by (simp add: abs_divide)
  qed
qed

section \<open>Roots\<close>

lemma pow2_weaken:
  "\<lbrakk>0 \<le> x; i \<le> j\<rbrakk> \<Longrightarrow> (x :: rat) / 2 ^ j \<le> x / 2 ^ i"
  "\<lbrakk>x \<le> 0; i \<le> j\<rbrakk> \<Longrightarrow> (x :: rat) / 2 ^ i \<le> x / 2 ^ j"
  by (simp add: divide_left_mono) (simp add: divide_left_mono_neg)

lemma int_root_sides:
  assumes n: "0 < n" and odd: "a < 0 \<Longrightarrow> odd n" and r: "int_root a n = (r, exact)"
  shows "(if exact then r else r - 1) ^ n \<le> a" "a \<le> r ^ n" "exact \<Longrightarrow> r ^ n = a"
    "(if exact then r else r - 1) < 0 \<Longrightarrow> a < 0" "r < 0 \<Longrightarrow> a < 0" "0 \<le> r \<Longrightarrow> 0 \<le> a"
proof -
  have R: "root_result a n r exact" "0 < a \<Longrightarrow> 0 < r" "a < 0 \<Longrightarrow> r < 0" using int_root_correct [OF assms] by blast+
  have Z: "r = 0 \<and> exact" if "a = 0" using r that by (simp add: int_root_def)
  show "(if exact then r else r - 1) ^ n \<le> a" "a \<le> r ^ n" "exact \<Longrightarrow> r ^ n = a"
    using R(1) by (simp_all add: root_result_def split: if_splits)
  show "a < 0" if "(if exact then r else r - 1) < 0"
  proof (rule ccontr)
    assume "\<not> a < 0"
    then have "a = 0 \<or> 0 < a" by linarith
    then show False using R(2) Z that by (auto split: if_splits)
  qed
  show "r < 0 \<Longrightarrow> a < 0" "0 \<le> r \<Longrightarrow> 0 \<le> a" using R(2,3) Z by (metis linorder_neqE_linordered_idom not_less_iff_gr_or_eq order_le_less)+
qed

lemma root_exponent: "0 < n \<Longrightarrow> (k :: nat) \<le> (k div n + 1) * n"
  using dividend_less_div_times [of n k] by simp

lemma root_value:
  assumes n: "0 < n" and x: "x = \<lparr>bq_num = v, bq_k = e\<rparr>"
  shows "to_rational (bq_normalize x) ^ n = of_int (v ^ n) / 2 ^ (e * n)"
  by (simp add: x power_divide power_mult)

lemma root_lower_correct:
  assumes n: "0 < n" and odd: "bq_num a < 0 \<Longrightarrow> odd n" and r: "root_lower a n = (r, exact)"
  shows "wf_bq r \<and> to_rational r ^ n \<le> to_rational a \<and> (exact \<longrightarrow> to_rational r ^ n = to_rational a)"
proof -
  obtain num ex where num: "int_root (bq_num a) n = (num, ex)" by force
  let ?v = "if ex then num else num - 1"
  have s: "?v ^ n \<le> bq_num a" "ex \<Longrightarrow> num ^ n = bq_num a" "?v < 0 \<Longrightarrow> bq_num a < 0"
    using int_root_sides [OF n _ num] odd by blast+
  have up: "(of_int (?v ^ n) :: rat) / 2 ^ bq_k a \<le> to_rational a"
    unfolding to_rational_def by (rule divide_right_mono) (use s(1) in \<open>simp_all only: of_int_le_iff zero_le_power zero_le_numeral\<close>)
  show ?thesis
  proof (cases "bq_k a mod n = 0")
    case True
    then have e: "bq_k a div n * n = bq_k a" by auto
    have "r = bq_normalize \<lparr>bq_num = ?v, bq_k = bq_k a div n\<rparr>" "exact = ex"
      using r num True by (auto simp: root_lower_def split: if_splits)
    then show ?thesis using up s(2) root_value [OF n refl, of ?v "bq_k a div n"] e
      by (auto simp: to_rational_def)
  next
    case False
    show ?thesis
    proof (cases "?v < 0")
      case True
      have r: "r = bq_normalize \<lparr>bq_num = ?v, bq_k = bq_k a div n\<rparr>" "\<not> exact"
        using r num False True by (auto simp: root_lower_def split: if_splits)
      have "?v ^ n \<le> 0" using s(3) [OF True] s(1) by linarith
      then have "(of_int (?v ^ n) :: rat) \<le> 0" by (simp only: of_int_le_0_iff)
      from pow2_weaken(2) [OF this, of "bq_k a div n * n" "bq_k a"] up
      show ?thesis using r root_value [OF n refl, of ?v "bq_k a div n"] by simp
    next
      case nonneg: False
      have r: "r = bq_normalize \<lparr>bq_num = ?v, bq_k = bq_k a div n + 1\<rparr>" "\<not> exact"
        using r num False nonneg by (auto simp: root_lower_def split: if_splits)
      have "(0 :: rat) \<le> of_int (?v ^ n)" using nonneg by (simp only: of_int_0_le_iff) simp
      moreover have "bq_k a \<le> (bq_k a div n + 1) * n" by (rule root_exponent [OF n])
      ultimately have "(of_int (?v ^ n) :: rat) / 2 ^ ((bq_k a div n + 1) * n) \<le> of_int (?v ^ n) / 2 ^ bq_k a"
        by (rule pow2_weaken(1))
      then show ?thesis using up r root_value [OF n refl, of ?v "bq_k a div n + 1"] by simp
    qed
  qed
qed

lemma root_upper_correct:
  assumes n: "0 < n" and odd: "bq_num a < 0 \<Longrightarrow> odd n" and r: "root_upper a n = (r, exact)"
  shows "wf_bq r \<and> to_rational a \<le> to_rational r ^ n \<and> (exact \<longrightarrow> to_rational r ^ n = to_rational a)"
proof -
  obtain v ex where num: "int_root (bq_num a) n = (v, ex)" by force
  have s: "bq_num a \<le> v ^ n" "ex \<Longrightarrow> v ^ n = bq_num a" "v < 0 \<Longrightarrow> bq_num a < 0" "0 \<le> v \<Longrightarrow> 0 \<le> bq_num a"
    using int_root_sides [OF n _ num] odd by blast+
  have up: "to_rational a \<le> (of_int (v ^ n) :: rat) / 2 ^ bq_k a"
    unfolding to_rational_def by (rule divide_right_mono) (use s(1) in \<open>simp_all only: of_int_le_iff zero_le_power zero_le_numeral\<close>)
  show ?thesis
  proof (cases "bq_k a mod n = 0")
    case True
    then have e: "bq_k a div n * n = bq_k a" by auto
    have "r = bq_normalize \<lparr>bq_num = v, bq_k = bq_k a div n\<rparr>" "exact = ex"
      using r num True by (auto simp: root_upper_def split: if_splits)
    then show ?thesis using up s(2) root_value [OF n refl, of v "bq_k a div n"] e
      by (auto simp: to_rational_def)
  next
    case False
    have b: "bq_k a div n * n \<le> bq_k a" "bq_k a \<le> (bq_k a div n + 1) * n"
      by (simp_all only: div_times_less_eq_dividend root_exponent [OF n])
    show ?thesis
    proof (cases "v < 0")
      case True
      have r: "r = bq_normalize \<lparr>bq_num = v, bq_k = bq_k a div n + 1\<rparr>" "\<not> exact"
        using r num False True by (auto simp: root_upper_def split: if_splits)
      have "odd n" using odd s(3) True by blast
      then have "v ^ n \<le> 0" using True n by (simp add: power_le_zero_eq)
      then have "(of_int (v ^ n) :: rat) \<le> 0" by (simp only: of_int_le_0_iff)
      from pow2_weaken(2) [OF this b(2)] up
      show ?thesis using r root_value [OF n refl, of v "bq_k a div n + 1"] by simp
    next
      case nonneg: False
      have r: "r = bq_normalize \<lparr>bq_num = v, bq_k = bq_k a div n\<rparr>" "\<not> exact"
        using r num False nonneg by (auto simp: root_upper_def split: if_splits)
      have "(0 :: rat) \<le> of_int (v ^ n)" using nonneg by (simp only: of_int_0_le_iff) simp
      from pow2_weaken(1) [OF this b(1)] up
      show ?thesis using r root_value [OF n refl, of v "bq_k a div n"] by simp
    qed
  qed
qed

section \<open>Approximations\<close>

text \<open>A number with at most \<open>k\<close> binary places, on the side that is asked for.\<close>

lemma bq_approx_correct:
  assumes "wf_bq a"
  shows "wf_bq (bq_approx a k up) \<and>
    to_rational (bq_approx a k up) =
      (if bq_k a \<le> k then to_rational a
       else of_int (if up then \<lceil>2 ^ k * to_rational a\<rceil> else \<lfloor>2 ^ k * to_rational a\<rfloor>) / 2 ^ k)"
proof (cases "bq_k a \<le> k")
  case True
  then show ?thesis using assms by (simp add: bq_approx_def)
next
  case False
  let ?s = "bq_k a - k" and ?n = "bq_num a"
  have odd: "odd ?n" using assms False by (auto simp: wf_bq_def)
  have nd: "\<not> 2 ^ ?s dvd ?n" using odd False by (metis dvd_trans dvd_power zero_less_diff not_le)
  have p: "(2 :: rat) ^ bq_k a = 2 ^ k * 2 ^ ?s" using False by (simp flip: power_add)
  have x: "2 ^ k * to_rational a = of_int ?n / of_int (2 ^ ?s)" unfolding to_rational_def p by simp
  note f = floor_frac [of "2 ^ ?s" ?n, OF _ nd]
  have "to_rational (bq_approx a k up) = of_int (if (?n < 0) \<noteq> up then (if ?n < 0 then - (div2k \<bar>?n\<bar> ?s + 1) else div2k \<bar>?n\<bar> ?s + 1)
      else (if ?n < 0 then - div2k \<bar>?n\<bar> ?s else div2k \<bar>?n\<bar> ?s)) / 2 ^ k"
    using False by (simp add: bq_approx_def Let_def)
  also have "\<dots> = of_int (if up then \<lceil>2 ^ k * to_rational a\<rceil> else \<lfloor>2 ^ k * to_rational a\<rfloor>) / 2 ^ k"
  proof -
    have "?n \<noteq> 0" using odd by auto
    then show ?thesis unfolding x using f by (auto simp: sdiv_pow2 div2k_def abs_if sgn_if)
  qed
  finally show ?thesis using False by (simp add: bq_approx_def Let_def)
qed

text \<open>The numerator of a quotient with \<open>k\<close> places, rounded towards zero.\<close>

lemma scaled_floor:
  assumes "0 \<le> x" "0 < y"
  shows "(if b < a then (if a - b \<le> k then x * 2 ^ (k - (a - b)) else div2k x (a - b - k)) else x * 2 ^ (k + b - a)) div y
    = \<lfloor>2 ^ k * ((of_int x / 2 ^ a) / (of_int y / 2 ^ b)) :: rat\<rfloor>"
proof -
  have id: "2 ^ k * ((of_int x / 2 ^ a) / (of_int y / 2 ^ b)) = (of_int x * 2 ^ (k + b) / 2 ^ a / of_int y :: rat)"
    by (simp add: power_add field_simps)
  consider "b < a" "a - b \<le> k" | "b < a" "k < a - b" | "a \<le> b" by linarith
  then show ?thesis
  proof cases
    case 1
    have "k + b = a + (k - (a - b))" using 1 by simp
    then have "(2 :: rat) ^ (k + b) = 2 ^ a * 2 ^ (k - (a - b))" by (simp only: power_add)
    then have "of_int x * 2 ^ (k + b) / 2 ^ a / of_int y = (of_int (x * 2 ^ (k - (a - b))) / of_int y :: rat)" by simp
    then show ?thesis unfolding id using 1 by (simp only: floor_divide_of_int_eq) simp
  next
    case 2
    have "a = k + b + (a - b - k)" using 2 by simp
    then have "(2 :: rat) ^ a = 2 ^ (k + b) * 2 ^ (a - b - k)" by (metis power_add)
    then have "of_int x * 2 ^ (k + b) / 2 ^ a / of_int y = (of_int x / of_int (2 ^ (a - b - k) * y) :: rat)" by simp
    moreover have "div2k x (a - b - k) div y = x div (2 ^ (a - b - k) * y)"
      using assms by (simp add: div2k_def zdiv_zmult2_eq sgn_if)
    ultimately show ?thesis unfolding id using 2 by (simp only: floor_divide_of_int_eq) simp
  next
    case 3
    have "k + b = a + (k + b - a)" using 3 by simp
    then have "(2 :: rat) ^ (k + b) = 2 ^ a * 2 ^ (k + b - a)" by (metis power_add)
    then have "of_int x * 2 ^ (k + b) / 2 ^ a / of_int y = (of_int (x * 2 ^ (k + b - a)) / of_int y :: rat)" by simp
    then show ?thesis unfolding id using 3 by (simp only: floor_divide_of_int_eq) simp
  qed
qed

lemma directed_floor:
  fixes x :: rat and k :: nat
  defines "z \<equiv> \<lfloor>2 ^ k * x\<rfloor>"
  shows "of_int z / 2 ^ k \<le> x" "x \<le> of_int (z + 1) / 2 ^ k"
    "x - 1 / 2 ^ k \<le> of_int z / 2 ^ k" "of_int (z + 1) / 2 ^ k \<le> x + 1 / 2 ^ k"
proof -
  have f: "of_int z \<le> 2 ^ k * x" "2 ^ k * x \<le> of_int (z + 1)" unfolding z_def by linarith+
  show l: "of_int z / 2 ^ k \<le> x" and u: "x \<le> of_int (z + 1) / 2 ^ k"
    using f by (simp_all only: pos_divide_le_eq pos_le_divide_eq zero_less_power zero_less_numeral mult.commute)
  show "x - 1 / 2 ^ k \<le> of_int z / 2 ^ k" "of_int (z + 1) / 2 ^ k \<le> x + 1 / 2 ^ k"
    using l u by (simp_all add: add_divide_distrib)
qed

lemma directed_quotient:
  fixes q r :: rat and k :: nat
  defines "z \<equiv> \<lfloor>2 ^ k * \<bar>q\<bar>\<rfloor>"
  assumes q: "q = (if s then - \<bar>q\<bar> else \<bar>q\<bar>)"
    and r: "r = of_int (if s then - (if s \<noteq> up then z + 1 else z) else if s \<noteq> up then z + 1 else z) / 2 ^ k"
  shows "if up then q \<le> r \<and> r \<le> q + 1 / 2 ^ k else r \<le> q \<and> q - 1 / 2 ^ k \<le> r"
proof -
  define lo hi :: rat where "lo = of_int z / 2 ^ k" and "hi = of_int (z + 1) / 2 ^ k"
  have "lo \<le> \<bar>q\<bar>" "\<bar>q\<bar> \<le> hi" "\<bar>q\<bar> - 1 / 2 ^ k \<le> lo" "hi \<le> \<bar>q\<bar> + 1 / 2 ^ k"
    unfolding lo_def hi_def z_def by (rule directed_floor)+
  moreover have "r = (if s then (if up then - lo else - hi) else if up then hi else lo)"
    unfolding r lo_def hi_def by (cases s; cases up) (simp_all add: add_divide_distrib diff_divide_distrib)
  ultimately show ?thesis using q by (cases s; cases up) auto
qed

lemma bq_approx_div_exact:
  assumes b: "bq_num b \<noteq> 0" and ex: "int_is_power_of_two (bq_num b) \<noteq> None \<or> bq_num b dvd bq_num a"
  shows "to_rational (bq_approx_div a b k up) = to_rational a / to_rational b"
proof (cases "int_is_power_of_two (bq_num b)")
  case (Some s)
  then have "bq_num b = 2 ^ s" by (simp add: int_is_power_of_two_correct)
  then show ?thesis using Some by (simp add: bq_approx_div_def to_rational_def [of a] to_rational_def [of b] power_add)
next
  case None
  then obtain w where w: "bq_num a = bq_num b * w" using ex by blast
  show ?thesis
  proof (cases "bq_k b \<le> bq_k a")
    case True
    then show ?thesis using None b w
      by (simp add: bq_approx_div_def Let_def to_rational_def [of a] to_rational_def [of b] power_diff)
  next
    case False
    then have p: "(2 :: rat) ^ bq_k b = 2 ^ (bq_k b - bq_k a) * 2 ^ bq_k a" by (simp flip: power_add)
    show ?thesis using False None b w
      by (simp add: bq_approx_div_def Let_def to_rational_def [of a] to_rational_def [of b] p)
  qed
qed

lemma bq_approx_div_correct:
  assumes b: "bq_num b \<noteq> 0"
  shows "wf_bq (bq_approx_div a b k up) \<and>
    (let q = to_rational a / to_rational b; r = to_rational (bq_approx_div a b k up)
     in if up then q \<le> r \<and> r \<le> q + 1 / 2 ^ k else r \<le> q \<and> q - 1 / 2 ^ k \<le> r)"
proof -
  have wf: "wf_bq (bq_approx_div a b k up)" by (simp add: bq_approx_div_def Let_def split: option.split)
  let ?q = "to_rational a / to_rational b"
  show ?thesis
  proof (cases "int_is_power_of_two (bq_num b) \<noteq> None \<or> bq_num b dvd bq_num a")
    case True
    then show ?thesis using wf bq_approx_div_exact [OF b True] by (simp add: Let_def)
  next
    case False
    let ?n = "bq_num a" and ?m = "bq_num b"
    let ?z = "\<lfloor>2 ^ k * \<bar>?q\<bar>\<rfloor>" and ?s = "(?n < 0) \<noteq> (?m < 0)"
    have q: "\<bar>?q\<bar> = (of_int \<bar>?n\<bar> / 2 ^ bq_k a) / (of_int \<bar>?m\<bar> / 2 ^ bq_k b)"
      by (simp add: to_rational_def abs_divide abs_mult)
    have n0: "?n \<noteq> 0" using False by auto
    have "0 \<le> \<bar>?n\<bar>" "0 < \<bar>?m\<bar>" using b by simp_all
    note z = scaled_floor [OF this, of "bq_k b" "bq_k a" k, folded q]
    have r: "to_rational (bq_approx_div a b k up) =
        of_int (if ?s then - (if ?s \<noteq> up then ?z + 1 else ?z) else if ?s \<noteq> up then ?z + 1 else ?z) / 2 ^ k"
      unfolding z [symmetric] using False by (simp only: bq_approx_div_def option.case Let_def) simp
    have sg: "?q = (if ?s then - \<bar>?q\<bar> else \<bar>?q\<bar>)"
    proof -
      have "to_rational a < 0 \<longleftrightarrow> ?n < 0" "to_rational b < 0 \<longleftrightarrow> ?m < 0" "to_rational a \<noteq> 0" "to_rational b \<noteq> 0"
        using b n0 by (simp_all add: to_rational_def divide_less_0_iff)
      then have "?q < 0 \<longleftrightarrow> ?s" by (auto simp: divide_less_0_iff)
      then show ?thesis by (simp add: abs_if)
    qed
    show ?thesis using wf directed_quotient [OF sg r] by (simp only: Let_def simp_thms)
  qed
qed

end
