(* ===== verification/Mpq.thy ===== *)
theory Mpq
  imports MpzText MpzBitwise
begin

text \<open>
  Model of util/mpq.h and util/mpq.cpp: rationals as a numerator and a denominator, both multi-precision
  integers in their representation. Every operation that the manager defines on rationals is translated;
  the ones it passes on to \<open>mpz_manager\<close> are that manager's. \<open>None\<close> is a loop that does not return, a
  division by zero of the machine, or an access out of bounds further down.
\<close>

section \<open>Representation\<close>

record mpq =
  m_num :: mpz
  m_den :: mpz

definition of_mpz :: "mpz \<Rightarrow> mpq" where
  "of_mpz n = \<lparr>m_num = n, m_den = set_int 1\<rparr>"

definition reset_denominator :: "mpq \<Rightarrow> mpq" where
  "reset_denominator a = a\<lparr>m_den := set_int 1\<rparr>"

definition mpq_normalize :: "mpn_manager \<Rightarrow> mpq \<Rightarrow> mpq option" where
  "mpq_normalize m a =
     do { tmp \<leftarrow> mpz_gcd m (m_num a) (m_den a);
          if mpz_is_one tmp then Some a
          else do { n \<leftarrow> mpz_div m (m_num a) tmp; d \<leftarrow> mpz_div m (m_den a) tmp; Some \<lparr>m_num = n, m_den = d\<rparr> } }"

definition mpq_is_int :: "mpq \<Rightarrow> bool" where "mpq_is_int a = mpz_is_one (m_den a)"
definition mpq_is_pos :: "mpq \<Rightarrow> bool" where "mpq_is_pos a = mpz_is_pos (m_num a)"
definition mpq_is_neg :: "mpq \<Rightarrow> bool" where "mpq_is_neg a = mpz_is_neg (m_num a)"
definition mpq_is_zero :: "mpq \<Rightarrow> bool" where "mpq_is_zero a = mpz_is_zero (m_num a)"
definition mpq_is_one :: "mpq \<Rightarrow> bool" where "mpq_is_one a = (mpz_is_one (m_num a) \<and> mpz_is_one (m_den a))"
definition mpq_is_minus_one :: "mpq \<Rightarrow> bool" where
  "mpq_is_minus_one a = (mpz_is_minus_one (m_num a) \<and> mpz_is_one (m_den a))"

definition mpq_neg :: "mpq \<Rightarrow> mpq" where "mpq_neg a = a\<lparr>m_num := mpz_neg (m_num a)\<rparr>"
definition mpq_abs :: "mpq \<Rightarrow> mpq" where "mpq_abs a = a\<lparr>m_num := mpz_abs (m_num a)\<rparr>"

section \<open>Setting\<close>

text \<open>From a numerator and a denominator of either sign; the machine integers wrap.\<close>

definition mpq_set_zz :: "mpn_manager \<Rightarrow> mpz \<Rightarrow> mpz \<Rightarrow> mpq option" where
  "mpq_set_zz m n d =
     mpq_normalize m
       (if mpz_is_neg d then \<lparr>m_num = mpz_neg n, m_den = mpz_neg d\<rparr> else \<lparr>m_num = n, m_den = d\<rparr>)"

definition mpq_set_int_int :: "mpn_manager \<Rightarrow> i32 \<Rightarrow> i32 \<Rightarrow> mpq option" where
  "mpq_set_int_int m n d =
     (let (n, d) = (if d <s 0 then (- n, - d) else (n, d))
      in mpq_normalize m \<lparr>m_num = set_int n, m_den = set_int d\<rparr>)"

definition mpq_set_i64_u64 :: "mpn_manager \<Rightarrow> i64 \<Rightarrow> u64 \<Rightarrow> mpq option" where
  "mpq_set_i64_u64 m n d = mpq_normalize m \<lparr>m_num = set_i64 n, m_den = set_uint64 d\<rparr>"

section \<open>Sums and products\<close>

definition lin_arith_op :: "bool \<Rightarrow> mpn_manager \<Rightarrow> mpq \<Rightarrow> mpq \<Rightarrow> mpq option" where
  "lin_arith_op SUB m a b =
     do { g \<leftarrow> mpz_gcd m (m_den a) (m_den b);
          if mpz_is_one g then
            (let tmp1 = mpz_mul (m_num a) (m_den b); tmp2 = mpz_mul (m_num b) (m_den a)
             in Some \<lparr>m_num = (if SUB then mpz_sub tmp1 tmp2 else mpz_add tmp1 tmp2),
                      m_den = mpz_mul (m_den a) (m_den b)\<rparr>)
          else do {
            tmp3 \<leftarrow> mpz_div m (m_den a) g;
            let c_den = mpz_mul tmp3 (m_den b);
            let tmp2 = mpz_mul tmp3 (m_num b);
            tmp3 \<leftarrow> mpz_div m (m_den b) g;
            let tmp1 = mpz_mul tmp3 (m_num a);
            let tmp3 = (if SUB then mpz_sub tmp1 tmp2 else mpz_add tmp1 tmp2);
            tmp1 \<leftarrow> mpz_gcd m tmp3 g;
            if mpz_is_one tmp1 then Some \<lparr>m_num = tmp3, m_den = c_den\<rparr>
            else do { n \<leftarrow> mpz_div m tmp3 tmp1; d \<leftarrow> mpz_div m c_den tmp1; Some \<lparr>m_num = n, m_den = d\<rparr> } } }"

text \<open>
  The same operation when the result is written into the second operand: its denominator is overwritten
  before it is divided by the gcd.
\<close>

definition lin_arith_op_into_b :: "bool \<Rightarrow> mpn_manager \<Rightarrow> mpq \<Rightarrow> mpq \<Rightarrow> mpq option" where
  "lin_arith_op_into_b SUB m a b =
     do { g \<leftarrow> mpz_gcd m (m_den a) (m_den b);
          if mpz_is_one g then
            (let tmp1 = mpz_mul (m_num a) (m_den b); tmp2 = mpz_mul (m_num b) (m_den a)
             in Some \<lparr>m_num = (if SUB then mpz_sub tmp1 tmp2 else mpz_add tmp1 tmp2),
                      m_den = mpz_mul (m_den a) (m_den b)\<rparr>)
          else do {
            tmp3 \<leftarrow> mpz_div m (m_den a) g;
            let b = b\<lparr>m_den := mpz_mul tmp3 (m_den b)\<rparr>;
            let tmp2 = mpz_mul tmp3 (m_num b);
            tmp3 \<leftarrow> mpz_div m (m_den b) g;
            let tmp1 = mpz_mul tmp3 (m_num a);
            let tmp3 = (if SUB then mpz_sub tmp1 tmp2 else mpz_add tmp1 tmp2);
            tmp1 \<leftarrow> mpz_gcd m tmp3 g;
            if mpz_is_one tmp1 then Some (b\<lparr>m_num := tmp3\<rparr>)
            else do { n \<leftarrow> mpz_div m tmp3 tmp1; d \<leftarrow> mpz_div m (m_den b) tmp1; Some \<lparr>m_num = n, m_den = d\<rparr> } } }"

definition rat_mul :: "mpn_manager \<Rightarrow> mpq \<Rightarrow> mpq \<Rightarrow> mpq option" where
  "rat_mul m a b =
     do { g1 \<leftarrow> mpz_gcd m (m_den a) (m_num b);
          g2 \<leftarrow> mpz_gcd m (m_num a) (m_den b);
          tmp1 \<leftarrow> mpz_div m (m_num a) g2;
          tmp2 \<leftarrow> mpz_div m (m_num b) g1;
          tmp3 \<leftarrow> mpz_div m (m_den b) g2;
          tmp4 \<leftarrow> mpz_div m (m_den a) g1;
          Some \<lparr>m_num = mpz_mul tmp1 tmp2, m_den = mpz_mul tmp3 tmp4\<rparr> }"

definition rat_mul_z :: "mpn_manager \<Rightarrow> mpz \<Rightarrow> mpq \<Rightarrow> mpq option" where
  "rat_mul_z m a b = mpq_normalize m \<lparr>m_num = mpz_mul a (m_num b), m_den = m_den b\<rparr>"

definition rat_add_z :: "mpn_manager \<Rightarrow> mpq \<Rightarrow> mpz \<Rightarrow> mpq option" where
  "rat_add_z m a b = mpq_normalize m \<lparr>m_num = mpz_add (m_num a) (mpz_mul b (m_den a)), m_den = m_den a\<rparr>"

definition mpq_add :: "mpn_manager \<Rightarrow> mpq \<Rightarrow> mpq \<Rightarrow> mpq option" where
  "mpq_add m a b =
     (if mpq_is_int a \<and> mpq_is_int b then Some (of_mpz (mpz_add (m_num a) (m_num b))) else lin_arith_op False m a b)"

definition mpq_add_z :: "mpn_manager \<Rightarrow> mpq \<Rightarrow> mpz \<Rightarrow> mpq option" where
  "mpq_add_z m a b = (if mpq_is_int a then Some (of_mpz (mpz_add (m_num a) b)) else rat_add_z m a b)"

definition mpq_sub :: "mpn_manager \<Rightarrow> mpq \<Rightarrow> mpq \<Rightarrow> mpq option" where
  "mpq_sub m a b =
     (if mpq_is_int a \<and> mpq_is_int b then Some (of_mpz (mpz_sub (m_num a) (m_num b))) else lin_arith_op True m a b)"

definition mpq_mul :: "mpn_manager \<Rightarrow> mpq \<Rightarrow> mpq \<Rightarrow> mpq option" where
  "mpq_mul m a b =
     (if mpq_is_int a \<and> mpq_is_int b then Some (of_mpz (mpz_mul (m_num a) (m_num b))) else rat_mul m a b)"

definition mpq_mul_z :: "mpn_manager \<Rightarrow> mpz \<Rightarrow> mpq \<Rightarrow> mpq option" where
  "mpq_mul_z m a b = (if mpq_is_int b then Some (of_mpz (mpz_mul a (m_num b))) else rat_mul_z m a b)"

definition mpq_addmul :: "mpn_manager \<Rightarrow> mpq \<Rightarrow> mpq \<Rightarrow> mpq \<Rightarrow> mpq option" where
  "mpq_addmul m a b c =
     (if mpq_is_one b then mpq_add m a c
      else if mpq_is_minus_one b then mpq_sub m a c
      else do { tmp \<leftarrow> mpq_mul m b c; mpq_add m a tmp })"

definition mpq_submul :: "mpn_manager \<Rightarrow> mpq \<Rightarrow> mpq \<Rightarrow> mpq \<Rightarrow> mpq option" where
  "mpq_submul m a b c =
     (if mpq_is_one b then mpq_sub m a c
      else if mpq_is_minus_one b then mpq_add m a c
      else do { tmp \<leftarrow> mpq_mul m b c; mpq_sub m a tmp })"

definition mpq_addmul_z :: "mpn_manager \<Rightarrow> mpq \<Rightarrow> mpz \<Rightarrow> mpq \<Rightarrow> mpq option" where
  "mpq_addmul_z m a b c =
     (if mpz_is_one b then mpq_add m a c
      else if mpz_is_minus_one b then mpq_sub m a c
      else do { tmp \<leftarrow> mpq_mul_z m b c; mpq_add m a tmp })"

definition mpq_submul_z :: "mpn_manager \<Rightarrow> mpq \<Rightarrow> mpz \<Rightarrow> mpq \<Rightarrow> mpq option" where
  "mpq_submul_z m a b c =
     (if mpz_is_one b then mpq_sub m a c
      else if mpz_is_minus_one b then mpq_add m a c
      else do { tmp \<leftarrow> mpq_mul_z m b c; mpq_sub m a tmp })"

section \<open>Inverses and quotients\<close>

definition mpq_inv :: "mpq \<Rightarrow> mpq" where
  "mpq_inv a =
     (let a = (if mpq_is_neg a then \<lparr>m_num = mpz_neg (m_num a), m_den = mpz_neg (m_den a)\<rparr> else a)
      in \<lparr>m_num = m_den a, m_den = m_num a\<rparr>)"

definition mpq_div :: "mpn_manager \<Rightarrow> mpq \<Rightarrow> mpq \<Rightarrow> mpq option" where
  "mpq_div m a b =
     (let n = mpz_mul (m_num a) (m_den b); d = mpz_mul (m_den a) (m_num b)
      in mpq_normalize m
           (if mpz_is_neg d then \<lparr>m_num = mpz_neg n, m_den = mpz_neg d\<rparr> else \<lparr>m_num = n, m_den = d\<rparr>))"

definition mpq_div_z :: "mpn_manager \<Rightarrow> mpq \<Rightarrow> mpz \<Rightarrow> mpq option" where
  "mpq_div_z m a b =
     (let d = mpz_mul (m_den a) b
      in mpq_normalize m
           (if mpz_is_neg b then \<lparr>m_num = mpz_neg (m_num a), m_den = mpz_neg d\<rparr>
            else \<lparr>m_num = m_num a, m_den = d\<rparr>))"

definition rat_div :: "mpn_manager \<Rightarrow> mpz \<Rightarrow> mpz \<Rightarrow> mpq option" where
  "rat_div m a b = mpq_normalize m \<lparr>m_num = a, m_den = b\<rparr>"

text \<open>Integer operations on rationals that are integers.\<close>

definition mpq_machine_idiv :: "mpn_manager \<Rightarrow> mpq \<Rightarrow> mpq \<Rightarrow> mpq option" where
  "mpq_machine_idiv m a b = map_option of_mpz (machine_div m (m_num a) (m_num b))"

definition mpq_machine_idiv_rem :: "mpn_manager \<Rightarrow> mpq \<Rightarrow> mpq \<Rightarrow> (mpq \<times> mpq) option" where
  "mpq_machine_idiv_rem m a b = map_option (map_prod of_mpz of_mpz) (machine_div_rem m (m_num a) (m_num b))"

definition mpq_idiv :: "mpn_manager \<Rightarrow> mpq \<Rightarrow> mpq \<Rightarrow> mpq option" where
  "mpq_idiv m a b = map_option of_mpz (mpz_div m (m_num a) (m_num b))"

definition mpq_rem :: "mpn_manager \<Rightarrow> mpq \<Rightarrow> mpq \<Rightarrow> mpq option" where
  "mpq_rem m a b = map_option of_mpz (mpz_rem m (m_num a) (m_num b))"

definition mpq_mod :: "mpn_manager \<Rightarrow> mpq \<Rightarrow> mpq \<Rightarrow> mpq option" where
  "mpq_mod m a b = map_option of_mpz (mpz_mod m (m_num a) (m_num b))"

definition mpq_gcd :: "mpn_manager \<Rightarrow> mpq \<Rightarrow> mpq \<Rightarrow> mpq option" where
  "mpq_gcd m a b = map_option of_mpz (mpz_gcd m (m_num a) (m_num b))"

primrec mpq_gcd_rest :: "mpn_manager \<Rightarrow> mpq list \<Rightarrow> mpq \<Rightarrow> mpq option" where
  "mpq_gcd_rest m [] g = Some g"
| "mpq_gcd_rest m (a # as') g = (if mpq_is_one g then Some g else do { g' \<leftarrow> mpq_gcd m g a; mpq_gcd_rest m as' g' })"

definition mpq_gcd_array :: "mpn_manager \<Rightarrow> mpq list \<Rightarrow> mpq option" where
  "mpq_gcd_array m as' =
     (case as' of
        [] \<Rightarrow> Some (of_mpz (set_int 0))
      | [a] \<Rightarrow> Some (mpq_abs a)
      | a # b # rest \<Rightarrow> do { g \<leftarrow> mpq_gcd m a b; mpq_gcd_rest m rest g })"

definition mpq_lcm :: "mpn_manager \<Rightarrow> mpq \<Rightarrow> mpq \<Rightarrow> mpq option" where
  "mpq_lcm m a b = map_option of_mpz (mpz_lcm m (m_num a) (m_num b))"

definition mpq_divides :: "mpn_manager \<Rightarrow> mpq \<Rightarrow> mpq \<Rightarrow> bool option" where
  "mpq_divides m a b = mpz_divides m (m_num a) (m_num b)"

section \<open>Comparisons and rounding\<close>

definition mpq_eq :: "mpq \<Rightarrow> mpq \<Rightarrow> bool" where
  "mpq_eq a b = (mpz_eq (m_num a) (m_num b) \<and> mpz_eq (m_den a) (m_den b))"

definition rat_lt :: "mpq \<Rightarrow> mpq \<Rightarrow> bool" where
  "rat_lt a b =
     (let na = m_num a; nb = m_num b; sign_a = mpz_sign na; sign_b = mpz_sign nb;
          cross = mpz_lt (mpz_mul na (m_den b)) (mpz_mul nb (m_den a))
      in if sign_a < 0 then (if 0 \<le> sign_b then True else cross)
         else if sign_a = 0 then 0 < sign_b
         else (if sign_b \<le> 0 then False else cross))"

definition mpq_lt :: "mpq \<Rightarrow> mpq \<Rightarrow> bool" where
  "mpq_lt a b = (if mpq_is_int a \<and> mpq_is_int b then mpz_lt (m_num a) (m_num b) else rat_lt a b)"

definition mpq_floor :: "mpn_manager \<Rightarrow> mpq \<Rightarrow> mpz option" where
  "mpq_floor m a =
     (if mpq_is_int a then Some (m_num a)
      else do { f \<leftarrow> machine_div m (m_num a) (m_den a);
                Some (if mpz_is_neg (m_num a) then mpz_sub f (set_int 1) else f) })"

definition mpq_ceil :: "mpn_manager \<Rightarrow> mpq \<Rightarrow> mpz option" where
  "mpq_ceil m a =
     (if mpq_is_int a then Some (m_num a)
      else do { c \<leftarrow> machine_div m (m_num a) (m_den a);
                Some (if mpz_is_pos (m_num a) then mpz_add c (set_int 1) else c) })"

definition mpq_gcd_ext :: "mpn_manager \<Rightarrow> mpq \<Rightarrow> mpq \<Rightarrow> (mpq \<times> mpq \<times> mpq) option" where
  "mpq_gcd_ext m r1 r2 = map_option (\<lambda>(a, b, g). (of_mpz a, of_mpz b, of_mpz g)) (ext_gcd m (m_num r1) (m_num r2))"

definition mpq_bitwise_or :: "mpn_manager \<Rightarrow> mpq \<Rightarrow> mpq \<Rightarrow> mpq option" where
  "mpq_bitwise_or m a b = map_option of_mpz (bitwise_or m (m_num a) (m_num b))"

definition mpq_bitwise_and :: "mpn_manager \<Rightarrow> mpq \<Rightarrow> mpq \<Rightarrow> mpq option" where
  "mpq_bitwise_and m a b = map_option of_mpz (bitwise_and m (m_num a) (m_num b))"

definition mpq_bitwise_xor :: "mpn_manager \<Rightarrow> mpq \<Rightarrow> mpq \<Rightarrow> mpq option" where
  "mpq_bitwise_xor m a b = map_option of_mpz (bitwise_xor m (m_num a) (m_num b))"

definition mpq_bitwise_not :: "mpn_manager \<Rightarrow> nat \<Rightarrow> mpq \<Rightarrow> mpq option" where
  "mpq_bitwise_not m sz a = map_option of_mpz (bitwise_not m sz (m_num a))"

text \<open>Views of a rational as a machine integer, a power of two or a bit size.\<close>

definition mpq_is_uint64 :: "mpq \<Rightarrow> bool" where "mpq_is_uint64 a = (mpq_is_int a \<and> is_uint64 (m_num a))"
definition mpq_is_int64 :: "mpq \<Rightarrow> bool" where "mpq_is_int64 a = (mpq_is_int a \<and> is_int64 (m_num a))"
definition mpq_is_even :: "mpq \<Rightarrow> bool" where "mpq_is_even a = (mpq_is_int a \<and> mpz_is_even (m_num a))"

definition mpq_is_power_of_two :: "mpq \<Rightarrow> nat option" where
  "mpq_is_power_of_two a = (if mpq_is_int a then mpz_is_power_of_two (m_num a) else None)"

definition mpq_bitsize :: "mpq \<Rightarrow> nat" where
  "mpq_bitsize a = (if mpq_is_int a then mpz_bitsize (m_num a) else mpz_bitsize (m_num a) + mpz_bitsize (m_den a))"

definition mpq_prev_power_of_two :: "mpn_manager \<Rightarrow> mpq \<Rightarrow> nat option" where
  "mpq_prev_power_of_two m a = map_option mpz_log2 (mpq_floor m a)"

section \<open>Powers and roots\<close>

partial_function (option) mpq_power_loop :: "mpn_manager \<Rightarrow> u32 \<Rightarrow> u32 \<Rightarrow> mpq \<Rightarrow> mpq \<Rightarrow> mpq option" where
  "mpq_power_loop m p bmask pw b =
     (if bmask \<le> p then
        do { b \<leftarrow> (if bmask AND p \<noteq> 0 then mpq_mul m b pw else Some b);
             pw \<leftarrow> mpq_mul m pw pw;
             mpq_power_loop m p (push_bit 1 bmask) pw b }
      else Some b)"

definition mpq_power :: "mpn_manager \<Rightarrow> mpq \<Rightarrow> u32 \<Rightarrow> mpq option" where
  "mpq_power m a p = mpq_power_loop m p 1 a (of_mpz (set_int 1))"

text \<open>The second root is not computed when the first is not exact.\<close>

definition mpq_root :: "mpq \<Rightarrow> u32 \<Rightarrow> mpq \<Rightarrow> (mpq \<times> bool) option" where
  "mpq_root a n r =
     do { (rn, exact) \<leftarrow> mpz_root (m_num a) n;
          if exact then do { (rd, exact) \<leftarrow> mpz_root (m_den a) n; Some (\<lparr>m_num = rn, m_den = rd\<rparr>, exact) }
          else Some (r\<lparr>m_num := rn\<rparr>, False) }"

definition mpq_is_perfect_square :: "mpn_manager \<Rightarrow> mpq \<Rightarrow> mpq \<Rightarrow> (mpq \<times> bool) option" where
  "mpq_is_perfect_square m a r =
     (if mpq_is_int a then
        do { (s, ok) \<leftarrow> is_perfect_square m (m_num a) (m_num r); Some (of_mpz s, ok) }
      else do {
        (s, ok) \<leftarrow> is_perfect_square m (m_num a) (m_num r);
        if ok then do {
          (t, ok) \<leftarrow> is_perfect_square m (m_den a) (m_den r);
          if ok then map_option (\<lambda>r. (r, True)) (mpq_normalize m \<lparr>m_num = s, m_den = t\<rparr>)
          else Some (\<lparr>m_num = s, m_den = t\<rparr>, False) }
        else Some (r\<lparr>m_num := s\<rparr>, False) })"

section \<open>Text\<close>

definition mpq_to_string :: "mpq \<Rightarrow> string option" where
  "mpq_to_string a =
     (if mpq_is_int a then mpz_to_string (m_num a)
      else do { n \<leftarrow> mpz_to_string (m_num a); d \<leftarrow> mpz_to_string (m_den a); Some (n @ ''/'' @ d) })"

text \<open>SMT-LIB text: negative numbers and fractions are applications.\<close>

definition mpz_display_smt2 :: "mpz \<Rightarrow> bool \<Rightarrow> string option" where
  "mpz_display_smt2 a point =
     (if mpz_is_neg a then
        map_option (\<lambda>str. ''(- '' @ str @ (if point then ''.0'' else []) @ '')'') (mpz_to_string (mpz_neg a))
      else map_option (\<lambda>str. str @ (if point then ''.0'' else [])) (mpz_to_string a))"

definition mpq_display_smt2 :: "mpq \<Rightarrow> bool \<Rightarrow> string option" where
  "mpq_display_smt2 a point =
     (if mpq_is_int a then mpz_display_smt2 (m_num a) point
      else do { n \<leftarrow> mpz_display_smt2 (m_num a) point; d \<leftarrow> mpz_display_smt2 (m_den a) point;
                Some (''(/ '' @ n @ '' '' @ d @ '')'') })"

text \<open>At most \<open>prec\<close> digits after the point; a question mark says that there are more.\<close>

primrec decimal_digits_loop :: "mpn_manager \<Rightarrow> mpz \<Rightarrow> bool \<Rightarrow> nat \<Rightarrow> mpz \<Rightarrow> string \<Rightarrow> string option" where
  "decimal_digits_loop m d1 trunc 0 n1 out = Some (if trunc then out else out @ ''?'')"
| "decimal_digits_loop m d1 trunc (Suc i) n1 out =
     (let n1 = mpz_mul n1 (set_int 10)
      in do { v1 \<leftarrow> mpz_div m n1 d1;
              str \<leftarrow> mpz_to_string v1;
              n1 \<leftarrow> mpz_rem m n1 d1;
              if mpz_is_zero n1 then Some (out @ str) else decimal_digits_loop m d1 trunc i n1 (out @ str) })"

definition mpq_display_decimal :: "mpn_manager \<Rightarrow> mpq \<Rightarrow> u32 \<Rightarrow> bool \<Rightarrow> string option" where
  "mpq_display_decimal m a prec trunc =
     (let out = (if mpq_is_neg a then ''-'' else []);
          n1 = (if mpq_is_neg a then mpz_neg (m_num a) else m_num a); d1 = m_den a
      in do { v1 \<leftarrow> mpz_div m n1 d1;
              str \<leftarrow> mpz_to_string v1;
              n1 \<leftarrow> mpz_rem m n1 d1;
              if mpz_is_zero n1 then Some (out @ str)
              else decimal_digits_loop m d1 trunc (unat prec) n1 (out @ str @ ''.'') })"

text \<open>The exceptions that parsing throws.\<close>

datatype parse_error = Mixed_notation | Exponent_too_big | Division_by_zero

primrec digit_scale :: "mpz \<Rightarrow> string \<Rightarrow> mpz" where
  "digit_scale t [] = t"
| "digit_scale t (c # str) =
     digit_scale (if 48 \<le> (of_char c :: nat) \<and> (of_char c :: nat) \<le> 57 then mpz_mul t (set_int 10) else t) str"

text \<open>The exponent is an unsigned 64-bit integer, which wraps.\<close>

primrec parse_exponent :: "u64 \<Rightarrow> string \<Rightarrow> parse_error + u64" where
  "parse_exponent e [] = Inr e"
| "parse_exponent e (c # str) =
     (if 48 \<le> (of_char c :: nat) \<and> (of_char c :: nat) \<le> 57 then parse_exponent (10 * e + of_nat (of_char c - 48)) str
      else if c = CHR ''/'' then Inl Mixed_notation
      else parse_exponent e str)"

definition ends_number :: "char \<Rightarrow> bool" where
  "ends_number c = (c = CHR ''/'' \<or> c = CHR ''.'' \<or> c = CHR ''e'' \<or> c = CHR ''E'')"

definition is_exponent_char :: "char \<Rightarrow> bool" where
  "is_exponent_char c = (c = CHR ''e'' \<or> c = CHR ''E'')"

text \<open>The exponent, its sign and what it is made of, after the letter.\<close>

definition read_exponent :: "string \<Rightarrow> parse_error + bool \<times> u64" where
  "read_exponent str =
     (case str of
        [] \<Rightarrow> Inr (False, 0)
      | c # str \<Rightarrow>
          (case str of
             CHR ''-'' # str \<Rightarrow> map_sum id (Pair True) (parse_exponent 0 str)
           | CHR ''+'' # str \<Rightarrow> map_sum id (Pair False) (parse_exponent 0 str)
           | _ \<Rightarrow> map_sum id (Pair False) (parse_exponent 0 str)))"

text \<open>A decimal number: the digits after the point, if any, over their scale, and the exponent.\<close>

definition scientific :: "mpn_manager \<Rightarrow> mpq \<Rightarrow> (mpz \<times> mpz) option \<Rightarrow> bool \<times> u64 \<Rightarrow> (parse_error + mpq) option" where
  "scientific m a fraction exponent =
     (case exponent of (exp_sign, e) \<Rightarrow>
        if 4294967295 < e then Some (Inl Exponent_too_big)
        else do {
          a \<leftarrow> (case fraction of
                  None \<Rightarrow> Some a
                | Some (den, scale) \<Rightarrow> do { b \<leftarrow> mpq_set_zz m den scale; mpq_add m (reset_denominator a) b });
          a \<leftarrow> (if 0 < e then do {
                  pw \<leftarrow> mpq_power m (of_mpz (set_int 10)) (ucast e);
                  if exp_sign then mpq_div m a pw else mpq_mul m a pw }
                else Some a);
          Some (Inr a) })"

definition finish_parse :: "mpn_manager \<Rightarrow> bool \<Rightarrow> mpq \<Rightarrow> mpq option" where
  "finish_parse m sign a = mpq_normalize m (if sign then mpq_neg a else a)"

text \<open>
  Setting a number, whose old value is \<open>old\<close>, from text; \<open>None\<close> is a call that does not return, and the sum
  is an exception or the new value.
\<close>

definition mpq_of_string :: "mpn_manager \<Rightarrow> mpq \<Rightarrow> string \<Rightarrow> (parse_error + mpq) option" where
  "mpq_of_string m old val =
     (let str = dropWhile (\<lambda>c. c = CHR 0x20) val;
          sign = (str \<noteq> [] \<and> hd str = CHR ''-'');
          num = parse_digits (set_int 0) (takeWhile (\<lambda>c. \<not> ends_number c) str);
          rest = dropWhile (\<lambda>c. \<not> ends_number c) str;
          normal = (\<lambda>r. map_option Inr (finish_parse m sign r))
      in case rest of
           [] \<Rightarrow> normal (of_mpz num)
         | c # after \<Rightarrow>
             (let body = takeWhile (\<lambda>c. \<not> is_exponent_char c) after;
                  tail = (if is_exponent_char c then rest else dropWhile (\<lambda>c. \<not> is_exponent_char c) after);
                  den = parse_digits (set_int 0) body
              in if c = CHR ''/'' then
                   (if tail \<noteq> [] then Some (Inl Mixed_notation)
                    else if mpz_is_zero den then Some (Inl Division_by_zero)
                    else normal \<lparr>m_num = num, m_den = den\<rparr>)
                 else
                   (case read_exponent tail of
                      Inl err \<Rightarrow> Some (Inl err)
                    | Inr exponent \<Rightarrow>
                        do { r \<leftarrow> scientific m \<lparr>m_num = num, m_den = m_den old\<rparr>
                               (if c = CHR ''.'' then Some (den, digit_scale (set_int 1) body) else None) exponent;
                             case r of Inl err \<Rightarrow> Some (Inl err) | Inr a \<Rightarrow> normal a })))"

end
