(* ===== verification/MpqProof.thy ===== *)
theory MpqProof
  imports Mpq MpbqProof
begin

text \<open>
  Correctness of the rationals of util/mpq.cpp: a well-formed rational has a positive denominator with no
  factor in common with the numerator; every operation returns, keeps that form and computes the exact
  result.
\<close>

section \<open>Numbers that the gcd takes\<close>

definition good :: "mpz \<Rightarrow> bool" where
  "good a \<longleftrightarrow> wf_mpz a \<and> canonical a"

text \<open>A call that returns a good number with a given value.\<close>

definition zret :: "mpz option \<Rightarrow> int \<Rightarrow> bool" where
  "zret r x \<longleftrightarrow> (\<exists>c. r = Some c \<and> good c \<and> mpz_val c = x)"

lemma zretE:
  assumes "zret r x"
  obtains c where "r = Some c" "good c" "mpz_val c = x"
  using assms by (auto simp: zret_def)

lemma good_set_int [simp]: "good (set_int v)"
  by (simp add: good_def)

lemma good_arith [simp]:
  assumes "good a" "good b"
  shows "good (mpz_add a b)" "good (mpz_sub a b)" "good (mpz_mul a b)"
    "mpz_val (mpz_add a b) = mpz_val a + mpz_val b" "mpz_val (mpz_sub a b) = mpz_val a - mpz_val b"
    "mpz_val (mpz_mul a b) = mpz_val a * mpz_val b"
  using assms by (simp_all add: good_def canonical_ops mpz_add_correct mpz_sub_correct mpz_mul_correct)

lemma good_neg_abs [simp]:
  assumes "good a"
  shows "good (mpz_neg a)" "good (mpz_abs a)" "mpz_val (mpz_neg a) = - mpz_val a" "mpz_val (mpz_abs a) = \<bar>mpz_val a\<bar>"
proof -
  have w: "wf_mpz a" "canonical a" using assms by (simp_all add: good_def)
  have "canonical (mpz_neg a) \<and> canonical (mpz_abs a)"
  proof (cases "2147483648 \<le> \<bar>mpz_val a\<bar>")
    case True
    then show ?thesis using w mpz_neg_correct [of a] mpz_abs_correct [of a] by (simp add: canonical_val)
  next
    case False
    then have "\<exists>v. a = Small v \<and> v \<noteq> int_min"
      using w by (cases a) (auto simp: abs_mult sint_int_min)
    then show ?thesis by auto
  qed
  then show "good (mpz_neg a)" "good (mpz_abs a)" "mpz_val (mpz_neg a) = - mpz_val a" "mpz_val (mpz_abs a) = \<bar>mpz_val a\<bar>"
    using w by (simp_all add: good_def mpz_neg_correct mpz_abs_correct)
qed

lemma good_tests [simp]:
  assumes "good a"
  shows "mpz_is_pos a \<longleftrightarrow> 0 < mpz_val a" "mpz_is_neg a \<longleftrightarrow> mpz_val a < 0" "mpz_is_zero a \<longleftrightarrow> mpz_val a = 0"
    "mpz_is_one a \<longleftrightarrow> mpz_val a = 1" "mpz_is_minus_one a \<longleftrightarrow> mpz_val a = - 1"
  using assms by (simp_all add: good_def mpz_sign_correct)

lemma good_compare [simp]:
  "\<lbrakk>good a; good b\<rbrakk> \<Longrightarrow> mpz_eq a b \<longleftrightarrow> mpz_val a = mpz_val b"
  "\<lbrakk>good a; good b\<rbrakk> \<Longrightarrow> mpz_lt a b \<longleftrightarrow> mpz_val a < mpz_val b"
  by (simp_all add: good_def mpz_compare_correct)

lemma gcd_zret: "\<lbrakk>good a; good b\<rbrakk> \<Longrightarrow> zret (mpz_gcd m a b) (gcd (mpz_val a) (mpz_val b))"
  using mpz_gcd_correct [of a b m] by (auto simp: zret_def good_def)

lemma canonical_quot_rem:
  assumes "wf_mpz a" "wf_mpz b" "canonical a" "quot_rem_core m a b = Some (q, r)"
  shows "canonical q \<and> canonical r"
proof -
  obtain sa ca sb cb where g: "get_sign_cell a = (sa, ca)" "get_sign_cell b = (sb, cb)" by fastforce
  have s: "sa = 1 \<or> sa = - 1" using sign_get_sign_cell [OF assms(1)] g by simp
  have t: "canonical (set_cell c 1)" "canonical (set_cell c (- 1))" for c by (simp_all add: canonical_set_cell)
  show ?thesis
    using assms(3,4) canonical_set_cell [OF s] t
    by (auto simp: quot_rem_core_def g Let_def split: if_splits option.splits)
qed

lemma canonical_machine_div:
  assumes "wf_mpz a" "wf_mpz b" "canonical a" "machine_div_rem m a b = Some (q, r)"
  shows "canonical q \<and> canonical r"
  using assms(4) canonical_quot_rem [OF assms(1-3), of m q r] by (auto simp: machine_div_rem_def split: if_splits)

lemma machine_div_zret:
  assumes "good a" "good b" "mpz_val b \<noteq> 0"
  shows "zret (machine_div m a b) (mpz_val a sdiv mpz_val b)"
  using assms machine_div_rem_correct [of a b m] canonical_machine_div [of a b m]
  by (fastforce simp: zret_def good_def machine_div_eq)

lemma div_zret:
  assumes a: "good a" and b: "good b" and nz: "mpz_val b \<noteq> 0" and d: "mpz_val b dvd mpz_val a"
  shows "zret (mpz_div m a b) (mpz_val a div mpz_val b)"
proof -
  obtain q r where qr: "machine_div_rem m a b = Some (q, r)" "wf_mpz q" "wf_mpz r"
      "mpz_val q = mpz_val a sdiv mpz_val b" "mpz_val r = mpz_val a smod mpz_val b"
    using machine_div_rem_correct [of a b m] a b nz by (auto simp: good_def)
  have can: "canonical q" "canonical r" using canonical_machine_div [OF _ _ _ qr(1)] a b by (auto simp: good_def)
  have e: "mpz_val a sdiv mpz_val b = mpz_val a div mpz_val b" "mpz_val a smod mpz_val b = 0"
    using sdiv_exact [OF d] d nz by (metis nonzero_mult_div_cancel_right, simp add: smod_0_iff)
  have "good q" "good r" using qr can by (simp_all add: good_def)
  then show ?thesis
    using qr(1,4,5) a b by (auto simp: mpz_div_def zret_def machine_div_eq e)
qed

section \<open>Well-formed rationals\<close>

definition wf_mpq :: "mpq \<Rightarrow> bool" where
  "wf_mpq a \<longleftrightarrow> good (m_num a) \<and> good (m_den a) \<and> 0 < mpz_val (m_den a) \<and>
     coprime (mpz_val (m_num a)) (mpz_val (m_den a))"

definition mpq_val :: "mpq \<Rightarrow> rat" where
  "mpq_val a = of_int (mpz_val (m_num a)) / of_int (mpz_val (m_den a))"

definition qret :: "mpq option \<Rightarrow> rat \<Rightarrow> bool" where
  "qret r x \<longleftrightarrow> (\<exists>c. r = Some c \<and> wf_mpq c \<and> mpq_val c = x)"

lemma qretI: "\<lbrakk>good n; good d; 0 < mpz_val d; coprime (mpz_val n) (mpz_val d); of_int (mpz_val n) / of_int (mpz_val d) = x\<rbrakk>
    \<Longrightarrow> qret (Some \<lparr>m_num = n, m_den = d\<rparr>) x"
  by (simp add: qret_def wf_mpq_def mpq_val_def)

lemma wf_mpqD:
  assumes "wf_mpq a"
  shows "good (m_num a)" "good (m_den a)" "0 < mpz_val (m_den a)" "mpz_val (m_den a) \<noteq> 0"
    "coprime (mpz_val (m_num a)) (mpz_val (m_den a))"
  using assms by (auto simp: wf_mpq_def)

lemma of_mpz_parts [simp]: "m_num (of_mpz n) = n" "m_den (of_mpz n) = set_int 1"
  by (simp_all add: of_mpz_def)

lemma wf_of_mpz [simp]: "good n \<Longrightarrow> wf_mpq (of_mpz n)" "mpq_val (of_mpz n) = of_int (mpz_val n)"
  by (simp_all add: of_mpz_def wf_mpq_def mpq_val_def)

lemma is_int_val: "wf_mpq a \<Longrightarrow> mpq_is_int a \<Longrightarrow> mpq_val a = of_int (mpz_val (m_num a)) \<and> mpz_val (m_den a) = 1"
  by (simp add: mpq_is_int_def mpq_val_def wf_mpqD)

lemma div_by_good:
  assumes "good a" "good g" "0 < mpz_val g" "mpz_val g dvd mpz_val a"
  obtains c where "mpz_div m a g = Some c" "good c" "mpz_val c = mpz_val a div mpz_val g"
  using div_zret [of a g m] assms by (auto elim: zretE)

text \<open>Dividing numerator and denominator by a common divisor, unless it is one.\<close>

lemma reduce_correct:
  assumes "good n" "good d" "good h" "0 < mpz_val d" "mpz_val h = gcd (mpz_val n) (mpz_val d)"
    "of_int (mpz_val n) / of_int (mpz_val d) = x"
  shows "qret (if mpz_is_one h then Some \<lparr>m_num = n, m_den = d\<rparr>
    else do { n' \<leftarrow> mpz_div m n h; d' \<leftarrow> mpz_div m d h; Some \<lparr>m_num = n', m_den = d'\<rparr> }) x"
proof (cases "mpz_val h = 1")
  case True
  then have "coprime (mpz_val n) (mpz_val d)" using assms(5) by (simp add: coprime_iff_gcd_eq_1)
  then have "qret (Some \<lparr>m_num = n, m_den = d\<rparr>) x" using assms by (intro qretI)
  then show ?thesis using True assms(3) by simp
next
  case False
  have pos: "0 < mpz_val h" using assms(4,5) by (simp add: gcd_pos_int)
  obtain n' where n': "mpz_div m n h = Some n'" "good n'" "mpz_val n' = mpz_val n div mpz_val h"
    using div_by_good [OF assms(1,3) pos, of m] assms(5) by auto
  obtain d' where d': "mpz_div m d h = Some d'" "good d'" "mpz_val d' = mpz_val d div mpz_val h"
    using div_by_good [OF assms(2,3) pos, of m] assms(5) by auto
  have c: "coprime (mpz_val n') (mpz_val d')" using pos by (simp add: n'(3) d'(3) assms(5) div_gcd_coprime)
  have e: "mpz_val n = mpz_val n' * mpz_val h" "mpz_val d = mpz_val d' * mpz_val h"
    by (simp_all add: n'(3) d'(3) assms(5))
  have dp: "0 < mpz_val d'" using assms(4) pos e(2) by (metis zero_less_mult_pos2)
  have "of_int (mpz_val n') / of_int (mpz_val d') = x" using assms(6) pos unfolding e by simp
  then have "qret (Some \<lparr>m_num = n', m_den = d'\<rparr>) x" using n'(2) d'(2) dp c by (intro qretI)
  then show ?thesis using n'(1) d'(1) False assms(3) by simp
qed

lemma normalize_eq:
  assumes "good n" "good d" "0 < mpz_val d" "of_int (mpz_val n) / of_int (mpz_val d) = x"
  shows "qret (mpq_normalize m \<lparr>m_num = n, m_den = d\<rparr>) x"
proof -
  obtain g where g: "mpz_gcd m n d = Some g" "good g" "mpz_val g = gcd (mpz_val n) (mpz_val d)"
    using gcd_zret [OF assms(1,2)] by (rule zretE)
  show ?thesis using reduce_correct [OF assms(1,2) g(2) assms(3) g(3) assms(4), of m] by (simp add: mpq_normalize_def g(1) split: if_splits)
qed

lemma set_zz_correct:
  assumes "good n" "good d" "mpz_val d \<noteq> 0"
  shows "qret (mpq_set_zz m n d) (of_int (mpz_val n) / of_int (mpz_val d))"
  using assms by (cases "mpz_val d < 0") (auto simp: mpq_set_zz_def intro!: normalize_eq)

section \<open>Sums\<close>

lemma coprime_sum:
  fixes a b c d :: int
  assumes "coprime a b" "coprime c d" "coprime b d"
  shows "coprime (a * d + c * b) (b * d)"
proof -
  have "gcd b (a * d + c * b) = gcd b (a * d)" "gcd d (a * d + c * b) = gcd d (c * b)"
    using gcd_add_mult [of b c "a * d"] gcd_add_mult [of d a "c * b"] by (simp_all add: add.commute)
  moreover have "coprime b (a * d)" "coprime d (c * b)" using assms by (simp_all add: coprime_commute)
  ultimately have "coprime b (a * d + c * b)" "coprime d (a * d + c * b)" by (simp_all add: coprime_iff_gcd_eq_1)
  then show ?thesis by (simp add: coprime_commute)
qed

text \<open>
  The sum over the least common multiple of the denominators: what the numerator shares with it, it shares
  with the gcd of the denominators.
\<close>

lemma gcd_sum:
  fixes a b c d g :: int
  assumes "coprime a (b * g)" "coprime c (d * g)" "coprime b d"
  shows "gcd (a * d + c * b) (b * d * g) = gcd (a * d + c * b) g"
proof -
  have "coprime (a * d + c * b) (b * d)" using coprime_sum [of a b c d] assms by simp
  then show ?thesis by (simp add: gcd_mult_right_left_cancel)
qed

text \<open>Adding the values of two rationals, or subtracting them.\<close>

definition plus_minus :: "bool \<Rightarrow> 'a::ab_group_add \<Rightarrow> 'a \<Rightarrow> 'a" where
  "plus_minus SUB x y = (if SUB then x - y else x + y)"

lemma good_plus_minus:
  assumes "good x" "good y"
  shows "good (if SUB then mpz_sub x y else mpz_add x y)"
    "mpz_val (if SUB then mpz_sub x y else mpz_add x y) = plus_minus SUB (mpz_val x) (mpz_val y)"
  using assms by (simp_all add: plus_minus_def)

lemma plus_minus_mult: "plus_minus SUB x y = x + plus_minus SUB 0 1 * (y::'a::comm_ring_1)"
  by (simp add: plus_minus_def)

lemma plus_minus_of_int: "plus_minus SUB (of_int x) (of_int y) = (of_int (plus_minus SUB x y) :: 'a::ring_1)"
  by (simp add: plus_minus_def)

lemma lin_arith_correct:
  assumes "wf_mpq a" "wf_mpq b"
  shows "qret (lin_arith_op SUB m a b) (plus_minus SUB (mpq_val a) (mpq_val b))"
proof -
  let ?s = "plus_minus SUB 0 (1::int)"
  define na da nb db where v: "na = mpz_val (m_num a)" "da = mpz_val (m_den a)" "nb = mpz_val (m_num b)" "db = mpz_val (m_den b)"
  have pm: "plus_minus SUB x y = x + ?s * y" for x y :: int by (rule plus_minus_mult)
  have pos: "0 < da" "0 < db" and cop: "coprime na da" "coprime nb db"
    and sgd: "good (m_num a)" "good (m_den a)" "good (m_num b)" "good (m_den b)"
    using assms by (simp_all add: v wf_mpqD)
  have cs: "coprime (?s * nb) db" using cop(2) by (simp add: plus_minus_def)
  obtain g where g: "mpz_gcd m (m_den a) (m_den b) = Some g" "good g" "mpz_val g = gcd da db"
    unfolding v using gcd_zret [OF sgd(2,4)] by (rule zretE)
  have gp: "0 < mpz_val g" using pos by (simp add: g(3) gcd_pos_int)
  show ?thesis
  proof (cases "mpz_val g = 1")
    case True
    let ?n = "if SUB then mpz_sub (mpz_mul (m_num a) (m_den b)) (mpz_mul (m_num b) (m_den a))
              else mpz_add (mpz_mul (m_num a) (m_den b)) (mpz_mul (m_num b) (m_den a))"
    have "good ?n" and e: "mpz_val ?n = plus_minus SUB (na * db) (nb * da)"
      using good_plus_minus [of "mpz_mul (m_num a) (m_den b)" "mpz_mul (m_num b) (m_den a)" SUB] sgd by (simp_all add: v)
    then have n: "good ?n" "mpz_val ?n = na * db + ?s * nb * da" by (simp_all only: pm [of "na * db"] mult.assoc)
    have "coprime (na * db + ?s * nb * da) (da * db)"
      using coprime_sum [OF cop(1) cs] True g(3) by (simp add: coprime_iff_gcd_eq_1)
    moreover have "of_int (na * db + ?s * nb * da) / of_int (da * db) = plus_minus SUB (mpq_val a) (mpq_val b)"
      using pos by (simp add: plus_minus_def mpq_val_def v field_simps)
    ultimately have "qret (Some \<lparr>m_num = ?n, m_den = mpz_mul (m_den a) (m_den b)\<rparr>) (plus_minus SUB (mpq_val a) (mpq_val b))"
      using n sgd pos by (intro qretI) (simp_all add: v)
    then show ?thesis using True g by (simp add: lin_arith_op_def Let_def)
  next
    case False
    obtain t3 where t3: "mpz_div m (m_den a) g = Some t3" "good t3" "mpz_val t3 = da div mpz_val g"
      using div_by_good [of "m_den a" g m] sgd g gp v by auto
    obtain t4 where t4: "mpz_div m (m_den b) g = Some t4" "good t4" "mpz_val t4 = db div mpz_val g"
      using div_by_good [of "m_den b" g m] sgd g gp v by auto
    define p q h where pq: "p = mpz_val t3" "q = mpz_val t4" "h = mpz_val g"
    have d: "da = p * h" "db = q * h" by (simp_all add: pq t3(3) t4(3) g(3))
    have cpq: "coprime p q" using pos by (simp add: pq t3(3) t4(3) g(3) div_gcd_coprime)
    let ?t = "if SUB then mpz_sub (mpz_mul t4 (m_num a)) (mpz_mul t3 (m_num b)) else mpz_add (mpz_mul t4 (m_num a)) (mpz_mul t3 (m_num b))"
    let ?c = "mpz_mul t3 (m_den b)"
    have "good ?t" "mpz_val ?t = plus_minus SUB (na * q) (nb * p)"
      using good_plus_minus [of "mpz_mul t4 (m_num a)" "mpz_mul t3 (m_num b)" SUB] sgd t3(2) t4(2)
      by (simp_all add: v pq mult.commute)
    then have t: "good ?t" "mpz_val ?t = na * q + ?s * nb * p" by (simp_all only: pm [of "na * q"] mult.assoc)
    have c: "good ?c" "mpz_val ?c = p * q * h" using t3(2) sgd d by (simp_all add: pq(1) v)
    have hp: "0 < p" "0 < q" "0 < h"
      using zero_less_mult_pos2 [of p h] zero_less_mult_pos2 [of q h] pos gp unfolding d pq(3) [symmetric] by auto
    then have cp: "0 < p * q * h" by simp
    obtain t1 where t1: "mpz_gcd m ?t g = Some t1" "good t1" "mpz_val t1 = gcd (mpz_val ?t) h"
      unfolding pq using gcd_zret [OF t(1) g(2)] by (rule zretE)
    have t1': "mpz_val t1 = gcd (mpz_val ?t) (mpz_val ?c)"
      using gcd_sum [of na p h "?s * nb" q] cop(1) cs cpq unfolding t1(3) t(2) c(2) d by simp
    have val: "of_int (mpz_val ?t) / of_int (mpz_val ?c) = plus_minus SUB (mpq_val a) (mpq_val b)"
      using hp unfolding t(2) c(2) by (simp add: plus_minus_def mpq_val_def v [symmetric] d field_simps)
    have "mpz_val ?c > 0" using cp c(2) by simp
    from reduce_correct [OF t(1) c(1) t1(2) this t1' val, of m]
    have "qret (if mpz_is_one t1 then Some \<lparr>m_num = ?t, m_den = ?c\<rparr>
        else do { n \<leftarrow> mpz_div m ?t t1; d \<leftarrow> mpz_div m ?c t1; Some \<lparr>m_num = n, m_den = d\<rparr> }) (plus_minus SUB (mpq_val a) (mpq_val b))" .
    moreover have "\<not> mpz_is_one g" using False g(2) by simp
    ultimately show ?thesis
      unfolding lin_arith_op_def Let_def g(1) t3(1) t4(1) option.simps Option.bind.bind_lunit if_False t1(1) by simp
  qed
qed

section \<open>Products\<close>

lemma rat_mul_correct:
  assumes "wf_mpq a" "wf_mpq b"
  shows "qret (rat_mul m a b) (mpq_val a * mpq_val b)"
proof -
  define na da nb db where v: "na = mpz_val (m_num a)" "da = mpz_val (m_den a)" "nb = mpz_val (m_num b)" "db = mpz_val (m_den b)"
  have pos: "0 < da" "0 < db" and cop: "coprime na da" "coprime nb db"
    and sgd: "good (m_num a)" "good (m_den a)" "good (m_num b)" "good (m_den b)"
    using assms by (simp_all add: v wf_mpqD)
  obtain g1 where g1: "mpz_gcd m (m_den a) (m_num b) = Some g1" "good g1" "mpz_val g1 = gcd da nb"
    unfolding v using gcd_zret [OF sgd(2,3)] by (rule zretE)
  obtain g2 where g2: "mpz_gcd m (m_num a) (m_den b) = Some g2" "good g2" "mpz_val g2 = gcd na db"
    unfolding v using gcd_zret [OF sgd(1,4)] by (rule zretE)
  have gp: "0 < mpz_val g1" "0 < mpz_val g2" using pos by (simp_all add: g1(3) g2(3) gcd_pos_int)
  obtain t1 where t1: "mpz_div m (m_num a) g2 = Some t1" "good t1" "mpz_val t1 = na div mpz_val g2"
    using div_by_good [OF sgd(1) g2(2) gp(2), of m] g2(3) v by auto
  obtain t2 where t2: "mpz_div m (m_num b) g1 = Some t2" "good t2" "mpz_val t2 = nb div mpz_val g1"
    using div_by_good [OF sgd(3) g1(2) gp(1), of m] g1(3) v by auto
  obtain t3 where t3: "mpz_div m (m_den b) g2 = Some t3" "good t3" "mpz_val t3 = db div mpz_val g2"
    using div_by_good [OF sgd(4) g2(2) gp(2), of m] g2(3) v by auto
  obtain t4 where t4: "mpz_div m (m_den a) g1 = Some t4" "good t4" "mpz_val t4 = da div mpz_val g1"
    using div_by_good [OF sgd(2) g1(2) gp(1), of m] g1(3) v by auto
  have e: "na = mpz_val t1 * mpz_val g2" "db = mpz_val t3 * mpz_val g2" "nb = mpz_val t2 * mpz_val g1" "da = mpz_val t4 * mpz_val g1"
    by (simp_all add: t1(3) t2(3) t3(3) t4(3) g1(3) g2(3))
  have "coprime (mpz_val t1) (mpz_val t3)" "coprime (mpz_val t4) (mpz_val t2)"
    unfolding t1(3) t2(3) t3(3) t4(3) g1(3) g2(3) using pos by (auto intro!: div_gcd_coprime)
  moreover have "coprime (mpz_val t1) (mpz_val t4)" "coprime (mpz_val t2) (mpz_val t3)"
    using cop unfolding e by simp_all
  ultimately have c: "coprime (mpz_val t1 * mpz_val t2) (mpz_val t3 * mpz_val t4)" by (simp add: coprime_commute)
  have p: "0 < mpz_val t3" "0 < mpz_val t4" using pos gp e by (metis zero_less_mult_pos2)+
  have "of_int (mpz_val t1 * mpz_val t2) / of_int (mpz_val t3 * mpz_val t4) = mpq_val a * mpq_val b"
    unfolding mpq_val_def v [symmetric] e using gp p by simp
  then have "qret (Some \<lparr>m_num = mpz_mul t1 t2, m_den = mpz_mul t3 t4\<rparr>) (mpq_val a * mpq_val b)"
    using t1(2) t2(2) t3(2) t4(2) c p by (intro qretI) simp_all
  then show ?thesis by (simp add: rat_mul_def g1(1) g2(1) t1(1) t2(1) t3(1) t4(1))
qed

lemma qret_int [intro]: "\<lbrakk>good n; of_int (mpz_val n) = x\<rbrakk> \<Longrightarrow> qret (Some (of_mpz n)) x"
  by (simp add: qret_def)

lemma qretE:
  assumes "qret r x"
  obtains c where "r = Some c" "wf_mpq c" "mpq_val c = x"
  using assms by (auto simp: qret_def)

lemma add_sub_mul_correct:
  assumes "wf_mpq a" "wf_mpq b"
  shows "qret (mpq_add m a b) (mpq_val a + mpq_val b)" "qret (mpq_sub m a b) (mpq_val a - mpq_val b)"
    "qret (mpq_mul m a b) (mpq_val a * mpq_val b)"
  using lin_arith_correct [OF assms, of False] lin_arith_correct [OF assms, of True] rat_mul_correct [OF assms] assms
  by (auto simp: mpq_add_def mpq_sub_def mpq_mul_def plus_minus_def is_int_val wf_mpqD)

lemma add_mul_z_correct:
  assumes "wf_mpq a" "good n"
  shows "qret (mpq_add_z m a n) (mpq_val a + of_int (mpz_val n))" "qret (mpq_mul_z m n a) (of_int (mpz_val n) * mpq_val a)"
proof -
  note w = wf_mpqD [OF assms(1)]
  have "qret (rat_add_z m a n) (mpq_val a + of_int (mpz_val n))"
    unfolding rat_add_z_def using w assms(2) by (intro normalize_eq) (auto simp: mpq_val_def field_simps)
  moreover have "qret (rat_mul_z m n a) (of_int (mpz_val n) * mpq_val a)"
    unfolding rat_mul_z_def using w assms(2) by (intro normalize_eq) (auto simp: mpq_val_def)
  ultimately show "qret (mpq_add_z m a n) (mpq_val a + of_int (mpz_val n))" "qret (mpq_mul_z m n a) (of_int (mpz_val n) * mpq_val a)"
    using assms w by (auto simp: mpq_add_z_def mpq_mul_z_def is_int_val)
qed

lemma wf_neg_abs:
  assumes "wf_mpq a"
  shows "wf_mpq (mpq_neg a)" "wf_mpq (mpq_abs a)" "mpq_val (mpq_neg a) = - mpq_val a" "mpq_val (mpq_abs a) = \<bar>mpq_val a\<bar>"
  using assms by (simp_all add: mpq_neg_def mpq_abs_def wf_mpq_def mpq_val_def abs_divide)

lemma is_one_val:
  assumes "wf_mpq a"
  shows "mpq_is_one a \<longleftrightarrow> mpq_val a = 1" "mpq_is_minus_one a \<longleftrightarrow> mpq_val a = - 1"
    "mpq_is_zero a \<longleftrightarrow> mpq_val a = 0" "mpq_is_pos a \<longleftrightarrow> 0 < mpq_val a" "mpq_is_neg a \<longleftrightarrow> mpq_val a < 0"
    "mpq_is_int a \<longleftrightarrow> mpq_val a \<in> \<int>"
proof -
  note w = wf_mpqD [OF assms]
  have one: "mpz_val (m_num a) = k * mpz_val (m_den a) \<longrightarrow> mpz_val (m_den a) = 1" for k
    using w(3,5) by auto
  have e: "mpq_val a = of_int k \<longleftrightarrow> mpz_val (m_num a) = k * mpz_val (m_den a)" for k
    using w(4) by (simp add: mpq_val_def divide_eq_eq flip: of_int_mult)
  show "mpq_is_one a \<longleftrightarrow> mpq_val a = 1" "mpq_is_minus_one a \<longleftrightarrow> mpq_val a = - 1"
    using e [of 1] e [of "- 1"] one [of 1] one [of "- 1"] w by (auto simp: mpq_is_one_def mpq_is_minus_one_def)
  show "mpq_is_int a \<longleftrightarrow> mpq_val a \<in> \<int>"
    using e one w(2) by (auto simp: mpq_is_int_def mpq_val_def elim!: Ints_cases)
  show "mpq_is_zero a \<longleftrightarrow> mpq_val a = 0" "mpq_is_pos a \<longleftrightarrow> 0 < mpq_val a" "mpq_is_neg a \<longleftrightarrow> mpq_val a < 0"
    using w by (auto simp: mpq_is_zero_def mpq_is_pos_def mpq_is_neg_def mpq_val_def zero_less_divide_iff divide_less_0_iff)
qed

lemma addmul_correct:
  assumes "wf_mpq a" "wf_mpq b" "wf_mpq c"
  shows "qret (mpq_addmul m a b c) (mpq_val a + mpq_val b * mpq_val c)" "qret (mpq_submul m a b c) (mpq_val a - mpq_val b * mpq_val c)"
proof -
  obtain t where t: "mpq_mul m b c = Some t" "wf_mpq t" "mpq_val t = mpq_val b * mpq_val c"
    using add_sub_mul_correct(3) [OF assms(2,3)] by (rule qretE)
  show "qret (mpq_addmul m a b c) (mpq_val a + mpq_val b * mpq_val c)" "qret (mpq_submul m a b c) (mpq_val a - mpq_val b * mpq_val c)"
    using add_sub_mul_correct [OF assms(1,3), of m] add_sub_mul_correct [OF assms(1) t(2), of m] assms(2) t
    by (simp_all add: mpq_addmul_def mpq_submul_def is_one_val)
qed

lemma addmul_z_correct:
  assumes "wf_mpq a" "good b" "wf_mpq c"
  shows "qret (mpq_addmul_z m a b c) (mpq_val a + of_int (mpz_val b) * mpq_val c)"
    "qret (mpq_submul_z m a b c) (mpq_val a - of_int (mpz_val b) * mpq_val c)"
proof -
  obtain t where t: "mpq_mul_z m b c = Some t" "wf_mpq t" "mpq_val t = of_int (mpz_val b) * mpq_val c"
    using add_mul_z_correct(2) [OF assms(3,2)] by (rule qretE)
  show "qret (mpq_addmul_z m a b c) (mpq_val a + of_int (mpz_val b) * mpq_val c)"
    "qret (mpq_submul_z m a b c) (mpq_val a - of_int (mpz_val b) * mpq_val c)"
    using add_sub_mul_correct [OF assms(1,3), of m] add_sub_mul_correct [OF assms(1) t(2), of m] assms(2) t
    by (simp_all add: mpq_addmul_z_def mpq_submul_z_def)
qed

section \<open>Quotients\<close>

lemma val_0_iff: "wf_mpq a \<Longrightarrow> mpq_val a = 0 \<longleftrightarrow> mpz_val (m_num a) = 0"
  by (simp add: mpq_val_def wf_mpqD)

lemma inv_correct:
  assumes "wf_mpq a" "mpq_val a \<noteq> 0"
  shows "wf_mpq (mpq_inv a)" "mpq_val (mpq_inv a) = inverse (mpq_val a)"
  using assms val_0_iff [OF assms(1)]
  by (auto simp: mpq_inv_def Let_def mpq_is_neg_def wf_mpq_def mpq_val_def coprime_commute)

lemma set_zz_normalize:
  assumes "good n" "good d" "mpz_val d \<noteq> 0"
  shows "qret (mpq_normalize m (if mpz_is_neg d then \<lparr>m_num = mpz_neg n, m_den = mpz_neg d\<rparr> else \<lparr>m_num = n, m_den = d\<rparr>))
    (of_int (mpz_val n) / of_int (mpz_val d))"
  using assms by (cases "mpz_val d < 0") (auto intro!: normalize_eq)

lemma div_correct:
  assumes "wf_mpq a" "wf_mpq b" "mpq_val b \<noteq> 0"
  shows "qret (mpq_div m a b) (mpq_val a / mpq_val b)"
  using set_zz_normalize [of "mpz_mul (m_num a) (m_den b)" "mpz_mul (m_den a) (m_num b)" m] assms val_0_iff [OF assms(2)]
  by (simp add: mpq_div_def Let_def wf_mpqD mpq_val_def)

lemma div_z_correct:
  assumes "wf_mpq a" "good b" "mpz_val b \<noteq> 0"
  shows "qret (mpq_div_z m a b) (mpq_val a / of_int (mpz_val b))"
proof -
  have "mpz_is_neg (mpz_mul (m_den a) b) = mpz_is_neg b"
    using assms wf_mpqD(3) [OF assms(1)] by (auto simp: wf_mpqD(2) mult_less_0_iff)
  then show ?thesis
    using set_zz_normalize [of "m_num a" "mpz_mul (m_den a) b" m] assms by (simp add: mpq_div_z_def Let_def wf_mpqD mpq_val_def)
qed

section \<open>Comparisons and rounding\<close>

lemma eq_correct:
  assumes "wf_mpq a" "wf_mpq b"
  shows "mpq_eq a b \<longleftrightarrow> mpq_val a = mpq_val b"
proof
  note w = wf_mpqD [OF assms(1)] wf_mpqD [OF assms(2)]
  assume "mpq_val a = mpq_val b"
  then have "of_int (mpz_val (m_num a) * mpz_val (m_den b)) = (of_int (mpz_val (m_num b) * mpz_val (m_den a)) :: rat)"
    using w by (simp add: mpq_val_def field_simps)
  then have e: "mpz_val (m_num a) * mpz_val (m_den b) = mpz_val (m_num b) * mpz_val (m_den a)" by (simp only: of_int_eq_iff)
  then have "mpz_val (m_den a) dvd mpz_val (m_den b)" "mpz_val (m_den b) dvd mpz_val (m_den a)"
    using w(5,10) by (metis coprime_commute coprime_dvd_mult_right_iff dvd_triv_right)+
  then have "mpz_val (m_den a) = mpz_val (m_den b)" using w(3,8) by (simp add: zdvd_antisym_nonneg)
  then show "mpq_eq a b" using e w by (simp add: mpq_eq_def)
qed (use assms in \<open>simp add: mpq_eq_def mpq_val_def wf_mpqD\<close>)

lemma sign_pos: "good a \<Longrightarrow> mpz_sign a < 0 \<longleftrightarrow> mpz_val a < 0" "good a \<Longrightarrow> mpz_sign a = 0 \<longleftrightarrow> mpz_val a = 0"
    "good a \<Longrightarrow> 0 < mpz_sign a \<longleftrightarrow> 0 < mpz_val a"
  using good_tests [of a] by (simp_all add: mpz_is_neg_def mpz_is_pos_def mpz_is_zero_def)

lemma lt_correct:
  assumes "wf_mpq a" "wf_mpq b"
  shows "mpq_lt a b \<longleftrightarrow> mpq_val a < mpq_val b"
proof -
  note w = wf_mpqD [OF assms(1)] wf_mpqD [OF assms(2)]
  define na da nb db where v: "na = mpz_val (m_num a)" "da = mpz_val (m_den a)" "nb = mpz_val (m_num b)" "db = mpz_val (m_den b)"
  have pos: "0 < da" "0 < db" using w by (simp_all add: v)
  have c: "mpq_val a < mpq_val b \<longleftrightarrow> na * db < nb * da"
    using pos by (simp add: mpq_val_def v [symmetric] frac_less_eq divide_less_eq less_divide_eq mult.commute flip: of_int_mult)
  have s: "na * db < 0 \<longleftrightarrow> na < 0" "nb * da < 0 \<longleftrightarrow> nb < 0" "0 < na * db \<longleftrightarrow> 0 < na" "0 < nb * da \<longleftrightarrow> 0 < nb"
    using pos by (simp_all add: mult_less_0_iff zero_less_mult_iff)
  have l: "mpz_lt (mpz_mul (m_num a) (m_den b)) (mpz_mul (m_num b) (m_den a)) \<longleftrightarrow> na * db < nb * da"
    using w by (simp add: v)
  have "rat_lt a b \<longleftrightarrow> na * db < nb * da"
    using s sign_pos [OF w(1)] sign_pos [OF w(6)] unfolding rat_lt_def Let_def l v [symmetric] by (smt (verit))
  moreover have "mpq_is_int a \<and> mpq_is_int b \<Longrightarrow> mpz_lt (m_num a) (m_num b) \<longleftrightarrow> na * db < nb * da"
    using w by (simp add: v mpq_is_int_def)
  ultimately show ?thesis by (auto simp: mpq_lt_def c)
qed

text \<open>The two parts are what the binary rationals take from a rational.\<close>

lemma quotient_of_val:
  assumes "wf_mpq a"
  shows "q_num (mpq_val a) = mpz_val (m_num a)" "q_den (mpq_val a) = mpz_val (m_den a)"
proof -
  have "mpq_val a = Fract (mpz_val (m_num a)) (mpz_val (m_den a))"
    by (simp add: mpq_val_def Fract_of_int_quotient)
  then have "quotient_of (mpq_val a) = (mpz_val (m_num a), mpz_val (m_den a))"
    using wf_mpqD [OF assms] by (simp add: quotient_of_Fract Rat.normalize_stable)
  then show "q_num (mpq_val a) = mpz_val (m_num a)" "q_den (mpq_val a) = mpz_val (m_den a)"
    by (simp_all add: q_num_def q_den_def)
qed

lemma set_int_1 [simp]: "mpz_val (set_int 0) = 0" "mpz_val (set_int 1) = 1" "mpz_val (set_int 10) = 10"
  by (simp_all add: set_int_def)

lemma floor_ceil_correct:
  assumes "wf_mpq a"
  shows "zret (mpq_floor m a) \<lfloor>mpq_val a\<rfloor>" "zret (mpq_ceil m a) \<lceil>mpq_val a\<rceil>"
proof -
  note w = wf_mpqD [OF assms]
  obtain f where f: "machine_div m (m_num a) (m_den a) = Some f" "good f" "mpz_val f = mpz_val (m_num a) sdiv mpz_val (m_den a)"
    using machine_div_zret [OF w(1,2,4)] by (rule zretE)
  have "zret (mpq_floor m a) (q_floor (mpq_val a))"
    using w f by (simp add: mpq_floor_def q_floor_def mpq_is_int_def quotient_of_val [OF assms] zret_def)
  moreover have "zret (mpq_ceil m a) (q_ceil (mpq_val a))"
    using w f by (simp add: mpq_ceil_def q_ceil_def mpq_is_int_def quotient_of_val [OF assms] zret_def)
  ultimately show "zret (mpq_floor m a) \<lfloor>mpq_val a\<rfloor>" "zret (mpq_ceil m a) \<lceil>mpq_val a\<rceil>"
    by (simp_all add: q_floor_ceil)
qed

section \<open>Powers\<close>

lemma mpq_power_loop_correct:
  assumes "unat p < 2147483648" "k \<le> 31" "bmask = push_bit k 1" "wf_mpq pw" "wf_mpq b"
  shows "qret (mpq_power_loop m p bmask pw b) (mpq_val b * mpq_val pw ^ (unat p div 2 ^ k))"
  using assms(2-)
proof (induction "31 - k" arbitrary: k bmask pw b)
  case (0 k)
  then have k: "k = 31" by simp
  have "unat bmask = 2147483648" using 0 k by (simp add: unat_push_bit_u32)
  then have "\<not> bmask \<le> p" using assms(1) by (simp add: word_le_nat_alt)
  moreover have "unat p div 2 ^ k = 0" using assms(1) k by simp
  ultimately show ?case using 0 by (subst mpq_power_loop.simps) (simp add: qret_def)
next
  case (Suc n k)
  have k: "k < 31" using Suc(2) by simp
  have um: "unat bmask = 2 ^ k" using Suc(4) k unat_pow2_u32 [of k] by (simp add: push_bit_eq_mult)
  show ?case
  proof (cases "bmask \<le> p")
    case False
    then have "unat p < 2 ^ k" using um by (simp add: word_le_nat_alt)
    then show ?thesis using Suc.prems False by (subst mpq_power_loop.simps) (simp add: qret_def)
  next
    case True
    have bit: "(bmask AND p \<noteq> 0) \<longleftrightarrow> odd (unat p div 2 ^ k)"
      unfolding Suc(4) using k by (intro and_pow2_u32) simp
    obtain b' where b': "(if bmask AND p \<noteq> 0 then mpq_mul m b pw else Some b) = Some b'" "wf_mpq b'"
        "mpq_val b' = mpq_val b * (if odd (unat p div 2 ^ k) then mpq_val pw else 1)"
      using add_sub_mul_correct(3) [OF Suc(6,5), of m] Suc(6) bit by (auto simp: qret_def)
    obtain pw' where pw': "mpq_mul m pw pw = Some pw'" "wf_mpq pw'" "mpq_val pw' = mpq_val pw * mpq_val pw"
      using add_sub_mul_correct(3) [OF Suc(5,5), of m] by (rule qretE)
    have mk: "push_bit 1 bmask = push_bit (Suc k) 1" using Suc(4) by simp
    have "qret (mpq_power_loop m p (push_bit 1 bmask) pw' b') (mpq_val b' * mpq_val pw' ^ (unat p div 2 ^ Suc k))"
      using Suc(2) k by (intro Suc(1) mk pw'(2) b'(2)) simp_all
    moreover have "mpq_val b' * mpq_val pw' ^ (unat p div 2 ^ Suc k) = mpq_val b * mpq_val pw ^ (unat p div 2 ^ k)"
      unfolding b'(3) pw'(3) mult.assoc power_bit_step ..
    ultimately show ?thesis using True b'(1) pw'(1) by (subst mpq_power_loop.simps) simp
  qed
qed

lemma power_correct:
  assumes "wf_mpq a" "unat p < 2147483648"
  shows "qret (mpq_power m a p) (mpq_val a ^ unat p)"
  using mpq_power_loop_correct [OF assms(2), of 0 1 a "of_mpz (set_int 1)" m] assms(1) by (simp add: mpq_power_def)

text \<open>From \<open>2 ^ 31\<close> on the mask becomes zero and the loop does not end.\<close>

lemma mpq_power_loop_diverges:
  assumes "2147483648 \<le> unat p"
  shows "mpq_power_loop m p (push_bit k 1) pw b = None"
proof -
  have "2147483648 \<le> unat q \<longrightarrow> \<not> (\<exists>k. bmask = push_bit k 1)" if "mpq_power_loop n q bmask pw b = Some c" for n q bmask pw b c
  proof (rule mpq_power_loop.raw_induct [OF _ that])
    fix loop :: "mpn_manager \<Rightarrow> u32 \<Rightarrow> u32 \<Rightarrow> mpq \<Rightarrow> mpq \<Rightarrow> mpq option" and n q bmask pw b c
    assume IH: "\<And>n q bmask pw b c. loop n q bmask pw b = Some c \<Longrightarrow> 2147483648 \<le> unat q \<longrightarrow> \<not> (\<exists>k. bmask = push_bit k 1)"
      and body: "(if bmask \<le> q then
          (if bmask AND q \<noteq> 0 then mpq_mul n b pw else Some b) \<bind>
            (\<lambda>b. mpq_mul n pw pw \<bind> (\<lambda>pw. loop n q (push_bit 1 bmask) pw b))
        else Some b) = Some c"
    show "2147483648 \<le> unat q \<longrightarrow> \<not> (\<exists>k. bmask = push_bit k 1)"
    proof (intro impI notI)
      assume q: "2147483648 \<le> unat q"
      assume "\<exists>k. bmask = push_bit k 1"
      then obtain k where k: "bmask = push_bit k 1" by blast
      have "bmask \<le> q" using q mask_le_u32 [of k] k by (simp add: word_le_nat_alt)
      then obtain pw' b' where "loop n q (push_bit 1 bmask) pw' b' = Some c" using body by (auto simp: bind_eq_Some_conv)
      from IH [OF this] show False using k q by (metis push_bit_push_bit)
    qed
  qed
  then show ?thesis using assms by (cases "mpq_power_loop m p (push_bit k 1) pw b") blast+
qed

lemma power_diverges: "2147483648 \<le> unat p \<Longrightarrow> mpq_power m a p = None"
  using mpq_power_loop_diverges [of p m 0] by (simp add: mpq_power_def)

end
