(* ===== verification/MpqText.thy ===== *)
theory MpqText
  imports MpqProof
begin

text \<open>
  The text of rationals: what \<open>to_string\<close> prints is read back by \<open>set(char const *)\<close>, decimal and
  scientific notation have their value, and the three exceptions.
\<close>

section \<open>Pieces of the parser\<close>

lemma good_parse_digits:
  assumes "good a"
  shows "good (parse_digits a str)" "mpz_val (parse_digits a str) = horner10 (mpz_val a) (filter is_digit str)"
proof -
  show "good (parse_digits a str)" using assms by (induction str arbitrary: a) simp_all
  show "mpz_val (parse_digits a str) = horner10 (mpz_val a) (filter is_digit str)"
    using parse_digits_correct [of a str] assms by (simp add: good_def)
qed

lemma digit_scale_correct:
  assumes "good t"
  shows "good (digit_scale t str) \<and> mpz_val (digit_scale t str) = mpz_val t * 10 ^ length (filter is_digit str)"
  using assms by (induction str arbitrary: t) (simp_all add: is_digit_def)

lemma parse_exponent_digits:
  "list_all is_digit str \<Longrightarrow> parse_exponent (word_of_int n) str = Inr (word_of_int (horner10 n str))"
proof (induction str arbitrary: n)
  case (Cons c str)
  have e: "10 * word_of_int n + word_of_nat (of_char c - 48) = (word_of_int (10 * n + int (of_char c - 48)) :: u64)"
    by (simp only: of_int_add of_int_mult of_int_numeral of_int_of_nat_eq)
  have "48 \<le> (of_char c :: nat) \<and> (of_char c :: nat) \<le> 57" "list_all is_digit str"
    using Cons.prems is_digit_def [of c] by simp_all
  then show ?case using Cons.IH [of "10 * n + int (of_char c - 48)"] by (simp only: parse_exponent.simps horner10.simps if_True simp_thms e)
qed simp

lemma digit_facts:
  assumes "is_digit c"
  shows "\<not> ends_number c" "\<not> is_exponent_char c" "c \<noteq> CHR 0x20" "c \<noteq> CHR 0x2D" "c \<noteq> CHR 0x2B"
  using assms by (auto simp: is_digit_def ends_number_def is_exponent_char_def)

lemma not_exponent: "\<not> is_exponent_char CHR ''/''" "\<not> is_exponent_char CHR ''.''"
  by (simp_all add: is_exponent_char_def)

lemma filter_digits: "list_all is_digit str \<Longrightarrow> filter is_digit str = str"
  by (simp add: list_all_iff)

lemma horner10_nonneg: "0 \<le> n \<Longrightarrow> 0 \<le> horner10 n str"
  by (induction str arbitrary: n) simp_all

text \<open>Cutting a text at the first character of a kind.\<close>

lemma cut:
  assumes "list_all (\<lambda>c. \<not> P c) w" "rest = [] \<or> P (hd rest)"
  shows "takeWhile (\<lambda>c. \<not> P c) (w @ rest) = w" "dropWhile (\<lambda>c. \<not> P c) (w @ rest) = rest"
proof -
  have "takeWhile (\<lambda>c. \<not> P c) rest = [] \<and> dropWhile (\<lambda>c. \<not> P c) rest = rest" using assms(2) by (cases rest) auto
  then show "takeWhile (\<lambda>c. \<not> P c) (w @ rest) = w" "dropWhile (\<lambda>c. \<not> P c) (w @ rest) = rest"
    using assms(1) by (simp_all add: takeWhile_append2 dropWhile_append2 list_all_iff)
qed

lemma finish_correct:
  assumes "good (m_num a)" "good (m_den a)" "0 < mpz_val (m_den a)"
  shows "qret (finish_parse m sign a) ((if sign then - 1 else 1) * mpq_val a)"
proof -
  have "a = \<lparr>m_num = m_num a, m_den = m_den a\<rparr>" by simp
  then show ?thesis
    using normalize_eq [of "m_num a" "m_den a" "mpq_val a" m] normalize_eq [of "mpz_neg (m_num a)" "m_den a" "- mpq_val a" m] assms
    by (cases a) (auto simp: finish_parse_def mpq_neg_def mpq_val_def)
qed

section \<open>Decimal and scientific notation\<close>

text \<open>
  The texts \<open>[-]w[.f][e[-]d]\<close>, with digits \<open>w\<close>, \<open>f\<close> and \<open>d\<close>, and their values.
\<close>

definition exponent_text :: "(bool \<times> string) option \<Rightarrow> string" where
  "exponent_text ex = (case ex of None \<Rightarrow> [] | Some (s, e) \<Rightarrow> CHR ''e'' # (if s then ''-'' else []) @ e)"

definition number_text :: "bool \<Rightarrow> string \<Rightarrow> string option \<Rightarrow> (bool \<times> string) option \<Rightarrow> string" where
  "number_text neg w f ex =
     (if neg then ''-'' else []) @ w @ (case f of None \<Rightarrow> [] | Some f \<Rightarrow> CHR ''.'' # f) @ exponent_text ex"

definition exponent_value :: "(bool \<times> string) option \<Rightarrow> rat" where
  "exponent_value ex =
     (case ex of None \<Rightarrow> 1 | Some (s, e) \<Rightarrow> (if s then inverse (10 ^ nat (horner10 0 e)) else 10 ^ nat (horner10 0 e)))"

definition number_value :: "bool \<Rightarrow> string \<Rightarrow> string option \<Rightarrow> (bool \<times> string) option \<Rightarrow> rat" where
  "number_value neg w f ex =
     (if neg then - 1 else 1) *
     ((of_int (horner10 0 w) + (case f of None \<Rightarrow> 0 | Some f \<Rightarrow> of_int (horner10 0 f) / 10 ^ length f)) * exponent_value ex)"

definition number_parts :: "string \<Rightarrow> string option \<Rightarrow> (bool \<times> string) option \<Rightarrow> bool" where
  "number_parts w f ex \<longleftrightarrow>
     list_all is_digit w \<and> (case f of None \<Rightarrow> True | Some f \<Rightarrow> list_all is_digit f) \<and>
     (case ex of None \<Rightarrow> True | Some (s, e) \<Rightarrow> list_all is_digit e \<and> horner10 0 e < 2147483648)"

lemma read_exponent_correct:
  assumes "case ex of None \<Rightarrow> True | Some (s, e) \<Rightarrow> list_all is_digit e"
  shows "read_exponent (exponent_text ex) =
    Inr (case ex of None \<Rightarrow> (False, 0) | Some (s, e) \<Rightarrow> (s, word_of_int (horner10 0 e)))"
proof (cases ex)
  case None
  then show ?thesis by (simp add: read_exponent_def exponent_text_def)
next
  case (Some p)
  obtain s e where p: "p = (s, e)" by fastforce
  have e: "list_all is_digit e" using assms Some p by simp
  have r: "parse_exponent 0 e = Inr (word_of_int (horner10 0 e))" using parse_exponent_digits [OF e, of 0] by simp
  show ?thesis
  proof (cases s)
    case True
    then show ?thesis using r by (simp add: Some p read_exponent_def exponent_text_def)
  next
    case False
    have n: "\<not> is_digit CHR 0x2D" "\<not> is_digit CHR 0x2B" by (simp_all add: is_digit_def)
    have "read_exponent (CHR ''e'' # e) = map_sum id (Pair False) (parse_exponent 0 e)"
    proof (cases e)
      case (Cons c t)
      then have "c \<noteq> CHR 0x2D" "c \<noteq> CHR 0x2B" using e n by auto
      then show ?thesis by (simp add: read_exponent_def Cons split: char.splits bool.splits)
    qed (simp add: read_exponent_def)
    then show ?thesis using r False by (simp add: Some p exponent_text_def)
  qed
qed

lemma scientific_correct:
  assumes a: "good (m_num a)" "fraction = None \<longrightarrow> wf_mpq a"
    and fr: "\<And>d s. fraction = Some (d, s) \<Longrightarrow> good d \<and> good s \<and> 0 < mpz_val s"
    and e: "unat e < 2147483648"
    and x: "x = (case fraction of None \<Rightarrow> mpq_val a | Some (d, s) \<Rightarrow> of_int (mpz_val (m_num a)) + of_int (mpz_val d) / of_int (mpz_val s))"
  shows "\<exists>c. scientific m a fraction (s, e) = Some (Inr c) \<and> wf_mpq c \<and>
    mpq_val c = x * (if s then inverse (10 ^ unat e) else 10 ^ unat e)"
proof -
  obtain b where b: "(case fraction of None \<Rightarrow> Some a
      | Some (den, scale) \<Rightarrow> mpq_set_zz m den scale \<bind> mpq_add m (reset_denominator a)) = Some b" "wf_mpq b" "mpq_val b = x"
  proof (cases fraction)
    case None
    then show ?thesis using that a(2) x by simp
  next
    case (Some p)
    obtain d t where p: "p = (d, t)" by fastforce
    note g = fr [of d t]
    obtain q where q: "mpq_set_zz m d t = Some q" "wf_mpq q" "mpq_val q = of_int (mpz_val d) / of_int (mpz_val t)"
      using set_zz_correct [of d t m] g Some p by (auto elim: qretE)
    have r: "wf_mpq (reset_denominator a)" "mpq_val (reset_denominator a) = of_int (mpz_val (m_num a))"
      using a by (simp_all add: reset_denominator_def wf_mpq_def mpq_val_def)
    obtain c where "mpq_add m (reset_denominator a) q = Some c" "wf_mpq c" "mpq_val c = x"
      using add_sub_mul_correct(1) [OF r(1) q(2), of m] Some p q r x by (auto elim!: qretE)
    then show ?thesis using that Some p q(1) by simp
  qed
  have le: "\<not> 4294967295 < e" using e by (simp add: word_less_nat_alt)
  have u: "unat (ucast e :: u32) = unat e" using e by (simp add: unsigned_ucast_eq take_bit_nat_eq_self)
  obtain pw where pw: "mpq_power m (of_mpz (set_int 10)) (ucast e) = Some pw" "wf_mpq pw" "mpq_val pw = 10 ^ unat e"
    using power_correct [of "of_mpz (set_int 10)" "ucast e" m] e u by (auto elim: qretE)
  obtain c where "(if 0 < e then if s then mpq_div m b pw else mpq_mul m b pw else Some b) = Some c" "wf_mpq c"
      "mpq_val c = x * (if s then inverse (10 ^ unat e) else 10 ^ unat e)"
  proof (cases "0 < e")
    case True
    then show ?thesis
      using that div_correct [OF b(2) pw(2), of m] add_sub_mul_correct(3) [OF b(2) pw(2), of m] pw(3) b(3)
      by (cases s) (auto simp: divide_inverse elim!: qretE)
  next
    case False
    then have "e = 0" by (simp add: word_gt_0)
    then show ?thesis using that b by simp
  qed
  then show ?thesis using b(1) pw(1) le by (auto simp: scientific_def split: if_splits)
qed

lemma unat_word_of_int_u64: "0 \<le> n \<Longrightarrow> n < 18446744073709551616 \<Longrightarrow> unat (word_of_int n :: u64) = nat n"
  by (simp add: unsigned_of_int take_bit_int_eq_self)

text \<open>What is left after the sign and the digits of the number decides how the text is read.\<close>

lemma parse_unfold:
  fixes neg :: bool
  assumes w: "list_all is_digit w" and rest: "rest = [] \<or> ends_number (hd rest)"
  defines "n \<equiv> parse_digits (set_int 0) ((if neg then ''-'' else []) @ w)"
  shows "good n" "mpz_val n = horner10 0 w"
    "mpq_of_string m old ((if neg then ''-'' else []) @ w @ rest) =
      (case rest of [] \<Rightarrow> map_option Inr (finish_parse m neg (of_mpz n))
       | c # after \<Rightarrow>
             (let body = takeWhile (\<lambda>c. \<not> is_exponent_char c) after;
                  tail = (if is_exponent_char c then rest else dropWhile (\<lambda>c. \<not> is_exponent_char c) after);
                  den = parse_digits (set_int 0) body
              in if c = CHR ''/'' then
                   (if tail \<noteq> [] then Some (Inl Mixed_notation)
                    else if mpz_is_zero den then Some (Inl Division_by_zero)
                    else map_option Inr (finish_parse m neg \<lparr>m_num = n, m_den = den\<rparr>))
                 else
                   (case read_exponent tail of
                      Inl err \<Rightarrow> Some (Inl err)
                    | Inr exponent \<Rightarrow>
                        do { r \<leftarrow> scientific m \<lparr>m_num = n, m_den = m_den old\<rparr>
                               (if c = CHR ''.'' then Some (den, digit_scale (set_int 1) body) else None) exponent;
                             case r of Inl err \<Rightarrow> Some (Inl err) | Inr a \<Rightarrow> map_option Inr (finish_parse m neg a) })))"
proof -
  let ?sg = "if neg then ''-'' else []"
  let ?val = "?sg @ w @ rest"
  have nb: "hd ?val \<noteq> CHR 0x20 \<and> (hd ?val = CHR ''-'') = neg" if "?val \<noteq> []"
  proof (cases neg)
    case False
    have "w \<noteq> [] \<Longrightarrow> is_digit (hd w)" using w by (cases w) auto
    moreover have "rest \<noteq> [] \<Longrightarrow> hd rest \<noteq> CHR 0x20 \<and> hd rest \<noteq> CHR ''-''" using rest by (auto simp: ends_number_def)
    ultimately show ?thesis using that digit_facts [of "hd w"] False by (cases w) auto
  qed simp
  have str: "dropWhile (\<lambda>c. c = CHR 0x20) ?val = ?val" using nb by (cases ?val) auto
  have sign: "(?val \<noteq> [] \<and> hd ?val = CHR ''-'') = neg" using nb by (cases "?val = []") auto
  have pre: "list_all (\<lambda>c. \<not> ends_number c) (?sg @ w)"
    using w digit_facts(1) by (auto simp: list_all_iff ends_number_def)
  have cuts: "takeWhile (\<lambda>c. \<not> ends_number c) ?val = ?sg @ w" "dropWhile (\<lambda>c. \<not> ends_number c) ?val = rest"
    using cut [OF pre rest] by simp_all
  show "good n" "mpz_val n = horner10 0 w"
    unfolding n_def using good_parse_digits [of "set_int 0" "?sg @ w"] filter_digits [OF w] not_digit(1) by auto
  show "mpq_of_string m old ?val =
      (case rest of [] \<Rightarrow> map_option Inr (finish_parse m neg (of_mpz n))
       | c # after \<Rightarrow>
             (let body = takeWhile (\<lambda>c. \<not> is_exponent_char c) after;
                  tail = (if is_exponent_char c then rest else dropWhile (\<lambda>c. \<not> is_exponent_char c) after);
                  den = parse_digits (set_int 0) body
              in if c = CHR ''/'' then
                   (if tail \<noteq> [] then Some (Inl Mixed_notation)
                    else if mpz_is_zero den then Some (Inl Division_by_zero)
                    else map_option Inr (finish_parse m neg \<lparr>m_num = n, m_den = den\<rparr>))
                 else
                   (case read_exponent tail of
                      Inl err \<Rightarrow> Some (Inl err)
                    | Inr exponent \<Rightarrow>
                        do { r \<leftarrow> scientific m \<lparr>m_num = n, m_den = m_den old\<rparr>
                               (if c = CHR ''.'' then Some (den, digit_scale (set_int 1) body) else None) exponent;
                             case r of Inl err \<Rightarrow> Some (Inl err) | Inr a \<Rightarrow> map_option Inr (finish_parse m neg a) })))"
    unfolding mpq_of_string_def str Let_def sign cuts n_def by simp
qed

text \<open>
  Without a point but with an exponent, the number keeps the denominator it had before; apart from that case
  the old value does not matter.
\<close>

lemma parse_number_correct:
  assumes parts: "number_parts w f ex" and den: "f = None \<and> ex \<noteq> None \<longrightarrow> m_den old = set_int 1"
  shows "\<exists>c. mpq_of_string m old (number_text neg w f ex) = Some (Inr c) \<and> wf_mpq c \<and> mpq_val c = number_value neg w f ex"
proof -
  let ?val = "number_text neg w f ex"
  let ?rest = "(case f of None \<Rightarrow> [] | Some f \<Rightarrow> CHR ''.'' # f) @ exponent_text ex"
  have w: "list_all is_digit w" using parts by (simp add: number_parts_def)
  have rest: "?rest = [] \<or> ends_number (hd ?rest)"
    by (cases f; cases ex) (auto simp: exponent_text_def ends_number_def)
  define n where "n = parse_digits (set_int 0) ((if neg then ''-'' else []) @ w)"
  note num' = parse_unfold(1,2) [OF w rest, of neg, folded n_def]
    and body = parse_unfold(3) [OF w rest, of m old neg, folded n_def number_text_def]
  define E where "E = (case ex of None \<Rightarrow> (False, 0 :: u64) | Some (s, e) \<Rightarrow> (s, word_of_int (horner10 0 e)))"
  have rd: "read_exponent (exponent_text ex) = Inr E"
    unfolding E_def using parts by (intro read_exponent_correct) (auto simp: number_parts_def split: option.splits)
  obtain s u where su: "E = (s, u)" by fastforce
  have u: "unat u < 2147483648" "(if s then inverse (10 ^ unat u) else 10 ^ unat u) = exponent_value ex"
    using su parts horner10_nonneg
    by (auto simp: E_def exponent_value_def number_parts_def unat_word_of_int_u64 split: option.splits prod.splits)
  have fin: "\<exists>c. map_option Inr (finish_parse m neg a) = Some (Inr c :: parse_error + mpq) \<and> wf_mpq c \<and> mpq_val c = number_value neg w f ex"
    if "wf_mpq a" "(if neg then - 1 else 1) * mpq_val a = number_value neg w f ex" for a
    using finish_correct [of a m neg] that by (auto simp: wf_mpqD elim!: qretE)
  show ?thesis
  proof (cases f)
    case None
    show ?thesis
    proof (cases ex)
      case ex: None
      have "mpq_of_string m old ?val = map_option Inr (finish_parse m neg (of_mpz n))"
        unfolding body by (simp add: None ex exponent_text_def)
      then show ?thesis using fin [of "of_mpz n"] num' None ex by (simp add: number_value_def exponent_value_def)
    next
      case ex: (Some p)
      let ?a = "\<lparr>m_num = n, m_den = m_den old\<rparr>"
      have a: "wf_mpq ?a" "mpq_val ?a = of_int (horner10 0 w)" using den None ex num' by (simp_all add: wf_mpq_def mpq_val_def)
      obtain c where c: "scientific m ?a None (s, u) = Some (Inr c)" "wf_mpq c"
          "mpq_val c = mpq_val ?a * (if s then inverse (10 ^ unat u) else 10 ^ unat u)"
        using scientific_correct [of ?a None u "mpq_val ?a" m s] a(1) num' u(1) by auto
      obtain t where t: "exponent_text ex = CHR ''e'' # t" using ex by (cases p) (simp add: exponent_text_def)
      have "mpq_of_string m old ?val = map_option Inr (finish_parse m neg c)"
        unfolding body using rd c(1) su t by (simp add: None is_exponent_char_def)
      then show ?thesis using fin [of c] c a(2) u(2) None by (simp add: number_value_def)
    qed
  next
    case (Some fr)
    have fd: "list_all is_digit fr" using parts Some by (simp add: number_parts_def)
    have ne: "list_all (\<lambda>c. \<not> is_exponent_char c) fr" using fd digit_facts(2) by (auto simp: list_all_iff)
    have tl: "exponent_text ex = [] \<or> is_exponent_char (hd (exponent_text ex))"
      by (cases ex) (auto simp: exponent_text_def is_exponent_char_def)
    note fcut = cut [OF ne tl]
    let ?a = "\<lparr>m_num = n, m_den = m_den old\<rparr>"
    let ?fr = "(parse_digits (set_int 0) fr, digit_scale (set_int 1) fr)"
    have d: "good (parse_digits (set_int 0) fr)" "mpz_val (parse_digits (set_int 0) fr) = horner10 0 fr"
        "good (digit_scale (set_int 1) fr)" "mpz_val (digit_scale (set_int 1) fr) = 10 ^ length fr"
      using good_parse_digits [of "set_int 0" fr] digit_scale_correct [of "set_int 1" fr] filter_digits [OF fd] by auto
    obtain c where c: "scientific m ?a (Some ?fr) (s, u) = Some (Inr c)" "wf_mpq c"
        "mpq_val c = (of_int (horner10 0 w) + of_int (horner10 0 fr) / 10 ^ length fr) * (if s then inverse (10 ^ unat u) else 10 ^ unat u)"
      using scientific_correct [of ?a "Some ?fr" u _ m s] num' u(1) d by auto
    have "mpq_of_string m old ?val = map_option Inr (finish_parse m neg c)"
      unfolding body using rd c(1) su fcut by (simp add: Some is_exponent_char_def Let_def)
    then show ?thesis using fin [of c] c u(2) Some by (simp add: number_value_def)
  qed
qed

section \<open>Fractions\<close>

definition sign_text :: "bool \<Rightarrow> string" where
  "sign_text neg = (if neg then ''-'' else [])"

lemma parse_fraction_correct:
  assumes "list_all is_digit w" "list_all is_digit d" and ext: "ext = [] \<or> is_exponent_char (hd ext)"
  shows "if ext \<noteq> [] then mpq_of_string m old (sign_text neg @ w @ ''/'' @ d @ ext) = Some (Inl Mixed_notation)
    else if horner10 0 d = 0 then mpq_of_string m old (sign_text neg @ w @ ''/'' @ d @ ext) = Some (Inl Division_by_zero)
    else \<exists>c. mpq_of_string m old (sign_text neg @ w @ ''/'' @ d @ ext) = Some (Inr c) \<and> wf_mpq c \<and>
      mpq_val c = (if neg then - 1 else 1) * (of_int (horner10 0 w) / of_int (horner10 0 d))"
proof -
  define rest where "rest = CHR ''/'' # d @ ext"
  have r: "rest = [] \<or> ends_number (hd rest)" by (simp add: rest_def ends_number_def)
  have "list_all (\<lambda>c. \<not> is_exponent_char c) d" using assms(2) digit_facts(2) by (auto simp: list_all_iff)
  note dc = cut [OF this ext]
  define n dn where "n = parse_digits (set_int 0) ((if neg then ''-'' else []) @ w)" and "dn = parse_digits (set_int 0) d"
  note n = parse_unfold(1,2) [OF assms(1) r, of neg, folded n_def]
  have d: "good dn" "mpz_val dn = horner10 0 d"
    unfolding dn_def using good_parse_digits [of "set_int 0" d] filter_digits [OF assms(2)] by auto
  have v: "mpq_of_string m old (sign_text neg @ w @ ''/'' @ d @ ext) =
      (if ext \<noteq> [] then Some (Inl Mixed_notation)
       else if mpz_is_zero dn then Some (Inl Division_by_zero)
       else map_option Inr (finish_parse m neg \<lparr>m_num = n, m_den = dn\<rparr>))"
    using parse_unfold(3) [OF assms(1) r, of m old neg, folded n_def sign_text_def]
    by (simp only: rest_def list.case append.simps not_exponent if_False if_True simp_thms dc dn_def Let_def)
  show ?thesis
    using finish_correct [of "\<lparr>m_num = n, m_den = dn\<rparr>" m neg] n d horner10_nonneg [of 0 d]
    unfolding v by (auto simp: mpq_val_def elim!: qretE)
qed

section \<open>Printing\<close>

lemma to_string_correct:
  assumes "wf_mpq a"
  shows "mpq_to_string a =
    Some (decimal_int (mpz_val (m_num a)) @ (if mpz_val (m_den a) = 1 then [] else ''/'' @ decimal_int (mpz_val (m_den a))))"
proof -
  note w = wf_mpqD [OF assms]
  show ?thesis
    using w mpz_to_string_correct [of "m_num a"] mpz_to_string_correct [of "m_den a"]
    by (simp add: mpq_to_string_def mpq_is_int_def good_def mpz_sign_correct)
qed

lemma decimal_int_sign: "decimal_int x = sign_text (x < 0) @ decimal (nat \<bar>x\<bar>)"
  by (simp add: decimal_int_def sign_text_def)

lemma decimal_digits: "list_all is_digit (decimal n)" "horner10 0 (decimal n) = int n"
  using decimal_correct [of n] by (simp_all add: list_all_iff)

lemma parse_print_mpq:
  assumes "wf_mpq a"
  shows "\<exists>str c. mpq_to_string a = Some str \<and> mpq_of_string m old str = Some (Inr c) \<and> wf_mpq c \<and> mpq_val c = mpq_val a"
proof -
  note w = wf_mpqD [OF assms]
  define x y where "x = mpz_val (m_num a)" and "y = mpz_val (m_den a)"
  have xs: "(if x < 0 then - 1 else 1) * rat_of_int \<bar>x\<bar> = of_int x" by simp
  show ?thesis
  proof (cases "y = 1")
    case True
    have "\<exists>c. mpq_of_string m old (number_text (x < 0) (decimal (nat \<bar>x\<bar>)) None None) = Some (Inr c) \<and> wf_mpq c \<and>
        mpq_val c = number_value (x < 0) (decimal (nat \<bar>x\<bar>)) None None"
      by (intro parse_number_correct) (simp_all add: number_parts_def decimal_digits)
    then show ?thesis
      using to_string_correct [OF assms] True xs
      by (simp add: number_text_def number_value_def exponent_text_def exponent_value_def decimal_digits
          decimal_int_sign sign_text_def mpq_val_def flip: x_def y_def)
  next
    case False
    have yp: "0 < y" using w by (simp add: y_def)
    then have y: "decimal_int y = decimal (nat y)" "horner10 0 (decimal (nat y)) = y"
      by (simp_all add: decimal_int_def decimal_digits)
    obtain c where c: "mpq_of_string m old (sign_text (x < 0) @ decimal (nat \<bar>x\<bar>) @ ''/'' @ decimal (nat y)) = Some (Inr c)"
        "wf_mpq c" "mpq_val c = (if x < 0 then - 1 else 1) * (of_int \<bar>x\<bar> / of_int y)"
      using parse_fraction_correct [of "decimal (nat \<bar>x\<bar>)" "decimal (nat y)" "[]" m old "x < 0"] yp y(2)
      by (auto simp: decimal_digits)
    then show ?thesis
      using to_string_correct [OF assms] False y(1) by (auto simp: mpq_val_def decimal_int_sign x_def [symmetric] y_def [symmetric])
  qed
qed

section \<open>Exponents out of range\<close>

lemma parse_exponent_range:
  assumes "list_all is_digit w" "list_all is_digit f" "list_all is_digit e"
  defines "E \<equiv> horner10 0 e mod 18446744073709551616"
  shows "4294967295 < E \<Longrightarrow>
      mpq_of_string m old (number_text neg w (Some f) (Some (s, e))) = Some (Inl Exponent_too_big)"
    "2147483648 \<le> E \<Longrightarrow> E \<le> 4294967295 \<Longrightarrow>
      mpq_of_string m old (number_text neg w (Some f) (Some (s, e))) = None"
proof -
  let ?ex = "Some (s, e)"
  define rest where "rest = CHR ''.'' # f @ exponent_text ?ex"
  have r: "rest = [] \<or> ends_number (hd rest)" by (simp add: rest_def ends_number_def)
  have "list_all (\<lambda>c. \<not> is_exponent_char c) f" using assms(2) digit_facts(2) by (auto simp: list_all_iff)
  moreover have "exponent_text ?ex = [] \<or> is_exponent_char (hd (exponent_text ?ex))"
    by (simp add: exponent_text_def is_exponent_char_def)
  ultimately have fc: "takeWhile (\<lambda>c. \<not> is_exponent_char c) (f @ exponent_text ?ex) = f"
      "dropWhile (\<lambda>c. \<not> is_exponent_char c) (f @ exponent_text ?ex) = exponent_text ?ex"
    by (rule cut)+
  have t: "number_text neg w (Some f) ?ex = (if neg then ''-'' else []) @ w @ rest" by (simp add: number_text_def rest_def)
  define n where "n = parse_digits (set_int 0) ((if neg then ''-'' else []) @ w)"
  let ?u = "word_of_int (horner10 0 e) :: u64"
  let ?a = "\<lparr>m_num = n, m_den = m_den old\<rparr>" and ?f = "Some (parse_digits (set_int 0) f, digit_scale (set_int 1) f)"
  have v: "mpq_of_string m old (number_text neg w (Some f) ?ex) =
      scientific m ?a ?f (s, ?u) \<bind>
        (\<lambda>r. case r of Inl err \<Rightarrow> Some (Inl err) | Inr a \<Rightarrow> map_option Inr (finish_parse m neg a))"
    unfolding t using parse_unfold(3) [OF assms(1) r, of m old neg, folded n_def] read_exponent_correct [of ?ex] assms(3)
    by (simp add: rest_def not_exponent Let_def fc)
  have u: "unat ?u = nat E" by (simp add: E_def unsigned_of_int take_bit_eq_mod)
  show "mpq_of_string m old (number_text neg w (Some f) ?ex) = Some (Inl Exponent_too_big)" if "4294967295 < E"
  proof -
    have "4294967295 < ?u" using that u by (simp add: word_less_nat_alt)
    then show ?thesis unfolding v by (simp add: scientific_def)
  qed
  show "mpq_of_string m old (number_text neg w (Some f) ?ex) = None" if "2147483648 \<le> E" "E \<le> 4294967295"
  proof -
    have nu: "unat ?u < 4294967296" "2147483648 \<le> unat ?u" using that u by simp_all
    have "\<not> 4294967295 < ?u" "0 < ?u" using nu by (simp_all add: word_less_nat_alt)
    moreover have "unat (ucast ?u :: u32) = unat ?u" using nu(1) by (simp add: unsigned_ucast_eq take_bit_nat_eq_self)
    ultimately have "scientific m ?a ?f (s, ?u) = None"
      using power_diverges [of "ucast ?u" m "of_mpz (set_int 10)"] nu(2) by (simp add: scientific_def bind_eq_None_conv)
    then show ?thesis unfolding v by simp
  qed
qed

end
