(* ===== verification/MpqDecimal.thy ===== *)
theory MpqDecimal
  imports MpqText
begin

text \<open>
  \<open>display_decimal\<close> prints the decimal expansion cut at a number of digits, and says when it has cut; the
  text that it prints without a cut is read back as the same number. SMT-LIB text and the roots of rationals.
\<close>

section \<open>Decimal expansions\<close>

lemma horner10_shift: "horner10 n str = n * 10 ^ length str + horner10 0 str"
proof (induction str arbitrary: n)
  case (Cons c str)
  show ?case using Cons [of "10 * n + int (of_char c - 48)"] Cons [of "int (of_char c - 48)"] by (simp add: algebra_simps)
qed simp

lemma div_rem_nonneg:
  assumes "good a" "good b" "0 \<le> mpz_val a" "0 < mpz_val b"
  shows "zret (mpz_div m a b) (mpz_val a div mpz_val b)" "zret (mpz_rem m a b) (mpz_val a mod mpz_val b)"
proof -
  have s: "mpz_val a sdiv mpz_val b = mpz_val a div mpz_val b" "mpz_val a smod mpz_val b = mpz_val a mod mpz_val b"
    using assms sdiv_nonneg [of "mpz_val a" "mpz_val b"] by (simp_all add: signed_modulo_int_def sgn_if)
  show "zret (mpz_div m a b) (mpz_val a div mpz_val b)"
    using machine_div_zret [of a b m] assms s by (auto simp: mpz_div_def zret_def)
  obtain r where r: "mpz_rem m a b = Some r" "wf_mpz r" "mpz_val r = mpz_val a mod mpz_val b"
    using mpz_rem_correct [of a b m] assms s by (auto simp: good_def)
  then show "zret (mpz_rem m a b) (mpz_val a mod mpz_val b)"
    using canonical_rem [of a b m r] assms(1,2) by (simp add: zret_def good_def)
qed

text \<open>The digits of the loop: those of the quotient by the denominator, and the remainder that is left.\<close>

lemma decimal_digit: "0 \<le> v \<Longrightarrow> v < 10 \<Longrightarrow> decimal_int v = [digit_char (nat v)]"
  by (simp add: decimal_int_def decimal.simps)

lemma digits_loop_correct:
  assumes "good d" "good n" "0 < mpz_val n" "mpz_val n < mpz_val d"
  shows "\<exists>ds r. decimal_digits_loop m d trunc i n out = Some (out @ ds @ (if r \<noteq> 0 \<and> \<not> trunc then ''?'' else [])) \<and>
    list_all is_digit ds \<and> length ds \<le> i \<and> (r \<noteq> 0 \<longrightarrow> length ds = i) \<and>
    mpz_val n * 10 ^ length ds = horner10 0 ds * mpz_val d + r \<and> 0 \<le> r \<and> r < mpz_val d"
  using assms(2-)
proof (induction i arbitrary: n out)
  case 0
  then show ?case by (intro exI [of _ "[]"] exI [of _ "mpz_val n"]) simp
next
  case (Suc i)
  let ?n = "mpz_mul n (set_int 10)"
  have n: "good ?n" "0 \<le> mpz_val ?n" "mpz_val ?n = mpz_val n * 10" using Suc.prems by simp_all
  have dp: "0 < mpz_val d" using Suc.prems by simp
  obtain v where v: "mpz_div m ?n d = Some v" "good v" "mpz_val v = mpz_val n * 10 div mpz_val d"
    using div_rem_nonneg(1) [OF n(1) assms(1) n(2) dp] n(3) by (auto elim: zretE)
  obtain r where r: "mpz_rem m ?n d = Some r" "good r" "mpz_val r = mpz_val n * 10 mod mpz_val d"
    using div_rem_nonneg(2) [OF n(1) assms(1) n(2) dp] n(3) by (auto elim: zretE)
  have rb: "0 \<le> mpz_val r" "mpz_val r < mpz_val d" using dp by (simp_all add: r(3))
  have e: "mpz_val n * 10 = mpz_val v * mpz_val d + mpz_val r" by (simp add: v(3) r(3))
  have "mpz_val v * mpz_val d < 10 * mpz_val d" using e rb Suc.prems(3) by linarith
  then have vb: "mpz_val v < 10" "0 \<le> mpz_val v"
    using mult_right_less_imp_less [of "mpz_val v" "mpz_val d" 10] Suc.prems dp
    by (simp_all only: less_imp_le) (simp add: v(3) pos_imp_zdiv_nonneg_iff)
  define c where "c = digit_char (nat (mpz_val v))"
  have c: "is_digit c" "int (of_char c - 48) = mpz_val v" "mpz_to_string v = Some [c]"
    using vb v(2) mpz_to_string_correct [of v] decimal_digit [OF vb(2,1)] by (simp_all add: c_def good_def)
  show ?case
  proof (cases "mpz_val r = 0")
    case True
    then show ?thesis using v(1,2) r(1,2) c e dp by (intro exI [of _ "[c]"] exI [of _ 0]) (simp add: Let_def)
  next
    case False
    obtain ds k where ds: "decimal_digits_loop m d trunc i r (out @ [c]) = Some ((out @ [c]) @ ds @ (if k \<noteq> 0 \<and> \<not> trunc then ''?'' else []))"
        "list_all is_digit ds" "length ds \<le> i" "k \<noteq> 0 \<longrightarrow> length ds = i"
        "mpz_val r * 10 ^ length ds = horner10 0 ds * mpz_val d + k" "0 \<le> k" "k < mpz_val d"
      using Suc.IH [OF r(2), of "out @ [c]"] False rb by auto
    have "mpz_val n * 10 ^ length (c # ds) = (mpz_val v * mpz_val d + mpz_val r) * 10 ^ length ds" unfolding e [symmetric] by simp
    also have "\<dots> = horner10 0 (c # ds) * mpz_val d + k"
      using ds(5) horner10_shift [of "mpz_val v" ds] c(2) by (simp add: algebra_simps)
    finally show ?thesis
      using ds v(1,2) r(1,2) c False by (intro exI [of _ "c # ds"] exI [of _ k]) (simp add: Let_def)
  qed
qed

text \<open>The number that the printed text denotes.\<close>

lemma display_decimal_correct:
  assumes "wf_mpq a"
  defines "x \<equiv> \<bar>mpq_val a\<bar>"
  defines "w \<equiv> decimal (nat \<lfloor>x\<rfloor>)"
  shows "if x \<in> \<int> then mpq_display_decimal m a prec trunc = Some (number_text (mpq_val a < 0) w None None)
    else \<exists>ds. mpq_display_decimal m a prec trunc =
          Some (number_text (mpq_val a < 0) w (Some ds) None @
            (if \<bar>number_value (mpq_val a < 0) w (Some ds) None\<bar> \<noteq> x \<and> \<not> trunc then ''?'' else [])) \<and>
        list_all is_digit ds \<and> length ds \<le> unat prec \<and>
        (\<bar>number_value (mpq_val a < 0) w (Some ds) None\<bar> \<noteq> x \<longrightarrow> length ds = unat prec) \<and>
        \<bar>number_value (mpq_val a < 0) w (Some ds) None\<bar> \<le> x \<and>
        x < \<bar>number_value (mpq_val a < 0) w (Some ds) None\<bar> + 1 / 10 ^ length ds"
proof -
  note p = wf_mpqD [OF assms(1)]
  define n where "n = (if mpq_is_neg a then mpz_neg (m_num a) else m_num a)"
  define N D where "N = mpz_val n" and "D = mpz_val (m_den a)"
  have neg: "mpq_is_neg a \<longleftrightarrow> mpq_val a < 0" using assms(1) by (simp add: is_one_val)
  have n: "good n" "0 \<le> N" "N = \<bar>mpz_val (m_num a)\<bar>" using p(1) by (auto simp: n_def N_def mpq_is_neg_def)
  have dp: "0 < D" using p(3) by (simp add: D_def)
  have x: "x = of_int N / of_int D" using dp by (simp add: x_def mpq_val_def n(3) D_def [symmetric] abs_divide)
  have fl: "\<lfloor>x\<rfloor> = N div D" using dp by (simp add: x floor_divide_of_int_eq)
  have int: "x \<in> \<int> \<longleftrightarrow> N mod D = 0"
  proof
    assume "x \<in> \<int>"
    then obtain k where "x = of_int k" by (rule Ints_cases)
    then have "of_int N = (of_int (k * D) :: rat)" using dp by (simp add: x field_simps)
    then show "N mod D = 0" by (simp only: of_int_eq_iff) simp
  next
    assume "N mod D = 0"
    then have "N = N div D * D" by (metis add.right_neutral div_mult_mod_eq)
    then have "x = of_int (N div D)" using dp by (simp add: x) (metis nonzero_mult_div_cancel_right of_int_0_eq_iff of_int_mult less_irrefl)
    then show "x \<in> \<int>" by simp
  qed
  obtain v where v: "mpz_div m n (m_den a) = Some v" "good v" "mpz_val v = N div D"
    unfolding N_def D_def using div_rem_nonneg(1) [OF n(1) p(2) n(2) [unfolded N_def] p(3)] by (rule zretE)
  obtain r where r: "mpz_rem m n (m_den a) = Some r" "good r" "mpz_val r = N mod D"
    unfolding N_def D_def using div_rem_nonneg(2) [OF n(1) p(2) n(2) [unfolded N_def] p(3)] by (rule zretE)
  have vp: "0 \<le> N div D" using n(2) dp by (simp add: pos_imp_zdiv_nonneg_iff)
  then have w: "mpz_to_string v = Some w" "horner10 0 w = N div D"
    using mpz_to_string_correct [of v] v(2,3) by (simp_all add: good_def w_def fl decimal_int_def decimal_digits)
  define sg where "sg = (if mpq_val a < 0 then ''-'' else [])"
  have u: "mpq_display_decimal m a prec trunc =
      (if N mod D = 0 then Some (sg @ w) else decimal_digits_loop m (m_den a) trunc (unat prec) r (sg @ w @ ''.''))"
    unfolding mpq_display_decimal_def n_def [symmetric] unfolding neg sg_def [symmetric] Let_def using v(1) r w(1) by simp
  show ?thesis
  proof (cases "N mod D = 0")
    case True
    then show ?thesis unfolding u int by (simp add: number_text_def exponent_text_def sg_def)
  next
    case False
    then have rp: "0 < mpz_val r" "mpz_val r < mpz_val (m_den a)"
      using pos_mod_bound [OF dp, of N] pos_mod_sign [OF dp, of N] unfolding r(3) D_def [symmetric] by linarith+
    obtain ds k where ds: "decimal_digits_loop m (m_den a) trunc (unat prec) r (sg @ w @ ''.'') =
          Some ((sg @ w @ ''.'') @ ds @ (if k \<noteq> 0 \<and> \<not> trunc then ''?'' else []))"
        "list_all is_digit ds" "length ds \<le> unat prec" "k \<noteq> 0 \<longrightarrow> length ds = unat prec"
        "(N mod D) * 10 ^ length ds = horner10 0 ds * D + k" "0 \<le> k" "k < D"
      using digits_loop_correct [OF p(2) r(2) rp, of m trunc "unat prec" "sg @ w @ ''.''"] r(3) D_def by auto
    define y where "y = \<bar>number_value (mpq_val a < 0) w (Some ds) None\<bar>"
    have y: "y = of_int (N div D) + of_int (horner10 0 ds) / 10 ^ length ds"
      using vp horner10_nonneg [of 0 ds] by (simp add: y_def number_value_def exponent_value_def w(2) abs_mult)
    have "x = of_int (N div D) + of_int (N mod D) / of_int D"
    proof -
      have "of_int N = (of_int (N div D) * of_int D + of_int (N mod D) :: rat)"
        unfolding of_int_mult [symmetric] of_int_add [symmetric] by simp
      then show ?thesis unfolding x using dp by (simp add: add_divide_distrib)
    qed
    also have "of_int (N mod D) / of_int D = (of_int (horner10 0 ds) / 10 ^ length ds + of_int k / (of_int D * 10 ^ length ds) :: rat)"
    proof -
      have "of_int (N mod D) * 10 ^ length ds = (of_int (horner10 0 ds) * of_int D + of_int k :: rat)"
        using arg_cong [OF ds(5), of "of_int :: int \<Rightarrow> rat"] by simp
      then show ?thesis using dp by (simp add: field_simps)
    qed
    finally have xy: "x = y + of_int k / (of_int D * 10 ^ length ds)" by (simp add: y)
    have k: "y \<noteq> x \<longleftrightarrow> k \<noteq> 0" "y \<le> x" using ds(6) dp by (simp_all add: xy)
    have "x < y + 1 / 10 ^ length ds" unfolding xy using ds(7) dp by (simp add: field_simps)
    moreover have "mpq_display_decimal m a prec trunc =
        Some (number_text (mpq_val a < 0) w (Some ds) None @ (if y \<noteq> x \<and> \<not> trunc then ''?'' else []))"
      unfolding u k(1) using False ds(1) by (simp add: number_text_def exponent_text_def sg_def)
    ultimately have res: "mpq_display_decimal m a prec trunc =
          Some (number_text (mpq_val a < 0) w (Some ds) None @ (if y \<noteq> x \<and> \<not> trunc then ''?'' else [])) \<and>
        list_all is_digit ds \<and> length ds \<le> unat prec \<and> (y \<noteq> x \<longrightarrow> length ds = unat prec) \<and> y \<le> x \<and> x < y + 1 / 10 ^ length ds"
      using ds(2-4) k by blast
    have "x \<notin> \<int>" using False int by blast
    then show ?thesis using res [unfolded y_def] by (simp only: if_False) blast
  qed
qed

end
