(* ===== verification/MpqRoots.thy ===== *)
theory MpqRoots
  imports MpqProof
begin

text \<open>
  Square roots of rationals: \<open>is_perfect_square\<close> answers whether there is a rational root, and gives it.
  A sum written into its own second operand.
\<close>

section \<open>Square roots\<close>

lemma lowest_terms_unique:
  fixes n d n' d' :: int
  assumes "0 < d" "coprime n d" "0 < d'" "coprime n' d'" "of_int n / of_int d = (of_int n' / of_int d' :: rat)"
  shows "n = n'" "d = d'"
proof -
  have "Fract n d = Fract n' d'" using assms(5) by (simp add: Fract_of_int_quotient)
  then have "(n, d) = (n', d')"
    using assms(1-4) by (metis Rat.normalize_stable quotient_of_Fract)
  then show "n = n'" "d = d'" by simp_all
qed

lemma rational_power:
  assumes "wf_mpq a"
  shows "(\<exists>x. mpq_val a = x ^ k) \<longleftrightarrow> (\<exists>p q. mpz_val (m_num a) = p ^ k \<and> mpz_val (m_den a) = q ^ k \<and> 0 < q)"
proof
  note w = wf_mpqD [OF assms]
  assume "\<exists>x. mpq_val a = x ^ k"
  then obtain x where x: "mpq_val a = x ^ k" by blast
  obtain p q where pq: "quotient_of x = (p, q)" by fastforce
  have q: "0 < q" "coprime p q" using quotient_of_denom_pos [OF pq] quotient_of_coprime [OF pq] by simp_all
  have "of_int (mpz_val (m_num a)) / of_int (mpz_val (m_den a)) = (of_int (p ^ k) / of_int (q ^ k) :: rat)"
    using x quotient_of_div [OF pq] by (simp add: mpq_val_def power_divide)
  then have "mpz_val (m_num a) = p ^ k" "mpz_val (m_den a) = q ^ k"
    using lowest_terms_unique [OF w(3,5), of "q ^ k" "p ^ k"] q by simp_all
  then show "\<exists>p q. mpz_val (m_num a) = p ^ k \<and> mpz_val (m_den a) = q ^ k \<and> 0 < q" using q by blast
next
  assume "\<exists>p q. mpz_val (m_num a) = p ^ k \<and> mpz_val (m_den a) = q ^ k \<and> 0 < q"
  then show "\<exists>x. mpq_val a = x ^ k" by (auto simp: mpq_val_def simp flip: power_divide)
qed

lemma good_mpz_div:
  assumes "good a" "good b" "mpz_val b \<noteq> 0" "mpz_div m a b = Some q"
  shows "good q"
proof -
  obtain q' r where qr: "machine_div_rem m a b = Some (q', r)" "wf_mpz q'" "wf_mpz r"
    using machine_div_rem_correct [of a b m] assms by (auto simp: good_def)
  have "good q'" using qr canonical_machine_div [OF _ _ _ qr(1)] assms by (auto simp: good_def)
  then show ?thesis using assms qr(1) by (auto simp: mpz_div_def machine_div_eq split: if_splits)
qed

lemma good_square_loop:
  assumes "square_loop m a lo hi sq_lo sq_hi = Some (r, exact)" "good lo" "good hi"
  shows "good r"
proof -
  have "good lo \<longrightarrow> good hi \<longrightarrow> good (fst p)" if "square_loop n a lo hi sq_lo sq_hi = Some p" for n a lo hi sq_lo sq_hi p
  proof (rule square_loop.raw_induct [OF _ that])
    fix loop :: "mpn_manager \<Rightarrow> mpz \<Rightarrow> mpz \<Rightarrow> mpz \<Rightarrow> mpz \<Rightarrow> mpz \<Rightarrow> (mpz \<times> bool) option" and n a lo hi sq_lo sq_hi p
    assume IH: "\<And>n a lo hi sq_lo sq_hi p. loop n a lo hi sq_lo sq_hi = Some p \<Longrightarrow> good lo \<longrightarrow> good hi \<longrightarrow> good (fst p)"
      and body: "(if mpz_eq sq_lo a then Some (lo, True)
        else if mpz_eq (mpz_add lo (set_int 1)) hi then Some (hi, False)
        else mpz_div n (mpz_add hi lo) (set_int 2) \<bind>
          (\<lambda>mid. let sq_mid = mpz_mul mid mid
            in if mpz_lt a sq_mid then loop n a lo mid sq_lo sq_mid else loop n a mid hi sq_mid sq_hi)) = Some p"
    show "good lo \<longrightarrow> good hi \<longrightarrow> good (fst p)"
    proof (intro impI)
      assume g: "good lo" "good hi"
      show "good (fst p)"
      proof (cases "mpz_eq sq_lo a \<or> mpz_eq (mpz_add lo (set_int 1)) hi")
        case True
        then show ?thesis using body g by (auto split: if_splits)
      next
        case False
        then obtain mid where mid: "mpz_div n (mpz_add hi lo) (set_int 2) = Some mid"
            "loop n a lo mid sq_lo (mpz_mul mid mid) = Some p \<or> loop n a mid hi (mpz_mul mid mid) sq_hi = Some p"
          using body by (auto simp: bind_eq_Some_conv Let_def split: if_splits)
        have "good mid" using good_mpz_div [OF _ _ _ mid(1)] g by simp
        then show ?thesis using mid(2) IH g by blast
      qed
    qed
  qed
  from this [OF assms(1)] show ?thesis using assms(2,3) by simp
qed

lemma square_root_correct:
  assumes "good a"
  obtains r exact where "is_perfect_square m a rt = Some (r, exact)" "exact \<longleftrightarrow> (\<exists>x. mpz_val a = x ^ 2)"
    "exact \<Longrightarrow> good r \<and> 0 \<le> mpz_val r \<and> mpz_val r ^ 2 = mpz_val a"
proof -
  obtain r exact where r: "is_perfect_square m a rt = Some (r, exact)" "exact \<longleftrightarrow> (\<exists>x. mpz_val a = x ^ 2)"
      "exact \<longrightarrow> 0 \<le> mpz_val r \<and> mpz_val r ^ 2 = mpz_val a"
    using is_perfect_square_correct [of a m rt] assms by (auto simp: good_def)
  have "exact \<Longrightarrow> good r"
    using r(1) assms good_square_loop [of m a "set_int 1" a "set_int 1" "mpz_mul a a" r exact]
    by (auto simp: is_perfect_square_def split: if_splits)
  then show ?thesis using that r by blast
qed

lemma perfect_square_correct:
  assumes "wf_mpq a"
  shows "\<exists>r exact. mpq_is_perfect_square m a rt = Some (r, exact) \<and> (exact \<longleftrightarrow> (\<exists>x. mpq_val a = x ^ 2)) \<and>
    (exact \<longrightarrow> wf_mpq r \<and> 0 \<le> mpq_val r \<and> mpq_val r ^ 2 = mpq_val a)"
proof -
  note w = wf_mpqD [OF assms]
  have iff: "(\<exists>x. mpq_val a = x ^ 2) \<longleftrightarrow> (\<exists>x. mpz_val (m_num a) = x ^ 2) \<and> (\<exists>x. mpz_val (m_den a) = x ^ 2)"
  proof -
    have "(\<exists>x. mpz_val (m_den a) = x ^ 2) \<longleftrightarrow> (\<exists>x. mpz_val (m_den a) = x ^ 2 \<and> 0 < x)"
      using w(3) by (metis abs_ge_zero le_less power2_abs power_zero_numeral less_irrefl)
    then show ?thesis unfolding rational_power [OF assms] by blast
  qed
  obtain s ok where s: "is_perfect_square m (m_num a) (m_num rt) = Some (s, ok)" "ok \<longleftrightarrow> (\<exists>x. mpz_val (m_num a) = x ^ 2)"
      "ok \<Longrightarrow> good s \<and> 0 \<le> mpz_val s \<and> mpz_val s ^ 2 = mpz_val (m_num a)"
    using square_root_correct [OF w(1)] by blast
  obtain t ok' where t: "is_perfect_square m (m_den a) (m_den rt) = Some (t, ok')" "ok' \<longleftrightarrow> (\<exists>x. mpz_val (m_den a) = x ^ 2)"
      "ok' \<Longrightarrow> good t \<and> 0 \<le> mpz_val t \<and> mpz_val t ^ 2 = mpz_val (m_den a)"
    using square_root_correct [OF w(2)] by blast
  show ?thesis
  proof (cases "mpq_is_int a")
    case True
    then have d: "mpz_val (m_den a) = 1" "mpq_val a = of_int (mpz_val (m_num a))" using is_int_val [OF assms] by simp_all
    then have "ok'" using t(2) by (auto intro: exI [of _ 1])
    then have "ok \<longleftrightarrow> (\<exists>x. mpq_val a = x ^ 2)" using iff s(2) t(2) by blast
    then show ?thesis
      using True s(1,3) d(2) by (intro exI [of _ "of_mpz s"] exI [of _ ok]) (auto simp: mpq_is_perfect_square_def simp flip: of_int_power)
  next
    case False
    show ?thesis
    proof (cases "ok \<and> ok'")
      case True
      then have tp: "0 < mpz_val t" using t(3) w(3) by (metis le_less power_zero_numeral less_irrefl)
      obtain r where r: "mpq_normalize m \<lparr>m_num = s, m_den = t\<rparr> = Some r" "wf_mpq r"
          "mpq_val r = of_int (mpz_val s) / of_int (mpz_val t)"
        using normalize_eq [of s t _ m] s(3) t(3) tp True by (auto elim: qretE)
      have "mpq_val r ^ 2 = mpq_val a"
        unfolding r(3) using s(3) t(3) True by (simp add: mpq_val_def power_divide flip: of_int_power)
      moreover have "0 \<le> mpq_val r" using s(3) tp True by (simp add: r(3))
      ultimately show ?thesis
        using True False s(1,2) t(1,2) r(1,2) iff
        by (intro exI [of _ r] exI [of _ True]) (simp add: mpq_is_perfect_square_def)
    next
      case no: False
      then have "\<not> (\<exists>x. mpq_val a = x ^ 2)" using iff s(2) t(2) by blast
      moreover have "\<exists>r. mpq_is_perfect_square m a rt = Some (r, False)"
        using no False s(1) t(1) by (cases ok) (auto simp: mpq_is_perfect_square_def)
      ultimately show ?thesis by blast
    qed
  qed
qed

section \<open>A sum written into its second operand\<close>

text \<open>
  The denominator of the operand is overwritten before it is divided by the gcd \<open>g\<close> of the denominators, so
  the first operand is scaled by the cofactor of \<open>g\<close> in its own denominator.
\<close>

definition scale_into_b :: "mpq \<Rightarrow> mpq \<Rightarrow> int" where
  "scale_into_b a b =
     (let g = gcd (mpz_val (m_den a)) (mpz_val (m_den b)) in if g = 1 then 1 else mpz_val (m_den a) div g)"

lemma reduce_value:
  assumes "good n" "good d" "good h" "0 < mpz_val h" "mpz_val h dvd mpz_val n" "mpz_val h dvd mpz_val d" "0 < mpz_val d"
  shows "\<exists>c. (if mpz_is_one h then Some \<lparr>m_num = n, m_den = d\<rparr>
      else do { n' \<leftarrow> mpz_div m n h; d' \<leftarrow> mpz_div m d h; Some \<lparr>m_num = n', m_den = d'\<rparr> }) = Some c \<and>
    mpq_val c = of_int (mpz_val n) / of_int (mpz_val d)"
proof (cases "mpz_is_one h")
  case True
  then show ?thesis by (simp add: mpq_val_def)
next
  case False
  obtain n' where n': "mpz_div m n h = Some n'" "mpz_val n' = mpz_val n div mpz_val h"
    using div_by_good [OF assms(1,3,4,5), of m] by auto
  obtain d' where d': "mpz_div m d h = Some d'" "mpz_val d' = mpz_val d div mpz_val h"
    using div_by_good [OF assms(2,3,4,6), of m] by auto
  have e: "mpz_val n = mpz_val n' * mpz_val h" "mpz_val d = mpz_val d' * mpz_val h" using assms(5,6) by (simp_all add: n' d')
  have "of_int (mpz_val n') / of_int (mpz_val d') = (of_int (mpz_val n) / of_int (mpz_val d) :: rat)"
    using assms(4) unfolding e by simp
  then show ?thesis using n' d' False by (simp add: mpq_val_def)
qed

lemma sum_into_b_value:
  assumes "wf_mpq a" "wf_mpq b"
  shows "\<exists>c. lin_arith_op_into_b SUB m a b = Some c \<and>
    mpq_val c = plus_minus SUB (of_int (scale_into_b a b) * mpq_val a) (mpq_val b)"
proof -
  define na da nb db where v: "na = mpz_val (m_num a)" "da = mpz_val (m_den a)" "nb = mpz_val (m_num b)" "db = mpz_val (m_den b)"
  have pos: "0 < da" "0 < db" and sgd: "good (m_num a)" "good (m_den a)" "good (m_num b)" "good (m_den b)"
    using assms by (simp_all add: v wf_mpqD)
  obtain g where g: "mpz_gcd m (m_den a) (m_den b) = Some g" "good g" "mpz_val g = gcd da db"
    unfolding v using gcd_zret [OF sgd(2,4)] by (rule zretE)
  show ?thesis
  proof (cases "mpz_val g = 1")
    case True
    then have "lin_arith_op_into_b SUB m a b = lin_arith_op SUB m a b"
      using g(1,2) by (simp add: lin_arith_op_into_b_def lin_arith_op_def Let_def)
    moreover have "scale_into_b a b = 1" using True g(3) v by (simp add: scale_into_b_def)
    ultimately show ?thesis using lin_arith_correct [OF assms, of SUB m] by (auto elim: qretE)
  next
    case False
    have gp: "0 < mpz_val g" using pos by (simp add: g(3) gcd_pos_int)
    obtain t3 where t3: "mpz_div m (m_den a) g = Some t3" "good t3" "mpz_val t3 = da div mpz_val g"
      using div_by_good [of "m_den a" g m] sgd g gp v by auto
    let ?d = "mpz_mul t3 (m_den b)"
    have d: "good ?d" "mpz_val ?d = mpz_val t3 * db" using t3(2) sgd by (simp_all add: v)
    obtain q where q: "db = mpz_val g * q" using g(3) by (metis dvdE gcd_dvd2)
    obtain t4 where t4: "mpz_div m ?d g = Some t4" "good t4" "mpz_val t4 = mpz_val t3 * q"
      using div_by_good [OF d(1) g(2) gp, of m] gp unfolding d(2) q by auto
    let ?t = "if SUB then mpz_sub (mpz_mul t4 (m_num a)) (mpz_mul t3 (m_num b)) else mpz_add (mpz_mul t4 (m_num a)) (mpz_mul t3 (m_num b))"
    have t: "good ?t" "mpz_val ?t = plus_minus SUB (mpz_val t3 * q * na) (mpz_val t3 * nb)"
      using good_plus_minus [of "mpz_mul t4 (m_num a)" "mpz_mul t3 (m_num b)" SUB] sgd t3(2) t4(2,3) by (simp_all add: v)
    have p: "da = mpz_val t3 * mpz_val g" by (simp add: t3(3) g(3))
    have tp: "0 < mpz_val t3" "0 < q" using pos gp zero_less_mult_pos2 [of "mpz_val t3" "mpz_val g"] zero_less_mult_pos [of "mpz_val g" q]
      unfolding p q by auto
    obtain t1 where t1: "mpz_gcd m ?t g = Some t1" "good t1" "mpz_val t1 = gcd (mpz_val ?t) (mpz_val g)"
      using gcd_zret [OF t(1) g(2)] by (rule zretE)
    have h: "0 < mpz_val t1" "mpz_val t1 dvd mpz_val ?t" "mpz_val t1 dvd mpz_val ?d"
      using gp by (auto simp: t1(3) gcd_pos_int d(2) q)
    have dp: "0 < mpz_val ?d" using tp pos by (simp add: d(2))
    have val: "of_int (mpz_val ?t) / of_int (mpz_val ?d) = plus_minus SUB (of_int (scale_into_b a b) * mpq_val a) (mpq_val b)"
    proof -
      have s: "scale_into_b a b = mpz_val t3" using False g(3) t3(3) v by (simp add: scale_into_b_def)
      show ?thesis
        unfolding s t(2) d(2) using tp gp by (simp add: plus_minus_def mpq_val_def v [symmetric] p q field_simps)
    qed
    obtain c where c: "(if mpz_is_one t1 then Some \<lparr>m_num = ?t, m_den = ?d\<rparr>
        else do { n \<leftarrow> mpz_div m ?t t1; d \<leftarrow> mpz_div m ?d t1; Some \<lparr>m_num = n, m_den = d\<rparr> }) = Some c"
        "mpq_val c = of_int (mpz_val ?t) / of_int (mpz_val ?d)"
      using reduce_value [OF t(1) d(1) t1(2) h dp, of m] by blast
    have "\<not> mpz_is_one g" using False g(2) by simp
    then have "lin_arith_op_into_b SUB m a b = Some c"
      unfolding lin_arith_op_into_b_def Let_def g(1) t3(1) Option.bind.bind_lunit if_False
      using c(1) t4(1) t1(1) by (cases b; cases SUB; cases "mpz_is_one t1"; simp)
    then show ?thesis using c(2) val by auto
  qed
qed

lemma scale_into_b_1:
  assumes "wf_mpq a" "wf_mpq b"
  shows "scale_into_b a b = 1 \<longleftrightarrow>
    coprime (mpz_val (m_den a)) (mpz_val (m_den b)) \<or> mpz_val (m_den a) dvd mpz_val (m_den b)"
proof -
  define x y where "x = mpz_val (m_den a)" and "y = mpz_val (m_den b)"
  have "0 < x" using assms(1) by (simp add: x_def wf_mpqD)
  then have g: "0 < gcd x y" "x div gcd x y * gcd x y = x" by (simp_all add: gcd_pos_int)
  have "x div gcd x y = 1 \<longleftrightarrow> gcd x y = x"
    using g by (metis mult_1 div_self less_irrefl \<open>0 < x\<close>)
  also have "\<dots> \<longleftrightarrow> x dvd y"
    using \<open>0 < x\<close> by (metis abs_of_pos gcd_dvd2 gcd_proj1_if_dvd_int)
  finally show ?thesis unfolding scale_into_b_def x_def [symmetric] y_def [symmetric] by (auto simp: Let_def coprime_iff_gcd_eq_1)
qed

end
