(* ===== verification/MpqInts.thy ===== *)
theory MpqInts
  imports MpqRoots
begin

text \<open>
  Rationals made from machine integers, and the integer operations on rationals that are integers.
\<close>

section \<open>Machine integers\<close>

lemma good_set_i64 [simp]: "good (set_i64 v)"
  by (simp add: good_def)

text \<open>Only \<open>2 ^ 31 - 1\<close> is stored in a form that the gcd does not take.\<close>

lemma good_set_uint64:
  assumes "v \<noteq> 2147483647"
  shows "good (set_uint64 v)"
proof (cases "v < 2147483647")
  case True
  then show ?thesis using set_uint64_correct(1) [of v] by (simp add: good_def set_uint64_def)
next
  case False
  have "uint v \<noteq> uint (2147483647 :: u64)" using assms unfolding word_uint_eq_iff .
  moreover have "uint (2147483647 :: u64) \<le> uint v" using False by (simp only: word_less_def not_less)
  ultimately have "2147483648 \<le> \<bar>mpz_val (set_uint64 v)\<bar>" unfolding set_uint64_correct(2) by simp
  then show ?thesis using set_uint64_correct(1) [of v] by (simp add: good_def canonical_val)
qed

lemma set_i64_u64_correct:
  assumes "d \<noteq> 0" "d \<noteq> 2147483647"
  shows "qret (mpq_set_i64_u64 m n d) (of_int (sint n) / of_int (uint d))"
proof -
  have "0 < uint d" using assms(1) uint_ge_0 [of d] by (metis le_less uint_0_iff)
  then show ?thesis
    unfolding mpq_set_i64_u64_def using good_set_uint64 [OF assms(2)] by (intro normalize_eq) (simp_all add: set_uint64_correct(2))
qed

lemma sint_neg_i32:
  assumes "x \<noteq> (int_min :: i32)"
  shows "sint (- x) = - sint x"
proof -
  have b: "- 2147483648 \<le> sint x" "sint x \<le> 2147483647" by (rule sint_i32_bounds)+
  have "sint x \<noteq> - 2147483648" using assms sint_int_min by (metis word_eq_iff_signed)
  then have "- 2147483648 \<le> - sint x" "- sint x \<le> 2147483647" using b by linarith+
  then show ?thesis by (simp add: sint_word_ariths signed_take_bit_31_id)
qed

text \<open>Both parts are negated when the denominator is negative, in 32 bits.\<close>

lemma set_int_int_correct:
  assumes "d \<noteq> 0" "d <s 0 \<longrightarrow> n \<noteq> int_min \<and> d \<noteq> int_min"
  shows "qret (mpq_set_int_int m n d) (of_int (sint n) / of_int (sint d))"
proof (cases "d <s 0")
  case True
  then have s: "sint (- n) = - sint n" "sint (- d) = - sint d" "sint d < 0"
    using assms sint_neg_i32 by (simp_all add: word_sless_alt)
  have "qret (mpq_normalize m \<lparr>m_num = set_int (- n), m_den = set_int (- d)\<rparr>) (of_int (sint n) / of_int (sint d))"
    using s by (intro normalize_eq) simp_all
  then show ?thesis using True by (simp add: mpq_set_int_int_def)
next
  case False
  then have "0 < sint d" using assms(1) by (simp add: word_sless_alt) (metis le_less not_less signed_0 word_eq_iff_signed)
  then have "qret (mpq_normalize m \<lparr>m_num = set_int n, m_den = set_int d\<rparr>) (of_int (sint n) / of_int (sint d))"
    by (intro normalize_eq) simp_all
  then show ?thesis using False by (simp add: mpq_set_int_int_def)
qed

section \<open>Integer operations\<close>

lemma integer_ops_correct:
  assumes a: "wf_mpq a" "mpq_val a = of_int x" and b: "wf_mpq b" "mpq_val b = of_int y"
  shows "mpq_divides m a b = Some (x dvd y)" "qret (mpq_gcd m a b) (of_int (gcd x y))"
    "\<exists>c. mpq_lcm m a b = Some c \<and> \<bar>mpq_val c\<bar> = of_int (lcm x y)"
    "y \<noteq> 0 \<Longrightarrow> qret (mpq_machine_idiv m a b) (of_int (x sdiv y))"
    "y \<noteq> 0 \<Longrightarrow> \<exists>q r. mpq_idiv m a b = Some q \<and> mpq_mod m a b = Some r \<and> mpq_val q * mpq_val b + mpq_val r = mpq_val a \<and>
      0 \<le> mpq_val r \<and> mpq_val r < \<bar>mpq_val b\<bar>"
proof -
  have "mpq_is_int a" "mpq_is_int b" using a b by (simp_all add: is_one_val)
  then have v: "mpz_val (m_num a) = x" "mpz_val (m_num b) = y"
    using is_int_val [OF a(1)] is_int_val [OF b(1)] a(2) b(2) by simp_all
  have w: "good (m_num a)" "good (m_num b)" "wf_mpz (m_num a)" "wf_mpz (m_num b)" "canonical (m_num a)" "canonical (m_num b)"
    using wf_mpqD(1) [OF a(1)] wf_mpqD(1) [OF b(1)] by (simp_all add: good_def)
  have val: "mpq_val (of_mpz z) = of_int (mpz_val z)" for z by (simp add: mpq_val_def)
  show "mpq_divides m a b = Some (x dvd y)"
    using mpz_divides_correct [OF w(3,4), of m] by (simp add: mpq_divides_def v)
  show "qret (mpq_gcd m a b) (of_int (gcd x y))"
    using gcd_zret [OF w(1,2), of m] unfolding v by (auto simp: mpq_gcd_def qret_def elim!: zretE)
  show "\<exists>c. mpq_lcm m a b = Some c \<and> \<bar>mpq_val c\<bar> = of_int (lcm x y)"
    using mpz_lcm_correct [OF w(3-6), of m] unfolding v by (auto simp: mpq_lcm_def val simp flip: of_int_abs)
  show "y \<noteq> 0 \<Longrightarrow> qret (mpq_machine_idiv m a b) (of_int (x sdiv y))"
    using machine_div_zret [OF w(1,2), of m] unfolding v by (auto simp: mpq_machine_idiv_def qret_def elim!: zretE)
  show "\<exists>q r. mpq_idiv m a b = Some q \<and> mpq_mod m a b = Some r \<and> mpq_val q * mpq_val b + mpq_val r = mpq_val a \<and>
      0 \<le> mpq_val r \<and> mpq_val r < \<bar>mpq_val b\<bar>" if nz: "y \<noteq> 0"
  proof -
    obtain q r where "mpz_div m (m_num a) (m_num b) = Some q" "mpz_mod m (m_num a) (m_num b) = Some r"
        "mpz_val q * y + mpz_val r = x" "0 \<le> mpz_val r" "mpz_val r < \<bar>y\<bar>"
      using mpz_div_correct [OF w(3,4), of m] nz unfolding v by blast
    then show ?thesis using a(2) b(2) by (auto simp: mpq_idiv_def mpq_mod_def val simp flip: of_int_mult of_int_add of_int_abs)
  qed
qed

text \<open>Views of a rational as a machine integer.\<close>

lemma machine_views_correct:
  assumes "wf_mpq a"
  shows "mpq_is_int64 a \<longleftrightarrow> (\<exists>x. mpq_val a = of_int x \<and> - 9223372036854775808 \<le> x \<and> x \<le> 9223372036854775807)"
    "mpq_is_uint64 a \<longleftrightarrow> (\<exists>x. mpq_val a = of_int x \<and> 0 \<le> x \<and> x < 18446744073709551616)"
proof -
  have w: "wf_mpz (m_num a)" using wf_mpqD(1) [OF assms] by (simp add: good_def)
  have i: "mpq_is_int a \<longleftrightarrow> (\<exists>x. mpq_val a = of_int x)" using assms by (auto simp: is_one_val elim: Ints_cases)
  have v: "mpq_val a = of_int x \<longleftrightarrow> x = mpz_val (m_num a)" if "mpq_is_int a" for x
    using is_int_val [OF assms that] by auto
  show "mpq_is_int64 a \<longleftrightarrow> (\<exists>x. mpq_val a = of_int x \<and> - 9223372036854775808 \<le> x \<and> x \<le> 9223372036854775807)"
    "mpq_is_uint64 a \<longleftrightarrow> (\<exists>x. mpq_val a = of_int x \<and> 0 \<le> x \<and> x < 18446744073709551616)"
    using is_int64_correct(1) [OF w] is_uint64_correct(1) [OF w] i v
    by (cases "mpq_is_int a"; simp add: mpq_is_int64_def mpq_is_uint64_def)+
qed

end
