(* ===== verification/OldInterval.thy ===== *)
theory OldInterval
  imports Prelude Complex_Main
begin

text \<open>
  Model of smt/old_interval.cpp and of the dependency tree of util/dependency.h it uses: interval
  arithmetic over the rationals extended with two infinities, where every bound carries the
  dependency (a tree of leaves, or the null pointer) that justifies it.
\<close>

section \<open>Extended numerals\<close>

datatype ext_numeral = MinusInfinity | Finite rat | PlusInfinity

definition ext_of_bool :: "bool \<Rightarrow> ext_numeral" where
  "ext_of_bool plus_infinity = (if plus_infinity then PlusInfinity else MinusInfinity)"

fun ext_is_infinite :: "ext_numeral \<Rightarrow> bool" where
  "ext_is_infinite (Finite v) = False"
| "ext_is_infinite _ = True"

fun ext_sign :: "ext_numeral \<Rightarrow> bool" where
  "ext_sign MinusInfinity = True"
| "ext_sign (Finite v) = (v < 0)"
| "ext_sign PlusInfinity = False"

definition ext_is_zero :: "ext_numeral \<Rightarrow> bool" where
  "ext_is_zero n = (n = Finite 0)"

definition ext_is_neg :: "ext_numeral \<Rightarrow> bool" where
  "ext_is_neg n = ext_sign n"

definition ext_is_pos :: "ext_numeral \<Rightarrow> bool" where
  "ext_is_pos n = (\<not> ext_is_neg n \<and> \<not> ext_is_zero n)"

fun ext_neg :: "ext_numeral \<Rightarrow> ext_numeral" where
  "ext_neg MinusInfinity = PlusInfinity"
| "ext_neg (Finite v) = Finite (- v)"
| "ext_neg PlusInfinity = MinusInfinity"

fun ext_add :: "ext_numeral \<Rightarrow> ext_numeral \<Rightarrow> ext_numeral" where
  "ext_add (Finite v) MinusInfinity = MinusInfinity"
| "ext_add (Finite v) (Finite w) = Finite (v + w)"
| "ext_add (Finite v) PlusInfinity = PlusInfinity"
| "ext_add n other = n"

fun ext_sub :: "ext_numeral \<Rightarrow> ext_numeral \<Rightarrow> ext_numeral" where
  "ext_sub (Finite v) MinusInfinity = PlusInfinity"
| "ext_sub (Finite v) (Finite w) = Finite (v - w)"
| "ext_sub (Finite v) PlusInfinity = MinusInfinity"
| "ext_sub n other = n"

fun ext_value :: "ext_numeral \<Rightarrow> rat" where
  "ext_value (Finite v) = v"
| "ext_value _ = 0"

definition ext_mul :: "ext_numeral \<Rightarrow> ext_numeral \<Rightarrow> ext_numeral" where
  "ext_mul n other =
     (if ext_is_zero n then n
      else if ext_is_zero other then Finite 0
      else if ext_is_infinite n \<or> ext_is_infinite other then
        (if ext_sign n = ext_sign other then PlusInfinity else MinusInfinity)
      else Finite (ext_value n * ext_value other))"

fun ext_expt :: "ext_numeral \<Rightarrow> nat \<Rightarrow> ext_numeral" where
  "ext_expt MinusInfinity n = (if n mod 2 = 0 then PlusInfinity else MinusInfinity)"
| "ext_expt (Finite v) n = Finite (v ^ n)"
| "ext_expt PlusInfinity n = PlusInfinity"

fun ext_inv :: "ext_numeral \<Rightarrow> ext_numeral" where
  "ext_inv (Finite v) = Finite (1 / v)"
| "ext_inv _ = Finite 0"

fun ext_eq :: "ext_numeral \<Rightarrow> ext_numeral \<Rightarrow> bool" where
  "ext_eq (Finite v) (Finite w) = (v = w)"
| "ext_eq MinusInfinity MinusInfinity = True"
| "ext_eq PlusInfinity PlusInfinity = True"
| "ext_eq _ _ = False"

definition ext_lt :: "ext_numeral \<Rightarrow> ext_numeral \<Rightarrow> bool" where
  "ext_lt n1 n2 =
     (if ext_is_infinite n1 then n1 = MinusInfinity \<and> n2 \<noteq> MinusInfinity
      else if ext_is_infinite n2 then n2 \<noteq> MinusInfinity
      else ext_value n1 < ext_value n2)"

instantiation ext_numeral :: linorder
begin

definition less_ext_numeral :: "ext_numeral \<Rightarrow> ext_numeral \<Rightarrow> bool" where
  "less_ext_numeral = ext_lt"

definition less_eq_ext_numeral :: "ext_numeral \<Rightarrow> ext_numeral \<Rightarrow> bool" where
  "less_eq_ext_numeral n1 n2 = (\<not> ext_lt n2 n1)"

instance
proof
  fix x y z :: ext_numeral
  show "x < y \<longleftrightarrow> x \<le> y \<and> \<not> y \<le> x"
    by (cases x; cases y) (auto simp: less_ext_numeral_def less_eq_ext_numeral_def ext_lt_def)
  show "x \<le> x"
    by (cases x) (auto simp: less_eq_ext_numeral_def ext_lt_def)
  show "x \<le> z" if "x \<le> y" "y \<le> z"
    using that by (cases x; cases y; cases z) (auto simp: less_eq_ext_numeral_def ext_lt_def)
  show "x = y" if "x \<le> y" "y \<le> x"
    using that by (cases x; cases y) (auto simp: less_eq_ext_numeral_def ext_lt_def)
  show "x \<le> y \<or> y \<le> x"
    by (cases x; cases y) (auto simp: less_eq_ext_numeral_def ext_lt_def)
qed

end

section \<open>Dependencies\<close>

datatype 'v v_dependency = Null | Leaf 'v | Join "'v v_dependency" "'v v_dependency"

definition mk_join :: "'v v_dependency \<Rightarrow> 'v v_dependency \<Rightarrow> 'v v_dependency" where
  "mk_join d1 d2 = (if d1 = Null then d2 else if d2 = Null then d1 else if d1 = d2 then d1 else Join d1 d2)"

primrec leaves :: "'v v_dependency \<Rightarrow> 'v set" where
  "leaves Null = {}"
| "leaves (Leaf v) = {v}"
| "leaves (Join d1 d2) = leaves d1 \<union> leaves d2"

definition join3 :: "'v v_dependency \<Rightarrow> 'v v_dependency \<Rightarrow> 'v v_dependency \<Rightarrow> 'v v_dependency" where
  "join3 d1 d2 d3 = mk_join (mk_join d1 d2) d3"

definition join4 :: "'v v_dependency \<Rightarrow> 'v v_dependency \<Rightarrow> 'v v_dependency \<Rightarrow> 'v v_dependency
    \<Rightarrow> 'v v_dependency" where
  "join4 d1 d2 d3 d4 = mk_join (mk_join d1 d2) (mk_join d3 d4)"

definition join_opt :: "'v v_dependency \<Rightarrow> 'v v_dependency \<Rightarrow> 'v v_dependency \<Rightarrow> 'v v_dependency
    \<Rightarrow> 'v v_dependency" where
  "join_opt d1 d2 opt1 opt2 =
     (if opt1 = d1 \<or> opt1 = d2 then mk_join d1 d2
      else if opt2 = d1 \<or> opt2 = d2 then mk_join d1 d2
      else if opt1 = Null \<or> opt2 = Null then mk_join d1 d2
      else join3 d1 d2 opt1)"

lemma leaves_mk_join [simp]: "leaves (mk_join d1 d2) = leaves d1 \<union> leaves d2"
  by (auto simp: mk_join_def)

lemma leaves_join3 [simp]: "leaves (join3 d1 d2 d3) = leaves d1 \<union> leaves d2 \<union> leaves d3"
  by (simp add: join3_def)

lemma leaves_join4 [simp]: "leaves (join4 d1 d2 d3 d4) = leaves d1 \<union> leaves d2 \<union> leaves d3 \<union> leaves d4"
  by (auto simp: join4_def)

section \<open>Intervals\<close>

record 'v interval =
  i_lower :: ext_numeral
  i_upper :: ext_numeral
  i_lower_open :: bool
  i_upper_open :: bool
  i_lower_dep :: "'v v_dependency"
  i_upper_dep :: "'v v_dependency"

definition interval_full :: "'v interval" where
  "interval_full = \<lparr>i_lower = ext_of_bool False, i_upper = ext_of_bool True, i_lower_open = True,
     i_upper_open = True, i_lower_dep = Null, i_upper_dep = Null\<rparr>"

definition interval_rat :: "rat \<Rightarrow> bool \<Rightarrow> 'v v_dependency \<Rightarrow> rat \<Rightarrow> bool \<Rightarrow> 'v v_dependency
    \<Rightarrow> 'v interval" where
  "interval_rat l l_open l_dep u u_open u_dep =
     \<lparr>i_lower = Finite l, i_upper = Finite u, i_lower_open = l_open, i_upper_open = u_open,
      i_lower_dep = l_dep, i_upper_dep = u_dep\<rparr>"

definition interval_ext :: "ext_numeral \<Rightarrow> bool \<Rightarrow> 'v v_dependency \<Rightarrow> ext_numeral \<Rightarrow> bool
    \<Rightarrow> 'v v_dependency \<Rightarrow> 'v interval" where
  "interval_ext l l_open l_dep u u_open u_dep =
     \<lparr>i_lower = l, i_upper = u, i_lower_open = l_open, i_upper_open = u_open,
      i_lower_dep = l_dep, i_upper_dep = u_dep\<rparr>"

definition interval_val :: "rat \<Rightarrow> 'v v_dependency \<Rightarrow> 'v v_dependency \<Rightarrow> 'v interval" where
  "interval_val v l_dep u_dep =
     \<lparr>i_lower = Finite v, i_upper = Finite v, i_lower_open = False, i_upper_open = False,
      i_lower_dep = l_dep, i_upper_dep = u_dep\<rparr>"

definition interval_half :: "rat \<Rightarrow> bool \<Rightarrow> bool \<Rightarrow> 'v v_dependency \<Rightarrow> 'v interval" where
  "interval_half v opn lower d =
     (if lower then
        \<lparr>i_lower = Finite v, i_upper = ext_of_bool True, i_lower_open = opn, i_upper_open = True,
         i_lower_dep = d, i_upper_dep = Null\<rparr>
      else
        \<lparr>i_lower = ext_of_bool False, i_upper = Finite v, i_lower_open = True, i_upper_open = opn,
         i_lower_dep = Null, i_upper_dep = d\<rparr>)"

definition is_P :: "'v interval \<Rightarrow> bool" where
  "is_P i = (ext_is_pos (i_lower i) \<or> ext_is_zero (i_lower i))"
definition is_P0 :: "'v interval \<Rightarrow> bool" where
  "is_P0 i = (ext_is_zero (i_lower i) \<and> \<not> i_lower_open i)"
definition is_P1 :: "'v interval \<Rightarrow> bool" where
  "is_P1 i = (ext_is_pos (i_lower i) \<or> ext_is_zero (i_lower i) \<and> i_lower_open i)"
definition is_N :: "'v interval \<Rightarrow> bool" where
  "is_N i = (ext_is_neg (i_upper i) \<or> ext_is_zero (i_upper i))"
definition is_N0 :: "'v interval \<Rightarrow> bool" where
  "is_N0 i = (ext_is_zero (i_upper i) \<and> \<not> i_upper_open i)"
definition is_N1 :: "'v interval \<Rightarrow> bool" where
  "is_N1 i = (ext_is_neg (i_upper i) \<or> ext_is_zero (i_upper i) \<and> i_upper_open i)"
definition is_M :: "'v interval \<Rightarrow> bool" where
  "is_M i = (ext_is_neg (i_lower i) \<and> ext_is_pos (i_upper i))"
definition is_zero_interval :: "'v interval \<Rightarrow> bool" where
  "is_zero_interval i = (ext_is_zero (i_lower i) \<and> ext_is_zero (i_upper i))"

definition interval_add :: "'v interval \<Rightarrow> 'v interval \<Rightarrow> 'v interval" where
  "interval_add i other =
     (let l = ext_add (i_lower i) (i_lower other); u = ext_add (i_upper i) (i_upper other)
      in \<lparr>i_lower = l, i_upper = u,
          i_lower_open = (i_lower_open i \<or> i_lower_open other),
          i_upper_open = (i_upper_open i \<or> i_upper_open other),
          i_lower_dep = (if ext_is_infinite l then Null else mk_join (i_lower_dep i) (i_lower_dep other)),
          i_upper_dep = (if ext_is_infinite u then Null else mk_join (i_upper_dep i) (i_upper_dep other))\<rparr>)"

definition interval_neg :: "'v interval \<Rightarrow> 'v interval" where
  "interval_neg i = \<lparr>i_lower = ext_neg (i_upper i), i_upper = ext_neg (i_lower i),
     i_lower_open = i_upper_open i, i_upper_open = i_lower_open i,
     i_lower_dep = i_upper_dep i, i_upper_dep = i_lower_dep i\<rparr>"

definition interval_sub :: "'v interval \<Rightarrow> 'v interval \<Rightarrow> 'v interval" where
  "interval_sub i other = interval_add i (interval_neg other)"

text \<open>A bound with its justification, which is dropped when the bound is infinite.\<close>

definition mk_interval :: "ext_numeral \<Rightarrow> bool \<Rightarrow> 'v v_dependency \<Rightarrow> ext_numeral \<Rightarrow> bool \<Rightarrow> 'v v_dependency
    \<Rightarrow> 'v interval" where
  "mk_interval l lo ld u uo ud =
     \<lparr>i_lower = l, i_upper = u, i_lower_open = lo, i_upper_open = uo,
      i_lower_dep = (if ext_is_infinite l then Null else ld),
      i_upper_dep = (if ext_is_infinite u then Null else ud)\<rparr>"

definition mul_N_N :: "'v interval \<Rightarrow> 'v interval \<Rightarrow> 'v interval" where
  "mul_N_N i j = mk_interval
     (ext_mul (i_upper i) (i_upper j))
     (if is_N0 i \<or> is_N0 j then False else i_upper_open i \<or> i_upper_open j)
     (mk_join (i_upper_dep i) (i_upper_dep j))
     (ext_mul (i_lower i) (i_lower j))
     (i_lower_open i \<or> i_lower_open j)
     (join_opt (i_lower_dep i) (i_lower_dep j) (i_upper_dep i) (i_upper_dep j))"

definition mul_N_M :: "'v interval \<Rightarrow> 'v interval \<Rightarrow> 'v interval" where
  "mul_N_M i j = mk_interval
     (ext_mul (i_lower i) (i_upper j))
     (i_lower_open i \<or> i_upper_open j)
     (join3 (i_lower_dep i) (i_upper_dep j) (i_upper_dep i))
     (ext_mul (i_lower i) (i_lower j))
     (i_lower_open i \<or> i_lower_open j)
     (join3 (i_lower_dep i) (i_lower_dep j) (i_upper_dep i))"

definition mul_N_P :: "'v interval \<Rightarrow> 'v interval \<Rightarrow> 'v interval" where
  "mul_N_P i j = mk_interval
     (ext_mul (i_lower i) (i_upper j))
     (i_lower_open i \<or> i_upper_open j)
     (join_opt (i_lower_dep i) (i_upper_dep j) (i_upper_dep i) (i_lower_dep j))
     (ext_mul (i_upper i) (i_lower j))
     (if is_N0 i \<or> is_P0 j then False else i_upper_open i \<or> i_lower_open j)
     (mk_join (i_upper_dep i) (i_lower_dep j))"

definition mul_M_N :: "'v interval \<Rightarrow> 'v interval \<Rightarrow> 'v interval" where
  "mul_M_N i j = mk_interval
     (ext_mul (i_upper i) (i_lower j))
     (i_upper_open i \<or> i_lower_open j)
     (join3 (i_upper_dep i) (i_lower_dep j) (i_upper_dep j))
     (ext_mul (i_lower i) (i_lower j))
     (i_lower_open i \<or> i_lower_open j)
     (join3 (i_lower_dep i) (i_lower_dep j) (i_upper_dep j))"

definition mul_M_M :: "'v interval \<Rightarrow> 'v interval \<Rightarrow> 'v interval" where
  "mul_M_M i j =
     (let a = i_lower i; b = i_upper i; c = i_lower j; d = i_upper j;
          ad = ext_mul a d; bc = ext_mul b c; ac = ext_mul a c; bd = ext_mul b d;
          ad_o = i_lower_open i \<or> i_upper_open j; bc_o = i_upper_open i \<or> i_lower_open j;
          ac_o = i_lower_open i \<or> i_lower_open j; bd_o = i_upper_open i \<or> i_upper_open j;
          (l, l_o) = (if ext_lt ad bc \<or> ext_eq ad bc \<and> \<not> ad_o \<and> bc_o then (ad, ad_o) else (bc, bc_o));
          (u, u_o) = (if ext_lt bd ac \<or> ext_eq ac bd \<and> \<not> ac_o \<and> bd_o then (ac, ac_o) else (bd, bd_o));
          dep = join4 (i_lower_dep i) (i_upper_dep i) (i_lower_dep j) (i_upper_dep j)
      in mk_interval l l_o dep u u_o dep)"

definition mul_M_P :: "'v interval \<Rightarrow> 'v interval \<Rightarrow> 'v interval" where
  "mul_M_P i j = mk_interval
     (ext_mul (i_lower i) (i_upper j))
     (i_lower_open i \<or> i_upper_open j)
     (join3 (i_lower_dep i) (i_upper_dep j) (i_lower_dep j))
     (ext_mul (i_upper i) (i_upper j))
     (i_upper_open i \<or> i_upper_open j)
     (join3 (i_upper_dep i) (i_upper_dep j) (i_lower_dep j))"

definition mul_P_N :: "'v interval \<Rightarrow> 'v interval \<Rightarrow> 'v interval" where
  "mul_P_N i j = mk_interval
     (ext_mul (i_upper i) (i_lower j))
     (i_upper_open i \<or> i_lower_open j)
     (join_opt (i_upper_dep i) (i_lower_dep j) (i_lower_dep i) (i_upper_dep j))
     (ext_mul (i_lower i) (i_upper j))
     (if is_P0 i \<or> is_N0 j then False else i_lower_open i \<or> i_upper_open j)
     (mk_join (i_lower_dep i) (i_upper_dep j))"

definition mul_P_M :: "'v interval \<Rightarrow> 'v interval \<Rightarrow> 'v interval" where
  "mul_P_M i j = mk_interval
     (ext_mul (i_upper i) (i_lower j))
     (i_upper_open i \<or> i_lower_open j)
     (join3 (i_upper_dep i) (i_lower_dep j) (i_lower_dep i))
     (ext_mul (i_upper i) (i_upper j))
     (i_upper_open i \<or> i_upper_open j)
     (join3 (i_upper_dep i) (i_upper_dep j) (i_lower_dep i))"

definition mul_P_P :: "'v interval \<Rightarrow> 'v interval \<Rightarrow> 'v interval" where
  "mul_P_P i j = mk_interval
     (ext_mul (i_lower i) (i_lower j))
     (if is_P0 i \<or> is_P0 j then False else i_lower_open i \<or> i_lower_open j)
     (mk_join (i_lower_dep i) (i_lower_dep j))
     (ext_mul (i_upper i) (i_upper j))
     (i_upper_open i \<or> i_upper_open j)
     (join_opt (i_upper_dep i) (i_upper_dep j) (i_lower_dep i) (i_lower_dep j))"

definition interval_mul :: "'v interval \<Rightarrow> 'v interval \<Rightarrow> 'v interval" where
  "interval_mul i j =
     (if is_zero_interval i then i
      else if is_zero_interval j then
        (let dep = mk_join (i_lower_dep j) (i_upper_dep j) in j\<lparr>i_lower_dep := dep, i_upper_dep := dep\<rparr>)
      else if is_N i then
        (if is_N j then mul_N_N i j else if is_M j then mul_N_M i j else mul_N_P i j)
      else if is_M i then
        (if is_N j then mul_M_N i j else if is_M j then mul_M_M i j else mul_M_P i j)
      else
        (if is_N j then mul_P_N i j else if is_M j then mul_P_M i j else mul_P_P i j))"

definition contains_zero :: "'v interval \<Rightarrow> bool" where
  "contains_zero i =
     ((ext_is_neg (i_lower i) \<or> ext_is_zero (i_lower i) \<and> \<not> i_lower_open i) \<and>
      (ext_is_pos (i_upper i) \<or> ext_is_zero (i_upper i) \<and> \<not> i_upper_open i))"

definition contains :: "'v interval \<Rightarrow> rat \<Rightarrow> bool" where
  "contains i v =
     ((\<not> ext_is_infinite (i_lower i) \<longrightarrow>
         \<not> v < ext_value (i_lower i) \<and> \<not> (v = ext_value (i_lower i) \<and> i_lower_open i)) \<and>
      (\<not> ext_is_infinite (i_upper i) \<longrightarrow>
         \<not> v > ext_value (i_upper i) \<and> \<not> (v = ext_value (i_upper i) \<and> i_upper_open i)))"

definition interval_inv :: "'v interval \<Rightarrow> 'v interval" where
  "interval_inv i =
     (if is_P1 i then
        i\<lparr>i_lower := ext_inv (i_upper i),
          i_upper := (if ext_is_zero (i_lower i) then ext_of_bool True else ext_inv (i_lower i)),
          i_lower_open := i_upper_open i, i_upper_open := i_lower_open i,
          i_lower_dep := mk_join (i_lower_dep i) (i_upper_dep i), i_upper_dep := i_lower_dep i\<rparr>
      else if is_N1 i then
        i\<lparr>i_lower := (if ext_is_zero (i_upper i) then ext_of_bool False else ext_inv (i_upper i)),
          i_upper := ext_inv (i_lower i),
          i_lower_open := i_upper_open i, i_upper_open := i_lower_open i,
          i_upper_dep := mk_join (i_lower_dep i) (i_upper_dep i), i_lower_dep := i_upper_dep i\<rparr>
      else i)"

definition interval_div :: "'v interval \<Rightarrow> 'v interval \<Rightarrow> 'v interval" where
  "interval_div i other =
     (if is_zero_interval i then
        (if ext_is_pos (i_lower other) \<or> ext_is_zero (i_lower other) \<and> i_lower_open other
         then i\<lparr>i_lower_dep := mk_join (i_lower_dep i) (i_lower_dep other),
                i_upper_dep := mk_join (i_upper_dep i) (i_lower_dep other)\<rparr>
         else i\<lparr>i_lower_dep := mk_join (i_upper_dep i) (i_upper_dep other),
                i_upper_dep := mk_join (i_lower_dep i) (i_upper_dep other)\<rparr>)
      else interval_mul i (interval_inv other))"

definition interval_expt :: "'v interval \<Rightarrow> nat \<Rightarrow> 'v interval" where
  "interval_expt i n =
     (if n = 1 then i
      else if n mod 2 = 0 then
        (if ext_is_pos (i_lower i) then
           (let u = ext_expt (i_upper i) n
            in i\<lparr>i_lower := ext_expt (i_lower i) n, i_upper := u,
                 i_upper_dep := (if ext_is_infinite u then Null
                                 else mk_join (i_lower_dep i) (i_upper_dep i))\<rparr>)
         else if ext_is_neg (i_upper i) then
           (let u = ext_expt (i_lower i) n
            in \<lparr>i_lower = ext_expt (i_upper i) n, i_upper = u,
                i_lower_open = i_upper_open i, i_upper_open = i_lower_open i,
                i_lower_dep = i_upper_dep i,
                i_upper_dep = (if ext_is_infinite u then Null
                               else mk_join (i_upper_dep i) (i_lower_dep i))\<rparr>)
         else
           (let l = ext_expt (i_lower i) n; u = ext_expt (i_upper i) n;
                (u, u_o) = (if ext_lt u l \<or> ext_eq l u \<and> \<not> i_lower_open i \<and> i_upper_open i
                            then (l, i_lower_open i) else (u, i_upper_open i))
            in \<lparr>i_lower = Finite 0, i_upper = u, i_lower_open = False, i_upper_open = u_o,
                i_lower_dep = Null,
                i_upper_dep = (if ext_is_infinite u then Null
                               else mk_join (i_lower_dep i) (i_upper_dep i))\<rparr>))
      else i\<lparr>i_lower := ext_expt (i_lower i) n, i_upper := ext_expt (i_upper i) n\<rparr>)"

end
