(* ===== verification/OldIntervalSound.thy ===== *)
theory OldIntervalSound
  imports OldInterval
begin

text \<open>
  What an interval with dependencies says of a number: the two ends bound it as far as the hypotheses
  at the leaves of their dependencies hold. Soundness of addition, negation and the nine cases of the
  product.
\<close>

section \<open>What a bound says\<close>

fun lower_ok :: "ext_numeral \<Rightarrow> bool \<Rightarrow> rat \<Rightarrow> bool" where
  "lower_ok MinusInfinity opn x = True"
| "lower_ok (Finite v) opn x = (if opn then v < x else v \<le> x)"
| "lower_ok PlusInfinity opn x = False"

fun upper_ok :: "ext_numeral \<Rightarrow> bool \<Rightarrow> rat \<Rightarrow> bool" where
  "upper_ok MinusInfinity opn x = False"
| "upper_ok (Finite v) opn x = (if opn then x < v else x \<le> v)"
| "upper_ok PlusInfinity opn x = True"

text \<open>The invariant every constructor establishes: infinite bounds are on their own side and open.\<close>

definition wf_interval :: "'v interval \<Rightarrow> bool" where
  "wf_interval i \<longleftrightarrow>
     i_lower i \<noteq> PlusInfinity \<and> i_upper i \<noteq> MinusInfinity \<and> i_lower i \<le> i_upper i \<and>
     (i_lower i = MinusInfinity \<longrightarrow> i_lower_open i) \<and> (i_upper i = PlusInfinity \<longrightarrow> i_upper_open i)"

text \<open>
  The bounds of an interval are justified for a value under a set of true hypotheses when each
  bound holds as soon as the leaves of its own dependency are true.
\<close>

definition deps_hold :: "'v set \<Rightarrow> 'v v_dependency \<Rightarrow> bool" where
  "deps_hold H d \<longleftrightarrow> leaves d \<subseteq> H"

definition justified :: "'v set \<Rightarrow> 'v interval \<Rightarrow> rat \<Rightarrow> bool" where
  "justified H i x \<longleftrightarrow>
     (deps_hold H (i_lower_dep i) \<longrightarrow> lower_ok (i_lower i) (i_lower_open i) x) \<and>
     (deps_hold H (i_upper_dep i) \<longrightarrow> upper_ok (i_upper i) (i_upper_open i) x)"

lemma deps_hold_simps [simp]:
  "deps_hold H Null"
  "deps_hold H (mk_join d1 d2) \<longleftrightarrow> deps_hold H d1 \<and> deps_hold H d2"
  "deps_hold H (join3 d1 d2 d3) \<longleftrightarrow> deps_hold H d1 \<and> deps_hold H d2 \<and> deps_hold H d3"
  "deps_hold H (join4 d1 d2 d3 d4) \<longleftrightarrow>
     deps_hold H d1 \<and> deps_hold H d2 \<and> deps_hold H d3 \<and> deps_hold H d4"
  by (auto simp: deps_hold_def)

lemma deps_hold_join_opt:
  "deps_hold H (join_opt d1 d2 o1 o2) \<Longrightarrow>
     deps_hold H d1 \<and> deps_hold H d2 \<and> (deps_hold H o1 \<or> deps_hold H o2)"
  by (auto simp: join_opt_def split: if_splits)

lemma contains_eq:
  assumes "wf_interval i"
  shows "contains i x \<longleftrightarrow>
    lower_ok (i_lower i) (i_lower_open i) x \<and> upper_ok (i_upper i) (i_upper_open i) x"
  using assms by (cases "i_lower i"; cases "i_upper i") (auto simp: contains_def wf_interval_def)

lemma justified_all: "wf_interval i \<Longrightarrow> contains i x \<Longrightarrow> justified H i x"
  by (simp add: contains_eq justified_def)

lemma justified_contains:
  "wf_interval i \<Longrightarrow> justified H i x \<Longrightarrow> deps_hold H (i_lower_dep i) \<Longrightarrow> deps_hold H (i_upper_dep i)
     \<Longrightarrow> contains i x"
  by (simp add: contains_eq justified_def)

text \<open>Reflection at zero turns every bound into the other kind.\<close>

named_theorems reflect

lemma lower_ok_neg [reflect]: "lower_ok (ext_neg l) opn x = upper_ok l opn (- x)"
  by (cases l) auto

lemma upper_ok_neg [reflect]: "upper_ok (ext_neg l) opn x = lower_ok l opn (- x)"
  by (cases l) auto

lemma ext_sign_neg [reflect]: "ext_sign (ext_neg l) = ext_is_pos l"
  by (cases l) (auto simp: ext_is_pos_def ext_is_neg_def ext_is_zero_def)

lemma ext_neg_neg [simp]: "ext_neg (ext_neg l) = l"
  by (cases l) auto

lemma ext_is_zero_neg [simp]: "ext_is_zero (ext_neg l) = ext_is_zero l"
  by (cases l) (auto simp: ext_is_zero_def)

lemma ext_is_pos_neg [reflect]: "ext_is_pos (ext_neg l) = ext_is_neg l"
  by (cases l) (auto simp: ext_is_pos_def ext_is_neg_def ext_is_zero_def)

lemma ext_is_neg_neg [reflect]: "ext_is_neg (ext_neg l) = ext_is_pos l"
  by (cases l) (auto simp: ext_is_pos_def ext_is_neg_def ext_is_zero_def)

lemma ext_mul_neg_left [reflect]: "ext_mul (ext_neg a) b = ext_neg (ext_mul a b)"
  by (cases a; cases b) (auto simp: ext_mul_def ext_is_zero_def)

lemma ext_mul_neg_right [reflect]: "ext_mul a (ext_neg b) = ext_neg (ext_mul a b)"
  by (cases a; cases b) (auto simp: ext_mul_def ext_is_zero_def)

section \<open>The two product bounds\<close>

text \<open>
  Every corner of the nine cases of the product is one of two facts, up to reflection: a product of
  lower bounds of non-negative factors, or a product of positive upper bounds when one factor is
  known to be non-negative.
\<close>

lemma product_lower_rat:
  fixes a c x y :: rat
  assumes "0 \<le> a" "0 \<le> c" "if o1 then a < x else a \<le> x" "if o2 then c < y else c \<le> y"
  shows "if (a = 0 \<and> \<not> o1) \<or> (c = 0 \<and> \<not> o2) then a * c \<le> x * y
         else if o1 \<or> o2 then a * c < x * y else a * c \<le> x * y"
proof -
  have le: "a \<le> x" "c \<le> y"
    using assms(3,4) by (auto split: if_splits)
  then have "a * c \<le> x * y"
    using assms(1,2) by (intro mult_mono) auto
  moreover have "a * c < x * y" if o1: "o1" and nz: "\<not> (c = 0 \<and> \<not> o2)"
  proof -
    have "0 < y"
      using assms(2,4) nz by (auto split: if_splits)
    have "a * c \<le> a * y"
      using le assms(1) by (intro mult_left_mono)
    also have "a * y < x * y"
      using assms(3) o1 \<open>0 < y\<close> by simp
    finally show ?thesis .
  qed
  moreover have "a * c < x * y" if o2: "o2" and nz: "\<not> (a = 0 \<and> \<not> o1)"
  proof -
    have "0 < x"
      using assms(1,3) nz by (auto split: if_splits)
    have "a * c \<le> x * c"
      using le assms(2) by (intro mult_right_mono)
    also have "x * c < x * y"
      using assms(4) o2 \<open>0 < x\<close> by simp
    finally show ?thesis .
  qed
  ultimately show ?thesis by auto
qed

lemma product_upper_rat:
  fixes b d x y :: rat
  assumes "0 < b" "0 < d" "if o1 then x < b else x \<le> b" "if o2 then y < d else y \<le> d" "0 \<le> x"
  shows "if o1 \<or> o2 then x * y < b * d else x * y \<le> b * d"
proof (cases "y \<le> 0")
  case True
  then have "x * y \<le> 0"
    using assms(5) by (simp add: mult_nonneg_nonpos)
  also have "0 < b * d"
    using assms(1,2) by simp
  finally show ?thesis by simp
next
  case False
  have le: "x \<le> b" "y \<le> d"
    using assms(3,4) by (auto split: if_splits)
  then have "x * y \<le> b * d"
    using False assms(1,2,5) by (intro mult_mono) auto
  moreover have "x * y < b * d" if "o1"
  proof -
    have "x * y < b * y"
      using that assms(3) False by simp
    also have "b * y \<le> b * d"
      using le assms(1) by simp
    finally show ?thesis .
  qed
  moreover have "x * y < b * d" if "o2"
  proof -
    have "x * y \<le> b * y"
      using le False by (intro mult_right_mono) auto
    also have "b * y < b * d"
      using that assms(1,4) by simp
    finally show ?thesis .
  qed
  ultimately show ?thesis by auto
qed

lemma product_lower:
  assumes "ext_is_pos a \<or> ext_is_zero a" "ext_is_pos c \<or> ext_is_zero c"
    and "lower_ok a o1 x" "lower_ok c o2 y"
  shows "lower_ok (ext_mul a c)
    (if (ext_is_zero a \<and> \<not> o1) \<or> (ext_is_zero c \<and> \<not> o2) then False else o1 \<or> o2) (x * y)"
proof -
  obtain a' c' where a: "a = Finite a'" and c: "c = Finite c'"
    using assms by (cases a; cases c) (auto simp: ext_is_pos_def ext_is_neg_def ext_is_zero_def)
  have "0 \<le> a'" "0 \<le> c'"
    using assms(1,2) by (auto simp: a c ext_is_pos_def ext_is_neg_def ext_is_zero_def)
  then show ?thesis
    using product_lower_rat [of a' c' o1 x o2 y] assms(3,4)
    by (auto simp: a c ext_mul_def ext_is_zero_def)
qed

lemma product_upper1:
  assumes "ext_is_pos b" "ext_is_pos d" "upper_ok b o1 x" "upper_ok d o2 y" "0 \<le> x"
  shows "upper_ok (ext_mul b d) (o1 \<or> o2) (x * y)"
proof (cases "b = PlusInfinity \<or> d = PlusInfinity")
  case True
  then have "ext_mul b d = PlusInfinity"
    using assms(1,2) by (auto simp: ext_mul_def ext_is_pos_def ext_is_neg_def)
  then show ?thesis by simp
next
  case False
  then obtain b' d' where b: "b = Finite b'" and d: "d = Finite d'"
    using assms by (cases b; cases d) auto
  have "0 < b'" "0 < d'"
    using assms(1,2) by (auto simp: b d ext_is_pos_def ext_is_neg_def ext_is_zero_def)
  then show ?thesis
    using product_upper_rat [of b' d' o1 x o2 y] assms(3-5)
    by (auto simp: b d ext_mul_def ext_is_zero_def)
qed

lemma ext_mul_commute: "ext_mul a b = ext_mul b a"
  by (cases a; cases b) (auto simp: ext_mul_def ext_is_zero_def)

lemma product_upper:
  assumes "ext_is_pos b" "ext_is_pos d" "upper_ok b o1 x" "upper_ok d o2 y" "0 \<le> x \<or> 0 \<le> y"
  shows "upper_ok (ext_mul b d) (o1 \<or> o2) (x * y)"
  using product_upper1 [of b d o1 x o2 y] product_upper1 [of d b o2 y o1 x] assms
  by (auto simp: ext_mul_commute [of b d] mult.commute [of x y] disj_commute [of o1 o2])

text \<open>The reflected forms, one for each pair of signs.\<close>

lemmas product_upper_nn = product_upper [of "ext_neg a" "ext_neg c" o1 "- x" o2 "- y" for a c o1 x o2 y,
    unfolded reflect ext_neg_neg minus_minus mult_minus_left mult_minus_right]
lemmas product_upper_np = product_upper [of "ext_neg a" d o1 "- x" o2 y for a d o1 x o2 y,
    unfolded reflect ext_neg_neg minus_minus mult_minus_left mult_minus_right]
lemmas product_upper_pn = product_upper [of b "ext_neg c" o1 x o2 "- y" for b c o1 x o2 y,
    unfolded reflect ext_neg_neg minus_minus mult_minus_left mult_minus_right]
lemmas product_lower_nn = product_lower [of "ext_neg b" "ext_neg d" o1 "- x" o2 "- y" for b d o1 x o2 y,
    unfolded reflect ext_neg_neg ext_is_zero_neg minus_minus mult_minus_left mult_minus_right]
lemmas product_lower_np = product_lower [of "ext_neg b" c o1 "- x" o2 y for b c o1 x o2 y,
    unfolded reflect ext_neg_neg ext_is_zero_neg minus_minus mult_minus_left mult_minus_right]
lemmas product_lower_pn = product_lower [of a "ext_neg d" o1 x o2 "- y" for a d o1 x o2 y,
    unfolded reflect ext_neg_neg ext_is_zero_neg minus_minus mult_minus_left mult_minus_right]


section \<open>Multiplication\<close>

text \<open>What the sign predicates say of a well-formed interval that is not \<open>[0, 0]\<close>.\<close>

lemma is_N_D:
  assumes "wf_interval i" "\<not> is_zero_interval i" "is_N i"
  shows "ext_is_neg (i_lower i)" "ext_is_neg (i_upper i) \<or> ext_is_zero (i_upper i)"
  using assms
  by (cases "i_lower i"; cases "i_upper i";
      auto simp: wf_interval_def is_zero_interval_def is_N_def ext_is_neg_def ext_is_zero_def
        less_eq_ext_numeral_def ext_lt_def)+

lemma is_M_D:
  assumes "is_M i"
  shows "ext_is_neg (i_lower i)" "ext_is_pos (i_upper i)"
  using assms by (auto simp: is_M_def)

lemma is_P_D:
  assumes "wf_interval i" "\<not> is_zero_interval i" "\<not> is_N i" "\<not> is_M i"
  shows "ext_is_pos (i_upper i)" "ext_is_pos (i_lower i) \<or> ext_is_zero (i_lower i)"
  using assms
  by (cases "i_lower i"; cases "i_upper i";
      auto simp: wf_interval_def is_zero_interval_def is_N_def is_M_def ext_is_pos_def ext_is_neg_def
        ext_is_zero_def less_eq_ext_numeral_def ext_lt_def)+

lemma ext_mul_not_plus:
  "\<lbrakk>ext_is_neg a; ext_is_pos b\<rbrakk> \<Longrightarrow> ext_mul a b \<noteq> PlusInfinity"
  "\<lbrakk>ext_is_pos a; ext_is_neg b\<rbrakk> \<Longrightarrow> ext_mul a b \<noteq> PlusInfinity"
  by (cases a; cases b; auto simp: ext_mul_def ext_is_pos_def ext_is_neg_def ext_is_zero_def)+

lemma ext_mul_not_minus:
  "\<lbrakk>ext_is_neg a; ext_is_neg b\<rbrakk> \<Longrightarrow> ext_mul a b \<noteq> MinusInfinity"
  "\<lbrakk>ext_is_pos a; ext_is_pos b\<rbrakk> \<Longrightarrow> ext_mul a b \<noteq> MinusInfinity"
  by (cases a; cases b; auto simp: ext_mul_def ext_is_pos_def ext_is_neg_def ext_is_zero_def)+

lemma ext_mul_finite [simp]:
  "ext_mul (Finite v) (Finite w) = Finite (v * w)"
  by (auto simp: ext_mul_def ext_is_zero_def)

lemma justified_mk_interval:
  assumes "l \<noteq> PlusInfinity" "u \<noteq> MinusInfinity"
    and "deps_hold H ld \<Longrightarrow> lower_ok l lo z" "deps_hold H ud \<Longrightarrow> upper_ok u uo z"
  shows "justified H (mk_interval l lo ld u uo ud) z"
  using assms by (cases l; cases u) (auto simp: justified_def mk_interval_def)

text \<open>A bound on the non-positive side tells the sign of the value.\<close>

lemma upper_ok_nonpos: "\<lbrakk>upper_ok u opn x; ext_is_neg u \<or> ext_is_zero u\<rbrakk> \<Longrightarrow> x \<le> 0"
  by (cases u) (auto simp: ext_is_neg_def ext_is_zero_def split: if_splits)

lemma lower_ok_nonneg: "\<lbrakk>lower_ok l opn x; ext_is_pos l \<or> ext_is_zero l\<rbrakk> \<Longrightarrow> 0 \<le> x"
  by (cases l) (auto simp: ext_is_pos_def ext_is_neg_def ext_is_zero_def split: if_splits)

lemma justified_lower: "\<lbrakk>justified H i x; deps_hold H (i_lower_dep i)\<rbrakk> \<Longrightarrow> lower_ok (i_lower i) (i_lower_open i) x"
  by (simp add: justified_def)

lemma justified_upper: "\<lbrakk>justified H i x; deps_hold H (i_upper_dep i)\<rbrakk> \<Longrightarrow> upper_ok (i_upper i) (i_upper_open i) x"
  by (simp add: justified_def)

lemma wf_bounds:
  assumes "wf_interval i"
  shows "i_lower i \<noteq> PlusInfinity" "i_upper i \<noteq> MinusInfinity"
  using assms by (auto simp: wf_interval_def)

lemma not_pos_lower_finite: "\<lbrakk>ext_is_pos l \<or> ext_is_zero l; l \<noteq> PlusInfinity\<rbrakk> \<Longrightarrow> \<exists>v. l = Finite v \<and> 0 \<le> v"
  by (cases l) (auto simp: ext_is_pos_def ext_is_neg_def ext_is_zero_def)

lemma not_neg_upper_finite: "\<lbrakk>ext_is_neg u \<or> ext_is_zero u; u \<noteq> MinusInfinity\<rbrakk> \<Longrightarrow> \<exists>v. u = Finite v \<and> v \<le> 0"
  by (cases u) (auto simp: ext_is_pos_def ext_is_neg_def ext_is_zero_def)

lemma justified_mul_N_N:
  assumes wf: "wf_interval i" "wf_interval j" and nz: "\<not> is_zero_interval i" "\<not> is_zero_interval j"
    and s: "is_N i" "is_N j" and js: "justified H i x" "justified H j y"
  shows "justified H (mul_N_N i j) (x * y)"
proof -
  note D = is_N_D [OF wf(1) nz(1) s(1)] is_N_D [OF wf(2) nz(2) s(2)]
  show ?thesis
    unfolding mul_N_N_def is_N0_def
  proof (rule justified_mk_interval)
    show "ext_mul (i_upper i) (i_upper j) \<noteq> PlusInfinity"
      using not_neg_upper_finite [OF D(2) wf_bounds(2) [OF wf(1)]]
        not_neg_upper_finite [OF D(4) wf_bounds(2) [OF wf(2)]] by auto
    show "ext_mul (i_lower i) (i_lower j) \<noteq> MinusInfinity"
      using D by (intro ext_mul_not_minus)
  next
    assume "deps_hold H (mk_join (i_upper_dep i) (i_upper_dep j))"
    then show "lower_ok (ext_mul (i_upper i) (i_upper j))
      (if (ext_is_zero (i_upper i) \<and> \<not> i_upper_open i) \<or> (ext_is_zero (i_upper j) \<and> \<not> i_upper_open j)
       then False else i_upper_open i \<or> i_upper_open j) (x * y)"
      using js D by (intro product_lower_nn justified_upper) auto
  next
    assume "deps_hold H (join_opt (i_lower_dep i) (i_lower_dep j) (i_upper_dep i) (i_upper_dep j))"
    note d = deps_hold_join_opt [OF this]
    then have "0 \<le> - x \<or> 0 \<le> - y"
      using upper_ok_nonpos [OF justified_upper [OF js(1)] D(2)]
        upper_ok_nonpos [OF justified_upper [OF js(2)] D(4)] by auto
    then show "upper_ok (ext_mul (i_lower i) (i_lower j)) (i_lower_open i \<or> i_lower_open j) (x * y)"
      using js D d by (intro product_upper_nn justified_lower) auto
  qed
qed


lemma justified_mul_N_M:
  assumes wf: "wf_interval i" "wf_interval j" and nz: "\<not> is_zero_interval i" "\<not> is_zero_interval j"
    and i_N: "is_N i" and j_M: "is_M j"
    and js: "justified H i x" "justified H j y"
  shows "justified H (mul_N_M i j) (x * y)"
proof -
  note D = is_N_D [OF wf(1) nz(1) i_N] is_M_D [OF j_M]
  note sign = upper_ok_nonpos [OF justified_upper [OF js(1)]] upper_ok_nonpos [OF justified_upper [OF js(2)]]
    lower_ok_nonneg [OF justified_lower [OF js(1)]] lower_ok_nonneg [OF justified_lower [OF js(2)]]
  show ?thesis
    unfolding mul_N_M_def is_N0_def is_P0_def
  proof (rule justified_mk_interval, goal_cases)
    case 1
    show ?case using D by (intro ext_mul_not_plus)
  next
    case 2
    show ?case using D by (intro ext_mul_not_minus)
  next
    case 3
    then have d: "deps_hold H (i_lower_dep i)" "deps_hold H (i_upper_dep j)" "deps_hold H (i_upper_dep i)"
      by auto
    then have "0 \<le> - x \<or> 0 \<le> y"
      using sign D by auto
    then show ?case
      using js D d by (intro product_upper_np justified_lower justified_upper) auto
  next
    case 4
    then have d: "deps_hold H (i_lower_dep i)" "deps_hold H (i_lower_dep j)" "deps_hold H (i_upper_dep i)"
      by auto
    then have "0 \<le> - x \<or> 0 \<le> - y"
      using sign D by auto
    then show ?case
      using js D d by (intro product_upper_nn justified_lower) auto
  qed
qed

lemma justified_mul_N_P:
  assumes wf: "wf_interval i" "wf_interval j" and nz: "\<not> is_zero_interval i" "\<not> is_zero_interval j"
    and i_N: "is_N i" and j_P: "\<not> is_N j" "\<not> is_M j"
    and js: "justified H i x" "justified H j y"
  shows "justified H (mul_N_P i j) (x * y)"
proof -
  note D = is_N_D [OF wf(1) nz(1) i_N] is_P_D [OF wf(2) nz(2) j_P]
  note sign = upper_ok_nonpos [OF justified_upper [OF js(1)]] upper_ok_nonpos [OF justified_upper [OF js(2)]]
    lower_ok_nonneg [OF justified_lower [OF js(1)]] lower_ok_nonneg [OF justified_lower [OF js(2)]]
  show ?thesis
    unfolding mul_N_P_def is_N0_def is_P0_def
  proof (rule justified_mk_interval, goal_cases)
    case 1
    show ?case using D by (intro ext_mul_not_plus)
  next
    case 2
    show ?case using not_neg_upper_finite [OF D(2) wf_bounds(2) [OF wf(1)]]
        not_pos_lower_finite [OF D(4) wf_bounds(1) [OF wf(2)]] by auto
  next
    case 3
    note d = deps_hold_join_opt [OF 3]
    then have "0 \<le> - x \<or> 0 \<le> y"
      using sign D by auto
    then show ?case
      using js D d by (intro product_upper_np justified_lower justified_upper) auto
  next
    case 4
    then show ?case
      using js D by (intro product_lower_np justified_lower justified_upper) auto
  qed
qed

lemma justified_mul_M_N:
  assumes wf: "wf_interval i" "wf_interval j" and nz: "\<not> is_zero_interval i" "\<not> is_zero_interval j"
    and i_M: "is_M i" and j_N: "is_N j"
    and js: "justified H i x" "justified H j y"
  shows "justified H (mul_M_N i j) (x * y)"
proof -
  note D = is_M_D [OF i_M] is_N_D [OF wf(2) nz(2) j_N]
  note sign = upper_ok_nonpos [OF justified_upper [OF js(1)]] upper_ok_nonpos [OF justified_upper [OF js(2)]]
    lower_ok_nonneg [OF justified_lower [OF js(1)]] lower_ok_nonneg [OF justified_lower [OF js(2)]]
  show ?thesis
    unfolding mul_M_N_def is_N0_def is_P0_def
  proof (rule justified_mk_interval, goal_cases)
    case 1
    show ?case using D by (intro ext_mul_not_plus)
  next
    case 2
    show ?case using D by (intro ext_mul_not_minus)
  next
    case 3
    then have d: "deps_hold H (i_upper_dep i)" "deps_hold H (i_lower_dep j)" "deps_hold H (i_upper_dep j)"
      by auto
    then have "0 \<le> x \<or> 0 \<le> - y"
      using sign D by auto
    then show ?case
      using js D d by (intro product_upper_pn justified_lower justified_upper) auto
  next
    case 4
    then have d: "deps_hold H (i_lower_dep i)" "deps_hold H (i_lower_dep j)" "deps_hold H (i_upper_dep j)"
      by auto
    then have "0 \<le> - x \<or> 0 \<le> - y"
      using sign D by auto
    then show ?case
      using js D d by (intro product_upper_nn justified_lower) auto
  qed
qed

lemma justified_mul_M_P:
  assumes wf: "wf_interval i" "wf_interval j" and nz: "\<not> is_zero_interval i" "\<not> is_zero_interval j"
    and i_M: "is_M i" and j_P: "\<not> is_N j" "\<not> is_M j"
    and js: "justified H i x" "justified H j y"
  shows "justified H (mul_M_P i j) (x * y)"
proof -
  note D = is_M_D [OF i_M] is_P_D [OF wf(2) nz(2) j_P]
  note sign = upper_ok_nonpos [OF justified_upper [OF js(1)]] upper_ok_nonpos [OF justified_upper [OF js(2)]]
    lower_ok_nonneg [OF justified_lower [OF js(1)]] lower_ok_nonneg [OF justified_lower [OF js(2)]]
  show ?thesis
    unfolding mul_M_P_def is_N0_def is_P0_def
  proof (rule justified_mk_interval, goal_cases)
    case 1
    show ?case using D by (intro ext_mul_not_plus)
  next
    case 2
    show ?case using D by (intro ext_mul_not_minus)
  next
    case 3
    then have d: "deps_hold H (i_lower_dep i)" "deps_hold H (i_upper_dep j)" "deps_hold H (i_lower_dep j)"
      by auto
    then have "0 \<le> - x \<or> 0 \<le> y"
      using sign D by auto
    then show ?case
      using js D d by (intro product_upper_np justified_lower justified_upper) auto
  next
    case 4
    then have d: "deps_hold H (i_upper_dep i)" "deps_hold H (i_upper_dep j)" "deps_hold H (i_lower_dep j)"
      by auto
    then have "0 \<le> x \<or> 0 \<le> y"
      using sign D by auto
    then show ?case
      using js D d by (intro product_upper justified_upper) auto
  qed
qed

lemma justified_mul_P_N:
  assumes wf: "wf_interval i" "wf_interval j" and nz: "\<not> is_zero_interval i" "\<not> is_zero_interval j"
    and i_P: "\<not> is_N i" "\<not> is_M i" and j_N: "is_N j"
    and js: "justified H i x" "justified H j y"
  shows "justified H (mul_P_N i j) (x * y)"
proof -
  note D = is_P_D [OF wf(1) nz(1) i_P] is_N_D [OF wf(2) nz(2) j_N]
  note sign = upper_ok_nonpos [OF justified_upper [OF js(1)]] upper_ok_nonpos [OF justified_upper [OF js(2)]]
    lower_ok_nonneg [OF justified_lower [OF js(1)]] lower_ok_nonneg [OF justified_lower [OF js(2)]]
  show ?thesis
    unfolding mul_P_N_def is_N0_def is_P0_def
  proof (rule justified_mk_interval, goal_cases)
    case 1
    show ?case using D by (intro ext_mul_not_plus)
  next
    case 2
    show ?case using not_pos_lower_finite [OF D(2) wf_bounds(1) [OF wf(1)]]
        not_neg_upper_finite [OF D(4) wf_bounds(2) [OF wf(2)]] by auto
  next
    case 3
    note d = deps_hold_join_opt [OF 3]
    then have "0 \<le> x \<or> 0 \<le> - y"
      using sign D by auto
    then show ?case
      using js D d by (intro product_upper_pn justified_lower justified_upper) auto
  next
    case 4
    then show ?case
      using js D by (intro product_lower_pn justified_lower justified_upper) auto
  qed
qed

lemma justified_mul_P_M:
  assumes wf: "wf_interval i" "wf_interval j" and nz: "\<not> is_zero_interval i" "\<not> is_zero_interval j"
    and i_P: "\<not> is_N i" "\<not> is_M i" and j_M: "is_M j"
    and js: "justified H i x" "justified H j y"
  shows "justified H (mul_P_M i j) (x * y)"
proof -
  note D = is_P_D [OF wf(1) nz(1) i_P] is_M_D [OF j_M]
  note sign = upper_ok_nonpos [OF justified_upper [OF js(1)]] upper_ok_nonpos [OF justified_upper [OF js(2)]]
    lower_ok_nonneg [OF justified_lower [OF js(1)]] lower_ok_nonneg [OF justified_lower [OF js(2)]]
  show ?thesis
    unfolding mul_P_M_def is_N0_def is_P0_def
  proof (rule justified_mk_interval, goal_cases)
    case 1
    show ?case using D by (intro ext_mul_not_plus)
  next
    case 2
    show ?case using D by (intro ext_mul_not_minus)
  next
    case 3
    then have d: "deps_hold H (i_upper_dep i)" "deps_hold H (i_lower_dep j)" "deps_hold H (i_lower_dep i)"
      by auto
    then have "0 \<le> x \<or> 0 \<le> - y"
      using sign D by auto
    then show ?case
      using js D d by (intro product_upper_pn justified_lower justified_upper) auto
  next
    case 4
    then have d: "deps_hold H (i_upper_dep i)" "deps_hold H (i_upper_dep j)" "deps_hold H (i_lower_dep i)"
      by auto
    then have "0 \<le> x \<or> 0 \<le> y"
      using sign D by auto
    then show ?case
      using js D d by (intro product_upper justified_upper) auto
  qed
qed

lemma justified_mul_P_P:
  assumes wf: "wf_interval i" "wf_interval j" and nz: "\<not> is_zero_interval i" "\<not> is_zero_interval j"
    and i_P: "\<not> is_N i" "\<not> is_M i" and j_P: "\<not> is_N j" "\<not> is_M j"
    and js: "justified H i x" "justified H j y"
  shows "justified H (mul_P_P i j) (x * y)"
proof -
  note D = is_P_D [OF wf(1) nz(1) i_P] is_P_D [OF wf(2) nz(2) j_P]
  note sign = upper_ok_nonpos [OF justified_upper [OF js(1)]] upper_ok_nonpos [OF justified_upper [OF js(2)]]
    lower_ok_nonneg [OF justified_lower [OF js(1)]] lower_ok_nonneg [OF justified_lower [OF js(2)]]
  show ?thesis
    unfolding mul_P_P_def is_N0_def is_P0_def
  proof (rule justified_mk_interval, goal_cases)
    case 1
    show ?case using not_pos_lower_finite [OF D(2) wf_bounds(1) [OF wf(1)]]
        not_pos_lower_finite [OF D(4) wf_bounds(1) [OF wf(2)]] by auto
  next
    case 2
    show ?case using D by (intro ext_mul_not_minus)
  next
    case 3
    then show ?case
      using js D by (intro product_lower justified_lower) auto
  next
    case 4
    note d = deps_hold_join_opt [OF 4]
    then have "0 \<le> x \<or> 0 \<le> y"
      using sign D by auto
    then show ?case
      using js D d by (intro product_upper justified_upper) auto
  qed
qed


text \<open>The product of two mixed intervals takes the weaker of two corners on each side.\<close>

lemma weaker_lower:
  assumes "lower_ok a ao z \<or> lower_ok b bo z"
  shows "lower_ok (fst (if ext_lt a b \<or> ext_eq a b \<and> \<not> ao \<and> bo then (a, ao) else (b, bo)))
    (snd (if ext_lt a b \<or> ext_eq a b \<and> \<not> ao \<and> bo then (a, ao) else (b, bo))) z"
  using assms by (cases a; cases b) (auto simp: ext_lt_def split: if_splits)

lemma weaker_upper:
  assumes "upper_ok a ao z \<or> upper_ok b bo z"
  shows "upper_ok (fst (if ext_lt b a \<or> ext_eq a b \<and> \<not> ao \<and> bo then (a, ao) else (b, bo)))
    (snd (if ext_lt b a \<or> ext_eq a b \<and> \<not> ao \<and> bo then (a, ao) else (b, bo))) z"
  using assms by (cases a; cases b) (auto simp: ext_lt_def split: if_splits)

lemma justified_mul_M_M:
  assumes i_M: "is_M i" and j_M: "is_M j" and js: "justified H i x" "justified H j y"
  shows "justified H (mul_M_M i j) (x * y)"
proof -
  note D = is_M_D [OF i_M] is_M_D [OF j_M]
  let ?a = "i_lower i" and ?b = "i_upper i" and ?c = "i_lower j" and ?d = "i_upper j"
  let ?ao = "i_lower_open i" and ?bo = "i_upper_open i" and ?co = "i_lower_open j" and ?do = "i_upper_open j"
  have l: "lower_ok (ext_mul ?a ?d) (?ao \<or> ?do) (x * y) \<or> lower_ok (ext_mul ?b ?c) (?bo \<or> ?co) (x * y)"
    if d: "deps_hold H (join4 (i_lower_dep i) (i_upper_dep i) (i_lower_dep j) (i_upper_dep j))"
  proof (cases "0 \<le> x")
    case True
    then show ?thesis
      by (intro product_upper_pn [THEN disjI2]) (use js D d in \<open>auto intro: justified_lower justified_upper\<close>)
  next
    case False
    then show ?thesis
      by (intro product_upper_np [THEN disjI1]) (use js D d in \<open>auto intro: justified_lower justified_upper\<close>)
  qed
  have u: "upper_ok (ext_mul ?a ?c) (?ao \<or> ?co) (x * y) \<or> upper_ok (ext_mul ?b ?d) (?bo \<or> ?do) (x * y)"
    if d: "deps_hold H (join4 (i_lower_dep i) (i_upper_dep i) (i_lower_dep j) (i_upper_dep j))"
  proof (cases "0 \<le> x")
    case True
    then show ?thesis
      by (intro product_upper [THEN disjI2]) (use js D d in \<open>auto intro: justified_lower justified_upper\<close>)
  next
    case False
    then show ?thesis
      by (intro product_upper_nn [THEN disjI1]) (use js D d in \<open>auto intro: justified_lower justified_upper\<close>)
  qed
  show ?thesis
    unfolding mul_M_M_def Let_def case_prod_unfold
  proof (rule justified_mk_interval, goal_cases)
    case 1
    show ?case using D by (auto simp: ext_mul_not_plus)
  next
    case 2
    show ?case using D by (auto simp: ext_mul_not_minus)
  next
    case 3
    then show ?case using weaker_lower [OF l] by blast
  next
    case 4
    then show ?case using weaker_upper [OF u] by blast
  qed
qed

lemma justified_mul_zero_right:
  assumes z: "is_zero_interval j" and j: "justified H j y"
  shows "justified H (let dep = mk_join (i_lower_dep j) (i_upper_dep j)
    in j\<lparr>i_lower_dep := dep, i_upper_dep := dep\<rparr>) (x * y)"
proof -
  have "y = 0 \<and> \<not> i_lower_open j \<and> \<not> i_upper_open j"
    if "deps_hold H (i_lower_dep j)" "deps_hold H (i_upper_dep j)"
    using justified_lower [OF j that(1)] justified_upper [OF j that(2)] z
    by (auto simp: is_zero_interval_def ext_is_zero_def split: if_splits)
  then show ?thesis
    using z by (auto simp: justified_def Let_def is_zero_interval_def ext_is_zero_def)
qed

lemma justified_mul:
  assumes "wf_interval i" "wf_interval j" "\<not> is_zero_interval i" "justified H i x" "justified H j y"
  shows "justified H (interval_mul i j) (x * y)"
proof (cases "is_zero_interval j")
  case True
  then show ?thesis
    using justified_mul_zero_right [OF True assms(5)] assms(3) by (simp add: interval_mul_def)
next
  case False
  then show ?thesis
    using assms unfolding interval_mul_def
    by (auto intro: justified_mul_N_N justified_mul_N_M justified_mul_N_P justified_mul_M_N
        justified_mul_M_M justified_mul_M_P justified_mul_P_N justified_mul_P_M justified_mul_P_P)
qed

section \<open>Addition, negation, subtraction\<close>

lemma lower_ok_add:
  "\<lbrakk>lower_ok a ao x; lower_ok b bo y; a \<noteq> PlusInfinity; b \<noteq> PlusInfinity\<rbrakk>
     \<Longrightarrow> lower_ok (ext_add a b) (ao \<or> bo) (x + y)"
  by (cases a; cases b) (auto split: if_splits)

lemma upper_ok_add:
  "\<lbrakk>upper_ok a ao x; upper_ok b bo y; a \<noteq> MinusInfinity; b \<noteq> MinusInfinity\<rbrakk>
     \<Longrightarrow> upper_ok (ext_add a b) (ao \<or> bo) (x + y)"
  by (cases a; cases b) (auto split: if_splits)

lemma interval_add_mk:
  "interval_add i j = mk_interval (ext_add (i_lower i) (i_lower j)) (i_lower_open i \<or> i_lower_open j)
     (mk_join (i_lower_dep i) (i_lower_dep j)) (ext_add (i_upper i) (i_upper j))
     (i_upper_open i \<or> i_upper_open j) (mk_join (i_upper_dep i) (i_upper_dep j))"
  by (simp add: interval_add_def mk_interval_def)

lemma ext_add_not_infinity:
  "\<lbrakk>a \<noteq> PlusInfinity; b \<noteq> PlusInfinity\<rbrakk> \<Longrightarrow> ext_add a b \<noteq> PlusInfinity"
  "\<lbrakk>a \<noteq> MinusInfinity; b \<noteq> MinusInfinity\<rbrakk> \<Longrightarrow> ext_add a b \<noteq> MinusInfinity"
  by (cases a; cases b; simp)+

lemma justified_add:
  assumes wf: "wf_interval i" "wf_interval j" and js: "justified H i x" "justified H j y"
  shows "justified H (interval_add i j) (x + y)"
  unfolding interval_add_mk using wf js
  by (intro justified_mk_interval lower_ok_add upper_ok_add ext_add_not_infinity)
    (auto dest: wf_bounds simp: justified_lower justified_upper)

lemma justified_neg:
  assumes "justified H i x"
  shows "justified H (interval_neg i) (- x)"
  using assms by (auto simp: justified_def interval_neg_def lower_ok_neg upper_ok_neg)

lemma wf_neg:
  assumes "wf_interval i"
  shows "wf_interval (interval_neg i)"
  using assms by (cases "i_lower i"; cases "i_upper i")
    (auto simp: wf_interval_def interval_neg_def less_eq_ext_numeral_def ext_lt_def)

lemma wf_add:
  assumes "wf_interval i" "wf_interval j"
  shows "wf_interval (interval_add i j)"
  using assms by (cases "i_lower i"; cases "i_upper i"; cases "i_lower j"; cases "i_upper j")
    (auto simp: wf_interval_def interval_add_def less_eq_ext_numeral_def ext_lt_def)

lemma justified_sub:
  assumes "wf_interval i" "wf_interval j" "justified H i x" "justified H j y"
  shows "justified H (interval_sub i j) (x - y)"
  using justified_add [OF assms(1) wf_neg [OF assms(2)] assms(3) justified_neg [OF assms(4)]]
  by (simp add: interval_sub_def)

end
