(* ===== verification/OldIntervalOps.thy ===== *)
theory OldIntervalOps
  imports OldIntervalSound
begin

text \<open>Well-formedness of the product: every corner on the left is below every corner on the right.\<close>

lemma wf_mk_intervalI:
  assumes "l \<noteq> PlusInfinity" "u \<noteq> MinusInfinity" "l \<le> u"
    and "l = MinusInfinity \<Longrightarrow> lo" "u = PlusInfinity \<Longrightarrow> uo"
  shows "wf_interval (mk_interval l lo ld u uo ud)"
  using assms by (simp add: wf_interval_def mk_interval_def)

lemmas ext_signs = ext_is_pos_def ext_is_neg_def ext_is_zero_def
lemmas ext_order = less_eq_ext_numeral_def less_ext_numeral_def ext_lt_def

definition neg_corner :: "ext_numeral \<Rightarrow> ext_numeral \<Rightarrow> bool" where
  "neg_corner a b \<longleftrightarrow> ext_is_neg a \<and> ext_is_pos b \<or> ext_is_pos a \<and> ext_is_neg b"

definition pos_corner :: "ext_numeral \<Rightarrow> ext_numeral \<Rightarrow> bool" where
  "pos_corner a b \<longleftrightarrow> ext_is_neg a \<and> ext_is_neg b \<or> ext_is_pos a \<and> ext_is_pos b"

lemma neg_corner_le: "neg_corner a b \<Longrightarrow> ext_mul a b \<le> Finite 0"
  by (cases a; cases b)
    (auto simp: neg_corner_def ext_mul_def ext_signs ext_order mult_nonneg_nonpos mult_nonneg_nonpos2
      not_less not_le)

lemma pos_corner_le: "pos_corner a b \<Longrightarrow> Finite 0 \<le> ext_mul a b"
  by (cases a; cases b)
    (auto simp: pos_corner_def ext_mul_def ext_signs ext_order not_less intro: mult_nonpos_nonpos)

lemma corner_le: "\<lbrakk>neg_corner a b; pos_corner c d\<rbrakk> \<Longrightarrow> ext_mul a b \<le> ext_mul c d"
  using neg_corner_le pos_corner_le order_trans by blast

lemma ext_mul_infinite:
  "ext_mul a b = MinusInfinity \<Longrightarrow> ext_is_infinite a \<or> ext_is_infinite b"
  "ext_mul a b = PlusInfinity \<Longrightarrow> ext_is_infinite a \<or> ext_is_infinite b"
  by (cases a; cases b; simp)+

text \<open>Infinite bounds are open.\<close>

lemma wf_open:
  assumes "wf_interval i"
  shows "ext_is_infinite (i_lower i) \<Longrightarrow> i_lower_open i" "ext_is_infinite (i_upper i) \<Longrightarrow> i_upper_open i"
  using assms by (cases "i_lower i"; cases "i_upper i"; auto simp: wf_interval_def)+

lemma ext_mul_mono:
  assumes "a = Finite a'" "c = Finite c'" "0 \<le> a'" "0 \<le> c'" "a \<le> b" "c \<le> d" "ext_is_pos b" "ext_is_pos d"
  shows "ext_mul a c \<le> ext_mul b d"
proof (cases "b = PlusInfinity \<or> d = PlusInfinity")
  case True
  then have "ext_mul b d = PlusInfinity"
    using assms(7,8) by (auto simp: ext_mul_def ext_signs)
  then show ?thesis by (cases "ext_mul a c") (auto simp: ext_order)
next
  case False
  then obtain b' d' where "b = Finite b'" "d = Finite d'"
    using assms by (cases b; cases d) (auto simp: ext_signs)
  then show ?thesis
    using assms by (auto simp: ext_order not_less intro: mult_mono)
qed

lemma ext_neg_le [simp]: "ext_neg a \<le> ext_neg b \<longleftrightarrow> b \<le> a"
  by (cases a; cases b) (auto simp: ext_order)

lemma wf_le: "wf_interval i \<Longrightarrow> i_lower i \<le> i_upper i"
  by (simp add: wf_interval_def)

lemma finite_of_sign:
  "\<lbrakk>wf_interval i; ext_is_neg (i_upper i) \<or> ext_is_zero (i_upper i)\<rbrakk>
     \<Longrightarrow> \<exists>v. ext_neg (i_upper i) = Finite v \<and> 0 \<le> v"
  "\<lbrakk>wf_interval i; ext_is_pos (i_lower i) \<or> ext_is_zero (i_lower i)\<rbrakk>
     \<Longrightarrow> \<exists>v. i_lower i = Finite v \<and> 0 \<le> v"
  using not_neg_upper_finite [of "i_upper i"] not_pos_lower_finite [of "i_lower i"] wf_bounds [of i]
  by fastforce+

lemma ext_mul_infinite_open:
  assumes "ext_mul a b = MinusInfinity \<or> ext_mul a b = PlusInfinity"
    and "ext_is_infinite a \<Longrightarrow> ao" "ext_is_infinite b \<Longrightarrow> bo"
  shows "ao \<or> bo"
  using assms ext_mul_infinite by blast

lemma wf_mul_N_N:
  assumes wf: "wf_interval i" "wf_interval j" and nz: "\<not> is_zero_interval i" "\<not> is_zero_interval j"
    and N: "is_N i" "is_N j"
  shows "wf_interval (mul_N_N i j)"
proof -
  note D = is_N_D [OF wf(1) nz(1) N(1)] is_N_D [OF wf(2) nz(2) N(2)]
  obtain v w where v: "ext_neg (i_upper i) = Finite v" "0 \<le> v" and w: "ext_neg (i_upper j) = Finite w" "0 \<le> w"
    using finite_of_sign(1) [OF wf(1) D(2)] finite_of_sign(1) [OF wf(2) D(4)] by blast
  have "ext_mul (ext_neg (i_upper i)) (ext_neg (i_upper j)) \<le> ext_mul (ext_neg (i_lower i)) (ext_neg (i_lower j))"
    by (rule ext_mul_mono [OF v(1) w(1) v(2) w(2)]) (use D wf_le [OF wf(1)] wf_le [OF wf(2)] in \<open>auto simp: reflect\<close>)
  then have le: "ext_mul (i_upper i) (i_upper j) \<le> ext_mul (i_lower i) (i_lower j)"
    by (simp add: reflect)
  have f: "ext_mul (i_upper i) (i_upper j) = Finite (v * w)"
    using arg_cong [OF v(1), of ext_neg] arg_cong [OF w(1), of ext_neg] by simp
  show ?thesis
    unfolding mul_N_N_def
    by (rule wf_mk_intervalI)
      (use le f D in \<open>auto simp: ext_mul_not_minus dest!: ext_mul_infinite dest: wf_open [OF wf(1)] wf_open [OF wf(2)]\<close>)
qed

lemma wf_mul_P_P:
  assumes wf: "wf_interval i" "wf_interval j" and nz: "\<not> is_zero_interval i" "\<not> is_zero_interval j"
    and P: "\<not> is_N i" "\<not> is_M i" "\<not> is_N j" "\<not> is_M j"
  shows "wf_interval (mul_P_P i j)"
proof -
  note D = is_P_D [OF wf(1) nz(1) P(1,2)] is_P_D [OF wf(2) nz(2) P(3,4)]
  obtain v w where v: "i_lower i = Finite v" "0 \<le> v" and w: "i_lower j = Finite w" "0 \<le> w"
    using finite_of_sign(2) [OF wf(1) D(2)] finite_of_sign(2) [OF wf(2) D(4)] by blast
  have le: "ext_mul (i_lower i) (i_lower j) \<le> ext_mul (i_upper i) (i_upper j)"
    by (rule ext_mul_mono [OF v(1) w(1) v(2) w(2)]) (use D wf_le [OF wf(1)] wf_le [OF wf(2)] in auto)
  have f: "ext_mul (i_lower i) (i_lower j) = Finite (v * w)"
    by (simp add: v w)
  show ?thesis
    unfolding mul_P_P_def
    by (rule wf_mk_intervalI)
      (use le f D in \<open>auto simp: ext_mul_not_minus dest!: ext_mul_infinite dest: wf_open [OF wf(1)] wf_open [OF wf(2)]\<close>)
qed

lemma wf_mul_N_P:
  assumes wf: "wf_interval i" "wf_interval j" and nz: "\<not> is_zero_interval i" "\<not> is_zero_interval j"
    and s: "is_N i" "\<not> is_N j" "\<not> is_M j"
  shows "wf_interval (mul_N_P i j)"
proof -
  note D = is_N_D [OF wf(1) nz(1) s(1)] is_P_D [OF wf(2) nz(2) s(2,3)]
  obtain v w where v: "ext_neg (i_upper i) = Finite v" "0 \<le> v" and w: "i_lower j = Finite w" "0 \<le> w"
    using finite_of_sign(1) [OF wf(1) D(2)] finite_of_sign(2) [OF wf(2) D(4)] by blast
  have "ext_mul (ext_neg (i_upper i)) (i_lower j) \<le> ext_mul (ext_neg (i_lower i)) (i_upper j)"
    by (rule ext_mul_mono [OF v(1) w(1) v(2) w(2)]) (use D wf_le [OF wf(1)] wf_le [OF wf(2)] in \<open>auto simp: reflect\<close>)
  then have le: "ext_mul (i_lower i) (i_upper j) \<le> ext_mul (i_upper i) (i_lower j)"
    by (simp add: reflect)
  have f: "ext_mul (i_upper i) (i_lower j) = Finite (- v * w)"
    using arg_cong [OF v(1), of ext_neg] w(1) by simp
  show ?thesis
    unfolding mul_N_P_def
    by (rule wf_mk_intervalI)
      (use le f D in \<open>auto simp: ext_mul_not_plus dest!: ext_mul_infinite dest: wf_open [OF wf(1)] wf_open [OF wf(2)]\<close>)
qed

lemma wf_mul_P_N:
  assumes wf: "wf_interval i" "wf_interval j" and nz: "\<not> is_zero_interval i" "\<not> is_zero_interval j"
    and s: "\<not> is_N i" "\<not> is_M i" "is_N j"
  shows "wf_interval (mul_P_N i j)"
proof -
  have "wf_interval (mul_N_P j i)"
    by (rule wf_mul_N_P [OF wf(2,1) nz(2,1) s(3,1,2)])
  then show ?thesis
    by (auto simp: mul_N_P_def mul_P_N_def wf_interval_def mk_interval_def ext_mul_commute)
qed

lemma wf_corners:
  assumes c: "neg_corner a b" "pos_corner c d"
    and o: "ext_is_infinite a \<Longrightarrow> ao" "ext_is_infinite b \<Longrightarrow> bo"
      "ext_is_infinite c \<Longrightarrow> co" "ext_is_infinite d \<Longrightarrow> do"
  shows "wf_interval (mk_interval (ext_mul a b) (ao \<or> bo) ld (ext_mul c d) (co \<or> do) ud)"
proof (rule wf_mk_intervalI)
  show "ext_mul a b \<noteq> PlusInfinity" "ext_mul c d \<noteq> MinusInfinity"
    using c by (auto simp: neg_corner_def pos_corner_def ext_mul_not_plus ext_mul_not_minus)
  show "ext_mul a b \<le> ext_mul c d"
    by (rule corner_le [OF c])
  show "ao \<or> bo" if "ext_mul a b = MinusInfinity"
    using ext_mul_infinite(1) [OF that] o by blast
  show "co \<or> do" if "ext_mul c d = PlusInfinity"
    using ext_mul_infinite(2) [OF that] o by blast
qed

lemma wf_mul_signs:
  assumes wf: "wf_interval i" "wf_interval j"
  shows "\<lbrakk>ext_is_neg (i_lower i); is_M j\<rbrakk> \<Longrightarrow> wf_interval (mul_N_M i j)"
    and "\<lbrakk>is_M i; ext_is_neg (i_lower j)\<rbrakk> \<Longrightarrow> wf_interval (mul_M_N i j)"
    and "\<lbrakk>is_M i; ext_is_pos (i_upper j)\<rbrakk> \<Longrightarrow> wf_interval (mul_M_P i j)"
    and "\<lbrakk>ext_is_pos (i_upper i); is_M j\<rbrakk> \<Longrightarrow> wf_interval (mul_P_M i j)"
  unfolding mul_N_M_def mul_M_N_def mul_M_P_def mul_P_M_def
  by (rule wf_corners;
      simp add: neg_corner_def pos_corner_def is_M_def wf_open [OF wf(1)] wf_open [OF wf(2)])+

lemma wf_mul_M_M:
  assumes wf: "wf_interval i" "wf_interval j" and M: "is_M i" "is_M j"
  shows "wf_interval (mul_M_M i j)"
proof -
  let ?a = "i_lower i" and ?b = "i_upper i" and ?c = "i_lower j" and ?d = "i_upper j"
  let ?ao = "i_lower_open i" and ?bo = "i_upper_open i" and ?co = "i_lower_open j" and ?do = "i_upper_open j"
  have "wf_interval (mk_interval (fst (if P then (ext_mul ?a ?d, ?ao \<or> ?do) else (ext_mul ?b ?c, ?bo \<or> ?co)))
      (snd (if P then (ext_mul ?a ?d, ?ao \<or> ?do) else (ext_mul ?b ?c, ?bo \<or> ?co))) dep
      (fst (if Q then (ext_mul ?a ?c, ?ao \<or> ?co) else (ext_mul ?b ?d, ?bo \<or> ?do)))
      (snd (if Q then (ext_mul ?a ?c, ?ao \<or> ?co) else (ext_mul ?b ?d, ?bo \<or> ?do))) dep)" for P Q dep
    by (cases P; cases Q; simp only: if_True if_False fst_conv snd_conv; rule wf_corners;
        use is_M_D [OF M(1)] is_M_D [OF M(2)] in
          \<open>simp add: neg_corner_def pos_corner_def wf_open [OF wf(1)] wf_open [OF wf(2)]\<close>)
  then show ?thesis
    unfolding mul_M_M_def Let_def case_prod_unfold .
qed

lemma wf_mul:
  assumes "wf_interval i" "wf_interval j"
  shows "wf_interval (interval_mul i j)"
proof -
  have z: "wf_interval (let dep = mk_join (i_lower_dep j) (i_upper_dep j)
      in j\<lparr>i_lower_dep := dep, i_upper_dep := dep\<rparr>)"
    using assms(2) by (simp add: wf_interval_def Let_def)
  show ?thesis
    using assms z is_N_D(1) [OF assms(1)] is_N_D(1) [OF assms(2)] is_P_D(1) [OF assms(1)] is_P_D(1) [OF assms(2)]
    unfolding interval_mul_def
    by (auto intro: wf_mul_N_N wf_mul_N_P wf_mul_P_N wf_mul_P_P wf_mul_M_M wf_mul_signs)
qed


section \<open>Inverse and quotient\<close>

lemma contains_zero_iff:
  assumes "wf_interval i"
  shows "contains_zero i \<longleftrightarrow> contains i 0"
  using assms by (cases "i_lower i"; cases "i_upper i")
    (auto simp: contains_zero_def contains_def ext_signs wf_interval_def)

lemma not_contains_zero:
  assumes "wf_interval i" "\<not> contains_zero i"
  shows "is_P1 i \<or> is_N1 i"
  using assms by (cases "i_lower i"; cases "i_upper i")
    (auto simp: contains_zero_def is_P1_def is_N1_def ext_signs wf_interval_def ext_order)

lemma wf_inv:
  assumes "wf_interval i" "\<not> contains_zero i"
  shows "wf_interval (interval_inv i)"
  using assms not_contains_zero [OF assms]
  by (cases "i_lower i"; cases "i_upper i")
    (auto simp: interval_inv_def is_P1_def is_N1_def ext_signs wf_interval_def ext_order ext_of_bool_def
      not_less contains_zero_def intro: le_imp_inverse_le le_imp_inverse_le_neg
      simp flip: inverse_eq_divide)

lemma lower_ok_inv:
  assumes "upper_ok u uo x" "0 < x" "u \<noteq> Finite 0"
  shows "lower_ok (ext_inv u) (if ext_is_infinite u then True else uo) (1 / x)"
  using assms by (cases u) (auto split: if_splits simp: frac_le frac_less2)

lemma justified_inv_P1:
  assumes wf: "wf_interval i" and P: "is_P1 i" and j: "justified H i x"
  shows "justified H (interval_inv i) (1 / x)"
proof -
  have x: "0 < x" if "deps_hold H (i_lower_dep i)"
    using justified_lower [OF j that] P
    by (cases "i_lower i") (auto simp: is_P1_def ext_signs split: if_splits)
  have u: "lower_ok (ext_inv (i_upper i)) (i_upper_open i) (1 / x)"
    if d: "deps_hold H (i_lower_dep i)" "deps_hold H (i_upper_dep i)"
    using x [OF d(1)] justified_upper [OF j d(2)] wf
    by (cases "i_upper i") (auto simp: wf_interval_def frac_le frac_less2 split: if_splits)
  have l: "upper_ok (if ext_is_zero (i_lower i) then ext_of_bool True else ext_inv (i_lower i)) (i_lower_open i) (1 / x)"
    if d: "deps_hold H (i_lower_dep i)"
    using x [OF d] justified_lower [OF j d] wf P
    by (cases "i_lower i")
      (auto simp: ext_of_bool_def ext_signs is_P1_def wf_interval_def frac_le frac_less2 split: if_splits)
  show ?thesis
    using P u l by (simp add: interval_inv_def justified_def)
qed

text \<open>The negative case is the positive one reflected at zero.\<close>

lemma is_P1_neg: "is_P1 (interval_neg i) = is_N1 i"
  by (simp add: is_P1_def is_N1_def interval_neg_def reflect)

lemma ext_inv_neg: "ext_inv (ext_neg a) = ext_neg (ext_inv a)"
  by (cases a) auto

lemma not_P1_and_N1:
  assumes "wf_interval i" "is_P1 i" "is_N1 i" "justified H i x"
  shows "\<not> (deps_hold H (i_lower_dep i) \<and> deps_hold H (i_upper_dep i))"
  using assms by (cases "i_lower i"; cases "i_upper i")
    (auto simp: is_P1_def is_N1_def ext_signs wf_interval_def ext_order justified_def split: if_splits)

lemma justified_inv_N1:
  assumes wf: "wf_interval i" and N: "is_N1 i" "\<not> is_P1 i" and j: "justified H i x"
  shows "justified H (interval_inv i) (1 / x)"
proof -
  have "justified H (interval_inv (interval_neg i)) (1 / (- x))"
    by (rule justified_inv_P1 [OF wf_neg [OF wf] _ justified_neg [OF j]]) (simp add: is_P1_neg N)
  then show ?thesis
    using N is_P1_neg [of i]
    by (auto simp: interval_inv_def justified_def interval_neg_def ext_inv_neg lower_ok_neg upper_ok_neg
        ext_of_bool_def split: if_splits)
qed

lemma justified_inv:
  assumes "wf_interval i" "\<not> contains_zero i" "justified H i x"
  shows "justified H (interval_inv i) (1 / x)"
  using justified_inv_P1 [OF assms(1) _ assms(3)] justified_inv_N1 [OF assms(1) _ _ assms(3)]
    not_contains_zero [OF assms(1,2)] by blast

lemma justified_div:
  assumes "wf_interval i" "wf_interval j" "\<not> contains_zero j" "\<not> is_zero_interval i"
    and "justified H i x" "justified H j y"
  shows "justified H (interval_div i j) (x / y)"
  using justified_mul [OF assms(1) wf_inv [OF assms(2,3)] assms(4,5) justified_inv [OF assms(2,3,6)]] assms(4)
  by (simp add: interval_div_def)

lemma justified_div_zero:
  assumes "wf_interval j" "\<not> contains_zero j" and z: "is_zero_interval i" "\<not> i_lower_open i" "\<not> i_upper_open i"
    and j: "justified H i x" "justified H j y"
  shows "justified H (interval_div i j) (x / y)"
proof (cases "is_P1 j")
  case True
  have "0 < y" if "deps_hold H (i_lower_dep j)"
    using justified_lower [OF j(2) that] True
    by (cases "i_lower j") (auto simp: is_P1_def ext_signs split: if_splits)
  then show ?thesis
    using True z j(1) by (auto simp: interval_div_def is_P1_def justified_def is_zero_interval_def
        ext_is_zero_def divide_nonneg_pos divide_nonpos_pos)
next
  case False
  have "y < 0" if "deps_hold H (i_upper_dep j)"
    using justified_upper [OF j(2) that] False not_contains_zero [OF assms(1,2)]
    by (cases "i_upper j") (auto simp: is_N1_def ext_signs split: if_splits)
  then show ?thesis
    using False z j(1) by (auto simp: interval_div_def is_P1_def justified_def is_zero_interval_def
        ext_is_zero_def divide_nonneg_neg divide_nonpos_neg)
qed

lemma wf_div:
  assumes "wf_interval i" "wf_interval j" "\<not> contains_zero j"
  shows "wf_interval (interval_div i j)"
proof (cases "is_zero_interval i")
  case True
  then show ?thesis using assms(1) by (simp add: interval_div_def wf_interval_def)
next
  case False
  then show ?thesis using wf_mul [OF assms(1) wf_inv [OF assms(2,3)]] by (simp add: interval_div_def)
qed

section \<open>Powers\<close>

lemma power_bounds:
  fixes v x :: rat
  assumes "0 < n"
  shows "\<lbrakk>0 \<le> v; if opn then v < x else v \<le> x\<rbrakk> \<Longrightarrow> if opn then v ^ n < x ^ n else v ^ n \<le> x ^ n"
    and "\<lbrakk>0 \<le> x; if opn then x < v else x \<le> v\<rbrakk> \<Longrightarrow> if opn then x ^ n < v ^ n else x ^ n \<le> v ^ n"
  using assms by (auto intro: power_strict_mono power_mono split: if_splits)

lemma lower_ok_power:
  assumes "0 < n" "0 \<le> l'" "l = Finite l'" "lower_ok l opn x"
  shows "lower_ok (ext_expt l n) opn (x ^ n)"
  using power_bounds(1) [OF assms(1,2), of opn x] assms by auto

lemma upper_ok_power:
  assumes "0 < n" "0 \<le> x" "upper_ok u opn x"
  shows "upper_ok (ext_expt u n) opn (x ^ n)"
  using power_bounds(2) [OF assms(1,2), of opn] assms by (cases u) auto

lemma ext_expt_even_neg: "n mod 2 = 0 \<Longrightarrow> l \<noteq> PlusInfinity \<Longrightarrow> ext_expt (ext_neg l) n = ext_expt l n"
  by (cases l) (auto simp: even_iff_mod_2_eq_zero [symmetric] power_minus_even)

lemma power_even_neg: "n mod 2 = 0 \<Longrightarrow> (- x :: rat) ^ n = x ^ n"
  by (simp add: even_iff_mod_2_eq_zero [symmetric])

lemma power_strict_mono_odd:
  fixes x y :: rat
  assumes "odd n" "x < y"
  shows "x ^ n < y ^ n"
proof -
  have "0 < n" using assms(1) by (cases n) auto
  consider "0 \<le> x" | "y \<le> 0" | "x < 0" "0 < y" by linarith
  then show ?thesis
  proof cases
    case 1
    then show ?thesis using assms(2) \<open>0 < n\<close> by (intro power_strict_mono)
  next
    case 2
    then have "(- y) ^ n < (- x) ^ n" using assms(2) \<open>0 < n\<close> by (intro power_strict_mono) auto
    then show ?thesis using assms(1) by simp
  next
    case 3
    then have "x ^ n < 0" "0 < y ^ n" using assms(1) by (auto simp: power_less_zero_eq)
    then show ?thesis by (rule order.strict_trans)
  qed
qed

lemma expt_odd:
  assumes n: "n mod 2 \<noteq> 0"
  shows "lower_ok l opn x \<Longrightarrow> lower_ok (ext_expt l n) opn (x ^ n)"
    and "upper_ok l opn x \<Longrightarrow> upper_ok (ext_expt l n) opn (x ^ n)"
proof -
  have odd: "odd n" using n by (simp add: even_iff_mod_2_eq_zero)
  show "lower_ok l opn x \<Longrightarrow> lower_ok (ext_expt l n) opn (x ^ n)"
    using n odd by (cases l) (auto intro: power_mono_odd power_strict_mono_odd split: if_splits)
  show "upper_ok l opn x \<Longrightarrow> upper_ok (ext_expt l n) opn (x ^ n)"
    using n odd by (cases l) (auto intro: power_mono_odd power_strict_mono_odd split: if_splits)
qed


lemma justified_expt_odd:
  assumes "n mod 2 \<noteq> 0" "justified H i x"
  shows "justified H (interval_expt i n) (x ^ n)"
  using assms expt_odd [OF assms(1)] by (auto simp: interval_expt_def justified_def)

lemma justified_expt_even_pos:
  assumes n: "0 < n" "n mod 2 = 0" and wf: "wf_interval i" and p: "ext_is_pos (i_lower i)" and j: "justified H i x"
  shows "justified H (interval_expt i n) (x ^ n)"
proof -
  obtain v where v: "i_lower i = Finite v" "0 \<le> v"
    using p wf_bounds(1) [OF wf] not_pos_lower_finite by blast
  have x: "0 \<le> x" if "deps_hold H (i_lower_dep i)"
    using lower_ok_nonneg [OF justified_lower [OF j that]] p by simp
  have u: "upper_ok (ext_expt (i_upper i) n) (i_upper_open i) (x ^ n)"
    if d: "deps_hold H (i_lower_dep i)" "deps_hold H (i_upper_dep i)"
    by (rule upper_ok_power [OF n(1) x [OF d(1)] justified_upper [OF j d(2)]])
  have inf: "ext_expt (i_upper i) n = PlusInfinity" if "ext_is_infinite (ext_expt (i_upper i) n)"
    using that wf_bounds(2) [OF wf] by (cases "i_upper i") auto
  show ?thesis
    using n p u inf lower_ok_power [OF n(1) v(2,1) justified_lower [OF j]]
    by (auto simp: interval_expt_def justified_def Let_def)
qed

lemma justified_expt_even_neg:
  assumes n: "0 < n" "n mod 2 = 0" and wf: "wf_interval i" and p: "ext_is_neg (i_upper i)"
    "\<not> ext_is_pos (i_lower i)" and j: "justified H i x"
  shows "justified H (interval_expt i n) (x ^ n)"
proof -
  have "justified H (interval_expt (interval_neg i) n) ((- x) ^ n)"
    by (rule justified_expt_even_pos [OF n wf_neg [OF wf] _ justified_neg [OF j]])
      (simp add: interval_neg_def reflect p)
  moreover have "ext_expt (ext_neg (i_lower i)) n = ext_expt (i_lower i) n"
    "ext_expt (ext_neg (i_upper i)) n = ext_expt (i_upper i) n"
    using n p wf_bounds(1) [OF wf] by (auto intro!: ext_expt_even_neg simp: ext_is_neg_def)
  ultimately show ?thesis
    using n p power_even_neg [OF n(2), of x]
    by (auto simp: interval_expt_def justified_def interval_neg_def reflect Let_def)
qed

lemma justified_expt_even_mixed:
  assumes n: "0 < n" "n mod 2 = 0" and wf: "wf_interval i"
    and p: "\<not> ext_is_neg (i_upper i)" "\<not> ext_is_pos (i_lower i)" and j: "justified H i x"
  shows "justified H (interval_expt i n) (x ^ n)"
proof -
  have e: "even n" using n by (simp add: even_iff_mod_2_eq_zero)
  have u: "upper_ok (ext_expt (i_lower i) n) (i_lower_open i) (x ^ n) \<or>
      upper_ok (ext_expt (i_upper i) n) (i_upper_open i) (x ^ n)"
    if d: "deps_hold H (i_lower_dep i)" "deps_hold H (i_upper_dep i)"
  proof (cases "0 \<le> x")
    case True
    then show ?thesis
      using upper_ok_power [OF n(1) True justified_upper [OF j d(2)]] by simp
  next
    case False
    have "upper_ok (ext_expt (ext_neg (i_lower i)) n) (i_lower_open i) ((- x) ^ n)"
      by (rule upper_ok_power [OF n(1)]) (use False justified_lower [OF j d(1)] in \<open>auto simp: reflect\<close>)
    then show ?thesis
      using ext_expt_even_neg [OF n(2) wf_bounds(1) [OF wf]] power_even_neg [OF n(2), of x] by simp
  qed
  have inf: "ext_expt (i_upper i) n \<noteq> MinusInfinity" "ext_expt (i_lower i) n \<noteq> MinusInfinity"
    using n(2) wf_bounds [OF wf] by (cases "i_upper i"; cases "i_lower i"; simp)+
  have "interval_expt i n =
      mk_interval (Finite 0) False Null
        (fst (if ext_lt (ext_expt (i_upper i) n) (ext_expt (i_lower i) n) \<or>
            ext_eq (ext_expt (i_lower i) n) (ext_expt (i_upper i) n) \<and> \<not> i_lower_open i \<and> i_upper_open i
          then (ext_expt (i_lower i) n, i_lower_open i) else (ext_expt (i_upper i) n, i_upper_open i)))
        (snd (if ext_lt (ext_expt (i_upper i) n) (ext_expt (i_lower i) n) \<or>
            ext_eq (ext_expt (i_lower i) n) (ext_expt (i_upper i) n) \<and> \<not> i_lower_open i \<and> i_upper_open i
          then (ext_expt (i_lower i) n, i_lower_open i) else (ext_expt (i_upper i) n, i_upper_open i)))
        (mk_join (i_lower_dep i) (i_upper_dep i))"
    using n p by (auto simp: interval_expt_def mk_interval_def Let_def)
  also have "justified H \<dots> (x ^ n)"
    using weaker_upper [OF u] inf e by (intro justified_mk_interval) (auto simp: zero_le_even_power)
  finally show ?thesis .
qed

lemma justified_expt:
  assumes "0 < n" "wf_interval i" "justified H i x"
  shows "justified H (interval_expt i n) (x ^ n)"
  using justified_expt_odd [OF _ assms(3)] justified_expt_even_pos [OF assms(1) _ assms(2) _ assms(3)]
    justified_expt_even_neg [OF assms(1) _ assms(2) _ _ assms(3)]
    justified_expt_even_mixed [OF assms(1) _ assms(2) _ _ assms(3)] by blast


lemma power_even_antimono:
  fixes x y :: rat
  assumes "even n" "x \<le> y" "y < 0"
  shows "y ^ n \<le> x ^ n"
  using power_mono [of "- y" "- x" n] assms by simp

lemma wf_expt:
  assumes n: "0 < n" and wf: "wf_interval i"
  shows "wf_interval (interval_expt i n)"
proof (cases "n mod 2 = 0")
  case False
  have "odd n" using False by (simp add: even_iff_mod_2_eq_zero)
  then show ?thesis
    using wf False by (cases "i_lower i"; cases "i_upper i")
      (auto simp: wf_interval_def interval_expt_def ext_order not_less intro: power_mono_odd)
next
  case True
  then have e: "even n" "n \<noteq> 1" by (auto simp: even_iff_mod_2_eq_zero)
  consider "ext_is_pos (i_lower i)" | "ext_is_neg (i_upper i)" "\<not> ext_is_pos (i_lower i)"
    | "\<not> ext_is_neg (i_upper i)" "\<not> ext_is_pos (i_lower i)" by blast
  then show ?thesis
  proof cases
    case 1
    then show ?thesis
      using wf True e n by (cases "i_lower i"; cases "i_upper i")
        (auto simp: wf_interval_def interval_expt_def ext_order ext_signs not_less Let_def intro: power_mono)
  next
    case 2
    then show ?thesis
      using wf True e n by (cases "i_lower i"; cases "i_upper i")
        (auto simp: wf_interval_def interval_expt_def ext_order ext_signs not_less Let_def
          intro: power_even_antimono)
  next
    case 3
    then show ?thesis
      using wf True e n by (cases "i_lower i"; cases "i_upper i")
        (auto simp: wf_interval_def interval_expt_def ext_order ext_signs not_less Let_def
          intro: zero_le_even_power)
  qed
qed

section \<open>Intervals that are exactly zero\<close>

text \<open>
  The product of an interval \<open>[0, 0]\<close> on the left keeps the two dependencies apart, so it is only
  justified when they are one and the same; an accumulator that starts as a constant keeps that.
\<close>

definition zero_joined :: "'v interval \<Rightarrow> bool" where
  "zero_joined i \<longleftrightarrow> (is_zero_interval i \<longrightarrow> i_lower_dep i = i_upper_dep i)"

lemma justified_mul_zero_left:
  assumes z: "is_zero_interval i" "i_lower_dep i = i_upper_dep i" and j: "justified H i x"
  shows "justified H i (x * y)"
proof -
  have "x = 0" if "deps_hold H (i_lower_dep i)"
    using justified_lower [OF j that] justified_upper [OF j] that z
    by (auto simp: is_zero_interval_def ext_is_zero_def split: if_splits)
  then show ?thesis
    using z j by (auto simp: justified_def)
qed

lemma ext_mul_eq_zero: "ext_is_zero (ext_mul a b) \<longleftrightarrow> ext_is_zero a \<or> ext_is_zero b"
  by (cases a; cases b) (auto simp: ext_mul_def ext_is_zero_def)

lemma ext_pos_neg_not_zero: "ext_is_pos a \<Longrightarrow> \<not> ext_is_zero a" "ext_is_neg a \<Longrightarrow> \<not> ext_is_zero a"
  by (cases a; simp add: ext_signs)+

lemma mul_not_zero:
  assumes "wf_interval i" "wf_interval j" "\<not> is_zero_interval i" "\<not> is_zero_interval j"
  shows "\<not> is_zero_interval (interval_mul i j)"
  using assms(3,4) is_N_D(1) [OF assms(1,3)] is_N_D(1) [OF assms(2,4)] is_P_D(1) [OF assms(1,3)]
    is_P_D(1) [OF assms(2,4)] is_M_D [of i] is_M_D [of j]
  by (auto simp: interval_mul_def mul_N_N_def mul_N_M_def mul_N_P_def mul_M_N_def mul_M_M_def mul_M_P_def
      mul_P_N_def mul_P_M_def mul_P_P_def mk_interval_def is_zero_interval_def ext_mul_eq_zero Let_def
      ext_pos_neg_not_zero split: if_splits)

lemma zero_joined_mul:
  assumes "wf_interval i" "wf_interval j" "zero_joined i"
  shows "zero_joined (interval_mul i j)"
  using mul_not_zero [OF assms(1,2)] assms(3) by (auto simp: zero_joined_def interval_mul_def Let_def)

lemma justified_mul_joined:
  assumes "wf_interval i" "wf_interval j" "zero_joined i" "justified H i x" "justified H j y"
  shows "justified H (interval_mul i j) (x * y)"
proof (cases "is_zero_interval i")
  case True
  then show ?thesis
    using justified_mul_zero_left [OF True _ assms(4), of y] assms(3)
    by (simp add: interval_mul_def zero_joined_def)
next
  case False
  then show ?thesis by (rule justified_mul [OF assms(1,2) _ assms(4,5)])
qed

section \<open>Quotients\<close>

text \<open>
  Every finite bound of a product depends on a bound of its right factor. For a quotient this means
  that a bound whose dependency holds knows the divisor to be different from zero.
\<close>

lemma mul_dep_right:
  assumes "\<not> is_zero_interval i"
  shows "\<lbrakk>\<not> ext_is_infinite (i_lower (interval_mul i j)); deps_hold H (i_lower_dep (interval_mul i j))\<rbrakk>
      \<Longrightarrow> deps_hold H (i_lower_dep j) \<or> deps_hold H (i_upper_dep j)"
    and "\<lbrakk>\<not> ext_is_infinite (i_upper (interval_mul i j)); deps_hold H (i_upper_dep (interval_mul i j))\<rbrakk>
      \<Longrightarrow> deps_hold H (i_lower_dep j) \<or> deps_hold H (i_upper_dep j)"
  using assms
  by (auto simp: interval_mul_def mul_N_N_def mul_N_M_def mul_N_P_def mul_M_N_def mul_M_M_def mul_M_P_def
      mul_P_N_def mul_P_M_def mul_P_P_def mk_interval_def Let_def
      dest!: deps_hold_join_opt split: if_splits)

lemma inv_dep_nonzero:
  assumes wf: "wf_interval j" "\<not> contains_zero j" and j: "justified H j y"
    and d: "deps_hold H (i_lower_dep (interval_inv j)) \<or> deps_hold H (i_upper_dep (interval_inv j))"
  shows "y \<noteq> 0"
proof (cases "is_P1 j")
  case True
  then have "deps_hold H (i_lower_dep j)"
    using d by (auto simp: interval_inv_def)
  from justified_lower [OF j this] True show ?thesis
    by (cases "i_lower j") (auto simp: is_P1_def ext_signs split: if_splits)
next
  case False
  then have N: "is_N1 j"
    using not_contains_zero [OF wf] by simp
  then have "deps_hold H (i_upper_dep j)"
    using d False by (auto simp: interval_inv_def)
  from justified_upper [OF j this] N show ?thesis
    by (cases "i_upper j") (auto simp: is_N1_def ext_signs split: if_splits)
qed

lemma justified_quotient:
  assumes wf: "wf_interval i" "wf_interval j" "\<not> contains_zero j"
    and closed: "is_zero_interval i \<Longrightarrow> \<not> i_lower_open i \<and> \<not> i_upper_open i"
    and js: "justified H i (z * y)" "justified H j y"
  shows "justified H (interval_div i j) z"
proof (cases "y = 0")
  case False
  then show ?thesis
    using justified_div [OF wf _ js] justified_div_zero [OF wf(2,3) _ _ _ js] closed
    by (cases "is_zero_interval i") auto
next
  case True
  note nz = inv_dep_nonzero [OF wf(2,3) js(2)]
  show ?thesis
  proof (cases "is_zero_interval i")
    case False
    note wfd = wf_bounds [OF wf_div [OF wf]]
    have "ext_is_infinite (i_lower (interval_div i j)) \<or> \<not> deps_hold H (i_lower_dep (interval_div i j))"
      "ext_is_infinite (i_upper (interval_div i j)) \<or> \<not> deps_hold H (i_upper_dep (interval_div i j))"
      using mul_dep_right [OF False, of "interval_inv j" H] nz True False
      by (auto simp: interval_div_def)
    then show ?thesis
      using wfd by (cases "i_lower (interval_div i j)"; cases "i_upper (interval_div i j)")
        (auto simp: justified_def)
  next
    case zero: True
    have "\<not> deps_hold H (i_lower_dep j)" if "is_P1 j"
      using justified_lower [OF js(2)] that True
      by (cases "i_lower j") (auto simp: is_P1_def ext_signs split: if_splits)
    moreover have "\<not> deps_hold H (i_upper_dep j)" if "\<not> is_P1 j"
      using justified_upper [OF js(2)] not_contains_zero [OF wf(2,3)] that True
      by (cases "i_upper j") (auto simp: is_N1_def ext_signs split: if_splits)
    ultimately show ?thesis
      using zero by (auto simp: interval_div_def justified_def is_P1_def)
  qed
qed

section \<open>Containment\<close>

lemma contains_justified: "wf_interval i \<Longrightarrow> contains i x \<longleftrightarrow> justified UNIV i x"
  by (simp add: contains_eq justified_def deps_hold_def)

lemma contains_ops:
  assumes wf: "wf_interval i" "wf_interval j" and c: "contains i x" "contains j y"
  shows "contains (interval_add i j) (x + y)"
    and "contains (interval_sub i j) (x - y)"
    and "contains (interval_neg i) (- x)"
    and "contains (interval_mul i j) (x * y)"
    and "\<not> contains_zero j \<Longrightarrow> contains (interval_inv j) (1 / y)"
    and "0 < n \<Longrightarrow> contains (interval_expt i n) (x ^ n)"
proof -
  note j = c(1) [unfolded contains_justified [OF wf(1)]] c(2) [unfolded contains_justified [OF wf(2)]]
  have sub: "wf_interval (interval_sub i j)"
    unfolding interval_sub_def by (rule wf_add [OF wf(1) wf_neg [OF wf(2)]])
  show "contains (interval_add i j) (x + y)"
    by (simp add: contains_justified [OF wf_add [OF wf]] justified_add [OF wf j])
  show "contains (interval_sub i j) (x - y)"
    by (simp add: contains_justified [OF sub] justified_sub [OF wf j])
  show "contains (interval_neg i) (- x)"
    by (simp add: contains_justified [OF wf_neg [OF wf(1)]] justified_neg [OF j(1)])
  have "justified UNIV (interval_mul i j) (x * y)"
  proof (cases "is_zero_interval i")
    case True
    then have "x = 0"
      using j(1) by (auto simp: justified_def deps_hold_def is_zero_interval_def ext_is_zero_def split: if_splits)
    then show ?thesis using True j(1) by (simp add: interval_mul_def)
  next
    case False
    then show ?thesis by (rule justified_mul [OF wf _ j])
  qed
  then show "contains (interval_mul i j) (x * y)"
    by (simp add: contains_justified [OF wf_mul [OF wf]])
  show "contains (interval_inv j) (1 / y)" if "\<not> contains_zero j"
    by (simp add: contains_justified [OF wf_inv [OF wf(2) that]] justified_inv [OF wf(2) that j(2)])
  show "contains (interval_expt i n) (x ^ n)" if "0 < n"
    by (simp add: contains_justified [OF wf_expt [OF that wf(1)]] justified_expt [OF that wf(1) j(1)])
qed

lemma contains_div:
  assumes wf: "wf_interval i" "wf_interval j" "\<not> contains_zero j" and c: "contains i x" "contains j y"
  shows "contains (interval_div i j) (x / y)"
proof -
  note j = c(1) [unfolded contains_justified [OF wf(1)]] c(2) [unfolded contains_justified [OF wf(2)]]
  have "y \<noteq> 0"
    using c(2) wf(3) contains_zero_iff [OF wf(2)] by auto
  have "justified UNIV (interval_div i j) (x / y)"
  proof (rule justified_quotient [OF wf _ _ j(2)])
    show "justified UNIV i (x / y * y)"
      using j(1) \<open>y \<noteq> 0\<close> by simp
    show "\<not> i_lower_open i \<and> \<not> i_upper_open i" if "is_zero_interval i"
      using j(1) that by (auto simp: justified_def deps_hold_def is_zero_interval_def ext_is_zero_def split: if_splits)
  qed
  then show ?thesis
    by (simp add: contains_justified [OF wf_div [OF wf]])
qed

end
