(* ===== verification/NlInterval.thy ===== *)
theory NlInterval
  imports OldIntervalOps
begin

text \<open>
  Non-linear bound propagation of the simplex solver (smt/theory_arith_nl.h): monomials, the
  intervals their variables have, and the bounds derived from products and quotients of intervals.
\<close>

section \<open>Arithmetic domains\<close>

text \<open>
  What the evaluator asks of its domain: an abstract value for constants and for variables, and
  operations that are sound for a relation to the concrete numbers. The left operand of the product is
  an accumulator, which may keep a stronger relation than an operand.
\<close>

locale interval_domain =
  fixes acc :: "'i \<Rightarrow> rat \<Rightarrow> bool" and rel :: "'i \<Rightarrow> rat \<Rightarrow> bool"
    and const :: "rat \<Rightarrow> 'i" and add :: "'i \<Rightarrow> 'i \<Rightarrow> 'i" and mul :: "'i \<Rightarrow> 'i \<Rightarrow> 'i" and expt :: "'i \<Rightarrow> nat \<Rightarrow> 'i"
  assumes acc_rel: "acc i x \<Longrightarrow> rel i x"
    and const_acc: "acc (const c) c"
    and add_rel: "rel i x \<Longrightarrow> rel j y \<Longrightarrow> rel (add i j) (x + y)"
    and mul_acc: "acc i x \<Longrightarrow> rel j y \<Longrightarrow> acc (mul i j) (x * y)"
    and expt_rel: "0 < n \<Longrightarrow> rel i x \<Longrightarrow> rel (expt i n) (x ^ n)"
begin

lemma sum_rel:
  assumes "rel r s" "\<And>a. a \<in> set es \<Longrightarrow> rel (f a) (g a)"
  shows "rel (foldl (\<lambda>r a. add r (f a)) r es) (s + sum_list (map g es))"
  using assms
proof (induction es arbitrary: r s)
  case (Cons a es)
  have "rel (foldl (\<lambda>r a. add r (f a)) (add r (f a)) es) ((s + g a) + sum_list (map g es))"
    using Cons.prems by (intro Cons.IH add_rel) auto
  then show ?case by (simp add: add.assoc)
qed simp

lemma product_acc:
  assumes "acc r c" "\<And>i. i \<in> set is \<Longrightarrow> rel (f i) (g i) \<and> 0 < p i"
  shows "acc (foldl (\<lambda>r i. mul r (expt (f i) (p i))) r is) (c * prod_list (map (\<lambda>i. g i ^ p i) is))"
  using assms
proof (induction "is" arbitrary: r c)
  case (Cons i "is")
  have "acc (foldl (\<lambda>r i. mul r (expt (f i) (p i))) (mul r (expt (f i) (p i))) is)
      ((c * g i ^ p i) * prod_list (map (\<lambda>i. g i ^ p i) is))"
    using Cons.prems by (intro Cons.IH mul_acc expt_rel) auto
  then show ?case by (simp add: mult.assoc)
qed simp

end

section \<open>Expressions and monomials\<close>

text \<open>
  The expressions the solver sees: numerals, sums, products, \<open>to_real\<close>, and anything else, which it
  treats as unknown. Expressions are hash-consed, so pointer equality is structural equality.
\<close>

datatype expr = Numeral rat | Add "expr list" | Mul "expr list" | ToReal expr | Unknown nat

fun is_numeral :: "expr \<Rightarrow> bool" where
  "is_numeral (Numeral r) = True"
| "is_numeral _ = False"

fun is_mul :: "expr \<Rightarrow> bool" where
  "is_mul (Mul es) = True"
| "is_mul _ = False"

fun args :: "expr \<Rightarrow> expr list" where
  "args (Add es) = es"
| "args (Mul es) = es"
| "args (ToReal a) = [a]"
| "args _ = []"

text \<open>A coefficient without a body does not occur; the model returns the monomial itself there.\<close>

definition get_monomial_body :: "expr \<Rightarrow> expr" where
  "get_monomial_body m = (case args m of Numeral r # body # _ \<Rightarrow> body | _ \<Rightarrow> m)"

definition get_monomial_coeff :: "expr \<Rightarrow> rat" where
  "get_monomial_coeff m = (case args m of Numeral r # _ \<Rightarrow> r | _ \<Rightarrow> 1)"

fun count_vars :: "expr list \<Rightarrow> expr option \<Rightarrow> nat \<Rightarrow> nat" where
  "count_vars [] var num_vars = num_vars"
| "count_vars (arg # es) var num_vars =
     (if var \<noteq> Some arg then count_vars es (Some arg) (num_vars + 1) else count_vars es var num_vars)"

definition get_num_vars_in_monomial :: "expr \<Rightarrow> nat" where
  "get_num_vars_in_monomial m =
     (let m = get_monomial_body m in if is_mul m then count_vars (args m) None 0 else 1)"

fun find_var :: "expr list \<Rightarrow> nat \<Rightarrow> nat \<Rightarrow> expr option \<Rightarrow> nat \<Rightarrow> expr option \<times> nat" where
  "find_var [] i curr_idx var pow = (var, pow)"
| "find_var (arg # es) i curr_idx var pow =
     (if var = None then find_var es i curr_idx (Some arg) 1
      else if var = Some arg then find_var es i curr_idx var (pow + 1)
      else if curr_idx = i then (var, pow)
      else find_var es i (curr_idx + 1) (Some arg) 1)"

definition get_var_and_degree :: "expr \<Rightarrow> nat \<Rightarrow> expr option \<times> nat" where
  "get_var_and_degree m i =
     (let m = get_monomial_body m in if is_mul m then find_var (args m) i 0 None 0 else (Some m, 1))"

text \<open>The powers of a monomial: its maximal runs of equal arguments.\<close>

fun runs :: "expr list \<Rightarrow> expr \<Rightarrow> nat \<Rightarrow> (expr \<times> nat) list" where
  "runs [] var pow = [(var, pow)]"
| "runs (arg # es) var pow =
     (if var = arg then runs es var (pow + 1) else (var, pow) # runs es arg 1)"

fun powers :: "expr list \<Rightarrow> (expr \<times> nat) list" where
  "powers [] = []"
| "powers (arg # es) = runs es arg 1"

lemma length_runs: "count_vars es (Some var) n = n + length (runs es var p) - 1"
proof (induction es arbitrary: var n p)
  case (Cons a es)
  show ?case using Cons.IH [of var n "Suc p"] Cons.IH [of a "n + 1" 1] by (cases "runs es a 1") auto
qed simp

lemma runs_not_Nil [simp]: "runs es var p \<noteq> []"
  by (induction es arbitrary: var p) auto

lemma count_vars_eq: "count_vars es None 0 = length (powers es)"
proof (cases es)
  case (Cons a bs)
  have "runs bs a 1 \<noteq> []" by simp
  then show ?thesis using length_runs [of bs a 1 1] Cons by (cases "runs bs a 1") auto
qed simp

lemma find_var_runs:
  "k \<le> i \<Longrightarrow> i - k < length (runs es var p) \<Longrightarrow>
     find_var es i k (Some var) p = (Some (fst (runs es var p ! (i - k))), snd (runs es var p ! (i - k)))"
proof (induction es arbitrary: var p k)
  case (Cons a es)
  then show ?case
    by (auto simp: nth_Cons' Suc_diff_le le_Suc_eq dest: le_neq_implies_less)
qed simp

lemma find_var_eq:
  "i < length (powers es) \<Longrightarrow> find_var es i 0 None 0 = (Some (fst (powers es ! i)), snd (powers es ! i))"
  by (cases es) (auto simp: find_var_runs)

lemma runs_prod: "prod_list (map (\<lambda>(v, n). g v ^ n) (runs es var p)) = (g var ^ p * prod_list (map g es) :: rat)"
  by (induction es arbitrary: var p) (auto simp: algebra_simps)

lemma powers_prod: "prod_list (map (\<lambda>(v, n). g v ^ n) (powers es)) = (prod_list (map g es) :: rat)"
  by (cases es) (auto simp: runs_prod)

lemma runs_set: "0 < p \<Longrightarrow> vp \<in> set (runs es var p) \<Longrightarrow> fst vp \<in> insert var (set es) \<and> 0 < snd vp"
  by (induction es arbitrary: var p) (auto split: if_splits)

lemma powers_set: "vp \<in> set (powers es) \<Longrightarrow> fst vp \<in> set es \<and> 0 < snd vp"
  using runs_set [of 1 vp] by (cases es) auto


section \<open>The solver's bounds\<close>

datatype bound_kind = B_LOWER | B_UPPER

record bound =
  b_var :: nat
  b_kind :: bound_kind
  b_rational :: rat
  b_infinitesimal :: rat

record theory_arith =
  th_lower :: "nat \<Rightarrow> bound option"
  th_upper :: "nat \<Rightarrow> bound option"
  th_expr2var :: "expr \<Rightarrow> nat option"
  th_is_int :: "nat \<Rightarrow> bool"

definition mk_interval_for_var :: "theory_arith \<Rightarrow> nat \<Rightarrow> bound interval" where
  "mk_interval_for_var th v =
     (case (th_lower th v, th_upper th v) of
        (Some l, Some u) \<Rightarrow>
          interval_rat (b_rational l) (b_infinitesimal l \<noteq> 0) (Leaf l)
            (b_rational u) (b_infinitesimal u \<noteq> 0) (Leaf u)
      | (Some l, None) \<Rightarrow> interval_half (b_rational l) (b_infinitesimal l \<noteq> 0) True (Leaf l)
      | (None, Some u) \<Rightarrow> interval_half (b_rational u) (b_infinitesimal u \<noteq> 0) False (Leaf u)
      | (None, None) \<Rightarrow> interval_full)"

definition mk_interval_for :: "theory_arith \<Rightarrow> expr \<Rightarrow> bound interval" where
  "mk_interval_for th n =
     (case th_expr2var th n of None \<Rightarrow> interval_full | Some v \<Rightarrow> mk_interval_for_var th v)"

definition mul_bound_of :: "theory_arith \<Rightarrow> expr \<Rightarrow> nat \<Rightarrow> bound interval \<Rightarrow> bound interval" where
  "mul_bound_of th var pow target = interval_mul target (interval_expt (mk_interval_for th var) pow)"

lemma get_var_and_degree_eq:
  assumes "i < get_num_vars_in_monomial m"
  shows "get_var_and_degree m i =
    (let m = get_monomial_body m; vp = (if is_mul m then powers (args m) else [(m, 1)]) ! i
     in (Some (fst vp), snd vp))"
  using assms
  by (auto simp: get_var_and_degree_def get_num_vars_in_monomial_def Let_def count_vars_eq find_var_eq)

lemma arg_size: "a \<in> set es \<Longrightarrow> size a < Suc (size_list size es)"
  by (induction es) auto

lemma get_monomial_body_cases: "get_monomial_body (Mul es) = Mul es \<or> get_monomial_body (Mul es) \<in> set es"
  by (auto simp: get_monomial_body_def split: list.splits expr.splits)

lemma get_var_size:
  assumes i: "i < get_num_vars_in_monomial (Mul es)" and v: "(Some v, pow) = get_var_and_degree (Mul es) i"
  shows "size v < Suc (size_list size es)"
proof -
  let ?b = "get_monomial_body (Mul es)"
  have b: "?b = Mul es \<or> size ?b < Suc (size_list size es)"
    using get_monomial_body_cases arg_size by blast
  show ?thesis
  proof (cases "is_mul ?b")
    case True
    then obtain fs where fs: "?b = Mul fs" by (cases ?b) auto
    have "i < length (powers fs)"
      using i by (simp add: get_num_vars_in_monomial_def fs count_vars_eq)
    then have "v \<in> set fs"
      using v powers_set [OF nth_mem] i by (auto simp: get_var_and_degree_eq [OF i] Let_def fs)
    then show ?thesis using arg_size [of v fs] b fs by auto
  next
    case False
    then show ?thesis using v b i
      by (auto simp: get_var_and_degree_def Let_def)
  qed
qed

function evaluate_as_interval :: "theory_arith \<Rightarrow> expr \<Rightarrow> bound interval" where
  "evaluate_as_interval th n =
     (case th_expr2var th n of
        Some v \<Rightarrow> mk_interval_for th n
      | None \<Rightarrow>
          (case n of
             Add es \<Rightarrow> foldl (\<lambda>r arg. interval_add r (evaluate_as_interval th arg)) (interval_val 0 Null Null) es
           | Mul es \<Rightarrow>
               foldl (\<lambda>r i. case get_var_and_degree (Mul es) i of
                   (Some var, pow) \<Rightarrow> interval_mul r (interval_expt (evaluate_as_interval th var) pow)
                 | (None, pow) \<Rightarrow> r)
                 (interval_val (get_monomial_coeff (Mul es)) Null Null)
                 [0..<get_num_vars_in_monomial (Mul es)]
           | ToReal arg \<Rightarrow> evaluate_as_interval th arg
           | Numeral val \<Rightarrow> interval_val val Null Null
           | Unknown k \<Rightarrow> interval_full))"
  by pat_completeness auto
termination
  by (relation "measure (size \<circ> snd)") (auto intro: arg_size get_var_size [unfolded atLeastLessThan_iff])

declare evaluate_as_interval.simps [simp del]


section \<open>New bounds from intervals\<close>

text \<open>Rationals with an infinitesimal part, rounded as \<open>inf_rational\<close> rounds them.\<close>

definition inf_ceil :: "rat \<times> rat \<Rightarrow> rat" where
  "inf_ceil k = (if fst k \<in> \<int> then (if 0 < snd k then fst k + 1 else fst k) else of_int \<lceil>fst k\<rceil>)"

definition inf_floor :: "rat \<times> rat \<Rightarrow> rat" where
  "inf_floor k = (if fst k \<in> \<int> then (if snd k < 0 then fst k - 1 else fst k) else of_int \<lfloor>fst k\<rfloor>)"

definition normalize_bound :: "theory_arith \<Rightarrow> nat \<Rightarrow> rat \<times> rat \<Rightarrow> bound_kind \<Rightarrow> rat \<times> rat" where
  "normalize_bound th v k kind =
     (if \<not> th_is_int th v then k
      else if kind = B_LOWER then (inf_ceil k, 0) else (inf_floor k, 0))"

definition new_lower :: "theory_arith \<Rightarrow> nat \<Rightarrow> bound interval \<Rightarrow> rat \<times> rat" where
  "new_lower th v i =
     (let l = ext_value (i_lower i) in
      if i_lower_open i then
        (if th_is_int th v then (if l \<in> \<int> then (l + 1, 0) else (of_int \<lceil>l\<rceil>, 0)) else (l, 1))
      else (l, 0))"

definition new_upper :: "theory_arith \<Rightarrow> nat \<Rightarrow> bound interval \<Rightarrow> rat \<times> rat" where
  "new_upper th v i =
     (let u = ext_value (i_upper i) in
      if i_upper_open i then
        (if th_is_int th v then (if u \<in> \<int> then (u - 1, 0) else (of_int \<lfloor>u\<rfloor>, 0)) else (u, - 1))
      else (u, 0))"

definition inf_less :: "rat \<times> rat \<Rightarrow> rat \<times> rat \<Rightarrow> bool" where
  "inf_less a b \<longleftrightarrow> fst a < fst b \<or> fst a = fst b \<and> snd a < snd b"

definition bound_value :: "bound \<Rightarrow> rat \<times> rat" where
  "bound_value b = (b_rational b, b_infinitesimal b)"

text \<open>A derived bound with the dependency its justification is collected from.\<close>

definition mk_derived_nl_bound :: "theory_arith \<Rightarrow> nat \<Rightarrow> rat \<times> rat \<Rightarrow> bound_kind \<Rightarrow> bound v_dependency
    \<Rightarrow> bound \<times> bound v_dependency" where
  "mk_derived_nl_bound th v coeff k dep =
     (let c = normalize_bound th v coeff k
      in (\<lparr>b_var = v, b_kind = k, b_rational = fst c, b_infinitesimal = snd c\<rparr>, dep))"

definition update_bounds_using_interval :: "theory_arith \<Rightarrow> nat \<Rightarrow> bound interval
    \<Rightarrow> (bound \<times> bound v_dependency) list" where
  "update_bounds_using_interval th v i =
     (if i_lower i \<noteq> MinusInfinity \<and>
         (case th_lower th v of None \<Rightarrow> True | Some old \<Rightarrow> inf_less (bound_value old) (new_lower th v i))
      then [mk_derived_nl_bound th v (new_lower th v i) B_LOWER (i_lower_dep i)] else []) @
     (if i_upper i \<noteq> PlusInfinity \<and>
         (case th_upper th v of None \<Rightarrow> True | Some old \<Rightarrow> inf_less (new_upper th v i) (bound_value old))
      then [mk_derived_nl_bound th v (new_upper th v i) B_UPPER (i_upper_dep i)] else [])"

definition upward_interval :: "theory_arith \<Rightarrow> expr \<Rightarrow> bound interval" where
  "upward_interval th m =
     foldl (\<lambda>new_bounds i. case get_var_and_degree m i of
         (Some var, pow) \<Rightarrow> mul_bound_of th var pow new_bounds
       | (None, pow) \<Rightarrow> new_bounds)
       (interval_val 1 Null Null) [0..<get_num_vars_in_monomial m]"

definition propagate_nl_upward :: "theory_arith \<Rightarrow> expr \<Rightarrow> (bound \<times> bound v_dependency) list" where
  "propagate_nl_upward th m =
     (case th_expr2var th m of None \<Rightarrow> []
      | Some v \<Rightarrow> update_bounds_using_interval th v (upward_interval th m))"

definition other_interval :: "theory_arith \<Rightarrow> expr \<Rightarrow> expr \<Rightarrow> bound interval" where
  "other_interval th n v =
     foldl (\<lambda>other_bounds i. case get_var_and_degree n i of
         (Some var, pow) \<Rightarrow> if var = v then other_bounds else mul_bound_of th var pow other_bounds
       | (None, pow) \<Rightarrow> other_bounds)
       (interval_val 1 Null Null) [0..<get_num_vars_in_monomial n]"

definition propagate_nl_downward :: "theory_arith \<Rightarrow> expr \<Rightarrow> nat \<Rightarrow> (bound \<times> bound v_dependency) list" where
  "propagate_nl_downward th n i =
     (case get_var_and_degree n i of
        (Some v, pow) \<Rightarrow>
          if pow \<noteq> 1 then []
          else
            let other_bounds = other_interval th n v in
            if contains_zero other_bounds then []
            else (case th_expr2var th v of None \<Rightarrow> []
                  | Some w \<Rightarrow> update_bounds_using_interval th w (interval_div (mk_interval_for th n) other_bounds))
      | (None, pow) \<Rightarrow> [])"

section \<open>Values and true bounds\<close>

fun expr_value :: "(nat \<Rightarrow> rat) \<Rightarrow> expr \<Rightarrow> rat" where
  "expr_value s (Numeral r) = r"
| "expr_value s (Add es) = sum_list (map (expr_value s) es)"
| "expr_value s (Mul es) = prod_list (map (expr_value s) es)"
| "expr_value s (ToReal e) = expr_value s e"
| "expr_value s (Unknown k) = s k"

text \<open>A numeral coefficient is followed by the one body it multiplies.\<close>

fun wf_expr :: "expr \<Rightarrow> bool" where
  "wf_expr (Add es) = list_all wf_expr es"
| "wf_expr (Mul es) = ((case es of Numeral r # bs \<Rightarrow> length bs = 1 | _ \<Rightarrow> True) \<and> list_all wf_expr es)"
| "wf_expr (ToReal e) = wf_expr e"
| "wf_expr _ = True"

definition bound_true :: "bound \<Rightarrow> rat \<Rightarrow> bool" where
  "bound_true b x \<longleftrightarrow>
     (case b_kind b of
        B_LOWER \<Rightarrow> lower_ok (Finite (b_rational b)) (b_infinitesimal b \<noteq> 0) x
      | B_UPPER \<Rightarrow> upper_ok (Finite (b_rational b)) (b_infinitesimal b \<noteq> 0) x)"

text \<open>
  The solver's invariant on its bounds: a lower bound is a lower bound, and the two bounds of a
  variable do not exclude each other (the core reports a conflict otherwise).
\<close>

definition bounds_consistent :: "theory_arith \<Rightarrow> bool" where
  "bounds_consistent th \<longleftrightarrow>
     (\<forall>v l. th_lower th v = Some l \<longrightarrow> b_kind l = B_LOWER \<and> b_var l = v) \<and>
     (\<forall>v u. th_upper th v = Some u \<longrightarrow> b_kind u = B_UPPER \<and> b_var u = v) \<and>
     (\<forall>v l u. th_lower th v = Some l \<and> th_upper th v = Some u \<longrightarrow>
        b_rational l < b_rational u \<or>
        b_rational l = b_rational u \<and> b_infinitesimal l = 0 \<and> b_infinitesimal u = 0)"

text \<open>The bounds of \<open>H\<close> are true in the assignment \<open>s\<close>.\<close>

definition bounds_true :: "theory_arith \<Rightarrow> (nat \<Rightarrow> rat) \<Rightarrow> bound set \<Rightarrow> bool" where
  "bounds_true th s H \<longleftrightarrow>
     (\<forall>n v b. th_expr2var th n = Some v \<and> b \<in> H \<and> b_var b = v \<longrightarrow> bound_true b (expr_value s n))"

section \<open>The interval domain\<close>

lemma justified_const: "justified H (interval_val c Null Null) c"
  by (simp add: justified_def interval_val_def)

lemma wf_const: "wf_interval (interval_val c d1 d2)"
  by (simp add: wf_interval_def interval_val_def)

lemma zero_joined_const: "zero_joined (interval_val c d d)"
  by (simp add: zero_joined_def interval_val_def)

lemma justified_full: "justified H interval_full x"
  by (simp add: justified_def interval_full_def ext_of_bool_def)

lemma wf_full: "wf_interval interval_full"
  by (simp add: wf_interval_def interval_full_def ext_of_bool_def ext_order)

interpretation nl: interval_domain
  "\<lambda>i x. wf_interval i \<and> zero_joined i \<and> justified H i x" "\<lambda>i x. wf_interval i \<and> justified H i x"
  "\<lambda>c. interval_val c Null Null" interval_add interval_mul interval_expt
  for H :: "'v set"
  by unfold_locales
    (auto simp: wf_const justified_const zero_joined_const wf_add justified_add wf_mul zero_joined_mul
      justified_mul_joined wf_expt justified_expt)

lemmas mk_interval_defs = mk_interval_for_def mk_interval_for_var_def interval_full_def interval_rat_def
  interval_half_def ext_of_bool_def

lemma mk_interval_for_sound:
  assumes c: "bounds_consistent th" and t: "bounds_true th s H"
  shows "wf_interval (mk_interval_for th n) \<and> justified H (mk_interval_for th n) (expr_value s n)"
    and "is_zero_interval (mk_interval_for th n) \<Longrightarrow>
      \<not> i_lower_open (mk_interval_for th n) \<and> \<not> i_upper_open (mk_interval_for th n)"
proof -
  have "(wf_interval (mk_interval_for th n) \<and> justified H (mk_interval_for th n) (expr_value s n)) \<and>
      (is_zero_interval (mk_interval_for th n) \<longrightarrow>
        \<not> i_lower_open (mk_interval_for th n) \<and> \<not> i_upper_open (mk_interval_for th n))"
  proof (cases "th_expr2var th n")
    case None
    then show ?thesis
      by (simp add: mk_interval_for_def wf_full justified_full)
        (simp add: interval_full_def is_zero_interval_def ext_of_bool_def ext_is_zero_def)
  next
    case (Some v)
    have l: "b_kind b = B_LOWER \<and> (b \<in> H \<longrightarrow> lower_ok (Finite (b_rational b)) (b_infinitesimal b \<noteq> 0) (expr_value s n))"
      if "th_lower th v = Some b" for b
    proof -
      have "b_kind b = B_LOWER \<and> b_var b = v"
        using c that by (auto simp: bounds_consistent_def)
      then show ?thesis
        using t Some unfolding bounds_true_def bound_true_def by fastforce
    qed
    have u: "b_kind b = B_UPPER \<and> (b \<in> H \<longrightarrow> upper_ok (Finite (b_rational b)) (b_infinitesimal b \<noteq> 0) (expr_value s n))"
      if "th_upper th v = Some b" for b
    proof -
      have "b_kind b = B_UPPER \<and> b_var b = v"
        using c that by (auto simp: bounds_consistent_def)
      then show ?thesis
        using t Some unfolding bounds_true_def bound_true_def by fastforce
    qed
    have lu: "b_rational b < b_rational b' \<or>
        b_rational b = b_rational b' \<and> b_infinitesimal b = 0 \<and> b_infinitesimal b' = 0"
      if "th_lower th v = Some b" "th_upper th v = Some b'" for b b'
      using c that unfolding bounds_consistent_def by blast
    note defs = mk_interval_defs wf_interval_def ext_order justified_def deps_hold_def is_zero_interval_def
      ext_is_zero_def Some
    show ?thesis
    proof (cases "th_lower th v")
      case None
      show ?thesis
      proof (cases "th_upper th v")
        case None
        then show ?thesis using \<open>th_lower th v = None\<close> by (simp add: defs)
      next
        case (Some b)
        then show ?thesis using \<open>th_lower th v = None\<close> u [OF Some] by (simp add: defs)
      qed
    next
      case (Some a)
      show ?thesis
      proof (cases "th_upper th v")
        case None
        then show ?thesis using Some l [OF Some] by (simp add: defs)
      next
        case b: (Some b)
        show ?thesis using Some l [OF Some] u [OF b] lu [OF Some b] by (simp add: defs b) auto
      qed
    qed
  qed
  then show "wf_interval (mk_interval_for th n) \<and> justified H (mk_interval_for th n) (expr_value s n)"
    and "is_zero_interval (mk_interval_for th n) \<Longrightarrow>
      \<not> i_lower_open (mk_interval_for th n) \<and> \<not> i_upper_open (mk_interval_for th n)"
    by blast+
qed

section \<open>Products of powers\<close>

text \<open>The powers of a monomial as the loops enumerate them, and its value.\<close>

definition monomial_powers :: "expr \<Rightarrow> (expr \<times> nat) list" where
  "monomial_powers m = (let b = get_monomial_body m in if is_mul b then powers (args b) else [(b, 1)])"

lemma get_num_vars_eq: "get_num_vars_in_monomial m = length (monomial_powers m)"
  by (simp add: get_num_vars_in_monomial_def monomial_powers_def Let_def count_vars_eq)

lemma get_var_eq:
  "i < length (monomial_powers m) \<Longrightarrow>
     get_var_and_degree m i = (Some (fst (monomial_powers m ! i)), snd (monomial_powers m ! i))"
  using get_var_and_degree_eq [of i m] by (simp add: get_num_vars_eq) (simp add: monomial_powers_def Let_def)

lemma foldl_monomial:
  "foldl (\<lambda>r i. case get_var_and_degree m i of (Some var, pow) \<Rightarrow> f var pow r | (None, pow) \<Rightarrow> r) r
     [0..<get_num_vars_in_monomial m] = foldl (\<lambda>r vp. f (fst vp) (snd vp) r) r (monomial_powers m)"
proof -
  have "foldl (\<lambda>r i. case get_var_and_degree m i of (Some var, pow) \<Rightarrow> f var pow r | (None, pow) \<Rightarrow> r) r
      [0..<get_num_vars_in_monomial m]
    = foldl (\<lambda>r i. f (fst (monomial_powers m ! i)) (snd (monomial_powers m ! i)) r) r
        [0..<length (monomial_powers m)]"
    unfolding get_num_vars_eq by (rule foldl_cong) (auto simp: get_var_eq)
  also have "\<dots> = foldl (\<lambda>r vp. f (fst vp) (snd vp) r) r (map ((!) (monomial_powers m)) [0..<length (monomial_powers m)])"
    by (simp add: foldl_map)
  finally show ?thesis by (simp add: map_nth)
qed

lemma monomial_powers_pos: "vp \<in> set (monomial_powers m) \<Longrightarrow> 0 < snd vp"
  using powers_set by (auto simp: monomial_powers_def Let_def split: if_splits)

lemma monomial_value:
  assumes "is_mul m" "wf_expr m"
  shows "expr_value s m =
    get_monomial_coeff m * prod_list (map (\<lambda>vp. expr_value s (fst vp) ^ snd vp) (monomial_powers m))"
proof -
  obtain es where m: "m = Mul es" using assms(1) by (cases m) auto
  have body: "expr_value s b = prod_list (map (\<lambda>vp. expr_value s (fst vp) ^ snd vp)
      (if is_mul b then powers (args b) else [(b, 1)]))" for b
    using powers_prod [of "expr_value s"] by (cases b) (auto simp: case_prod_unfold)
  have "expr_value s m = get_monomial_coeff m * expr_value s (get_monomial_body m)"
    using assms(2) by (auto simp: m get_monomial_coeff_def get_monomial_body_def split: list.splits expr.splits)
  then show ?thesis
    using body [of "get_monomial_body m"] by (simp add: monomial_powers_def Let_def)
qed


section \<open>Soundness of evaluation and of the derived bounds\<close>

lemma evaluate_as_interval_sound:
  assumes c: "bounds_consistent th" and t: "bounds_true th s H"
  shows "wf_expr n \<Longrightarrow> wf_interval (evaluate_as_interval th n) \<and>
    justified H (evaluate_as_interval th n) (expr_value s n)"
proof (induction n rule: measure_induct_rule [of size])
  case (less n)
  show ?case
  proof (cases "th_expr2var th n")
    case (Some v)
    then show ?thesis
      using mk_interval_for_sound(1) [OF c t] by (simp add: evaluate_as_interval.simps [of th n])
  next
    case None
    show ?thesis
    proof (cases n)
      case (Add es)
      have "wf_interval (evaluate_as_interval th a) \<and> justified H (evaluate_as_interval th a) (expr_value s a)"
        if "a \<in> set es" for a
        using less.IH [of a] less.prems that arg_size [OF that] by (auto simp: Add list_all_iff)
      then show ?thesis
        using nl.sum_rel [where H = H and s = 0, OF nl.acc_rel [OF nl.const_acc],
            where f = "evaluate_as_interval th" and g = "expr_value s" and es = es] None
        by (simp add: evaluate_as_interval.simps [of th "Add es"] Add)
    next
      case (Mul es)
      let ?b = "get_monomial_body (Mul es)"
      have sub: "wf_interval (evaluate_as_interval th (fst vp)) \<and>
          justified H (evaluate_as_interval th (fst vp)) (expr_value s (fst vp)) \<and> 0 < snd vp"
        if vp: "vp \<in> set (monomial_powers (Mul es))" for vp
      proof -
        obtain i where i: "i < get_num_vars_in_monomial (Mul es)" "vp = monomial_powers (Mul es) ! i"
          using vp by (auto simp: get_num_vars_eq in_set_conv_nth)
        have "size (fst vp) < size n"
          using get_var_size [OF i(1), of "fst vp" "snd vp"] i by (simp add: get_var_eq get_num_vars_eq Mul)
        moreover have "wf_expr ?b"
          using less.prems get_monomial_body_cases [of es] by (auto simp: Mul list_all_iff)
        then have "wf_expr (fst vp)"
          using vp powers_set [of vp "args ?b"]
          by (cases ?b) (auto simp: monomial_powers_def Let_def list_all_iff)
        ultimately show ?thesis
          using less.IH [of "fst vp"] monomial_powers_pos [OF vp] by simp
      qed
      have e: "evaluate_as_interval th n = foldl (\<lambda>r vp. interval_mul r
            (interval_expt (evaluate_as_interval th (fst vp)) (snd vp)))
          (interval_val (get_monomial_coeff n) Null Null) (monomial_powers n)"
        using None foldl_monomial [where m = "Mul es" and
            f = "\<lambda>var pow r. interval_mul r (interval_expt (evaluate_as_interval th var) pow)"]
        by (simp add: evaluate_as_interval.simps [of th "Mul es"] Mul)
      have mul: "is_mul n" by (simp add: Mul)
      show ?thesis
        unfolding e monomial_value [OF mul less.prems]
        by (rule nl.acc_rel, rule nl.product_acc [OF nl.const_acc]) (use sub Mul in blast)
    next
      case (ToReal e)
      then show ?thesis
        using less None by (simp add: evaluate_as_interval.simps [of th "ToReal e"])
    qed (use None in \<open>simp_all add: evaluate_as_interval.simps [of th "Numeral r" for r]
      evaluate_as_interval.simps [of th "Unknown k" for k] wf_const justified_const wf_full justified_full\<close>)
  qed
qed

lemma upward_interval_sound:
  assumes c: "bounds_consistent th" and t: "bounds_true th s H"
    and m: "is_mul m" "wf_expr m" "get_monomial_coeff m = 1"
  shows "wf_interval (upward_interval th m) \<and> justified H (upward_interval th m) (expr_value s m)"
proof -
  have e: "upward_interval th m = foldl (\<lambda>r vp. interval_mul r
      (interval_expt (mk_interval_for th (fst vp)) (snd vp))) (interval_val 1 Null Null) (monomial_powers m)"
    using foldl_monomial [where m = m and f = "mul_bound_of th"]
    by (simp add: upward_interval_def mul_bound_of_def)
  show ?thesis
    unfolding e monomial_value [OF m(1,2)] m(3)
    by (rule nl.acc_rel, rule nl.product_acc [OF nl.const_acc])
      (simp add: mk_interval_for_sound(1) [OF c t] monomial_powers_pos)
qed

lemma le_int_ceiling: "\<lbrakk>(x :: rat) \<in> \<int>; l \<le> x\<rbrakk> \<Longrightarrow> of_int \<lceil>l\<rceil> \<le> x"
  by (auto simp: Ints_def ceiling_le_iff)

lemma int_floor_le: "\<lbrakk>(x :: rat) \<in> \<int>; x \<le> u\<rbrakk> \<Longrightarrow> x \<le> of_int \<lfloor>u\<rfloor>"
  by (auto simp: Ints_def le_floor_iff)

lemma int_less_plus1: "\<lbrakk>(x :: rat) \<in> \<int>; l \<in> \<int>; l < x\<rbrakk> \<Longrightarrow> l + 1 \<le> x"
proof -
  assume "x \<in> \<int>" "l \<in> \<int>" and less: "l < x"
  then obtain a b where x: "x = of_int a" and l: "l = of_int b"
    by (auto elim!: Ints_cases)
  have "of_int (b + 1) \<le> (of_int a :: rat)"
    using less unfolding x l of_int_less_iff of_int_le_iff by simp
  then show ?thesis by (simp add: x l)
qed

lemma normalized_lower_true:
  assumes l: "if opn then l < x else l \<le> x" and int: "th_is_int th v \<Longrightarrow> x \<in> \<int>" and i: "i_lower i = Finite l"
    "i_lower_open i = opn"
  shows "bound_true (fst (mk_derived_nl_bound th v (new_lower th v i) B_LOWER dep)) x"
proof (cases "th_is_int th v")
  case False
  then show ?thesis
    using l by (simp add: mk_derived_nl_bound_def new_lower_def normalize_bound_def bound_true_def Let_def i)
next
  case True
  have "of_int \<lceil>l\<rceil> \<le> x"
    using l by (intro le_int_ceiling int [OF True]) (auto split: if_splits)
  moreover have "l + 1 \<le> x" if opn "l \<in> \<int>"
    using l that by (intro int_less_plus1 int [OF True]) auto
  moreover have "of_int \<lceil>l\<rceil> = l" if "l \<in> \<int>" using that by (auto elim: Ints_cases)
  ultimately show ?thesis
    using l True
    by (simp add: mk_derived_nl_bound_def new_lower_def normalize_bound_def bound_true_def Let_def i inf_ceil_def)
qed

lemma normalized_upper_true:
  assumes u: "if opn then x < u else x \<le> u" and int: "th_is_int th v \<Longrightarrow> x \<in> \<int>" and i: "i_upper i = Finite u"
    "i_upper_open i = opn"
  shows "bound_true (fst (mk_derived_nl_bound th v (new_upper th v i) B_UPPER dep)) x"
proof (cases "th_is_int th v")
  case False
  then show ?thesis
    using u by (simp add: mk_derived_nl_bound_def new_upper_def normalize_bound_def bound_true_def Let_def i)
next
  case True
  have "x \<le> of_int \<lfloor>u\<rfloor>"
    using u by (intro int_floor_le int [OF True]) (auto split: if_splits)
  moreover have "x \<le> u - 1" if opn "u \<in> \<int>"
    using u that int_less_plus1 [of u x] int [OF True] by auto
  ultimately show ?thesis
    using u True
    by (simp add: mk_derived_nl_bound_def new_upper_def normalize_bound_def bound_true_def Let_def i inf_floor_def)
qed

lemma update_bounds_sound:
  assumes wf: "wf_interval i" and j: "justified H i x" and int: "th_is_int th v \<Longrightarrow> x \<in> \<int>"
    and b: "(b, dep) \<in> set (update_bounds_using_interval th v i)" and d: "deps_hold H dep"
  shows "b_var b = v \<and> bound_true b x"
proof -
  have lo: "bound_true (fst (mk_derived_nl_bound th v (new_lower th v i) B_LOWER (i_lower_dep i))) x"
    if l: "i_lower i \<noteq> MinusInfinity" "deps_hold H (i_lower_dep i)"
    using l wf_bounds [OF wf] justified_lower [OF j l(2)]
    by (cases "i_lower i") (auto intro: normalized_lower_true int)
  have up: "bound_true (fst (mk_derived_nl_bound th v (new_upper th v i) B_UPPER (i_upper_dep i))) x"
    if u: "i_upper i \<noteq> PlusInfinity" "deps_hold H (i_upper_dep i)"
    using u wf_bounds [OF wf] justified_upper [OF j u(2)]
    by (cases "i_upper i") (auto intro: normalized_upper_true int)
  show ?thesis
    using b d lo up
    by (auto simp: update_bounds_using_interval_def mk_derived_nl_bound_def Let_def split: if_splits)
qed

definition integers_respected :: "theory_arith \<Rightarrow> (nat \<Rightarrow> rat) \<Rightarrow> bool" where
  "integers_respected th s \<longleftrightarrow> (\<forall>n v. th_expr2var th n = Some v \<and> th_is_int th v \<longrightarrow> expr_value s n \<in> \<int>)"

lemma propagate_nl_upward_sound:
  assumes "bounds_consistent th" "bounds_true th s H" "integers_respected th s"
    and "is_mul m" "wf_expr m" "get_monomial_coeff m = 1"
    and "(b, dep) \<in> set (propagate_nl_upward th m)" "deps_hold H dep"
  shows "th_expr2var th m = Some (b_var b) \<and> bound_true b (expr_value s m)"
proof -
  obtain v where v: "th_expr2var th m = Some v" and
    b: "(b, dep) \<in> set (update_bounds_using_interval th v (upward_interval th m))"
    using assms(7) by (cases "th_expr2var th m") (auto simp: propagate_nl_upward_def)
  have "wf_interval (upward_interval th m)" "justified H (upward_interval th m) (expr_value s m)"
    using upward_interval_sound [OF assms(1,2,4-6)] by auto
  from update_bounds_sound [OF this _ b assms(8)] show ?thesis
    using assms(3) v by (auto simp: integers_respected_def)
qed


text \<open>
  Downward: the other factors multiply to a value that the quotient divides out. The factor \<open>v\<close> has
  power one, and its other occurrences, if the monomial is not sorted, are left out of the product as
  well; the monomial is therefore assumed to have \<open>v\<close> once.
\<close>

definition occurs_once :: "expr \<Rightarrow> expr \<Rightarrow> bool" where
  "occurs_once v n \<longleftrightarrow> length (filter (\<lambda>vp. fst vp = v) (monomial_powers n)) = 1"

lemma other_interval_sound:
  assumes c: "bounds_consistent th" and t: "bounds_true th s H"
  shows "wf_interval (other_interval th n v) \<and> justified H (other_interval th n v)
    (prod_list (map (\<lambda>vp. expr_value s (fst vp) ^ snd vp) (filter (\<lambda>vp. fst vp \<noteq> v) (monomial_powers n))))"
proof -
  let ?ps = "filter (\<lambda>vp. fst vp \<noteq> v) (monomial_powers n)"
  have skip: "foldl (\<lambda>r vp. if fst vp = v then r else g r vp) r ps =
      foldl g r (filter (\<lambda>vp. fst vp \<noteq> v) ps)" for g r ps
    by (induction ps arbitrary: r) auto
  have "other_interval th n v = foldl (\<lambda>r vp. if fst vp = v then r else mul_bound_of th (fst vp) (snd vp) r)
      (interval_val 1 Null Null) (monomial_powers n)"
    using foldl_monomial [where m = n and f = "\<lambda>var pow r. if var = v then r else mul_bound_of th var pow r"]
    by (simp add: other_interval_def)
  then have e: "other_interval th n v = foldl (\<lambda>r vp. interval_mul r
      (interval_expt (mk_interval_for th (fst vp)) (snd vp))) (interval_val 1 Null Null) ?ps"
    by (simp add: skip mul_bound_of_def)
  have "wf_interval (other_interval th n v) \<and> justified H (other_interval th n v)
      (1 * prod_list (map (\<lambda>vp. expr_value s (fst vp) ^ snd vp) ?ps))"
    unfolding e
    by (rule nl.acc_rel, rule nl.product_acc [OF nl.const_acc])
      (use mk_interval_for_sound(1) [OF c t] monomial_powers_pos in auto)
  then show ?thesis by simp
qed

lemma prod_list_filter_once:
  assumes "vp \<in> set ps" "length (filter P ps) = 1" "P vp"
  shows "g vp * prod_list (map g (filter (\<lambda>x. \<not> P x) ps)) = (prod_list (map g ps) :: rat)"
  using assms
proof (induction ps)
  case (Cons a ps)
  show ?case
  proof (cases "P a")
    case True
    then have "filter P ps = []" using Cons.prems(2) by simp
    then have "\<forall>x \<in> set ps. \<not> P x" by (simp add: filter_empty_conv)
    then have "a = vp" "filter (\<lambda>x. \<not> P x) ps = ps" using Cons.prems by auto
    then show ?thesis using True by simp
  next
    case False
    then show ?thesis using Cons by (auto simp: algebra_simps)
  qed
qed simp

lemma propagate_nl_downward_sound:
  assumes c: "bounds_consistent th" and t: "bounds_true th s H" and int: "integers_respected th s"
    and m: "is_mul n" "wf_expr n" "get_monomial_coeff n = 1"
    and i: "i < get_num_vars_in_monomial n" "get_var_and_degree n i = (Some v, pow)" "occurs_once v n"
    and b: "(b, dep) \<in> set (propagate_nl_downward th n i)" and d: "deps_hold H dep"
  shows "th_expr2var th v = Some (b_var b) \<and> bound_true b (expr_value s v)"
proof -
  let ?o = "other_interval th n v" and ?r = "mk_interval_for th n"
  obtain w where pow: "pow = 1" and nz: "\<not> contains_zero ?o" and w: "th_expr2var th v = Some w" and
    b': "(b, dep) \<in> set (update_bounds_using_interval th w (interval_div ?r ?o))"
    using b i(2) by (cases "th_expr2var th v") (auto simp: propagate_nl_downward_def Let_def split: if_splits)
  let ?g = "\<lambda>vp. expr_value s (fst vp) ^ snd vp"
  let ?rest = "prod_list (map ?g (filter (\<lambda>vp. fst vp \<noteq> v) (monomial_powers n)))"
  have "(v, pow) \<in> set (monomial_powers n)"
    using i get_var_eq [of i n] by (auto simp: get_num_vars_eq)
  from prod_list_filter_once [OF this, of "\<lambda>vp. fst vp = v" ?g]
  have val: "expr_value s n = expr_value s v * ?rest"
    using i(3) monomial_value [OF m(1,2)] m(3) pow by (simp add: occurs_once_def)
  note o = other_interval_sound [OF c t, of n v]
  have r: "wf_interval ?r" "justified H ?r (expr_value s v * ?rest)"
    using mk_interval_for_sound(1) [OF c t, of n] val by auto
  have "wf_interval (interval_div ?r ?o)" "justified H (interval_div ?r ?o) (expr_value s v)"
    using wf_div [OF r(1) _ nz] justified_quotient [OF r(1) _ nz mk_interval_for_sound(2) [OF c t] r(2)] o
    by auto
  from update_bounds_sound [OF this _ b' d] show ?thesis
    using int w by (auto simp: integers_respected_def)
qed

end
