(* ===== verification/BoolRewriter.thy ===== *)
theory BoolRewriter
  imports "HOL-Library.Word" "HOL-Library.Monad_Syntax"
begin

text \<open>
  Model of ast/rewriter/bool_rewriter.cpp: the simplifying constructors of the Boolean connectives,
  equality, \<open>distinct\<close> and \<open>ite\<close>, with the local-context simplification of disjunctions. Terms are
  hash-consed in the code, so that the comparison of pointers is the comparison of terms.
\<close>

section \<open>Terms\<close>

text \<open>
  The applications that the rewriter looks at, the unique values of another sort, and constants of the
  Boolean or the other sort, which stand for every term that it does not look into.
\<close>

datatype bterm =
  T_true | T_false | T_not bterm | T_and "bterm list" | T_or "bterm list" | T_eq bterm bterm
| T_ite bterm bterm bterm | T_distinct "bterm list" | T_implies bterm bterm | T_xor "bterm list"
| T_value nat | T_const bool nat

fun is_not :: "bterm \<Rightarrow> bool" where "is_not (T_not t) = True" | "is_not _ = False"
fun is_and :: "bterm \<Rightarrow> bool" where "is_and (T_and ts) = True" | "is_and _ = False"
fun is_or :: "bterm \<Rightarrow> bool" where "is_or (T_or ts) = True" | "is_or _ = False"

text \<open>The arguments of an application (of a negation: the atom).\<close>

fun get_args :: "bterm \<Rightarrow> bterm list" where
  "get_args (T_not t) = [t]"
| "get_args (T_and ts) = ts"
| "get_args (T_or ts) = ts"
| "get_args (T_eq a b) = [a, b]"
| "get_args (T_ite c t e) = [c, t, e]"
| "get_args (T_distinct ts) = ts"
| "get_args (T_implies a b) = [a, b]"
| "get_args (T_xor ts) = ts"
| "get_args _ = []"

fun is_bool :: "bterm \<Rightarrow> bool" where
  "is_bool (T_ite c t e) = is_bool t"
| "is_bool (T_value n) = False"
| "is_bool (T_const b n) = b"
| "is_bool _ = True"

text \<open>Values: the two Boolean constants and the values of the other sort, all of them unique.\<close>

fun is_value :: "bterm \<Rightarrow> bool" where
  "is_value T_true = True"
| "is_value T_false = True"
| "is_value (T_value n) = True"
| "is_value _ = False"

definition are_equal :: "bterm \<Rightarrow> bterm \<Rightarrow> bool" where
  "are_equal a b = (a = b)"

definition are_distinct :: "bterm \<Rightarrow> bterm \<Rightarrow> bool" where
  "are_distinct a b = (a \<noteq> b \<and> is_value a \<and> is_value b \<and> is_bool a = is_bool b)"

definition is_complement_core :: "bterm \<Rightarrow> bterm \<Rightarrow> bool" where
  "is_complement_core n1 n2 = (n1 = T_true \<and> n2 = T_false \<or> n1 = T_not n2)"

definition is_complement :: "bterm \<Rightarrow> bterm \<Rightarrow> bool" where
  "is_complement n1 n2 = (is_complement_core n1 n2 \<or> is_complement_core n2 n1)"

section \<open>The rewriter\<close>

record bool_rewriter =
  m_flat :: bool
  m_local_ctx :: bool
  m_elim_and :: bool
  m_blast_distinct :: bool
  m_blast_distinct_threshold :: nat
  m_ite_extra_rules :: bool
  m_local_ctx_limit :: "32 word"
  m_elim_ite :: bool

text \<open>The status of a rewrite, and its result; \<open>None\<close> is \<open>BR_FAILED\<close>.\<close>

datatype br_status = BR_DONE | BR_REWRITE1 | BR_REWRITE2 | BR_REWRITE3

type_synonym rewrite = "(br_status \<times> bterm) option"

section \<open>Equality and negation\<close>

text \<open>An equation between an if-then-else and a value; the branches of the branch are values.\<close>

fun has_value_branches :: "bterm \<Rightarrow> bool" where
  "has_value_branches (T_ite c t e) = (is_value t \<and> is_value e)"
| "has_value_branches _ = False"

fun try_ite_value :: "bterm \<Rightarrow> bterm \<Rightarrow> rewrite" where
  "try_ite_value (T_ite cond t e) val =
     (if are_distinct val e then Some (BR_REWRITE2, T_and [T_eq t val, cond])
      else if are_distinct val t then Some (BR_REWRITE2, T_and [T_eq e val, T_not cond])
      else if are_equal val t then
        (if are_equal val e then Some (BR_DONE, T_true)
         else Some (BR_REWRITE2, T_or [T_eq e val, cond]))
      else if are_equal val e then Some (BR_REWRITE2, T_or [T_eq t val, T_not cond])
      else if has_value_branches t then
        map_option (\<lambda>(s, r). (BR_REWRITE2, T_ite cond r (T_eq e val))) (try_ite_value t val)
      else if has_value_branches e then
        map_option (\<lambda>(s, r). (BR_REWRITE2, T_ite cond (T_eq t val) r)) (try_ite_value e val)
      else None)"
| "try_ite_value _ val = None"

text \<open>
  A rewriting of an equation, up to the call of \<open>mk_not\<close> that some of its branches end with, because
  \<open>mk_not\<close> calls back.
\<close>

datatype eq_step = Rewritten br_status bterm | Negation bterm | Failed

fun is_ite :: "bterm \<Rightarrow> bool" where "is_ite (T_ite c t e) = True" | "is_ite _ = False"

definition eq_ite_value :: "bool_rewriter \<Rightarrow> bterm \<Rightarrow> bterm \<Rightarrow> rewrite" where
  "eq_ite_value rw lhs rhs =
     (if \<not> m_ite_extra_rules rw then None
      else if is_ite lhs \<and> is_value rhs then try_ite_value lhs rhs
      else if is_ite rhs \<and> is_value lhs then try_ite_value rhs lhs
      else None)"

definition opposite_equations :: "bterm \<Rightarrow> bterm \<Rightarrow> bool" where
  "opposite_equations lhs rhs =
     (case lhs of
        T_eq la lb \<Rightarrow>
          (case rhs of
             T_eq ra rb \<Rightarrow>
               la = ra \<and> (rb = T_not lb \<or> lb = T_not rb) \<or> lb = rb \<and> (ra = T_not la \<or> la = T_not ra)
           | _ \<Rightarrow> False)
      | _ \<Rightarrow> False)"

definition eq_bool :: "bool \<Rightarrow> bterm \<Rightarrow> bterm \<Rightarrow> eq_step" where
  "eq_bool unfolded lhs rhs =
     (if lhs = T_true then Rewritten BR_DONE rhs
      else if lhs = T_false then Negation rhs
      else if rhs = T_true then Rewritten BR_DONE lhs
      else if rhs = T_false then Negation lhs
      else if is_complement lhs rhs then Rewritten BR_DONE T_false
      else if unfolded then Rewritten BR_DONE (T_eq lhs rhs)
      else if opposite_equations lhs rhs then Rewritten BR_DONE T_false
      else Failed)"

definition eq_core :: "bool_rewriter \<Rightarrow> bterm \<Rightarrow> bterm \<Rightarrow> eq_step" where
  "eq_core rw lhs rhs =
     (if are_equal lhs rhs then Rewritten BR_DONE T_true
      else if are_distinct lhs rhs then Rewritten BR_DONE T_false
      else
        (case eq_ite_value rw lhs rhs of
           Some (s, r) \<Rightarrow> Rewritten s r
         | None \<Rightarrow>
             if is_bool lhs then
               (case lhs of
                  T_not l \<Rightarrow>
                    (case rhs of T_not r \<Rightarrow> eq_bool True l r | _ \<Rightarrow> eq_bool False lhs rhs)
                | _ \<Rightarrow> eq_bool False lhs rhs)
             else Failed))"

text \<open>The equations that negation goes through.\<close>

fun eq_depth :: "bterm \<Rightarrow> nat" where
  "eq_depth (T_eq a b) = Suc (eq_depth a + eq_depth b)"
| "eq_depth (T_not t) = eq_depth t"
| "eq_depth _ = 0"

lemma try_ite_value_depth: "try_ite_value t v = Some (s, r) \<Longrightarrow> eq_depth r = 0"
  by (cases t) (auto split: if_splits bterm.splits)

lemma eq_ite_value_depth: "eq_ite_value rw l v = Some (s, r) \<Longrightarrow> eq_depth r = 0"
  by (auto simp: eq_ite_value_def intro: try_ite_value_depth split: if_splits)

lemma eq_bool_depth:
  "eq_bool u l r = Rewritten s x \<Longrightarrow> eq_depth x \<le> Suc (eq_depth l + eq_depth r)"
  "eq_bool u l r = Negation x \<Longrightarrow> eq_depth x \<le> eq_depth l + eq_depth r"
  by (auto simp: eq_bool_def split: if_splits)

lemma eq_core_depth:
  "eq_core rw l r = Rewritten s x \<Longrightarrow> eq_depth x \<le> Suc (eq_depth l + eq_depth r)"
  "eq_core rw l r = Negation x \<Longrightarrow> eq_depth x \<le> eq_depth l + eq_depth r"
  by (auto simp: eq_core_def dest: eq_ite_value_depth eq_bool_depth split: if_splits option.splits bterm.splits)

function mk_not :: "bool_rewriter \<Rightarrow> bterm \<Rightarrow> bterm" where
  "mk_not rw t =
     (case t of
        T_not a \<Rightarrow> a
      | T_true \<Rightarrow> T_false
      | T_false \<Rightarrow> T_true
      | T_eq a b \<Rightarrow>
          if is_bool a then
            (let tmp = mk_not rw a
             in case eq_core rw tmp b of
                  Rewritten s r \<Rightarrow> r
                | Negation u \<Rightarrow> mk_not rw u
                | Failed \<Rightarrow> T_eq tmp b)
          else T_not t
      | _ \<Rightarrow> T_not t)"
  by pat_completeness auto

lemma mk_not_depth:
  assumes "mk_not_dom (rw, t)"
  shows "eq_depth (mk_not rw t) \<le> eq_depth t"
  using assms
proof (induction rule: mk_not.pinduct)
  case (1 rw t)
  show ?case
  proof (cases "\<exists>a b. t = T_eq a b \<and> is_bool a")
    case True
    then obtain a b where t: "t = T_eq a b" "is_bool a" by blast
    have tmp: "eq_depth (mk_not rw a) \<le> eq_depth a" using 1(2) t by simp
    show ?thesis
    proof (cases "eq_core rw (mk_not rw a) b")
      case (Rewritten s r)
      then show ?thesis using tmp t eq_core_depth(1) [OF Rewritten] 1(1) by (simp add: mk_not.psimps)
    next
      case (Negation u)
      have "eq_depth (mk_not rw u) \<le> eq_depth u" using 1(3) t Negation by simp
      then show ?thesis using tmp t eq_core_depth(2) [OF Negation] Negation 1(1) by (simp add: mk_not.psimps)
    next
      case Failed
      then show ?thesis using tmp t 1(1) by (simp add: mk_not.psimps)
    qed
  next
    case False
    then show ?thesis using 1(1) by (auto simp: mk_not.psimps split: bterm.splits)
  qed
qed

termination mk_not
proof (relation "measure (\<lambda>(rw, t). eq_depth t)")
  fix rw :: bool_rewriter and t a b tmp u
  assume t: "t = T_eq a b" and "is_bool a"
  show "((rw, a), rw, t) \<in> measure (\<lambda>(rw, t). eq_depth t)" by (simp add: t)
  assume tmp: "tmp = mk_not rw a" and d: "mk_not_dom (rw, a)" and u: "eq_core rw tmp b = Negation u"
  show "((rw, u), rw, t) \<in> measure (\<lambda>(rw, t). eq_depth t)"
    using eq_core_depth(2) [OF u] mk_not_depth [OF d] by (simp add: t tmp)
qed simp

declare mk_not.simps [simp del]

definition mk_eq_core :: "bool_rewriter \<Rightarrow> bterm \<Rightarrow> bterm \<Rightarrow> rewrite" where
  "mk_eq_core rw lhs rhs =
     (case eq_core rw lhs rhs of
        Rewritten s r \<Rightarrow> Some (s, r) | Negation u \<Rightarrow> Some (BR_DONE, mk_not rw u) | Failed \<Rightarrow> None)"

definition mk_eq :: "bool_rewriter \<Rightarrow> bterm \<Rightarrow> bterm \<Rightarrow> bterm" where
  "mk_eq rw lhs rhs = (case mk_eq_core rw lhs rhs of Some (s, r) \<Rightarrow> r | None \<Rightarrow> T_eq lhs rhs)"

section \<open>Conjunctions and the literals of a connective\<close>

text \<open>
  The arguments without units and repetitions. The marks are the atoms seen with and without a
  negation; \<open>None\<close> is the absorbing element, for a complementary pair or an argument that is one.
\<close>

fun collect_lits :: "bterm \<Rightarrow> bterm \<Rightarrow> bterm list \<Rightarrow> bterm set \<Rightarrow> bterm set \<Rightarrow> bool \<Rightarrow> (bterm list \<times> bool) option" where
  "collect_lits unit zero [] neg_lits pos_lits s = Some ([], s)"
| "collect_lits unit zero (arg # args) neg_lits pos_lits s =
     (if arg = unit then collect_lits unit zero args neg_lits pos_lits True
      else if arg = zero then None
      else
        (case arg of
           T_not atom \<Rightarrow>
             if atom \<in> neg_lits then collect_lits unit zero args neg_lits pos_lits True
             else if atom \<in> pos_lits then None
             else map_option (apfst ((#) arg)) (collect_lits unit zero args (insert atom neg_lits) pos_lits s)
         | _ \<Rightarrow>
             if arg \<in> pos_lits then collect_lits unit zero args neg_lits pos_lits True
             else if arg \<in> neg_lits then None
             else map_option (apfst ((#) arg)) (collect_lits unit zero args neg_lits (insert arg pos_lits) s)))"

definition mk_nflat_and_core :: "bterm list \<Rightarrow> rewrite" where
  "mk_nflat_and_core args =
     (case collect_lits T_true T_false args {} {} False of
        None \<Rightarrow> Some (BR_DONE, T_false)
      | Some ([], s) \<Rightarrow> Some (BR_DONE, T_true)
      | Some ([a], s) \<Rightarrow> Some (BR_DONE, a)
      | Some (buffer, s) \<Rightarrow> if s then Some (BR_DONE, T_and buffer) else None)"

definition flatten :: "(bterm \<Rightarrow> bool) \<Rightarrow> bterm list \<Rightarrow> bterm list" where
  "flatten p args = concat (map (\<lambda>a. if p a then get_args a else [a]) args)"

definition mk_flat_and_core :: "bterm list \<Rightarrow> rewrite" where
  "mk_flat_and_core args =
     (if list_ex is_and args then
        (let flat_args = flatten is_and args
         in Some (BR_DONE, case mk_nflat_and_core flat_args of Some (s, r) \<Rightarrow> r | None \<Rightarrow> T_and flat_args))
      else mk_nflat_and_core args)"

section \<open>Local-context simplification\<close>

fun nested_or_loop :: "bterm list \<Rightarrow> bterm set \<Rightarrow> bterm set \<Rightarrow> (bterm list \<times> bool) option" where
  "nested_or_loop [] neg_lits pos_lits = Some ([], False)"
| "nested_or_loop (arg # args) neg_lits pos_lits =
     (if arg \<in> neg_lits then None
      else if arg \<in> pos_lits then map_option (apsnd (\<lambda>_. True)) (nested_or_loop args neg_lits pos_lits)
      else
        (case arg of
           T_not atom \<Rightarrow>
             if atom \<in> neg_lits then map_option (apsnd (\<lambda>_. True)) (nested_or_loop args neg_lits pos_lits)
             else if atom \<in> pos_lits then None
             else map_option (apfst ((#) arg)) (nested_or_loop args neg_lits pos_lits)
         | _ \<Rightarrow> map_option (apfst ((#) arg)) (nested_or_loop args neg_lits pos_lits)))"

text \<open>The negation of a disjunction, when the marked literals simplify it.\<close>

definition simp_nested_not_or :: "bool_rewriter \<Rightarrow> bterm list \<Rightarrow> bterm set \<Rightarrow> bterm set \<Rightarrow> bterm option" where
  "simp_nested_not_or rw args neg_lits pos_lits =
     (case nested_or_loop args neg_lits pos_lits of
        None \<Rightarrow> Some T_false
      | Some (new_args, simp) \<Rightarrow>
          if simp then
            (case new_args of
               [] \<Rightarrow> Some T_true
             | [a] \<Rightarrow> Some (mk_not rw a)
             | _ \<Rightarrow> Some (T_not (T_or new_args)))
          else None)"

text \<open>An argument with its value in the local context, and whether it has one.\<close>

definition simp_arg :: "bterm \<Rightarrow> bterm set \<Rightarrow> bterm set \<Rightarrow> bterm \<times> bool" where
  "simp_arg arg neg_lits pos_lits =
     (case arg of
        T_not atom \<Rightarrow>
          if atom \<in> neg_lits then (T_false, True) else if atom \<in> pos_lits then (T_true, True) else (arg, False)
      | _ \<Rightarrow>
          if arg \<in> neg_lits then (T_true, True) else if arg \<in> pos_lits then (T_false, True) else (arg, False))"

definition mk_nested_ite :: "bool_rewriter \<Rightarrow> bterm \<Rightarrow> bterm \<Rightarrow> bterm \<Rightarrow> bterm" where
  "mk_nested_ite rw c t e =
     (if c = T_true then t
      else if c = T_false then e
      else if t = e then t
      else if is_bool t then
        (if t = T_true then (if e = T_false then c else T_or [c, e])
         else if t = T_false then
           (if e = T_true then mk_not rw c else T_not (T_or [c, mk_not rw e]))
         else if e = T_true then T_or [mk_not rw c, t]
         else if e = T_false \<or> c = e then T_not (T_or [mk_not rw c, mk_not rw t])
         else if c = t then T_or [c, e]
         else if is_complement_core t e \<or> is_complement_core e t then mk_eq rw c t
         else T_ite c t e)
      else T_ite c t e)"

definition simp_nested_eq_ite :: "bool_rewriter \<Rightarrow> bterm \<Rightarrow> bterm set \<Rightarrow> bterm set \<Rightarrow> bterm option" where
  "simp_nested_eq_ite rw arg neg_lits pos_lits =
     (let (neg, t) = (case arg of T_not a \<Rightarrow> (True, a) | _ \<Rightarrow> (False, arg));
          finish = (\<lambda>r. if neg then mk_not rw r else r)
      in case t of
           T_eq a b \<Rightarrow>
             (let (lhs, m1) = simp_arg a neg_lits pos_lits; (rhs, m2) = simp_arg b neg_lits pos_lits
              in if m1 \<or> m2 then Some (finish (mk_eq rw lhs rhs)) else None)
         | T_ite c t e \<Rightarrow>
             (let (c, m1) = simp_arg c neg_lits pos_lits; (t, m2) = simp_arg t neg_lits pos_lits;
                  (e, m3) = simp_arg e neg_lits pos_lits
              in if m1 \<or> m2 \<or> m3 then Some (finish (mk_nested_ite rw c t e)) else None)
         | _ \<Rightarrow> None)"

text \<open>The state of a pass over the arguments; the cost is a field of the rewriter and persists.\<close>

record local_ctx =
  lc_new_args :: "bterm list"
  lc_neg :: "bterm set"
  lc_pos :: "bterm set"
  lc_modified :: bool
  lc_simp :: bool
  lc_cost :: "32 word"

definition push_new_arg :: "bterm \<Rightarrow> local_ctx \<Rightarrow> local_ctx" where
  "push_new_arg arg st =
     (case arg of
        T_not narg \<Rightarrow>
          if narg \<notin> lc_neg st
          then st\<lparr>lc_neg := insert narg (lc_neg st), lc_new_args := lc_new_args st @ [arg]\<rparr> else st
      | _ \<Rightarrow>
          if arg \<notin> lc_pos st
          then st\<lparr>lc_pos := insert arg (lc_pos st), lc_new_args := lc_new_args st @ [arg]\<rparr> else st)"

definition nested_not_or :: "bool_rewriter \<Rightarrow> bterm \<Rightarrow> local_ctx \<Rightarrow> bterm \<times> local_ctx" where
  "nested_not_or rw arg st =
     (case arg of
        T_not (T_or args) \<Rightarrow>
          (let st = st\<lparr>lc_cost := lc_cost st + of_nat (length args)\<rparr>
           in case simp_nested_not_or rw args (lc_neg st) (lc_pos st) of
                Some r \<Rightarrow> (r, st\<lparr>lc_modified := True, lc_simp := True\<rparr>)
              | None \<Rightarrow> (arg, st))
      | _ \<Rightarrow> (arg, st))"

definition nested_eq_ite :: "bool_rewriter \<Rightarrow> bterm \<Rightarrow> local_ctx \<Rightarrow> bterm \<times> local_ctx" where
  "nested_eq_ite rw arg st =
     (let st = st\<lparr>lc_cost := lc_cost st + 3\<rparr>
      in case simp_nested_eq_ite rw arg (lc_neg st) (lc_pos st) of
           Some r \<Rightarrow> (r, st\<lparr>lc_modified := True, lc_simp := True\<rparr>)
         | None \<Rightarrow> (arg, st))"

text \<open>One argument; \<open>True\<close> is the return with the result true.\<close>

definition process_arg :: "bool_rewriter \<Rightarrow> bterm \<Rightarrow> local_ctx \<Rightarrow> bool \<times> local_ctx" where
  "process_arg rw arg st =
     (let (arg, st) = nested_not_or rw arg st; (arg, st) = nested_eq_ite rw arg st
      in if arg = T_false then (False, st)
         else if arg = T_true then (True, st)
         else if m_flat rw \<and> is_or arg then (False, fold push_new_arg (get_args arg) st)
         else (False, push_new_arg arg st))"

fun process_args :: "bool_rewriter \<Rightarrow> bterm list \<Rightarrow> local_ctx \<Rightarrow> bool \<times> local_ctx" where
  "process_args rw [] st = (False, st)"
| "process_args rw (arg # args) st =
     (case process_arg rw arg st of (ret, st) \<Rightarrow> if ret then (True, st) else process_args rw args st)"

definition mk_or_app :: "bterm list \<Rightarrow> bterm" where
  "mk_or_app args = (case args of [] \<Rightarrow> T_false | [a] \<Rightarrow> a | _ \<Rightarrow> T_or args)"

partial_function (option) local_ctx_loop ::
  "bool_rewriter \<Rightarrow> bool \<Rightarrow> bterm list \<Rightarrow> bool \<Rightarrow> bool \<Rightarrow> 32 word \<Rightarrow> (bterm option \<times> 32 word) option" where
  "local_ctx_loop rw forward args simp modified cost =
     (case process_args rw (if forward then args else rev args)
         \<lparr>lc_new_args = [], lc_neg = {}, lc_pos = {}, lc_modified = modified, lc_simp = simp,
          lc_cost = cost + 2 * of_nat (length args)\<rparr> of
        (ret, st) \<Rightarrow>
          if ret then Some (Some T_true, lc_cost st)
          else if forward then
            local_ctx_loop rw False (lc_new_args st) (lc_simp st) (lc_modified st) (lc_cost st)
          else if \<not> lc_modified st then
            Some (if lc_simp st then Some (mk_or_app args) else None, lc_cost st)
          else local_ctx_loop rw True (rev (lc_new_args st)) (lc_simp st) False (lc_cost st))"

definition local_ctx_simp :: "bool_rewriter \<Rightarrow> bterm list \<Rightarrow> 32 word \<Rightarrow> (bterm option \<times> 32 word) option" where
  "local_ctx_simp rw args cost = local_ctx_loop rw True args False False cost"

end
