(* ===== verification/BoolConnectives.thy ===== *)
theory BoolConnectives
  imports BoolRewriter
begin

text \<open>
  The connectives of ast/rewriter/bool_rewriter.cpp that may start a local-context simplification: they
  return the rewriter's cost counter along with the result, and \<open>None\<close> when they do not return.
\<close>

section \<open>Disjunctions and conjunctions\<close>

type_synonym 'a costly = "('a \<times> 32 word) option"

definition mk_nflat_or_core :: "bool_rewriter \<Rightarrow> bterm list \<Rightarrow> 32 word \<Rightarrow> rewrite costly" where
  "mk_nflat_or_core rw args cost =
     (case collect_lits T_false T_true args {} {} False of
        None \<Rightarrow> Some (Some (BR_DONE, T_true), cost)
      | Some ([], s) \<Rightarrow> Some (Some (BR_DONE, T_false), cost)
      | Some ([a], s) \<Rightarrow> Some (Some (BR_DONE, a), cost)
      | Some (buffer, s) \<Rightarrow>
          (let plain = (\<lambda>cost. Some (if s then Some (BR_DONE, T_or buffer) else None, cost))
           in if m_local_ctx rw \<and> cost \<le> m_local_ctx_limit rw then
                do { (r, cost) \<leftarrow> local_ctx_simp rw buffer cost;
                     case r of Some t \<Rightarrow> Some (Some (BR_DONE, t), cost) | None \<Rightarrow> plain cost }
              else plain cost))"

definition mk_flat_or_core :: "bool_rewriter \<Rightarrow> bterm list \<Rightarrow> 32 word \<Rightarrow> rewrite costly" where
  "mk_flat_or_core rw args cost =
     (if list_ex is_or args then
        (let flat_args = flatten is_or args
         in do { (r, cost) \<leftarrow> mk_nflat_or_core rw flat_args cost;
                 Some (Some (BR_DONE, case r of Some (s, t) \<Rightarrow> t | None \<Rightarrow> T_or flat_args), cost) })
      else mk_nflat_or_core rw args cost)"

definition mk_or_core :: "bool_rewriter \<Rightarrow> bterm list \<Rightarrow> 32 word \<Rightarrow> rewrite costly" where
  "mk_or_core rw args cost = (if m_flat rw then mk_flat_or_core rw args cost else mk_nflat_or_core rw args cost)"

definition mk_or :: "bool_rewriter \<Rightarrow> bterm list \<Rightarrow> 32 word \<Rightarrow> bterm costly" where
  "mk_or rw args cost =
     do { (r, cost) \<leftarrow> mk_or_core rw args cost;
          Some (case r of Some (s, t) \<Rightarrow> t | None \<Rightarrow> T_or args, cost) }"

definition mk_and_as_or :: "bool_rewriter \<Rightarrow> bterm list \<Rightarrow> 32 word \<Rightarrow> bterm costly" where
  "mk_and_as_or rw args cost =
     do { (tmp, cost) \<leftarrow> mk_or rw (map (mk_not rw) args) cost; Some (mk_not rw tmp, cost) }"

definition mk_and_core :: "bool_rewriter \<Rightarrow> bterm list \<Rightarrow> 32 word \<Rightarrow> rewrite costly" where
  "mk_and_core rw args cost =
     (if m_elim_and rw then do { (r, cost) \<leftarrow> mk_and_as_or rw args cost; Some (Some (BR_DONE, r), cost) }
      else if m_flat rw then Some (mk_flat_and_core args, cost)
      else Some (mk_nflat_and_core args, cost))"

definition mk_and :: "bool_rewriter \<Rightarrow> bterm list \<Rightarrow> 32 word \<Rightarrow> bterm costly" where
  "mk_and rw args cost =
     do { (r, cost) \<leftarrow> mk_and_core rw args cost;
          Some (case r of Some (s, t) \<Rightarrow> t | None \<Rightarrow> T_and args, cost) }"

definition mk_nand :: "bool_rewriter \<Rightarrow> bterm list \<Rightarrow> 32 word \<Rightarrow> bterm costly" where
  "mk_nand rw args cost = do { (tmp, cost) \<leftarrow> mk_and rw args cost; Some (mk_not rw tmp, cost) }"

definition mk_nor :: "bool_rewriter \<Rightarrow> bterm list \<Rightarrow> 32 word \<Rightarrow> bterm costly" where
  "mk_nor rw args cost = do { (tmp, cost) \<leftarrow> mk_or rw args cost; Some (mk_not rw tmp, cost) }"

definition mk_xor :: "bool_rewriter \<Rightarrow> bterm \<Rightarrow> bterm \<Rightarrow> bterm" where
  "mk_xor rw lhs rhs = mk_eq rw (mk_not rw lhs) rhs"

definition mk_implies :: "bool_rewriter \<Rightarrow> bterm \<Rightarrow> bterm \<Rightarrow> 32 word \<Rightarrow> bterm costly" where
  "mk_implies rw lhs rhs cost = mk_or rw [mk_not rw lhs, rhs] cost"

section \<open>Distinct\<close>

fun all_diseqs :: "bterm list \<Rightarrow> bterm list" where
  "all_diseqs [] = []"
| "all_diseqs (a # args) = map (\<lambda>b. T_not (T_eq a b)) args @ all_diseqs args"

definition mk_distinct_core :: "bool_rewriter \<Rightarrow> bterm list \<Rightarrow> rewrite" where
  "mk_distinct_core rw args =
     (if length args \<le> 1 then Some (BR_DONE, T_true)
      else if length args = 2 then Some (BR_REWRITE2, T_not (T_eq (args ! 0) (args ! 1)))
      else if \<not> distinct args then Some (BR_DONE, T_false)
      else if list_all is_value args then Some (BR_DONE, T_true)
      else if is_bool (args ! 0) then Some (BR_DONE, T_false)
      else if m_blast_distinct rw \<and> length args < m_blast_distinct_threshold rw then
        Some (BR_REWRITE3, T_and (all_diseqs args))
      else None)"

section \<open>If-then-else\<close>

text \<open>The arguments after the rules on negated and repeated conditions, and whether a rule applied.\<close>

definition ite_normalize :: "bterm \<Rightarrow> bterm \<Rightarrow> bterm \<Rightarrow> bterm \<times> bterm \<times> bterm \<times> bool" where
  "ite_normalize c t e =
     (let (c, t, e, s) = (case c of T_not c' \<Rightarrow> (c', e, t, True) | _ \<Rightarrow> (c, t, e, False));
          (t, s) = (case t of T_ite c2 t1 t2 \<Rightarrow> if c2 = c then (t1, True) else (t, s) | _ \<Rightarrow> (t, s));
          (e, s) = (case e of T_ite c2 t1 t2 \<Rightarrow> if c2 = c then (t2, True) else (e, s) | _ \<Rightarrow> (e, s))
      in (c, t, e, s))"

definition rewrite_done :: "bterm costly \<Rightarrow> rewrite costly" where
  "rewrite_done r = map_option (apfst (\<lambda>t. Some (BR_DONE, t))) r"

text \<open>The Boolean if-then-else; \<open>None\<close> when no rule applies.\<close>

definition ite_bool :: "bool_rewriter \<Rightarrow> bterm \<Rightarrow> bterm \<Rightarrow> bterm \<Rightarrow> 32 word \<Rightarrow> rewrite costly option" where
  "ite_bool rw c t e cost =
     (if t = T_true \<and> e = T_false then Some (Some (Some (BR_DONE, c), cost))
      else if t = T_true \<and> m_elim_ite rw then Some (rewrite_done (mk_or rw [c, e] cost))
      else if t = T_false \<and> e = T_true then Some (Some (Some (BR_DONE, mk_not rw c), cost))
      else if t = T_false \<and> m_elim_ite rw then Some (rewrite_done (mk_and rw [mk_not rw c, e] cost))
      else if e = T_true \<and> m_elim_ite rw then Some (rewrite_done (mk_or rw [mk_not rw c, t] cost))
      else if e = T_false \<and> m_elim_ite rw then Some (rewrite_done (mk_and rw [c, t] cost))
      else if c = e \<and> m_elim_ite rw then Some (rewrite_done (mk_and rw [c, t] cost))
      else if c = t \<and> m_elim_ite rw then Some (rewrite_done (mk_or rw [c, e] cost))
      else if is_complement_core t e \<and> m_elim_ite rw then Some (Some (Some (BR_DONE, mk_eq rw c t), cost))
      else if is_complement_core e t \<and> m_elim_ite rw then Some (Some (Some (BR_DONE, mk_eq rw c t), cost))
      else None)"

definition rewrite_ite :: "bterm \<Rightarrow> bterm \<Rightarrow> bterm costly \<Rightarrow> rewrite costly" where
  "rewrite_ite t e new_c = map_option (apfst (\<lambda>c. Some (BR_REWRITE1, T_ite c t e))) new_c"

text \<open>The rules that merge the conditions of nested if-then-else terms.\<close>

definition ite_merge_then :: "bool_rewriter \<Rightarrow> bterm \<Rightarrow> bterm \<Rightarrow> bterm \<Rightarrow> 32 word \<Rightarrow> rewrite costly option" where
  "ite_merge_then rw c t e cost =
     (case t of
        T_ite c2 t1 t2 \<Rightarrow>
          if e = t1 then Some (rewrite_ite t2 e (mk_and rw [c, mk_not rw c2] cost))
          else if e = t2 then Some (rewrite_ite t1 e (mk_and rw [c, c2] cost))
          else
            (case e of
               T_ite c3 e1 e2 \<Rightarrow>
                 if t1 = e1 \<and> t2 = e2 then
                   Some (rewrite_ite t1 t2 (do {
                     (and1, cost) \<leftarrow> mk_and rw [c, c2] cost;
                     (and2, cost) \<leftarrow> mk_and rw [mk_not rw c, c3] cost;
                     mk_or rw [and1, and2] cost }))
                 else if t1 = e2 \<and> t2 = e1 then
                   Some (rewrite_ite t1 t2 (do {
                     (and1, cost) \<leftarrow> mk_and rw [c, c2] cost;
                     (and2, cost) \<leftarrow> mk_and rw [mk_not rw c, mk_not rw c3] cost;
                     mk_or rw [and1, and2] cost }))
                 else None
             | _ \<Rightarrow> None)
      | _ \<Rightarrow> None)"

definition ite_merge_else :: "bool_rewriter \<Rightarrow> bterm \<Rightarrow> bterm \<Rightarrow> bterm \<Rightarrow> 32 word \<Rightarrow> rewrite costly option" where
  "ite_merge_else rw c t e cost =
     (case e of
        T_ite c2 e1 e2 \<Rightarrow>
          if t = e1 then Some (rewrite_ite t e2 (mk_or rw [c, c2] cost))
          else if t = e2 then Some (rewrite_ite t e1 (mk_or rw [c, mk_not rw c2] cost))
          else None
      | _ \<Rightarrow> None)"

definition mk_ite_core :: "bool_rewriter \<Rightarrow> bterm \<Rightarrow> bterm \<Rightarrow> bterm \<Rightarrow> 32 word \<Rightarrow> rewrite costly" where
  "mk_ite_core rw c0 t0 e0 cost =
     (case ite_normalize c0 t0 e0 of (c, t, e, s) \<Rightarrow>
        if c = T_true then Some (Some (BR_DONE, t), cost)
        else if c = T_false then Some (Some (BR_DONE, e), cost)
        else if t = e then Some (Some (BR_DONE, t), cost)
        else
          (case (if is_bool t then ite_bool rw c t e cost else None) of
             Some r \<Rightarrow> r
           | None \<Rightarrow>
               (case (if m_ite_extra_rules rw \<and> m_elim_ite rw then ite_merge_then rw c t e cost else None) of
                  Some r \<Rightarrow> r
                | None \<Rightarrow>
                    (case (if m_ite_extra_rules rw \<and> m_elim_ite rw then ite_merge_else rw c t e cost else None) of
                       Some r \<Rightarrow> r
                     | None \<Rightarrow> Some (if s then Some (BR_DONE, T_ite c t e) else None, cost)))))"

definition mk_not_core :: "bool_rewriter \<Rightarrow> bterm \<Rightarrow> rewrite" where
  "mk_not_core rw t =
     (case t of
        T_not a \<Rightarrow> Some (BR_DONE, a)
      | T_true \<Rightarrow> Some (BR_DONE, T_false)
      | T_false \<Rightarrow> Some (BR_DONE, T_true)
      | T_eq a b \<Rightarrow> if is_bool a then Some (BR_DONE, mk_eq rw (mk_not rw a) b) else None
      | _ \<Rightarrow> None)"

section \<open>Applications\<close>

text \<open>The rewriting of an application of a basic symbol.\<close>

definition mk_app_core :: "bool_rewriter \<Rightarrow> bterm \<Rightarrow> 32 word \<Rightarrow> rewrite costly" where
  "mk_app_core rw app cost =
     (case app of
        T_eq a b \<Rightarrow> Some (mk_eq_core rw a b, cost)
      | T_distinct args \<Rightarrow> Some (mk_distinct_core rw args, cost)
      | T_and args \<Rightarrow> mk_and_core rw args cost
      | T_or args \<Rightarrow> mk_or_core rw args cost
      | T_not a \<Rightarrow> Some (mk_not_core rw a, cost)
      | T_ite c t e \<Rightarrow> mk_ite_core rw c t e cost
      | T_implies a b \<Rightarrow> rewrite_done (mk_implies rw a b cost)
      | T_xor args \<Rightarrow>
          (case args of
             [] \<Rightarrow> Some (None, cost)
           | [a] \<Rightarrow> Some (Some (BR_DONE, a), cost)
           | [a, b] \<Rightarrow> Some (Some (BR_DONE, mk_xor rw a b), cost)
           | _ \<Rightarrow> None)
      | _ \<Rightarrow> Some (None, cost))"

end
