(* ===== verification/BoolProof.thy ===== *)
theory BoolProof
  imports BoolConnectives
begin

text \<open>
  Semantics of the terms, and correctness of negation, equality, the collection of literals and the
  local-context simplification: every rewriting of a well-sorted term is well sorted, keeps the sort and
  keeps the value in every interpretation.
\<close>

section \<open>Semantics\<close>

datatype bval = BoolVal bool | NumVal nat

record interp =
  i_bool :: "nat \<Rightarrow> bool"
  i_val :: "nat \<Rightarrow> nat"

fun eval :: "interp \<Rightarrow> bterm \<Rightarrow> bval" where
  "eval I T_true = BoolVal True"
| "eval I T_false = BoolVal False"
| "eval I (T_not t) = BoolVal (eval I t \<noteq> BoolVal True)"
| "eval I (T_and ts) = BoolVal (\<forall>t \<in> set ts. eval I t = BoolVal True)"
| "eval I (T_or ts) = BoolVal (\<exists>t \<in> set ts. eval I t = BoolVal True)"
| "eval I (T_eq a b) = BoolVal (eval I a = eval I b)"
| "eval I (T_ite c t e) = (if eval I c = BoolVal True then eval I t else eval I e)"
| "eval I (T_distinct ts) = BoolVal (distinct (map (eval I) ts))"
| "eval I (T_implies a b) = BoolVal (eval I a = BoolVal True \<longrightarrow> eval I b = BoolVal True)"
| "eval I (T_xor ts) = BoolVal (odd (length (filter (\<lambda>t. eval I t = BoolVal True) ts)))"
| "eval I (T_value n) = NumVal n"
| "eval I (T_const b n) = (if b then BoolVal (i_bool I n) else NumVal (i_val I n))"

fun wt :: "bterm \<Rightarrow> bool" where
  "wt (T_not t) = (wt t \<and> is_bool t)"
| "wt (T_and ts) = (\<forall>t \<in> set ts. wt t \<and> is_bool t)"
| "wt (T_or ts) = (\<forall>t \<in> set ts. wt t \<and> is_bool t)"
| "wt (T_eq a b) = (wt a \<and> wt b \<and> is_bool a = is_bool b)"
| "wt (T_ite c t e) = (wt c \<and> is_bool c \<and> wt t \<and> wt e \<and> is_bool t = is_bool e)"
| "wt (T_distinct ts) = (\<forall>t \<in> set ts. wt t \<and> is_bool t = is_bool (hd ts))"
| "wt (T_implies a b) = (wt a \<and> is_bool a \<and> wt b \<and> is_bool b)"
| "wt (T_xor ts) = (\<forall>t \<in> set ts. wt t \<and> is_bool t)"
| "wt _ = True"

abbreviation truth :: "interp \<Rightarrow> bterm \<Rightarrow> bool" where
  "truth I t \<equiv> eval I t = BoolVal True"

text \<open>Connectives are read through their truth, not their value, so that equations stay symmetric.\<close>

lemma truth_simps [simp]:
  "truth I (T_not t) \<longleftrightarrow> \<not> truth I t"
  "truth I (T_and ts) \<longleftrightarrow> (\<forall>t \<in> set ts. truth I t)"
  "truth I (T_or ts) \<longleftrightarrow> (\<exists>t \<in> set ts. truth I t)"
  "truth I (T_eq a b) \<longleftrightarrow> eval I a = eval I b"
  "truth I (T_distinct ts) \<longleftrightarrow> distinct (map (eval I) ts)"
  "truth I (T_implies a b) \<longleftrightarrow> (truth I a \<longrightarrow> truth I b)"
  "truth I (T_xor ts) \<longleftrightarrow> odd (length (filter (\<lambda>t. truth I t) ts))"
  by simp_all

lemma eval_sort: "wt t \<Longrightarrow> if is_bool t then \<exists>b. eval I t = BoolVal b else \<exists>n. eval I t = NumVal n"
  by (induction t) auto

declare eval.simps(3-6,8-10) [simp del]

lemma eval_bool: "\<lbrakk>wt t; is_bool t\<rbrakk> \<Longrightarrow> eval I t = BoolVal (truth I t)"
  using eval_sort [of t I] by auto

lemma truth_cases:
  assumes "wt t" "is_bool t"
  obtains "eval I t = BoolVal True" | "eval I t = BoolVal False"
  using eval_bool [OF assms, of I] by (cases "truth I t") auto

lemma not_truth: "\<lbrakk>wt t; is_bool t\<rbrakk> \<Longrightarrow> eval I t \<noteq> BoolVal True \<longleftrightarrow> eval I t = BoolVal False"
  by (erule truth_cases [of t I]) auto

text \<open>A term stands for a Boolean function of the interpretation.\<close>

definition rep :: "bterm \<Rightarrow> (interp \<Rightarrow> bool) \<Rightarrow> bool" where
  "rep t P \<longleftrightarrow> wt t \<and> is_bool t \<and> (\<forall>I. truth I t = P I)"

lemma bool_eq:
  "\<lbrakk>wt a; is_bool a; wt b; is_bool b\<rbrakk> \<Longrightarrow> eval I a = eval I b \<longleftrightarrow> truth I a = truth I b"
  by (erule truth_cases [of a I]; erule truth_cases [of b I]; simp)

lemma repD: "rep t P \<Longrightarrow> wt t" "rep t P \<Longrightarrow> is_bool t" "rep t P \<Longrightarrow> truth I t = P I"
  by (simp_all add: rep_def)

lemma rep_simps [simp]:
  "rep T_true P \<longleftrightarrow> (\<forall>I. P I)" "rep T_false P \<longleftrightarrow> (\<forall>I. \<not> P I)"
  "rep (T_not t) P \<longleftrightarrow> rep t (\<lambda>I. \<not> P I)"
  by (auto simp: rep_def)

lemma value_eval: "\<lbrakk>is_value a; is_value b\<rbrakk> \<Longrightarrow> eval I a = eval I b \<longleftrightarrow> a = b"
  by (cases a; cases b) auto

lemma are_distinct_eval: "are_distinct a b \<Longrightarrow> eval I a \<noteq> eval I b"
  using value_eval [of a b I] by (auto simp: are_distinct_def)

lemmas are_distinct_evals = are_distinct_eval are_distinct_eval [THEN not_sym]

lemma value_wt: "is_value v \<Longrightarrow> wt v"
  by (cases v) auto

section \<open>Equality and negation\<close>

lemma try_ite_value_sound:
  "\<lbrakk>try_ite_value t v = Some (s, r); wt t; wt v; is_bool t = is_bool v\<rbrakk> \<Longrightarrow> rep r (\<lambda>I. eval I t = eval I v)"
proof (induction t v arbitrary: s r rule: try_ite_value.induct)
  case (1 c t e v)
  note prems = 1(3-6)
  consider "are_distinct v e" | "\<not> are_distinct v e" "are_distinct v t"
    | "\<not> are_distinct v e" "\<not> are_distinct v t" "v = t \<or> v = e"
    | r' s' where "\<not> are_distinct v e" "\<not> are_distinct v t" "v \<noteq> t" "v \<noteq> e" "has_value_branches t"
        "try_ite_value t v = Some (s', r')" "r = T_ite c r' (T_eq e v)"
    | r' s' where "\<not> are_distinct v e" "\<not> are_distinct v t" "v \<noteq> t" "v \<noteq> e" "\<not> has_value_branches t" "has_value_branches e"
        "try_ite_value e v = Some (s', r')" "r = T_ite c (T_eq t v) r'"
    using 1(3) by (auto simp: are_equal_def split: if_splits)
  then show ?case
  proof cases
    case 1
    then show ?thesis using prems are_distinct_evals [OF 1] by (auto simp: rep_def)
  next
    case 2
    then show ?thesis
      using prems are_distinct_evals [OF 2(2)] by (auto simp: rep_def)
  next
    case 3
    then consider "v = t" "v = e" "r = T_true" | "v = t" "r = T_or [T_eq e v, c]" | "v = e" "r = T_or [T_eq t v, T_not c]"
      using prems(1) by (auto simp: are_equal_def split: if_splits)
    then show ?thesis using prems(2-4) by cases (auto simp: rep_def)
  next
    case (4 r' s')
    have "rep r' (\<lambda>I. eval I t = eval I v)" using 1(1) [of s' r'] 4 prems by (simp add: are_equal_def)
    then show ?thesis using 4 prems by (auto simp: rep_def)
  next
    case (5 r' s')
    have "rep r' (\<lambda>I. eval I e = eval I v)" using 1(2) [of s' r'] 5 prems by (simp add: are_equal_def)
    then show ?thesis using 5 prems by (auto simp: rep_def)
  qed
qed simp_all

definition step_means :: "eq_step \<Rightarrow> (interp \<Rightarrow> bool) \<Rightarrow> bool" where
  "step_means r P = (case r of Rewritten s t \<Rightarrow> rep t P | Negation t \<Rightarrow> rep t (\<lambda>I. \<not> P I) | Failed \<Rightarrow> True)"

lemma complement_eval: "is_complement a b \<Longrightarrow> wt a \<Longrightarrow> wt b \<Longrightarrow> eval I a \<noteq> eval I b"
  by (auto simp: is_complement_def is_complement_core_def bool_eq)

lemma opposite_eval: "\<lbrakk>opposite_equations a b; wt a; wt b\<rbrakk> \<Longrightarrow> eval I a \<noteq> eval I b"
  by (auto simp: opposite_equations_def bool_eq split: bterm.splits)

lemma eq_bool_means:
  assumes "wt l" "is_bool l" "wt r" "is_bool r"
  shows "step_means (eq_bool u l r) (\<lambda>I. eval I l = eval I r)"
  using assms complement_eval [of l r] opposite_eval [of l r]
  by (auto simp: step_means_def eq_bool_def rep_def bool_eq split: if_splits)

lemma eq_ite_value_means:
  "\<lbrakk>eq_ite_value rw l r = Some (s, t); wt l; wt r; is_bool l = is_bool r\<rbrakk>
    \<Longrightarrow> rep t (\<lambda>I. eval I l = eval I r)"
  using try_ite_value_sound [of l r s t] try_ite_value_sound [of r l s t]
  by (auto simp: eq_ite_value_def rep_def eq_commute [of "eval _ r"] split: if_splits)

lemma step_means_cong: "\<lbrakk>step_means r P; \<And>I. P I = Q I\<rbrakk> \<Longrightarrow> step_means r Q"
  by (auto simp: step_means_def rep_def split: eq_step.splits)

lemma eq_core_means:
  assumes "wt l" "wt r" "is_bool l = is_bool r"
  shows "step_means (eq_core rw l r) (\<lambda>I. eval I l = eval I r)"
proof (cases "l = r \<or> are_distinct l r \<or> eq_ite_value rw l r \<noteq> None")
  case True
  then show ?thesis using assms are_distinct_eval [of l r] eq_ite_value_means [of rw l r]
    by (auto simp: eq_core_def are_equal_def step_means_def rep_def)
next
  case False
  show ?thesis
  proof (cases "is_bool l")
    case b: True
    have c: "eq_core rw l r = (case l of T_not a \<Rightarrow>
        (case r of T_not c \<Rightarrow> eq_bool True a c | _ \<Rightarrow> eq_bool False l r) | _ \<Rightarrow> eq_bool False l r)"
      using False b by (cases "eq_ite_value rw l r") (simp_all add: eq_core_def are_equal_def)
    show ?thesis
    proof (cases "\<exists>a b. l = T_not a \<and> r = T_not b")
      case True
      then obtain a c where n: "l = T_not a" "r = T_not c" by blast
      have "step_means (eq_bool True a c) (\<lambda>I. eval I l = eval I r)"
        by (rule step_means_cong [OF eq_bool_means]) (use assms in \<open>auto simp: n bool_eq\<close>)
      then show ?thesis using c by (simp add: n)
    next
      case n: False
      then have "eq_core rw l r = eq_bool False l r"
        using c by (cases l; cases r) simp_all
      then show ?thesis using eq_bool_means [of l r False] assms b by simp
    qed
  next
    case b: False
    then show ?thesis using False
      by (cases "eq_ite_value rw l r") (simp_all add: eq_core_def are_equal_def step_means_def)
  qed
qed

lemma mk_not_means: "\<lbrakk>wt t; is_bool t\<rbrakk> \<Longrightarrow> rep (mk_not rw t) (\<lambda>I. \<not> truth I t)"
proof (induction rw t rule: mk_not.induct)
  case (1 rw t)
  show ?case
  proof (cases "\<exists>a b. t = T_eq a b \<and> is_bool a")
    case True
    then obtain a b where t: "t = T_eq a b" "is_bool a" by blast
    let ?tmp = "mk_not rw a"
    have tmp: "rep ?tmp (\<lambda>I. \<not> truth I a)" using 1(1) [OF t] 1(3) t by simp
    have ab: "wt a" "wt b" "is_bool b" using 1(3) t by auto
    have "step_means (eq_core rw ?tmp b) (\<lambda>I. eval I ?tmp = eval I b)"
      using tmp ab by (intro eq_core_means) (simp_all add: rep_def)
    then have m: "step_means (eq_core rw ?tmp b) (\<lambda>I. \<not> truth I t)"
      using tmp ab by (elim step_means_cong) (auto simp: rep_def bool_eq t)
    show ?thesis
    proof (cases "eq_core rw ?tmp b")
      case (Rewritten s r)
      then show ?thesis using m t by (simp add: mk_not.simps [of rw "T_eq a b"] step_means_def)
    next
      case (Negation u)
      then have u: "rep u (\<lambda>I. truth I t)" using m by (simp add: step_means_def)
      have "rep (mk_not rw u) (\<lambda>I. \<not> truth I u)" using 1(2) [OF t refl Negation] u by (simp add: rep_def)
      then show ?thesis using Negation t u by (simp add: mk_not.simps [of rw "T_eq a b"] rep_def)
    next
      case Failed
      then show ?thesis using tmp ab t by (auto simp: mk_not.simps [of rw "T_eq a b"] rep_def bool_eq)
    qed
  next
    case False
    then have "mk_not rw t = (case t of T_not a \<Rightarrow> a | T_true \<Rightarrow> T_false | T_false \<Rightarrow> T_true | _ \<Rightarrow> T_not t)"
      by (subst mk_not.simps) (auto split: bterm.splits)
    then show ?thesis using 1(3,4) by (auto simp: rep_def split: bterm.splits)
  qed
qed

lemma mk_eq_core_means:
  "\<lbrakk>mk_eq_core rw l r = Some (s, t); wt l; wt r; is_bool l = is_bool r\<rbrakk> \<Longrightarrow> rep t (\<lambda>I. eval I l = eval I r)"
  using eq_core_means [of l r rw] mk_not_means
  by (auto simp: mk_eq_core_def step_means_def rep_def split: eq_step.splits)

lemma mk_eq_means: "\<lbrakk>wt l; wt r; is_bool l = is_bool r\<rbrakk> \<Longrightarrow> rep (mk_eq rw l r) (\<lambda>I. eval I l = eval I r)"
  using mk_eq_core_means [of rw l r] by (auto simp: mk_eq_def rep_def split: option.splits)

section \<open>The literals of a connective\<close>

text \<open>
  For a conjunction (\<open>p\<close> true) and a disjunction (\<open>p\<close> false): the marks say which atoms the arguments seen
  so far determine, when all of these have the value \<open>p\<close>.
\<close>

definition marks_hold :: "bool \<Rightarrow> bterm set \<Rightarrow> bterm set \<Rightarrow> interp \<Rightarrow> bool" where
  "marks_hold p neg_lits pos_lits I =
     ((\<forall>a \<in> neg_lits. truth I a = (\<not> p)) \<and> (\<forall>a \<in> pos_lits. truth I a = p))"

definition all_have :: "bool \<Rightarrow> interp \<Rightarrow> bterm list \<Rightarrow> bool" where
  "all_have p I ts = (\<forall>t \<in> set ts. truth I t = p)"

lemma all_have_simps [simp]:
  "all_have p I []" "all_have p I (t # ts) \<longleftrightarrow> truth I t = p \<and> all_have p I ts"
  by (auto simp: all_have_def)

lemma marks_hold_insert:
  "marks_hold p (insert a neg) pos I \<longleftrightarrow> truth I a = (\<not> p) \<and> marks_hold p neg pos I"
  "marks_hold p neg (insert a pos) I \<longleftrightarrow> truth I a = p \<and> marks_hold p neg pos I"
  by (auto simp: marks_hold_def)

lemma marks_holdD:
  "marks_hold p neg pos I \<Longrightarrow> a \<in> neg \<Longrightarrow> truth I a = (\<not> p)"
  "marks_hold p neg pos I \<Longrightarrow> a \<in> pos \<Longrightarrow> truth I a = p"
  by (auto simp: marks_hold_def)

text \<open>A literal and its atom, without the case distinction over all terms.\<close>

definition atom :: "bterm \<Rightarrow> bterm" where
  "atom t = (case t of T_not a \<Rightarrow> a | _ \<Rightarrow> t)"

lemma truth_atom: "truth I (atom t) \<longleftrightarrow> truth I t \<noteq> is_not t"
  by (cases t) (simp_all add: atom_def)

lemma atom_sort: "is_not t \<or> is_bool t \<Longrightarrow> wt t \<Longrightarrow> wt (atom t) \<and> is_bool (atom t)"
  by (cases t) (simp_all add: atom_def)

lemma collect_lits_Cons:
  "collect_lits unit zero (arg # args) neg pos s =
     (if arg = unit then collect_lits unit zero args neg pos True
      else if arg = zero then None
      else if is_not arg then
        (if atom arg \<in> neg then collect_lits unit zero args neg pos True
         else if atom arg \<in> pos then None
         else map_option (apfst ((#) arg)) (collect_lits unit zero args (insert (atom arg) neg) pos s))
      else
        (if atom arg \<in> pos then collect_lits unit zero args neg pos True
         else if atom arg \<in> neg then None
         else map_option (apfst ((#) arg)) (collect_lits unit zero args neg (insert (atom arg) pos) s)))"
  by (cases arg) (simp_all add: atom_def)

declare collect_lits.simps(2) [simp del]

lemma collect_lits_set: "collect_lits unit zero args neg pos s = Some (buf, s') \<Longrightarrow> set buf \<subseteq> set args"
proof (induction args arbitrary: neg pos s buf)
  case (Cons a args)
  from Cons.prems show ?case
    by (auto simp: collect_lits_Cons split: if_splits dest!: Cons.IH)
qed simp

text \<open>A repeated argument or a unit only sets the flag.\<close>

lemma collect_lits_means:
  assumes "truth I unit = p" "truth I zero = (\<not> p)" "marks_hold p neg pos I"
  shows "case collect_lits unit zero args neg pos s of
      None \<Rightarrow> \<not> all_have p I args | Some (buf, s') \<Rightarrow> all_have p I buf = all_have p I args"
  using assms(3)
proof (induction args arbitrary: neg pos s)
  case (Cons a args)
  note t = truth_atom [of I a]
  consider "a = unit" | "a = zero" "a \<noteq> unit"
    | "a \<noteq> unit" "a \<noteq> zero" "is_not a" "atom a \<in> neg" | "a \<noteq> unit" "a \<noteq> zero" "is_not a" "atom a \<notin> neg" "atom a \<in> pos"
    | "a \<noteq> unit" "a \<noteq> zero" "\<not> is_not a" "atom a \<in> pos" | "a \<noteq> unit" "a \<noteq> zero" "\<not> is_not a" "atom a \<notin> pos" "atom a \<in> neg"
    | "a \<noteq> unit" "a \<noteq> zero" "atom a \<notin> neg" "atom a \<notin> pos"
    by blast
  then show ?case
  proof cases
    case 7
    let ?neg = "if is_not a then insert (atom a) neg else neg" and ?pos = "if is_not a then pos else insert (atom a) pos"
    have m: "truth I a = p \<Longrightarrow> marks_hold p ?neg ?pos I"
      using Cons.prems t by (auto simp: marks_hold_insert)
    have c: "collect_lits unit zero (a # args) neg pos s = map_option (apfst ((#) a)) (collect_lits unit zero args ?neg ?pos s)"
      using 7 by (simp add: collect_lits_Cons)
    show ?thesis unfolding c using Cons.IH [of ?neg ?pos s] m
      by (cases "truth I a = p"; cases "collect_lits unit zero args ?neg ?pos s") (auto split del: if_split)
  qed (use Cons.IH [OF Cons.prems, of True] t marks_holdD [OF Cons.prems, of "atom a"] assms(1,2) in
      \<open>auto simp: collect_lits_Cons split: option.splits\<close>)
qed simp

lemma collect_lits_start:
  "\<lbrakk>truth I unit = p; truth I zero = (\<not> p)\<rbrakk> \<Longrightarrow>
    case collect_lits unit zero args {} {} s of
      None \<Rightarrow> \<not> all_have p I args | Some (buf, s') \<Rightarrow> all_have p I buf = all_have p I args"
  by (rule collect_lits_means) (auto simp: marks_hold_def)

lemma mk_nflat_and_means:
  assumes "mk_nflat_and_core args = Some (s, t)" "wt (T_and args)"
  shows "rep t (\<lambda>I. truth I (T_and args))"
proof -
  let ?c = "collect_lits T_true T_false args {} {} False"
  have m: "case ?c of None \<Rightarrow> \<not> all_have True I args | Some (buf, s') \<Rightarrow> all_have True I buf = all_have True I args" for I
    by (rule collect_lits_start) simp_all
  show ?thesis
  proof (cases ?c)
    case None
    then show ?thesis using assms m by (auto simp: mk_nflat_and_core_def all_have_def)
  next
    case (Some r)
    obtain buf s' where r: "r = (buf, s')" by (cases r)
    have "set buf \<subseteq> set args" using Some collect_lits_set r by blast
    then have "wt (T_and buf)" "\<And>I. truth I (T_and buf) = truth I (T_and args)"
      using assms(2) m Some r by (auto simp: all_have_def)
    moreover have "t = T_and buf \<or> buf = [t] \<or> buf = [] \<and> t = T_true"
      using assms(1) Some r by (auto simp: mk_nflat_and_core_def split: list.splits if_splits)
    ultimately show ?thesis by (auto simp: rep_def)
  qed
qed

lemma flatten_simps [simp]:
  "flatten p [] = []" "flatten p (a # args) = (if p a then get_args a else [a]) @ flatten p args"
  by (simp_all add: flatten_def)

lemma all_have_append [simp]: "all_have p I (xs @ ys) \<longleftrightarrow> all_have p I xs \<and> all_have p I ys"
  by (auto simp: all_have_def)

lemma all_have_args:
  "is_and a \<Longrightarrow> all_have True I (get_args a) = truth I a"
  "is_or a \<Longrightarrow> all_have False I (get_args a) = (\<not> truth I a)"
  by (cases a; auto simp: all_have_def)+

lemma all_have_flatten:
  "all_have True I (flatten is_and args) = all_have True I args"
  "all_have False I (flatten is_or args) = all_have False I args"
  by (induction args) (auto simp: all_have_args)

abbreviation bool_terms :: "bterm list \<Rightarrow> bool" where
  "bool_terms ts \<equiv> \<forall>t \<in> set ts. wt t \<and> is_bool t"

lemma bool_args: "\<lbrakk>t \<in> set (get_args a); is_and a \<or> is_or a; wt a\<rbrakk> \<Longrightarrow> wt t \<and> is_bool t"
  by (cases a) auto

lemma bool_terms_flatten:
  "bool_terms args \<Longrightarrow> bool_terms (flatten is_and args)"
  "bool_terms args \<Longrightarrow> bool_terms (flatten is_or args)"
  unfolding flatten_def by (auto split: if_splits dest: bool_args)

lemma mk_flat_and_means:
  assumes "mk_flat_and_core args = Some (s, t)" "wt (T_and args)"
  shows "rep t (\<lambda>I. truth I (T_and args))"
proof (cases "list_ex is_and args")
  case True
  let ?f = "flatten is_and args"
  have f: "wt (T_and ?f)" "\<And>I. truth I (T_and ?f) = truth I (T_and args)"
    using assms(2) bool_terms_flatten(1) [of args] all_have_flatten(1) [of _ args] by (auto simp: all_have_def)
  have "t = T_and ?f \<or> (\<exists>s'. mk_nflat_and_core ?f = Some (s', t))"
    using assms(1) True by (auto simp: mk_flat_and_core_def Let_def split: option.splits)
  then show ?thesis using f mk_nflat_and_means [of ?f _ t] by (auto simp: rep_def)
next
  case False
  then show ?thesis using assms mk_nflat_and_means by (simp add: mk_flat_and_core_def)
qed

section \<open>Weights\<close>

text \<open>
  The weight of a term bounds the passes of the local-context simplification: negations cost at most one
  more, and rewriting an equation or if-then-else with a truth value in it makes the term lighter.
\<close>

fun wgt :: "bterm \<Rightarrow> nat" where
  "wgt (T_not t) = Suc (wgt t)"
| "wgt (T_and ts) = Suc (sum_list (map wgt ts))"
| "wgt (T_or ts) = Suc (sum_list (map wgt ts))"
| "wgt (T_eq a b) = 4 + wgt a + wgt b"
| "wgt (T_ite c t e) = 10 + wgt c + wgt t + wgt e"
| "wgt _ = 1"

lemma wgt_pos [simp]: "0 < wgt t"
  by (cases t) auto

lemma wgt_value [simp]: "is_value v \<Longrightarrow> wgt v = 1"
  by (cases v) auto

lemma value_branches_wgt:
  assumes "try_ite_value t v = Some (s, r)" "has_value_branches t" "is_value v" "wt t" "is_bool t = is_bool v"
  shows "wgt r + 4 \<le> wgt t"
proof (cases t)
  case (T_ite c a b)
  have ab: "is_value a" "is_value b" "is_bool a = is_bool b" "is_bool v = is_bool a" using assms T_ite by auto
  then have "are_distinct v b \<or> are_equal v b" "are_distinct v a \<or> are_equal v a"
    using assms(3) by (auto simp: are_distinct_def are_equal_def)
  then show ?thesis using assms(1,3) ab by (auto simp: T_ite are_equal_def split: if_splits)
qed (use assms in simp_all)

lemma try_ite_value_wgt:
  assumes "try_ite_value t v = Some (s, r)" "is_value v" "wt t" "is_bool t = is_bool v"
  shows "wgt r < wgt (T_eq t v)"
proof (cases t)
  case (T_ite c a b)
  note vb = value_branches_wgt [OF _ _ assms(2)]
  have ab: "is_bool a = is_bool v" "is_bool b = is_bool v" "wt a" "wt b" using assms T_ite by auto
  show ?thesis
  proof (cases "are_distinct v b \<or> are_distinct v a \<or> v = a \<or> v = b")
    case True
    then show ?thesis using assms(1,2) by (auto simp: T_ite are_equal_def split: if_splits)
  next
    case False
    then show ?thesis using assms(1,2) vb [of a] vb [of b] ab
      by (fastforce simp: T_ite are_equal_def split: if_splits)
  qed
qed (use assms in simp_all)

definition step_wgt :: "eq_step \<Rightarrow> nat \<Rightarrow> bool" where
  "step_wgt r n = (case r of Rewritten s t \<Rightarrow> wgt t \<le> n | Negation t \<Rightarrow> Suc (wgt t) \<le> n | Failed \<Rightarrow> True)"

abbreviation is_truth :: "bterm \<Rightarrow> bool" where
  "is_truth t \<equiv> t = T_true \<or> t = T_false"

lemma eq_bool_wgt:
  "step_wgt (eq_bool u l r) (4 + wgt l + wgt r)"
  "is_truth l \<or> is_truth r \<Longrightarrow> step_wgt (eq_bool u l r) (3 + wgt l + wgt r)"
  by (auto simp: step_wgt_def eq_bool_def)

lemma eq_ite_value_wgt:
  "\<lbrakk>eq_ite_value rw l r = Some (s, t); wt l; wt r; is_bool l = is_bool r\<rbrakk> \<Longrightarrow> wgt t < wgt (T_eq l r)"
  using try_ite_value_wgt [of l r s t] try_ite_value_wgt [of r l s t]
  by (auto simp: eq_ite_value_def split: if_splits)

lemma step_wgt_mono: "\<lbrakk>step_wgt r m; m \<le> n\<rbrakk> \<Longrightarrow> step_wgt r n"
  by (auto simp: step_wgt_def split: eq_step.splits)

lemma eq_core_cases:
  assumes "l \<noteq> r" "\<not> are_distinct l r" "eq_ite_value rw l r = None" "is_bool l"
  obtains a b where "l = T_not a" "r = T_not b" "eq_core rw l r = eq_bool True a b"
  | "eq_core rw l r = eq_bool False l r"
  using assms by (cases l; cases r) (auto simp: eq_core_def are_equal_def)

lemma eq_core_wgt:
  assumes "wt l" "wt r" "is_bool l = is_bool r"
  shows "step_wgt (eq_core rw l r) (4 + wgt l + wgt r)"
    and "is_truth l \<or> is_truth r \<Longrightarrow> step_wgt (eq_core rw l r) (3 + wgt l + wgt r)"
    and "is_truth l \<or> is_truth r \<Longrightarrow> eq_core rw l r \<noteq> Failed"
proof -
  have "step_wgt (eq_core rw l r) (4 + wgt l + wgt r) \<and>
    (is_truth l \<or> is_truth r \<longrightarrow> step_wgt (eq_core rw l r) (3 + wgt l + wgt r) \<and> eq_core rw l r \<noteq> Failed)"
  proof (cases "l = r \<or> are_distinct l r \<or> eq_ite_value rw l r \<noteq> None")
    case True
    then consider "l = r" | "l \<noteq> r" "are_distinct l r"
      | s t where "l \<noteq> r" "\<not> are_distinct l r" "eq_ite_value rw l r = Some (s, t)"
      by fast
    then show ?thesis
    proof cases
      case (3 s t)
      then show ?thesis using eq_ite_value_wgt [OF 3(3) assms] by (simp add: eq_core_def are_equal_def step_wgt_def)
    qed (simp_all add: eq_core_def are_equal_def step_wgt_def)
  next
    case False
    show ?thesis
    proof (cases "is_bool l")
      case True
      have ne: "l \<noteq> r" "\<not> are_distinct l r" "eq_ite_value rw l r = None" using False by blast+
      show ?thesis
      proof (rule eq_core_cases [OF ne True])
        fix a b assume "l = T_not a" "r = T_not b" "eq_core rw l r = eq_bool True a b"
        then show ?thesis using eq_bool_wgt(1) [of True a b] by (auto intro: step_wgt_mono)
      next
        assume "eq_core rw l r = eq_bool False l r"
        then show ?thesis using eq_bool_wgt(1) [of False l r] eq_bool_wgt(2) [of l r False] by (auto simp: eq_bool_def)
      qed
    next
      case b: False
      then show ?thesis using False assms
        by (cases "eq_ite_value rw l r") (auto simp: eq_core_def are_equal_def step_wgt_def)
    qed
  qed
  then show "step_wgt (eq_core rw l r) (4 + wgt l + wgt r)"
    and "is_truth l \<or> is_truth r \<Longrightarrow> step_wgt (eq_core rw l r) (3 + wgt l + wgt r)"
    and "is_truth l \<or> is_truth r \<Longrightarrow> eq_core rw l r \<noteq> Failed" by blast+
qed

lemma mk_not_wgt: "\<lbrakk>wt t; is_bool t\<rbrakk> \<Longrightarrow> wgt (mk_not rw t) \<le> Suc (wgt t)"
proof (induction rw t rule: mk_not.induct)
  case (1 rw t)
  show ?case
  proof (cases "\<exists>a b. t = T_eq a b \<and> is_bool a")
    case True
    then obtain a b where t: "t = T_eq a b" "is_bool a" by blast
    let ?tmp = "mk_not rw a"
    have ab: "wt a" "wt b" "is_bool b" using 1(3) t by auto
    have tmp: "wt ?tmp" "is_bool ?tmp" "wgt ?tmp \<le> Suc (wgt a)"
      using mk_not_means [OF ab(1) t(2), of rw] 1(1) [OF t] ab t by (simp_all add: rep_def)
    have w: "step_wgt (eq_core rw ?tmp b) (Suc (wgt t))"
      using tmp ab by (intro step_wgt_mono [OF eq_core_wgt(1)]) (simp_all add: t)
    show ?thesis
    proof (cases "eq_core rw ?tmp b")
      case (Negation u)
      have "rep u (\<lambda>I. \<not> eval I ?tmp = eval I b)"
        using eq_core_means [of ?tmp b rw] Negation tmp ab by (simp add: step_means_def)
      then have "wgt (mk_not rw u) \<le> Suc (wgt u)" using 1(2) [OF t refl Negation] by (simp add: rep_def)
      then show ?thesis using Negation t w by (simp add: mk_not.simps [of rw "T_eq a b"] step_wgt_def)
    qed (use w tmp t in \<open>simp_all add: mk_not.simps [of rw "T_eq a b"] step_wgt_def\<close>)
  next
    case False
    then have "mk_not rw t = (case t of T_not a \<Rightarrow> a | T_true \<Rightarrow> T_false | T_false \<Rightarrow> T_true | _ \<Rightarrow> T_not t)"
      by (subst mk_not.simps) (auto split: bterm.splits)
    then show ?thesis by (auto split: bterm.splits)
  qed
qed

lemma mk_eq_wgt:
  assumes "wt l" "wt r" "is_bool l = is_bool r"
  shows "wgt (mk_eq rw l r) \<le> 4 + wgt l + wgt r"
    and "is_truth l \<or> is_truth r \<Longrightarrow> wgt (mk_eq rw l r) \<le> 3 + wgt l + wgt r"
proof -
  have n: "wgt (mk_not rw u) \<le> Suc (wgt u)" if "eq_core rw l r = Negation u" for u
    using eq_core_means [OF assms, of rw] that by (intro mk_not_wgt) (simp_all add: step_means_def rep_def)
  show "wgt (mk_eq rw l r) \<le> 4 + wgt l + wgt r"
    using eq_core_wgt(1) [OF assms, of rw] n
    by (fastforce simp: mk_eq_def mk_eq_core_def step_wgt_def split: eq_step.splits)
  show "is_truth l \<or> is_truth r \<Longrightarrow> wgt (mk_eq rw l r) \<le> 3 + wgt l + wgt r"
    using eq_core_wgt(2,3) [OF assms, of rw] n
    by (fastforce simp: mk_eq_def mk_eq_core_def step_wgt_def split: eq_step.splits)
qed

end
