(* ===== verification/BoolLocal.thy ===== *)
theory BoolLocal
  imports BoolProof
begin

text \<open>
  The local-context simplification of disjunctions in ast/rewriter/bool_rewriter.cpp: each argument is
  simplified under the assumption that the arguments before it are false. The result is equivalent to the
  disjunction, and the passes over the arguments come to an end because each pass that changes something
  makes the arguments lighter.
\<close>

section \<open>Terms under the marks\<close>

definition same_under :: "bterm set \<Rightarrow> bterm set \<Rightarrow> bterm \<Rightarrow> bterm \<Rightarrow> bool" where
  "same_under neg pos t u \<longleftrightarrow>
     wt u \<and> is_bool u = is_bool t \<and> (\<forall>I. marks_hold False neg pos I \<longrightarrow> eval I u = eval I t)"

lemma same_under_refl: "wt t \<Longrightarrow> same_under neg pos t t"
  by (simp add: same_under_def)

lemma same_under_trans: "\<lbrakk>same_under neg pos t u; same_under neg pos u v\<rbrakk> \<Longrightarrow> same_under neg pos t v"
  by (simp add: same_under_def)

lemma same_under_rep:
  "\<lbrakk>rep u P; wt t; is_bool t; \<And>I. marks_hold False neg pos I \<Longrightarrow> P I = truth I t\<rbrakk> \<Longrightarrow> same_under neg pos t u"
  by (auto simp: same_under_def rep_def bool_eq)

section \<open>Negated disjunctions\<close>

lemma nested_or_loop_Cons:
  "nested_or_loop (arg # args) neg pos =
     (if arg \<in> neg \<or> is_not arg \<and> arg \<notin> pos \<and> atom arg \<notin> neg \<and> atom arg \<in> pos then None
      else if arg \<in> pos \<or> is_not arg \<and> atom arg \<in> neg then map_option (apsnd (\<lambda>_. True)) (nested_or_loop args neg pos)
      else map_option (apfst ((#) arg)) (nested_or_loop args neg pos))"
  by (cases arg) (auto simp: atom_def)

declare nested_or_loop.simps(2) [simp del]

lemma nested_or_loop_means:
  assumes m: "marks_hold False neg pos I"
  shows "case nested_or_loop args neg pos of
      None \<Rightarrow> \<not> all_have False I args | Some (ts, s) \<Rightarrow> all_have False I ts = all_have False I args"
proof (induction args)
  case (Cons a args)
  note d = marks_holdD [OF m, of a] marks_holdD [OF m, of "atom a"] truth_atom [of I a]
  show ?case using Cons d by (cases "nested_or_loop args neg pos") (auto simp: nested_or_loop_Cons)
qed simp

lemma nested_or_loop_wgt:
  "nested_or_loop args neg pos = Some (ts, s) \<Longrightarrow>
    set ts \<subseteq> set args \<and> sum_list (map wgt ts) + of_bool s \<le> sum_list (map wgt args)"
proof (induction args arbitrary: ts s)
  case (Cons a args)
  then obtain ts' s' where r: "nested_or_loop args neg pos = Some (ts', s')"
    by (auto simp: nested_or_loop_Cons split: if_splits)
  have "sum_list (map wgt ts') + 1 \<le> sum_list (map wgt (a # args))"
    using Cons.IH [OF r] wgt_pos [of a] by (simp del: wgt_pos)
  then show ?case using Cons.IH [OF r] Cons.prems r by (auto simp: nested_or_loop_Cons split: if_splits)
qed simp

lemma simp_nested_not_or_means:
  assumes "simp_nested_not_or rw args neg pos = Some r" "bool_terms args"
  shows "same_under neg pos (T_not (T_or args)) r \<and> wgt r < wgt (T_not (T_or args))"
proof (cases "nested_or_loop args neg pos")
  case None
  have "rep T_false (\<lambda>_. False)" by simp
  then show ?thesis
    using assms None nested_or_loop_means [of neg pos _ args]
    by (auto simp: simp_nested_not_or_def all_have_def intro!: same_under_rep)
next
  case (Some x)
  obtain ts s where x: "x = (ts, s)" by (cases x)
  note w = nested_or_loop_wgt [OF Some [unfolded x]]
  have ts: "bool_terms ts" using w assms(2) by auto
  have m: "all_have False I ts = all_have False I args" if "marks_hold False neg pos I" for I
    using nested_or_loop_means [OF that, of args] by (simp add: Some x)
  have s: s using assms(1) by (cases s) (auto simp: simp_nested_not_or_def Some x)
  have r: "r = (case ts of [] \<Rightarrow> T_true | [a] \<Rightarrow> mk_not rw a | _ \<Rightarrow> T_not (T_or ts))"
    using assms(1) s by (cases ts rule: remdups_adj.cases) (auto simp: simp_nested_not_or_def Some x)
  have "rep r (\<lambda>I. all_have False I ts)"
    using ts mk_not_means by (cases ts rule: remdups_adj.cases) (auto simp: r rep_def all_have_def)
  then have "same_under neg pos (T_not (T_or args)) r"
    using m assms(2) by (elim same_under_rep) (auto simp: all_have_def)
  moreover have "wgt r \<le> Suc (Suc (sum_list (map wgt ts)))"
    using ts by (cases ts rule: remdups_adj.cases) (auto simp: r intro: order.trans [OF mk_not_wgt])
  ultimately show ?thesis using w s by simp
qed

section \<open>Equations and conditionals\<close>

definition marks_ok :: "bterm set \<Rightarrow> bterm set \<Rightarrow> bool" where
  "marks_ok neg pos = (\<forall>a \<in> neg \<union> pos. wt a \<and> is_bool a)"

lemma simp_arg_eq:
  "simp_arg arg neg pos =
     (if is_not arg then
        (if atom arg \<in> neg then (T_false, True) else if atom arg \<in> pos then (T_true, True) else (arg, False))
      else (if atom arg \<in> neg then (T_true, True) else if atom arg \<in> pos then (T_false, True) else (arg, False)))"
  by (cases arg) (simp_all add: simp_arg_def atom_def)

lemma simp_arg_means:
  assumes "simp_arg t neg pos = (u, m)" "wt t" "marks_ok neg pos"
  shows "same_under neg pos t u \<and> wgt u \<le> wgt t \<and> (if m then is_truth u else u = t)"
proof (cases "atom t \<in> neg \<or> atom t \<in> pos")
  case True
  have b: "is_bool t"
  proof -
    have "is_bool (atom t)" using True assms(3) by (auto simp: marks_ok_def)
    then show ?thesis by (cases t) (simp_all add: atom_def)
  qed
  have u: "is_truth u \<and> m" using assms(1) True by (auto simp: simp_arg_eq split: if_splits)
  have "truth I u = truth I t" if "marks_hold False neg pos I" for I
    using assms(1) True marks_holdD [OF that, of "atom t"] truth_atom [of I t]
    by (auto simp: simp_arg_eq split: if_splits)
  moreover have "rep u (\<lambda>I. truth I u)" using u by (auto simp: rep_def)
  ultimately have "same_under neg pos t u" using b assms(2) by (elim same_under_rep) simp_all
  then show ?thesis using u wgt_pos [of t] by (auto simp: Suc_le_eq)
next
  case False
  then show ?thesis using assms by (auto simp: simp_arg_eq same_under_refl split: if_splits)
qed

lemma wgt_ite: "wgt (T_ite c t e) = 10 + wgt c + wgt t + wgt e"
  by simp

lemma mk_nested_ite_means:
  assumes "wt (T_ite c t e)" and r_def: "r = mk_nested_ite rw c t e"
  shows "wt r \<and> is_bool r = is_bool t \<and> (\<forall>I. eval I r = eval I (T_ite c t e)) \<and> wgt r \<le> wgt (T_ite c t e) \<and>
    (is_truth c \<or> is_truth t \<or> is_truth e \<longrightarrow> wgt r < wgt (T_ite c t e))"
proof -
  have wts: "wt c" "is_bool c" "wt t" "wt e" "is_bool e = is_bool t" using assms(1) by auto
  show ?thesis
  proof (cases "c = T_true \<or> c = T_false \<or> t = e \<or> \<not> is_bool t")
    case True
    then consider "c = T_true" | "c = T_false" | "c \<noteq> T_true" "c \<noteq> T_false" "t = e"
      | "c \<noteq> T_true" "c \<noteq> T_false" "t \<noteq> e" "\<not> is_bool t"
      by blast
    then show ?thesis
    proof cases
      case 4
      then have "t \<noteq> T_true" "t \<noteq> T_false" "e \<noteq> T_true" "e \<noteq> T_false" using wts by auto
      then show ?thesis using 4 assms(1) by (simp add: r_def mk_nested_ite_def)
    qed (use wts in \<open>simp_all add: r_def mk_nested_ite_def\<close>)
  next
    case False
    then have b: "c \<noteq> T_true" "c \<noteq> T_false" "t \<noteq> e" "is_bool t" "is_bool e" using wts by auto
    note n = mk_not_means [of c rw] mk_not_means [of t rw] mk_not_means [of e rw] mk_eq_means [of c t rw]
    note w = mk_not_wgt [of c rw] mk_not_wgt [of t rw] mk_not_wgt [of e rw] mk_eq_wgt [of c t rw]
    have "rep r (\<lambda>I. truth I (T_ite c t e)) \<and>
      (wgt r < wgt (T_ite c t e) \<or> r = T_ite c t e \<and> \<not> is_truth t \<and> \<not> is_truth e)"
    proof (cases "is_truth t \<or> is_truth e \<or> c = e \<or> c = t")
      case True
      then show ?thesis using wts b n(1-3) w(1-3)
        by (auto simp: r_def mk_nested_ite_def rep_def)
    next
      case False
      show ?thesis
      proof (cases "is_complement_core t e \<or> is_complement_core e t")
        case True
        then have "eval I t \<noteq> eval I e" for I
          using complement_eval [of t e I] wts by (auto simp: is_complement_def)
        then have "truth I t \<noteq> truth I e" for I using bool_eq [of t e I] wts b by simp
        then show ?thesis using True False wts b n(4) w(4)
          by (simp add: r_def mk_nested_ite_def rep_def bool_eq)
      qed (use False b wts in \<open>simp add: r_def mk_nested_ite_def rep_def\<close>)
    qed
    then show ?thesis using b wts by (auto simp: rep_def bool_eq)
  qed
qed

definition lighter :: "bterm set \<Rightarrow> bterm set \<Rightarrow> bterm \<Rightarrow> bterm \<Rightarrow> bool" where
  "lighter neg pos t u \<longleftrightarrow> same_under neg pos t u \<and> wgt u < wgt t"

lemma lighter_not:
  assumes "lighter neg pos t r" "wt t" "is_bool t"
  shows "lighter neg pos (T_not t) (mk_not rw r)"
proof -
  have r: "wt r" "is_bool r" "\<And>I. marks_hold False neg pos I \<Longrightarrow> truth I r = truth I t"
    using assms by (simp_all add: lighter_def same_under_def)
  have "same_under neg pos (T_not t) (mk_not rw r)"
    using assms r by (intro same_under_rep [OF mk_not_means [OF r(1,2)]]) simp_all
  then show ?thesis using mk_not_wgt [OF r(1,2), of rw] assms(1) by (simp add: lighter_def)
qed

lemma nested_eq_lighter:
  assumes "simp_arg a neg pos = (l, m1)" "simp_arg b neg pos = (r, m2)" "m1 \<or> m2"
    and "wt (T_eq a b)" "marks_ok neg pos"
  shows "lighter neg pos (T_eq a b) (mk_eq rw l r)"
proof -
  have l: "same_under neg pos a l" "wgt l \<le> wgt a" "m1 \<Longrightarrow> is_truth l"
    using simp_arg_means [OF assms(1) _ assms(5)] assms(4) by (simp_all split: if_splits)
  have r: "same_under neg pos b r" "wgt r \<le> wgt b" "m2 \<Longrightarrow> is_truth r"
    using simp_arg_means [OF assms(2) _ assms(5)] assms(4) by (simp_all split: if_splits)
  have wts: "wt l" "wt r" "is_bool l = is_bool r" using l r assms(4) by (simp_all add: same_under_def)
  have "same_under neg pos (T_eq a b) (mk_eq rw l r)"
    using l r assms(4) by (intro same_under_rep [OF mk_eq_means [OF wts]]) (simp_all add: same_under_def)
  moreover have "wgt (mk_eq rw l r) \<le> 3 + wgt l + wgt r"
    using l(3) r(3) assms(3) by (intro mk_eq_wgt(2) [OF wts]) blast
  ultimately show ?thesis using l(2) r(2) by (simp add: lighter_def)
qed

lemma nested_ite_lighter:
  assumes "simp_arg c neg pos = (c', m1)" "simp_arg t neg pos = (t', m2)" "simp_arg e neg pos = (e', m3)"
    and m: "m1 \<or> m2 \<or> m3" and "wt (T_ite c t e)" "marks_ok neg pos"
  shows "lighter neg pos (T_ite c t e) (mk_nested_ite rw c' t' e')"
proof -
  have c: "same_under neg pos c c'" "wgt c' \<le> wgt c" "m1 \<Longrightarrow> is_truth c'"
    using simp_arg_means [OF assms(1) _ assms(6)] assms(5) by (simp_all split: if_splits)
  have t: "same_under neg pos t t'" "wgt t' \<le> wgt t" "m2 \<Longrightarrow> is_truth t'"
    using simp_arg_means [OF assms(2) _ assms(6)] assms(5) by (simp_all split: if_splits)
  have e: "same_under neg pos e e'" "wgt e' \<le> wgt e" "m3 \<Longrightarrow> is_truth e'"
    using simp_arg_means [OF assms(3) _ assms(6)] assms(5) by (simp_all split: if_splits)
  have w: "wt (T_ite c' t' e')" using c t e assms(5) by (simp add: same_under_def)
  note r = mk_nested_ite_means [OF w refl, of rw]
  have "same_under neg pos (T_ite c t e) (mk_nested_ite rw c' t' e')"
    using r c t e by (simp add: same_under_def)
  moreover have "wgt (mk_nested_ite rw c' t' e') < wgt (T_ite c' t' e')"
    using r c(3) t(3) e(3) m by blast
  ultimately show ?thesis using c(2) t(2) e(2) by (simp add: lighter_def)
qed

lemma simp_nested_eq_ite_lighter:
  assumes "simp_nested_eq_ite rw arg neg pos = Some r" "wt arg" "is_bool arg" "marks_ok neg pos"
  shows "lighter neg pos arg r"
proof -
  define t where "t = atom arg"
  have wt: "wt t" "is_bool t" using atom_sort [of arg] assms(2,3) by (simp_all add: t_def)
  have arg: "arg = (if is_not arg then T_not t else t)" by (cases arg) (simp_all add: t_def atom_def)
  have split: "(case arg of T_not a \<Rightarrow> (True, a) | _ \<Rightarrow> (False, arg)) = (is_not arg, t)"
    by (cases arg) (simp_all add: t_def atom_def)
  obtain r0 where r0: "lighter neg pos t r0" "r = (if is_not arg then mk_not rw r0 else r0)"
  proof (cases "(\<exists>a b. t = T_eq a b) \<or> (\<exists>c a b. t = T_ite c a b)")
    case True
    then show thesis
    proof (elim disjE exE)
      fix a b assume t: "t = T_eq a b"
      obtain l m1 r' m2 where s: "simp_arg a neg pos = (l, m1)" "simp_arg b neg pos = (r', m2)"
        by (meson surj_pair)
      have "m1 \<or> m2" "r = (if is_not arg then mk_not rw (mk_eq rw l r') else mk_eq rw l r')"
        using assms(1) unfolding simp_nested_eq_ite_def split by (simp_all add: t s split: if_splits)
      then show thesis using that nested_eq_lighter [OF s _ _ assms(4)] wt(1) t by blast
    next
      fix c a b assume t: "t = T_ite c a b"
      obtain c' m1 a' m2 b' m3 where s: "simp_arg c neg pos = (c', m1)" "simp_arg a neg pos = (a', m2)"
          "simp_arg b neg pos = (b', m3)"
        by (meson surj_pair)
      have "m1 \<or> m2 \<or> m3"
          "r = (if is_not arg then mk_not rw (mk_nested_ite rw c' a' b') else mk_nested_ite rw c' a' b')"
        using assms(1) unfolding simp_nested_eq_ite_def split by (simp_all add: t s split: if_splits)
      then show thesis using that nested_ite_lighter [OF s _ _ assms(4)] wt(1) t by blast
    qed
  next
    case False
    then have "simp_nested_eq_ite rw arg neg pos = None"
      unfolding simp_nested_eq_ite_def split by (cases t) (simp_all add: Let_def)
    then show thesis using assms(1) by simp
  qed
  show ?thesis
  proof (cases "is_not arg")
    case True
    then have "arg = T_not t" using arg by simp
    then show ?thesis using lighter_not [OF r0(1) wt, of rw] r0(2) True by simp
  next
    case False
    then have "arg = t" using arg by simp
    then show ?thesis using r0 False by simp
  qed
qed

section \<open>One pass\<close>

text \<open>
  The state of a pass: the arguments kept so far are Boolean, and they are all false exactly when the marks
  hold.
\<close>

definition wf_ctx :: "local_ctx \<Rightarrow> bool" where
  "wf_ctx st \<longleftrightarrow> bool_terms (lc_new_args st) \<and> marks_ok (lc_neg st) (lc_pos st) \<and>
     (\<forall>I. all_have False I (lc_new_args st) = marks_hold False (lc_neg st) (lc_pos st) I)"

abbreviation ctx_wgt :: "local_ctx \<Rightarrow> nat" where
  "ctx_wgt st \<equiv> sum_list (map wgt (lc_new_args st)) + of_bool (lc_modified st)"

lemma push_new_arg_eq:
  "push_new_arg arg st =
     (if is_not arg then
        (if atom arg \<notin> lc_neg st
         then st\<lparr>lc_neg := insert (atom arg) (lc_neg st), lc_new_args := lc_new_args st @ [arg]\<rparr> else st)
      else
        (if atom arg \<notin> lc_pos st
         then st\<lparr>lc_pos := insert (atom arg) (lc_pos st), lc_new_args := lc_new_args st @ [arg]\<rparr> else st))"
  by (cases arg) (simp_all add: push_new_arg_def atom_def)

lemma push_new_arg_means:
  assumes "wf_ctx st" "wt arg" "is_bool arg"
  shows "wf_ctx (push_new_arg arg st)"
    and "all_have False I (lc_new_args (push_new_arg arg st)) = (all_have False I (lc_new_args st) \<and> \<not> truth I arg)"
    and "ctx_wgt (push_new_arg arg st) \<le> ctx_wgt st + wgt arg"
proof -
  have a: "wt (atom arg)" "is_bool (atom arg)" using atom_sort [of arg] assms(2,3) by simp_all
  have m: "marks_hold False (lc_neg (push_new_arg arg st)) (lc_pos (push_new_arg arg st)) J =
      (marks_hold False (lc_neg st) (lc_pos st) J \<and> \<not> truth J arg)" for J
    using truth_atom [of J arg] marks_holdD [of False "lc_neg st" "lc_pos st" J "atom arg"]
    by (auto simp: push_new_arg_eq marks_hold_insert)
  have n: "all_have False J (lc_new_args (push_new_arg arg st)) = (all_have False J (lc_new_args st) \<and> \<not> truth J arg)" for J
    using truth_atom [of J arg] marks_holdD [of False "lc_neg st" "lc_pos st" J "atom arg"] assms(1)
    by (auto simp: push_new_arg_eq wf_ctx_def)
  show "all_have False I (lc_new_args (push_new_arg arg st)) = (all_have False I (lc_new_args st) \<and> \<not> truth I arg)"
    by (rule n)
  have "marks_ok (lc_neg (push_new_arg arg st)) (lc_pos (push_new_arg arg st))"
    using assms(1) a by (auto simp: push_new_arg_eq wf_ctx_def marks_ok_def)
  moreover have "bool_terms (lc_new_args (push_new_arg arg st))"
    using assms by (auto simp: push_new_arg_eq wf_ctx_def)
  ultimately show "wf_ctx (push_new_arg arg st)" using m n assms(1) by (simp add: wf_ctx_def)
  show "ctx_wgt (push_new_arg arg st) \<le> ctx_wgt st + wgt arg" by (simp add: push_new_arg_eq)
qed

lemma fold_push_means:
  assumes "wf_ctx st" "bool_terms args"
  shows "wf_ctx (fold push_new_arg args st)"
    and "all_have False I (lc_new_args (fold push_new_arg args st)) = (all_have False I (lc_new_args st) \<and> all_have False I args)"
    and "ctx_wgt (fold push_new_arg args st) \<le> ctx_wgt st + sum_list (map wgt args)"
proof -
  have "wf_ctx (fold push_new_arg args st) \<and>
    all_have False I (lc_new_args (fold push_new_arg args st)) = (all_have False I (lc_new_args st) \<and> all_have False I args) \<and>
    ctx_wgt (fold push_new_arg args st) \<le> ctx_wgt st + sum_list (map wgt args)"
    using assms
  proof (induction args arbitrary: st)
    case (Cons a args)
    have a: "wt a" "is_bool a" using Cons.prems by simp_all
    note p = push_new_arg_means [OF Cons.prems(1) a]
    have args: "bool_terms args" using Cons.prems(2) by simp
    show ?case using Cons.IH [OF p(1) args] p(2) [of I] p(3) by (simp del: truth_simps)
  qed simp
  then show "wf_ctx (fold push_new_arg args st)"
    and "all_have False I (lc_new_args (fold push_new_arg args st)) = (all_have False I (lc_new_args st) \<and> all_have False I args)"
    and "ctx_wgt (fold push_new_arg args st) \<le> ctx_wgt st + sum_list (map wgt args)" by blast+
qed

text \<open>The two simplifications of an argument leave the marks and the arguments alone.\<close>

definition keeps_ctx :: "local_ctx \<Rightarrow> local_ctx \<Rightarrow> bool" where
  "keeps_ctx st st' \<longleftrightarrow> lc_new_args st' = lc_new_args st \<and> lc_neg st' = lc_neg st \<and> lc_pos st' = lc_pos st"

lemma keeps_ctx_wf: "keeps_ctx st st' \<Longrightarrow> wf_ctx st' = wf_ctx st"
  by (simp add: keeps_ctx_def wf_ctx_def)

lemma nested_not_or_means:
  assumes "nested_not_or rw arg st = (arg', st')" "wt arg"
  shows "keeps_ctx st st' \<and> same_under (lc_neg st) (lc_pos st) arg arg' \<and>
    wgt arg' + of_bool (lc_modified st') \<le> wgt arg + of_bool (lc_modified st)"
proof (cases "\<exists>args. arg = T_not (T_or args)")
  case True
  then obtain args where arg: "arg = T_not (T_or args)" by blast
  have b: "bool_terms args" using assms(2) by (simp add: arg)
  show ?thesis
    using assms simp_nested_not_or_means [OF _ b, of rw "lc_neg st" "lc_pos st"]
    by (cases "simp_nested_not_or rw args (lc_neg st) (lc_pos st)")
      (auto simp: nested_not_or_def arg Let_def keeps_ctx_def same_under_refl)
next
  case False
  have "nested_not_or rw arg st = (arg, st)"
  proof (cases arg)
    case (T_not x)
    then show ?thesis using False by (cases x) (simp_all add: nested_not_or_def)
  qed (simp_all add: nested_not_or_def)
  then show ?thesis using assms by (simp add: keeps_ctx_def same_under_refl)
qed

lemma nested_eq_ite_means:
  assumes "nested_eq_ite rw arg st = (arg', st')" "wt arg" "is_bool arg" "wf_ctx st"
  shows "keeps_ctx st st' \<and> same_under (lc_neg st) (lc_pos st) arg arg' \<and>
    wgt arg' + of_bool (lc_modified st') \<le> wgt arg + of_bool (lc_modified st)"
proof -
  have m: "marks_ok (lc_neg st) (lc_pos st)" using assms(4) by (simp add: wf_ctx_def)
  show ?thesis
    using assms(1,2) simp_nested_eq_ite_lighter [OF _ assms(2,3) m, of rw]
    by (cases "simp_nested_eq_ite rw arg (lc_neg st) (lc_pos st)")
      (auto simp: nested_eq_ite_def Let_def keeps_ctx_def same_under_refl lighter_def)
qed

lemma all_have_or_args: "is_or a \<Longrightarrow> wt a \<Longrightarrow> bool_terms (get_args a) \<and> sum_list (map wgt (get_args a)) \<le> wgt a"
  by (cases a) simp_all

lemma process_arg_means:
  assumes "process_arg rw arg st = (ret, st')" "wt arg" "is_bool arg" "wf_ctx st"
  shows "if ret then \<forall>I. all_have False I (lc_new_args st) \<longrightarrow> truth I arg
    else wf_ctx st' \<and> ctx_wgt st' \<le> ctx_wgt st + wgt arg \<and>
      (\<forall>I. all_have False I (lc_new_args st') = (all_have False I (lc_new_args st) \<and> \<not> truth I arg))"
proof -
  obtain a1 st1 where 1: "nested_not_or rw arg st = (a1, st1)" by (meson surj_pair)
  obtain a2 st2 where 2: "nested_eq_ite rw a1 st1 = (a2, st2)" by (meson surj_pair)
  note m1 = nested_not_or_means [OF 1 assms(2)]
  have a1: "wt a1" "is_bool a1" "wf_ctx st1"
    using m1 assms(3,4) keeps_ctx_wf by (auto simp: same_under_def)
  note m2 = nested_eq_ite_means [OF 2 a1]
  have k: "keeps_ctx st st2" using m1 m2 by (simp add: keeps_ctx_def)
  have s: "same_under (lc_neg st) (lc_pos st) arg a2"
    using m1 m2 by (auto simp: keeps_ctx_def intro: same_under_trans)
  have a2: "wt a2" "is_bool a2" using s assms(3) by (simp_all add: same_under_def)
  have wf2: "wf_ctx st2" using k assms(4) keeps_ctx_wf by blast
  have w: "ctx_wgt st2 + wgt a2 \<le> ctx_wgt st + wgt arg" using m1 m2 by (simp add: keeps_ctx_def)
  have t: "truth I a2 = truth I arg" if "all_have False I (lc_new_args st)" for I
    using s assms(4) that by (simp add: same_under_def wf_ctx_def)
  have n2: "lc_new_args st2 = lc_new_args st" using k by (simp add: keeps_ctx_def)
  have p: "process_arg rw arg st =
      (if a2 = T_false then (False, st2) else if a2 = T_true then (True, st2)
       else if m_flat rw \<and> is_or a2 then (False, fold push_new_arg (get_args a2) st2)
       else (False, push_new_arg a2 st2))"
    by (simp add: process_arg_def 1 2)
  consider "a2 = T_false" "\<not> ret" "st' = st2" | "a2 = T_true" "ret"
    | "is_or a2" "\<not> ret" "st' = fold push_new_arg (get_args a2) st2" | "\<not> ret" "st' = push_new_arg a2 st2"
    using assms(1) unfolding p by (auto split: if_splits)
  then show ?thesis
  proof cases
    case 1
    then show ?thesis using wf2 w t n2 by auto
  next
    case 2
    then show ?thesis using t by simp
  next
    case 3
    note o = all_have_or_args [OF 3(1) a2(1)] all_have_args(2) [OF 3(1)]
    have "bool_terms (get_args a2)" using o(1) by blast
    note f = fold_push_means [OF wf2 this]
    have "ctx_wgt st' \<le> ctx_wgt st2 + wgt a2" using f(3) o(1) 3(3) by simp
    then have "ctx_wgt st' \<le> ctx_wgt st + wgt arg" using w by (rule order.trans)
    then show ?thesis using f(1,2) 3(2,3) o(2) t n2 by (auto simp del: truth_simps)
  next
    case 4
    note f = push_new_arg_means [OF wf2 a2]
    have "ctx_wgt st' \<le> ctx_wgt st2 + wgt a2" using f(3) 4(2) by simp
    then have "ctx_wgt st' \<le> ctx_wgt st + wgt arg" using w by (rule order.trans)
    then show ?thesis using f(1,2) 4 t n2 by (auto simp del: truth_simps)
  qed
qed

lemma process_args_means:
  assumes "process_args rw args st = (ret, st')" "bool_terms args" "wf_ctx st"
  shows "if ret then \<forall>I. \<not> (all_have False I (lc_new_args st) \<and> all_have False I args)
    else wf_ctx st' \<and> ctx_wgt st' \<le> ctx_wgt st + sum_list (map wgt args) \<and>
      (\<forall>I. all_have False I (lc_new_args st') = (all_have False I (lc_new_args st) \<and> all_have False I args))"
  using assms
proof (induction args arbitrary: st)
  case (Cons a args)
  obtain r1 st1 where 1: "process_arg rw a st = (r1, st1)" by (meson surj_pair)
  have a: "wt a" "is_bool a" and args: "bool_terms args" using Cons.prems(2) by simp_all
  note m = process_arg_means [OF 1 a Cons.prems(3)]
  show ?case
  proof (cases r1)
    case True
    then show ?thesis using m Cons.prems(1) by (auto simp: 1)
  next
    case False
    then have "process_args rw args st1 = (ret, st')" "wf_ctx st1" using m Cons.prems(1) by (simp_all add: 1)
    from Cons.IH [OF this(1) args this(2)] show ?thesis using m False by (auto simp del: truth_simps)
  qed
qed simp

section \<open>All passes\<close>

lemma mk_or_app_means: "bool_terms args \<Longrightarrow> rep (mk_or_app args) (\<lambda>I. \<not> all_have False I args)"
  by (cases args rule: remdups_adj.cases) (auto simp: mk_or_app_def rep_def all_have_def)

lemma wf_ctx_start:
  "wf_ctx \<lparr>lc_new_args = [], lc_neg = {}, lc_pos = {}, lc_modified = m, lc_simp = s, lc_cost = c\<rparr>"
  by (simp add: wf_ctx_def marks_ok_def marks_hold_def)

lemma all_have_rev [simp]: "all_have p I (rev args) = all_have p I args"
  by (simp add: all_have_def)

text \<open>One pass as the loop sees it.\<close>

lemma pass_means:
  assumes "process_args rw args \<lparr>lc_new_args = [], lc_neg = {}, lc_pos = {}, lc_modified = m, lc_simp = s, lc_cost = c\<rparr> = (ret, st)"
    and "bool_terms args"
  shows "if ret then \<forall>I. \<not> all_have False I args
    else bool_terms (lc_new_args st) \<and> ctx_wgt st \<le> of_bool m + sum_list (map wgt args) \<and>
      (\<forall>I. all_have False I (lc_new_args st) = all_have False I args)"
  using process_args_means [OF assms wf_ctx_start] by (cases ret; cases "lc_modified st"; cases m) (auto simp: wf_ctx_def)

definition loop_result :: "(bterm option \<times> 32 word) option \<Rightarrow> bterm list \<Rightarrow> bool" where
  "loop_result r args \<longleftrightarrow>
     (\<exists>t c. r = Some (t, c) \<and> (\<forall>u. t = Some u \<longrightarrow> rep u (\<lambda>I. \<not> all_have False I args)))"

lemma loop_result_cong:
  "\<lbrakk>loop_result r args; \<And>I. all_have False I args = all_have False I args'\<rbrakk> \<Longrightarrow> loop_result r args'"
  by (simp add: loop_result_def)

lemma local_ctx_loop_means:
  "bool_terms args \<Longrightarrow> loop_result (local_ctx_loop rw True args simp False cost) args"
proof (induction "sum_list (map wgt args)" arbitrary: args simp cost rule: less_induct)
  case less
  let ?st = "\<lambda>xs m s c. \<lparr>lc_new_args = [], lc_neg = {}, lc_pos = {}, lc_modified = m, lc_simp = s,
      lc_cost = c + 2 * of_nat (length xs)\<rparr>"
  obtain r1 st1 where 1: "process_args rw args (?st args False simp cost) = (r1, st1)" by (meson surj_pair)
  note m1 = pass_means [OF 1 less.prems]
  show ?case
  proof (cases r1)
    case True
    then show ?thesis using m1 by (subst local_ctx_loop.simps) (auto simp: 1 loop_result_def)
  next
    case False
    let ?args = "lc_new_args st1"
    have b1: "bool_terms ?args" and w1: "ctx_wgt st1 \<le> sum_list (map wgt args)"
      and e1: "all_have False I ?args = all_have False I args" for I
      using m1 False by simp_all
    obtain r2 st2 where 2: "process_args rw (rev ?args) (?st ?args (lc_modified st1) (lc_simp st1) (lc_cost st1)) = (r2, st2)"
      by (meson surj_pair)
    have "bool_terms (rev ?args)" using b1 by simp
    note m2 = pass_means [OF 2 this]
    have "local_ctx_loop rw True args simp False cost =
        local_ctx_loop rw False ?args (lc_simp st1) (lc_modified st1) (lc_cost st1)"
      by (subst local_ctx_loop.simps) (simp add: 1 False)
    also have "\<dots> =
      (if r2 then Some (Some T_true, lc_cost st2)
       else if \<not> lc_modified st2 then Some (if lc_simp st2 then Some (mk_or_app ?args) else None, lc_cost st2)
       else local_ctx_loop rw True (rev (lc_new_args st2)) (lc_simp st2) False (lc_cost st2))"
      by (subst local_ctx_loop.simps) (simp add: 2)
    finally have loop: "local_ctx_loop rw True args simp False cost =
      (if r2 then Some (Some T_true, lc_cost st2)
       else if \<not> lc_modified st2 then Some (if lc_simp st2 then Some (mk_or_app ?args) else None, lc_cost st2)
       else local_ctx_loop rw True (rev (lc_new_args st2)) (lc_simp st2) False (lc_cost st2))" .
    consider r2 | "\<not> r2" "\<not> lc_modified st2" | "\<not> r2" "lc_modified st2" by blast
    then show ?thesis
    proof cases
      case 1
      then show ?thesis using m2 e1 by (auto simp: loop loop_result_def)
    next
      case 2
      then show ?thesis using mk_or_app_means [OF b1] e1 by (simp add: loop loop_result_def)
    next
      case 3
      let ?next = "rev (lc_new_args st2)"
      have "sum_list (map wgt ?next) < sum_list (map wgt args)"
        using m2 3 w1 by (simp add: rev_map [symmetric])
      moreover have "bool_terms ?next" using m2 3 by simp
      ultimately have "loop_result (local_ctx_loop rw True ?next (lc_simp st2) False (lc_cost st2)) ?next"
        by (rule less.hyps)
      then show ?thesis using m2 3 e1 by (auto simp: loop elim: loop_result_cong)
    qed
  qed
qed

lemma local_ctx_simp_means: "bool_terms args \<Longrightarrow> loop_result (local_ctx_simp rw args cost) args"
  by (simp add: local_ctx_simp_def local_ctx_loop_means)

end
