(* ===== verification/BoolRewriterProof.thy ===== *)
theory BoolRewriterProof
  imports BoolLocal
begin

text \<open>
  Correctness of the connectives of ast/rewriter/bool_rewriter.cpp: every rewriting of a well-sorted
  application returns, and a rewritten term is well sorted, of the same sort and equivalent.
\<close>

section \<open>Results\<close>

definition same_value :: "bterm \<Rightarrow> bterm \<Rightarrow> bool" where
  "same_value t u \<longleftrightarrow> wt u \<and> is_bool u = is_bool t \<and> (\<forall>I. eval I u = eval I t)"

definition gives :: "bterm costly \<Rightarrow> (interp \<Rightarrow> bool) \<Rightarrow> bool" where
  "gives r P \<longleftrightarrow> (\<exists>t c. r = Some (t, c) \<and> rep t P)"

definition preserving :: "rewrite costly \<Rightarrow> bterm \<Rightarrow> bool" where
  "preserving r t \<longleftrightarrow> (\<exists>x c. r = Some (x, c) \<and> (\<forall>s u. x = Some (s, u) \<longrightarrow> same_value t u))"

lemma same_value_rep: "\<lbrakk>rep u (\<lambda>I. truth I t); wt t; is_bool t\<rbrakk> \<Longrightarrow> same_value t u"
  by (auto simp: same_value_def rep_def bool_eq)

lemma rep_same_value: "\<lbrakk>same_value t u; is_bool t\<rbrakk> \<Longrightarrow> rep u (\<lambda>I. truth I t)"
  by (simp add: same_value_def rep_def)

lemma rep_truth: "\<lbrakk>wt t; is_bool t\<rbrakk> \<Longrightarrow> rep t (\<lambda>I. truth I t)"
  by (simp add: rep_def)

lemma rep_cong: "\<lbrakk>rep t P; \<And>I. P I = Q I\<rbrakk> \<Longrightarrow> rep t Q"
  by (simp add: rep_def)

lemma gives_cong: "\<lbrakk>gives r P; \<And>I. P I = Q I\<rbrakk> \<Longrightarrow> gives r Q"
  by (auto simp: gives_def intro: rep_cong)

lemma preserving_done: "preserving (Some (Some (s, u), c)) t \<longleftrightarrow> same_value t u" "preserving (Some (None, c)) t"
  by (simp_all add: preserving_def)

lemma truth_or: "truth I (T_or args) = (\<not> all_have False I args)"
  by (simp add: all_have_def)

section \<open>Disjunctions\<close>

lemma mk_nflat_or_means:
  assumes "wt (T_or args)"
  shows "preserving (mk_nflat_or_core rw args cost) (T_or args)"
proof -
  let ?c = "collect_lits T_false T_true args {} {} False"
  have m: "case ?c of None \<Rightarrow> \<not> all_have False I args | Some (buf, s') \<Rightarrow> all_have False I buf = all_have False I args" for I
    by (rule collect_lits_start) simp_all
  show ?thesis
  proof (cases ?c)
    case None
    then have "rep T_true (\<lambda>I. truth I (T_or args))" using m by (simp add: truth_or del: truth_simps)
    then show ?thesis using None assms
      by (simp add: mk_nflat_or_core_def preserving_done same_value_rep)
  next
    case (Some r)
    obtain buf s where r: "r = (buf, s)" by (cases r)
    have b: "bool_terms buf" using collect_lits_set [OF Some [unfolded r]] assms by auto
    have e: "all_have False I buf = all_have False I args" for I using m [of I] Some r by simp
    have sv: "same_value (T_or args) u" if "rep u (\<lambda>I. \<not> all_have False I buf)" for u
      using that assms by (intro same_value_rep) (simp_all add: truth_or e del: truth_simps)
    show ?thesis
    proof (cases buf rule: remdups_adj.cases)
      case 1
      then show ?thesis using sv [of T_false] by (simp add: mk_nflat_or_core_def Some r preserving_done)
    next
      case (2 a)
      then show ?thesis using sv [of a] b by (simp add: mk_nflat_or_core_def Some r preserving_done rep_def)
    next
      case (3 a a' rest)
      have plain: "preserving (Some (if s then Some (BR_DONE, T_or buf) else None, c)) (T_or args)" for c
        using sv [of "T_or buf"] b by (auto simp: preserving_done rep_def all_have_def)
      obtain t c where l: "local_ctx_simp rw buf cost = Some (t, c)"
          "\<And>u. t = Some u \<Longrightarrow> rep u (\<lambda>I. \<not> all_have False I buf)"
        using local_ctx_simp_means [OF b, of rw cost] by (auto simp: loop_result_def)
      show ?thesis
        using plain sv l by (cases t) (auto simp: mk_nflat_or_core_def Some r 3 Let_def preserving_done)
    qed
  qed
qed

lemma mk_flat_or_means:
  assumes "wt (T_or args)"
  shows "preserving (mk_flat_or_core rw args cost) (T_or args)"
proof (cases "list_ex is_or args")
  case True
  let ?f = "flatten is_or args"
  have f: "wt (T_or ?f)" "\<And>I. truth I (T_or ?f) = truth I (T_or args)"
    using assms bool_terms_flatten(2) [of args] by (simp_all add: truth_or all_have_flatten(2) del: truth_simps(3))
  obtain x c where x: "mk_nflat_or_core rw ?f cost = Some (x, c)" "\<And>s u. x = Some (s, u) \<Longrightarrow> same_value (T_or ?f) u"
    using mk_nflat_or_means [OF f(1), of rw cost] by (auto simp: preserving_def)
  let ?r = "case x of Some (s, t) \<Rightarrow> t | None \<Rightarrow> T_or ?f"
  have "rep ?r (\<lambda>I. truth I (T_or ?f))"
    using x(2) rep_same_value [of "T_or ?f"] rep_truth [OF f(1)]
    by (cases x) (auto simp del: truth_simps)
  then have "rep ?r (\<lambda>I. truth I (T_or args))" by (rule rep_cong) (rule f(2))
  then have "same_value (T_or args) ?r" using assms by (intro same_value_rep) simp_all
  then show ?thesis using True x(1) by (simp add: mk_flat_or_core_def preserving_done)
next
  case False
  then show ?thesis using mk_nflat_or_means [OF assms] by (simp add: mk_flat_or_core_def)
qed

lemma mk_or_core_means: "wt (T_or args) \<Longrightarrow> preserving (mk_or_core rw args cost) (T_or args)"
  by (simp add: mk_or_core_def mk_flat_or_means mk_nflat_or_means)

lemma preserving_app:
  assumes "preserving r t" "wt t" "is_bool t"
  shows "gives (do { (x, c) \<leftarrow> r; Some (case x of Some (s, u) \<Rightarrow> u | None \<Rightarrow> t, c) }) (\<lambda>I. truth I t)"
proof -
  obtain x c where "r = Some (x, c)" "\<And>s u. x = Some (s, u) \<Longrightarrow> same_value t u"
    using assms(1) by (auto simp: preserving_def)
  then show ?thesis using assms(2,3) rep_same_value [of t]
    by (auto simp: gives_def rep_truth split: option.splits)
qed

lemma mk_or_means: "bool_terms args \<Longrightarrow> gives (mk_or rw args cost) (\<lambda>I. truth I (T_or args))"
  unfolding mk_or_def by (intro preserving_app mk_or_core_means) simp_all

section \<open>Conjunctions\<close>

lemma bool_terms_not: "bool_terms args \<Longrightarrow> bool_terms (map (mk_not rw) args)"
  using mk_not_means by (auto simp: rep_def)

lemma mk_and_as_or_means:
  assumes "bool_terms args"
  shows "gives (mk_and_as_or rw args cost) (\<lambda>I. truth I (T_and args))"
proof -
  have n: "truth I (mk_not rw t) = (\<not> truth I t)" if "t \<in> set args" for I t
    using mk_not_means [of t rw] assms that by (simp add: rep_def)
  obtain t c where t: "mk_or rw (map (mk_not rw) args) cost = Some (t, c)"
      "rep t (\<lambda>I. truth I (T_or (map (mk_not rw) args)))"
    using mk_or_means [OF bool_terms_not [OF assms, of rw], of rw cost] by (auto simp: gives_def)
  have "rep (mk_not rw t) (\<lambda>I. truth I (T_and args))"
    using mk_not_means [of t rw] t(2) n by (auto simp: rep_def)
  then show ?thesis by (simp add: mk_and_as_or_def t(1) gives_def)
qed

lemma mk_and_core_means:
  assumes "wt (T_and args)"
  shows "preserving (mk_and_core rw args cost) (T_and args)"
proof (cases "m_elim_and rw")
  case True
  obtain t c where "mk_and_as_or rw args cost = Some (t, c)" "rep t (\<lambda>I. truth I (T_and args))"
    using mk_and_as_or_means [of args rw cost] assms by (auto simp: gives_def)
  then show ?thesis using True assms by (simp add: mk_and_core_def preserving_done same_value_rep)
next
  case False
  have "same_value (T_and args) u" if "mk_flat_and_core args = Some (s, u)" for s u
    using mk_flat_and_means [OF that assms] assms by (simp add: same_value_rep)
  moreover have "same_value (T_and args) u" if "mk_nflat_and_core args = Some (s, u)" for s u
    using mk_nflat_and_means [OF that assms] assms by (simp add: same_value_rep)
  ultimately show ?thesis using False by (simp add: mk_and_core_def preserving_def)
qed

lemma mk_and_means: "bool_terms args \<Longrightarrow> gives (mk_and rw args cost) (\<lambda>I. truth I (T_and args))"
  unfolding mk_and_def by (intro preserving_app mk_and_core_means) simp_all

lemma gives_not:
  assumes "gives r P"
  shows "gives (do { (t, c) \<leftarrow> r; Some (mk_not rw t, c) }) (\<lambda>I. \<not> P I)"
  using assms mk_not_means by (auto simp: gives_def rep_def)

lemma mk_nand_means: "bool_terms args \<Longrightarrow> gives (mk_nand rw args cost) (\<lambda>I. \<not> truth I (T_and args))"
  unfolding mk_nand_def by (intro gives_not mk_and_means)

lemma mk_nor_means: "bool_terms args \<Longrightarrow> gives (mk_nor rw args cost) (\<lambda>I. \<not> truth I (T_or args))"
  unfolding mk_nor_def by (intro gives_not mk_or_means)

section \<open>Exclusive disjunction, implication and distinctness\<close>

lemma mk_xor_means:
  assumes "wt a" "is_bool a" "wt b" "is_bool b"
  shows "rep (mk_xor rw a b) (\<lambda>I. truth I (T_xor [a, b]))"
proof -
  have n: "rep (mk_not rw a) (\<lambda>I. \<not> truth I a)" using assms by (simp add: mk_not_means)
  then have "rep (mk_eq rw (mk_not rw a) b) (\<lambda>I. eval I (mk_not rw a) = eval I b)"
    using assms by (intro mk_eq_means) (simp_all add: rep_def)
  then show ?thesis using n assms by (auto simp: mk_xor_def rep_def bool_eq)
qed

lemma mk_implies_means:
  assumes "wt a" "is_bool a" "wt b" "is_bool b"
  shows "gives (mk_implies rw a b cost) (\<lambda>I. truth I (T_implies a b))"
proof -
  have n: "rep (mk_not rw a) (\<lambda>I. \<not> truth I a)" using assms by (simp add: mk_not_means)
  show ?thesis
    unfolding mk_implies_def
    by (rule gives_cong [OF mk_or_means]) (use n assms in \<open>auto simp: rep_def\<close>)
qed

lemma all_diseqs_means:
  "\<lbrakk>\<And>t. t \<in> set args \<Longrightarrow> wt t \<and> is_bool t = b\<rbrakk> \<Longrightarrow>
    bool_terms (all_diseqs args) \<and> (all_have True I (all_diseqs args) \<longleftrightarrow> distinct (map (eval I) args))"
  by (induction args) (auto simp: all_have_def ball_Un)

lemma three_truth_values:
  assumes "\<And>v. v \<in> set vs \<Longrightarrow> v = BoolVal True \<or> v = BoolVal False" "3 \<le> length vs"
  shows "\<not> distinct vs"
proof
  assume "distinct vs"
  then have "length vs = card (set vs)" by (rule distinct_card [symmetric])
  also have "\<dots> \<le> card {BoolVal True, BoolVal False}" using assms(1) by (intro card_mono) auto
  also have "\<dots> = 2" by simp
  finally show False using assms(2) by simp
qed

lemma mk_distinct_means:
  assumes "mk_distinct_core rw args = Some (s, t)" "wt (T_distinct args)"
  shows "same_value (T_distinct args) t"
proof -
  have ts: "\<And>x. x \<in> set args \<Longrightarrow> wt x \<and> is_bool x = is_bool (hd args)" using assms(2) by auto
  have "rep t (\<lambda>I. truth I (T_distinct args))"
  proof (cases "2 < length args")
    case False
    then consider "args = []" | a where "args = [a]" | a b where "args = [a, b]"
      by (cases args rule: remdups_adj.cases) auto
    then show ?thesis using assms by cases (auto simp: mk_distinct_core_def rep_def)
  next
    case True
    then have hd: "args ! 0 = hd args" by (cases args) simp_all
    consider "\<not> distinct args" | "distinct args" "list_all is_value args"
      | "distinct args" "\<not> list_all is_value args" "is_bool (hd args)"
      | "distinct args" "\<not> list_all is_value args" "\<not> is_bool (hd args)"
      by blast
    then show ?thesis
    proof cases
      case 1
      then have "t = T_false" using True assms(1) by (auto simp: mk_distinct_core_def split: if_splits)
      then show ?thesis using 1 by (auto simp: distinct_map)
    next
      case 2
      then have "t = T_true" using True assms(1) by (auto simp: mk_distinct_core_def split: if_splits)
      then show ?thesis using 2 value_eval by (auto simp: distinct_map list_all_iff intro!: inj_onI)
    next
      case 3
      then have "t = T_false" using True assms(1) by (auto simp: mk_distinct_core_def hd split: if_splits)
      moreover have "\<not> distinct (map (eval I) args)" for I
      proof (rule three_truth_values)
        fix v assume "v \<in> set (map (eval I) args)"
        then obtain x where "x \<in> set args" "v = eval I x" by auto
        then show "v = BoolVal True \<or> v = BoolVal False" using ts [of x] 3(3) by (auto elim: truth_cases [of x I])
      qed (use True in simp)
      ultimately show ?thesis by simp
    next
      case 4
      then have "t = T_and (all_diseqs args)"
        using True assms(1) by (auto simp: mk_distinct_core_def hd split: if_splits)
      then show ?thesis using all_diseqs_means [OF ts] by (simp add: rep_def all_have_def)
    qed
  qed
  then show ?thesis using assms(2) by (intro same_value_rep) simp_all
qed

section \<open>If-then-else\<close>

lemma same_value_refl: "wt t \<Longrightarrow> same_value t t"
  by (simp add: same_value_def)

lemma same_value_trans: "\<lbrakk>same_value t u; same_value u v\<rbrakk> \<Longrightarrow> same_value t v"
  by (simp add: same_value_def)

lemma preserving_trans: "\<lbrakk>preserving r u; same_value t u\<rbrakk> \<Longrightarrow> preserving r t"
  unfolding preserving_def by (blast intro: same_value_trans)

lemma same_value_wt: "same_value t u \<Longrightarrow> wt u"
  by (simp add: same_value_def)

lemma ite_same_condition:
  "\<lbrakk>wt (T_ite c t e); t' = t \<or> (\<exists>b. t = T_ite c t' b)\<rbrakk> \<Longrightarrow> same_value (T_ite c t e) (T_ite c t' e)"
  "\<lbrakk>wt (T_ite c t e); e' = e \<or> (\<exists>a. e = T_ite c a e')\<rbrakk> \<Longrightarrow> same_value (T_ite c t e) (T_ite c t e')"
  by (auto simp: same_value_def)

lemma ite_normalize_means:
  assumes "ite_normalize c t e = (c', t', e', s)" "wt (T_ite c t e)"
  shows "same_value (T_ite c t e) (T_ite c' t' e')"
proof -
  obtain c1 t1 e1 s1 where 1: "(case c of T_not a \<Rightarrow> (a, e, t, True) | _ \<Rightarrow> (c, t, e, False)) = (c1, t1, e1, s1)"
    by (metis surj_pair)
  obtain t2 s2 where 2: "(case t1 of T_ite c2 a b \<Rightarrow> if c2 = c1 then (a, True) else (t1, s1) | _ \<Rightarrow> (t1, s1)) = (t2, s2)"
    by (metis surj_pair)
  obtain e2 s3 where 3: "(case e1 of T_ite c2 a b \<Rightarrow> if c2 = c1 then (b, True) else (e1, s2) | _ \<Rightarrow> (e1, s2)) = (e2, s3)"
    by (metis surj_pair)
  have r: "c' = c1" "t' = t2" "e' = e2" using assms(1) by (simp_all add: ite_normalize_def 1 2 3)
  have s1: "same_value (T_ite c t e) (T_ite c1 t1 e1)"
    using 1 assms(2) by (cases c) (auto simp: same_value_def)
  moreover have s2: "same_value (T_ite c1 t1 e1) (T_ite c1 t2 e1)"
    using 2 same_value_wt [OF s1] by (intro ite_same_condition) (cases t1; auto split: if_splits)+
  moreover have "same_value (T_ite c1 t2 e1) (T_ite c1 t2 e2)"
    using 3 same_value_wt [OF s2] by (intro ite_same_condition) (cases e1; auto split: if_splits)+
  ultimately show ?thesis unfolding r by (blast intro: same_value_trans)
qed

lemma preserving_done_gives:
  assumes "gives r P" "wt t" "is_bool t" "\<And>I. P I = truth I t"
  shows "preserving (rewrite_done r) t"
proof -
  obtain u c where "r = Some (u, c)" "rep u P" using assms(1) by (auto simp: gives_def)
  then show ?thesis using assms(2-) by (auto simp: rewrite_done_def preserving_done intro!: same_value_rep elim: rep_cong)
qed

lemma preserving_rep:
  "\<lbrakk>rep u P; wt t; is_bool t; \<And>I. P I = truth I t\<rbrakk> \<Longrightarrow> preserving (Some (Some (s, u), c)) t"
  by (auto simp: preserving_done intro!: same_value_rep elim: rep_cong)

lemma or_gives: "\<lbrakk>rep a P; rep b Q\<rbrakk> \<Longrightarrow> gives (mk_or rw [a, b] cost) (\<lambda>I. P I \<or> Q I)"
  by (rule gives_cong [OF mk_or_means]) (auto simp: rep_def)

lemma and_gives: "\<lbrakk>rep a P; rep b Q\<rbrakk> \<Longrightarrow> gives (mk_and rw [a, b] cost) (\<lambda>I. P I \<and> Q I)"
  by (rule gives_cong [OF mk_and_means]) (auto simp: rep_def)

lemma ite_bool_means:
  assumes "ite_bool rw c t e cost = Some r" "wt (T_ite c t e)" "is_bool t"
  shows "preserving r (T_ite c t e)"
proof -
  have wts: "wt c" "is_bool c" "wt t" "wt e" "is_bool e" using assms(2,3) by auto
  have ite: "wt (T_ite c t e)" "is_bool (T_ite c t e)" using assms(2,3) by simp_all
  note reps = rep_truth [OF wts(1,2)] rep_truth [OF wts(3) assms(3)] rep_truth [OF wts(4,5)]
  have n: "rep (mk_not rw c) (\<lambda>I. \<not> truth I c)" using wts by (simp add: mk_not_means)
  have q: "rep (mk_eq rw c t) (\<lambda>I. truth I c = truth I t)"
    using mk_eq_means [of c t rw] wts assms(3) by (simp add: rep_def bool_eq)
  have comp: "truth I t \<noteq> truth I e" if "is_complement_core t e \<or> is_complement_core e t" for I
    using complement_eval [of t e I] that wts assms(3) bool_eq [of t e I] by (auto simp: is_complement_def)
  consider "t = T_true" "e = T_false" "r = Some (Some (BR_DONE, c), cost)"
    | "t = T_true" "r = rewrite_done (mk_or rw [c, e] cost)"
    | "t = T_false" "e = T_true" "r = Some (Some (BR_DONE, mk_not rw c), cost)"
    | "t = T_false" "r = rewrite_done (mk_and rw [mk_not rw c, e] cost)"
    | "e = T_true" "r = rewrite_done (mk_or rw [mk_not rw c, t] cost)"
    | "e = T_false \<or> c = e" "r = rewrite_done (mk_and rw [c, t] cost)"
    | "c = t" "r = rewrite_done (mk_or rw [c, e] cost)"
    | "is_complement_core t e \<or> is_complement_core e t" "r = Some (Some (BR_DONE, mk_eq rw c t), cost)"
    using assms(1) by (simp only: ite_bool_def option.inject option.distinct split: if_split_asm; blast)
  then show ?thesis
  proof cases
    case 1
    then show ?thesis using preserving_rep [OF reps(1) ite] by simp
  next
    case 2
    then show ?thesis using preserving_done_gives [OF or_gives [OF reps(1,3)] ite] by simp
  next
    case 3
    then show ?thesis using preserving_rep [OF n ite] by simp
  next
    case 4
    then show ?thesis using preserving_done_gives [OF and_gives [OF n reps(3)] ite] by simp
  next
    case 5
    then show ?thesis using preserving_done_gives [OF or_gives [OF n reps(2)] ite] by auto
  next
    case 6
    then show ?thesis using preserving_done_gives [OF and_gives [OF reps(1,2)] ite] by auto
  next
    case 7
    then show ?thesis using preserving_done_gives [OF or_gives [OF reps(1,3)] ite] by auto
  next
    case 8
    then show ?thesis using preserving_rep [OF q ite] comp by auto
  qed
qed

lemma rewrite_ite_means:
  assumes "gives r P" "wt t" "wt e" "is_bool t = is_bool e" "is_bool t = is_bool x"
    and "\<And>I. eval I x = (if P I then eval I t else eval I e)"
  shows "preserving (rewrite_ite t e r) x"
proof -
  obtain c cost where "r = Some (c, cost)" "rep c P" using assms(1) by (auto simp: gives_def)
  then show ?thesis using assms(2-) by (auto simp: rewrite_ite_def preserving_done same_value_def rep_def)
qed

lemma gives_bind:
  assumes "gives r P" "\<And>t c. rep t P \<Longrightarrow> gives (f t c) Q"
  shows "gives (do { (t, c) \<leftarrow> r; f t c }) Q"
  using assms by (auto simp: gives_def)

lemma ite_merge_then_means:
  assumes "ite_merge_then rw c t e cost = Some r" "wt (T_ite c t e)"
  shows "preserving r (T_ite c t e)"
proof -
  obtain c2 t1 t2 where t: "t = T_ite c2 t1 t2" using assms(1) by (cases t) (simp_all add: ite_merge_then_def)
  have wts: "wt c" "is_bool c" "wt c2" "is_bool c2" "wt t1" "wt t2" "wt e"
      "is_bool t2 = is_bool t1" "is_bool e = is_bool t1"
    using assms(2) by (auto simp: t)
  note b = rep_truth [OF wts(1,2)] rep_truth [OF wts(3,4)]
  have n: "rep (mk_not rw x) (\<lambda>I. \<not> truth I x)" if "wt x" "is_bool x" for x using that by (simp add: mk_not_means)
  consider "e = t1" "r = rewrite_ite t2 e (mk_and rw [c, mk_not rw c2] cost)"
    | "e = t2" "r = rewrite_ite t1 e (mk_and rw [c, c2] cost)"
    | (merge) c3 e1 e2 and x where "e = T_ite c3 e1 e2"
        "t1 = e1 \<and> t2 = e2 \<and> x = c3 \<or> t1 = e2 \<and> t2 = e1 \<and> x = mk_not rw c3"
        "r = rewrite_ite t1 t2 (do {
           (and1, cost) \<leftarrow> mk_and rw [c, c2] cost;
           (and2, cost) \<leftarrow> mk_and rw [mk_not rw c, x] cost;
           mk_or rw [and1, and2] cost })"
    using assms(1) by (cases e; simp only: ite_merge_then_def t bterm.case option.inject option.distinct split: if_split_asm; blast)
  then show ?thesis
  proof cases
    case 1
    show ?thesis unfolding 1(2)
      by (rule rewrite_ite_means [OF and_gives [OF b(1) n [OF wts(3,4)]]]) (use wts 1 in \<open>auto simp: t\<close>)
  next
    case 2
    show ?thesis unfolding 2(2)
      by (rule rewrite_ite_means [OF and_gives [OF b]]) (use wts 2 in \<open>auto simp: t\<close>)
  next
    case (merge c3 e1 e2 x)
    have c3: "wt c3" "is_bool c3" using assms(2) merge(1) by simp_all
    have nx: "truth I (mk_not rw c3) = (\<not> truth I c3)" for I using n [OF c3] by (simp add: rep_def)
    have x: "rep x (\<lambda>I. truth I x)" using merge(2) n [OF c3] rep_truth [OF c3] by (auto simp: rep_def)
    have "gives (do {
           (and1, cost) \<leftarrow> mk_and rw [c, c2] cost;
           (and2, cost) \<leftarrow> mk_and rw [mk_not rw c, x] cost;
           mk_or rw [and1, and2] cost }) (\<lambda>I. truth I c \<and> truth I c2 \<or> \<not> truth I c \<and> truth I x)"
      by (rule gives_bind [OF and_gives [OF b]], rule gives_bind [OF and_gives [OF n [OF wts(1,2)] x]], rule or_gives)
    then show ?thesis unfolding merge(3)
      by (rule rewrite_ite_means) (use wts merge(1,2) in \<open>auto simp: t nx\<close>)
  qed
qed

lemma ite_merge_else_means:
  assumes "ite_merge_else rw c t e cost = Some r" "wt (T_ite c t e)"
  shows "preserving r (T_ite c t e)"
proof -
  obtain c2 e1 e2 where e: "e = T_ite c2 e1 e2" using assms(1) by (cases e) (simp_all add: ite_merge_else_def)
  have wts: "wt c" "is_bool c" "wt c2" "is_bool c2" "wt e1" "wt e2" "wt t"
      "is_bool e2 = is_bool e1" "is_bool t = is_bool e1"
    using assms(2) by (auto simp: e)
  note b = rep_truth [OF wts(1,2)] rep_truth [OF wts(3,4)]
  have n: "rep (mk_not rw c2) (\<lambda>I. \<not> truth I c2)" using wts by (simp add: mk_not_means)
  consider "t = e1" "r = rewrite_ite t e2 (mk_or rw [c, c2] cost)"
    | "t = e2" "r = rewrite_ite t e1 (mk_or rw [c, mk_not rw c2] cost)"
    using assms(1) by (simp only: ite_merge_else_def e bterm.case option.inject option.distinct split: if_split_asm; blast)
  then show ?thesis
  proof cases
    case 1
    show ?thesis unfolding 1(2)
      by (rule rewrite_ite_means [OF or_gives [OF b]]) (use wts 1 in \<open>auto simp: e\<close>)
  next
    case 2
    show ?thesis unfolding 2(2)
      by (rule rewrite_ite_means [OF or_gives [OF b(1) n]]) (use wts 2 in \<open>auto simp: e\<close>)
  qed
qed

lemma mk_ite_core_means:
  assumes "wt (T_ite c0 t0 e0)"
  shows "preserving (mk_ite_core rw c0 t0 e0 cost) (T_ite c0 t0 e0)"
proof -
  obtain c t e s where n: "ite_normalize c0 t0 e0 = (c, t, e, s)" by (metis surj_pair)
  note sv = ite_normalize_means [OF n assms]
  have w: "wt (T_ite c t e)" using sv by (rule same_value_wt)
  let ?b = "if is_bool t then ite_bool rw c t e cost else None"
  let ?m = "if m_ite_extra_rules rw \<and> m_elim_ite rw then ite_merge_then rw c t e cost else None"
  let ?l = "if m_ite_extra_rules rw \<and> m_elim_ite rw then ite_merge_else rw c t e cost else None"
  have d: "mk_ite_core rw c0 t0 e0 cost =
      (if c = T_true then Some (Some (BR_DONE, t), cost) else if c = T_false then Some (Some (BR_DONE, e), cost)
       else if t = e then Some (Some (BR_DONE, t), cost)
       else (case ?b of Some r \<Rightarrow> r | None \<Rightarrow> (case ?m of Some r \<Rightarrow> r | None \<Rightarrow> (case ?l of Some r \<Rightarrow> r
         | None \<Rightarrow> Some (if s then Some (BR_DONE, T_ite c t e) else None, cost)))))"
    by (simp only: mk_ite_core_def n prod.case)
  have "preserving (mk_ite_core rw c0 t0 e0 cost) (T_ite c t e)"
  proof (cases "c = T_true \<or> c = T_false \<or> t = e")
    case True
    then consider "c = T_true" | "c \<noteq> T_true" "c = T_false" | "c \<noteq> T_true" "c \<noteq> T_false" "t = e" by blast
    then show ?thesis using w by cases (simp_all add: d preserving_done same_value_def)
  next
    case False
    have b: "preserving r (T_ite c t e)" if "?b = Some r" for r
      using ite_bool_means that w by (simp split: if_splits)
    have m: "preserving r (T_ite c t e)" if "?m = Some r" for r
      using ite_merge_then_means that w by (simp split: if_splits)
    have l: "preserving r (T_ite c t e)" if "?l = Some r" for r
      using ite_merge_else_means that w by (simp split: if_splits)
    have r: "preserving (Some (if s then Some (BR_DONE, T_ite c t e) else None, cost)) (T_ite c t e)"
      using same_value_refl [OF w] by (auto simp: preserving_done)
    show ?thesis using False b m l r unfolding d
      by (cases ?b; cases ?m; cases ?l) (simp_all only: if_False option.case de_Morgan_disj simp_thms)
  qed
  then show ?thesis using sv by (rule preserving_trans)
qed

section \<open>Applications\<close>

lemma mk_not_core_means:
  assumes "mk_not_core rw t = Some (s, u)" "wt t" "is_bool t"
  shows "same_value (T_not t) u"
proof -
  have "rep u (\<lambda>I. \<not> truth I t)"
  proof (cases "\<exists>a b. t = T_eq a b")
    case True
    then obtain a b where t: "t = T_eq a b" by blast
    have a: "is_bool a" "u = mk_eq rw (mk_not rw a) b" using assms(1) by (simp_all add: t mk_not_core_def split: if_splits)
    then show ?thesis using mk_xor_means [of a b rw] assms(2) by (auto simp: t mk_xor_def rep_def bool_eq)
  next
    case False
    then show ?thesis using assms by (cases t) (auto simp: mk_not_core_def rep_def)
  qed
  then show ?thesis using assms(2,3) by (intro same_value_rep) simp_all
qed

lemma mk_app_core_means:
  assumes "wt app" "\<And>args. app = T_xor args \<Longrightarrow> length args \<le> 2"
  shows "preserving (mk_app_core rw app cost) app"
proof (cases app)
  case (T_eq a b)
  then have "same_value app t" if "mk_eq_core rw a b = Some (s, t)" for s t
    using mk_eq_core_means [OF that] assms(1) by (intro same_value_rep) simp_all
  then show ?thesis by (simp add: mk_app_core_def T_eq preserving_def)
next
  case (T_distinct args)
  then show ?thesis using mk_distinct_means [of rw args] assms(1) by (simp add: mk_app_core_def preserving_def)
next
  case (T_not a)
  then show ?thesis using mk_not_core_means [of rw a] assms(1) by (simp add: mk_app_core_def preserving_def)
next
  case (T_implies a b)
  then show ?thesis using preserving_done_gives [OF mk_implies_means] assms(1) by (simp add: mk_app_core_def)
next
  case (T_xor args)
  then consider "args = []" | a where "args = [a]" | a b where "args = [a, b]"
    using assms(2) by (cases args rule: remdups_adj.cases) auto
  then show ?thesis
  proof cases
    case 1
    then show ?thesis by (simp add: mk_app_core_def T_xor preserving_done)
  next
    case (2 a)
    then show ?thesis using assms(1) by (auto simp: mk_app_core_def T_xor preserving_done rep_def intro!: same_value_rep)
  next
    case (3 a b)
    then have "same_value app (mk_xor rw a b)" using mk_xor_means [of a b rw] assms(1) T_xor by (intro same_value_rep) simp_all
    then show ?thesis by (simp add: mk_app_core_def T_xor 3 preserving_done)
  qed
qed (use assms(1) in \<open>simp_all add: mk_app_core_def preserving_done mk_and_core_means mk_or_core_means mk_ite_core_means\<close>)

text \<open>The default settings of the rewriter, with local contexts switched on.\<close>

definition plain_rewriter :: bool_rewriter where
  "plain_rewriter = \<lparr>m_flat = True, m_local_ctx = True, m_elim_and = False, m_blast_distinct = False,
     m_blast_distinct_threshold = 100, m_ite_extra_rules = True, m_local_ctx_limit = 10000, m_elim_ite = True\<rparr>"

end
