(* ===== verification/SatTypes.thy ===== *)
theory SatTypes
  imports Prelude "HOL-Library.Monad_Syntax"
begin

text \<open>
  Model of sat/sat_types.h and util/lbool.h: Boolean variables and literals as machine words, three-valued
  truth values and assignments (class \<open>model\<close>), and what it means for a clause to be satisfied.
\<close>

section \<open>Literals\<close>

type_synonym bool_var = u32

definition null_bool_var :: bool_var where
  "null_bool_var = drop_bit 1 (- 1)"

text \<open>The literal \<open>b\<close> is \<open>2 * b\<close> and its negation \<open>2 * b + 1\<close>.\<close>

datatype literal = Literal (lit_index: u32)

definition mk_literal :: "bool_var \<Rightarrow> bool \<Rightarrow> literal" where
  "mk_literal v sign = Literal (push_bit 1 v + of_bool sign)"

definition lit_var :: "literal \<Rightarrow> bool_var" where "lit_var l = drop_bit 1 (lit_index l)"
definition lit_sign :: "literal \<Rightarrow> bool" where "lit_sign l = (lit_index l AND 1 \<noteq> 0)"
definition lit_neg :: "literal \<Rightarrow> literal" where "lit_neg l = Literal (lit_index l XOR 1)"
definition lit_unsign :: "literal \<Rightarrow> literal" where "lit_unsign l = Literal (lit_index l AND NOT 1)"

definition null_literal :: literal where
  "null_literal = Literal (push_bit 1 null_bool_var)"

instantiation literal :: linorder
begin

definition less_eq_literal :: "literal \<Rightarrow> literal \<Rightarrow> bool" where
  "less_eq_literal a b = (lit_index a \<le> lit_index b)"

definition less_literal :: "literal \<Rightarrow> literal \<Rightarrow> bool" where
  "less_literal a b = (lit_index a < lit_index b)"

instance
  by standard (auto simp: less_eq_literal_def less_literal_def literal.expand)

end

lemma lit_index_inject [simp]: "lit_index a = lit_index b \<longleftrightarrow> a = b"
  by (cases a; cases b) simp

text \<open>A literal is its variable and its sign; complementing keeps the variable and flips the sign.\<close>

lemma lit_eq_iff: "a = b \<longleftrightarrow> lit_var a = lit_var b \<and> lit_sign a = lit_sign b"
proof
  assume h: "lit_var a = lit_var b \<and> lit_sign a = lit_sign b"
  have "lit_index a = lit_index b"
  proof (rule bit_word_eqI)
    fix n assume "n < LENGTH(32)"
    show "bit (lit_index a) n = bit (lit_index b) n"
    proof (cases n)
      case 0
      then show ?thesis using h by (simp add: lit_sign_def and_one_eq bit_0 odd_iff_mod_2_eq_one)
    next
      case (Suc k)
      have "bit (lit_var a) k = bit (lit_var b) k" using h by simp
      then show ?thesis using Suc by (simp add: lit_var_def bit_drop_bit_eq)
    qed
  qed
  then show "a = b" by simp
qed simp

lemma lit_neg [simp]:
  "lit_var (lit_neg l) = lit_var l" "lit_sign (lit_neg l) \<longleftrightarrow> \<not> lit_sign l" "lit_neg (lit_neg l) = l" "lit_neg l \<noteq> l" "l \<noteq> lit_neg l"
proof -
  show v: "lit_var (lit_neg l) = lit_var l"
    unfolding lit_var_def lit_neg_def by (rule bit_word_eqI) (simp add: bit_simps bit_1_iff)
  show s: "lit_sign (lit_neg l) \<longleftrightarrow> \<not> lit_sign l"
    unfolding lit_sign_def lit_neg_def by (simp add: and_one_eq odd_iff_mod_2_eq_one [symmetric] even_xor_iff)
  show "lit_neg (lit_neg l) = l" by (cases l) (simp add: lit_neg_def xor.assoc)
  show "lit_neg l \<noteq> l" "l \<noteq> lit_neg l" using s by (metis)+
qed

lemma lit_neg_eq_iff [simp]: "lit_neg a = lit_neg b \<longleftrightarrow> a = b"
  by (metis lit_neg(3))

lemma same_var: "lit_var a = lit_var b \<longleftrightarrow> a = b \<or> a = lit_neg b"
  by (auto simp: lit_eq_iff)

text \<open>The variables that have literals: those below \<open>2 ^ 31\<close>.\<close>

lemma append_bit:
  fixes v :: u32
  assumes "\<not> bit v 31"
  shows "drop_bit 1 (push_bit 1 v + of_bool s) = v" "(push_bit 1 v + of_bool s) AND 1 = of_bool s"
proof -
  have p: "push_bit 1 v + of_bool s = push_bit 1 v OR of_bool s"
    by (rule disjunctive_add) (auto simp: bit_simps bit_0)
  show "drop_bit 1 (push_bit 1 v + of_bool s) = v"
    unfolding p
  proof (rule bit_word_eqI)
    fix n assume n: "n < LENGTH(32)"
    have "bit (drop_bit 1 (push_bit 1 v OR of_bool s)) n \<longleftrightarrow> Suc n < 32 \<and> bit v n"
      using n by (simp only: bit_drop_bit_eq bit_or_iff bit_push_bit_iff o_apply plus_1_eq_Suc) (simp add: bit_of_bool_iff)
    also have "\<dots> \<longleftrightarrow> bit v n" using assms n by (cases "n = 31") auto
    finally show "bit (drop_bit 1 (push_bit 1 v OR of_bool s)) n \<longleftrightarrow> bit v n" .
  qed
  show "(push_bit 1 v + of_bool s) AND 1 = of_bool s"
    unfolding p by (cases s) (simp_all add: and_one_eq odd_iff_mod_2_eq_one [symmetric] even_iff_mod_2_eq_zero [symmetric] even_or_iff)
qed

lemma high_bit_u32: "v < 2147483648 \<Longrightarrow> \<not> bit (v :: u32) 31"
proof -
  assume "v < 2147483648"
  then have "unat v < 2147483648" by (simp add: word_less_nat_alt)
  then show ?thesis using bit_unsigned_iff [of v 31, where ?'a = nat] by (simp add: bit_iff_odd)
qed

lemma mk_literal_parts:
  assumes "v < 2147483648"
  shows "lit_var (mk_literal v s) = v" "lit_sign (mk_literal v s) = s"
  using append_bit [OF high_bit_u32 [OF assms], of s] by (simp_all add: lit_var_def lit_sign_def mk_literal_def)

section \<open>Truth values and models\<close>

datatype lbool = L_false | L_undef | L_true

fun lb_not :: "lbool \<Rightarrow> lbool" where
  "lb_not L_false = L_true"
| "lb_not L_undef = L_undef"
| "lb_not L_true = L_false"

definition to_lbool :: "bool \<Rightarrow> lbool" where
  "to_lbool b = (if b then L_true else L_false)"

text \<open>A model has a value for every variable; reading outside it is an access out of bounds of the code.\<close>

type_synonym model = "lbool list"
type_synonym clause = "literal list"

definition in_model :: "model \<Rightarrow> bool_var \<Rightarrow> bool" where
  "in_model m v = (unat v < length m)"

definition var_value :: "model \<Rightarrow> bool_var \<Rightarrow> lbool" where
  "var_value m v = m ! unat v"

definition value_at :: "literal \<Rightarrow> model \<Rightarrow> lbool" where
  "value_at l m = (let r = var_value m (lit_var l) in if lit_sign l then lb_not r else r)"

text \<open>Making a literal true: \<open>m[v] = sign ? l_false : l_true\<close>.\<close>

definition set_var :: "model \<Rightarrow> bool_var \<Rightarrow> bool \<Rightarrow> model" where
  "set_var m v sign = m[unat v := (if sign then L_false else L_true)]"

abbreviation set_lit :: "model \<Rightarrow> literal \<Rightarrow> model" where
  "set_lit m l \<equiv> set_var m (lit_var l) (lit_sign l)"

definition satisfied_by :: "clause \<Rightarrow> model \<Rightarrow> bool" where
  "satisfied_by c m = (\<exists>l \<in> set c. value_at l m = L_true)"

definition clause_contains_var :: "clause \<Rightarrow> bool_var \<Rightarrow> bool" where
  "clause_contains_var c v = (\<exists>l \<in> set c. lit_var l = v)"

lemma lb_not [simp]: "lb_not (lb_not x) = x" "lb_not x = lb_not y \<longleftrightarrow> x = y" "lb_not x = L_undef \<longleftrightarrow> x = L_undef"
    "lb_not x = L_true \<longleftrightarrow> x = L_false" "lb_not x = L_false \<longleftrightarrow> x = L_true"
  by (cases x; cases y; simp)+

lemma value_at_neg [simp]: "value_at (lit_neg l) m = lb_not (value_at l m)"
  by (simp add: value_at_def Let_def)

lemma value_at_undef: "value_at l m = L_undef \<longleftrightarrow> var_value m (lit_var l) = L_undef"
  by (simp add: value_at_def Let_def)

lemma length_set_var [simp]: "length (set_var m v s) = length m"
  by (simp add: set_var_def)

lemma in_model_set_var [simp]: "in_model (set_var m v s) u = in_model m u"
  by (simp add: in_model_def)

lemma var_value_set_var:
  "var_value (set_var m v s) u =
    (if u = v \<and> in_model m u then (if s then L_false else L_true) else var_value m u)"
proof (cases "u = v")
  case False
  then have "unat v \<noteq> unat u" by (metis word_unat_eq_iff)
  then show ?thesis using False by (simp add: var_value_def set_var_def)
qed (auto simp: var_value_def set_var_def in_model_def nth_list_update list_update_beyond not_less)

lemma value_at_set_lit:
  assumes "in_model m (lit_var l)"
  shows "value_at k (set_lit m l) = (if k = l then L_true else if k = lit_neg l then L_false else value_at k m)"
proof (cases "lit_var k = lit_var l")
  case True
  then show ?thesis using assms by (auto simp: value_at_def var_value_set_var lit_eq_iff Let_def)
next
  case False
  then show ?thesis by (auto simp: value_at_def var_value_set_var Let_def)
qed

text \<open>Two models, the second of which assigns more, but perhaps differs at one variable.\<close>

definition extends_but :: "bool_var \<Rightarrow> model \<Rightarrow> model \<Rightarrow> bool" where
  "extends_but v m m' \<longleftrightarrow> length m' = length m \<and>
     (\<forall>u. u \<noteq> v \<longrightarrow> var_value m u \<noteq> L_undef \<longrightarrow> var_value m' u = var_value m u)"

lemma extends_but_refl [simp]: "extends_but v m m"
  by (simp add: extends_but_def)

lemma extends_but_trans: "extends_but v m m' \<Longrightarrow> extends_but v m' m'' \<Longrightarrow> extends_but v m m''"
  unfolding extends_but_def by metis

lemma extends_but_value:
  assumes "extends_but v m m'" "lit_var l \<noteq> v" "value_at l m \<noteq> L_undef"
  shows "value_at l m' = value_at l m"
  using assms value_at_undef [of l m] by (simp add: extends_but_def value_at_def)

lemma extends_but_set:
  assumes "lit_var l = v \<or> value_at l m = L_undef"
  shows "extends_but v m (set_lit m l)"
  using assms by (auto simp: extends_but_def var_value_set_var value_at_undef)

lemma satisfied_by_simps [simp]:
  "\<not> satisfied_by [] m" "satisfied_by (l # c) m \<longleftrightarrow> value_at l m = L_true \<or> satisfied_by c m"
  "satisfied_by (c @ d) m \<longleftrightarrow> satisfied_by c m \<or> satisfied_by d m"
  by (auto simp: satisfied_by_def)

end
