(* ===== verification/SatClause.thy ===== *)
theory SatClause
  imports SatTypes
begin

text \<open>
  Model of sat/sat_clause.h and .cpp and of util/approx_set.h: approximate sets in one machine word, clauses
  with their literals in an array that shrinking leaves behind, the packed binary clauses, the clause that
  is reused for binary ones, and the wrapper for both kinds.
\<close>

section \<open>Approximate sets\<close>

text \<open>A set of unsigned numbers, each represented by its last five bits.\<close>

type_synonym approx = u32

definition approx_bit :: "u32 \<Rightarrow> approx" where "approx_bit u = push_bit (unat (u AND 31)) 1"
definition approx_insert :: "u32 \<Rightarrow> approx \<Rightarrow> approx" where "approx_insert e s = s OR approx_bit e"
definition may_contain :: "approx \<Rightarrow> u32 \<Rightarrow> bool" where "may_contain s e = (s AND approx_bit e \<noteq> 0)"
definition must_not_contain :: "approx \<Rightarrow> u32 \<Rightarrow> bool" where "must_not_contain s e = (\<not> may_contain s e)"
definition approx_union :: "approx \<Rightarrow> approx \<Rightarrow> approx" where "approx_union s t = s OR t"
definition approx_intersection :: "approx \<Rightarrow> approx \<Rightarrow> approx" where "approx_intersection s t = s AND t"
definition approx_minus :: "approx \<Rightarrow> approx \<Rightarrow> approx" where "approx_minus s t = s AND NOT t"
definition must_not_subset :: "approx \<Rightarrow> approx \<Rightarrow> bool" where "must_not_subset s t = (s AND NOT t \<noteq> 0)"
definition approx_subset :: "approx \<Rightarrow> approx \<Rightarrow> bool" where "approx_subset s t = (t = approx_union s t)"
definition empty_intersection :: "approx \<Rightarrow> approx \<Rightarrow> bool" where
  "empty_intersection s t = (approx_intersection s t = 0)"

definition approx_of :: "u32 list \<Rightarrow> approx" where
  "approx_of es = foldl (\<lambda>s e. approx_insert e s) 0 es"

lemma last_five_bits: "unat (u AND 31 :: u32) < 32"
proof -
  have "u AND 31 = take_bit 5 u" by (simp add: take_bit_eq_mask mask_eq_exp_minus_1)
  then show ?thesis using take_bit_nat_less_exp [of 5 "unat u"] by (simp add: unsigned_take_bit_eq)
qed

lemma approx_bit_bit: "bit (approx_bit u) n \<longleftrightarrow> n = unat (u AND 31)"
  using last_five_bits [of u] by (auto simp: approx_bit_def bit_exp_iff)

lemma approx_of_bit: "bit (approx_of es) n \<longleftrightarrow> (\<exists>e \<in> set es. n = unat (e AND 31))"
proof -
  have "bit (foldl (\<lambda>s e. approx_insert e s) s es) n \<longleftrightarrow> bit s n \<or> (\<exists>e \<in> set es. n = unat (e AND 31))" for s
    by (induction es arbitrary: s) (auto simp: approx_insert_def bit_or_iff approx_bit_bit)
  then show ?thesis by (simp add: approx_of_def)
qed

lemma may_contain_bit: "may_contain s e \<longleftrightarrow> bit s (unat (e AND 31))"
proof
  assume "may_contain s e"
  then obtain n where "bit (s AND approx_bit e) n"
    unfolding may_contain_def by (metis bit_0_eq bit_eq_iff bot_apply bot_bool_def)
  then show "bit s (unat (e AND 31))" by (auto simp: bit_and_iff approx_bit_bit)
next
  assume "bit s (unat (e AND 31))"
  then have "bit (s AND approx_bit e) (unat (e AND 31))" by (simp add: bit_and_iff approx_bit_bit)
  then show "may_contain s e" unfolding may_contain_def by auto
qed

text \<open>What is in the set may be in its approximation, and a subset has an approximation that is one.\<close>

lemma approx_member: "e \<in> set es \<Longrightarrow> may_contain (approx_of es) e"
  by (auto simp: may_contain_bit approx_of_bit)

lemma approx_subset_bits: "approx_subset s t \<longleftrightarrow> (\<forall>n. bit s n \<longrightarrow> bit t n)"
proof -
  have "t = s OR t \<longleftrightarrow> (\<forall>n. bit t n \<longleftrightarrow> bit (s OR t) n)" by (metis bit_eqI)
  then show ?thesis by (auto simp: approx_subset_def approx_union_def bit_or_iff)
qed

lemma approx_of_subset: "set es \<subseteq> set fs \<Longrightarrow> approx_subset (approx_of es) (approx_of fs)"
  by (auto simp: approx_subset_bits approx_of_bit)

section \<open>Clauses\<close>

text \<open>The array \<open>m_lits\<close> keeps the length that was allocated; the clause is its first \<open>c_size\<close> literals.\<close>

record clause_obj =
  c_id :: u32
  c_size :: nat
  c_lits :: "literal list"
  c_approx :: approx
  c_strengthened :: bool
  c_removed :: bool
  c_learned :: bool
  c_used :: bool
  c_frozen :: bool
  c_reinit_stack :: bool
  c_inact_rounds :: u8
  c_glue :: u8
  c_psm :: u8

definition c_capacity :: "clause_obj \<Rightarrow> nat" where "c_capacity c = length (c_lits c)"
definition c_view :: "clause_obj \<Rightarrow> clause" where "c_view c = take (c_size c) (c_lits c)"

definition clause_approx :: "literal list \<Rightarrow> approx" where "clause_approx ls = approx_of (map lit_var ls)"
definition update_approx :: "clause_obj \<Rightarrow> clause_obj" where
  "update_approx c = c\<lparr>c_approx := clause_approx (c_view c)\<rparr>"
definition mark_strengthened :: "clause_obj \<Rightarrow> clause_obj" where
  "mark_strengthened c = update_approx (c\<lparr>c_strengthened := True\<rparr>)"
definition unmark_strengthened :: "clause_obj \<Rightarrow> clause_obj" where
  "unmark_strengthened c = c\<lparr>c_strengthened := False\<rparr>"

definition new_clause :: "u32 \<Rightarrow> literal list \<Rightarrow> bool \<Rightarrow> clause_obj" where
  "new_clause cid lits learned = mark_strengthened
     \<lparr>c_id = cid, c_size = length lits, c_lits = lits, c_approx = 0, c_strengthened = False, c_removed = False,
      c_learned = learned, c_used = False, c_frozen = False, c_reinit_stack = False, c_inact_rounds = 0,
      c_glue = 255, c_psm = 255\<rparr>"

definition check_approx :: "clause_obj \<Rightarrow> bool" where "check_approx c = (c_approx c = clause_approx (c_view c))"
definition contains_lit :: "clause_obj \<Rightarrow> literal \<Rightarrow> bool" where "contains_lit c l = (\<exists>k \<in> set (c_view c). k = l)"
definition contains_var :: "clause_obj \<Rightarrow> bool_var \<Rightarrow> bool" where
  "contains_var c v = (\<exists>k \<in> set (c_view c). lit_var k = v)"

text \<open>The literal moves behind the end of the clause, and what follows it one place to the left.\<close>

fun find_lit :: "literal \<Rightarrow> literal list \<Rightarrow> nat" where
  "find_lit l [] = 0"
| "find_lit l (k # ks) = (if k = l then 0 else Suc (find_lit l ks))"

definition clause_elim :: "literal \<Rightarrow> clause_obj \<Rightarrow> clause_obj" where
  "clause_elim l c =
     (let sz = c_size c;
          i = find_lit l (c_view c) + 1;
          lits = foldl (\<lambda>ls j. ls[j - 1 := ls ! j]) (c_lits c) [i..<sz]
      in mark_strengthened (c\<lparr>c_lits := lits[sz - 1 := l], c_size := sz - 1\<rparr>))"

definition clause_shrink :: "nat \<Rightarrow> clause_obj \<Rightarrow> clause_obj" where
  "clause_shrink n c = (if n < c_size c then mark_strengthened (c\<lparr>c_size := n\<rparr>) else c)"
definition clause_restore :: "nat \<Rightarrow> clause_obj \<Rightarrow> clause_obj" where
  "clause_restore n c = c\<lparr>c_size := n\<rparr>"

primrec lits_satisfied :: "model \<Rightarrow> literal list \<Rightarrow> bool" where
  "lits_satisfied m [] = False"
| "lits_satisfied m (l # ls) =
     (if lit_sign l then (if var_value m (lit_var l) = L_false then True else lits_satisfied m ls)
      else (if var_value m (lit_var l) = L_true then True else lits_satisfied m ls))"

definition clause_satisfied_by :: "model \<Rightarrow> clause_obj \<Rightarrow> bool" where
  "clause_satisfied_by m c = lits_satisfied m (c_view c)"

definition set_glue :: "nat \<Rightarrow> clause_obj \<Rightarrow> clause_obj" where
  "set_glue g c = c\<lparr>c_glue := (if 255 < g then 255 else of_nat g)\<rparr>"
definition set_psm :: "nat \<Rightarrow> clause_obj \<Rightarrow> clause_obj" where
  "set_psm p c = c\<lparr>c_psm := (if 255 < p then 255 else of_nat p)\<rparr>"
definition inc_inact_rounds :: "clause_obj \<Rightarrow> clause_obj" where
  "inc_inact_rounds c = c\<lparr>c_inact_rounds := c_inact_rounds c + 1\<rparr>"

text \<open>A forwarding address in the first two literals, for the collector that moves clauses.\<close>

definition get_new_offset :: "clause_obj \<Rightarrow> u64" where
  "get_new_offset c = ucast (lit_index (c_lits c ! 0)) + push_bit 32 (ucast (lit_index (c_lits c ! 1)))"
definition set_new_offset :: "u64 \<Rightarrow> clause_obj \<Rightarrow> clause_obj" where
  "set_new_offset off c =
     c\<lparr>c_lits := (c_lits c)[0 := Literal (ucast off), 1 := Literal (ucast (drop_bit 32 off))]\<rparr>"

definition copy_clause :: "u32 \<Rightarrow> clause_obj \<Rightarrow> clause_obj" where
  "copy_clause cid other =
     (new_clause cid (c_view other) (c_learned other))
       \<lparr>c_reinit_stack := c_reinit_stack other, c_glue := c_glue other, c_psm := c_psm other,
        c_frozen := c_frozen other, c_approx := c_approx other\<rparr>"

text \<open>The clause that is reused for the binary ones: its approximate set is computed once.\<close>

definition tmp_clause_set :: "literal list \<Rightarrow> bool \<Rightarrow> clause_obj option \<Rightarrow> clause_obj" where
  "tmp_clause_set lits learned tmp =
     (let tmp = (case tmp of None \<Rightarrow> None | Some c \<Rightarrow> if c_capacity c < length lits then None else Some c)
      in case tmp of
           None \<Rightarrow> new_clause (- 1) lits learned
         | Some c \<Rightarrow> c\<lparr>c_size := length lits, c_learned := learned, c_lits := lits @ drop (length lits) (c_lits c)\<rparr>)"

section \<open>Packed binary clauses and the wrapper\<close>

record bin_clause =
  bc_val1 :: u32
  bc_val2 :: u32

definition mk_bin :: "literal \<Rightarrow> literal \<Rightarrow> bool \<Rightarrow> bin_clause" where
  "mk_bin l1 l2 learned = \<lparr>bc_val1 = lit_index l1, bc_val2 = push_bit 1 (lit_index l2) + of_bool learned\<rparr>"
definition bc_literal1 :: "bin_clause \<Rightarrow> literal" where "bc_literal1 b = Literal (bc_val1 b)"
definition bc_literal2 :: "bin_clause \<Rightarrow> literal" where "bc_literal2 b = Literal (drop_bit 1 (bc_val2 b))"
definition bc_learned :: "bin_clause \<Rightarrow> bool" where "bc_learned b = (bc_val2 b AND 1 = 1)"
definition bc_equal :: "bin_clause \<Rightarrow> bin_clause \<Rightarrow> bool" where
  "bc_equal a b = (bc_val1 a = bc_val1 b \<and> bc_val2 a = bc_val2 b \<or> bc_val1 a = bc_val2 b \<and> bc_val2 a = bc_val1 b)"

datatype clause_wrapper = Binary_clause literal literal | Long_clause clause_obj

definition cw_view :: "clause_wrapper \<Rightarrow> clause" where
  "cw_view w = (case w of Binary_clause l1 l2 \<Rightarrow> [l1, l2] | Long_clause c \<Rightarrow> c_view c)"
definition cw_size :: "clause_wrapper \<Rightarrow> nat" where
  "cw_size w = (case w of Binary_clause l1 l2 \<Rightarrow> 2 | Long_clause c \<Rightarrow> c_size c)"
definition cw_contains :: "clause_wrapper \<Rightarrow> literal \<Rightarrow> bool" where
  "cw_contains w l = (\<exists>k \<in> set (cw_view w). k = l)"
definition cw_contains_var :: "clause_wrapper \<Rightarrow> bool_var \<Rightarrow> bool" where
  "cw_contains_var w v = (\<exists>k \<in> set (cw_view w). lit_var k = v)"
definition cw_was_removed :: "clause_wrapper \<Rightarrow> bool" where
  "cw_was_removed w = (case w of Binary_clause l1 l2 \<Rightarrow> False | Long_clause c \<Rightarrow> c_removed c)"

section \<open>Lemmas\<close>

definition clause_ok_obj :: "clause_obj \<Rightarrow> bool" where
  "clause_ok_obj c \<longleftrightarrow> c_size c \<le> c_capacity c \<and> check_approx c"

lemma update_approx_simps [simp]:
  "c_view (update_approx c) = c_view c" "c_capacity (update_approx c) = c_capacity c" "check_approx (update_approx c)"
  "c_lits (update_approx c) = c_lits c" "c_size (update_approx c) = c_size c"
  by (simp_all add: update_approx_def c_view_def c_capacity_def check_approx_def)

lemma mark_strengthened_simps [simp]:
  "c_view (mark_strengthened c) = c_view c" "c_capacity (mark_strengthened c) = c_capacity c"
  "check_approx (mark_strengthened c)" "c_lits (mark_strengthened c) = c_lits c" "c_size (mark_strengthened c) = c_size c"
  by (simp_all add: mark_strengthened_def) (simp_all add: c_view_def c_capacity_def)

lemma new_clause_ok [simp]: "clause_ok_obj (new_clause cid lits learned)" "c_view (new_clause cid lits learned) = lits"
    "c_capacity (new_clause cid lits learned) = length lits"
  by (simp_all add: clause_ok_obj_def new_clause_def) (simp_all add: c_capacity_def c_view_def)

lemma find_lit: "find_lit l ks \<le> length ks" "l \<in> set ks \<Longrightarrow> find_lit l ks < length ks \<and> ks ! find_lit l ks = l"
  by (induction ks) auto

lemma remove1_find: "l \<in> set ks \<Longrightarrow> remove1 l ks = take (find_lit l ks) ks @ drop (Suc (find_lit l ks)) ks"
  by (induction ks) auto

lemma shift_left:
  assumes "i \<le> n" "n \<le> length ls" "0 < i"
  shows "foldl (\<lambda>ls j. ls[j - 1 := ls ! j]) ls [i..<n] = take (i - 1) ls @ take (n - i) (drop i ls) @ drop (n - 1) ls"
  using assms
proof (induction "n - i" arbitrary: i ls)
  case 0
  then show ?case by simp
next
  case (Suc d)
  let ?ls = "ls[i - 1 := ls ! i]"
  have "i < n" using Suc.hyps(2) by simp
  then have "foldl (\<lambda>ls j. ls[j - 1 := ls ! j]) ls [i..<n] = foldl (\<lambda>ls j. ls[j - 1 := ls ! j]) ?ls [Suc i..<n]"
    by (simp add: upt_conv_Cons)
  also have "\<dots> = take i ?ls @ take (n - Suc i) (drop (Suc i) ?ls) @ drop (n - 1) ?ls"
    using Suc.hyps(1) [of "Suc i" ?ls] Suc.hyps(2) \<open>i < n\<close> Suc.prems by simp
  also have "take i ?ls = take (i - 1) ls @ [ls ! i]"
    using \<open>i < n\<close> Suc.prems by (cases i) (auto simp: take_Suc_conv_app_nth)
  also have "drop (Suc i) ?ls = drop (Suc i) ls" using Suc.prems by simp
  also have "drop (n - 1) ?ls = drop (n - 1) ls" using \<open>i < n\<close> Suc.prems(3) by (intro drop_update_cancel) simp
  finally have "foldl (\<lambda>ls j. ls[j - 1 := ls ! j]) ls [i..<n] =
      take (i - 1) ls @ (ls ! i # take (n - Suc i) (drop (Suc i) ls)) @ drop (n - 1) ls" by simp
  moreover have "ls ! i # take (n - Suc i) (drop (Suc i) ls) = take (n - i) (drop i ls)"
    using \<open>i < n\<close> Suc.prems by (metis Cons_nth_drop_Suc Suc_diff_Suc less_le_trans take_Suc_Cons)
  ultimately show ?case by simp
qed

text \<open>Elimination takes the literal out and puts it behind the end, where \<open>restore\<close> finds it again.\<close>

lemma clause_elim_lits:
  assumes "c_size c \<le> c_capacity c" "l \<in> set (c_view c)"
  shows "c_size (clause_elim l c) = c_size c - 1"
    "c_lits (clause_elim l c) = remove1 l (c_view c) @ [l] @ drop (c_size c) (c_lits c)"
proof -
  let ?n = "c_size c" and ?ls = "c_lits c" and ?i = "find_lit l (c_view c)"
  have n: "?n \<le> length ?ls" using assms(1) by (simp add: c_capacity_def)
  have i: "?i < ?n" using find_lit(2) [OF assms(2)] by (simp add: c_view_def)
  have rm: "remove1 l (c_view c) = take ?i ?ls @ take (?n - Suc ?i) (drop (Suc ?i) ?ls)"
    using remove1_find [OF assms(2)] i n by (simp add: c_view_def take_drop)
  have "foldl (\<lambda>ls j. ls[j - 1 := ls ! j]) ?ls [?i + 1..<?n] = remove1 l (c_view c) @ drop (?n - 1) ?ls"
    using shift_left [of "?i + 1" ?n ?ls] i n rm by simp
  moreover have "length (remove1 l (c_view c)) = ?n - 1"
    using assms(2) n by (simp add: length_remove1 c_view_def)
  moreover have "(drop (?n - 1) ?ls)[0 := l] = l # drop ?n ?ls"
    using i n Cons_nth_drop_Suc [of "?n - 1" ?ls, symmetric] by simp
  ultimately show "c_lits (clause_elim l c) = remove1 l (c_view c) @ [l] @ drop ?n ?ls"
    by (simp add: clause_elim_def Let_def list_update_append)
  show "c_size (clause_elim l c) = ?n - 1" by (simp add: clause_elim_def Let_def)
qed

lemma clause_elim_view:
  assumes "c_size c \<le> c_capacity c" "l \<in> set (c_view c)"
  shows "c_view (clause_elim l c) = remove1 l (c_view c)" "c_capacity (clause_elim l c) = c_capacity c"
    "c_view (clause_restore (c_size c) (clause_elim l c)) = remove1 l (c_view c) @ [l]"
    "check_approx (clause_elim l c)"
proof -
  have "0 < c_size c" using assms(2) by (cases "c_size c") (auto simp: c_view_def)
  then have len: "length (remove1 l (c_view c)) = c_size c - 1" "0 < c_size c"
    using assms by (auto simp: length_remove1 c_view_def c_capacity_def)
  show "c_view (clause_elim l c) = remove1 l (c_view c)"
    using clause_elim_lits [OF assms] len by (simp add: c_view_def)
  show "c_capacity (clause_elim l c) = c_capacity c"
    using clause_elim_lits(2) [OF assms] len assms(1) by (simp add: c_capacity_def)
  show "c_view (clause_restore (c_size c) (clause_elim l c)) = remove1 l (c_view c) @ [l]"
    using clause_elim_lits [OF assms] len by (simp add: c_view_def clause_restore_def)
  show "check_approx (clause_elim l c)" by (simp add: clause_elim_def Let_def)
qed

lemma clause_shrink_view:
  assumes "n \<le> c_size c"
  shows "c_view (clause_shrink n c) = take n (c_view c)" "check_approx c \<Longrightarrow> check_approx (clause_shrink n c)"
    "c_capacity (clause_shrink n c) = c_capacity c"
  using assms by (auto simp: clause_shrink_def) (auto simp: c_view_def c_capacity_def min_absorb1)

lemma clause_satisfied: "clause_satisfied_by m c \<longleftrightarrow> satisfied_by (c_view c) m"
proof -
  have "lits_satisfied m ls \<longleftrightarrow> satisfied_by ls m" for ls
    by (induction ls) (auto simp: value_at_def Let_def)
  then show ?thesis by (simp add: clause_satisfied_by_def)
qed

lemma low_high_u64: "ucast (ucast x :: u32) + push_bit 32 (ucast (ucast (drop_bit 32 x) :: u32)) = (x :: u64)"
proof -
  have "ucast (ucast x :: u32) + push_bit 32 (ucast (ucast (drop_bit 32 x) :: u32)) =
      (ucast (ucast x :: u32) :: u64) OR push_bit 32 (ucast (ucast (drop_bit 32 x) :: u32))"
    by (rule disjunctive_add) (auto simp: bit_simps dest: bit_imp_le_length)
  also have "\<dots> = x"
    by (rule bit_word_eqI) (auto simp: bit_simps dest: bit_imp_le_length)
  finally show ?thesis .
qed

lemma get_set_new_offset:
  assumes "2 \<le> c_capacity c"
  shows "get_new_offset (set_new_offset off c) = off"
proof -
  have "0 < length (c_lits c)" "1 < length (c_lits c)" using assms by (auto simp: c_capacity_def)
  then show ?thesis by (simp add: get_new_offset_def set_new_offset_def low_high_u64)
qed

lemma cw_size: "clause_ok_obj c \<Longrightarrow> cw_size (Long_clause c) = length (cw_view (Long_clause c))"
  by (simp add: cw_size_def cw_view_def clause_ok_obj_def c_view_def c_capacity_def)

lemma bc_roundtrip:
  assumes "\<not> bit (lit_index l2) 31"
  shows "bc_literal1 (mk_bin l1 l2 b) = l1" "bc_literal2 (mk_bin l1 l2 b) = l2" "bc_learned (mk_bin l1 l2 b) = b"
  using append_bit [OF assms, of b] by (auto simp: mk_bin_def bc_literal1_def bc_literal2_def bc_learned_def)

end
