(* ===== verification/SatWatched.thy ===== *)
theory SatWatched
  imports SatClause
begin

text \<open>
  Model of sat/sat_watched.h and .cpp: the elements of watch lists, packed into two words, and the operations
  on watch lists.
\<close>

section \<open>Watched elements\<close>

record watched =
  w_val1 :: u64
  w_val2 :: u32

datatype watched_kind = BINARY | TERNARY | CLAUSE | EXT_CONSTRAINT

definition w_binary :: "literal \<Rightarrow> bool \<Rightarrow> watched" where
  "w_binary l learned = \<lparr>w_val1 = ucast (lit_index l), w_val2 = 0 + push_bit 2 (of_bool learned)\<rparr>"

definition w_ternary :: "literal \<Rightarrow> literal \<Rightarrow> watched" where
  "w_ternary l1 l2 =
     (let (l1, l2) = (if lit_index l1 > lit_index l2 then (l2, l1) else (l1, l2))
      in \<lparr>w_val1 = ucast (lit_index l1), w_val2 = 1 + push_bit 2 (lit_index l2)\<rparr>)"

definition w_clause :: "literal \<Rightarrow> u64 \<Rightarrow> watched" where
  "w_clause blocked off = \<lparr>w_val1 = off, w_val2 = 2 + push_bit 2 (lit_index blocked)\<rparr>"

definition w_ext :: "u64 \<Rightarrow> watched" where
  "w_ext idx = \<lparr>w_val1 = idx, w_val2 = 3\<rparr>"

definition w_kind :: "watched \<Rightarrow> watched_kind" where
  "w_kind w = (let k = w_val2 w AND 3 in if k = 0 then BINARY else if k = 1 then TERNARY else if k = 2 then CLAUSE else EXT_CONSTRAINT)"

definition is_binary_clause :: "watched \<Rightarrow> bool" where "is_binary_clause w = (w_kind w = BINARY)"
definition is_ternary_clause :: "watched \<Rightarrow> bool" where "is_ternary_clause w = (w_kind w = TERNARY)"
definition is_clause :: "watched \<Rightarrow> bool" where "is_clause w = (w_kind w = CLAUSE)"
definition is_ext_constraint :: "watched \<Rightarrow> bool" where "is_ext_constraint w = (w_kind w = EXT_CONSTRAINT)"

definition w_literal :: "watched \<Rightarrow> literal" where "w_literal w = Literal (ucast (w_val1 w))"
definition w_learned :: "watched \<Rightarrow> bool" where "w_learned w = (drop_bit 2 (w_val2 w) AND 1 = 1)"
definition w_literal1 :: "watched \<Rightarrow> literal" where "w_literal1 w = Literal (ucast (w_val1 w))"
definition w_literal2 :: "watched \<Rightarrow> literal" where "w_literal2 w = Literal (drop_bit 2 (w_val2 w))"
definition w_clause_offset :: "watched \<Rightarrow> u64" where "w_clause_offset w = w_val1 w"
definition w_blocked :: "watched \<Rightarrow> literal" where "w_blocked w = Literal (drop_bit 2 (w_val2 w))"
definition w_ext_idx :: "watched \<Rightarrow> u64" where "w_ext_idx w = w_val1 w"

definition is_binary_learned :: "watched \<Rightarrow> bool" where
  "is_binary_learned w = (is_binary_clause w \<and> w_learned w)"
definition is_binary_non_learned :: "watched \<Rightarrow> bool" where
  "is_binary_non_learned w = (is_binary_clause w \<and> \<not> w_learned w)"

definition w_set_literal :: "literal \<Rightarrow> watched \<Rightarrow> watched" where "w_set_literal l w = w\<lparr>w_val1 := ucast (lit_index l)\<rparr>"
definition w_set_learned :: "bool \<Rightarrow> watched \<Rightarrow> watched" where
  "w_set_learned b w = (if b then w\<lparr>w_val2 := w_val2 w OR 4\<rparr> else w\<lparr>w_val2 := w_val2 w AND NOT 4\<rparr>)"
definition w_set_offset :: "u64 \<Rightarrow> watched \<Rightarrow> watched" where "w_set_offset off w = w\<lparr>w_val1 := off\<rparr>"
definition w_set_blocked :: "literal \<Rightarrow> watched \<Rightarrow> watched" where
  "w_set_blocked l w = w\<lparr>w_val2 := 2 + push_bit 2 (lit_index l)\<rparr>"

text \<open>The order of a watch list: binary clauses, ternary clauses, the rest.\<close>

definition watched_lt :: "watched \<Rightarrow> watched \<Rightarrow> bool" where
  "watched_lt w1 w2 =
     (if is_binary_clause w2 then False else if is_binary_clause w1 then True
      else if is_ternary_clause w2 then False else if is_ternary_clause w1 then True else False)"

section \<open>Watch lists\<close>

primrec find_binary_watch :: "literal \<Rightarrow> watched list \<Rightarrow> watched option" where
  "find_binary_watch l [] = None"
| "find_binary_watch l (w # ws) = (if is_binary_clause w \<and> w_literal w = l then Some w else find_binary_watch l ws)"

text \<open>The list that is left, and whether the clause was found; the first occurrence goes.\<close>

primrec erase_clause_watch :: "u64 \<Rightarrow> watched list \<Rightarrow> watched list \<times> bool" where
  "erase_clause_watch c [] = ([], False)"
| "erase_clause_watch c (w # ws) =
     (if is_clause w \<and> w_clause_offset w = c then (ws, True)
      else let (r, found) = erase_clause_watch c ws in (w # r, found))"

primrec erase_loop :: "(watched \<Rightarrow> bool) \<Rightarrow> bool \<Rightarrow> watched list \<Rightarrow> watched list \<times> bool" where
  "erase_loop p found [] = ([], found)"
| "erase_loop p found (w # ws) =
     (if p w \<and> \<not> found then erase_loop p True ws
      else let (r, f) = erase_loop p found ws in (w # r, f))"

definition erase_binary_watch :: "literal \<Rightarrow> watched list \<Rightarrow> watched list option" where
  "erase_binary_watch l ws =
     (let (r, found) = erase_loop (\<lambda>w. is_binary_clause w \<and> w_literal w = l) False ws
      in if found then Some r else None)"

definition erase_ternary_watch :: "literal \<Rightarrow> literal \<Rightarrow> watched list \<Rightarrow> watched list" where
  "erase_ternary_watch l1 l2 ws = fst (erase_loop (\<lambda>w. w_ternary l1 l2 = w) False ws)"

text \<open>After a conflict: what is kept so far, and all that was not looked at.\<close>

definition conflict_cleanup :: "nat \<Rightarrow> nat \<Rightarrow> watched list \<Rightarrow> watched list" where
  "conflict_cleanup i j ws = take j ws @ drop i ws"

section \<open>The encoding\<close>

lemma bit_three: "bit (3 :: u32) n \<longleftrightarrow> n < 2"
proof -
  have "bit (3 :: int) n \<longleftrightarrow> n < 2"
    using bit_mask_iff [where ?'a = int, of 2 n] by (simp add: mask_eq_exp_minus_1)
  then show ?thesis by auto
qed

lemma bit_four: "bit (4 :: u32) n \<longleftrightarrow> n = 2"
proof -
  have "(4 :: u32) = 2 ^ 2" by simp
  then show ?thesis by (simp only: bit_exp_iff) auto
qed

lemma append_two_bits:
  fixes v k :: u32
  assumes "\<not> bit v 30" "\<not> bit v 31" "k AND 3 = k"
  shows "drop_bit 2 (k + push_bit 2 v) = v" "(k + push_bit 2 v) AND 3 = k"
proof -
  have k: "\<not> bit k n" if "2 \<le> n" for n
  proof -
    have "bit k n \<longleftrightarrow> bit k n \<and> bit (3 :: u32) n" using assms(3) by (metis bit_and_iff)
    then show ?thesis unfolding bit_three using that by auto
  qed
  have p: "k + push_bit 2 v = k OR push_bit 2 v"
    by (rule disjunctive_add) (use k in \<open>auto simp: bit_push_bit_iff not_le\<close>)
  show "drop_bit 2 (k + push_bit 2 v) = v"
    unfolding p
  proof (rule bit_word_eqI)
    fix n assume n: "n < LENGTH(32)"
    have "bit (drop_bit 2 (k OR push_bit 2 v)) n \<longleftrightarrow> 2 + n < 32 \<and> bit v n"
      using k [of "2 + n"] n by (simp add: bit_drop_bit_eq bit_or_iff bit_push_bit_iff)
    also have "\<dots> \<longleftrightarrow> bit v n" using assms(1,2) n by (cases "n = 30"; cases "n = 31") auto
    finally show "bit (drop_bit 2 (k OR push_bit 2 v)) n \<longleftrightarrow> bit v n" .
  qed
  have "push_bit 2 v AND 3 = 0"
  proof (rule bit_word_eqI)
    fix n assume "n < LENGTH(32)"
    show "bit (push_bit 2 v AND 3) n \<longleftrightarrow> bit (0 :: u32) n" unfolding bit_and_iff bit_three by (auto simp: bit_push_bit_iff)
  qed
  then show "(k + push_bit 2 v) AND 3 = k" unfolding p using assms(3) by (simp add: bit.conj_disj_distrib2 or.commute)
qed


text \<open>The literals of variables below \<open>2 ^ 29\<close> have an index of thirty bits.\<close>

definition small_lit :: "literal \<Rightarrow> bool" where "small_lit l = (lit_var l < 536870912)"

lemma small_lit_bits:
  assumes "small_lit l"
  shows "\<not> bit (lit_index l) 30" "\<not> bit (lit_index l) 31"
proof -
  have n: "unat (lit_var l) < 536870912" using assms by (simp add: small_lit_def word_less_nat_alt)
  have "\<not> bit (lit_var l) k" if "29 \<le> k" for k
  proof -
    have "unat (lit_var l) < 2 ^ k" using n power_increasing [OF that, of "2 :: nat"] by simp
    then have "\<not> bit (unat (lit_var l)) k" by (simp add: bit_iff_odd)
    then show ?thesis by (simp add: bit_unsigned_iff)
  qed
  from this [of 29] this [of 30] show "\<not> bit (lit_index l) 30" "\<not> bit (lit_index l) 31"
    by (simp_all add: lit_var_def bit_drop_bit_eq)
qed

lemma ucast_u32_u64_u32: "ucast (ucast (x :: u32) :: u64) = x"
  by (rule bit_word_eqI) (simp add: bit_ucast_iff)

lemma w_literals [simp]: "w_literal (w_binary l b) = l" "w_clause_offset (w_clause k off) = off" "w_ext_idx (w_ext off) = off"
  by (simp_all add: w_literal_def w_binary_def w_clause_def w_ext_def w_clause_offset_def w_ext_idx_def ucast_u32_u64_u32)

lemma w_binary_kind [simp]: "w_kind (w_binary l b) = BINARY" "w_learned (w_binary l b) = b"
  by (cases b; simp add: w_kind_def w_binary_def w_learned_def)+

lemma w_ext_kind [simp]: "w_kind (w_ext i) = EXT_CONSTRAINT"
  by (simp add: w_kind_def w_ext_def)

lemma w_clause_kind:
  assumes "small_lit l"
  shows "w_kind (w_clause l off) = CLAUSE" "w_blocked (w_clause l off) = l"
  using append_two_bits [OF small_lit_bits [OF assms], of 2] by (simp_all add: w_kind_def w_clause_def w_blocked_def Let_def)

lemma w_ternary_kind:
  assumes "small_lit l1" "small_lit l2"
  shows "w_kind (w_ternary l1 l2) = TERNARY" "{w_literal1 (w_ternary l1 l2), w_literal2 (w_ternary l1 l2)} = {l1, l2}"
    "w_literal1 (w_ternary l1 l2) \<le> w_literal2 (w_ternary l1 l2)" "w_ternary l1 l2 = w_ternary l2 l1"
proof -
  note a = append_two_bits [OF small_lit_bits [OF assms(1)], of 1] append_two_bits [OF small_lit_bits [OF assms(2)], of 1]
  show "w_kind (w_ternary l1 l2) = TERNARY" "{w_literal1 (w_ternary l1 l2), w_literal2 (w_ternary l1 l2)} = {l1, l2}"
    "w_literal1 (w_ternary l1 l2) \<le> w_literal2 (w_ternary l1 l2)"
    using a by (auto simp: w_kind_def w_ternary_def w_literal1_def w_literal2_def less_eq_literal_def ucast_u32_u64_u32 Let_def)
  show "w_ternary l1 l2 = w_ternary l2 l1"
    using less_antisym by (auto simp: w_ternary_def Let_def not_less intro: lit_index_inject [THEN iffD1] antisym)
qed

lemma w_up: "w_val2 (w\<lparr>w_val2 := x\<rparr>) = x" "w_val1 (w\<lparr>w_val2 := x\<rparr>) = w_val1 w"
  by simp_all

lemma w_set_learned [simp]:
  assumes "w_kind w = BINARY"
  shows "w_kind (w_set_learned b w) = BINARY" "w_learned (w_set_learned b w) = b" "w_literal (w_set_learned b w) = w_literal w"
proof -
  have l: "w_learned w = bit (w_val2 w) 2" for w
    by (simp add: w_learned_def and_one_eq odd_iff_mod_2_eq_one [symmetric] bit_iff_odd_drop_bit) 
  have k: "w_val2 (w_set_learned b w) AND 3 = w_val2 w AND 3"
    by (rule bit_word_eqI) (cases b, auto simp only: w_set_learned_def if_True if_False bit_and_iff bit_or_iff bit_not_iff bit_three bit_four w_up possible_bit_word)
  show "w_kind (w_set_learned b w) = BINARY" using assms by (simp add: w_kind_def k)
  show "w_learned (w_set_learned b w) = b"
    unfolding l by (cases b) (simp_all only: w_set_learned_def if_True if_False w_up bit_and_iff bit_or_iff bit_not_iff bit_four, simp_all)
  show "w_literal (w_set_learned b w) = w_literal w" by (simp add: w_literal_def w_set_learned_def)
qed

section \<open>Lists with one element taken out\<close>

lemma erase_loop_found: "erase_loop p True ws = (ws, True)"
  by (induction ws) auto

text \<open>Erasing takes out the first element that satisfies the test, and reports whether there is one.\<close>

lemma erase_loop_eq:
  "erase_loop p False ws = (takeWhile (\<lambda>w. \<not> p w) ws @ drop 1 (dropWhile (\<lambda>w. \<not> p w) ws), \<exists>w \<in> set ws. p w)"
  by (induction ws) (auto simp: erase_loop_found)

lemma erase_clause_watch_eq:
  "erase_clause_watch c ws = erase_loop (\<lambda>w. is_clause w \<and> w_clause_offset w = c) False ws"
  by (induction ws) (auto simp: erase_loop_found)

lemma find_binary_watch_Some:
  "(find_binary_watch l ws \<noteq> None) \<longleftrightarrow> (\<exists>w \<in> set ws. is_binary_clause w \<and> w_literal w = l)"
  "find_binary_watch l ws = Some w \<Longrightarrow> w \<in> set ws \<and> is_binary_clause w \<and> w_literal w = l"
  by (induction ws) (auto split: if_splits)

end
