(* ===== verification/SatConverter.thy ===== *)
theory SatConverter
  imports SatTypes
begin

text \<open>
  Model of sat/sat_model_converter.h and .cpp. The preprocessor stores the clauses that it removes, with the
  variable by which each may be repaired, and the converter extends a model of what is left to these
  clauses, last entry first. \<open>None\<close> is a failed \<open>VERIFY\<close>, an exception, unreachable code or an access out of
  bounds.
\<close>

section \<open>State\<close>

type_synonym elim_stackv = "(nat \<times> literal) list"

datatype entry_kind = ELIM_VAR | BCE | CCE | ACCE | ABCE | ATE

text \<open>The clauses of an entry stand one after the other, each closed by the null literal.\<close>

record mc_entry =
  e_var :: bool_var
  e_kind :: entry_kind
  e_clauses :: "literal list"
  e_elim_stack :: "elim_stackv option list"

record model_converter =
  m_entries :: "mc_entry list"
  m_elim_stack :: elim_stackv

text \<open>What the converter asks of the solver, when it has one.\<close>

record solver_view =
  sv_assumption :: "bool_var \<Rightarrow> bool"
  sv_external :: "bool_var \<Rightarrow> bool"
  sv_incremental :: bool

definition legal_to_flip :: "solver_view option \<Rightarrow> bool_var \<Rightarrow> bool" where
  "legal_to_flip solver v =
     (case solver of
        None \<Rightarrow> True
      | Some s \<Rightarrow> \<not> sv_assumption s v \<and> \<not> (sv_external s v \<and> sv_incremental s))"

section \<open>Extending a model\<close>

text \<open>Assigning a variable, where it is legal and in bounds.\<close>

definition assign :: "solver_view option \<Rightarrow> model \<Rightarrow> bool_var \<Rightarrow> bool \<Rightarrow> model option" where
  "assign solver m v sign = (if legal_to_flip solver v \<and> in_model m v then Some (set_var m v sign) else None)"

text \<open>The loop over the elimination stack, which runs from its top; the argument is the reversed stack.\<close>

primrec process_stack_loop :: "solver_view option \<Rightarrow> literal list \<Rightarrow> elim_stackv \<Rightarrow> model \<Rightarrow> model option" where
  "process_stack_loop solver c [] m = Some m"
| "process_stack_loop solver c (p # stack) m =
     (case p of (csz, lit) \<Rightarrow>
        if satisfied_by (take csz c) m then process_stack_loop solver c stack m
        else if length c < csz then None
        else Option.bind (assign solver m (lit_var lit) (lit_sign lit)) (process_stack_loop solver c stack))"

definition process_stack :: "solver_view option \<Rightarrow> model \<Rightarrow> literal list \<Rightarrow> elim_stackv \<Rightarrow> model option" where
  "process_stack solver m c stack = process_stack_loop solver c (rev stack) m"

text \<open>The loop over the literals of an entry, in which a null literal ends a clause.\<close>

record scan_state =
  ss_model :: model
  ss_sat :: bool
  ss_var_sign :: bool
  ss_index :: nat
  ss_clause :: "literal list"

definition end_of_clause :: "solver_view option \<Rightarrow> mc_entry \<Rightarrow> scan_state \<Rightarrow> scan_state option" where
  "end_of_clause solver e st =
     (if \<not> ss_sat st \<and> e_kind e = ATE then None
      else do {
        m \<leftarrow> (if \<not> ss_sat st \<and> e_var e \<noteq> null_bool_var
              then assign solver (ss_model st) (e_var e) (ss_var_sign st) else Some (ss_model st));
        if length (e_elim_stack e) \<le> ss_index st then None
        else do {
          m \<leftarrow> (case e_elim_stack e ! ss_index st of
                  None \<Rightarrow> Some m | Some stack \<Rightarrow> process_stack solver m (ss_clause st) stack);
          Some (st\<lparr>ss_model := m, ss_sat := False, ss_index := ss_index st + 1, ss_clause := []\<rparr>) } })"

definition scan_literal :: "solver_view option \<Rightarrow> mc_entry \<Rightarrow> literal \<Rightarrow> scan_state \<Rightarrow> scan_state option" where
  "scan_literal solver e l st =
     (let st = st\<lparr>ss_clause := ss_clause st @ [l]\<rparr>; m = ss_model st
      in if ss_sat st then Some st
         else if \<not> in_model m (lit_var l) then None
         else
           let st = (if lit_var l = e_var e then st\<lparr>ss_var_sign := lit_sign l\<rparr> else st)
           in if value_at l m = L_true then Some (st\<lparr>ss_sat := True\<rparr>)
              else if lit_var l \<noteq> e_var e \<and> var_value m (lit_var l) = L_undef
                then do { m \<leftarrow> assign solver m (lit_var l) (lit_sign l); Some (st\<lparr>ss_model := m, ss_sat := True\<rparr>) }
              else Some st)"

primrec scan_literals :: "solver_view option \<Rightarrow> mc_entry \<Rightarrow> literal list \<Rightarrow> scan_state \<Rightarrow> scan_state option" where
  "scan_literals solver e [] st = Some st"
| "scan_literals solver e (l # ls) st =
     do { st \<leftarrow> (if l = null_literal then end_of_clause solver e st else scan_literal solver e l st);
          scan_literals solver e ls st }"

definition process_entry :: "solver_view option \<Rightarrow> mc_entry \<Rightarrow> model \<Rightarrow> model option" where
  "process_entry solver e m =
     (if e_var e = null_bool_var \<or> legal_to_flip solver (e_var e) then
        map_option ss_model (scan_literals solver e (e_clauses e)
          \<lparr>ss_model = m, ss_sat = False, ss_var_sign = False, ss_index = 0, ss_clause = []\<rparr>)
      else None)"

primrec process_entries :: "solver_view option \<Rightarrow> mc_entry list \<Rightarrow> model \<Rightarrow> model option" where
  "process_entries solver [] m = Some m"
| "process_entries solver (e # es) m = Option.bind (process_entry solver e m) (process_entries solver es)"

definition convert_model :: "solver_view option \<Rightarrow> model_converter \<Rightarrow> model \<Rightarrow> model option" where
  "convert_model solver mc m = process_entries solver (rev (m_entries mc)) m"

section \<open>Building the converter\<close>

definition mc_reset :: "model_converter \<Rightarrow> model_converter" where
  "mc_reset mc = mc\<lparr>m_entries := []\<rparr>"

definition mc_mk :: "solver_view option \<Rightarrow> entry_kind \<Rightarrow> bool_var \<Rightarrow> model_converter \<Rightarrow> model_converter option" where
  "mc_mk solver k v mc =
     (if v = null_bool_var \<or> legal_to_flip solver v
      then Some (mc\<lparr>m_entries := m_entries mc @ [\<lparr>e_var = v, e_kind = k, e_clauses = [], e_elim_stack = []\<rparr>]\<rparr>)
      else None)"

definition add_elim_stack :: "elim_stackv \<Rightarrow> mc_entry \<Rightarrow> mc_entry" where
  "add_elim_stack stackv e = e\<lparr>e_elim_stack := e_elim_stack e @ [if stackv = [] then None else Some stackv]\<rparr>"

text \<open>A clause is inserted into the entry that was made last.\<close>

definition mc_insert :: "literal list \<Rightarrow> model_converter \<Rightarrow> model_converter" where
  "mc_insert c mc =
     (let e = last (m_entries mc)
      in mc\<lparr>m_entries := butlast (m_entries mc) @
               [add_elim_stack (m_elim_stack mc) (e\<lparr>e_clauses := e_clauses e @ c @ [null_literal]\<rparr>)],
            m_elim_stack := []\<rparr>)"

definition add_ate :: "solver_view option \<Rightarrow> literal list \<Rightarrow> model_converter \<Rightarrow> model_converter option" where
  "add_ate solver c mc =
     (if m_elim_stack mc = [] then Some mc else map_option (mc_insert c) (mc_mk solver ATE null_bool_var mc))"

definition mc_copy :: "model_converter \<Rightarrow> model_converter \<Rightarrow> model_converter" where
  "mc_copy src mc = (mc_reset mc)\<lparr>m_entries := m_entries src\<rparr>"

text \<open>The two converters after the entries have moved.\<close>

definition mc_flush :: "model_converter \<Rightarrow> model_converter \<Rightarrow> model_converter \<times> model_converter" where
  "mc_flush src mc = (mc\<lparr>m_entries := m_entries mc @ m_entries src\<rparr>, src\<lparr>m_entries := []\<rparr>)"

section \<open>Inspection\<close>

text \<open>Are all stored clauses satisfied?\<close>

primrec check_literals :: "model \<Rightarrow> literal list \<Rightarrow> bool \<Rightarrow> bool \<Rightarrow> bool" where
  "check_literals m [] sat ok = ok"
| "check_literals m (l # ls) sat ok =
     (if l = null_literal then check_literals m ls False (ok \<and> sat)
      else check_literals m ls (sat \<or> value_at l m = L_true) ok)"

definition check_model :: "model \<Rightarrow> model_converter \<Rightarrow> bool" where
  "check_model m mc = foldl (\<lambda>ok e. check_literals m (e_clauses e) False ok) True (rev (m_entries mc))"

definition collect_vars :: "model_converter \<Rightarrow> bool_var set \<Rightarrow> bool_var set" where
  "collect_vars mc s = s \<union> e_var ` set (m_entries mc)"

definition max_var :: "u32 \<Rightarrow> model_converter \<Rightarrow> u32" where
  "max_var mn mc =
     foldl (\<lambda>r e. foldl (\<lambda>r l. if l \<noteq> null_literal \<and> lit_var l \<noteq> null_bool_var \<and> r < lit_var l then lit_var l else r)
                    r (e_clauses e)) mn (m_entries mc)"

text \<open>
  The entries as a list of updates: a clause stands for \<open>lit0 := lit0 or not (lit1 or ... or litk)\<close>. The literal to
  be updated is brought to the front.
\<close>

primrec swap_to_front :: "bool_var \<Rightarrow> nat \<Rightarrow> nat \<Rightarrow> literal list \<Rightarrow> literal list option" where
  "swap_to_front v j 0 c = None"
| "swap_to_front v j (Suc n) c =
     (if lit_var (c ! j) = v then Some (c[0 := c ! j, j := c ! 0]) else swap_to_front v (Suc j) n c)"

primrec expand_stack :: "elim_stackv \<Rightarrow> literal list \<Rightarrow> literal list \<Rightarrow> (literal list \<times> literal list) option" where
  "expand_stack [] c out = Some (c, out)"
| "expand_stack (p # stack) c out =
     (case p of (csz, lit) \<Rightarrow>
        if length c < csz then None
        else do { c \<leftarrow> swap_to_front (lit_var lit) 0 csz c;
                  expand_stack stack c (out @ take csz c @ [null_literal]) })"

primrec expand_literals :: "mc_entry \<Rightarrow> literal list \<Rightarrow> nat \<Rightarrow> literal list \<Rightarrow> literal list \<Rightarrow> literal list option" where
  "expand_literals e [] index c out = Some out"
| "expand_literals e (l # ls) index c out =
     (if l \<noteq> null_literal then expand_literals e ls index (c @ [l]) out
      else if length (e_elim_stack e) \<le> index then None
      else do {
        (c, out) \<leftarrow> (case e_elim_stack e ! index of None \<Rightarrow> Some (c, out) | Some stack \<Rightarrow> expand_stack stack c out);
        out \<leftarrow> (if e_var e = null_bool_var then Some out
                else do { c \<leftarrow> swap_to_front (e_var e) 0 (length c) c; Some (out @ c @ [null_literal]) });
        expand_literals e ls (index + 1) [] out })"

primrec expand_entries :: "mc_entry list \<Rightarrow> literal list \<Rightarrow> literal list option" where
  "expand_entries [] out = Some out"
| "expand_entries (e # es) out = Option.bind (expand_literals e (e_clauses e) 0 [] out) (expand_entries es)"

definition expand :: "model_converter \<Rightarrow> literal list \<Rightarrow> literal list option" where
  "expand mc update_stack = expand_entries (m_entries mc) update_stack"

end
