(* ===== verification/SatElimEqs.thy ===== *)
theory SatElimEqs
  imports SatWatched SatConverter
begin

text \<open>
  Model of sat/sat_elim_eqs.cpp: literals that are equivalent are replaced by one of them, in binary clauses and
  in the others, and the definitions of the variables that go are given to the model converter.
\<close>

section \<open>Roots\<close>

definition norm_lit :: "literal list \<Rightarrow> literal \<Rightarrow> literal" where
  "norm_lit roots l = (if lit_sign l then lit_neg (roots ! unat (lit_var l)) else roots ! unat (lit_var l))"

section \<open>Binary clauses\<close>

text \<open>The parts of the solver that are used: the assignment, whether it is inconsistent, and the watch lists.\<close>

record eq_state =
  eq_assignment :: "lbool list"
  eq_inconsistent :: bool
  eq_watches :: "watched list list"
  eq_new_bin :: "(literal \<times> literal \<times> bool) list"

definition eq_value :: "eq_state \<Rightarrow> literal \<Rightarrow> lbool" where
  "eq_value s l = eq_assignment s ! unat (lit_index l)"

text \<open>What \<open>assign_unit\<close> does at the base level: a conflict, the literal and its complement, or nothing.\<close>

definition eq_assign_unit :: "literal \<Rightarrow> eq_state \<Rightarrow> eq_state" where
  "eq_assign_unit l s =
     (case eq_value s l of
        L_false \<Rightarrow> s\<lparr>eq_inconsistent := True\<rparr>
      | L_undef \<Rightarrow> s\<lparr>eq_assignment := (eq_assignment s)[unat (lit_index l) := L_true, unat (lit_index (lit_neg l)) := L_false]\<rparr>
      | L_true \<Rightarrow> s)"

text \<open>
  One watch list, of the literal \<open>l1\<close>: what is kept, and the rest of the list when a conflict ends the loop.
\<close>

primrec cleanup_bin_list :: "literal list \<Rightarrow> literal \<Rightarrow> watched list \<Rightarrow> watched list \<Rightarrow> eq_state \<Rightarrow> watched list \<times> eq_state" where
  "cleanup_bin_list roots l1 [] kept s = (kept, s)"
| "cleanup_bin_list roots l1 (w # ws) kept s =
     (if is_binary_clause w then
        let r1 = norm_lit roots l1;
            l2 = w_literal w;
            r2 = norm_lit roots l2
        in if r1 = r2 then
             let s = eq_assign_unit r1 s
             in if eq_inconsistent s then (kept, s) else cleanup_bin_list roots l1 ws kept s
           else if r1 = lit_neg r2 then cleanup_bin_list roots l1 ws kept s
           else if l1 \<noteq> r1 \<or> l2 \<noteq> r2 then
             cleanup_bin_list roots l1 ws kept
               (if lit_index r1 < lit_index r2 then s\<lparr>eq_new_bin := eq_new_bin s @ [(r1, r2, w_learned w)]\<rparr> else s)
           else cleanup_bin_list roots l1 ws (kept @ [w]) s
      else cleanup_bin_list roots l1 ws (kept @ [w]) s)"

text \<open>
  All watch lists; after a conflict the array of the list at hand holds what was kept, followed by what stood
  behind it. The binary clauses that are to be made are collected in \<open>eq_new_bin\<close>.
\<close>

primrec cleanup_bin_lists :: "literal list \<Rightarrow> nat \<Rightarrow> nat \<Rightarrow> eq_state \<Rightarrow> eq_state" where
  "cleanup_bin_lists roots l_idx 0 s = s"
| "cleanup_bin_lists roots l_idx (Suc n) s =
     (let ws = eq_watches s ! l_idx;
          (kept, s) = cleanup_bin_list roots (lit_neg (Literal (of_nat l_idx))) ws [] s
      in if eq_inconsistent s then s\<lparr>eq_watches := (eq_watches s)[l_idx := kept @ drop (length kept) ws]\<rparr>
         else cleanup_bin_lists roots (l_idx + 1) n (s\<lparr>eq_watches := (eq_watches s)[l_idx := kept]\<rparr>))"

text \<open>
  \<open>mk_bin_clause\<close> of the solver, at the base level: two binary clauses that differ in one literal give a unit,
  a clause that is there already may stop being learned, and one with a false literal gives a unit. \<open>None\<close> is
  a failed \<open>VERIFY\<close>.
\<close>

definition watch_at :: "literal \<Rightarrow> (watched list \<Rightarrow> watched list) \<Rightarrow> eq_state \<Rightarrow> eq_state" where
  "watch_at l f s =
     s\<lparr>eq_watches := (eq_watches s)[unat (lit_index l) := f (eq_watches s ! unat (lit_index l))]\<rparr>"

primrec unlearn_first :: "literal \<Rightarrow> watched list \<Rightarrow> watched list" where
  "unlearn_first l [] = []"
| "unlearn_first l (w # ws) =
     (if is_binary_clause w \<and> w_literal w = l then w_set_learned False w # ws else w # unlearn_first l ws)"

definition eq_wlist :: "eq_state \<Rightarrow> literal \<Rightarrow> watched list" where
  "eq_wlist s l = eq_watches s ! unat (lit_index l)"

definition eq_mk_bin_clause :: "literal \<Rightarrow> literal \<Rightarrow> bool \<Rightarrow> eq_state \<Rightarrow> eq_state option" where
  "eq_mk_bin_clause l1 l2 learned s =
     (if find_binary_watch (lit_neg l2) (eq_wlist s (lit_neg l1)) \<noteq> None \<and> eq_value s l1 = L_undef
        then Some (eq_assign_unit l1 s)
      else if find_binary_watch (lit_neg l1) (eq_wlist s (lit_neg l2)) \<noteq> None \<and> eq_value s l2 = L_undef
        then Some (eq_assign_unit l2 s)
      else case find_binary_watch l2 (eq_wlist s (lit_neg l1)) of
             Some w0 \<Rightarrow>
               if w_learned w0 \<and> \<not> learned then
                 let s = watch_at (lit_neg l1) (unlearn_first l2) s
                 in (case find_binary_watch l1 (eq_wlist s (lit_neg l2)) of
                       None \<Rightarrow> None
                     | Some w1 \<Rightarrow> Some (watch_at (lit_neg l2) (unlearn_first l1) s))
               else Some s
           | None \<Rightarrow>
               if eq_value s l2 = L_false then Some (eq_assign_unit l1 s)
               else if eq_value s l1 = L_false then Some (eq_assign_unit l2 s)
               else Some (watch_at (lit_neg l2) (\<lambda>ws. ws @ [w_binary l1 learned])
                           (watch_at (lit_neg l1) (\<lambda>ws. ws @ [w_binary l2 learned]) s)))"

primrec eq_mk_bins :: "(literal \<times> literal \<times> bool) list \<Rightarrow> eq_state \<Rightarrow> eq_state option" where
  "eq_mk_bins [] s = Some s"
| "eq_mk_bins (b # bs) s = (case b of (l1, l2, learned) \<Rightarrow> Option.bind (eq_mk_bin_clause l1 l2 learned s) (eq_mk_bins bs))"

definition cleanup_bin_watches :: "literal list \<Rightarrow> eq_state \<Rightarrow> eq_state option" where
  "cleanup_bin_watches roots s =
     (let s = cleanup_bin_lists roots 0 (length (eq_watches s)) (s\<lparr>eq_new_bin := []\<rparr>)
      in if eq_inconsistent s then Some s
         else map_option (\<lambda>s. s\<lparr>eq_new_bin := []\<rparr>) (eq_mk_bins (eq_new_bin s) s))"

section \<open>Clauses\<close>

text \<open>What becomes of one clause.\<close>

datatype clause_fate = Unaffected | Removed | Empty_clause | Unit_clause literal | Two_literals literal literal | Shrunk "literal list"

text \<open>Removing duplicates and false literals of a sorted clause; \<open>None\<close> for a tautology or a true literal.\<close>

primrec dedup_loop :: "(literal \<Rightarrow> lbool) \<Rightarrow> literal \<Rightarrow> literal list \<Rightarrow> literal list \<Rightarrow> literal list option" where
  "dedup_loop val l_prev [] acc = Some acc"
| "dedup_loop val l_prev (l # ls) acc =
     (if l = lit_neg l_prev then None
      else if l = l_prev then dedup_loop val l_prev ls acc
      else if val l = L_true then None
      else if val l = L_false then dedup_loop val l ls acc
      else dedup_loop val l ls (acc @ [l]))"

definition fate_of :: "literal list \<Rightarrow> clause_fate" where
  "fate_of ls = (case ls of [] \<Rightarrow> Empty_clause | [l] \<Rightarrow> Unit_clause l | [l1, l2] \<Rightarrow> Two_literals l1 l2 | _ \<Rightarrow> Shrunk ls)"

text \<open>\<open>None\<close> is a failed \<open>VERIFY\<close>: the roots are their own roots, and not of eliminated variables.\<close>

definition normalize_clause :: "literal list \<Rightarrow> (bool_var \<Rightarrow> bool) \<Rightarrow> (literal \<Rightarrow> lbool) \<Rightarrow> clause \<Rightarrow> clause_fate option" where
  "normalize_clause roots eliminated val c =
     (if \<forall>l \<in> set c. l = norm_lit roots l then Some Unaffected
      else if \<not> (\<forall>l \<in> set c. norm_lit roots l = norm_lit roots (norm_lit roots l)
                           \<and> (\<not> eliminated (lit_var (norm_lit roots l)) \<or> l = norm_lit roots l)) then None
      else Some (case dedup_loop val null_literal (sort (map (norm_lit roots) c)) [] of
                   None \<Rightarrow> Removed
                 | Some ls \<Rightarrow> fate_of ls))"

text \<open>
  All clauses of a vector: those that stay, and the state. An empty clause is a conflict, which leaves the rest
  of the vector as it is.
\<close>

primrec cleanup_eq_clauses ::
  "literal list \<Rightarrow> (bool_var \<Rightarrow> bool) \<Rightarrow> (clause \<times> bool) list \<Rightarrow> (clause \<times> bool) list \<Rightarrow> eq_state
     \<Rightarrow> ((clause \<times> bool) list \<times> eq_state) option" where
  "cleanup_eq_clauses roots eliminated [] kept s = Some (kept, s)"
| "cleanup_eq_clauses roots eliminated (cl # cs) kept s =
     (case cl of (c, learned) \<Rightarrow>
      (case normalize_clause roots eliminated (eq_value s) c of
        None \<Rightarrow> None
      | Some f \<Rightarrow>
          (case f of
             Unaffected \<Rightarrow> cleanup_eq_clauses roots eliminated cs (kept @ [cl]) s
           | Removed \<Rightarrow> cleanup_eq_clauses roots eliminated cs kept s
           | Empty_clause \<Rightarrow> Some (kept @ cl # cs, s\<lparr>eq_inconsistent := True\<rparr>)
           | Unit_clause l \<Rightarrow> cleanup_eq_clauses roots eliminated cs kept (eq_assign_unit l s)
           | Two_literals l1 l2 \<Rightarrow>
               Option.bind (eq_mk_bin_clause l1 l2 learned s) (cleanup_eq_clauses roots eliminated cs kept)
           | Shrunk ls \<Rightarrow> cleanup_eq_clauses roots eliminated cs (kept @ [(ls, learned)]) s)))"

section \<open>Definitions of the variables that go\<close>

text \<open>
  \<open>set_root\<close> is the answer of the extension, if there is one. A variable that must stay keeps its two binary
  clauses.
\<close>

definition mc_insert2 :: "literal \<Rightarrow> literal \<Rightarrow> model_converter \<Rightarrow> model_converter" where
  "mc_insert2 l1 l2 mc = mc_insert [l1, l2] mc"

definition must_stay :: "solver_view \<Rightarrow> (literal \<Rightarrow> literal \<Rightarrow> bool) \<Rightarrow> bool_var \<Rightarrow> literal \<Rightarrow> bool" where
  "must_stay sv set_root v r =
     (let root_ok = (\<not> sv_external sv v \<or> set_root (mk_literal v False) r)
      in sv_assumption sv v \<or> (sv_external sv v \<and> (sv_incremental sv \<or> \<not> root_ok)))"

primrec save_elim ::
  "literal list \<Rightarrow> solver_view \<Rightarrow> (literal \<Rightarrow> literal \<Rightarrow> bool) \<Rightarrow> bool_var list
     \<Rightarrow> model_converter \<times> bool list \<times> eq_state \<Rightarrow> (model_converter \<times> bool list \<times> eq_state) option" where
  "save_elim roots sv set_root [] st = Some st"
| "save_elim roots sv set_root (v # vs) st =
     (case st of (mc, eliminated, s) \<Rightarrow>
        let l = mk_literal v False;
            r = roots ! unat v
        in if must_stay sv set_root v r then do {
             s \<leftarrow> eq_mk_bin_clause (lit_neg l) r False s;
             s \<leftarrow> eq_mk_bin_clause l (lit_neg r) False s;
             save_elim roots sv set_root vs (mc, eliminated, s) }
           else do {
             mc \<leftarrow> mc_mk (Some sv) ELIM_VAR v mc;
             save_elim roots sv set_root vs
               (mc_insert2 l (lit_neg r) (mc_insert2 (lit_neg l) r mc), eliminated[unat v := True], s) })"

text \<open>The whole operation, up to the propagation at its end. After a conflict nothing is saved.\<close>

definition elim_eqs ::
  "literal list \<Rightarrow> bool_var list \<Rightarrow> solver_view \<Rightarrow> (literal \<Rightarrow> literal \<Rightarrow> bool)
     \<Rightarrow> (clause \<times> bool) list \<Rightarrow> (clause \<times> bool) list \<Rightarrow> model_converter \<times> bool list \<times> eq_state
     \<Rightarrow> ((clause \<times> bool) list \<times> (clause \<times> bool) list \<times> model_converter \<times> bool list \<times> eq_state) option" where
  "elim_eqs roots to_elim sv set_root clauses learned st =
     (case st of (mc, eliminated, s) \<Rightarrow> do {
        s \<leftarrow> cleanup_bin_watches roots s;
        (clauses, s) \<leftarrow> cleanup_eq_clauses roots (\<lambda>v. eliminated ! unat v) clauses [] s;
        if eq_inconsistent s then Some (clauses, learned, mc, eliminated, s)
        else do {
          (learned, s) \<leftarrow> cleanup_eq_clauses roots (\<lambda>v. eliminated ! unat v) learned [] s;
          if eq_inconsistent s then Some (clauses, learned, mc, eliminated, s)
          else do {
            (mc, eliminated, s) \<leftarrow> save_elim roots sv set_root to_elim (mc, eliminated, s);
            Some (clauses, learned, mc, eliminated, s) } } })"

end
