(* ===== verification/SatUseList.thy ===== *)
theory SatUseList
  imports SatClause "HOL-Library.Multiset"
begin

text \<open>
  Model of sat/sat_clause_use_list.h and .cpp: the list of the clauses in which a literal occurs, from which
  removed clauses are taken only when the list is next traversed. Clauses are references into a store.
\<close>

type_synonym cref = nat
type_synonym clause_store = "cref \<Rightarrow> clause_obj"

record clause_use_list =
  ul_clauses :: "cref list"
  ul_size :: u32
  ul_num_redundant :: u32

definition ul_new :: clause_use_list where
  "ul_new = \<lparr>ul_clauses = [], ul_size = 0, ul_num_redundant = 0\<rparr>"

definition num_irredundant :: "clause_use_list \<Rightarrow> u32" where
  "num_irredundant u = ul_size u - ul_num_redundant u"

definition ul_empty :: "clause_use_list \<Rightarrow> bool" where "ul_empty u = (ul_size u = 0)"

definition ul_insert :: "clause_store \<Rightarrow> cref \<Rightarrow> clause_use_list \<Rightarrow> clause_use_list" where
  "ul_insert st c u =
     (let u = u\<lparr>ul_clauses := ul_clauses u @ [c], ul_size := ul_size u + 1\<rparr>
      in if c_learned (st c) then u\<lparr>ul_num_redundant := ul_num_redundant u + 1\<rparr> else u)"

definition ul_erase_not_removed :: "clause_store \<Rightarrow> cref \<Rightarrow> clause_use_list \<Rightarrow> clause_use_list" where
  "ul_erase_not_removed st c u =
     (let u = u\<lparr>ul_clauses := remove1 c (ul_clauses u), ul_size := ul_size u - 1\<rparr>
      in if c_learned (st c) then u\<lparr>ul_num_redundant := ul_num_redundant u - 1\<rparr> else u)"

definition ul_erase :: "clause_store \<Rightarrow> cref \<Rightarrow> clause_use_list \<Rightarrow> clause_use_list" where
  "ul_erase st c u =
     (let u = u\<lparr>ul_size := ul_size u - 1\<rparr>
      in if c_learned (st c) then u\<lparr>ul_num_redundant := ul_num_redundant u - 1\<rparr> else u)"

definition ul_block :: "clause_use_list \<Rightarrow> clause_use_list" where
  "ul_block u = u\<lparr>ul_num_redundant := ul_num_redundant u + 1\<rparr>"

definition ul_unblock :: "clause_use_list \<Rightarrow> clause_use_list" where
  "ul_unblock u = u\<lparr>ul_num_redundant := ul_num_redundant u - 1\<rparr>"

definition ul_reset :: "clause_use_list \<Rightarrow> clause_use_list" where
  "ul_reset u = u\<lparr>ul_clauses := [], ul_size := 0, ul_num_redundant := 0\<rparr>"

text \<open>The two assertions of \<open>check_invariant\<close>.\<close>

definition ul_check_invariant :: "clause_store \<Rightarrow> clause_use_list \<Rightarrow> bool" where
  "ul_check_invariant st u =
     (of_nat (length (filter (\<lambda>c. \<not> c_removed (st c)) (ul_clauses u))) = ul_size u \<and>
      of_nat (length (filter (\<lambda>c. c_learned (st c)) (ul_clauses u))) = ul_num_redundant u)"

section \<open>Traversal\<close>

text \<open>The iterator reads at \<open>i\<close> and moves what it keeps to \<open>j\<close>; its end cuts the list there.\<close>

record ul_iterator =
  it_clauses :: "cref list"
  it_size :: nat
  it_i :: nat
  it_j :: nat

primrec consume_loop :: "clause_store \<Rightarrow> nat \<Rightarrow> ul_iterator \<Rightarrow> ul_iterator" where
  "consume_loop st 0 it = it"
| "consume_loop st (Suc n) it =
     (if it_i it = it_size it then it
      else if \<not> c_removed (st (it_clauses it ! it_i it))
        then it\<lparr>it_clauses := (it_clauses it)[it_j it := it_clauses it ! it_i it]\<rparr>
      else consume_loop st n (it\<lparr>it_i := it_i it + 1\<rparr>))"

definition it_consume :: "clause_store \<Rightarrow> ul_iterator \<Rightarrow> ul_iterator" where
  "it_consume st it = consume_loop st (it_size it - it_i it) it"

definition mk_iterator :: "clause_store \<Rightarrow> clause_use_list \<Rightarrow> ul_iterator" where
  "mk_iterator st u =
     it_consume st \<lparr>it_clauses = ul_clauses u, it_size = length (ul_clauses u), it_i = 0, it_j = 0\<rparr>"

definition it_at_end :: "ul_iterator \<Rightarrow> bool" where "it_at_end it = (it_i it = it_size it)"
definition it_curr :: "ul_iterator \<Rightarrow> cref" where "it_curr it = it_clauses it ! it_i it"
definition it_next :: "clause_store \<Rightarrow> ul_iterator \<Rightarrow> ul_iterator" where
  "it_next st it = it_consume st (it\<lparr>it_i := it_i it + 1, it_j := it_j it + 1\<rparr>)"

text \<open>The destructor goes on to the end and cuts the list.\<close>

primrec it_finish :: "clause_store \<Rightarrow> nat \<Rightarrow> ul_iterator \<Rightarrow> cref list" where
  "it_finish st 0 it = take (it_j it) (it_clauses it)"
| "it_finish st (Suc n) it =
     (if it_i it < it_size it then it_finish st n (it_next st it) else take (it_j it) (it_clauses it))"

text \<open>A traversal: the clauses that are visited, and the list that it leaves.\<close>

primrec it_visit :: "clause_store \<Rightarrow> nat \<Rightarrow> ul_iterator \<Rightarrow> cref list \<Rightarrow> cref list \<times> cref list" where
  "it_visit st 0 it seen = (seen, it_finish st (it_size it) it)"
| "it_visit st (Suc n) it seen =
     (if it_at_end it then (seen, it_finish st (it_size it) it)
      else it_visit st n (it_next st it) (seen @ [it_curr it]))"

definition ul_traverse :: "clause_store \<Rightarrow> clause_use_list \<Rightarrow> cref list \<times> cref list" where
  "ul_traverse st u = it_visit st (length (ul_clauses u)) (mk_iterator st u) []"

definition occurrences :: "clause_store \<Rightarrow> clause_use_list \<Rightarrow> cref list" where
  "occurrences st u = fst (ul_traverse st u)"

section \<open>One list for every literal\<close>

type_synonym use_list = "clause_use_list list"

definition use_list_init :: "nat \<Rightarrow> use_list" where "use_list_init num_vars = replicate (2 * num_vars) ul_new"

definition at_literals :: "(clause_use_list \<Rightarrow> clause_use_list) \<Rightarrow> literal list \<Rightarrow> use_list \<Rightarrow> use_list" where
  "at_literals f ls us = foldl (\<lambda>us l. us[unat (lit_index l) := f (us ! unat (lit_index l))]) us ls"

definition use_list_insert :: "clause_store \<Rightarrow> cref \<Rightarrow> use_list \<Rightarrow> use_list" where
  "use_list_insert st c us = at_literals (ul_insert st c) (c_view (st c)) us"
definition use_list_erase :: "clause_store \<Rightarrow> cref \<Rightarrow> use_list \<Rightarrow> use_list" where
  "use_list_erase st c us = at_literals (ul_erase st c) (c_view (st c)) us"
definition use_list_erase_but :: "clause_store \<Rightarrow> cref \<Rightarrow> literal \<Rightarrow> use_list \<Rightarrow> use_list" where
  "use_list_erase_but st c l us = at_literals (ul_erase st c) (filter (\<lambda>k. k \<noteq> l) (c_view (st c))) us"
definition use_list_block :: "clause_store \<Rightarrow> cref \<Rightarrow> use_list \<Rightarrow> use_list" where
  "use_list_block st c us = at_literals ul_block (c_view (st c)) us"
definition use_list_unblock :: "clause_store \<Rightarrow> cref \<Rightarrow> use_list \<Rightarrow> use_list" where
  "use_list_unblock st c us = at_literals ul_unblock (c_view (st c)) us"
definition use_of :: "use_list \<Rightarrow> literal \<Rightarrow> clause_use_list" where
  "use_of us l = us ! unat (lit_index l)"

section \<open>Counters\<close>

text \<open>The sizes count the clauses that are not removed, and those of them that are learned.\<close>

definition live :: "clause_store \<Rightarrow> clause_use_list \<Rightarrow> cref list" where
  "live st u = filter (\<lambda>c. \<not> c_removed (st c)) (ul_clauses u)"

definition ul_ok :: "clause_store \<Rightarrow> clause_use_list \<Rightarrow> bool" where
  "ul_ok st u \<longleftrightarrow> distinct (ul_clauses u) \<and> ul_size u = of_nat (length (live st u)) \<and>
     ul_num_redundant u = of_nat (length (filter (\<lambda>c. c_learned (st c)) (live st u)))"

lemma ul_ok_new [simp]: "ul_ok st ul_new" "ul_ok st (ul_reset u)"
  by (simp_all add: ul_ok_def ul_new_def ul_reset_def live_def)

lemma ul_ok_insert: "ul_ok st u \<Longrightarrow> c \<notin> set (ul_clauses u) \<Longrightarrow> \<not> c_removed (st c) \<Longrightarrow> ul_ok st (ul_insert st c u)"
  by (auto simp: ul_ok_def ul_insert_def live_def Let_def)

lemma num_irredundant_ok:
  assumes "ul_ok st u"
  shows "num_irredundant u = of_nat (length (filter (\<lambda>c. \<not> c_learned (st c)) (live st u)))"
proof -
  have "length (live st u) =
      length (filter (\<lambda>c. c_learned (st c)) (live st u)) + length (filter (\<lambda>c. \<not> c_learned (st c)) (live st u))"
    by (simp add: sum_length_filter_compl)
  then show ?thesis using assms by (simp add: num_irredundant_def ul_ok_def)
qed

text \<open>Taking a live clause out of a distinct list lowers the count by one, if it is counted.\<close>

lemma length_filter_without:
  assumes "distinct cs" "c \<in> set cs"
  shows "length (filter p cs) = (if p c then 1 else 0) + length (filter (\<lambda>d. p d \<and> d \<noteq> c) cs)"
  using assms by (induction cs) (auto cong: filter_cong, (metis (mono_tags, lifting) filter_cong)+)

lemma ul_ok_erase:
  assumes "ul_ok st u" "c \<in> set (ul_clauses u)" "\<not> c_removed (st c)"
  defines "st' \<equiv> st(c := (st c)\<lparr>c_removed := True\<rparr>)"
  shows "ul_ok st' (ul_erase st' c u)"
proof -
  have d: "distinct (ul_clauses u)" using assms(1) by (simp add: ul_ok_def)
  have l: "live st' v = filter (\<lambda>d. \<not> c_removed (st d) \<and> d \<noteq> c) (ul_clauses v)" for v
    by (auto simp: live_def st'_def intro!: filter_cong)
  have r: "filter (\<lambda>c. c_learned (st' c)) xs = filter (\<lambda>c. c_learned (st c)) xs" for xs
    by (rule filter_cong) (auto simp: st'_def)
  have n: "length (live st u) = 1 + length (live st' u)"
    using length_filter_without [OF d assms(2), of "\<lambda>d. \<not> c_removed (st d)"] assms(3) by (simp add: l) (simp add: live_def)
  have m: "length (filter (\<lambda>c. c_learned (st c)) (live st u)) =
      (if c_learned (st c) then 1 else 0) + length (filter (\<lambda>c. c_learned (st c)) (live st' u))"
    using length_filter_without [OF d assms(2), of "\<lambda>d. \<not> c_removed (st d) \<and> c_learned (st d)"] assms(3)
    by (simp only: l filter_filter) (simp add: live_def conj_ac cong: conj_cong)
  have s: "c_learned (st' c) = c_learned (st c)" by (simp add: st'_def)
  have v: "live st' (u\<lparr>ul_size := x\<rparr>) = live st' u" "live st' (u\<lparr>ul_size := x, ul_num_redundant := y\<rparr>) = live st' u" for x y
    by (simp_all add: live_def)
  show ?thesis
    using assms(1) d n m by (auto simp: ul_ok_def ul_erase_def Let_def s v r)
qed

lemma ul_ok_erase_not_removed:
  assumes "ul_ok st u" "c \<in> set (ul_clauses u)" "\<not> c_removed (st c)"
  shows "ul_ok st (ul_erase_not_removed st c u)"
proof -
  have d: "distinct (ul_clauses u)" using assms(1) by (simp add: ul_ok_def)
  have l: "filter p (remove1 c (ul_clauses u)) = filter (\<lambda>d. p d \<and> d \<noteq> c) (ul_clauses u)" for p
    using d by (simp add: distinct_remove1_removeAll removeAll_filter_not_eq conj_commute eq_commute)
  note n = length_filter_without [OF d assms(2)]
  show ?thesis
    using assms d n [of "\<lambda>d. \<not> c_removed (st d)"] n [of "\<lambda>d. \<not> c_removed (st d) \<and> c_learned (st d)"]
    by (auto simp: ul_ok_def ul_erase_not_removed_def Let_def live_def l conj_ac cong: conj_cong)
qed

lemma ul_ok_block:
  assumes "ul_ok st u" "c \<in> set (ul_clauses u)" "\<not> c_removed (st c)" "\<not> c_learned (st c)"
  shows "ul_ok (st(c := (st c)\<lparr>c_learned := True\<rparr>)) (ul_block u)"
proof -
  let ?st = "st(c := (st c)\<lparr>c_learned := True\<rparr>)"
  have d: "distinct (ul_clauses u)" using assms(1) by (simp add: ul_ok_def)
  have l: "live ?st v = live st v" for v by (auto simp: live_def intro!: filter_cong)
  have "length (filter (\<lambda>c. c_learned (?st c)) (live st u)) = 1 + length (filter (\<lambda>c. c_learned (st c)) (live st u))"
  proof -
    have "c \<in> set (live st u)" "distinct (live st u)" using assms d by (simp_all add: live_def)
    then have "length (filter (\<lambda>c. c_learned (?st c)) (live st u)) =
        1 + length (filter (\<lambda>d. c_learned (?st d) \<and> d \<noteq> c) (live st u))"
      using length_filter_without [of "live st u" c "\<lambda>d. c_learned (?st d)"] by simp
    also have "filter (\<lambda>d. c_learned (?st d) \<and> d \<noteq> c) (live st u) = filter (\<lambda>c. c_learned (st c)) (live st u)"
      by (rule filter_cong) (use assms(4) in auto)
    finally show ?thesis .
  qed
  moreover have "live st (ul_block u) = live st u" by (simp add: live_def ul_block_def)
  ultimately show ?thesis using assms(1) by (simp add: ul_ok_def l) (simp add: ul_block_def)
qed

section \<open>Traversal visits the live clauses\<close>

definition scanning :: "clause_store \<Rightarrow> cref list \<Rightarrow> ul_iterator \<Rightarrow> bool" where
  "scanning st cs it \<longleftrightarrow> length (it_clauses it) = length cs \<and> it_size it = length cs \<and> it_j it \<le> it_i it \<and>
     it_i it \<le> length cs \<and> take (it_j it) (it_clauses it) = filter (\<lambda>c. \<not> c_removed (st c)) (take (it_i it) cs) \<and>
     drop (it_i it) (it_clauses it) = drop (it_i it) cs"

definition standing :: "clause_store \<Rightarrow> cref list \<Rightarrow> ul_iterator \<Rightarrow> bool" where
  "standing st cs it \<longleftrightarrow> scanning st cs it \<and>
     (it_i it < length cs \<longrightarrow> \<not> c_removed (st (cs ! it_i it)) \<and> it_clauses it ! it_j it = cs ! it_i it)"

lemma scanning_curr:
  assumes "scanning st cs it" "it_i it < length cs"
  shows "it_clauses it ! it_i it = cs ! it_i it"
proof -
  have "drop (it_i it) (it_clauses it) ! 0 = drop (it_i it) cs ! 0" using assms(1) by (simp add: scanning_def)
  moreover have "length (it_clauses it) = length cs" using assms(1) by (simp add: scanning_def)
  ultimately show ?thesis using assms(2) by (simp add: nth_drop)
qed

lemma consume_loop_standing:
  assumes "scanning st cs it" "length cs - it_i it \<le> n"
  shows "standing st cs (consume_loop st n it) \<and> it_i it \<le> it_i (consume_loop st n it) \<and>
    filter (\<lambda>c. \<not> c_removed (st c)) (drop (it_i (consume_loop st n it)) cs) = filter (\<lambda>c. \<not> c_removed (st c)) (drop (it_i it) cs)"
  using assms
proof (induction n arbitrary: it)
  case 0
  then show ?case by (simp add: standing_def)
next
  case (Suc n)
  show ?case
  proof (cases "it_i it = it_size it")
    case True
    then show ?thesis using Suc.prems by (simp add: standing_def scanning_def)
  next
    case False
    then have i: "it_i it < length cs" using Suc.prems(1) by (simp add: scanning_def)
    note curr = scanning_curr [OF Suc.prems(1) i]
    show ?thesis
    proof (cases "c_removed (st (cs ! it_i it))")
      case True
      have "scanning st cs (it\<lparr>it_i := it_i it + 1\<rparr>)"
        using Suc.prems(1) i True by (auto simp: scanning_def take_Suc_conv_app_nth drop_Suc tl_drop)
          (metis drop_Suc tl_drop)
      moreover have "filter (\<lambda>c. \<not> c_removed (st c)) (drop (it_i it) cs) = filter (\<lambda>c. \<not> c_removed (st c)) (drop (Suc (it_i it)) cs)"
        using i True by (simp add: Cons_nth_drop_Suc [symmetric])
      moreover have "length cs - it_i (it\<lparr>it_i := it_i it + 1\<rparr>) \<le> n" using Suc.prems(2) i by simp
      moreover have "consume_loop st (Suc n) it = consume_loop st n (it\<lparr>it_i := it_i it + 1\<rparr>)"
        using False True curr by simp
      ultimately show ?thesis
        using Suc.IH [of "it\<lparr>it_i := it_i it + 1\<rparr>"] by (simp del: consume_loop.simps)
    next
      case c: False
      let ?it = "it\<lparr>it_clauses := (it_clauses it)[it_j it := cs ! it_i it]\<rparr>"
      have "it_j it < length (it_clauses it)" using Suc.prems(1) i by (auto simp: scanning_def)
      moreover have "drop (it_i it) ((it_clauses it)[it_j it := cs ! it_i it]) = drop (it_i it) (it_clauses it)"
      proof (cases "it_j it = it_i it")
        case True
        then show ?thesis using curr by (metis list_update_id)
      next
        case False
        then show ?thesis using Suc.prems(1) by (simp add: scanning_def)
      qed
      ultimately have "standing st cs ?it"
        using Suc.prems(1) i c by (simp add: standing_def scanning_def)
      then show ?thesis using c False curr by simp
    qed
  qed
qed

lemma it_consume_standing:
  assumes "scanning st cs it"
  shows "standing st cs (it_consume st it)" "it_i it \<le> it_i (it_consume st it)"
    "filter (\<lambda>c. \<not> c_removed (st c)) (drop (it_i (it_consume st it)) cs) = filter (\<lambda>c. \<not> c_removed (st c)) (drop (it_i it) cs)"
  using consume_loop_standing [OF assms, of "it_size it - it_i it"] assms
  by (simp_all add: it_consume_def scanning_def)

lemma it_next_standing:
  assumes "standing st cs it" "it_i it < length cs"
  shows "standing st cs (it_next st it)" "it_i it < it_i (it_next st it)"
    "filter (\<lambda>c. \<not> c_removed (st c)) (drop (it_i it) cs) =
       it_curr it # filter (\<lambda>c. \<not> c_removed (st c)) (drop (it_i (it_next st it)) cs)"
proof -
  let ?it = "it\<lparr>it_i := it_i it + 1, it_j := it_j it + 1\<rparr>"
  have s: "scanning st cs it" and l: "\<not> c_removed (st (cs ! it_i it))" "it_clauses it ! it_j it = cs ! it_i it"
    using assms by (auto simp: standing_def)
  have j: "it_j it < length (it_clauses it)" using s assms(2) by (auto simp: scanning_def)
  have "drop (Suc (it_i it)) (it_clauses it) = drop (Suc (it_i it)) cs"
    using s by (simp add: scanning_def drop_Suc) (metis tl_drop)
  then have sc: "scanning st cs ?it"
    using s l j assms(2) by (auto simp: scanning_def take_Suc_conv_app_nth)
  show "standing st cs (it_next st it)" "it_i it < it_i (it_next st it)"
    using it_consume_standing(1,2) [OF sc] by (simp_all add: it_next_def)
  show "filter (\<lambda>c. \<not> c_removed (st c)) (drop (it_i it) cs) =
       it_curr it # filter (\<lambda>c. \<not> c_removed (st c)) (drop (it_i (it_next st it)) cs)"
    using it_consume_standing(3) [OF sc] l assms(2) scanning_curr [OF s assms(2)]
    by (simp add: it_next_def it_curr_def Cons_nth_drop_Suc [symmetric])
qed

lemma it_finish_eq:
  assumes "standing st cs it" "length cs - it_i it \<le> n"
  shows "it_finish st n it = filter (\<lambda>c. \<not> c_removed (st c)) cs"
  using assms
proof (induction n arbitrary: it)
  case 0
  then show ?case by (auto simp: standing_def scanning_def)
next
  case (Suc n)
  show ?case
  proof (cases "it_i it < length cs")
    case True
    have "standing st cs (it_next st it)" "length cs - it_i (it_next st it) \<le> n"
      using it_next_standing [OF Suc.prems(1) True] Suc.prems(2) True by linarith+
    then show ?thesis using Suc.IH True Suc.prems(1) by (simp add: standing_def scanning_def)
  next
    case False
    then show ?thesis using Suc.prems(1) by (simp add: standing_def scanning_def)
  qed
qed

lemma it_visit_eq:
  assumes "standing st cs it" "length cs - it_i it \<le> n"
  shows "it_visit st n it seen =
    (seen @ filter (\<lambda>c. \<not> c_removed (st c)) (drop (it_i it) cs), filter (\<lambda>c. \<not> c_removed (st c)) cs)"
  using assms
proof (induction n arbitrary: it seen)
  case 0
  then show ?case using it_finish_eq [of st cs it "length cs"] by (auto simp: standing_def scanning_def)
next
  case (Suc n)
  have sz: "it_size it = length cs" "it_i it \<le> length cs" using Suc.prems(1) by (auto simp: standing_def scanning_def)
  show ?case
  proof (cases "it_i it < length cs")
    case True
    have "standing st cs (it_next st it)" "length cs - it_i (it_next st it) \<le> n"
      using it_next_standing [OF Suc.prems(1) True] Suc.prems(2) True by linarith+
    then show ?thesis using Suc.IH True it_next_standing(3) [OF Suc.prems(1) True] sz by (simp add: it_at_end_def)
  next
    case False
    then show ?thesis using it_finish_eq [OF Suc.prems(1), of "length cs"] sz by (simp add: it_at_end_def)
  qed
qed

lemma ul_traverse_eq: "ul_traverse st u = (live st u, live st u)"
proof -
  let ?it = "\<lparr>it_clauses = ul_clauses u, it_size = length (ul_clauses u), it_i = 0, it_j = 0\<rparr>"
  have "scanning st (ul_clauses u) ?it" by (simp add: scanning_def)
  note c = it_consume_standing [OF this]
  show ?thesis
    using it_visit_eq [OF c(1), of "length (ul_clauses u)" "[]"] c(3) by (simp add: ul_traverse_def mk_iterator_def live_def)
qed

lemma occurrences_eq [simp]: "occurrences st u = live st u"
  by (simp add: occurrences_def ul_traverse_eq)

lemma ul_ok_unblock:
  assumes "ul_ok st u" "c \<in> set (ul_clauses u)" "\<not> c_removed (st c)" "c_learned (st c)"
  shows "ul_ok (st(c := (st c)\<lparr>c_learned := False\<rparr>)) (ul_unblock u)"
proof -
  let ?st = "st(c := (st c)\<lparr>c_learned := False\<rparr>)"
  have d: "distinct (ul_clauses u)" using assms(1) by (simp add: ul_ok_def)
  have l: "live ?st v = live st v" for v by (auto simp: live_def intro!: filter_cong)
  have "length (filter (\<lambda>c. c_learned (st c)) (live st u)) = 1 + length (filter (\<lambda>c. c_learned (?st c)) (live st u))"
  proof -
    have "c \<in> set (live st u)" "distinct (live st u)" using assms d by (simp_all add: live_def)
    then have "length (filter (\<lambda>c. c_learned (st c)) (live st u)) =
        1 + length (filter (\<lambda>d. c_learned (st d) \<and> d \<noteq> c) (live st u))"
      using length_filter_without [of "live st u" c "\<lambda>d. c_learned (st d)"] assms(4) by simp
    also have "filter (\<lambda>d. c_learned (st d) \<and> d \<noteq> c) (live st u) = filter (\<lambda>c. c_learned (?st c)) (live st u)"
      by (rule filter_cong) auto
    finally show ?thesis .
  qed
  moreover have "live st (ul_unblock u) = live st u" by (simp add: live_def ul_unblock_def)
  ultimately show ?thesis using assms(1) by (simp add: ul_ok_def l) (simp add: ul_unblock_def)
qed

section \<open>The life of a use list\<close>

text \<open>A clause is marked as removed, or as learned, before its lists are told; a traversal compresses the list.\<close>

inductive ul_step :: "clause_store \<times> clause_use_list \<Rightarrow> clause_store \<times> clause_use_list \<Rightarrow> bool" where
  insert: "c \<notin> set (ul_clauses u) \<Longrightarrow> \<not> c_removed (st c) \<Longrightarrow> ul_step (st, u) (st, ul_insert st c u)"
| remove: "c \<in> set (ul_clauses u) \<Longrightarrow> \<not> c_removed (st c) \<Longrightarrow> st' = st(c := (st c)\<lparr>c_removed := True\<rparr>) \<Longrightarrow>
    ul_step (st, u) (st', ul_erase st' c u)"
| take_out: "c \<in> set (ul_clauses u) \<Longrightarrow> \<not> c_removed (st c) \<Longrightarrow> ul_step (st, u) (st, ul_erase_not_removed st c u)"
| block: "c \<in> set (ul_clauses u) \<Longrightarrow> \<not> c_removed (st c) \<Longrightarrow> \<not> c_learned (st c) \<Longrightarrow>
    ul_step (st, u) (st(c := (st c)\<lparr>c_learned := True\<rparr>), ul_block u)"
| unblock: "c \<in> set (ul_clauses u) \<Longrightarrow> \<not> c_removed (st c) \<Longrightarrow> c_learned (st c) \<Longrightarrow>
    ul_step (st, u) (st(c := (st c)\<lparr>c_learned := False\<rparr>), ul_unblock u)"
| reset: "ul_step (st, u) (st, ul_reset u)"
| traverse: "ul_step (st, u) (st, u\<lparr>ul_clauses := snd (ul_traverse st u)\<rparr>)"

inductive_cases ul_stepE: "ul_step (st, u) q"

lemma ul_ok_traverse: "ul_ok st u \<Longrightarrow> ul_ok st (u\<lparr>ul_clauses := snd (ul_traverse st u)\<rparr>)"
  by (simp add: ul_ok_def ul_traverse_eq) (simp add: live_def)

lemma ul_step_ok: "ul_step (st, u) (st', u') \<Longrightarrow> ul_ok st u \<Longrightarrow> ul_ok st' u'"
  by (elim ul_stepE) (auto intro: ul_ok_insert ul_ok_erase ul_ok_erase_not_removed ul_ok_block ul_ok_unblock ul_ok_traverse)

lemma ul_reachable_ok:
  assumes "ul_step\<^sup>*\<^sup>* (st0, ul_new) (st, u)"
  shows "ul_ok st u"
  using assms by (induction "(st, u)" arbitrary: st u rule: rtranclp_induct) (auto dest: ul_step_ok)

end
