(* ===== verification/SatSimplifier.thy ===== *)
theory SatSimplifier
  imports SatWatched SatUseList SatConverter
begin

text \<open>
  Model of sat/sat_simplifier.cpp: subsumption, the removal of false literals, resolution, the elimination of a
  variable by resolution, and the test for blocked clauses. What the solver does with the clauses that are
  produced (propagation of units, watch lists) is not part of it.
\<close>

section \<open>State\<close>

text \<open>
  The parts of the simplifier and of its solver that these operations read and write. The assignment is
  indexed by literals; the counters are signed 32-bit numbers from which unsigned ones are subtracted.
\<close>

record simp_state =
  sp_clauses :: clause_store
  sp_use :: use_list
  sp_watches :: "watched list list"
  sp_assignment :: "lbool list"
  sp_visited :: "bool list"
  sp_eliminated :: "bool list"
  sp_num_clauses :: u32
  sp_sub_counter :: u32
  sp_elim_counter :: u32
  sp_mc :: model_converter

record simp_config =
  res_occ_cutoff :: u32
  res_occ_cutoff1 :: u32
  res_occ_cutoff2 :: u32
  res_occ_cutoff3 :: u32
  res_lit_cutoff1 :: u32
  res_lit_cutoff2 :: u32
  res_lit_cutoff3 :: u32
  res_cls_cutoff1 :: u32
  res_cls_cutoff2 :: u32

definition lit_value :: "simp_state \<Rightarrow> literal \<Rightarrow> lbool" where
  "lit_value s l = sp_assignment s ! unat (lit_index l)"
definition bvar_value :: "simp_state \<Rightarrow> bool_var \<Rightarrow> lbool" where
  "bvar_value s v = lit_value s (mk_literal v False)"
definition wlist :: "simp_state \<Rightarrow> literal \<Rightarrow> watched list" where
  "wlist s l = sp_watches s ! unat (lit_index l)"
definition occs :: "simp_state \<Rightarrow> literal \<Rightarrow> cref list" where
  "occs s l = occurrences (sp_clauses s) (use_of (sp_use s) l)"

section \<open>Marks\<close>

type_synonym marks = "bool list"

definition mark_visited :: "literal \<Rightarrow> marks \<Rightarrow> marks" where "mark_visited l vis = vis[unat (lit_index l) := True]"
definition unmark_visited :: "literal \<Rightarrow> marks \<Rightarrow> marks" where "unmark_visited l vis = vis[unat (lit_index l) := False]"
definition is_marked :: "marks \<Rightarrow> literal \<Rightarrow> bool" where "is_marked vis l = vis ! unat (lit_index l)"

definition init_visited :: "nat \<Rightarrow> marks" where "init_visited num_vars = replicate (2 * num_vars) False"
definition mark_all :: "literal list \<Rightarrow> marks \<Rightarrow> marks" where "mark_all ls vis = foldl (\<lambda>vis l. mark_visited l vis) vis ls"
definition unmark_all :: "literal list \<Rightarrow> marks \<Rightarrow> marks" where "unmark_all ls vis = foldl (\<lambda>vis l. unmark_visited l vis) vis ls"
definition mark_all_but :: "literal list \<Rightarrow> literal \<Rightarrow> marks \<Rightarrow> marks" where
  "mark_all_but ls l1 vis = foldl (\<lambda>vis l. if l \<noteq> l1 then mark_visited l vis else vis) vis ls"

section \<open>Subsumption\<close>

primrec all_marked :: "marks \<Rightarrow> literal list \<Rightarrow> bool" where
  "all_marked vis [] = True"
| "all_marked vis (l # ls) = (if \<not> is_marked vis l then False else all_marked vis ls)"

definition subsumes0 :: "literal list \<Rightarrow> literal list \<Rightarrow> marks \<Rightarrow> bool \<times> marks" where
  "subsumes0 c1 c2 vis =
     (let vis = mark_all c2 vis;
          r = all_marked vis c1
      in (r, unmark_all c2 vis))"

text \<open>The answer and the literal that the first clause takes out of the second, if any.\<close>

primrec subsumes1_loop :: "marks \<Rightarrow> literal list \<Rightarrow> literal \<Rightarrow> bool \<times> literal" where
  "subsumes1_loop vis [] l = (True, l)"
| "subsumes1_loop vis (lit # ls) l =
     (if \<not> is_marked vis lit then
        (if l = null_literal \<and> is_marked vis (lit_neg lit) then subsumes1_loop vis ls (lit_neg lit)
         else (False, null_literal))
      else subsumes1_loop vis ls l)"

definition subsumes1 :: "literal list \<Rightarrow> literal list \<Rightarrow> marks \<Rightarrow> bool \<times> literal \<times> marks" where
  "subsumes1 c1 c2 vis =
     (let vis = mark_all c2 vis;
          (r, l) = subsumes1_loop vis c1 null_literal
      in (r, l, unmark_all c2 vis))"

text \<open>The literal, or the variable, that occurs least.\<close>

primrec min_occ_loop :: "(literal \<Rightarrow> u32) \<Rightarrow> literal list \<Rightarrow> literal \<Rightarrow> u32 \<Rightarrow> literal" where
  "min_occ_loop num [] l_best best = l_best"
| "min_occ_loop num (l # ls) l_best best =
     (if num l < best then min_occ_loop num ls l (num l) else min_occ_loop num ls l_best best)"

definition get_min_occ_var0 :: "simp_state \<Rightarrow> literal list \<Rightarrow> literal" where
  "get_min_occ_var0 s c = min_occ_loop (\<lambda>l. ul_size (use_of (sp_use s) l)) c null_literal (- 1)"

definition get_min_occ_var :: "simp_state \<Rightarrow> literal list \<Rightarrow> bool_var" where
  "get_min_occ_var s c = lit_var (min_occ_loop
     (\<lambda>l. ul_size (use_of (sp_use s) l) + ul_size (use_of (sp_use s) (lit_neg l))) c null_literal (- 1))"

definition may_subsume :: "clause_store \<Rightarrow> cref \<Rightarrow> cref \<Rightarrow> bool" where
  "may_subsume st r1 r2 \<longleftrightarrow>
     r2 \<noteq> r1 \<and> c_size (st r1) \<le> c_size (st r2) \<and> approx_subset (c_approx (st r1)) (c_approx (st r2))"

primrec collect0_loop :: "cref \<Rightarrow> cref list \<Rightarrow> cref list \<Rightarrow> simp_state \<Rightarrow> cref list \<times> simp_state" where
  "collect0_loop r1 [] out s = (out, s)"
| "collect0_loop r1 (r2 # rs) out s =
     (let st = sp_clauses s
      in if may_subsume st r1 r2 then
           let s = s\<lparr>sp_sub_counter := sp_sub_counter s - (of_nat (c_size (st r1)) + of_nat (c_size (st r2)))\<rparr>;
               (r, vis) = subsumes0 (c_view (st r1)) (c_view (st r2)) (sp_visited s)
           in collect0_loop r1 rs (if r then out @ [r2] else out) (s\<lparr>sp_visited := vis\<rparr>)
         else collect0_loop r1 rs out s)"

definition collect_subsumed0_core :: "cref \<Rightarrow> literal \<Rightarrow> cref list \<Rightarrow> simp_state \<Rightarrow> cref list \<times> simp_state" where
  "collect_subsumed0_core r1 target out s = collect0_loop r1 (occs s target) out s"

definition collect_subsumed0 :: "cref \<Rightarrow> simp_state \<Rightarrow> cref list \<times> simp_state" where
  "collect_subsumed0 r1 s = collect_subsumed0_core r1 (get_min_occ_var0 s (c_view (sp_clauses s r1))) [] s"

primrec collect1_loop :: "cref \<Rightarrow> cref list \<Rightarrow> (cref \<times> literal) list \<Rightarrow> simp_state \<Rightarrow> (cref \<times> literal) list \<times> simp_state" where
  "collect1_loop r1 [] out s = (out, s)"
| "collect1_loop r1 (r2 # rs) out s =
     (let st = sp_clauses s
      in if may_subsume st r1 r2 then
           let s = s\<lparr>sp_sub_counter := sp_sub_counter s - (of_nat (c_size (st r1)) + of_nat (c_size (st r2)))\<rparr>;
               (r, l, vis) = subsumes1 (c_view (st r1)) (c_view (st r2)) (sp_visited s)
           in collect1_loop r1 rs (if r then out @ [(r2, l)] else out) (s\<lparr>sp_visited := vis\<rparr>)
         else collect1_loop r1 rs out s)"

definition collect_subsumed1_core :: "cref \<Rightarrow> literal \<Rightarrow> (cref \<times> literal) list \<Rightarrow> simp_state \<Rightarrow> (cref \<times> literal) list \<times> simp_state" where
  "collect_subsumed1_core r1 target out s = collect1_loop r1 (occs s target) out s"

definition collect_subsumed1 :: "cref \<Rightarrow> simp_state \<Rightarrow> (cref \<times> literal) list \<times> simp_state" where
  "collect_subsumed1 r1 s =
     (let v = get_min_occ_var s (c_view (sp_clauses s r1));
          (out, s) = collect_subsumed1_core r1 (mk_literal v False) [] s
      in collect_subsumed1_core r1 (mk_literal v True) out s)"

section \<open>False literals\<close>

text \<open>One pass over the literals, which moves those that are kept to the front.\<close>

primrec cleanup_loop :: "(literal \<Rightarrow> lbool) \<Rightarrow> nat \<Rightarrow> nat \<Rightarrow> nat \<Rightarrow> bool \<Rightarrow> literal list \<Rightarrow> literal list \<times> nat \<times> bool" where
  "cleanup_loop val 0 i j r c = (c, j, r)"
| "cleanup_loop val (Suc n) i j r c =
     (let l = c ! i; keep = (if i \<noteq> j then c[j := c ! i, i := c ! j] else c)
      in case val l of
           L_undef \<Rightarrow> cleanup_loop val n (i + 1) (j + 1) r keep
         | L_false \<Rightarrow> cleanup_loop val n (i + 1) j r c
         | L_true \<Rightarrow> cleanup_loop val n (i + 1) (j + 1) True keep)"

definition cleanup_clause :: "(literal \<Rightarrow> lbool) \<Rightarrow> clause_obj \<Rightarrow> bool \<times> clause_obj" where
  "cleanup_clause val c =
     (let (lits, j, r) = cleanup_loop val (c_size c) 0 0 False (c_lits c);
          c = c\<lparr>c_lits := lits\<rparr>
      in (r, if j < c_size c \<and> \<not> r then clause_shrink j c else c))"

text \<open>The same for a vector of literals, which stops at the first true one.\<close>

primrec cleanup_lits_loop :: "(literal \<Rightarrow> lbool) \<Rightarrow> nat \<Rightarrow> nat \<Rightarrow> nat \<Rightarrow> literal list \<Rightarrow> bool \<times> literal list" where
  "cleanup_lits_loop val 0 i j c = (False, take j c)"
| "cleanup_lits_loop val (Suc n) i j c =
     (let l = c ! i; keep = (if i \<noteq> j then c[j := c ! i, i := c ! j] else c)
      in case val l of
           L_undef \<Rightarrow> cleanup_lits_loop val n (i + 1) (j + 1) keep
         | L_false \<Rightarrow> cleanup_lits_loop val n (i + 1) j c
         | L_true \<Rightarrow> (True, c))"

definition cleanup_lits :: "(literal \<Rightarrow> lbool) \<Rightarrow> literal list \<Rightarrow> bool \<times> literal list" where
  "cleanup_lits val c = cleanup_lits_loop val (length c) 0 0 c"

section \<open>Resolution\<close>

primrec resolve_first :: "literal list \<Rightarrow> literal \<Rightarrow> literal list \<Rightarrow> marks \<Rightarrow> literal list \<times> marks" where
  "resolve_first [] l r vis = (r, vis)"
| "resolve_first (l1 # c1) l r vis =
     (if l = l1 then resolve_first c1 l r vis else resolve_first c1 l (r @ [l1]) (mark_visited l1 vis))"

primrec resolve_second :: "literal list \<Rightarrow> literal \<Rightarrow> literal list \<Rightarrow> marks \<Rightarrow> bool \<times> literal list" where
  "resolve_second [] not_l r vis = (True, r)"
| "resolve_second (l2 # c2) not_l r vis =
     (if not_l = l2 then resolve_second c2 not_l r vis
      else if is_marked vis (lit_neg l2) then (False, r)
      else resolve_second c2 not_l (if \<not> is_marked vis l2 then r @ [l2] else r) vis)"

definition resolve :: "literal list \<Rightarrow> literal list \<Rightarrow> literal \<Rightarrow> literal list \<Rightarrow> marks \<Rightarrow> bool \<times> literal list \<times> marks" where
  "resolve c1 c2 l r vis =
     (let (r, vis) = resolve_first c1 l r vis;
          (res, r) = resolve_second c2 (lit_neg l) r vis
      in (res, r, unmark_all c1 vis))"

section \<open>Eliminating a variable\<close>

definition num_nonlearned_bin :: "simp_state \<Rightarrow> literal \<Rightarrow> u32" where
  "num_nonlearned_bin s l =
     foldl (\<lambda>r w. if is_binary_non_learned w then r + 1 else r) 0 (wlist s (lit_neg l))"

definition get_to_elim_cost :: "simp_state \<Rightarrow> bool_var \<Rightarrow> u32" where
  "get_to_elim_cost s v =
     (let pos_l = mk_literal v False;
          neg_l = mk_literal v True;
          num_pos = ul_size (use_of (sp_use s) pos_l);
          num_neg = ul_size (use_of (sp_use s) neg_l);
          num_bin_pos = num_nonlearned_bin s pos_l;
          num_bin_neg = num_nonlearned_bin s neg_l
      in 2 * num_pos * num_neg + num_pos * num_bin_neg + num_neg * num_bin_pos)"

text \<open>The variables that may be eliminated, the cheapest first; \<open>external\<close> is \<open>is_external\<close>.\<close>

definition order_vars_for_elim :: "(bool_var \<Rightarrow> bool) \<Rightarrow> bool_var list \<Rightarrow> simp_state \<Rightarrow> bool_var list" where
  "order_vars_for_elim external elim_todo s =
     map fst (sort_key snd (map (\<lambda>v. (v, get_to_elim_cost s v))
       (filter (\<lambda>v. \<not> external v \<and> \<not> sp_eliminated s ! unat v \<and> bvar_value s v = L_undef) elim_todo)))"

definition collect_clauses :: "simp_state \<Rightarrow> literal \<Rightarrow> clause_wrapper list" where
  "collect_clauses s l =
     map (\<lambda>r. Long_clause (sp_clauses s r))
       (filter (\<lambda>r. \<not> c_learned (sp_clauses s r) \<and> \<not> c_removed (sp_clauses s r)) (occs s l)) @
     map (\<lambda>w. Binary_clause l (w_literal w)) (filter is_binary_non_learned (wlist s (lit_neg l)))"

text \<open>The sum of the sizes of the long clauses that are not learned.\<close>

definition before_literals :: "simp_state \<Rightarrow> literal \<Rightarrow> u32 \<Rightarrow> u32" where
  "before_literals s l n =
     foldl (\<lambda>n r. if \<not> c_learned (sp_clauses s r) then n + of_nat (c_size (sp_clauses s r)) else n) n (occs s l)"

definition too_many :: "simp_config \<Rightarrow> u32 \<Rightarrow> u32 \<Rightarrow> u32 \<Rightarrow> u32 \<Rightarrow> bool" where
  "too_many cfg num_pos num_neg before_lits num_cls \<longleftrightarrow>
     num_pos \<ge> res_occ_cutoff3 cfg \<and> num_neg \<ge> res_occ_cutoff3 cfg \<and> before_lits > res_lit_cutoff3 cfg \<and>
       num_cls > res_cls_cutoff2 cfg \<or>
     num_pos \<ge> res_occ_cutoff2 cfg \<and> num_neg \<ge> res_occ_cutoff2 cfg \<and> before_lits > res_lit_cutoff2 cfg \<and>
       num_cls > res_cls_cutoff1 cfg \<and> num_cls \<le> res_cls_cutoff2 cfg \<or>
     num_pos \<ge> res_occ_cutoff1 cfg \<and> num_neg \<ge> res_occ_cutoff1 cfg \<and> before_lits > res_lit_cutoff1 cfg \<and>
       num_cls \<le> res_cls_cutoff1 cfg"

text \<open>One resolution on the state, into an empty vector.\<close>

definition resolve_state :: "literal \<Rightarrow> clause_wrapper \<Rightarrow> clause_wrapper \<Rightarrow> simp_state \<Rightarrow> bool \<times> literal list \<times> simp_state" where
  "resolve_state l c1 c2 s =
     (let (res, r, vis) = resolve (cw_view c1) (cw_view c2) l [] (sp_visited s)
      in (res, r, s\<lparr>sp_visited := vis,
                    sp_elim_counter := sp_elim_counter s - (of_nat (cw_size c1) + of_nat (cw_size c2))\<rparr>))"

text \<open>Counting the resolvents; the flag is false once there are more of them than clauses before.\<close>

definition resolve_count :: "literal \<Rightarrow> u32 \<Rightarrow> clause_wrapper \<Rightarrow> clause_wrapper \<Rightarrow> u32 \<times> simp_state \<Rightarrow> bool \<times> u32 \<times> simp_state" where
  "resolve_count pos_l before_clauses c1 c2 acc =
     (case acc of (after, s) \<Rightarrow>
        let (res, r, s) = resolve_state pos_l c1 c2 s
        in if res then (after + 1 \<le> before_clauses, after + 1, s) else (True, after, s))"

primrec count_row :: "literal \<Rightarrow> u32 \<Rightarrow> clause_wrapper \<Rightarrow> clause_wrapper list \<Rightarrow> u32 \<times> simp_state \<Rightarrow> bool \<times> u32 \<times> simp_state" where
  "count_row pos_l before c1 [] acc = (True, acc)"
| "count_row pos_l before c1 (c2 # cs) acc =
     (let (ok, acc) = resolve_count pos_l before c1 c2 acc
      in if ok then count_row pos_l before c1 cs acc else (False, acc))"

primrec count_rows :: "literal \<Rightarrow> u32 \<Rightarrow> clause_wrapper list \<Rightarrow> clause_wrapper list \<Rightarrow> u32 \<times> simp_state \<Rightarrow> bool \<times> u32 \<times> simp_state" where
  "count_rows pos_l before [] neg acc = (True, acc)"
| "count_rows pos_l before (c1 # pos) neg acc =
     (let (ok, acc) = count_row pos_l before c1 neg acc
      in if ok then count_rows pos_l before pos neg acc else (False, acc))"

text \<open>The first half of \<open>try_eliminate\<close>: is it worth it, and if so, which clauses go, and at which cost?\<close>

definition try_eliminate_test ::
  "simp_config \<Rightarrow> bool_var \<Rightarrow> simp_state \<Rightarrow> (clause_wrapper list \<times> clause_wrapper list \<times> u32) option \<times> simp_state" where
  "try_eliminate_test cfg v s =
     (if bvar_value s v \<noteq> L_undef then (None, s)
      else
        let pos_l = mk_literal v False;
            neg_l = mk_literal v True;
            num_bin_pos = num_nonlearned_bin s pos_l;
            num_bin_neg = num_nonlearned_bin s neg_l;
            num_pos = num_irredundant (use_of (sp_use s) pos_l) + num_bin_pos;
            num_neg = num_irredundant (use_of (sp_use s) neg_l) + num_bin_neg
        in if num_pos \<ge> res_occ_cutoff cfg \<and> num_neg \<ge> res_occ_cutoff cfg then (None, s)
           else
             let before_lits = before_literals s neg_l (before_literals s pos_l (num_bin_pos * 2 + num_bin_neg * 2))
             in if too_many cfg num_pos num_neg before_lits (sp_num_clauses s) then (None, s)
                else
                  let pos_cls = collect_clauses s pos_l;
                      neg_cls = collect_clauses s neg_l;
                      (ok, after, s) = count_rows pos_l (num_pos + num_neg) pos_cls neg_cls (0, s)
                  in if \<not> ok then (None, s) else (Some (pos_cls, neg_cls, num_pos * num_neg + before_lits), s))"

text \<open>The second half: the clauses are saved, the variable is gone, and the resolvents come in their place.\<close>

definition save_clauses :: "clause_wrapper list \<Rightarrow> model_converter \<Rightarrow> model_converter" where
  "save_clauses cs mc = foldl (\<lambda>mc c. mc_insert (cw_view c) mc) mc cs"

definition save_elim_entry :: "solver_view option \<Rightarrow> bool_var \<Rightarrow> clause_wrapper list \<Rightarrow> clause_wrapper list \<Rightarrow> model_converter \<Rightarrow> model_converter option" where
  "save_elim_entry solver v pos_cls neg_cls mc =
     map_option (\<lambda>mc. save_clauses neg_cls (save_clauses pos_cls mc)) (mc_mk solver ELIM_VAR v mc)"

primrec resolve_row :: "literal \<Rightarrow> clause_wrapper \<Rightarrow> clause_wrapper list \<Rightarrow> simp_state \<Rightarrow> literal list list \<times> simp_state" where
  "resolve_row pos_l c1 [] s = ([], s)"
| "resolve_row pos_l c1 (c2 # cs) s =
     (let (res, r, s) = resolve_state pos_l c1 c2 s;
          (rs, s) = resolve_row pos_l c1 cs s
      in (if res then r # rs else rs, s))"

primrec resolvents :: "literal \<Rightarrow> clause_wrapper list \<Rightarrow> clause_wrapper list \<Rightarrow> simp_state \<Rightarrow> literal list list \<times> simp_state" where
  "resolvents pos_l [] neg s = ([], s)"
| "resolvents pos_l (c1 # pos) neg s =
     (let (rs, s) = resolve_row pos_l c1 neg s;
          (rss, s) = resolvents pos_l pos neg s
      in (rs @ rss, s))"

text \<open>
  The resolvents are those before false literals are removed by \<open>cleanup_lits\<close>. \<open>None\<close> stands for a failed
  \<open>VERIFY\<close>: the variable is external, or may not be flipped.
\<close>

definition try_eliminate ::
  "simp_config \<Rightarrow> (bool_var \<Rightarrow> bool) \<Rightarrow> solver_view option \<Rightarrow> bool_var \<Rightarrow> simp_state
     \<Rightarrow> (literal list list option \<times> simp_state) option" where
  "try_eliminate cfg external solver v s =
     (case try_eliminate_test cfg v s of
        (None, s) \<Rightarrow> Some (None, s)
      | (Some (pos_cls, neg_cls, cost), s) \<Rightarrow>
          if external v then None
          else do {
            mc \<leftarrow> save_elim_entry solver v pos_cls neg_cls (sp_mc s);
            let s = s\<lparr>sp_mc := mc, sp_eliminated := (sp_eliminated s)[unat v := True],
                      sp_elim_counter := sp_elim_counter s - cost - cost - cost\<rparr>;
            let (rs, s) = resolvents (mk_literal v False) pos_cls neg_cls s;
            Some (Some rs, s) })"

text \<open>Taking the clauses out: the binary ones of a literal, and the long ones.\<close>

definition drop_binary :: "literal \<Rightarrow> watched list \<Rightarrow> watched list" where
  "drop_binary l ws = filter (\<lambda>w. \<not> (is_binary_clause w \<and> w_literal w = l)) ws"

definition remove_bin_clauses :: "literal \<Rightarrow> simp_state \<Rightarrow> simp_state" where
  "remove_bin_clauses l s =
     (let own = wlist s (lit_neg l);
          wss = foldl (\<lambda>wss w. if is_binary_clause w then
                    (let i = unat (lit_index (lit_neg (w_literal w))) in wss[i := drop_binary l (wss ! i)]) else wss)
                  (sp_watches s) own
      in s\<lparr>sp_watches := wss[unat (lit_index (lit_neg l)) := []]\<rparr>)"

definition remove_clause_of :: "literal \<Rightarrow> cref \<Rightarrow> simp_state \<Rightarrow> simp_state" where
  "remove_clause_of l r s =
     (if \<not> c_removed (sp_clauses s r) then
        let st = (sp_clauses s)(r := (sp_clauses s r)\<lparr>c_removed := True\<rparr>)
        in s\<lparr>sp_clauses := st, sp_use := use_list_erase_but st r l (sp_use s)\<rparr>
      else s)"

definition remove_clauses :: "literal \<Rightarrow> simp_state \<Rightarrow> simp_state" where
  "remove_clauses l s = foldl (\<lambda>s r. remove_clause_of l r s) s (occs s l)"

section \<open>Blocked clauses\<close>

text \<open>
  The literals of the clause are marked; the clause is blocked on \<open>l\<close> if every clause with the complement of
  \<open>l\<close> contains the complement of another marked literal. The literals that show it are recorded.
\<close>

primrec abce_binaries :: "marks \<Rightarrow> literal \<Rightarrow> watched list \<Rightarrow> literal list \<Rightarrow> literal list option option" where
  "abce_binaries vis l [] taut = Some (Some taut)"
| "abce_binaries vis l (w # ws) taut =
     (if is_binary_non_learned w then
        (if w_literal w = lit_neg l then None
         else if \<not> is_marked vis (lit_neg (w_literal w)) then Some None
         else abce_binaries vis l ws (taut @ [lit_neg (w_literal w)]))
      else abce_binaries vis l ws taut)"

primrec abce_find :: "marks \<Rightarrow> literal \<Rightarrow> literal list \<Rightarrow> literal option" where
  "abce_find vis l [] = None"
| "abce_find vis l (lit # ls) =
     (if is_marked vis (lit_neg lit) \<and> lit \<noteq> lit_neg l then Some (lit_neg lit) else abce_find vis l ls)"

primrec abce_clauses :: "clause_store \<Rightarrow> marks \<Rightarrow> literal \<Rightarrow> cref list \<Rightarrow> literal list \<Rightarrow> literal list option" where
  "abce_clauses st vis l [] taut = Some taut"
| "abce_clauses st vis l (r # rs) taut =
     (if c_learned (st r) \<or> c_removed (st r) then abce_clauses st vis l rs taut
      else case abce_find vis l (c_view (st r)) of
             None \<Rightarrow> None
           | Some k \<Rightarrow> abce_clauses st vis l rs (taut @ [k]))"

text \<open>
  The answer and \<open>m_tautology\<close>, which a failure leaves as it was; \<open>process\<close> is \<open>process_var\<close>, and \<open>None\<close>
  a failed \<open>VERIFY\<close>.
\<close>

definition check_abce_tautology ::
  "(bool_var \<Rightarrow> bool) \<Rightarrow> simp_state \<Rightarrow> literal \<Rightarrow> literal list \<Rightarrow> (bool \<times> literal list) option" where
  "check_abce_tautology process s l taut =
     (if \<not> process (lit_var l) then Some (False, taut)
      else case abce_binaries (sp_visited s) l (wlist s l) taut of
             None \<Rightarrow> None
           | Some None \<Rightarrow> Some (False, taut)
           | Some (Some t) \<Rightarrow>
               (case abce_clauses (sp_clauses s) (sp_visited s) l (occs s (lit_neg l)) t of
                  None \<Rightarrow> Some (False, taut)
                | Some t \<Rightarrow> Some (True, t)))"

definition process_var :: "(bool_var \<Rightarrow> bool) \<Rightarrow> (bool_var \<Rightarrow> bool) \<Rightarrow> simp_state \<Rightarrow> bool_var \<Rightarrow> bool" where
  "process_var assumption external s v =
     (\<not> assumption v \<and> \<not> sp_eliminated s ! unat v \<and> \<not> external v \<and> bvar_value s v = L_undef)"

definition block_clause :: "solver_view option \<Rightarrow> entry_kind \<Rightarrow> literal \<Rightarrow> literal list \<Rightarrow> model_converter \<Rightarrow> model_converter option" where
  "block_clause solver k l c mc = map_option (mc_insert c) (mc_mk solver k (lit_var l) mc)"

end
