(* ===== verification/SatConverterProof.thy ===== *)
theory SatConverterProof
  imports SatConverter
begin

text \<open>
  What processing an entry does to a model: each of its clauses is satisfied afterwards, and the variable of
  the entry is flipped only where every other literal of a clause is false.
\<close>

section \<open>Growing models\<close>

text \<open>The second model assigns more, and only variables of \<open>V\<close>.\<close>

definition grows :: "bool_var set \<Rightarrow> model \<Rightarrow> model \<Rightarrow> bool" where
  "grows V m m' \<longleftrightarrow> length m' = length m \<and>
     (\<forall>u. var_value m' u = var_value m u \<or> u \<in> V \<and> var_value m u = L_undef)"

definition vars :: "clause \<Rightarrow> bool_var set" where "vars c = lit_var ` set c"

definition in_range :: "model \<Rightarrow> clause \<Rightarrow> bool" where
  "in_range m c = (\<forall>l \<in> set c. in_model m (lit_var l))"

text \<open>Making a clause true: nothing, an unassigned variable other than \<open>v\<close>, or \<open>v\<close> where all else is false.\<close>

definition repairs :: "bool_var \<Rightarrow> clause \<Rightarrow> model \<Rightarrow> model \<Rightarrow> bool" where
  "repairs v c m m' \<longleftrightarrow> satisfied_by c m' \<and>
     (m' = m
      \<or> (\<exists>l \<in> set c. lit_var l \<noteq> v \<and> value_at l m = L_undef \<and> m' = set_lit m l)
      \<or> (\<exists>l \<in> set c. lit_var l = v \<and> (\<forall>k \<in> set c. lit_var k \<noteq> v \<longrightarrow> value_at k m = L_false) \<and> m' = set_lit m l))"

lemma in_model_length: "length m' = length m \<Longrightarrow> in_model m' v = in_model m v"
  by (simp add: in_model_def)

lemma repairs_length: "repairs v c m m' \<Longrightarrow> length m' = length m"
  by (auto simp: repairs_def)

lemma value_true_other:
  assumes "value_at k m = L_true" "k \<noteq> lit_neg l"
  shows "value_at k (set_lit m l) = L_true"
proof (cases "in_model m (lit_var l)")
  case True
  then show ?thesis using assms by (simp add: value_at_set_lit)
next
  case False
  then have "set_lit m l = m" by (simp add: set_var_def in_model_def list_update_beyond)
  then show ?thesis using assms by simp
qed

text \<open>A satisfied clause stays satisfied, unless the flipped literal was its only true one.\<close>

lemma repairs_keeps:
  assumes r: "repairs v c m m'" and d: "satisfied_by d m"
    and flip: "\<And>l. \<lbrakk>l \<in> set c; lit_var l = v; \<forall>k \<in> set c. lit_var k \<noteq> v \<longrightarrow> value_at k m = L_false; lit_neg l \<in> set d\<rbrakk>
                 \<Longrightarrow> \<exists>k \<in> set d. lit_var k \<noteq> v \<and> value_at k m = L_true"
  shows "satisfied_by d m'"
proof -
  from r consider "m' = m"
    | l where "l \<in> set c" "lit_var l \<noteq> v" "value_at l m = L_undef" "m' = set_lit m l"
    | l where "l \<in> set c" "lit_var l = v" "\<forall>k \<in> set c. lit_var k \<noteq> v \<longrightarrow> value_at k m = L_false" "m' = set_lit m l"
    by (auto simp: repairs_def)
  then show ?thesis
  proof cases
    case 1 then show ?thesis using d by simp
  next
    case 2
    from d obtain k where k: "k \<in> set d" "value_at k m = L_true" by (auto simp: satisfied_by_def)
    then have "k \<noteq> lit_neg l" using 2(3) by auto
    then show ?thesis using k value_true_other 2(4) by (auto simp: satisfied_by_def)
  next
    case 3
    obtain k where "k \<in> set d" "value_at k m = L_true" "k \<noteq> lit_neg l"
    proof (cases "lit_neg l \<in> set d")
      case True
      from flip [OF 3(1,2,3) True] show ?thesis using 3(2) that by force
    next
      case False
      then show ?thesis using d that by (auto simp: satisfied_by_def)
    qed
    then show ?thesis using value_true_other 3(4) by (auto simp: satisfied_by_def)
  qed
qed

lemma repairs_others:
  assumes "repairs v c m m'" "u \<noteq> v"
  shows "var_value m' u = var_value m u \<or> u \<in> vars c \<and> var_value m u = L_undef"
  using assms by (auto simp: repairs_def vars_def var_value_set_var value_at_undef split: if_splits)

lemma repairs_grows:
  assumes "repairs v c m m'" "u \<notin> vars c"
  shows "var_value m' u = var_value m u"
  using assms by (auto simp: repairs_def vars_def var_value_set_var)

section \<open>Scanning a clause\<close>

lemma assign_None [simp]: "assign None m v s = (if in_model m v then Some (set_var m v s) else None)"
  by (simp add: assign_def legal_to_flip_def)

lemma scan_literals_append:
  "scan_literals solver e (xs @ ys) st = Option.bind (scan_literals solver e xs st) (scan_literals solver e ys)"
  by (induction xs arbitrary: st) (simp_all split: bind_splits)

lemma scan_sat:
  "null_literal \<notin> set c \<Longrightarrow> ss_sat st \<Longrightarrow>
   scan_literals solver e c st = Some (st\<lparr>ss_clause := ss_clause st @ c\<rparr>)"
  by (induction c arbitrary: st) (auto simp: scan_literal_def Let_def)

text \<open>The scan of a clause stops at the first literal that is true or can be made true.\<close>

definition clause_scan :: "bool_var \<Rightarrow> clause \<Rightarrow> bool \<Rightarrow> model \<Rightarrow> model \<Rightarrow> bool \<Rightarrow> bool \<Rightarrow> bool" where
  "clause_scan v c sign0 m m' sat sign \<longleftrightarrow>
     (if sat then satisfied_by c m' \<and>
        (m' = m \<or> (\<exists>l \<in> set c. lit_var l \<noteq> v \<and> value_at l m = L_undef \<and> m' = set_lit m l))
      else m' = m \<and> (\<forall>l \<in> set c. lit_var l \<noteq> v \<longrightarrow> value_at l m = L_false) \<and>
        (if v \<in> vars c then \<exists>l \<in> set c. lit_var l = v \<and> lit_sign l = sign else sign = sign0))"

lemma clause_scan_Cons:
  assumes "clause_scan v c (if lit_var l = v then lit_sign l else sign0) m m' sat sign"
    "lit_var l = v \<or> value_at l m = L_false"
  shows "clause_scan v (l # c) sign0 m m' sat sign"
  using assms by (cases sat) (auto simp: clause_scan_def vars_def split: if_splits)

lemma scan_clause:
  assumes "null_literal \<notin> set c" "in_range (ss_model st) c" "\<not> ss_sat st"
  shows "\<exists>m' sat sign. scan_literals None e c st =
           Some (st\<lparr>ss_model := m', ss_sat := sat, ss_var_sign := sign, ss_clause := ss_clause st @ c\<rparr>) \<and>
         clause_scan (e_var e) c (ss_var_sign st) (ss_model st) m' sat sign"
  using assms
proof (induction c arbitrary: st)
  case Nil
  then show ?case
    by (intro exI [of _ "ss_model st"] exI [of _ False] exI [of _ "ss_var_sign st"]) (simp add: clause_scan_def vars_def)
next
  case (Cons l c)
  let ?m = "ss_model st" and ?s = "if lit_var l = e_var e then lit_sign l else ss_var_sign st"
  have l: "l \<noteq> null_literal" "in_model ?m (lit_var l)" and c: "null_literal \<notin> set c" "in_range ?m c"
    using Cons.prems by (auto simp: in_range_def)
  consider (true) "value_at l ?m = L_true"
    | (undef) "value_at l ?m \<noteq> L_true" "lit_var l \<noteq> e_var e" "value_at l ?m = L_undef"
    | (other) "value_at l ?m \<noteq> L_true" "lit_var l = e_var e \<or> value_at l ?m = L_false"
    by (cases "value_at l ?m") auto
  then show ?case
  proof cases
    case true
    have "scan_literals None e (l # c) st =
        Some (st\<lparr>ss_model := ?m, ss_sat := True, ss_var_sign := ?s, ss_clause := ss_clause st @ l # c\<rparr>)"
      using l c true Cons.prems(3) by (simp add: scan_literal_def Let_def scan_sat)
    then show ?thesis using true by (intro exI conjI) (assumption, simp add: clause_scan_def)
  next
    case undef
    have v: "value_at l (set_lit ?m l) = L_true" using l(2) by (simp add: value_at_set_lit)
    have "scan_literals None e (l # c) st =
        Some (st\<lparr>ss_model := set_lit ?m l, ss_sat := True, ss_var_sign := ?s, ss_clause := ss_clause st @ l # c\<rparr>)"
      using l c undef Cons.prems(3) by (simp add: scan_literal_def Let_def scan_sat value_at_undef [symmetric])
    then show ?thesis using undef v by (intro exI conjI) (assumption, simp add: clause_scan_def)
  next
    case other
    let ?st = "st\<lparr>ss_clause := ss_clause st @ [l], ss_var_sign := ?s\<rparr>"
    have "st\<lparr>ss_clause := k, ss_var_sign := ss_var_sign st\<rparr> = st\<lparr>ss_clause := k\<rparr>" for k by (cases st) simp
    then have step: "scan_literals None e (l # c) st = scan_literals None e c ?st"
      using l other Cons.prems(3) by (auto simp: scan_literal_def Let_def value_at_undef [symmetric])
    obtain m' sat sign where h: "scan_literals None e c ?st =
           Some (?st\<lparr>ss_model := m', ss_sat := sat, ss_var_sign := sign, ss_clause := ss_clause ?st @ c\<rparr>)"
      and p: "clause_scan (e_var e) c (ss_var_sign ?st) ?m m' sat sign"
      using Cons.IH [of ?st] c Cons.prems(3) by auto
    have "scan_literals None e (l # c) st =
           Some (st\<lparr>ss_model := m', ss_sat := sat, ss_var_sign := sign, ss_clause := ss_clause st @ l # c\<rparr>)"
      using step h by simp
    moreover have "clause_scan (e_var e) (l # c) (ss_var_sign st) ?m m' sat sign"
      using p other(2) by (intro clause_scan_Cons) auto
    ultimately show ?thesis by blast
  qed
qed

text \<open>A clause of an entry: one literal of its variable, and the null literal nowhere.\<close>

definition has_pivot :: "bool_var \<Rightarrow> clause \<Rightarrow> bool" where
  "has_pivot v c \<longleftrightarrow> v \<in> vars c \<and> (\<forall>l \<in> set c. lit_var l = v \<longrightarrow> lit_neg l \<notin> set c)"

lemma process_clause:
  assumes c: "null_literal \<notin> set c" "in_range m c" "has_pivot (e_var e) c"
    and e: "e_kind e \<noteq> ATE" "e_var e \<noteq> null_bool_var" "e_elim_stack e = replicate n None" "i < n"
  shows "\<exists>m' sign. scan_literals None e (c @ null_literal # ls)
             \<lparr>ss_model = m, ss_sat = False, ss_var_sign = sign0, ss_index = i, ss_clause = []\<rparr> =
           scan_literals None e ls \<lparr>ss_model = m', ss_sat = False, ss_var_sign = sign, ss_index = i + 1, ss_clause = []\<rparr>
         \<and> repairs (e_var e) c m m'"
proof -
  let ?st = "\<lparr>ss_model = m, ss_sat = False, ss_var_sign = sign0, ss_index = i, ss_clause = []\<rparr>"
  obtain m' sat sign where h: "scan_literals None e c ?st =
           Some (?st\<lparr>ss_model := m', ss_sat := sat, ss_var_sign := sign, ss_clause := ss_clause ?st @ c\<rparr>)"
      and p: "clause_scan (e_var e) c sign0 m m' sat sign"
    using scan_clause [of c ?st e] c(1,2) by auto
  show ?thesis
  proof (cases sat)
    case True
    then have "scan_literals None e (c @ null_literal # ls) ?st =
        scan_literals None e ls \<lparr>ss_model = m', ss_sat = False, ss_var_sign = sign, ss_index = i + 1, ss_clause = []\<rparr>"
      using h e by (simp add: scan_literals_append end_of_clause_def)
    moreover have "repairs (e_var e) c m m'" using True p by (auto simp: repairs_def clause_scan_def)
    ultimately show ?thesis by blast
  next
    case False
    obtain l where l: "l \<in> set c" "lit_var l = e_var e" "lit_sign l = sign" using False p c(3) by (auto simp: has_pivot_def clause_scan_def)
    have m: "m' = m" "\<forall>k \<in> set c. lit_var k \<noteq> e_var e \<longrightarrow> value_at k m = L_false" using False p by (auto simp: clause_scan_def)
    have r: "in_model m (e_var e)" using l c(2) by (auto simp: in_range_def)
    have "scan_literals None e (c @ null_literal # ls) ?st =
        scan_literals None e ls \<lparr>ss_model = set_lit m l, ss_sat = False, ss_var_sign = sign, ss_index = i + 1, ss_clause = []\<rparr>"
      using False h e l r m(1) by (simp add: scan_literals_append end_of_clause_def)
    moreover have "repairs (e_var e) c m (set_lit m l)"
      using l(1,2) m(2) r value_at_set_lit [of m l l] unfolding repairs_def satisfied_by_def by auto
    ultimately show ?thesis by blast
  qed
qed

section \<open>Entries\<close>

text \<open>The clauses of an entry, as they are stored.\<close>

definition stored :: "clause list \<Rightarrow> literal list" where
  "stored cs = concat (map (\<lambda>c. c @ [null_literal]) cs)"

lemma stored_simps [simp]: "stored [] = []" "stored (c # cs) = c @ null_literal # stored cs"
    "stored (cs @ ds) = stored cs @ stored ds"
  by (simp_all add: stored_def)

fun all_repaired :: "bool_var \<Rightarrow> clause list \<Rightarrow> model \<Rightarrow> model \<Rightarrow> bool" where
  "all_repaired v [] m m' \<longleftrightarrow> m' = m"
| "all_repaired v (c # cs) m m' \<longleftrightarrow> (\<exists>m1. repairs v c m m1 \<and> all_repaired v cs m1 m')"

lemma all_repaired_length: "all_repaired v cs m m' \<Longrightarrow> length m' = length m"
  by (induction cs arbitrary: m) (auto dest: repairs_length)

definition clause_ok :: "bool_var \<Rightarrow> nat \<Rightarrow> clause \<Rightarrow> bool" where
  "clause_ok v n c \<longleftrightarrow> null_literal \<notin> set c \<and> has_pivot v c \<and> (\<forall>l \<in> set c. unat (lit_var l) < n)"

lemma scan_clauses:
  assumes "\<forall>c \<in> set cs. clause_ok (e_var e) (length m) c"
    and e: "e_kind e \<noteq> ATE" "e_var e \<noteq> null_bool_var" "e_elim_stack e = replicate n None" "i + length cs \<le> n"
  shows "\<exists>m' st. scan_literals None e (stored cs)
             \<lparr>ss_model = m, ss_sat = False, ss_var_sign = sign0, ss_index = i, ss_clause = []\<rparr> = Some st
         \<and> ss_model st = m' \<and> all_repaired (e_var e) cs m m'"
  using assms(1) e(4)
proof (induction cs arbitrary: m sign0 i)
  case (Cons c cs)
  have c: "null_literal \<notin> set c" "in_range m c" "has_pivot (e_var e) c"
    using Cons.prems(1) by (auto simp: clause_ok_def in_range_def in_model_def)
  obtain m1 sign where h: "scan_literals None e (c @ null_literal # stored cs)
             \<lparr>ss_model = m, ss_sat = False, ss_var_sign = sign0, ss_index = i, ss_clause = []\<rparr> =
           scan_literals None e (stored cs) \<lparr>ss_model = m1, ss_sat = False, ss_var_sign = sign, ss_index = i + 1, ss_clause = []\<rparr>"
    and r: "repairs (e_var e) c m m1"
    using process_clause [OF c e(1,2,3), of i "stored cs" sign0] Cons.prems(2) by auto
  have "length m1 = length m" using r by (rule repairs_length)
  then obtain m' st where "scan_literals None e (stored cs)
             \<lparr>ss_model = m1, ss_sat = False, ss_var_sign = sign, ss_index = i + 1, ss_clause = []\<rparr> = Some st"
         "ss_model st = m'" "all_repaired (e_var e) cs m1 m'"
    using Cons.IH [of m1 "i + 1" sign] Cons.prems by auto
  then show ?case using h r by auto
qed simp

lemma process_entry_repairs:
  assumes "\<forall>c \<in> set cs. clause_ok v (length m) c" "k \<noteq> ATE" "v \<noteq> null_bool_var" "length cs \<le> n"
  shows "\<exists>m'. process_entry None \<lparr>e_var = v, e_kind = k, e_clauses = stored cs, e_elim_stack = replicate n None\<rparr> m = Some m'
           \<and> all_repaired v cs m m'"
proof -
  let ?e = "\<lparr>e_var = v, e_kind = k, e_clauses = stored cs, e_elim_stack = replicate n None\<rparr>"
  have "\<exists>m' st. scan_literals None ?e (stored cs)
             \<lparr>ss_model = m, ss_sat = False, ss_var_sign = False, ss_index = 0, ss_clause = []\<rparr> = Some st
         \<and> ss_model st = m' \<and> all_repaired (e_var ?e) cs m m'"
    by (rule scan_clauses [where n = n]) (use assms in auto)
  then show ?thesis by (auto simp: process_entry_def legal_to_flip_def)
qed

section \<open>Models that satisfy what was removed\<close>

definition models :: "model \<Rightarrow> clause set \<Rightarrow> bool" where
  "models m F = (\<forall>c \<in> F. satisfied_by c m)"

lemma models_simps [simp]: "models m {}" "models m (insert c F) \<longleftrightarrow> satisfied_by c m \<and> models m F"
    "models m (F \<union> G) \<longleftrightarrow> models m F \<and> models m G"
  by (auto simp: models_def)

text \<open>The resolvent of two clauses on \<open>v\<close> is a tautology, or true.\<close>

definition resolvent_holds :: "bool_var \<Rightarrow> model \<Rightarrow> clause \<Rightarrow> clause \<Rightarrow> bool" where
  "resolvent_holds v m c d \<longleftrightarrow>
     (\<exists>y \<in> set c. lit_var y \<noteq> v \<and> lit_neg y \<in> set d) \<or>
     (\<exists>k \<in> set c \<union> set d. lit_var k \<noteq> v \<and> value_at k m = L_true)"

definition clashes :: "bool_var \<Rightarrow> clause \<Rightarrow> clause \<Rightarrow> bool" where
  "clashes v c d \<longleftrightarrow> (\<exists>l \<in> set c. lit_var l = v \<and> lit_neg l \<in> set d)"

lemma repairs_other_true:
  assumes "repairs v c m m'" "lit_var k \<noteq> v" "value_at k m = L_true"
  shows "value_at k m' = L_true"
proof -
  have "var_value m (lit_var k) \<noteq> L_undef" using assms(3) by (metis value_at_undef lbool.distinct(5))
  then have "var_value m' (lit_var k) = var_value m (lit_var k)" using repairs_others [OF assms(1,2)] by auto
  then show ?thesis using assms(3) by (simp add: value_at_def)
qed

lemma repairs_resolvent_holds:
  "repairs v c m m' \<Longrightarrow> resolvent_holds v m a b \<Longrightarrow> resolvent_holds v m' a b"
  unfolding resolvent_holds_def using repairs_other_true by blast

lemma repairs_models:
  assumes r: "repairs v c m m'" and F: "models m F"
    and ok: "\<And>d. d \<in> F \<Longrightarrow> clashes v c d \<Longrightarrow> resolvent_holds v m c d"
  shows "models m' (insert c F)"
proof -
  have "satisfied_by d m'" if "d \<in> F" for d
  proof (rule repairs_keeps [OF r])
    show "satisfied_by d m" using F \<open>d \<in> F\<close> by (simp add: models_def)
    fix l assume l: "l \<in> set c" "lit_var l = v" "\<forall>k \<in> set c. lit_var k \<noteq> v \<longrightarrow> value_at k m = L_false" "lit_neg l \<in> set d"
    then have "resolvent_holds v m c d" using ok [OF \<open>d \<in> F\<close>] by (auto simp: clashes_def)
    then consider (taut) y where "y \<in> set c" "lit_var y \<noteq> v" "lit_neg y \<in> set d"
      | (true) k where "k \<in> set c \<union> set d" "lit_var k \<noteq> v" "value_at k m = L_true"
      by (auto simp: resolvent_holds_def)
    then show "\<exists>k \<in> set d. lit_var k \<noteq> v \<and> value_at k m = L_true"
    proof cases
      case taut
      then show ?thesis using l(3) by (intro bexI [of _ "lit_neg y"]) auto
    next
      case true
      then show ?thesis using l(3) by auto
    qed
  qed
  then show ?thesis using r by (simp add: models_def repairs_def)
qed

lemma all_repaired_models:
  assumes "all_repaired v cs m m'" "models m F"
    and "\<And>c d. c \<in> set cs \<Longrightarrow> d \<in> F \<union> set cs \<Longrightarrow> clashes v c d \<Longrightarrow> resolvent_holds v m c d"
  shows "models m' (F \<union> set cs)"
  using assms
proof (induction cs arbitrary: m F)
  case (Cons c cs)
  from Cons.prems(1) obtain m1 where r: "repairs v c m m1" and rest: "all_repaired v cs m1 m'" by auto
  have "models m1 (insert c F)" by (rule repairs_models [OF r Cons.prems(2)]) (use Cons.prems(3) in auto)
  then have "models m' (insert c F \<union> set cs)"
    using Cons.prems(3) repairs_resolvent_holds [OF r] by (intro Cons.IH [OF rest]) auto
  then show ?case by auto
qed simp

section \<open>The solver only restricts\<close>

text \<open>With a solver that objects to nothing, the result is the one of the converter without a solver.\<close>

lemma legal_None [simp]: "legal_to_flip None v"
  by (simp add: legal_to_flip_def)

text \<open>Of two computations, the second gives what the first gives, where that gives anything.\<close>

definition below :: "'a option \<Rightarrow> 'a option \<Rightarrow> bool" where
  "below a b \<longleftrightarrow> a = None \<or> a = b"

named_theorems below_intro

lemma below_refl [below_intro]: "below a a" "below None b"
  by (simp_all add: below_def)

lemma below_bind [below_intro]: "below a b \<Longrightarrow> (\<And>x. below (f x) (g x)) \<Longrightarrow> below (Option.bind a f) (Option.bind b g)"
  unfolding below_def by (cases a) fastforce+

lemma below_if [below_intro]: "below a b \<Longrightarrow> below c d \<Longrightarrow> below (if p then a else c) (if p then b else d)"
  by simp

lemma below_map [below_intro]: "below a b \<Longrightarrow> below (map_option f a) (map_option f b)"
  by (auto simp: below_def)

lemma below_assign [below_intro]: "below (assign solver m v s) (assign None m v s)"
  by (simp add: below_def assign_def)

lemma below_process_stack_loop [below_intro]:
  "below (process_stack_loop solver c stack m) (process_stack_loop None c stack m)"
proof (induction stack arbitrary: m)
  case (Cons p stack)
  show ?case
    by (cases p) (auto simp del: assign_None intro!: below_intro Cons)
qed (simp add: below_refl)

lemma below_end_of_clause [below_intro]: "below (end_of_clause solver e st) (end_of_clause None e st)"
  unfolding end_of_clause_def process_stack_def
  by (intro below_intro) (simp split: option.split add: below_intro)

lemma below_scan_literal [below_intro]: "below (scan_literal solver e l st) (scan_literal None e l st)"
  unfolding scan_literal_def Let_def by (intro below_intro)

lemma below_scan_literals [below_intro]: "below (scan_literals solver e ls st) (scan_literals None e ls st)"
  by (induction ls arbitrary: st) (simp_all add: below_intro)

lemma below_process_entry [below_intro]: "below (process_entry solver e m) (process_entry None e m)"
proof (cases "e_var e = null_bool_var \<or> legal_to_flip solver (e_var e)")
  case True
  then show ?thesis by (simp add: process_entry_def below_intro)
qed (simp add: process_entry_def below_def)

lemma below_process_entries: "below (process_entries solver es m) (process_entries None es m)"
  by (induction es arbitrary: m) (simp_all add: below_intro)

lemma process_entries_solver: "process_entries solver es m = Some m' \<Longrightarrow> process_entries None es m = Some m'"
  using below_process_entries [of solver es m] by (simp add: below_def)

lemma process_entries_append:
  "process_entries solver (es @ fs) m = Option.bind (process_entries solver es m) (process_entries solver fs)"
  by (induction es arbitrary: m) (simp_all split: bind_splits)

end
