(* ===== verification/SatSimplifierProof.thy ===== *)
theory SatSimplifierProof
  imports SatSimplifier SatConverterProof
begin

text \<open>
  Marks are clear again after every operation; subsumption, resolution and the removal of false literals are
  what they say on the sets of literals; and the clauses collected for a literal are all that contain it.
\<close>

section \<open>Marks\<close>

abbreviation idx :: "literal \<Rightarrow> nat" where "idx l \<equiv> unat (lit_index l)"

definition lit_below :: "nat \<Rightarrow> literal \<Rightarrow> bool" where "lit_below n l = (unat (lit_var l) < n)"
definition lits_below :: "nat \<Rightarrow> literal list \<Rightarrow> bool" where "lits_below n ls = (\<forall>l \<in> set ls. lit_below n l)"
definition clean :: "nat \<Rightarrow> marks \<Rightarrow> bool" where "clean n vis \<longleftrightarrow> length vis = 2 * n \<and> (\<forall>i < 2 * n. \<not> vis ! i)"

lemma idx_eq: "idx l = 2 * unat (lit_var l) + of_bool (lit_sign l)"
proof -
  have v: "unat (lit_var l) = idx l div 2"
    unfolding lit_var_def using unat_u32_lt [of "lit_index l"]
    by (subst unsigned_drop_bit_eq) (simp only: drop_bit_eq_div, simp add: take_bit_nat_eq_self)
  have "lit_sign l \<longleftrightarrow> bit (lit_index l) 0"
    by (simp add: lit_sign_def and_one_eq odd_iff_mod_2_eq_one [symmetric] bit_0)
  also have "\<dots> \<longleftrightarrow> odd (idx l)" using bit_unsigned_iff [of "lit_index l" 0, where ?'a = nat] by (simp add: bit_0)
  finally show ?thesis by (simp add: v odd_iff_mod_2_eq_one) presburger
qed

lemma idx_inject [simp]: "idx a = idx b \<longleftrightarrow> a = b"
  by (metis lit_index_inject word_unat_eq_iff)

lemma lit_below_neg [simp]: "lit_below n (lit_neg l) = lit_below n l"
  by (simp add: lit_below_def)

lemma lit_below_idx: "lit_below n l \<Longrightarrow> idx l < 2 * n"
  unfolding lit_below_def idx_eq by (cases "lit_sign l") auto

lemma nth_update_at: "i < length xs \<Longrightarrow> xs[k := b] ! i = (if k = i then b else xs ! i)"
  by (cases "k = i") auto

lemma mark_all_nth: "i < length vis \<Longrightarrow> mark_all ls vis ! i = (vis ! i \<or> (\<exists>l \<in> set ls. idx l = i))"
  and mark_all_length [simp]: "length (mark_all ls vis) = length vis"
  by (induction ls arbitrary: vis) (auto simp: mark_all_def mark_visited_def nth_update_at)

lemma unmark_all_nth: "i < length vis \<Longrightarrow> unmark_all ls vis ! i = (vis ! i \<and> (\<forall>l \<in> set ls. idx l \<noteq> i))"
  and unmark_all_length [simp]: "length (unmark_all ls vis) = length vis"
  by (induction ls arbitrary: vis) (auto simp: unmark_all_def unmark_visited_def nth_update_at)

lemma clean_marked:
  assumes "clean n vis" "lit_below n k"
  shows "is_marked (mark_all ls vis) k \<longleftrightarrow> k \<in> set ls"
  using assms lit_below_idx [OF assms(2)] by (auto simp: clean_def is_marked_def mark_all_nth)

lemma clean_eqI: "clean n vis \<Longrightarrow> length vis' = length vis \<Longrightarrow> (\<And>i. i < 2 * n \<Longrightarrow> \<not> vis' ! i) \<Longrightarrow> vis' = vis"
  by (auto simp: clean_def intro: nth_equalityI)

lemma unmark_mark_all:
  assumes "clean n vis" "set ls \<subseteq> set ks"
  shows "unmark_all ks (mark_all ls vis) = vis"
  using assms by (intro clean_eqI [OF assms(1)]) (auto simp: clean_def unmark_all_nth mark_all_nth)

lemma clean_init [simp]: "clean n (init_visited n)"
  by (simp add: clean_def init_visited_def)

section \<open>Subsumption\<close>

lemma all_marked_iff: "all_marked vis ls \<longleftrightarrow> (\<forall>l \<in> set ls. is_marked vis l)"
  by (induction ls) auto

lemma subsumes0_eq:
  assumes "clean n vis" "lits_below n c1"
  shows "subsumes0 c1 c2 vis = (set c1 \<subseteq> set c2, vis)"
  using assms clean_marked [OF assms(1)] unmark_mark_all [OF assms(1), of c2 c2]
  by (auto simp: subsumes0_def Let_def all_marked_iff lits_below_def)

text \<open>
  The second clause is subsumed, or all but one literal of the first occur in it, and of that one the
  complement.
\<close>

definition resolves_into :: "literal list \<Rightarrow> literal list \<Rightarrow> literal \<Rightarrow> bool" where
  "resolves_into c1 c2 l \<longleftrightarrow> l \<in> set c2 \<and> lit_neg l \<in> set c1 \<and> lit_neg l \<notin> set c2 \<and> set c1 - {lit_neg l} \<subseteq> set c2"

lemma null_above: "lit_below n l \<Longrightarrow> n < 2147483648 \<Longrightarrow> l \<noteq> null_literal"
proof
  assume h: "lit_below n l" "n < 2147483648" "l = null_literal"
  have n: "null_bool_var = 2147483647" by (simp add: null_bool_var_def mask_eq_exp_minus_1)
  have "lit_var null_literal = 2147483647" unfolding lit_var_def null_literal_def n by simp
  then have "unat (lit_var null_literal) = 2147483647" by simp
  then show False using h by (simp add: lit_below_def)
qed

lemma subsumes1_loop_rest:
  assumes "clean n vis" "lits_below n c1" "l \<noteq> null_literal"
  shows "subsumes1_loop (mark_all c2 vis) c1 l = (if set c1 \<subseteq> set c2 then (True, l) else (False, null_literal))"
  using assms clean_marked [OF assms(1)] by (induction c1) (auto simp: lits_below_def)

lemma subsumes1_loop_spec:
  assumes "clean n vis" "n < 2147483648" "lits_below n c1" "distinct c1"
    "subsumes1_loop (mark_all c2 vis) c1 null_literal = (r, k)"
  shows "if r then (if k = null_literal then set c1 \<subseteq> set c2 else resolves_into c1 c2 k) else k = null_literal"
  using assms
proof (induction c1)
  case (Cons lit c1)
  have b: "lit_below n lit" "lit_below n (lit_neg lit)" "lits_below n c1" using Cons.prems by (auto simp: lits_below_def)
  note m = clean_marked [OF \<open>clean n vis\<close> b(1)] clean_marked [OF \<open>clean n vis\<close> b(2)]
  have nn: "lit_neg lit \<noteq> null_literal" using null_above [OF b(2) Cons.prems(2)] .
  show ?case
  proof (cases "lit \<in> set c2")
    case True
    then show ?thesis using Cons m b by (auto simp: resolves_into_def split: if_splits)
  next
    case False
    then have "(r, k) = (if lit_neg lit \<in> set c2 \<and> set c1 \<subseteq> set c2 then (True, lit_neg lit) else (False, null_literal))"
      using Cons.prems(5) m subsumes1_loop_rest [OF Cons.prems(1) b(3) nn] by (simp split: if_splits)
    then show ?thesis using False nn Cons.prems(4) by (auto simp: resolves_into_def split: if_splits)
  qed
qed simp

lemma subsumes1_spec:
  assumes "clean n vis" "n < 2147483648" "lits_below n c1" "distinct c1" "subsumes1 c1 c2 vis = (r, k, vis')"
  shows "vis' = vis" "r \<Longrightarrow> k = null_literal \<Longrightarrow> set c1 \<subseteq> set c2" "r \<Longrightarrow> k \<noteq> null_literal \<Longrightarrow> resolves_into c1 c2 k"
  using subsumes1_loop_spec [OF assms(1-4)] assms(5) unmark_mark_all [OF assms(1), of c2 c2]
  by (auto simp: subsumes1_def Let_def split: prod.splits if_splits)

text \<open>Conversely, every subsumed clause is found, and every clause that can be strengthened.\<close>

lemma subsumes1_loop_complete:
  assumes "clean n vis" "n < 2147483648" "lits_below n c1" "distinct c1"
  shows "set c1 \<subseteq> set c2 \<Longrightarrow> subsumes1_loop (mark_all c2 vis) c1 null_literal = (True, null_literal)"
    "resolves_into c1 c2 k \<Longrightarrow> subsumes1_loop (mark_all c2 vis) c1 null_literal = (True, k)"
proof -
  note m = clean_marked [OF assms(1)]
  show "set c1 \<subseteq> set c2 \<Longrightarrow> subsumes1_loop (mark_all c2 vis) c1 null_literal = (True, null_literal)"
    using assms(3) m by (induction c1) (auto simp: lits_below_def)
  show "resolves_into c1 c2 k \<Longrightarrow> subsumes1_loop (mark_all c2 vis) c1 null_literal = (True, k)"
    using assms(3,4)
  proof (induction c1)
    case (Cons lit c1)
    have b: "lit_below n lit" "lit_below n (lit_neg lit)" "lits_below n c1" using Cons.prems by (auto simp: lits_below_def)
    show ?case
    proof (cases "lit = lit_neg k")
      case True
      then have "k \<in> set c2" "lit \<notin> set c2" "set c1 \<subseteq> set c2" using Cons.prems by (auto simp: resolves_into_def)
      then show ?thesis using True m [OF b(1)] m [OF b(2)] null_above [OF b(2) assms(2)] b(3)
          subsumes1_loop_rest [OF assms(1) b(3), of k] by simp
    next
      case False
      then have "lit \<in> set c2" "resolves_into c1 c2 k" using Cons.prems by (auto simp: resolves_into_def)
      then show ?thesis using Cons.IH Cons.prems(3) m [OF b(1)] b(3) by simp
    qed
  qed (simp add: resolves_into_def)
qed

section \<open>Resolution\<close>

definition resolvent_of :: "literal \<Rightarrow> literal list \<Rightarrow> literal list \<Rightarrow> literal list" where
  "resolvent_of l c1 c2 =
     (let a = filter (\<lambda>k. k \<noteq> l) c1 in a @ filter (\<lambda>k. k \<noteq> lit_neg l \<and> k \<notin> set a) c2)"

definition tautological :: "literal \<Rightarrow> literal list \<Rightarrow> literal list \<Rightarrow> bool" where
  "tautological l c1 c2 \<longleftrightarrow> (\<exists>k \<in> set c2. k \<noteq> lit_neg l \<and> lit_neg k \<in> set c1)"

lemma resolve_first_eq: "resolve_first c1 l r vis = (r @ filter (\<lambda>k. k \<noteq> l) c1, mark_all (filter (\<lambda>k. k \<noteq> l) c1) vis)"
  by (induction c1 arbitrary: r vis) (auto simp: mark_all_def)

lemma resolve_second_eq:
  "fst (resolve_second c2 nl r vis) \<longleftrightarrow> \<not> (\<exists>k \<in> set c2. k \<noteq> nl \<and> is_marked vis (lit_neg k))"
  "\<not> (\<exists>k \<in> set c2. k \<noteq> nl \<and> is_marked vis (lit_neg k)) \<Longrightarrow>
     snd (resolve_second c2 nl r vis) = r @ filter (\<lambda>k. k \<noteq> nl \<and> \<not> is_marked vis k) c2"
  by (induction c2 arbitrary: r) auto

lemma resolve_eq:
  assumes "clean n vis" "lits_below n c1" "lits_below n c2" "resolve c1 c2 l [] vis = (res, r, vis')"
  shows "vis' = vis" "res \<longleftrightarrow> \<not> tautological l c1 c2" "res \<Longrightarrow> r = resolvent_of l c1 c2"
proof -
  let ?a = "filter (\<lambda>k. k \<noteq> l) c1"
  note m = clean_marked [OF assms(1), of _ ?a]
  have m2: "is_marked (mark_all ?a vis) k \<longleftrightarrow> k \<in> set ?a" "is_marked (mark_all ?a vis) (lit_neg k) \<longleftrightarrow> lit_neg k \<in> set ?a"
    if "k \<in> set c2" for k
    using that assms(3) m by (simp_all add: lits_below_def)
  have t: "(\<exists>k \<in> set c2. k \<noteq> lit_neg l \<and> is_marked (mark_all ?a vis) (lit_neg k)) \<longleftrightarrow> tautological l c1 c2"
    using m2(2) by (auto simp: tautological_def)
  have f: "filter (\<lambda>k. k \<noteq> lit_neg l \<and> \<not> is_marked (mark_all ?a vis) k) c2 = filter (\<lambda>k. k \<noteq> lit_neg l \<and> k \<notin> set ?a) c2"
    by (rule filter_cong) (auto simp: m2)
  have e: "fst (resolve_second c2 (lit_neg l) ?a (mark_all ?a vis)) \<longleftrightarrow> \<not> tautological l c1 c2"
    "\<not> tautological l c1 c2 \<Longrightarrow> snd (resolve_second c2 (lit_neg l) ?a (mark_all ?a vis)) = resolvent_of l c1 c2"
    using resolve_second_eq [where nl = "lit_neg l" and vis = "mark_all ?a vis" and r = ?a, of c2] unfolding t f by (simp_all only: resolvent_of_def Let_def simp_thms)
  have u: "unmark_all c1 (mark_all ?a vis) = vis" by (rule unmark_mark_all [OF assms(1)]) auto
  show "vis' = vis" "res \<longleftrightarrow> \<not> tautological l c1 c2" "res \<Longrightarrow> r = resolvent_of l c1 c2"
    using assms(4) e u by (auto simp: resolve_def resolve_first_eq Let_def split: prod.splits)
qed

section \<open>False literals\<close>

definition swap_in :: "nat \<Rightarrow> nat \<Rightarrow> 'a list \<Rightarrow> 'a list" where
  "swap_in i j c = (if i \<noteq> j then c[j := c ! i, i := c ! j] else c)"

lemma swap_in:
  assumes "j \<le> i" "i < length c"
  shows "take (Suc j) (swap_in i j c) = take j c @ [c ! i]" "drop (Suc i) (swap_in i j c) = drop (Suc i) c"
    "mset (swap_in i j c) = mset c" "length (swap_in i j c) = length c"
proof -
  show "mset (swap_in i j c) = mset c" using assms by (simp add: swap_in_def mset_swap)
  show "length (swap_in i j c) = length c" by (simp add: swap_in_def)
  show "drop (Suc i) (swap_in i j c) = drop (Suc i) c" using assms by (simp add: swap_in_def)
  show "take (Suc j) (swap_in i j c) = take j c @ [c ! i]"
    by (rule nth_equalityI) (use assms in \<open>auto simp: swap_in_def nth_append nth_list_update less_Suc_eq\<close>)
qed

text \<open>What is kept stands at the front, what was not looked at is unchanged.\<close>

definition compacting :: "('a \<Rightarrow> bool) \<Rightarrow> 'a list \<Rightarrow> nat \<Rightarrow> nat \<Rightarrow> 'a list \<Rightarrow> bool" where
  "compacting keep c0 i j c \<longleftrightarrow> length c = length c0 \<and> j \<le> i \<and> mset c = mset c0 \<and>
     take j c = filter keep (take i c0) \<and> drop i c = drop i c0"

lemma compacting_step:
  assumes "compacting keep c0 i j c" "i < length c0"
  shows "c ! i = c0 ! i" "keep (c ! i) \<Longrightarrow> compacting keep c0 (Suc i) (Suc j) (swap_in i j c)"
    "\<not> keep (c ! i) \<Longrightarrow> compacting keep c0 (Suc i) j c"
proof -
  have len: "length c = length c0" "j \<le> i" and d: "drop i c = drop i c0" using assms by (auto simp: compacting_def)
  have "drop i c ! 0 = drop i c0 ! 0" using d by simp
  then show ci: "c ! i = c0 ! i" using assms(2) len by simp
  have d2: "drop (Suc i) c = drop (Suc i) c0" using d by (metis drop_Suc tl_drop)
  show "keep (c ! i) \<Longrightarrow> compacting keep c0 (Suc i) (Suc j) (swap_in i j c)"
    using assms len swap_in [of j i c] d2 ci by (simp add: compacting_def take_Suc_conv_app_nth)
  show "\<not> keep (c ! i) \<Longrightarrow> compacting keep c0 (Suc i) j c"
    using assms len d2 ci by (simp add: compacting_def take_Suc_conv_app_nth)
qed

lemma cleanup_loop_eq:
  assumes "compacting (\<lambda>l. val l \<noteq> L_false) c0 i j c" "i + n \<le> length c0"
  shows "\<exists>c' j'. cleanup_loop val n i j r c = (c', j', r \<or> (\<exists>l \<in> set (take n (drop i c0)). val l = L_true)) \<and>
    compacting (\<lambda>l. val l \<noteq> L_false) c0 (i + n) j' c'"
  using assms
proof (induction n arbitrary: i j r c)
  case (Suc n)
  let ?k = "\<lambda>l. val l \<noteq> L_false"
  have i: "i < length c0" "Suc i + n \<le> length c0" using Suc.prems(2) by auto
  note st = compacting_step [OF Suc.prems(1) i(1)]
  have t: "take (Suc n) (drop i c0) = c0 ! i # take n (drop (Suc i) c0)"
    using i(1) by (metis Cons_nth_drop_Suc take_Suc_Cons)
  have sw: "(if i \<noteq> j then c[j := c ! i, i := c ! j] else c) = swap_in i j c" by (simp add: swap_in_def)
  show ?case
  proof (cases "val (c ! i)")
    case L_false
    then show ?thesis using Suc.IH [of "Suc i" j c r] st i(2) by (simp add: t)
  next
    case L_undef
    then show ?thesis using Suc.IH [of "Suc i" "Suc j" "swap_in i j c" r] st i(2) by (simp add: t sw [symmetric])
  next
    case L_true
    then show ?thesis using Suc.IH [of "Suc i" "Suc j" "swap_in i j c" True] st i(2) by (simp add: t sw [symmetric])
  qed
qed auto

lemma cleanup_lits_loop_eq:
  assumes "compacting (\<lambda>l. val l = L_undef) c0 i j c" "i + n = length c0" "\<forall>l \<in> set (take i c0). val l \<noteq> L_true"
  shows "if \<exists>l \<in> set c0. val l = L_true then \<exists>c'. cleanup_lits_loop val n i j c = (True, c') \<and> mset c' = mset c0
    else cleanup_lits_loop val n i j c = (False, filter (\<lambda>l. val l = L_undef) c0)"
  using assms
proof (induction n arbitrary: i j c)
  case 0
  then show ?case by (simp add: compacting_def)
next
  case (Suc n)
  have i: "i < length c0" "Suc i + n = length c0" using Suc.prems(2) by auto
  note st = compacting_step [OF Suc.prems(1) i(1)]
  have sw: "(if i \<noteq> j then c[j := c ! i, i := c ! j] else c) = swap_in i j c" by (simp add: swap_in_def)
  have t: "take (Suc i) c0 = take i c0 @ [c0 ! i]" using i(1) by (simp add: take_Suc_conv_app_nth)
  show ?case
  proof (cases "val (c ! i)")
    case L_false
    then have "cleanup_lits_loop val (Suc n) i j c = cleanup_lits_loop val n (Suc i) j c" by simp
    then show ?thesis using Suc.IH [of "Suc i" j c] st L_false i(2) Suc.prems(3) by (simp add: t)
  next
    case L_undef
    then have "cleanup_lits_loop val (Suc n) i j c = cleanup_lits_loop val n (Suc i) (Suc j) (swap_in i j c)"
      by (simp add: sw [symmetric])
    then show ?thesis using Suc.IH [of "Suc i" "Suc j" "swap_in i j c"] st L_undef i(2) Suc.prems(3) by (simp add: t)
  next
    case L_true
    then have "\<exists>l \<in> set c0. val l = L_true" using st(1) i(1) by (metis nth_mem)
    moreover have "cleanup_lits_loop val (Suc n) i j c = (True, c)" using L_true by simp
    ultimately show ?thesis using Suc.prems(1) by (auto simp: compacting_def)
  qed
qed

lemma cleanup_lits_eq:
  "if \<exists>l \<in> set c. val l = L_true then \<exists>c'. cleanup_lits val c = (True, c') \<and> mset c' = mset c
   else cleanup_lits val c = (False, filter (\<lambda>l. val l = L_undef) c)"
  unfolding cleanup_lits_def by (rule cleanup_lits_loop_eq) (simp_all add: compacting_def)

lemma cleanup_clause_eq:
  assumes "c_size c \<le> c_capacity c" "check_approx c"
  shows "fst (cleanup_clause val c) \<longleftrightarrow> (\<exists>l \<in> set (c_view c). val l = L_true)"
    "\<not> fst (cleanup_clause val c) \<Longrightarrow> c_view (snd (cleanup_clause val c)) = filter (\<lambda>l. val l \<noteq> L_false) (c_view c)"
    "mset (c_lits (snd (cleanup_clause val c))) = mset (c_lits c)"
    "\<not> fst (cleanup_clause val c) \<Longrightarrow> check_approx (snd (cleanup_clause val c))"
proof -
  let ?n = "c_size c" and ?k = "\<lambda>l. val l \<noteq> L_false"
  have n: "0 + ?n \<le> length (c_lits c)" using assms by (simp add: c_capacity_def)
  obtain ls j where e: "cleanup_loop val ?n 0 0 False (c_lits c) = (ls, j, \<exists>l \<in> set (c_view c). val l = L_true)"
    and k: "compacting ?k (c_lits c) ?n j ls"
    using cleanup_loop_eq [of val "c_lits c" 0 0 "c_lits c" ?n False] n by (auto simp: compacting_def c_view_def)
  have l: "length ls = length (c_lits c)" "j \<le> ?n" "mset ls = mset (c_lits c)" "take j ls = filter ?k (c_view c)"
    "drop ?n ls = drop ?n (c_lits c)"
    using k by (auto simp: compacting_def c_view_def)
  have f: "filter ?k (c_view c) = c_view c" if "j = ?n"
  proof -
    have "length (filter ?k (c_view c)) = length (c_view c)"
      using l(1,2,4) that n by (metis add_0 c_view_def length_take)
    then show ?thesis by (metis filter_True length_filter_less less_irrefl)
  qed
  show r: "fst (cleanup_clause val c) \<longleftrightarrow> (\<exists>l \<in> set (c_view c). val l = L_true)"
    by (simp add: cleanup_clause_def e Let_def)
  show "mset (c_lits (snd (cleanup_clause val c))) = mset (c_lits c)"
    using l by (simp add: cleanup_clause_def e Let_def clause_shrink_def)
  show v: "c_view (snd (cleanup_clause val c)) = filter ?k (c_view c)" if nr: "\<not> fst (cleanup_clause val c)"
  proof (cases "j < ?n")
    case True
    then show ?thesis using nr r l by (auto simp: cleanup_clause_def e Let_def clause_shrink_def) (simp add: c_view_def)
  next
    case False
    then show ?thesis using nr r l by (auto simp: cleanup_clause_def e Let_def) (simp add: c_view_def)
  qed
  show "check_approx (snd (cleanup_clause val c))" if nr: "\<not> fst (cleanup_clause val c)"
  proof (cases "j < ?n")
    case True
    then show ?thesis using nr r by (auto simp: cleanup_clause_def e Let_def clause_shrink_def)
  next
    case False
    then have "j = ?n" using l(2) by simp
    then show ?thesis
      using nr r l v [OF nr] f assms(2) False
      by (auto simp: cleanup_clause_def e Let_def check_approx_def)
  qed
qed

end
