(* ===== verification/SatEliminate.thy ===== *)
theory SatEliminate
  imports SatSimplifierProof
begin

text \<open>
  The elimination of a variable and of a blocked clause, as steps on sets of clauses: what they store in the
  model converter gives back a model of the clauses that were taken out.
\<close>

section \<open>Well-formed clauses\<close>

text \<open>Literals of the first \<open>n\<close> variables, each once, and none with its complement.\<close>

definition clause_wf :: "nat \<Rightarrow> clause \<Rightarrow> bool" where
  "clause_wf n c \<longleftrightarrow> lits_below n c \<and> distinct c \<and> (\<forall>l \<in> set c. lit_neg l \<notin> set c)"

definition below_null :: "nat \<Rightarrow> bool" where "below_null n \<longleftrightarrow> n < 2147483648"

lemma satisfied_by_set: "set c = set d \<Longrightarrow> satisfied_by c m = satisfied_by d m"
  by (simp add: satisfied_by_def)

lemma resolvent_of_set:
  "set (resolvent_of l c1 c2) = (set c1 - {l}) \<union> (set c2 - {lit_neg l})"
  by (auto simp: resolvent_of_def Let_def)

lemma resolvent_of_wf:
  assumes "clause_wf n c1" "clause_wf n c2" "\<not> tautological l c1 c2"
  shows "clause_wf n (resolvent_of l c1 c2)"
proof -
  have "distinct (resolvent_of l c1 c2)" using assms by (auto simp: resolvent_of_def Let_def clause_wf_def)
  moreover have "lit_neg k \<notin> set (resolvent_of l c1 c2)" if "k \<in> set (resolvent_of l c1 c2)" for k
  proof -
    have "\<not> (k \<in> set c2 \<and> k \<noteq> lit_neg l \<and> lit_neg k \<in> set c1)"
      and "\<not> (lit_neg k \<in> set c2 \<and> lit_neg k \<noteq> lit_neg l \<and> k \<in> set c1)"
      using assms(3) unfolding tautological_def by (metis lit_neg(3))+
    then show ?thesis using that assms(1,2) unfolding resolvent_of_set clause_wf_def by auto
  qed
  moreover have "lits_below n (resolvent_of l c1 c2)"
    using assms(1,2) by (auto simp: lits_below_def resolvent_of_set clause_wf_def)
  ultimately show ?thesis by (simp add: clause_wf_def)
qed

text \<open>A model of both clauses satisfies the resolvent.\<close>

lemma resolvent_satisfied:
  assumes "satisfied_by c1 m" "satisfied_by c2 m"
  shows "satisfied_by (resolvent_of l c1 c2) m"
proof (cases "value_at l m = L_true")
  case True
  then show ?thesis using assms(2) by (auto simp: satisfied_by_def resolvent_of_set)
next
  case False
  then show ?thesis using assms(1) by (auto simp: satisfied_by_def resolvent_of_set)
qed

section \<open>Entries of the converter\<close>

definition entry_of :: "bool_var \<Rightarrow> entry_kind \<Rightarrow> clause list \<Rightarrow> mc_entry" where
  "entry_of v k cs = \<lparr>e_var = v, e_kind = k, e_clauses = stored cs, e_elim_stack = replicate (length cs) None\<rparr>"

lemma mc_mk_entry:
  "mc_mk solver k v mc = Some mc' \<Longrightarrow> m_entries mc' = m_entries mc @ [entry_of v k []] \<and> m_elim_stack mc' = m_elim_stack mc"
  by (auto simp: mc_mk_def entry_of_def split: if_splits)

lemma mc_insert_entry:
  assumes "m_entries mc = es @ [entry_of v k cs]" "m_elim_stack mc = []"
  shows "m_entries (mc_insert c mc) = es @ [entry_of v k (cs @ [c])]" "m_elim_stack (mc_insert c mc) = []"
  using assms by (simp_all add: mc_insert_def Let_def add_elim_stack_def entry_of_def replicate_append_same)

lemma save_clauses_entry:
  assumes "m_entries mc = es @ [entry_of v k cs]" "m_elim_stack mc = []"
  shows "m_entries (save_clauses ws mc) = es @ [entry_of v k (cs @ map cw_view ws)] \<and> m_elim_stack (save_clauses ws mc) = []"
  using assms
proof (induction ws arbitrary: mc cs)
  case Nil
  then show ?case by (simp add: save_clauses_def)
next
  case (Cons w ws)
  have "save_clauses (w # ws) mc = save_clauses ws (mc_insert (cw_view w) mc)" by (simp add: save_clauses_def)
  then show ?case using Cons.IH mc_insert_entry [OF Cons.prems, of "cw_view w"] by simp
qed

lemma save_elim_entry_entry:
  assumes "save_elim_entry solver v ps ns mc = Some mc'" "m_elim_stack mc = []"
  shows "m_entries mc' = m_entries mc @ [entry_of v ELIM_VAR (map cw_view ps @ map cw_view ns)]" "m_elim_stack mc' = []"
proof -
  obtain mc1 where mk: "mc_mk solver ELIM_VAR v mc = Some mc1" and mc': "mc' = save_clauses ns (save_clauses ps mc1)"
    using assms(1) by (auto simp: save_elim_entry_def)
  have 1: "m_entries mc1 = m_entries mc @ [entry_of v ELIM_VAR []]" "m_elim_stack mc1 = []"
    using mc_mk_entry [OF mk] assms(2) by auto
  note 2 = save_clauses_entry [OF 1, of ps]
  show "m_entries mc' = m_entries mc @ [entry_of v ELIM_VAR (map cw_view ps @ map cw_view ns)]" "m_elim_stack mc' = []"
    using save_clauses_entry [OF conjunct1 [OF 2] conjunct2 [OF 2], of ns] mc' by simp_all
qed

lemma process_entry_of:
  assumes "\<forall>c \<in> set cs. clause_ok v (length m) c" "k \<noteq> ATE" "v \<noteq> null_bool_var"
  shows "\<exists>m'. process_entry None (entry_of v k cs) m = Some m' \<and> all_repaired v cs m m'"
  using process_entry_repairs [OF assms, of "length cs"] by (simp add: entry_of_def)

section \<open>What elimination does to the state\<close>

definition but_counter :: "simp_state \<Rightarrow> simp_state \<Rightarrow> bool" where
  "but_counter s s' \<longleftrightarrow> (\<exists>k. s' = s\<lparr>sp_elim_counter := k\<rparr>)"

lemma but_counter_refl [simp]: "but_counter s s"
  unfolding but_counter_def by (rule exI [of _ "sp_elim_counter s"]) simp

lemma but_counter_trans: "but_counter s s' \<Longrightarrow> but_counter s' s'' \<Longrightarrow> but_counter s s''"
  by (auto simp: but_counter_def)

lemma but_counter_fields:
  "but_counter s s' \<Longrightarrow> sp_visited s' = sp_visited s \<and> sp_mc s' = sp_mc s \<and> sp_clauses s' = sp_clauses s \<and>
     sp_use s' = sp_use s \<and> sp_watches s' = sp_watches s \<and> sp_assignment s' = sp_assignment s"
  by (auto simp: but_counter_def)

definition wrappers_below :: "nat \<Rightarrow> clause_wrapper list \<Rightarrow> bool" where
  "wrappers_below n ws = (\<forall>w \<in> set ws. lits_below n (cw_view w))"

lemma resolve_state_eq:
  assumes "clean n (sp_visited s)" "lits_below n (cw_view c1)" "lits_below n (cw_view c2)"
    "resolve_state l c1 c2 s = (res, r, s')"
  shows "but_counter s s'" "res \<longleftrightarrow> \<not> tautological l (cw_view c1) (cw_view c2)"
    "res \<Longrightarrow> r = resolvent_of l (cw_view c1) (cw_view c2)"
proof -
  obtain res0 r0 vis0 where e: "resolve (cw_view c1) (cw_view c2) l [] (sp_visited s) = (res0, r0, vis0)" by (metis prod_cases3)
  note q = resolve_eq [OF assms(1-3) e]
  show "but_counter s s'" "res \<longleftrightarrow> \<not> tautological l (cw_view c1) (cw_view c2)"
    "res \<Longrightarrow> r = resolvent_of l (cw_view c1) (cw_view c2)"
    using assms(4) q by (auto simp: resolve_state_def e but_counter_def)
qed

lemma count_row_state:
  assumes "clean n (sp_visited s)" "lits_below n (cw_view c1)" "wrappers_below n cs"
    "count_row l b c1 cs (a, s) = (ok, a', s')"
  shows "but_counter s s'"
  using assms
proof (induction cs arbitrary: a s)
  case (Cons c2 cs)
  obtain res r s1 where e: "resolve_state l c1 c2 s = (res, r, s1)" by (metis prod_cases3)
  have c2: "lits_below n (cw_view c2)" and cs: "wrappers_below n cs" using Cons.prems(3) by (auto simp: wrappers_below_def)
  have b: "but_counter s s1" by (rule resolve_state_eq(1) [OF Cons.prems(1,2) c2 e])
  then have v: "clean n (sp_visited s1)" using Cons.prems(1) but_counter_fields [OF b] by simp
  show ?case
    using Cons.prems(4) b but_counter_trans [OF b Cons.IH [OF v Cons.prems(2) cs]]
    by (auto simp: resolve_count_def e split: if_splits)
qed simp

lemma count_rows_state:
  assumes "clean n (sp_visited s)" "wrappers_below n ps" "wrappers_below n ns"
    "count_rows l b ps ns (a, s) = (ok, a', s')"
  shows "but_counter s s'"
  using assms
proof (induction ps arbitrary: a s)
  case (Cons c1 ps)
  obtain ok1 a1 s1 where e: "count_row l b c1 ns (a, s) = (ok1, a1, s1)" by (metis prod_cases3)
  have c1: "lits_below n (cw_view c1)" and ps: "wrappers_below n ps" using Cons.prems(2) by (auto simp: wrappers_below_def)
  have b: "but_counter s s1" by (rule count_row_state [OF Cons.prems(1) c1 Cons.prems(3) e])
  then have v: "clean n (sp_visited s1)" using Cons.prems(1) but_counter_fields [OF b] by simp
  show ?case
    using Cons.prems(4) b but_counter_trans [OF b Cons.IH [OF v ps Cons.prems(3)]]
    by (auto simp: e split: if_splits)
qed simp

lemma resolve_row_eq:
  assumes "clean n (sp_visited s)" "lits_below n (cw_view c1)" "wrappers_below n cs" "resolve_row l c1 cs s = (rs, s')"
  shows "but_counter s s' \<and> set rs = {resolvent_of l (cw_view c1) (cw_view c2) | c2. c2 \<in> set cs \<and> \<not> tautological l (cw_view c1) (cw_view c2)}"
  using assms
proof (induction cs arbitrary: s rs s')
  case (Cons c2 cs)
  obtain res r s1 where e: "resolve_state l c1 c2 s = (res, r, s1)" by (metis prod_cases3)
  obtain rs1 s2 where e2: "resolve_row l c1 cs s1 = (rs1, s2)" by (metis prod.exhaust)
  have c2: "lits_below n (cw_view c2)" and cs: "wrappers_below n cs" using Cons.prems(3) by (auto simp: wrappers_below_def)
  note q = resolve_state_eq [OF Cons.prems(1,2) c2 e]
  then have v: "clean n (sp_visited s1)" using Cons.prems(1) but_counter_fields [OF q(1)] by simp
  note ih = Cons.IH [OF v Cons.prems(2) cs e2]
  have "rs = (if res then r # rs1 else rs1)" "s' = s2" using Cons.prems(4) by (auto simp: e e2)
  then show ?case using ih q but_counter_trans [OF q(1)] by auto
qed simp

lemma resolvents_eq:
  assumes "clean n (sp_visited s)" "wrappers_below n ps" "wrappers_below n ns" "resolvents l ps ns s = (rs, s')"
  shows "but_counter s s' \<and> set rs = {resolvent_of l (cw_view c1) (cw_view c2) | c1 c2.
      c1 \<in> set ps \<and> c2 \<in> set ns \<and> \<not> tautological l (cw_view c1) (cw_view c2)}"
  using assms
proof (induction ps arbitrary: s rs s')
  case (Cons c1 ps)
  obtain rs1 s1 where e: "resolve_row l c1 ns s = (rs1, s1)" by (metis prod.exhaust)
  obtain rs2 s2 where e2: "resolvents l ps ns s1 = (rs2, s2)" by (metis prod.exhaust)
  have c1: "lits_below n (cw_view c1)" and ps: "wrappers_below n ps" using Cons.prems(2) by (auto simp: wrappers_below_def)
  note q = resolve_row_eq [OF Cons.prems(1) c1 Cons.prems(3) e]
  then have v: "clean n (sp_visited s1)" using Cons.prems(1) but_counter_fields by metis
  note ih = Cons.IH [OF v ps Cons.prems(3) e2]
  have "rs = rs1 @ rs2" "s' = s2" using Cons.prems(4) by (auto simp: e e2)
  then show ?case using ih q but_counter_trans by auto
qed simp

lemma try_eliminate_eq:
  assumes e: "try_eliminate cfg ext solver v s = Some (Some rs, s')"
    and c: "clean n (sp_visited s)" "m_elim_stack (sp_mc s) = []"
    and b: "wrappers_below n (collect_clauses s (mk_literal v False))" "wrappers_below n (collect_clauses s (mk_literal v True))"
  defines "ps \<equiv> map cw_view (collect_clauses s (mk_literal v False))"
    and "ns \<equiv> map cw_view (collect_clauses s (mk_literal v True))"
  shows "bvar_value s v = L_undef" "\<not> ext v"
    "m_entries (sp_mc s') = m_entries (sp_mc s) @ [entry_of v ELIM_VAR (ps @ ns)]" "m_elim_stack (sp_mc s') = []"
    "sp_visited s' = sp_visited s"
    "set rs = {resolvent_of (mk_literal v False) c1 c2 | c1 c2.
        c1 \<in> set ps \<and> c2 \<in> set ns \<and> \<not> tautological (mk_literal v False) c1 c2}"
proof -
  let ?p = "mk_literal v False" and ?ps = "collect_clauses s (mk_literal v False)" and ?ns = "collect_clauses s (mk_literal v True)"
  obtain t s1 where t: "try_eliminate_test cfg v s = (t, s1)" by (metis prod.exhaust)
  then obtain pc nc cost where tt: "t = Some (pc, nc, cost)" and x: "\<not> ext v"
    using e by (auto simp: try_eliminate_def split: option.splits if_splits prod.splits)
  have u: "bvar_value s v = L_undef" and pn: "pc = ?ps" "nc = ?ns" and s1: "but_counter s s1"
    using t tt count_rows_state [OF c(1) b]
    by (auto simp: try_eliminate_test_def Let_def split: if_splits prod.splits)
  note f = but_counter_fields [OF s1]
  obtain mc where mc: "save_elim_entry solver v ?ps ?ns (sp_mc s) = Some mc"
    and rest: "resolvents ?p ?ps ?ns (s1\<lparr>sp_mc := mc, sp_eliminated := (sp_eliminated s1)[unat v := True],
                      sp_elim_counter := sp_elim_counter s1 - cost - cost - cost\<rparr>) = (rs, s')"
    using e t tt x pn f by (auto simp: try_eliminate_def Let_def split: bind_splits prod.splits)
  have "clean n (sp_visited (s1\<lparr>sp_mc := mc, sp_eliminated := (sp_eliminated s1)[unat v := True],
                      sp_elim_counter := sp_elim_counter s1 - cost - cost - cost\<rparr>))" using c f by simp
  note r = resolvents_eq [OF this b rest]
  note g = but_counter_fields [OF conjunct1 [OF r]]
  show "bvar_value s v = L_undef" "\<not> ext v" by (fact u, fact x)
  show "m_entries (sp_mc s') = m_entries (sp_mc s) @ [entry_of v ELIM_VAR (ps @ ns)]" "m_elim_stack (sp_mc s') = []"
    using save_elim_entry_entry [OF mc c(2)] g by (simp_all add: ps_def ns_def)
  show "sp_visited s' = sp_visited s" using g f by simp
  show "set rs = {resolvent_of ?p c1 c2 | c1 c2. c1 \<in> set ps \<and> c2 \<in> set ns \<and> \<not> tautological ?p c1 c2}"
    using r by (auto simp: ps_def ns_def) 
qed

end
