(* ===== verification/SatElimEqsProof.thy ===== *)
theory SatElimEqsProof
  imports SatElimEqs SatEliminate
begin

text \<open>
  Replacing literals by their roots: what becomes of a clause, and what the converter needs to give the
  eliminated variables their values back.
\<close>

section \<open>Roots\<close>

definition roots_ok :: "nat \<Rightarrow> literal list \<Rightarrow> bool" where
  "roots_ok n roots \<longleftrightarrow> length roots = n \<and> lits_below n roots"

lemma norm_neg: "norm_lit roots (lit_neg l) = lit_neg (norm_lit roots l)"
  by (simp add: norm_lit_def)

lemma norm_below:
  assumes "roots_ok n roots" "lit_below n l"
  shows "lit_below n (norm_lit roots l)"
proof -
  have "roots ! unat (lit_var l) \<in> set roots" using assms by (auto simp: roots_ok_def lit_below_def)
  then show ?thesis using assms by (auto simp: norm_lit_def roots_ok_def lits_below_def)
qed

section \<open>Duplicates and complements\<close>

lemma lit_less_idx: "a < b \<longleftrightarrow> idx a < idx b" "a \<le> b \<longleftrightarrow> idx a \<le> idx b"
  by (simp_all add: less_literal_def less_eq_literal_def word_less_nat_alt word_le_nat_alt)

lemma complement_between:
  assumes "p < x" "x \<noteq> lit_neg p"
  shows "lit_neg p < x"
proof (cases "unat (lit_var x) = unat (lit_var p)")
  case True
  then have "lit_var x = lit_var p" by (simp add: word_unat_eq_iff)
  then have "x = p" using assms(2) same_var by blast
  then show ?thesis using assms(1) by simp
next
  case False
  then show ?thesis using assms(1) by (cases "lit_sign p"; cases "lit_sign x") (simp_all add: lit_less_idx idx_eq)
qed

lemma dedup_loop_Some:
  assumes "sorted xs" "\<forall>x \<in> set xs. p \<le> x" "dedup_loop val p xs acc = Some acc'"
  shows "\<exists>ys. acc' = acc @ ys \<and> set ys = {x \<in> set xs. x \<noteq> p \<and> val x \<noteq> L_false} \<and> sorted ys \<and> distinct ys \<and>
    (\<forall>x \<in> set xs. x \<noteq> p \<longrightarrow> val x \<noteq> L_true) \<and> (\<forall>x \<in> set (p # xs). lit_neg x \<notin> set (p # xs))"
  using assms
proof (induction xs arbitrary: p acc)
  case (Cons x xs)
  have s: "sorted xs" "\<forall>y \<in> set xs. x \<le> y" "p \<le> x" using Cons.prems by auto
  have x: "x \<noteq> lit_neg p" using Cons.prems(3) by auto
  show ?case
  proof (cases "x = p")
    case True
    then have "\<exists>ys. acc' = acc @ ys \<and> set ys = {x \<in> set xs. x \<noteq> p \<and> val x \<noteq> L_false} \<and> sorted ys \<and> distinct ys \<and>
        (\<forall>x \<in> set xs. x \<noteq> p \<longrightarrow> val x \<noteq> L_true) \<and> (\<forall>x \<in> set (p # xs). lit_neg x \<notin> set (p # xs))"
      using Cons.IH [of p acc] Cons.prems s by simp
    then show ?thesis using True by (elim exE, intro exI) auto
  next
    case False
    then have px: "p < x" "lit_neg p < x" using s(3) complement_between x by auto
    have v: "val x \<noteq> L_true" using Cons.prems(3) False x by auto
    let ?acc = "if val x = L_false then acc else acc @ [x]"
    have "dedup_loop val x xs ?acc = Some acc'" using Cons.prems(3) False x v by (simp split: if_splits)
    from Cons.IH [OF s(1,2) this]
    obtain ys where ys: "acc' = ?acc @ ys" "set ys = {y \<in> set xs. y \<noteq> x \<and> val y \<noteq> L_false}" "sorted ys" "distinct ys"
      "\<forall>y \<in> set xs. y \<noteq> x \<longrightarrow> val y \<noteq> L_true" "\<forall>y \<in> set (x # xs). lit_neg y \<notin> set (x # xs)" by auto
    have far: "p < y" "lit_neg p < y" if "y \<in> set (x # xs)" for y using that s(2) px by auto
    have np: "p \<notin> set (x # xs)" "lit_neg p \<notin> set (x # xs)" using far by blast+
    have nc: "\<forall>y \<in> set (p # x # xs). lit_neg y \<notin> set (p # x # xs)"
    proof
      fix y assume "y \<in> set (p # x # xs)"
      then consider "y = p" | "y \<in> set (x # xs)" by auto
      then show "lit_neg y \<notin> set (p # x # xs)"
      proof cases
        case 1 then show ?thesis using np by simp
      next
        case 2
        then have "lit_neg y \<noteq> p" using np(2) by (metis lit_neg(3))
        then show ?thesis using 2 ys(6) by auto
      qed
    qed
    let ?ys = "if val x = L_false then ys else x # ys"
    have "set ?ys = {y \<in> set (x # xs). y \<noteq> p \<and> val y \<noteq> L_false}" using ys(2) np(1) by auto
    moreover have "sorted ?ys" "distinct ?ys" using ys(2-4) s(2) by auto
    moreover have "acc' = acc @ ?ys" using ys(1) by auto
    moreover have "\<forall>y \<in> set (x # xs). y \<noteq> p \<longrightarrow> val y \<noteq> L_true" using ys(5) v by auto
    ultimately show ?thesis using nc by blast
  qed
qed auto

lemma dedup_loop_None:
  assumes "dedup_loop val p xs acc = None"
  shows "(\<exists>x \<in> set xs. val x = L_true) \<or> (\<exists>x \<in> set xs. lit_neg x \<in> set (p # xs))"
  using assms by (induction xs arbitrary: p acc) (auto split: if_splits)

text \<open>The loop starts with the null literal, which is neither a literal of the clause nor a complement of one.\<close>

lemma dedup_start:
  assumes "sorted xs" "lits_below n xs" "below_null n"
  shows "dedup_loop val null_literal xs [] = Some ys \<Longrightarrow>
      set ys = {x \<in> set xs. val x \<noteq> L_false} \<and> distinct ys \<and> (\<forall>x \<in> set xs. val x \<noteq> L_true) \<and> (\<forall>x \<in> set xs. lit_neg x \<notin> set xs)"
    and "dedup_loop val null_literal xs [] = None \<Longrightarrow>
      (\<exists>x \<in> set xs. val x = L_true) \<or> (\<exists>x \<in> set xs. lit_neg x \<in> set xs)"
proof -
  have nn: "x \<noteq> null_literal" "lit_neg x \<noteq> null_literal" if "x \<in> set xs" for x
    using that assms null_above by (auto simp: lits_below_def below_null_def)
  show "set ys = {x \<in> set xs. val x \<noteq> L_false} \<and> distinct ys \<and> (\<forall>x \<in> set xs. val x \<noteq> L_true) \<and> (\<forall>x \<in> set xs. lit_neg x \<notin> set xs)"
    if d: "dedup_loop val null_literal xs [] = Some ys"
  proof (cases xs)
    case (Cons x xs')
    have x: "x \<noteq> null_literal" "x \<noteq> lit_neg null_literal" using nn [of x] Cons by auto
    have v: "val x \<noteq> L_true" using d Cons x by auto
    have "dedup_loop val x xs' (if val x = L_false then [] else [x]) = Some ys" using d Cons x v by (auto split: if_splits)
    from dedup_loop_Some [OF _ _ this] assms(1) Cons
    obtain zs where "ys = (if val x = L_false then [] else [x]) @ zs" "set zs = {y \<in> set xs'. y \<noteq> x \<and> val y \<noteq> L_false}"
      "distinct zs" "\<forall>y \<in> set xs'. y \<noteq> x \<longrightarrow> val y \<noteq> L_true" "\<forall>y \<in> set (x # xs'). lit_neg y \<notin> set (x # xs')" by auto
    then show ?thesis using Cons v by auto
  qed (use d in simp)
  show "(\<exists>x \<in> set xs. val x = L_true) \<or> (\<exists>x \<in> set xs. lit_neg x \<in> set xs)"
    if "dedup_loop val null_literal xs [] = None"
    using dedup_loop_None [OF that] nn by auto
qed

section \<open>Clauses\<close>

definition fate_clause :: "clause \<Rightarrow> clause_fate \<Rightarrow> clause option" where
  "fate_clause c f = (case f of Unaffected \<Rightarrow> Some c | Removed \<Rightarrow> None | Empty_clause \<Rightarrow> Some [] | Unit_clause l \<Rightarrow> Some [l]
     | Two_literals l1 l2 \<Rightarrow> Some [l1, l2] | Shrunk ls \<Rightarrow> Some ls)"

lemma fate_clause_fate_of [simp]: "fate_clause c (fate_of ls) = Some ls"
  by (auto simp: fate_clause_def fate_of_def split: list.split)

lemma fate_removed [simp]: "fate_clause c Removed = None"
  by (simp add: fate_clause_def)

lemma normalize_clause_spec:
  assumes c: "clause_wf n c" and r: "roots_ok n roots" "below_null n"
    and e: "normalize_clause roots el val c = Some f"
  shows "fate_clause c f = Some d \<Longrightarrow> clause_wf n d \<and> set d \<subseteq> norm_lit roots ` set c \<and> (\<forall>k \<in> set d. norm_lit roots k = k) \<and>
      (\<forall>l \<in> set c. norm_lit roots l \<in> set d \<or> val (norm_lit roots l) = L_false)"
    and "fate_clause c f = None \<Longrightarrow> \<exists>l \<in> set c. val (norm_lit roots l) = L_true \<or> (\<exists>k \<in> set c. norm_lit roots k = lit_neg (norm_lit roots l))"
proof -
  let ?xs = "sort (map (norm_lit roots) c)"
  have xs: "sorted ?xs" "lits_below n ?xs" "set ?xs = norm_lit roots ` set c"
    using c norm_below [OF r(1)] by (auto simp: lits_below_def clause_wf_def)
  consider (same) "f = Unaffected" "\<forall>l \<in> set c. l = norm_lit roots l"
    | (changed) "\<forall>l \<in> set c. norm_lit roots l = norm_lit roots (norm_lit roots l)"
        "f = (case dedup_loop val null_literal ?xs [] of None \<Rightarrow> Removed | Some ls \<Rightarrow> fate_of ls)"
    using e by (auto simp: normalize_clause_def split: if_splits)
  note cs = this
  show "clause_wf n d \<and> set d \<subseteq> norm_lit roots ` set c \<and> (\<forall>k \<in> set d. norm_lit roots k = k) \<and>
      (\<forall>l \<in> set c. norm_lit roots l \<in> set d \<or> val (norm_lit roots l) = L_false)" if d: "fate_clause c f = Some d"
    using cs
  proof cases
    case same
    then show ?thesis using d c by (auto simp: fate_clause_def)
  next
    case changed
    then have "dedup_loop val null_literal ?xs [] = Some d"
      using d by (cases "dedup_loop val null_literal ?xs []") (simp_all add: fate_removed)
    from dedup_start(1) [OF xs(1,2) r(2) this] show ?thesis
      using changed(1) xs(2,3) by (auto simp: clause_wf_def lits_below_def)
  qed
  show "\<exists>l \<in> set c. val (norm_lit roots l) = L_true \<or> (\<exists>k \<in> set c. norm_lit roots k = lit_neg (norm_lit roots l))"
    if d: "fate_clause c f = None"
    using cs
  proof cases
    case same
    then show ?thesis using d by (simp add: fate_clause_def)
  next
    case changed
    then have "dedup_loop val null_literal ?xs [] = None"
      using d by (cases "dedup_loop val null_literal ?xs []") simp_all
    from dedup_start(2) [OF xs(1,2) r(2) this] show ?thesis unfolding xs(3) by (metis imageE)
  qed
qed

section \<open>The assignment\<close>

definition eq_units :: "nat \<Rightarrow> eq_state \<Rightarrow> literal set" where
  "eq_units n s = {l. lit_below n l \<and> eq_value s l = L_true}"

definition eq_ok :: "nat \<Rightarrow> eq_state \<Rightarrow> bool" where
  "eq_ok n s \<longleftrightarrow> \<not> eq_inconsistent s \<and> length (eq_assignment s) = 2 * n \<and>
     (\<forall>l. lit_below n l \<longrightarrow> eq_value s (lit_neg l) = lb_not (eq_value s l))"

lemma eq_false: "eq_ok n s \<Longrightarrow> lit_below n l \<Longrightarrow> eq_value s l = L_false \<Longrightarrow> lit_neg l \<in> eq_units n s"
  by (simp add: eq_ok_def eq_units_def)

lemma eq_assign_unit_ok:
  assumes "eq_ok n s" "lit_below n l" "\<not> eq_inconsistent (eq_assign_unit l s)"
  shows "eq_ok n (eq_assign_unit l s)" "eq_units n (eq_assign_unit l s) = insert l (eq_units n s)"
    "eq_watches (eq_assign_unit l s) = eq_watches s" "eq_new_bin (eq_assign_unit l s) = eq_new_bin s"
proof -
  show "eq_watches (eq_assign_unit l s) = eq_watches s" "eq_new_bin (eq_assign_unit l s) = eq_new_bin s"
    by (simp_all add: eq_assign_unit_def split: lbool.split)
  have "eq_ok n (eq_assign_unit l s) \<and> eq_units n (eq_assign_unit l s) = insert l (eq_units n s)"
  proof (cases "eq_value s l")
    case L_false
    then show ?thesis using assms(3) by (simp add: eq_assign_unit_def)
  next
    case L_true
    then show ?thesis using assms by (auto simp: eq_assign_unit_def eq_units_def)
  next
    case L_undef
    let ?s = "eq_assign_unit l s"
    have i: "idx l < 2 * n" "idx (lit_neg l) < 2 * n" using assms(2) lit_below_idx by auto
    have v: "eq_value ?s k = (if k = l then L_true else if k = lit_neg l then L_false else eq_value s k)" for k
      using L_undef assms(1) i
      by (auto simp: eq_assign_unit_def eq_value_def eq_ok_def nth_list_update)
    have "eq_ok n ?s"
      using assms(1) L_undef by (auto simp: eq_ok_def v) (auto simp: eq_assign_unit_def)
    moreover have "eq_units n ?s = insert l (eq_units n s)"
      using assms(1,2) L_undef by (auto simp: eq_units_def v eq_ok_def)
    ultimately show ?thesis by simp
  qed
  then show "eq_ok n (eq_assign_unit l s)" "eq_units n (eq_assign_unit l s) = insert l (eq_units n s)" by auto
qed

section \<open>Binary clauses\<close>

text \<open>The four fates of a watched binary clause.\<close>

definition bin_unit :: "literal list \<Rightarrow> literal \<Rightarrow> watched \<Rightarrow> bool" where
  "bin_unit roots l1 w \<longleftrightarrow> is_binary_clause w \<and> norm_lit roots l1 = norm_lit roots (w_literal w)"
definition bin_tautology :: "literal list \<Rightarrow> literal \<Rightarrow> watched \<Rightarrow> bool" where
  "bin_tautology roots l1 w \<longleftrightarrow> is_binary_clause w \<and> norm_lit roots l1 = lit_neg (norm_lit roots (w_literal w))"
definition bin_changed :: "literal list \<Rightarrow> literal \<Rightarrow> watched \<Rightarrow> bool" where
  "bin_changed roots l1 w \<longleftrightarrow> is_binary_clause w \<and> \<not> bin_unit roots l1 w \<and> \<not> bin_tautology roots l1 w \<and>
     (l1 \<noteq> norm_lit roots l1 \<or> w_literal w \<noteq> norm_lit roots (w_literal w))"
definition bin_kept :: "literal list \<Rightarrow> literal \<Rightarrow> watched \<Rightarrow> bool" where
  "bin_kept roots l1 w \<longleftrightarrow> \<not> bin_unit roots l1 w \<and> \<not> bin_tautology roots l1 w \<and> \<not> bin_changed roots l1 w"

definition new_of :: "literal list \<Rightarrow> literal \<Rightarrow> watched set \<Rightarrow> (literal \<times> literal) set" where
  "new_of roots l1 W = {(norm_lit roots l1, norm_lit roots (w_literal w)) | w.
     w \<in> W \<and> bin_changed roots l1 w \<and> lit_index (norm_lit roots l1) < lit_index (norm_lit roots (w_literal w))}"

definition new_pairs :: "eq_state \<Rightarrow> (literal \<times> literal) set" where
  "new_pairs s = (\<lambda>(a, b, learned). (a, b)) ` set (eq_new_bin s)"

definition units_of :: "literal list \<Rightarrow> literal \<Rightarrow> watched set \<Rightarrow> literal set" where
  "units_of roots l1 W = {norm_lit roots l1 | w. w \<in> W \<and> bin_unit roots l1 w}"

lemma of_empty [simp]: "new_of roots l1 {} = {}" "units_of roots l1 {} = {}"
  by (auto simp: new_of_def units_of_def)

lemma of_insert: "new_of roots l1 (insert w W) = new_of roots l1 {w} \<union> new_of roots l1 W"
    "units_of roots l1 (insert w W) = units_of roots l1 {w} \<union> units_of roots l1 W"
  by (auto simp: new_of_def units_of_def)

lemma eq_ok_bin [simp]: "eq_ok n (s\<lparr>eq_new_bin := b\<rparr>) = eq_ok n s" "eq_units n (s\<lparr>eq_new_bin := b\<rparr>) = eq_units n s"
    "eq_ok n (s\<lparr>eq_watches := ws\<rparr>) = eq_ok n s" "eq_units n (s\<lparr>eq_watches := ws\<rparr>) = eq_units n s"
    "new_pairs (s\<lparr>eq_watches := ws\<rparr>) = new_pairs s"
  by (simp_all add: eq_ok_def eq_units_def eq_value_def new_pairs_def)

lemma cleanup_bin_list_conflict:
  "eq_inconsistent s \<Longrightarrow> eq_inconsistent (snd (cleanup_bin_list roots l1 ws kept s))"
proof (induction ws arbitrary: kept s)
  case (Cons w ws)
  have "eq_inconsistent (eq_assign_unit l s)" for l
    using Cons.prems by (simp add: eq_assign_unit_def split: lbool.split)
  then show ?case using Cons by (simp add: Let_def)
qed simp

lemma cleanup_bin_list_spec:
  assumes "eq_ok n s" "roots_ok n roots" "lit_below n l1"
    "cleanup_bin_list roots l1 ws kept s = (kept', s')" "\<not> eq_inconsistent s'"
  shows "eq_ok n s' \<and> eq_watches s' = eq_watches s \<and> kept' = kept @ filter (bin_kept roots l1) ws \<and>
    eq_units n s' = eq_units n s \<union> units_of roots l1 (set ws) \<and> new_pairs s' = new_pairs s \<union> new_of roots l1 (set ws)"
  using assms(1,4)
proof (induction ws arbitrary: kept s)
  case Nil
  then show ?case by simp
next
  case (Cons w ws)
  have r1: "lit_below n (norm_lit roots l1)" by (rule norm_below [OF assms(2,3)])
  note split = of_insert [of roots l1 w "set ws"]
  consider (other) "\<not> is_binary_clause w" | (unit) "bin_unit roots l1 w" | (taut) "bin_tautology roots l1 w" "\<not> bin_unit roots l1 w"
    | (changed) "bin_changed roots l1 w" | (kept) "is_binary_clause w" "bin_kept roots l1 w"
    by (auto simp: bin_kept_def)
  then show ?case
  proof cases
    case other
    then have "bin_kept roots l1 w" "new_of roots l1 {w} = {}" "units_of roots l1 {w} = {}"
      by (auto simp: bin_kept_def bin_unit_def bin_tautology_def bin_changed_def new_of_def units_of_def)
    then show ?thesis using Cons.IH [of s "kept @ [w]"] Cons.prems other by (simp add: split)
  next
    case unit
    let ?s = "eq_assign_unit (norm_lit roots l1) s"
    have f: "\<not> bin_kept roots l1 w" "new_of roots l1 {w} = {}" "units_of roots l1 {w} = {norm_lit roots l1}"
      using unit by (auto simp: bin_kept_def bin_changed_def new_of_def units_of_def)
    have c: "\<not> eq_inconsistent ?s"
    proof
      assume i: "eq_inconsistent ?s"
      then have "(kept, ?s) = (kept', s')" using Cons.prems(2) unit by (simp add: bin_unit_def Let_def)
      then show False using i assms(5) by simp
    qed
    then have e: "cleanup_bin_list roots l1 ws kept ?s = (kept', s')" using Cons.prems(2) unit by (simp add: bin_unit_def Let_def)
    note a = eq_assign_unit_ok [OF Cons.prems(1) r1 c]
    have "new_pairs ?s = new_pairs s" by (simp add: new_pairs_def a(4))
    then show ?thesis using Cons.IH [OF a(1) e] a(2,3) f by (simp add: split)
  next
    case taut
    then have f: "\<not> bin_kept roots l1 w" "new_of roots l1 {w} = {}" "units_of roots l1 {w} = {}"
      by (auto simp: bin_kept_def bin_changed_def new_of_def units_of_def)
    have "cleanup_bin_list roots l1 ws kept s = (kept', s')"
      using Cons.prems(2) taut by (auto simp: bin_unit_def bin_tautology_def Let_def)
    then show ?thesis using Cons.IH [of s kept] Cons.prems(1) f by (simp add: split)
  next
    case changed
    let ?r2 = "norm_lit roots (w_literal w)"
    let ?s = "if lit_index (norm_lit roots l1) < lit_index ?r2 then s\<lparr>eq_new_bin := eq_new_bin s @ [(norm_lit roots l1, ?r2, w_learned w)]\<rparr> else s"
    have f: "\<not> bin_kept roots l1 w" "units_of roots l1 {w} = {}"
      "new_of roots l1 {w} = (if lit_index (norm_lit roots l1) < lit_index ?r2 then {(norm_lit roots l1, ?r2)} else {})"
      using changed by (auto simp: bin_kept_def bin_changed_def new_of_def units_of_def)
    have "cleanup_bin_list roots l1 ws kept ?s = (kept', s')"
      using Cons.prems(2) changed by (auto simp: bin_changed_def bin_unit_def bin_tautology_def Let_def)
    moreover have "eq_ok n ?s" "eq_watches ?s = eq_watches s" "eq_units n ?s = eq_units n s"
        "new_pairs ?s = new_pairs s \<union> new_of roots l1 {w}"
      using Cons.prems(1) f(3) by (auto simp: new_pairs_def)
    ultimately show ?thesis using Cons.IH [of ?s kept] f(1,2) by (simp add: split Un_assoc)
  next
    case kept
    then have f: "new_of roots l1 {w} = {}" "units_of roots l1 {w} = {}"
      by (auto simp: bin_kept_def new_of_def units_of_def)
    have "cleanup_bin_list roots l1 ws (kept @ [w]) s = (kept', s')"
      using Cons.prems(2) kept by (auto simp: bin_kept_def bin_changed_def bin_unit_def bin_tautology_def Let_def)
    then show ?thesis using Cons.IH [of s "kept @ [w]"] Cons.prems(1) f kept(2) by (simp add: split)
  qed
qed

lemma cleanup_bin_lists_conflict:
  "eq_inconsistent s \<Longrightarrow> eq_inconsistent (cleanup_bin_lists roots i m s)"
  by (induction m arbitrary: i s)
    (auto simp: Let_def split: prod.split dest: cleanup_bin_list_conflict, metis cleanup_bin_list_conflict snd_conv)

text \<open>The watch list at \<open>i\<close> holds the clauses of the literal whose complement has the index \<open>i\<close>.\<close>

definition lit_at :: "nat \<Rightarrow> literal" where "lit_at i = lit_neg (Literal (of_nat i))"

lemma lit_at:
  assumes "i < 2 * n" "below_null n"
  shows "lit_below n (lit_at i)" "idx (lit_neg (lit_at i)) = i"
proof -
  have i: "idx (Literal (of_nat i)) = i"
    using assms by (simp add: unsigned_of_nat take_bit_nat_eq_self below_null_def)
  then show "idx (lit_neg (lit_at i)) = i" by (simp add: lit_at_def)
  have "unat (lit_var (Literal (of_nat i))) < n" using idx_eq [of "Literal (of_nat i)"] i assms(1) by simp
  then show "lit_below n (lit_at i)" by (simp add: lit_at_def lit_below_def)
qed

lemma lit_at_idx [simp]: "lit_at (idx (lit_neg l)) = l"
  by (simp add: lit_at_def)

lemma cleanup_bin_lists_spec:
  assumes "eq_ok n s" "roots_ok n roots" "below_null n" "i + m = 2 * n" "length (eq_watches s) = 2 * n"
    "\<not> eq_inconsistent (cleanup_bin_lists roots i m s)"
  defines "s' \<equiv> cleanup_bin_lists roots i m s"
  shows "eq_ok n s'" "length (eq_watches s') = 2 * n"
    "\<forall>j < 2 * n. eq_watches s' ! j = (if j < i then eq_watches s ! j else filter (bin_kept roots (lit_at j)) (eq_watches s ! j))"
    "eq_units n s' = eq_units n s \<union> (\<Union>j \<in> {i..<2 * n}. units_of roots (lit_at j) (set (eq_watches s ! j)))"
    "new_pairs s' = new_pairs s \<union> (\<Union>j \<in> {i..<2 * n}. new_of roots (lit_at j) (set (eq_watches s ! j)))"
proof -
  have "eq_ok n s' \<and> length (eq_watches s') = 2 * n \<and>
    (\<forall>j < 2 * n. eq_watches s' ! j = (if j < i then eq_watches s ! j else filter (bin_kept roots (lit_at j)) (eq_watches s ! j))) \<and>
    eq_units n s' = eq_units n s \<union> (\<Union>j \<in> {i..<2 * n}. units_of roots (lit_at j) (set (eq_watches s ! j))) \<and>
    new_pairs s' = new_pairs s \<union> (\<Union>j \<in> {i..<2 * n}. new_of roots (lit_at j) (set (eq_watches s ! j)))"
    using assms(1,4,5,6) unfolding s'_def
  proof (induction m arbitrary: i s)
    case 0
    then show ?case by simp
  next
    case (Suc m)
    let ?ws = "eq_watches s ! i"
    obtain kept s1 where e: "cleanup_bin_list roots (lit_at i) ?ws [] s = (kept, s1)" by (metis prod.exhaust)
    define S where "S = s1\<lparr>eq_watches := (eq_watches s1)[i := kept]\<rparr>"
    have i: "i < 2 * n" "Suc i + m = 2 * n" using Suc.prems(2) by auto
    have c: "\<not> eq_inconsistent s1"
    proof
      assume "eq_inconsistent s1"
      then show False using Suc.prems(4) e by (simp add: Let_def lit_at_def)
    qed
    have step: "cleanup_bin_lists roots i (Suc m) s = cleanup_bin_lists roots (Suc i) m S"
      using c e by (simp add: Let_def lit_at_def S_def)
    note l = cleanup_bin_list_spec [OF Suc.prems(1) assms(2) lit_at(1) [OF i(1) assms(3)] e c]
    have ok: "eq_ok n S" "length (eq_watches S) = 2 * n" using l Suc.prems(3) by (simp_all add: S_def)
    have w: "eq_watches S = (eq_watches s)[i := filter (bin_kept roots (lit_at i)) ?ws]" using l by (simp add: S_def)
    have ivl: "{i..<2 * n} = insert i {Suc i..<2 * n}" using i(1) by auto
    have far: "eq_watches S ! j = eq_watches s ! j" if "j \<in> {Suc i..<2 * n}" for j using that w by simp
    have wj: "eq_watches S ! j = (if j = i then filter (bin_kept roots (lit_at i)) ?ws else eq_watches s ! j)" if "j < 2 * n" for j
      using that w Suc.prems(3) by (simp add: nth_list_update)
    have u: "eq_units n S = eq_units n s \<union> units_of roots (lit_at i) (set ?ws)"
      "new_pairs S = new_pairs s \<union> new_of roots (lit_at i) (set ?ws)" using l by (simp_all add: S_def)
    have un: "(\<Union>j \<in> {Suc i..<2 * n}. units_of roots (lit_at j) (set (eq_watches S ! j))) =
        (\<Union>j \<in> {Suc i..<2 * n}. units_of roots (lit_at j) (set (eq_watches s ! j)))"
      "(\<Union>j \<in> {Suc i..<2 * n}. new_of roots (lit_at j) (set (eq_watches S ! j))) =
        (\<Union>j \<in> {Suc i..<2 * n}. new_of roots (lit_at j) (set (eq_watches s ! j)))"
      by (rule SUP_cong [OF refl], simp only: far)+
    have c2: "\<not> eq_inconsistent (cleanup_bin_lists roots (Suc i) m S)" using Suc.prems(4) step by simp
    note r = Suc.IH [OF ok(1) i(2) ok(2) c2, unfolded un u]
    have "eq_watches (cleanup_bin_lists roots (Suc i) m S) ! j =
        (if j < i then eq_watches s ! j else filter (bin_kept roots (lit_at j)) (eq_watches s ! j))" if "j < 2 * n" for j
      using r wj [OF that] that by (cases "j = i") auto
    then show ?case unfolding step ivl using r by (simp add: Un_assoc)
  qed
  then show "eq_ok n s'" "length (eq_watches s') = 2 * n"
    "\<forall>j < 2 * n. eq_watches s' ! j = (if j < i then eq_watches s ! j else filter (bin_kept roots (lit_at j)) (eq_watches s ! j))"
    "eq_units n s' = eq_units n s \<union> (\<Union>j \<in> {i..<2 * n}. units_of roots (lit_at j) (set (eq_watches s ! j)))"
    "new_pairs s' = new_pairs s \<union> (\<Union>j \<in> {i..<2 * n}. new_of roots (lit_at j) (set (eq_watches s ! j)))" by auto
qed

end
