(* ===== verification/SatReconstruct.thy ===== *)
theory SatReconstruct
  imports SatElimEqsProof
begin

text \<open>
  The simplifications of a SAT problem as steps on a set of clauses, a set of literals that are assigned and the
  model converter: a model of what is left is converted into a model of the problem that one started from.
\<close>

section \<open>States and what they mean\<close>

definition units :: "literal set \<Rightarrow> clause set" where "units U = (\<lambda>l. [l]) ` U"

definition state_wf :: "nat \<Rightarrow> clause set \<Rightarrow> literal set \<Rightarrow> bool" where
  "state_wf n F U \<longleftrightarrow> (\<forall>c \<in> F. clause_wf n c) \<and> (\<forall>l \<in> U. lit_below n l)"

text \<open>The data structures of the simplifier hold the clauses and the assignment.\<close>

definition represents :: "nat \<Rightarrow> simp_state \<Rightarrow> clause set \<Rightarrow> literal set \<Rightarrow> bool" where
  "represents n s F U \<longleftrightarrow> clean n (sp_visited s) \<and> m_elim_stack (sp_mc s) = [] \<and>
     (\<forall>l. lit_below n l \<longrightarrow>
        (\<forall>w \<in> set (collect_clauses s l). clause_wf n (cw_view w)) \<and>
        (\<lambda>w. set (cw_view w)) ` set (collect_clauses s l) = {C \<in> set ` F. l \<in> C} \<and>
        lit_value s l = (if l \<in> U then L_true else if lit_neg l \<in> U then L_false else L_undef))"

lemma units_simps [simp]: "units {} = {}" "units (insert l U) = insert [l] (units U)" "units (U \<union> V) = units U \<union> units V"
  by (auto simp: units_def)

lemma models_subset: "models m G \<Longrightarrow> F \<subseteq> G \<Longrightarrow> models m F"
  by (auto simp: models_def)

lemma clause_wf_ok:
  assumes "lits_below n c" "\<forall>l \<in> set c. lit_neg l \<notin> set c" "v \<in> vars c" "below_null n"
  shows "clause_ok v n c"
proof -
  have "null_literal \<notin> set c" using assms null_above by (auto simp: lits_below_def below_null_def)
  then show ?thesis using assms by (auto simp: clause_ok_def has_pivot_def lits_below_def lit_below_def)
qed

lemma var_not_null: "unat v < n \<Longrightarrow> below_null n \<Longrightarrow> v \<noteq> null_bool_var \<and> v < 2147483648"
proof -
  assume h: "unat v < n" "below_null n"
  have null: "null_bool_var = 2147483647" by (simp add: null_bool_var_def mask_eq_exp_minus_1)
  have "unat v < 2147483647" using h by (simp add: below_null_def)
  then show ?thesis unfolding null by (auto simp: word_less_nat_alt)
qed

lemma literals_of_var:
  assumes "unat v < n" "below_null n"
  shows "lit_var l = v \<longleftrightarrow> l = mk_literal v False \<or> l = mk_literal v True"
    "lit_neg (mk_literal v False) = mk_literal v True" "lit_below n (mk_literal v b)"
proof -
  note p = mk_literal_parts [of v] var_not_null [OF assms]
  show "lit_var l = v \<longleftrightarrow> l = mk_literal v False \<or> l = mk_literal v True"
    using p by (auto simp: lit_eq_iff)
  show "lit_neg (mk_literal v False) = mk_literal v True" using p by (simp add: lit_eq_iff)
  show "lit_below n (mk_literal v b)" using p assms by (simp add: lit_below_def)
qed

lemma represents_collect:
  assumes "represents n s F U" "lit_below n l"
  shows "\<forall>w \<in> set (collect_clauses s l). clause_wf n (cw_view w)"
    "(\<lambda>w. set (cw_view w)) ` set (collect_clauses s l) = {C \<in> set ` F. l \<in> C}"
  using assms unfolding represents_def by blast+

lemma unassigned_var:
  assumes "represents n s F U" "bvar_value s v = L_undef" "unat v < n" "below_null n"
  shows "v \<notin> lit_var ` U"
proof
  assume "v \<in> lit_var ` U"
  then obtain l where "l \<in> U" "lit_var l = v" by auto
  then show False
    using assms literals_of_var [OF assms(3,4)] by (auto simp: represents_def bvar_value_def split: if_splits)
qed

definition converts :: "nat \<Rightarrow> mc_entry list \<Rightarrow> clause set \<Rightarrow> clause set \<Rightarrow> bool" where
  "converts n es F F' \<longleftrightarrow> (\<forall>m. length m = n \<and> models m F' \<longrightarrow>
     (\<exists>m'. process_entries None (rev es) m = Some m' \<and> length m' = n \<and> models m' F))"

lemma converts_none: "(\<And>m. models m F' \<Longrightarrow> models m F) \<Longrightarrow> converts n [] F F'"
  by (simp add: converts_def)

lemma converts_trans:
  assumes "converts n es F G" "converts n fs G H"
  shows "converts n (es @ fs) F H"
  unfolding converts_def
proof (intro allI impI)
  fix m assume "length m = n \<and> models m H"
  then obtain m1 where m1: "process_entries None (rev fs) m = Some m1" "length m1 = n \<and> models m1 G"
    using assms(2) by (auto simp: converts_def)
  then obtain m2 where "process_entries None (rev es) m1 = Some m2" "length m2 = n" "models m2 F"
    using assms(1) by (auto simp: converts_def)
  then show "\<exists>m'. process_entries None (rev (es @ fs)) m = Some m' \<and> length m' = n \<and> models m' F"
    using m1(1) by (simp add: process_entries_append)
qed

text \<open>One entry: the clauses that it stores resolve into clauses that hold.\<close>

lemma converts_entry:
  assumes cs: "\<forall>c \<in> set cs. clause_ok v n c" and k: "k \<noteq> ATE" and v: "v \<noteq> null_bool_var"
    and F: "\<And>c. c \<in> F \<Longrightarrow> c \<in> F' \<or> set c \<in> set ` set cs"
    and res: "\<And>m c d. models m F' \<Longrightarrow> c \<in> set cs \<Longrightarrow> d \<in> (F \<inter> F') \<union> set cs \<Longrightarrow> clashes v c d \<Longrightarrow> resolvent_holds v m c d"
  shows "converts n [entry_of v k cs] F F'"
  unfolding converts_def
proof (intro allI impI)
  fix m assume m: "length m = n \<and> models m F'"
  obtain m' where m': "process_entry None (entry_of v k cs) m = Some m'" and r: "all_repaired v cs m m'"
    using process_entry_of [of cs v m k] cs k v m by auto
  have "models m (F \<inter> F')" by (rule models_subset [of m F']) (use m in auto)
  then have mm: "models m' ((F \<inter> F') \<union> set cs)"
    using all_repaired_models [OF r, of "F \<inter> F'"] res m by blast
  have "models m' F"
    unfolding models_def
  proof
    fix c assume c: "c \<in> F"
    show "satisfied_by c m'"
    proof (cases "c \<in> F'")
      case True
      then show ?thesis using mm c by (auto simp: models_def)
    next
      case False
      then obtain d where "d \<in> set cs" "set c = set d" using F [OF c] by auto
      then show ?thesis using mm satisfied_by_set [of c d m'] by (simp add: models_def)
    qed
  qed
  moreover have "length m' = n" using all_repaired_length [OF r] m by simp
  ultimately show "\<exists>m'. process_entries None (rev [entry_of v k cs]) m = Some m' \<and> length m' = n \<and> models m' F"
    using m' by simp
qed

lemma resolvent_holds_sym: "resolvent_holds v m c d \<Longrightarrow> resolvent_holds v m d c"
proof -
  assume "resolvent_holds v m c d"
  then consider (t) y where "y \<in> set c" "lit_var y \<noteq> v" "lit_neg y \<in> set d"
    | (k) k where "k \<in> set c \<union> set d" "lit_var k \<noteq> v" "value_at k m = L_true" by (auto simp: resolvent_holds_def)
  then show ?thesis
  proof cases
    case t
    then have "lit_neg y \<in> set d" "lit_var (lit_neg y) \<noteq> v" "lit_neg (lit_neg y) \<in> set c" by simp_all
    then show ?thesis unfolding resolvent_holds_def by blast
  next
    case k
    then show ?thesis unfolding resolvent_holds_def by blast
  qed
qed

section \<open>Elimination of a variable\<close>

lemma resolvent_holds_of:
  assumes "clause_wf n c1" "clause_wf n c2" "l \<in> set c1" "lit_neg l \<in> set c2"
    and "tautological l c1 c2 \<or> satisfied_by (resolvent_of l c1 c2) m"
  shows "resolvent_holds (lit_var l) m c1 c2"
proof -
  have v1: "lit_var k \<noteq> lit_var l" if "k \<in> set c1" "k \<noteq> l" for k
    using that assms(1,3) same_var [of k l] by (auto simp: clause_wf_def)
  have v2: "lit_var k \<noteq> lit_var l" if "k \<in> set c2" "k \<noteq> lit_neg l" for k
    using that assms(2,4) same_var [of k l] by (auto simp: clause_wf_def)
  from assms(5) show ?thesis
  proof
    assume "tautological l c1 c2"
    then obtain k where k: "k \<in> set c2" "k \<noteq> lit_neg l" "lit_neg k \<in> set c1" by (auto simp: tautological_def)
    then show ?thesis using v2 [of k] unfolding resolvent_holds_def by (intro disjI1 bexI [of _ "lit_neg k"]) auto
  next
    assume "satisfied_by (resolvent_of l c1 c2) m"
    then obtain k where "k \<in> (set c1 - {l}) \<union> (set c2 - {lit_neg l})" "value_at k m = L_true"
      by (auto simp: satisfied_by_def resolvent_of_set)
    then show ?thesis using v1 v2 unfolding resolvent_holds_def by blast
  qed
qed

lemma eliminate_step:
  assumes n: "below_null n" "unat v < n" and wf: "state_wf n F U" and rep: "represents n s F U"
    and e: "try_eliminate cfg ext solver v s = Some (Some rs, s')"
  defines "F' \<equiv> {c \<in> F. v \<notin> vars c} \<union> set rs"
  shows "state_wf n F' U" "m_elim_stack (sp_mc s') = []"
    "\<exists>es. m_entries (sp_mc s') = m_entries (sp_mc s) @ es \<and> converts n es (F \<union> units U) (F' \<union> units U)"
    "models m (F \<union> units U) \<Longrightarrow> models m (F' \<union> units U)"
proof -
  let ?p = "mk_literal v False" and ?n = "mk_literal v True"
  define ps ns where "ps = map cw_view (collect_clauses s ?p)" and "ns = map cw_view (collect_clauses s ?n)"
  note lv = literals_of_var [OF n(2,1)] and nn = var_not_null [OF n(2,1)]
  have pw: "\<forall>c \<in> set ps. clause_wf n c" "\<forall>c \<in> set ns. clause_wf n c"
    and sp: "set ` set ps = {C \<in> set ` F. ?p \<in> C}" "set ` set ns = {C \<in> set ` F. ?n \<in> C}"
    using rep lv(3) [of False] lv(3) [of True] unfolding represents_def ps_def ns_def by (simp_all add: image_image)
  have b: "wrappers_below n (collect_clauses s ?p)" "wrappers_below n (collect_clauses s ?n)"
    using pw by (auto simp: wrappers_below_def ps_def ns_def clause_wf_def)
  have cl: "clean n (sp_visited s)" "m_elim_stack (sp_mc s) = []" using rep by (auto simp: represents_def)
  note t = try_eliminate_eq [OF e cl b, folded ps_def ns_def]
  have pin: "?p \<in> set c" if "c \<in> set ps" for c using that sp(1) by blast
  have nin: "?n \<in> set c" if "c \<in> set ns" for c using that sp(2) by blast
  show "m_elim_stack (sp_mc s') = []" by (rule t(4))
  show "state_wf n F' U"
    using wf pw t(6) resolvent_of_wf by (auto simp: state_wf_def F'_def)
  have uv: "v \<notin> lit_var ` U" by (rule unassigned_var [OF rep t(1) n(2,1)])
  have "converts n [entry_of v ELIM_VAR (ps @ ns)] (F \<union> units U) (F' \<union> units U)"
  proof (rule converts_entry)
    show "\<forall>c \<in> set (ps @ ns). clause_ok v n c"
    proof
      fix c assume c: "c \<in> set (ps @ ns)"
      then have "?p \<in> set c \<or> ?n \<in> set c" using pin nin by auto
      moreover have "lit_var ?p = v" "lit_var ?n = v" using lv(1) by auto
      ultimately have "v \<in> vars c" unfolding vars_def by (metis image_eqI)
      then show "clause_ok v n c" using c pw n(1) by (intro clause_wf_ok) (auto simp: clause_wf_def)
    qed
    fix c assume "c \<in> F \<union> units U"
    then show "c \<in> F' \<union> units U \<or> set c \<in> set ` set (ps @ ns)"
    proof
      assume c: "c \<in> F"
      show ?thesis
      proof (cases "v \<in> vars c")
        case True
        then have "?p \<in> set c \<or> ?n \<in> set c" using lv(1) unfolding vars_def by (metis imageE)
        then have "set c \<in> set ` set ps \<or> set c \<in> set ` set ns" using c unfolding sp by auto
        then show ?thesis by auto
      qed (use c in \<open>simp add: F'_def\<close>)
    qed simp
  next
    fix m c d
    assume m: "models m (F' \<union> units U)" and c: "c \<in> set (ps @ ns)" and d: "d \<in> (F \<union> units U) \<inter> (F' \<union> units U) \<union> set (ps @ ns)"
      and cd: "clashes v c d"
    have pn: "resolvent_holds v m a b" if "a \<in> set ps" "b \<in> set ns" for a b
    proof -
      have "tautological ?p a b \<or> satisfied_by (resolvent_of ?p a b) m"
        using that t(6) m by (auto simp: models_def F'_def)
      moreover have "lit_var ?p = v" using lv(1) by auto
      ultimately show ?thesis
        using resolvent_holds_of [of n a b ?p m] that pw pin nin lv(2) by auto
    qed
    obtain l where l: "l \<in> set c" "lit_var l = v" "lit_neg l \<in> set d" using cd by (auto simp: clashes_def)
    have vd: "v \<in> vars d" using l(2,3) by (auto simp: vars_def image_iff intro: bexI [of _ "lit_neg l"])
    have "d \<in> set (ps @ ns)"
    proof (rule ccontr)
      assume nd: "d \<notin> set (ps @ ns)"
      then have "d \<in> F' \<union> units U" using d by auto
      moreover have "d \<notin> units U" using vd uv by (auto simp: units_def vars_def)
      moreover have "v \<notin> vars r" if "r \<in> set rs" for r
      proof
        assume "v \<in> vars r"
        then obtain k where k: "k \<in> set r" "lit_var k = v" by (auto simp: vars_def)
        obtain a b where ab: "a \<in> set ps" "b \<in> set ns" "r = resolvent_of ?p a b" using \<open>r \<in> set rs\<close> t(6) by auto
        then have "k \<in> set a \<and> k \<noteq> ?p \<or> k \<in> set b \<and> k \<noteq> ?n" using k(1) lv(2) by (auto simp: resolvent_of_set)
        then have "k \<in> set a \<and> k = ?n \<or> k \<in> set b \<and> k = ?p" using k(2) lv(1) by auto
        moreover have "?n \<notin> set a" using ab(1) pw(1) pin [OF ab(1)] lv(2) by (metis clause_wf_def)
        moreover have "?p \<notin> set b" using ab(2) pw(2) nin [OF ab(2)] lv(2) by (metis clause_wf_def)
        ultimately show False by auto
      qed
      ultimately show False using vd by (auto simp: F'_def)
    qed
    have wp: "?n \<notin> set a" if "a \<in> set ps" for a using pw(1) pin [OF that] lv(2) that by (metis clause_wf_def)
    have wn: "?p \<notin> set a" if "a \<in> set ns" for a using pw(2) nin [OF that] lv(2) that by (metis clause_wf_def)
    from l(2) have "l = ?p \<or> l = ?n" using lv(1) by blast
    then show "resolvent_holds v m c d"
    proof
      assume "l = ?p"
      then have "c \<in> set ps" "d \<in> set ns" using l c \<open>d \<in> set (ps @ ns)\<close> wp wn lv(2) by auto
      then show ?thesis by (rule pn)
    next
      assume ln: "l = ?n"
      then have "lit_neg l = ?p" using lv(2) by (metis lit_neg(3))
      then have "c \<in> set ns" "d \<in> set ps" using ln l c \<open>d \<in> set (ps @ ns)\<close> wp wn by auto
      then show ?thesis using pn resolvent_holds_sym by blast
    qed
  qed (use nn in auto)
  then show "\<exists>es. m_entries (sp_mc s') = m_entries (sp_mc s) @ es \<and> converts n es (F \<union> units U) (F' \<union> units U)"
    using t(3) by auto
  show "models m (F' \<union> units U)" if m: "models m (F \<union> units U)"
  proof -
    have sat: "satisfied_by c m" if "set c \<in> set ` F" for c
    proof -
      obtain d where "d \<in> F" "set c = set d" using \<open>set c \<in> set ` F\<close> by blast
      then show ?thesis using m satisfied_by_set [of c d m] by (simp add: models_def)
    qed
    have "satisfied_by r m" if "r \<in> set rs" for r
    proof -
      obtain a b where ab: "a \<in> set ps" "b \<in> set ns" "r = resolvent_of ?p a b" using \<open>r \<in> set rs\<close> t(6) by auto
      have "set a \<in> {C \<in> set ` F. ?p \<in> C}" "set b \<in> {C \<in> set ` F. ?n \<in> C}"
        using imageI [OF ab(1), of set] imageI [OF ab(2), of set] unfolding sp .
      then have "set a \<in> set ` F" "set b \<in> set ` F" by simp_all
      then show ?thesis using ab(3) resolvent_satisfied [OF sat sat] by simp
    qed
    then show ?thesis using m by (auto simp: models_def F'_def)
  qed
qed

section \<open>Blocked clauses\<close>

lemma abce_binaries_Some:
  "abce_binaries vis l ws taut = Some (Some t) \<Longrightarrow>
   \<forall>w \<in> set ws. is_binary_non_learned w \<longrightarrow> is_marked vis (lit_neg (w_literal w)) \<and> w_literal w \<noteq> lit_neg l"
  by (induction ws arbitrary: taut) (auto split: if_splits)

lemma abce_find_Some:
  "abce_find vis l c = Some k \<Longrightarrow> \<exists>x \<in> set c. is_marked vis (lit_neg x) \<and> x \<noteq> lit_neg l"
  by (induction c) (auto split: if_splits)

lemma abce_clauses_Some:
  "abce_clauses st vis l rs taut = Some t \<Longrightarrow>
   \<forall>r \<in> set rs. \<not> c_learned (st r) \<and> \<not> c_removed (st r) \<longrightarrow>
     (\<exists>x \<in> set (c_view (st r)). is_marked vis (lit_neg x) \<and> x \<noteq> lit_neg l)"
  by (induction rs arbitrary: taut) (auto split: if_splits option.splits dest: abce_find_Some)

text \<open>Every clause with the complement of \<open>l\<close> has the complement of another marked literal.\<close>

lemma check_abce_tautology_True:
  assumes "check_abce_tautology process s l taut = Some (True, t)" "w \<in> set (collect_clauses s (lit_neg l))"
  shows "process (lit_var l)" "\<exists>x \<in> set (cw_view w). is_marked (sp_visited s) (lit_neg x) \<and> x \<noteq> lit_neg l"
proof -
  obtain t1 t2 where b: "abce_binaries (sp_visited s) l (wlist s l) taut = Some (Some t1)"
    and c: "abce_clauses (sp_clauses s) (sp_visited s) l (occs s (lit_neg l)) t1 = Some t2" and p: "process (lit_var l)"
    using assms(1) by (auto simp: check_abce_tautology_def split: if_splits option.splits)
  show "process (lit_var l)" by (rule p)
  show "\<exists>x \<in> set (cw_view w). is_marked (sp_visited s) (lit_neg x) \<and> x \<noteq> lit_neg l"
    using assms(2) abce_binaries_Some [OF b] abce_clauses_Some [OF c]
    by (auto simp: collect_clauses_def cw_view_def)
qed

lemma block_step:
  assumes n: "below_null n" and wf: "state_wf n F U" and rep: "represents n s F U"
    and c: "c \<in> F" "l \<in> set c" "set d = set c"
    and chk: "check_abce_tautology (process_var assumption external s) (s\<lparr>sp_visited := mark_all c (sp_visited s)\<rparr>) l taut = Some (True, t)"
    and blk: "block_clause solver k l d (sp_mc s) = Some mc'" "k \<noteq> ATE"
  defines "F' \<equiv> F - {c}"
  shows "state_wf n F' U" "m_elim_stack mc' = []"
    "\<exists>es. m_entries mc' = m_entries (sp_mc s) @ es \<and> converts n es (F \<union> units U) (F' \<union> units U)"
    "models m (F \<union> units U) \<Longrightarrow> models m (F' \<union> units U)"
proof -
  let ?s = "s\<lparr>sp_visited := mark_all c (sp_visited s)\<rparr>"
  have wc: "clause_wf n c" using wf c(1) by (simp add: state_wf_def)
  then have lb: "lit_below n l" using c(2) by (auto simp: clause_wf_def lits_below_def)
  then have vn: "unat (lit_var l) < n" by (simp add: lit_below_def)
  have cl: "clean n (sp_visited s)" "m_elim_stack (sp_mc s) = []" using rep by (auto simp: represents_def)
  show "state_wf n F' U" using wf by (auto simp: state_wf_def F'_def)
  obtain mc1 where mk: "mc_mk solver k (lit_var l) (sp_mc s) = Some mc1" and mc': "mc' = mc_insert d mc1"
    using blk(1) by (auto simp: block_clause_def)
  have e1: "m_entries mc1 = m_entries (sp_mc s) @ [entry_of (lit_var l) k []]" "m_elim_stack mc1 = []"
    using mc_mk_entry [OF mk] cl(2) by auto
  have e2: "m_entries mc' = m_entries (sp_mc s) @ [entry_of (lit_var l) k [d]]" "m_elim_stack mc' = []"
    using mc_insert_entry [OF e1, of d] mc' by simp_all
  show "m_elim_stack mc' = []" by (rule e2(2))
  show "models m (F \<union> units U) \<Longrightarrow> models m (F' \<union> units U)" by (auto simp: F'_def models_def)
  have coll: "collect_clauses ?s k = collect_clauses s k" for k by (simp add: collect_clauses_def occs_def wlist_def)
  have pv: "process_var assumption external s (lit_var l)"
    using chk by (simp add: check_abce_tautology_def split: if_splits)
  then have uv: "lit_var l \<notin> lit_var ` U" by (intro unassigned_var [OF rep _ vn n]) (simp add: process_var_def)
  have "converts n [entry_of (lit_var l) k [d]] (F \<union> units U) (F' \<union> units U)"
  proof (rule converts_entry)
    have "clause_ok (lit_var l) n d"
      using wc c n by (intro clause_wf_ok) (auto simp: clause_wf_def lits_below_def vars_def)
    then show "\<forall>c \<in> set [d]. clause_ok (lit_var l) n c" by simp
    show "lit_var l \<noteq> null_bool_var" using var_not_null [OF vn n] by simp
    fix e assume "e \<in> F \<union> units U"
    then show "e \<in> F' \<union> units U \<or> set e \<in> set ` set [d]" using c(3) by (auto simp: F'_def)
  next
    fix m a e
    assume a: "a \<in> set [d]" and e: "e \<in> (F \<union> units U) \<inter> (F' \<union> units U) \<union> set [d]" and cd: "clashes (lit_var l) a e"
    obtain j where j: "j \<in> set c" "lit_var j = lit_var l" "lit_neg j \<in> set e" using cd a c(3) by (auto simp: clashes_def)
    have jl: "j = l" using j(1,2) c(2) wc same_var [of j l] by (auto simp: clause_wf_def)
    have "e \<in> F"
    proof (rule ccontr)
      assume "e \<notin> F"
      then have "e \<in> units U \<or> set e = set c" using e c(3) by auto
      then have "lit_neg l \<in> U" using j(3) jl wc c(2) by (auto simp: units_def clause_wf_def)
      then have "lit_var (lit_neg l) \<in> lit_var ` U" by (rule imageI)
      then show False using uv by simp
    qed
    then have "set e \<in> {C \<in> set ` F. lit_neg l \<in> C}" using j(3) jl by auto
    then have "set e \<in> (\<lambda>w. set (cw_view w)) ` set (collect_clauses s (lit_neg l))"
      using represents_collect(2) [OF rep, of "lit_neg l"] lb by simp
    then obtain w where w: "w \<in> set (collect_clauses s (lit_neg l))" "set e = set (cw_view w)" by auto
    have wfw: "\<forall>w \<in> set (collect_clauses s (lit_neg l)). clause_wf n (cw_view w)"
      by (rule represents_collect(1) [OF rep]) (use lb in simp)
    obtain x where x: "x \<in> set e" "is_marked (mark_all c (sp_visited s)) (lit_neg x)" "x \<noteq> lit_neg l"
      using check_abce_tautology_True(2) [OF chk, of w] w coll by auto
    have we: "lits_below n (cw_view w)" "\<forall>y \<in> set e. lit_neg y \<notin> set e" using wfw w by (auto simp: clause_wf_def)
    have "lit_below n (lit_neg x)" using we(1) x(1) w(2) by (auto simp: lits_below_def)
    then have "lit_neg x \<in> set c" using clean_marked [OF cl(1)] x(2) by blast
    moreover have "lit_var (lit_neg x) \<noteq> lit_var l"
      using x(1,3) j(3) jl we(2) same_var [of x l] by auto
    ultimately show "resolvent_holds (lit_var l) m a e"
      using a c(3) x(1) unfolding resolvent_holds_def by (intro disjI1 bexI [of _ "lit_neg x"]) auto
  qed (use blk(2) in simp)
  then show "\<exists>es. m_entries mc' = m_entries (sp_mc s) @ es \<and> converts n es (F \<union> units U) (F' \<union> units U)"
    using e2(1) by auto
qed

end
