(* ===== verification/SatPreprocess.thy ===== *)
theory SatPreprocess
  imports SatReconstruct
begin

text \<open>
  The elimination of equivalent literals as a step, and the theorem for any sequence of steps: a model of the
  last problem, converted, is a model of the first.
\<close>

section \<open>Clauses under an equivalence\<close>

text \<open>Literals and their roots have the same value; where they differ, they have one.\<close>

definition agrees :: "nat \<Rightarrow> literal list \<Rightarrow> model \<Rightarrow> bool" where
  "agrees n roots m \<longleftrightarrow> (\<forall>l. lit_below n l \<longrightarrow>
     value_at (norm_lit roots l) m = value_at l m \<and> (norm_lit roots l \<noteq> l \<longrightarrow> value_at l m \<noteq> L_undef))"

definition fixed :: "literal list \<Rightarrow> clause \<Rightarrow> bool" where
  "fixed roots d \<longleftrightarrow> (\<forall>k \<in> set d. norm_lit roots k = k)"

lemma value_neg_cases: "value_at l m \<noteq> L_undef \<Longrightarrow> value_at l m = L_true \<or> value_at (lit_neg l) m = L_true"
  by (cases "value_at l m") auto

lemma clause_back:
  assumes c: "clause_wf n c" and r: "roots_ok n roots" "below_null n" and a: "agrees n roots m"
    and e: "normalize_clause roots el val c = Some f"
    and d: "\<And>d. fate_clause c f = Some d \<Longrightarrow> satisfied_by d m"
    and u: "\<And>l. lit_below n l \<Longrightarrow> val l = L_true \<Longrightarrow> value_at l m = L_true"
  shows "satisfied_by c m"
proof (cases "fate_clause c f")
  case (Some d')
  note s = normalize_clause_spec(1) [OF c r e Some]
  obtain k where k: "k \<in> set d'" "value_at k m = L_true" using d [OF Some] by (auto simp: satisfied_by_def)
  then obtain l where l: "l \<in> set c" "k = norm_lit roots l" using s by auto
  then have "lit_below n l" using c by (auto simp: clause_wf_def lits_below_def)
  then have "value_at l m = L_true" using a k(2) l(2) by (simp add: agrees_def)
  then show ?thesis using l(1) by (auto simp: satisfied_by_def)
next
  case None
  obtain l where l: "l \<in> set c" and
    or: "val (norm_lit roots l) = L_true \<or> (\<exists>k \<in> set c. norm_lit roots k = lit_neg (norm_lit roots l))"
    using normalize_clause_spec(2) [OF c r e None] by auto
  have b: "lit_below n x" if "x \<in> set c" for x using that c by (auto simp: clause_wf_def lits_below_def)
  have t: "satisfied_by c m" if "x \<in> set c" "value_at (norm_lit roots x) m = L_true" for x
  proof -
    have "value_at x m = L_true" using a b [OF that(1)] that(2) by (simp add: agrees_def)
    then show ?thesis using that(1) by (auto simp: satisfied_by_def)
  qed
  from or show ?thesis
  proof
    assume "val (norm_lit roots l) = L_true"
    then show ?thesis using t [OF l] u norm_below [OF r(1) b [OF l]] by simp
  next
    assume "\<exists>k \<in> set c. norm_lit roots k = lit_neg (norm_lit roots l)"
    then obtain k where k: "k \<in> set c" "norm_lit roots k = lit_neg (norm_lit roots l)" by auto
    have "norm_lit roots l \<noteq> l \<or> norm_lit roots k \<noteq> k" using k l c by (auto simp: clause_wf_def)
    then have "value_at (norm_lit roots l) m \<noteq> L_undef"
    proof
      assume "norm_lit roots l \<noteq> l"
      then show ?thesis using a b [OF l] by (simp add: agrees_def)
    next
      assume "norm_lit roots k \<noteq> k"
      then have "value_at (norm_lit roots k) m \<noteq> L_undef" using a b [OF k(1)] by (simp add: agrees_def)
      then show ?thesis unfolding k(2) by simp
    qed
    then show ?thesis using value_neg_cases t [OF l] t [OF k(1)] k(2) by metis
  qed
qed

lemma clause_forth:
  assumes c: "clause_wf n c" and r: "roots_ok n roots" "below_null n" and a: "agrees n roots m"
    and e: "normalize_clause roots el val c = Some f" and d: "fate_clause c f = Some d"
    and u: "\<And>l. lit_below n l \<Longrightarrow> val l = L_false \<Longrightarrow> value_at l m = L_false" and s: "satisfied_by c m"
  shows "satisfied_by d m"
proof -
  obtain l where l: "l \<in> set c" "value_at l m = L_true" using s by (auto simp: satisfied_by_def)
  then have b: "lit_below n l" using c by (auto simp: clause_wf_def lits_below_def)
  then have v: "value_at (norm_lit roots l) m = L_true" using a l(2) by (simp add: agrees_def)
  have "norm_lit roots l \<in> set d \<or> val (norm_lit roots l) = L_false"
    using normalize_clause_spec(1) [OF c r e d] l(1) by auto
  moreover have "val (norm_lit roots l) \<noteq> L_false" using u [OF norm_below [OF r(1) b]] v by auto
  ultimately show ?thesis using v by (auto simp: satisfied_by_def)
qed

section \<open>What the state holds\<close>

definition bin_lits :: "watched list \<Rightarrow> literal set" where
  "bin_lits ws = w_literal ` {w \<in> set ws. is_binary_clause w}"

definition watched_bins :: "nat \<Rightarrow> eq_state \<Rightarrow> clause set" where
  "watched_bins n s = {[l1, l2] | l1 l2. lit_below n l1 \<and> l2 \<in> bin_lits (eq_wlist s (lit_neg l1))}"

text \<open>Clauses of a vector, binary clauses of the watch lists, and the assigned literals.\<close>

definition held :: "nat \<Rightarrow> clause set \<Rightarrow> eq_state \<Rightarrow> clause set" where
  "held n K s = K \<union> watched_bins n s \<union> units (eq_units n s)"

definition eq_inv :: "nat \<Rightarrow> eq_state \<Rightarrow> bool" where
  "eq_inv n s \<longleftrightarrow> eq_ok n s \<and> length (eq_watches s) = 2 * n \<and> (\<forall>c \<in> watched_bins n s. clause_wf n c) \<and>
     (\<forall>a b. [a, b] \<in> watched_bins n s \<longrightarrow> [b, a] \<in> watched_bins n s)"

lemma bin_lits_simps [simp]: "bin_lits [] = {}" "bin_lits (ws @ vs) = bin_lits ws \<union> bin_lits vs"
    "bin_lits [w_binary l b] = {l}"
  by (auto simp: bin_lits_def is_binary_clause_def)

lemma bin_lits_Cons: "bin_lits (w # ws) = (if is_binary_clause w then {w_literal w} else {}) \<union> bin_lits ws"
  by (auto simp: bin_lits_def)

lemma bin_lits_unlearn [simp]: "bin_lits (unlearn_first l ws) = bin_lits ws"
proof (induction ws)
  case (Cons w ws)
  then show ?case by (simp add: bin_lits_Cons is_binary_clause_def)
qed simp

lemma find_bin: "find_binary_watch l ws \<noteq> None \<longleftrightarrow> l \<in> bin_lits ws"
  using find_binary_watch_Some(1) [of l ws] by (auto simp: bin_lits_def)

lemma watched_bins_iff: "[a, b] \<in> watched_bins n s \<longleftrightarrow> lit_below n a \<and> b \<in> bin_lits (eq_wlist s (lit_neg a))"
  by (auto simp: watched_bins_def)

lemma watched_bins_pair: "c \<in> watched_bins n s \<Longrightarrow> \<exists>a b. c = [a, b]"
  by (auto simp: watched_bins_def)

text \<open>Operations on one watch list.\<close>

lemma eq_wlist_at:
  assumes "lit_below n l" "length (eq_watches s) = 2 * n"
  shows "eq_wlist (watch_at l f s) k = (if k = l then f (eq_wlist s l) else eq_wlist s k)"
proof -
  have "idx l < length (eq_watches s)" using lit_below_idx [OF assms(1)] assms(2) by simp
  then show ?thesis by (auto simp: eq_wlist_def watch_at_def)
qed

lemma watch_at_simps [simp]: "eq_ok n (watch_at l f s) = eq_ok n s" "eq_units n (watch_at l f s) = eq_units n s"
    "length (eq_watches (watch_at l f s)) = length (eq_watches s)" "eq_inconsistent (watch_at l f s) = eq_inconsistent s"
    "eq_value (watch_at l f s) = eq_value s" "eq_new_bin (watch_at l f s) = eq_new_bin s"
  by (auto simp: watch_at_def eq_value_def fun_eq_iff)

lemma watched_bins_unlearn:
  assumes "lit_below n l" "length (eq_watches s) = 2 * n"
  shows "watched_bins n (watch_at l (unlearn_first k) s) = watched_bins n s"
proof -
  have "bin_lits (eq_wlist (watch_at l (unlearn_first k) s) j) = bin_lits (eq_wlist s j)" for j
    by (simp add: eq_wlist_at [OF assms])
  then show ?thesis by (simp add: watched_bins_def)
qed

lemma watched_bins_append:
  assumes "lit_below n l" "length (eq_watches s) = 2 * n"
  shows "watched_bins n (watch_at (lit_neg l) (\<lambda>ws. ws @ [w_binary k b]) s) = insert [l, k] (watched_bins n s)"
proof -
  have "lit_below n (lit_neg l)" using assms(1) by simp
  note w = eq_wlist_at [OF this assms(2)]
  show ?thesis using assms(1) by (auto simp: watched_bins_def w)
qed

lemma assign_unit_watched [simp]: "watched_bins n (eq_assign_unit l s) = watched_bins n s"
    "eq_watches (eq_assign_unit l s) = eq_watches s"
  by (auto simp: watched_bins_def eq_wlist_def eq_assign_unit_def split: lbool.split)

lemma assign_unit_inv:
  assumes "eq_inv n s" "lit_below n l" "\<not> eq_inconsistent (eq_assign_unit l s)"
  shows "eq_inv n (eq_assign_unit l s)" "held n K (eq_assign_unit l s) = insert [l] (held n K s)"
  using assms eq_assign_unit_ok [of n s l] by (auto simp: eq_inv_def held_def)

lemma units_true: "models m (units (eq_units n s)) \<Longrightarrow> lit_below n l \<Longrightarrow> eq_value s l = L_true \<Longrightarrow> value_at l m = L_true"
  by (auto simp: models_def units_def eq_units_def)

lemma units_false: "eq_ok n s \<Longrightarrow> models m (units (eq_units n s)) \<Longrightarrow> lit_below n l \<Longrightarrow> eq_value s l = L_false \<Longrightarrow> value_at l m = L_false"
  using eq_false [of n s l] by (auto simp: models_def units_def)

section \<open>Making a binary clause\<close>

lemma wf_pair: "clause_wf n [a, b] \<longleftrightarrow> lit_below n a \<and> lit_below n b \<and> a \<noteq> b \<and> a \<noteq> lit_neg b"
  by (auto simp: clause_wf_def lits_below_def)

lemma unit_of_pair:
  assumes "models m H" "[l1, lit_neg l2] \<in> H" "satisfied_by [l1, l2] m"
  shows "satisfied_by [l1] m"
  using assms by (auto simp: models_def)

lemma eq_mk_bin_clause_cases:
  assumes "eq_mk_bin_clause l1 l2 b s = Some s'"
  shows "find_binary_watch (lit_neg l2) (eq_wlist s (lit_neg l1)) \<noteq> None \<and> s' = eq_assign_unit l1 s
    \<or> find_binary_watch (lit_neg l1) (eq_wlist s (lit_neg l2)) \<noteq> None \<and> s' = eq_assign_unit l2 s
    \<or> find_binary_watch l2 (eq_wlist s (lit_neg l1)) \<noteq> None \<and> s' = s
    \<or> find_binary_watch l2 (eq_wlist s (lit_neg l1)) \<noteq> None \<and>
        s' = watch_at (lit_neg l2) (unlearn_first l1) (watch_at (lit_neg l1) (unlearn_first l2) s)
    \<or> eq_value s l2 = L_false \<and> s' = eq_assign_unit l1 s
    \<or> eq_value s l1 = L_false \<and> s' = eq_assign_unit l2 s
    \<or> s' = watch_at (lit_neg l2) (\<lambda>ws. ws @ [w_binary l1 b]) (watch_at (lit_neg l1) (\<lambda>ws. ws @ [w_binary l2 b]) s)"
proof (cases "find_binary_watch (lit_neg l2) (eq_wlist s (lit_neg l1)) \<noteq> None \<and> eq_value s l1 = L_undef")
  case True
  then show ?thesis using assms by (simp add: eq_mk_bin_clause_def)
next
  case f1: False
  show ?thesis
  proof (cases "find_binary_watch (lit_neg l1) (eq_wlist s (lit_neg l2)) \<noteq> None \<and> eq_value s l2 = L_undef")
    case True
    with f1 have "s' = eq_assign_unit l2 s" using assms by (simp only: eq_mk_bin_clause_def if_False if_True) simp
    then show ?thesis using True by simp
  next
    case f2: False
    show ?thesis
    proof (cases "find_binary_watch l2 (eq_wlist s (lit_neg l1))")
      case None
      then show ?thesis
        using assms f1 f2 by (simp only: eq_mk_bin_clause_def if_False option.case) (simp split: if_split_asm)
    next
      case (Some w0)
      show ?thesis
      proof (cases "w_learned w0 \<and> \<not> b")
        case True
        let ?s = "watch_at (lit_neg l1) (unlearn_first l2) s"
        have "(case find_binary_watch l1 (eq_wlist ?s (lit_neg l2)) of None \<Rightarrow> None
            | Some w1 \<Rightarrow> Some (watch_at (lit_neg l2) (unlearn_first l1) ?s)) = Some s'"
          using assms f1 f2 Some True by (simp only: eq_mk_bin_clause_def if_False if_True option.case Let_def simp_thms)
        then have "s' = watch_at (lit_neg l2) (unlearn_first l1) ?s" by (simp split: option.split_asm)
        then show ?thesis using Some by simp
      next
        case False
        then have "s' = s" using assms f1 f2 Some by (simp only: eq_mk_bin_clause_def if_False option.case) simp
        then show ?thesis using Some by simp
      qed
    qed
  qed
qed

lemma eq_mk_bin_clause_spec:
  assumes inv: "eq_inv n s" and wf: "clause_wf n [l1, l2]" and e: "eq_mk_bin_clause l1 l2 b s = Some s'"
    and c: "\<not> eq_inconsistent s'"
  shows "eq_inv n s' \<and> held n K s \<subseteq> held n K s' \<and> held n K s' \<subseteq> held n K s \<union> {[l1], [l2], [l1, l2], [l2, l1]} \<and>
    (\<forall>m. models m (held n K s') \<longleftrightarrow> models m (insert [l1, l2] (held n K s)))"
proof -
  have b: "lit_below n l1" "lit_below n l2" "lit_below n (lit_neg l1)" "lit_below n (lit_neg l2)" using wf by (auto simp: wf_pair)
  have len: "length (eq_watches s) = 2 * n" and ok: "eq_ok n s" using inv by (auto simp: eq_inv_def)
  have fb: "find_binary_watch k (eq_wlist s (lit_neg l)) \<noteq> None \<longleftrightarrow> [l, k] \<in> watched_bins n s" if "lit_below n l" for k l
    unfolding find_bin using that by (simp add: watched_bins_iff)
  have unit: ?thesis if "s' = eq_assign_unit k s" "k \<in> {l1, l2}"
    and imp: "\<And>m. models m (held n K s) \<Longrightarrow> satisfied_by [l1, l2] m \<Longrightarrow> satisfied_by [k] m" for k
  proof -
    have "lit_below n k" using that(2) b by auto
    note a = assign_unit_inv [OF inv this, folded that(1), OF c]
    show ?thesis using a that(2) imp by auto
  qed
  from eq_mk_bin_clause_cases [OF e]
  consider (one) "find_binary_watch (lit_neg l2) (eq_wlist s (lit_neg l1)) \<noteq> None" "s' = eq_assign_unit l1 s"
    | (two) "find_binary_watch (lit_neg l1) (eq_wlist s (lit_neg l2)) \<noteq> None" "s' = eq_assign_unit l2 s"
    | (same) "find_binary_watch l2 (eq_wlist s (lit_neg l1)) \<noteq> None" "s' = s"
    | (unlearn) "find_binary_watch l2 (eq_wlist s (lit_neg l1)) \<noteq> None"
        "s' = watch_at (lit_neg l2) (unlearn_first l1) (watch_at (lit_neg l1) (unlearn_first l2) s)"
    | (false2) "eq_value s l2 = L_false" "s' = eq_assign_unit l1 s"
    | (false1) "eq_value s l1 = L_false" "s' = eq_assign_unit l2 s"
    | (new) "s' = watch_at (lit_neg l2) (\<lambda>ws. ws @ [w_binary l1 b]) (watch_at (lit_neg l1) (\<lambda>ws. ws @ [w_binary l2 b]) s)"
    by blast
  then show ?thesis
  proof cases
    case one
    then have "[l1, lit_neg l2] \<in> held n K s" using fb [OF b(1)] by (simp add: held_def)
    note up = unit_of_pair [OF _ this]
    show ?thesis by (rule unit [OF one(2)]) (simp, rule up)
  next
    case two
    then have "[l2, lit_neg l1] \<in> held n K s" using fb [OF b(2)] by (simp add: held_def)
    note up = unit_of_pair [OF _ this]
    show ?thesis by (rule unit [OF two(2)]) (simp, rule up, assumption, auto)
  next
    case same
    then have "[l1, l2] \<in> held n K s" using fb [OF b(1)] by (simp add: held_def)
    then show ?thesis using inv same(2) by (auto simp: models_def)
  next
    case unlearn
    have w: "watched_bins n s' = watched_bins n s" unfolding unlearn(2) using b len by (simp add: watched_bins_unlearn)
    have "eq_inv n s'" using inv w unfolding unlearn(2) by (simp add: eq_inv_def)
    moreover have "held n K s' = held n K s" using w unfolding unlearn(2) by (simp add: held_def)
    moreover have "[l1, l2] \<in> held n K s" using unlearn(1) fb [OF b(1)] by (simp add: held_def)
    ultimately show ?thesis by (auto simp: models_def)
  next
    case false2
    have "[lit_neg l2] \<in> held n K s" using eq_false [OF ok b(2) false2(1)] by (auto simp: held_def units_def)
    then have "satisfied_by [l1] m" if "models m (held n K s)" "satisfied_by [l1, l2] m" for m
      using that by (auto simp: models_def)
    then show ?thesis by (intro unit [OF false2(2)]) simp_all
  next
    case false1
    have "[lit_neg l1] \<in> held n K s" using eq_false [OF ok b(1) false1(1)] by (auto simp: held_def units_def)
    then have "satisfied_by [l2] m" if "models m (held n K s)" "satisfied_by [l1, l2] m" for m
      using that by (auto simp: models_def)
    then show ?thesis by (intro unit [OF false1(2)]) simp_all
  next
    case new
    have w: "watched_bins n s' = insert [l2, l1] (insert [l1, l2] (watched_bins n s))"
      unfolding new using b len by (simp add: watched_bins_append)
    have "clause_wf n [l2, l1]" using wf by (auto simp: wf_pair)
    then have "eq_inv n s'" using inv w wf unfolding new by (auto simp: eq_inv_def)
    moreover have h: "held n K s' = insert [l2, l1] (insert [l1, l2] (held n K s))" using w unfolding new by (auto simp: held_def)
    ultimately show ?thesis by auto
  qed
qed

section \<open>Vectors of clauses\<close>

definition grown :: "nat \<Rightarrow> literal list \<Rightarrow> clause set \<Rightarrow> clause set \<Rightarrow> bool" where
  "grown n roots H H' \<longleftrightarrow> H \<subseteq> H' \<and> (\<forall>d \<in> H'. d \<in> H \<or> clause_wf n d \<and> fixed roots d)"

definition same_models :: "nat \<Rightarrow> literal list \<Rightarrow> clause set \<Rightarrow> clause set \<Rightarrow> bool" where
  "same_models n roots H H' \<longleftrightarrow> (\<forall>m. agrees n roots m \<longrightarrow> models m H = models m H')"

lemma grown_refl [simp]: "grown n roots H H"
  by (simp add: grown_def)

lemma grown_trans: "grown n roots H H' \<Longrightarrow> grown n roots H' H'' \<Longrightarrow> grown n roots H H''"
  unfolding grown_def by blast

lemma eq_mk_bin_conflict: "eq_mk_bin_clause l1 l2 b s = Some s' \<Longrightarrow> eq_inconsistent s \<Longrightarrow> eq_inconsistent s'"
  using eq_mk_bin_clause_cases [of l1 l2 b s s'] by (auto simp: eq_assign_unit_def split: lbool.split)

lemma eq_mk_bin_grown:
  assumes "eq_inv n s" "clause_wf n [l1, l2]" "eq_mk_bin_clause l1 l2 b s = Some s'" "\<not> eq_inconsistent s'" "fixed roots [l1, l2]"
  shows "grown n roots (held n K s) (held n K s')"
proof -
  have "clause_wf n d \<and> fixed roots d" if "d \<in> {[l1], [l2], [l1, l2], [l2, l1]}" for d
    using that assms(2,5) by (auto simp: clause_wf_def lits_below_def fixed_def)
  then show ?thesis using eq_mk_bin_clause_spec [OF assms(1-4), of K] unfolding grown_def by blast
qed

definition fate_state :: "clause_fate \<Rightarrow> clause \<times> bool \<Rightarrow> (clause \<times> bool) list \<Rightarrow> eq_state \<Rightarrow> ((clause \<times> bool) list \<times> eq_state) option" where
  "fate_state f cl kept s =
     (case f of Unaffected \<Rightarrow> Some (kept @ [cl], s) | Unit_clause l \<Rightarrow> Some (kept, eq_assign_unit l s)
      | Two_literals l1 l2 \<Rightarrow> map_option (Pair kept) (eq_mk_bin_clause l1 l2 (snd cl) s)
      | Shrunk ls \<Rightarrow> Some (kept @ [(ls, snd cl)], s) | _ \<Rightarrow> Some (kept, s))"

lemma fate_state_step:
  assumes "normalize_clause roots el (eq_value s) (fst cl) = Some f" "f \<noteq> Empty_clause"
  shows "cleanup_eq_clauses roots el (cl # cs) kept s =
    Option.bind (fate_state f cl kept s) (\<lambda>(k, t). cleanup_eq_clauses roots el cs k t)"
  using assms by (cases f; cases cl) (auto simp: fate_state_def split: bind_splits)

lemma cleanup_eq_conflict:
  "cleanup_eq_clauses roots el cs kept s = Some (kept', s') \<Longrightarrow> eq_inconsistent s \<Longrightarrow> eq_inconsistent s'"
proof (induction cs arbitrary: kept s)
  case (Cons cl cs)
  have "eq_inconsistent (eq_assign_unit l s)" for l
    using Cons.prems(2) by (simp add: eq_assign_unit_def split: lbool.split)
  then show ?case
    using Cons eq_mk_bin_conflict by (auto split: option.splits clause_fate.splits prod.splits bind_splits)
qed simp

lemma fate_state_held:
  assumes inv: "eq_inv n s" and c: "clause_wf n c" and r: "roots_ok n roots" "below_null n"
    and e: "normalize_clause roots el (eq_value s) c = Some f" "f \<noteq> Empty_clause"
    and st: "fate_state f (c, b) kept s = Some (k, t)" "\<not> eq_inconsistent t"
  defines "H \<equiv> held n (fst ` set kept) s" and "H' \<equiv> held n (fst ` set k) t"
    and "D \<equiv> (case fate_clause c f of None \<Rightarrow> {} | Some d \<Rightarrow> {d})"
  shows "eq_inv n t" "H \<subseteq> H'" "\<forall>d \<in> H'. d \<in> H \<or> d = c \<and> f = Unaffected \<or> clause_wf n d \<and> fixed roots d"
    "\<forall>m. models m H' = models m (H \<union> D)"
proof -
  have D: "clause_wf n d \<and> fixed roots d" if "fate_clause c f = Some d" for d
    using that normalize_clause_spec(1) [OF c r e(1)] by (auto simp: fixed_def)
  have "eq_inv n t \<and> H \<subseteq> H' \<and> (\<forall>d \<in> H'. d \<in> H \<or> d = c \<and> f = Unaffected \<or> clause_wf n d \<and> fixed roots d) \<and>
    (\<forall>m. models m H' = models m (H \<union> D))"
  proof (cases f)
    case (Unit_clause l)
    then have d: "fate_clause c f = Some [l]" by (simp add: fate_clause_def)
    have l: "lit_below n l" using D [OF d] by (auto simp: clause_wf_def lits_below_def)
    have t: "t = eq_assign_unit l s" "k = kept" using st Unit_clause by (auto simp: fate_state_def)
    note a = assign_unit_inv [OF inv l, folded t(1), OF st(2)]
    then show ?thesis using t(2) D [OF d] d by (auto simp: H_def H'_def D_def)
  next
    case (Two_literals l1 l2)
    then have d: "fate_clause c f = Some [l1, l2]" by (simp add: fate_clause_def)
    have t: "eq_mk_bin_clause l1 l2 b s = Some t" "k = kept" using st Two_literals by (auto simp: fate_state_def)
    note a = eq_mk_bin_clause_spec [OF inv conjunct1 [OF D [OF d]] t(1) st(2), of "fst ` set kept"]
      eq_mk_bin_grown [OF inv conjunct1 [OF D [OF d]] t(1) st(2) conjunct2 [OF D [OF d]], of "fst ` set kept"]
    then show ?thesis using t(2) d by (auto simp: H_def H'_def D_def grown_def)
  next
    case Unaffected
    then show ?thesis using inv st by (auto simp: fate_state_def fate_clause_def H_def H'_def D_def held_def)
  next
    case (Shrunk ls)
    then have d: "fate_clause c f = Some ls" by (simp add: fate_clause_def)
    show ?thesis using inv st Shrunk D [OF d] by (auto simp: fate_state_def fate_clause_def H_def H'_def D_def held_def)
  next
    case Removed
    then show ?thesis using inv st by (auto simp: fate_state_def fate_clause_def H_def H'_def D_def)
  qed (use e(2) in simp)
  then show "eq_inv n t" "H \<subseteq> H'" "\<forall>d \<in> H'. d \<in> H \<or> d = c \<and> f = Unaffected \<or> clause_wf n d \<and> fixed roots d"
    "\<forall>m. models m H' = models m (H \<union> D)" by auto
qed

lemma unaffected_fixed:
  "normalize_clause roots el val c = Some Unaffected \<Longrightarrow> fixed roots c"
  by (auto simp: normalize_clause_def fixed_def fate_of_def split: if_splits option.splits list.splits)

lemma cleanup_eq_clauses_spec:
  assumes "eq_inv n s" "\<forall>cl \<in> set cs. clause_wf n (fst cl)" "roots_ok n roots" "below_null n"
    "cleanup_eq_clauses roots el cs kept s = Some (kept', s')" "\<not> eq_inconsistent s'"
  shows "eq_inv n s' \<and> grown n roots (held n (fst ` set kept) s) (held n (fst ` set kept') s') \<and>
    same_models n roots (held n (fst ` set kept) s \<union> fst ` set cs) (held n (fst ` set kept') s')"
  using assms(1,2,5)
proof (induction cs arbitrary: kept s)
  case Nil
  then show ?case by (simp add: same_models_def)
next
  case (Cons cl cs)
  obtain c b where cl: "cl = (c, b)" by (cases cl)
  have c: "clause_wf n c" "\<forall>cl \<in> set cs. clause_wf n (fst cl)" using Cons.prems(2) cl by auto
  obtain f where f: "normalize_clause roots el (eq_value s) c = Some f" using Cons.prems(3) cl by (auto split: option.splits)
  have ne: "f \<noteq> Empty_clause" using Cons.prems(3) f assms(6) cl by auto
  obtain k t where st: "fate_state f (c, b) kept s = Some (k, t)"
    and rec: "cleanup_eq_clauses roots el cs k t = Some (kept', s')"
    using Cons.prems(3) fate_state_step [of roots el s cl f cs kept] f ne cl by (auto split: bind_splits)
  have nt: "\<not> eq_inconsistent t" using cleanup_eq_conflict [OF rec] assms(6) by blast
  note h = fate_state_held [OF Cons.prems(1) c(1) assms(3,4) f ne st nt]
  note ih = Cons.IH [OF h(1) c(2) rec]
  let ?H = "held n (fst ` set kept) s" and ?H1 = "held n (fst ` set k) t" and ?H' = "held n (fst ` set kept') s'"
  have "f = Unaffected \<Longrightarrow> clause_wf n c \<and> fixed roots c" using f c(1) unaffected_fixed by blast
  then have g: "grown n roots ?H ?H1" using h(2,3) by (auto simp: grown_def)
  have ok: "eq_ok n s" using Cons.prems(1) by (simp add: eq_inv_def)
  have "models m (?H \<union> fst ` set (cl # cs)) = models m ?H'" if a: "agrees n roots m" for m
  proof -
    have u: "models m (units (eq_units n s))" if "models m ?H" using that by (auto simp: held_def)
    have "models m (?H \<union> fst ` set (cl # cs)) = models m (?H1 \<union> fst ` set cs)"
    proof
      assume m: "models m (?H \<union> fst ` set (cl # cs))"
      then have mu: "models m ?H" "satisfied_by c m" using cl by auto
      have "satisfied_by d m" if "fate_clause c f = Some d" for d
        by (rule clause_forth [OF c(1) assms(3,4) a f that units_false [OF ok u [OF mu(1)]] mu(2)])
      then show "models m (?H1 \<union> fst ` set cs)" using h(4) m mu(1) by (auto split: option.splits)
    next
      assume m: "models m (?H1 \<union> fst ` set cs)"
      then have mD: "models m ?H" "\<And>d. fate_clause c f = Some d \<Longrightarrow> satisfied_by d m" using h(4) by auto
      have "satisfied_by c m"
        by (rule clause_back [OF c(1) assms(3,4) a f mD(2)]) (use units_true [OF u [OF mD(1)]] in auto)
      then show "models m (?H \<union> fst ` set (cl # cs))" using mD(1) m cl by simp
    qed
    then show ?thesis using ih a by (simp add: same_models_def)
  qed
  then show ?case using ih grown_trans [OF g] by (simp add: same_models_def)
qed

end
