(* ===== verification/SatEqStep.thy ===== *)
theory SatEqStep
  imports SatPreprocess
begin

text \<open>
  The elimination of equivalent literals as a whole: the watch lists, the clauses and the definitions that are
  saved, and what a model of the result says about the problem that it came from.
\<close>

section \<open>Watch lists\<close>

definition pair_kept :: "literal list \<Rightarrow> literal \<Rightarrow> literal \<Rightarrow> bool" where
  "pair_kept roots a b \<longleftrightarrow> norm_lit roots a \<noteq> norm_lit roots b \<and> norm_lit roots a \<noteq> lit_neg (norm_lit roots b) \<and>
     a = norm_lit roots a \<and> b = norm_lit roots b"

definition pair_new :: "literal list \<Rightarrow> literal \<Rightarrow> literal \<Rightarrow> bool" where
  "pair_new roots a b \<longleftrightarrow> norm_lit roots a \<noteq> norm_lit roots b \<and> norm_lit roots a \<noteq> lit_neg (norm_lit roots b) \<and>
     \<not> (a = norm_lit roots a \<and> b = norm_lit roots b)"

lemma watched_bins_elem:
  "[a, b] \<in> watched_bins n s \<longleftrightarrow>
     lit_below n a \<and> (\<exists>w \<in> set (eq_watches s ! idx (lit_neg a)). is_binary_clause w \<and> w_literal w = b)"
  by (auto simp: watched_bins_iff bin_lits_def eq_wlist_def)

lemma lists_to_pairs:
  assumes "below_null n"
  shows "(\<Union>j \<in> {0..<2 * n}. units_of roots (lit_at j) (set (eq_watches s ! j))) =
      {norm_lit roots a | a b. [a, b] \<in> watched_bins n s \<and> norm_lit roots a = norm_lit roots b}" (is "?U = ?U'")
    "(\<Union>j \<in> {0..<2 * n}. new_of roots (lit_at j) (set (eq_watches s ! j))) =
      {(norm_lit roots a, norm_lit roots b) | a b. [a, b] \<in> watched_bins n s \<and> pair_new roots a b \<and>
         lit_index (norm_lit roots a) < lit_index (norm_lit roots b)}" (is "?N = ?N'")
proof -
  have j: "lit_below n (lit_at j) \<and> idx (lit_neg (lit_at j)) = j" if "j < 2 * n" for j
    using lit_at [OF that assms] by blast
  have i: "idx (lit_neg a) < 2 * n" if "lit_below n a" for a using lit_below_idx [of n "lit_neg a"] that by simp
  show "?U = ?U'"
  proof (intro subset_antisym subsetI)
    fix x assume "x \<in> ?U"
    then obtain k w where k: "k < 2 * n" "w \<in> set (eq_watches s ! k)" "bin_unit roots (lit_at k) w" "x = norm_lit roots (lit_at k)"
      by (auto simp: units_of_def)
    then have "[lit_at k, w_literal w] \<in> watched_bins n s" using j [OF k(1)] by (auto simp: watched_bins_elem bin_unit_def)
    moreover have "norm_lit roots (lit_at k) = norm_lit roots (w_literal w)" using k(3) by (simp add: bin_unit_def)
    ultimately show "x \<in> ?U'" unfolding k(4) by blast
  next
    fix x assume "x \<in> ?U'"
    then obtain a w where a: "lit_below n a" "w \<in> set (eq_watches s ! idx (lit_neg a))" "is_binary_clause w"
      "norm_lit roots a = norm_lit roots (w_literal w)" "x = norm_lit roots a" by (auto simp: watched_bins_elem)
    then have "x \<in> units_of roots (lit_at (idx (lit_neg a))) (set (eq_watches s ! idx (lit_neg a)))"
      unfolding lit_at_idx units_of_def bin_unit_def by blast
    then show "x \<in> ?U" using i [OF a(1)] by (intro UN_I [of "idx (lit_neg a)"]) simp_all
  qed
  show "?N = ?N'"
  proof (intro subset_antisym subsetI)
    fix x assume "x \<in> ?N"
    then obtain k w where k: "k < 2 * n" "w \<in> set (eq_watches s ! k)" "bin_changed roots (lit_at k) w"
      "x = (norm_lit roots (lit_at k), norm_lit roots (w_literal w))" "lit_index (norm_lit roots (lit_at k)) < lit_index (norm_lit roots (w_literal w))"
      by (auto simp: new_of_def)
    then have "[lit_at k, w_literal w] \<in> watched_bins n s" using j [OF k(1)] by (auto simp: watched_bins_elem bin_changed_def)
    moreover have "pair_new roots (lit_at k) (w_literal w)"
      using k(3) by (auto simp: bin_changed_def bin_unit_def bin_tautology_def pair_new_def)
    ultimately show "x \<in> ?N'" using k(4,5) by blast
  next
    fix x assume "x \<in> ?N'"
    then obtain a w where a: "lit_below n a" "w \<in> set (eq_watches s ! idx (lit_neg a))" "is_binary_clause w"
      "pair_new roots a (w_literal w)" "lit_index (norm_lit roots a) < lit_index (norm_lit roots (w_literal w))"
      "x = (norm_lit roots a, norm_lit roots (w_literal w))" by (auto simp: watched_bins_elem)
    have "bin_changed roots a w"
      using a(3,4) by (auto simp: bin_changed_def bin_unit_def bin_tautology_def pair_new_def)
    then have "x \<in> new_of roots (lit_at (idx (lit_neg a))) (set (eq_watches s ! idx (lit_neg a)))"
      unfolding lit_at_idx new_of_def using a(2,5,6) by blast
    then show "x \<in> ?N" using i [OF a(1)] by (intro UN_I [of "idx (lit_neg a)"]) simp_all
  qed
qed

lemma kept_bins:
  assumes "below_null n" "\<forall>j < 2 * n. eq_watches t ! j = filter (bin_kept roots (lit_at j)) (eq_watches s ! j)"
  shows "[a, b] \<in> watched_bins n t \<longleftrightarrow> [a, b] \<in> watched_bins n s \<and> pair_kept roots a b"
proof (cases "lit_below n a")
  case True
  have "idx (lit_neg a) < 2 * n" using lit_below_idx [of n "lit_neg a"] True by simp
  then have "eq_watches t ! idx (lit_neg a) = filter (bin_kept roots a) (eq_watches s ! idx (lit_neg a))"
    using assms(2) lit_at_idx by simp
  moreover have "is_binary_clause w \<Longrightarrow> bin_kept roots a w \<longleftrightarrow> pair_kept roots a (w_literal w)" for w
    by (auto simp: bin_kept_def pair_kept_def bin_changed_def bin_unit_def bin_tautology_def)
  ultimately show ?thesis by (auto simp: watched_bins_elem)
qed (simp add: watched_bins_elem)

definition new_clauses :: "eq_state \<Rightarrow> clause set" where
  "new_clauses s = (\<lambda>(a, b). [a, b]) ` new_pairs s"

text \<open>Roots are their own roots.\<close>

definition idempotent :: "nat \<Rightarrow> literal list \<Rightarrow> bool" where
  "idempotent n roots \<longleftrightarrow> (\<forall>l. lit_below n l \<longrightarrow> norm_lit roots (norm_lit roots l) = norm_lit roots l)"

lemma cleanup_bin_lists_models:
  assumes inv: "eq_inv n s" and r: "roots_ok n roots" "below_null n" and id: "idempotent n roots"
    and s1: "s1 = cleanup_bin_lists roots 0 (length (eq_watches s)) (s\<lparr>eq_new_bin := []\<rparr>)" and c: "\<not> eq_inconsistent s1"
  shows "eq_inv n s1"
    "\<forall>d \<in> held n {} s1 \<union> new_clauses s1. clause_wf n d \<and> fixed roots d \<or> d \<in> units (eq_units n s)"
    "same_models n roots (held n {} s) (held n {} s1 \<union> new_clauses s1)"
proof -
  let ?s = "s\<lparr>eq_new_bin := []\<rparr>"
  have len: "length (eq_watches s) = 2 * n" and ok: "eq_ok n s" using inv by (auto simp: eq_inv_def)
  have pre: "eq_ok n ?s" "0 + length (eq_watches s) = 2 * n" "length (eq_watches ?s) = 2 * n" using len ok by simp_all
  note q = cleanup_bin_lists_spec [OF pre(1) r pre(2,3), folded s1, OF c]
  have kept: "[a, b] \<in> watched_bins n s1 \<longleftrightarrow> [a, b] \<in> watched_bins n s \<and> pair_kept roots a b" for a b
    by (rule kept_bins [OF r(2)]) (use q(3) in simp)
  have un: "eq_units n s1 = eq_units n s \<union> {norm_lit roots a | a b. [a, b] \<in> watched_bins n s \<and> norm_lit roots a = norm_lit roots b}"
    using q(4) lists_to_pairs(1) [OF r(2), of roots ?s] by (simp add: watched_bins_def eq_wlist_def)
  have nw: "new_clauses s1 = {[norm_lit roots a, norm_lit roots b] | a b. [a, b] \<in> watched_bins n s \<and> pair_new roots a b \<and>
      lit_index (norm_lit roots a) < lit_index (norm_lit roots b)}"
  proof -
    have "new_pairs ?s = {}" by (simp add: new_pairs_def)
    then have "new_pairs s1 = {(norm_lit roots a, norm_lit roots b) | a b. [a, b] \<in> watched_bins n s \<and> pair_new roots a b \<and>
      lit_index (norm_lit roots a) < lit_index (norm_lit roots b)}"
      using q(5) lists_to_pairs(2) [OF r(2), of roots ?s] by (simp add: watched_bins_def eq_wlist_def)
    then show ?thesis unfolding new_clauses_def by force
  qed
  have pw: "lit_below n a \<and> lit_below n b \<and> a \<noteq> b \<and> a \<noteq> lit_neg b" if "[a, b] \<in> watched_bins n s" for a b
    using inv that wf_pair by (auto simp: eq_inv_def)
  have sym: "[b, a] \<in> watched_bins n s" if "[a, b] \<in> watched_bins n s" for a b using inv that by (simp add: eq_inv_def)
  show "eq_inv n s1"
  proof -
    have "[b, a] \<in> watched_bins n s1" if "[a, b] \<in> watched_bins n s1" for a b
      using that sym by (auto simp: kept pair_kept_def)
    moreover have "clause_wf n d" if "d \<in> watched_bins n s1" for d
      using that watched_bins_pair [OF that] inv by (auto simp: kept eq_inv_def)
    ultimately show ?thesis using q(1,2) by (auto simp: eq_inv_def)
  qed
  have fx: "norm_lit roots (norm_lit roots l) = norm_lit roots l" if "lit_below n l" for l using id that by (simp add: idempotent_def)
  note nb = norm_below [OF r(1)]
  show "\<forall>d \<in> held n {} s1 \<union> new_clauses s1. clause_wf n d \<and> fixed roots d \<or> d \<in> units (eq_units n s)"
  proof
    fix d assume "d \<in> held n {} s1 \<union> new_clauses s1"
    then consider (w) "d \<in> watched_bins n s1" | (u) "d \<in> units (eq_units n s1)" | (p) "d \<in> new_clauses s1"
      by (auto simp: held_def)
    then show "clause_wf n d \<and> fixed roots d \<or> d \<in> units (eq_units n s)"
    proof cases
      case w
      then obtain a b where d: "d = [a, b]" using watched_bins_pair by blast
      then have "pair_kept roots a b" "clause_wf n [a, b]" using w kept pw by (auto simp: wf_pair)
      then show ?thesis unfolding d by (auto simp: fixed_def pair_kept_def)
    next
      case u
      then have "d \<in> units (eq_units n s) \<or> (\<exists>a b. d = [norm_lit roots a] \<and> [a, b] \<in> watched_bins n s)"
        unfolding un units_def by blast
      then show ?thesis using pw fx nb by (auto simp: fixed_def clause_wf_def lits_below_def)
    next
      case p
      then obtain a b where d: "d = [norm_lit roots a, norm_lit roots b]" "[a, b] \<in> watched_bins n s" "pair_new roots a b"
        unfolding nw by blast
      then show ?thesis using pw [OF d(2)] fx nb by (auto simp: fixed_def wf_pair pair_new_def)
    qed
  qed
  show "same_models n roots (held n {} s) (held n {} s1 \<union> new_clauses s1)"
    unfolding same_models_def
  proof (intro allI impI)
    fix m assume a: "agrees n roots m"
    have v: "value_at (norm_lit roots l) m = value_at l m" if "lit_below n l" for l using a that by (simp add: agrees_def)
    have sat: "satisfied_by [norm_lit roots a, norm_lit roots b] m = satisfied_by [a, b] m" if "lit_below n a" "lit_below n b" for a b
      using v that by simp
    show "models m (held n {} s) = models m (held n {} s1 \<union> new_clauses s1)"
    proof
      assume m: "models m (held n {} s)"
      then have mb: "satisfied_by [a, b] m" if "[a, b] \<in> watched_bins n s" for a b
        using that unfolding held_def models_def by blast
      have "satisfied_by d m" if "d \<in> watched_bins n s1" for d
        using that watched_bins_pair [OF that] mb by (auto simp: kept)
      moreover have "satisfied_by d m" if "d \<in> units (eq_units n s1)" for d
      proof -
        from that consider (old) "d \<in> units (eq_units n s)"
          | (new) a b where "d = [norm_lit roots a]" "[a, b] \<in> watched_bins n s" "norm_lit roots a = norm_lit roots b"
          unfolding un units_def by blast
        then show ?thesis
        proof cases
          case old
          then show ?thesis using m unfolding held_def models_def by blast
        next
          case new
          then have "value_at a m = L_true \<or> value_at b m = L_true" using mb by fastforce
          moreover have "value_at a m = value_at (norm_lit roots a) m" "value_at b m = value_at (norm_lit roots a) m"
            using v [of a] v [of b] pw [OF new(2)] new(3) by simp_all
          ultimately show ?thesis using new(1) by simp
        qed
      qed
      moreover have "satisfied_by d m" if "d \<in> new_clauses s1" for d
        using that mb sat pw unfolding nw by auto
      ultimately show "models m (held n {} s1 \<union> new_clauses s1)" by (auto simp: held_def models_def)
    next
      assume m: "models m (held n {} s1 \<union> new_clauses s1)"
      have ms: "satisfied_by d m" if "d \<in> watched_bins n s1 \<or> d \<in> units (eq_units n s1) \<or> d \<in> new_clauses s1" for d
        using m that unfolding held_def models_def by blast
      have "satisfied_by [a, b] m" if ab: "[a, b] \<in> watched_bins n s" for a b
      proof -
        consider (unit) "norm_lit roots a = norm_lit roots b" | (taut) "norm_lit roots a = lit_neg (norm_lit roots b)"
          | (same) "pair_kept roots a b" | (new) "pair_new roots a b"
          by (auto simp: pair_kept_def pair_new_def)
        then show ?thesis
        proof cases
          case unit
          then have "norm_lit roots a \<in> eq_units n s1" unfolding un using ab by blast
          then have "satisfied_by [norm_lit roots a] m" by (intro ms) (simp add: units_def)
          then show ?thesis using v pw [OF ab] by simp
        next
          case taut
          have "norm_lit roots a \<noteq> a \<or> norm_lit roots b \<noteq> b" using taut pw [OF ab] by auto
          then have "value_at b m \<noteq> L_undef" 
          proof
            assume "norm_lit roots a \<noteq> a"
            then have "value_at (norm_lit roots a) m \<noteq> L_undef" using a pw [OF ab] by (simp add: agrees_def)
            then show ?thesis using taut v pw [OF ab] by simp
          qed (use a pw [OF ab] in \<open>simp add: agrees_def\<close>)
          moreover have "value_at a m = lb_not (value_at b m)" using taut v pw [OF ab] by (metis value_at_neg)
          ultimately show ?thesis using value_neg_cases [of b m] by auto
        next
          case same
          then have "[a, b] \<in> watched_bins n s1" using ab kept by simp
          then show ?thesis by (intro ms) simp
        next
          case new
          have ne: "norm_lit roots a \<noteq> norm_lit roots b" using new by (simp add: pair_new_def)
          then consider "lit_index (norm_lit roots a) < lit_index (norm_lit roots b)" | "lit_index (norm_lit roots b) < lit_index (norm_lit roots a)"
            by (metis lit_index_inject linorder_neq_iff)
          then show ?thesis
          proof cases
            case 1
            then have "[norm_lit roots a, norm_lit roots b] \<in> new_clauses s1" unfolding nw using ab new by blast
            then have "satisfied_by [norm_lit roots a, norm_lit roots b] m" by (intro ms) simp
            then show ?thesis using sat pw [OF ab] by simp
          next
            case 2
            have "pair_new roots b a" using new by (auto simp: pair_new_def)
            then have "[norm_lit roots b, norm_lit roots a] \<in> new_clauses s1" unfolding nw using sym [OF ab] 2 by blast
            then have "satisfied_by [norm_lit roots b, norm_lit roots a] m" by (intro ms) simp
            then show ?thesis using v pw [OF ab] by auto
          qed
        qed
      qed
      then have "satisfied_by d m" if "d \<in> watched_bins n s" for d using that watched_bins_pair [OF that] by auto
      moreover have "models m (units (eq_units n s))" using ms unfolding un models_def by auto
      ultimately show "models m (held n {} s)" by (auto simp: held_def models_def)
    qed
  qed
qed

lemma new_bin_reset [simp]: "watched_bins n (s\<lparr>eq_new_bin := b\<rparr>) = watched_bins n s" "eq_inv n (s\<lparr>eq_new_bin := b\<rparr>) = eq_inv n s"
    "held n K (s\<lparr>eq_new_bin := b\<rparr>) = held n K s"
  by (simp_all add: watched_bins_def eq_wlist_def eq_inv_def held_def)

lemma eq_mk_bins_conflict: "eq_mk_bins bs s = Some s' \<Longrightarrow> eq_inconsistent s \<Longrightarrow> eq_inconsistent s'"
proof (induction bs arbitrary: s)
  case (Cons c bs)
  then show ?case using eq_mk_bin_conflict by (cases c) (auto split: bind_splits)
qed simp

lemma eq_mk_bins_spec:
  assumes "eq_inv n s" "eq_mk_bins bs s = Some s'" "\<not> eq_inconsistent s'"
    and "\<forall>(a, b, x) \<in> set bs. clause_wf n [a, b] \<and> fixed roots [a, b]"
  shows "eq_inv n s' \<and> grown n roots (held n K s) (held n K s') \<and>
    (\<forall>m. models m (held n K s') = models m (held n K s \<union> (\<lambda>(a, b, x). [a, b]) ` set bs))"
  using assms(1,2,4)
proof (induction bs arbitrary: s)
  case (Cons c bs)
  obtain a b x where c: "c = (a, b, x)" by (cases c)
  obtain t where t: "eq_mk_bin_clause a b x s = Some t" "eq_mk_bins bs t = Some s'"
    using Cons.prems(2) c by (auto split: bind_splits)
  have nt: "\<not> eq_inconsistent t" using eq_mk_bins_conflict [OF t(2)] assms(3) by blast
  have w: "clause_wf n [a, b]" "fixed roots [a, b]" "\<forall>(a, b, x) \<in> set bs. clause_wf n [a, b] \<and> fixed roots [a, b]"
    using Cons.prems(3) c by auto
  note s = eq_mk_bin_clause_spec [OF Cons.prems(1) w(1) t(1) nt, of K]
    and g = eq_mk_bin_grown [OF Cons.prems(1) w(1) t(1) nt w(2), of K]
  note ih = Cons.IH [OF conjunct1 [OF s] t(2) w(3)]
  show ?case using ih s grown_trans [OF g] by (auto simp: c)
qed simp

lemma same_models_trans: "same_models n roots F G \<Longrightarrow> same_models n roots G H \<Longrightarrow> same_models n roots F H"
  by (simp add: same_models_def)

lemma cleanup_bin_watches_spec:
  assumes inv: "eq_inv n s" and r: "roots_ok n roots" "below_null n" "idempotent n roots"
    and u: "\<forall>l \<in> eq_units n s. norm_lit roots l = l"
    and e: "cleanup_bin_watches roots s = Some s'" "\<not> eq_inconsistent s'"
  shows "eq_inv n s'" "\<forall>d \<in> held n {} s'. clause_wf n d \<and> fixed roots d"
    "same_models n roots (held n {} s) (held n {} s')"
proof -
  define s1 where "s1 = cleanup_bin_lists roots 0 (length (eq_watches s)) (s\<lparr>eq_new_bin := []\<rparr>)"
  have c: "\<not> eq_inconsistent s1" using e by (auto simp: cleanup_bin_watches_def s1_def Let_def split: if_splits)
  obtain t where t: "eq_mk_bins (eq_new_bin s1) s1 = Some t" "s' = t\<lparr>eq_new_bin := []\<rparr>"
    using e(1) c by (auto simp: cleanup_bin_watches_def s1_def Let_def)
  note q = cleanup_bin_lists_models [OF inv r s1_def c]
  have uf: "clause_wf n d \<and> fixed roots d" if "d \<in> units (eq_units n s)" for d
    using that u by (auto simp: units_def fixed_def clause_wf_def lits_below_def eq_units_def)
  then have f1: "\<forall>d \<in> held n {} s1 \<union> new_clauses s1. clause_wf n d \<and> fixed roots d" using q(2) by blast
  have nc: "new_clauses s1 = (\<lambda>(a, b, x). [a, b]) ` set (eq_new_bin s1)"
    by (force simp: new_clauses_def new_pairs_def)
  have "\<forall>(a, b, x) \<in> set (eq_new_bin s1). clause_wf n [a, b] \<and> fixed roots [a, b]"
  proof clarify
    fix a b x assume "(a, b, x) \<in> set (eq_new_bin s1)"
    then have "(\<lambda>(a, b, x). [a, b]) (a, b, x) \<in> new_clauses s1" unfolding nc by (rule imageI)
    then show "clause_wf n [a, b] \<and> fixed roots [a, b]" using f1 by simp
  qed
  moreover have "\<not> eq_inconsistent t" using e(2) t(2) by simp
  ultimately have m: "eq_inv n t \<and> grown n roots (held n {} s1) (held n {} t) \<and>
    (\<forall>m. models m (held n {} t) = models m (held n {} s1 \<union> new_clauses s1))"
    unfolding nc by (intro eq_mk_bins_spec [OF q(1) t(1)])
  show "eq_inv n s'" using m t(2) by simp
  show "\<forall>d \<in> held n {} s'. clause_wf n d \<and> fixed roots d" using m f1 t(2) by (auto simp: grown_def)
  show "same_models n roots (held n {} s) (held n {} s')" using m q(3) t(2) by (simp add: same_models_def)
qed

section \<open>Definitions\<close>

definition def_of :: "literal list \<Rightarrow> bool_var \<Rightarrow> clause list" where
  "def_of roots v = (let l = mk_literal v False; r = roots ! unat v in [[lit_neg l, r], [l, lit_neg r]])"

definition defs_of :: "literal list \<Rightarrow> bool_var set \<Rightarrow> clause set" where
  "defs_of roots V = (\<Union>v \<in> V. set (def_of roots v))"

text \<open>
  What the analysis of the implication graph gives: every literal has a root of a variable that stays, and the
  variables that go are listed once.
\<close>

definition classes_ok :: "nat \<Rightarrow> literal list \<Rightarrow> bool_var list \<Rightarrow> bool" where
  "classes_ok n roots to_elim \<longleftrightarrow> roots_ok n roots \<and> distinct to_elim \<and>
     (\<forall>v \<in> set to_elim. unat v < n \<and> lit_var (roots ! unat v) \<notin> set to_elim) \<and>
     (\<forall>l. lit_below n l \<and> lit_var l \<notin> set to_elim \<longrightarrow> norm_lit roots l = l)"

lemma lit_var_norm: "lit_var (norm_lit roots l) = lit_var (roots ! unat (lit_var l))"
  by (simp add: norm_lit_def)

lemma classes_idempotent:
  assumes "classes_ok n roots to_elim"
  shows "idempotent n roots"
  unfolding idempotent_def
proof (intro allI impI)
  fix l assume l: "lit_below n l"
  then have b: "lit_below n (norm_lit roots l)" using assms norm_below by (simp add: classes_ok_def)
  show "norm_lit roots (norm_lit roots l) = norm_lit roots l"
  proof (cases "lit_var l \<in> set to_elim")
    case True
    then have "lit_var (norm_lit roots l) \<notin> set to_elim" using assms by (simp add: classes_ok_def lit_var_norm)
    then show ?thesis using assms b by (simp add: classes_ok_def)
  qed (use assms l in \<open>simp add: classes_ok_def\<close>)
qed

lemma fixed_vars: "classes_ok n roots to_elim \<Longrightarrow> fixed roots d \<Longrightarrow> vars d \<inter> set to_elim = {}"
proof (rule ccontr)
  assume c: "classes_ok n roots to_elim" "fixed roots d" "vars d \<inter> set to_elim \<noteq> {}"
  then obtain l where l: "l \<in> set d" "lit_var l \<in> set to_elim" by (auto simp: vars_def)
  then have "lit_var (norm_lit roots l) \<notin> set to_elim" using c(1) by (simp add: classes_ok_def lit_var_norm)
  then show False using l c(2) by (simp add: fixed_def)
qed

lemma norm_pos:
  assumes "unat v < n" "below_null n"
  shows "norm_lit roots (mk_literal v False) = roots ! unat v"
  using mk_literal_parts [of v] var_not_null [OF assms] by (simp add: norm_lit_def)

text \<open>The definitions give every literal the value of its root.\<close>

lemma def_of_sat:
  "models m (set (def_of roots v)) \<Longrightarrow>
     value_at (mk_literal v False) m = value_at (roots ! unat v) m \<and> value_at (mk_literal v False) m \<noteq> L_undef"
  by (cases "value_at (mk_literal v False) m"; cases "value_at (roots ! unat v) m") (auto simp: def_of_def Let_def)

lemma sat_def_of:
  "value_at (mk_literal v False) m = value_at (roots ! unat v) m \<Longrightarrow> value_at (mk_literal v False) m \<noteq> L_undef \<Longrightarrow>
     models m (set (def_of roots v))"
  by (cases "value_at (mk_literal v False) m") (auto simp: def_of_def Let_def)

lemma defs_agree:
  assumes c: "classes_ok n roots to_elim" "below_null n"
  shows "agrees n roots m \<longleftrightarrow> models m (defs_of roots (set to_elim))"
proof
  assume a: "agrees n roots m"
  have "models m (set (def_of roots v))" if v: "v \<in> set to_elim" for v
  proof -
    have b: "unat v < n" "lit_var (roots ! unat v) \<notin> set to_elim" using c(1) v by (auto simp: classes_ok_def)
    note n = norm_pos [OF b(1) c(2), of roots] and lv = literals_of_var [OF b(1) c(2)]
    have "lit_var (mk_literal v False) = v" using lv(1) by blast
    then have "norm_lit roots (mk_literal v False) \<noteq> mk_literal v False" using b(2) v n by auto
    then show ?thesis using a lv(3) [of False] n by (intro sat_def_of) (auto simp: agrees_def)
  qed
  then show "models m (defs_of roots (set to_elim))" by (auto simp: defs_of_def models_def)
next
  assume m: "models m (defs_of roots (set to_elim))"
  show "agrees n roots m"
    unfolding agrees_def
  proof (intro allI impI)
    fix l assume l: "lit_below n l"
    show "value_at (norm_lit roots l) m = value_at l m \<and> (norm_lit roots l \<noteq> l \<longrightarrow> value_at l m \<noteq> L_undef)"
    proof (cases "lit_var l \<in> set to_elim")
      case True
      let ?v = "lit_var l"
      have b: "unat ?v < n" using l by (simp add: lit_below_def)
      have "models m (set (def_of roots ?v))" using m True by (auto simp: defs_of_def models_def)
      note d = def_of_sat [OF this]
      have "l = mk_literal ?v False \<or> l = mk_literal ?v True" using literals_of_var(1) [OF b c(2), of l] by blast
      then show ?thesis
      proof
        assume p: "l = mk_literal ?v False"
        then have "norm_lit roots l = roots ! unat ?v" using norm_pos [OF b c(2)] by metis
        moreover have "value_at l m = value_at (roots ! unat ?v) m" "value_at l m \<noteq> L_undef" using d p by auto
        ultimately show ?thesis by simp
      next
        assume q: "l = mk_literal ?v True"
        then have lq: "l = lit_neg (mk_literal ?v False)" using literals_of_var(2) [OF b c(2)] by metis
        then have "norm_lit roots l = lit_neg (roots ! unat ?v)" using norm_pos [OF b c(2)] norm_neg by metis
        moreover have "value_at l m = lb_not (value_at (roots ! unat ?v) m)" "value_at l m \<noteq> L_undef"
          using d value_at_neg lb_not(3) lq by metis+
        ultimately show ?thesis by simp
      qed
    next
      case False
      then have "norm_lit roots l = l" using c(1) l by (simp add: classes_ok_def)
      then show ?thesis by simp
    qed
  qed
qed

end
