(* ===== verification/SatCleaner.thy ===== *)
theory SatCleaner
  imports SatEqStep
begin

text \<open>
  Model of sat/sat_cleaner.cpp: once literals are assigned at the base level, their watch lists go, satisfied
  clauses go, and false literals are taken out of the others. One pass; the propagation between passes belongs to
  the search. The lemmas show that a pass has the same models.
\<close>

section \<open>Model\<close>

definition clean_watch_list :: "(literal \<Rightarrow> lbool) \<Rightarrow> literal \<Rightarrow> watched list \<Rightarrow> watched list" where
  "clean_watch_list val l ws =
     (if val l \<noteq> L_undef then []
      else filter (\<lambda>w. case w_kind w of BINARY \<Rightarrow> val (w_literal w) = L_undef | TERNARY \<Rightarrow> False | CLAUSE \<Rightarrow> False
                       | EXT_CONSTRAINT \<Rightarrow> True) ws)"

definition clean_watches :: "eq_state \<Rightarrow> eq_state" where
  "clean_watches s = s\<lparr>eq_watches :=
     map (\<lambda>(l_idx, ws). clean_watch_list (eq_value s) (Literal (of_nat l_idx)) ws) (enumerate 0 (eq_watches s))\<rparr>"

text \<open>
  The clauses of a vector. The loop over the literals is the one of the simplifier, which stops at a true literal;
  a conflict does not end the loop over the clauses.
\<close>

primrec clean_clauses :: "(clause \<times> bool) list \<Rightarrow> (clause \<times> bool) list \<Rightarrow> eq_state \<Rightarrow> ((clause \<times> bool) list \<times> eq_state) option" where
  "clean_clauses [] kept s = Some (kept, s)"
| "clean_clauses (cl # cs) kept s =
     (case cl of (c, learned) \<Rightarrow>
      (case cleanup_lits (eq_value s) c of (sat, ls) \<Rightarrow>
        if sat then clean_clauses cs kept s
        else (case ls of
           [] \<Rightarrow> clean_clauses cs kept (s\<lparr>eq_inconsistent := True\<rparr>)
         | [l] \<Rightarrow> clean_clauses cs kept (eq_assign_unit l s)
         | [l1, l2] \<Rightarrow> Option.bind (eq_mk_bin_clause l1 l2 learned s) (clean_clauses cs kept)
         | _ \<Rightarrow> clean_clauses cs (kept @ [(ls, learned)]) s)))"

definition clean_pass ::
  "(clause \<times> bool) list \<Rightarrow> (clause \<times> bool) list \<Rightarrow> eq_state \<Rightarrow> ((clause \<times> bool) list \<times> (clause \<times> bool) list \<times> eq_state) option" where
  "clean_pass clauses learned s = do {
     (clauses, s) \<leftarrow> clean_clauses clauses [] (clean_watches s);
     (learned, s) \<leftarrow> clean_clauses learned [] s;
     Some (clauses, learned, s) }"

section \<open>Watch lists\<close>

text \<open>Propagation has reached every binary clause.\<close>

definition propagated :: "nat \<Rightarrow> eq_state \<Rightarrow> bool" where
  "propagated n s \<longleftrightarrow> (\<forall>a b. [a, b] \<in> watched_bins n s \<longrightarrow> eq_value s a = L_false \<longrightarrow> eq_value s b = L_true)"

lemma clean_watches_bins:
  assumes "eq_inv n s" "below_null n"
  shows "[a, b] \<in> watched_bins n (clean_watches s) \<longleftrightarrow>
    [a, b] \<in> watched_bins n s \<and> eq_value s a = L_undef \<and> eq_value s b = L_undef"
proof (cases "lit_below n a")
  case True
  let ?i = "idx (lit_neg a)"
  have i: "?i < length (eq_watches s)" using assms(1) lit_below_idx [of n "lit_neg a"] True by (simp add: eq_inv_def)
  have l: "Literal (of_nat ?i) = lit_neg a" by (cases "lit_neg a") simp
  have v: "eq_value s (lit_neg a) = lb_not (eq_value s a)" using assms(1) True by (simp add: eq_inv_def eq_ok_def)
  have "eq_watches (clean_watches s) ! ?i = clean_watch_list (eq_value s) (lit_neg a) (eq_watches s ! ?i)"
    using i l by (simp add: clean_watches_def nth_enumerate_eq)
  then show ?thesis
    using True v by (auto simp: watched_bins_elem clean_watch_list_def is_binary_clause_def)
qed (simp add: watched_bins_elem)

lemma clean_watches_fields [simp]:
  "eq_ok n (clean_watches s) = eq_ok n s" "eq_units n (clean_watches s) = eq_units n s"
  "length (eq_watches (clean_watches s)) = length (eq_watches s)" "eq_inconsistent (clean_watches s) = eq_inconsistent s"
  by (simp_all add: clean_watches_def)

lemma clean_watches_spec:
  assumes inv: "eq_inv n s" "below_null n" "propagated n s"
  shows "eq_inv n (clean_watches s)" "held n K (clean_watches s) \<subseteq> held n K s"
    "models m (held n K (clean_watches s)) = models m (held n K s)"
proof -
  let ?t = "clean_watches s"
  note b = clean_watches_bins [OF inv(1,2)]
  have sub: "watched_bins n ?t \<subseteq> watched_bins n s"
  proof
    fix d assume d: "d \<in> watched_bins n ?t"
    then obtain a c where "d = [a, c]" using watched_bins_pair by blast
    then show "d \<in> watched_bins n s" using b d by blast
  qed
  then show h: "held n K ?t \<subseteq> held n K s" by (auto simp: held_def)
  have sym: "[c, a] \<in> watched_bins n ?t" if "[a, c] \<in> watched_bins n ?t" for a c
    using that b inv(1) by (auto simp: eq_inv_def)
  show "eq_inv n ?t" using inv(1) sub sym by (auto simp: eq_inv_def)
  have "satisfied_by d m" if m: "models m (held n K ?t)" and d: "d \<in> watched_bins n s" for d
  proof -
    obtain a c where ac: "d = [a, c]" using d watched_bins_pair by blast
    have bl: "lit_below n a" "lit_below n c" using inv(1) d ac wf_pair by (auto simp: eq_inv_def)
    have u: "models m (units (eq_units n s))" using m by (auto simp: held_def)
    have sym: "[c, a] \<in> watched_bins n s" using inv(1) d ac by (auto simp: eq_inv_def)
    consider "eq_value s a = L_undef \<and> eq_value s c = L_undef" | "eq_value s a = L_true \<or> eq_value s c = L_true"
      using inv(3) d ac sym unfolding propagated_def by (metis lbool.exhaust)
    then show ?thesis
    proof cases
      case 1
      then have "d \<in> watched_bins n ?t" using b d ac by blast
      then show ?thesis using m by (simp add: held_def models_def)
    next
      case 2
      then show ?thesis using units_true [OF u] bl ac by auto
    qed
  qed
  then have "models m (held n K s)" if "models m (held n K ?t)" using that by (auto simp: held_def models_def)
  then show "models m (held n K ?t) = models m (held n K s)" using models_subset h by blast
qed

section \<open>Clauses\<close>

lemma clean_clauses_conflict:
  "clean_clauses cs kept s = Some (kept', s') \<Longrightarrow> eq_inconsistent s \<Longrightarrow> eq_inconsistent s'"
proof (induction cs arbitrary: kept s)
  case (Cons cl cs)
  have "eq_inconsistent (eq_assign_unit l s)" for l
    using Cons.prems(2) by (simp add: eq_assign_unit_def split: lbool.split)
  then show ?case
    using Cons eq_mk_bin_conflict by (auto split: prod.splits if_splits list.splits bind_splits)
qed simp

text \<open>What is left of a clause, given the assigned literals.\<close>

lemma rest_of_clause:
  assumes "cleanup_lits (eq_value s) c = (sat, ls)" "clause_wf n c" "eq_ok n s"
  shows "sat \<Longrightarrow> models m (units (eq_units n s)) \<Longrightarrow> satisfied_by c m"
    "\<not> sat \<Longrightarrow> models m (units (eq_units n s)) \<Longrightarrow> satisfied_by ls m = satisfied_by c m"
    "\<not> sat \<Longrightarrow> clause_wf n ls" "\<not> sat \<Longrightarrow> set ls \<subseteq> set c"
proof -
  have b: "lit_below n l" if "l \<in> set c" for l using that assms(2) by (auto simp: clause_wf_def lits_below_def)
  show "satisfied_by c m" if "sat" "models m (units (eq_units n s))"
  proof -
    obtain l where "l \<in> set c" "eq_value s l = L_true"
      using cleanup_lits_eq [of c "eq_value s"] assms(1) \<open>sat\<close> by (auto split: if_splits)
    then show ?thesis using units_true [OF \<open>models m (units (eq_units n s))\<close>] b by (auto simp: satisfied_by_def)
  qed
  assume ns: "\<not> sat"
  then have ls: "ls = filter (\<lambda>l. eq_value s l = L_undef) c" and nt: "\<forall>l \<in> set c. eq_value s l \<noteq> L_true"
    using cleanup_lits_eq [of c "eq_value s"] assms(1) by (auto split: if_splits)
  show "set ls \<subseteq> set c" "clause_wf n ls" using assms(2) unfolding ls by (auto simp: clause_wf_def lits_below_def)
  assume u: "models m (units (eq_units n s))"
  have "l \<in> set ls" if "l \<in> set c" "value_at l m = L_true" for l
  proof -
    have "eq_value s l \<noteq> L_false" using units_false [OF assms(3) u b [OF that(1)]] that(2) by auto
    then show ?thesis using that(1) nt unfolding ls by (cases "eq_value s l") auto
  qed
  then show "satisfied_by ls m = satisfied_by c m" unfolding ls by (auto simp: satisfied_by_def)
qed

definition rest_step :: "literal list \<Rightarrow> bool \<Rightarrow> (clause \<times> bool) list \<Rightarrow> eq_state \<Rightarrow> ((clause \<times> bool) list \<times> eq_state) option" where
  "rest_step ls b kept s =
     (case ls of [] \<Rightarrow> Some (kept, s\<lparr>eq_inconsistent := True\<rparr>) | [l] \<Rightarrow> Some (kept, eq_assign_unit l s)
      | [l1, l2] \<Rightarrow> map_option (Pair kept) (eq_mk_bin_clause l1 l2 b s) | _ \<Rightarrow> Some (kept @ [(ls, b)], s))"

lemma clean_clauses_step:
  assumes "cleanup_lits (eq_value s) c = (False, ls)"
  shows "clean_clauses ((c, b) # cs) kept s = Option.bind (rest_step ls b kept s) (\<lambda>(k, t). clean_clauses cs k t)"
  using assms by (auto simp: rest_step_def split: list.split bind_splits)

lemma rest_step_held:
  assumes inv: "eq_inv n s" and w: "clause_wf n ls" and st: "rest_step ls b kept s = Some (k, t)" "\<not> eq_inconsistent t"
  shows "eq_inv n t \<and> (\<forall>d \<in> held n (fst ` set k) t. d \<in> held n (fst ` set kept) s \<or> clause_wf n d) \<and>
    (\<forall>m. models m (held n (fst ` set k) t) = models m (insert ls (held n (fst ` set kept) s)))"
proof -
  consider (none) "ls = []" | (one) l where "ls = [l]" | (two) l1 l2 where "ls = [l1, l2]" | (more) x y z zs where "ls = x # y # z # zs"
    by (metis neq_Nil_conv)
  then show ?thesis
  proof cases
    case none
    then show ?thesis using st by (auto simp: rest_step_def)
  next
    case one
    then have t: "t = eq_assign_unit l s" "k = kept" using st by (auto simp: rest_step_def)
    have l: "lit_below n l" using w one by (simp add: clause_wf_def lits_below_def)
    note a = assign_unit_inv [OF inv l, folded t(1), OF st(2)]
    then show ?thesis using t(2) w one by auto
  next
    case two
    then have t: "eq_mk_bin_clause l1 l2 b s = Some t" "k = kept" using st by (auto simp: rest_step_def)
    note a = eq_mk_bin_clause_spec [OF inv w [unfolded two] t(1) st(2), of "fst ` set kept"]
    have "clause_wf n d" if "d \<in> {[l1], [l2], [l1, l2], [l2, l1]}" for d
      using that w two by (auto simp: clause_wf_def lits_below_def)
    then show ?thesis using a t(2) two by blast
  next
    case more
    then have t: "t = s" "k = kept @ [(ls, b)]" using st by (auto simp: rest_step_def)
    then show ?thesis using inv w by (auto simp: held_def)
  qed
qed

lemma clean_clauses_spec:
  assumes "eq_inv n s" "\<forall>cl \<in> set cs. clause_wf n (fst cl)" "clean_clauses cs kept s = Some (kept', s')" "\<not> eq_inconsistent s'"
  shows "eq_inv n s' \<and> (\<forall>d \<in> held n (fst ` set kept') s'. d \<in> held n (fst ` set kept) s \<or> clause_wf n d) \<and>
    (\<forall>m. models m (held n (fst ` set kept') s') = models m (held n (fst ` set kept) s \<union> fst ` set cs))"
  using assms(1-3)
proof (induction cs arbitrary: kept s)
  case (Cons cl cs)
  obtain c b where cl: "cl = (c, b)" by (cases cl)
  have c: "clause_wf n c" "\<forall>cl \<in> set cs. clause_wf n (fst cl)" using Cons.prems(2) cl by auto
  obtain sat ls where e: "cleanup_lits (eq_value s) c = (sat, ls)" by (metis prod.exhaust)
  have ok: "eq_ok n s" using Cons.prems(1) by (simp add: eq_inv_def)
  note r = rest_of_clause [OF e c(1) ok]
  have u: "models m (units (eq_units n s))" if "models m (held n (fst ` set kept) s)" for m using that by (auto simp: held_def)
  show ?case
  proof (cases sat)
    case True
    then have rec: "clean_clauses cs kept s = Some (kept', s')" using Cons.prems(3) cl e by simp
    have "models m (held n (fst ` set kept) s \<union> fst ` set (cl # cs)) = models m (held n (fst ` set kept) s \<union> fst ` set cs)" for m
      using r(1) [OF True u] cl by auto
    then show ?thesis using Cons.IH [OF Cons.prems(1) c(2) rec] by simp
  next
    case False
    obtain k t where st: "rest_step ls b kept s = Some (k, t)" and rec: "clean_clauses cs k t = Some (kept', s')"
      using Cons.prems(3) clean_clauses_step [of s c ls b cs kept] e False cl by (auto split: bind_splits)
    have nt: "\<not> eq_inconsistent t" using clean_clauses_conflict [OF rec] assms(4) by blast
    note h = rest_step_held [OF Cons.prems(1) r(3) [OF False] st nt]
    note ih = Cons.IH [OF conjunct1 [OF h] c(2) rec]
    have "models m (held n (fst ` set kept) s \<union> fst ` set (cl # cs)) = models m (insert ls (held n (fst ` set kept) s) \<union> fst ` set cs)" for m
      using r(2) [OF False u] cl by auto
    then show ?thesis using ih h by auto
  qed
qed simp

end
