(* ===== verification/SatScc.thy ===== *)
theory SatScc
  imports SatEqStep
begin

text \<open>
  Model of sat/sat_scc.cpp: the strongly connected components of the graph of binary clauses by Tarjan's algorithm,
  with an explicit stack of frames in place of recursion, and the roots of the literals that it finds. The indices of
  literals are the literals; the back of the vectors \<open>s\<close> and \<open>frames\<close> is the head of the list.
\<close>

section \<open>State\<close>

text \<open>A frame has the literal, whether it is new, and the rest of its watch list.\<close>

record scc_frame =
  fr_lit :: literal
  fr_first :: bool
  fr_it :: "watched list"

record scc_state =
  sc_index :: "u32 list"
  sc_lowlink :: "u32 list"
  sc_s :: "literal list"
  sc_in_s :: "bool list"
  sc_roots :: "literal list"
  sc_next :: u32
  sc_frames :: "scc_frame list"
  sc_to_elim :: "bool_var list"

text \<open>The solver: watch lists, eliminated and external variables.\<close>

record scc_solver =
  so_watches :: "watched list list"
  so_eliminated :: "bool list"
  so_external :: "bool_var \<Rightarrow> bool"

definition scc_init :: "nat \<Rightarrow> scc_state" where
  "scc_init num_vars = \<lparr>sc_index = replicate (2 * num_vars) (- 1), sc_lowlink = replicate (2 * num_vars) (- 1), sc_s = [],
     sc_in_s = replicate (2 * num_vars) False, sc_roots = replicate num_vars null_literal, sc_next = 0, sc_frames = [],
     sc_to_elim = []\<rparr>"

definition new_node :: "scc_solver \<Rightarrow> literal \<Rightarrow> scc_state \<Rightarrow> scc_state" where
  "new_node so l st =
     (let i = unat (lit_index l)
      in st\<lparr>sc_index := (sc_index st)[i := sc_next st], sc_lowlink := (sc_lowlink st)[i := sc_next st],
            sc_next := sc_next st + 1, sc_s := l # sc_s st, sc_in_s := (sc_in_s st)[i := True],
            sc_frames := \<lparr>fr_lit = l, fr_first = True, fr_it = so_watches so ! i\<rparr> # sc_frames st\<rparr>)"

section \<open>Successors\<close>

definition lower_to :: "literal \<Rightarrow> u32 \<Rightarrow> u32 list \<Rightarrow> u32 list" where
  "lower_to l x low = (if x < low ! unat (lit_index l) then low[unat (lit_index l) := x] else low)"

text \<open>After visiting a child: its link is taken over, and the iterator moves on.\<close>

definition after_child :: "scc_frame \<Rightarrow> u32 list \<Rightarrow> watched list \<times> u32 list" where
  "after_child fr low =
     (if fr_first fr then (fr_it fr, low)
      else (tl (fr_it fr), lower_to (fr_lit fr) (low ! unat (lit_index (w_literal (hd (fr_it fr))))) low))"

text \<open>The loop over the successors stops at one that has not been visited.\<close>

primrec scan_successors :: "u32 list \<Rightarrow> bool list \<Rightarrow> literal \<Rightarrow> watched list \<Rightarrow> u32 list \<Rightarrow> watched list \<times> u32 list" where
  "scan_successors index in_s l [] low = ([], low)"
| "scan_successors index in_s l (w # ws) low =
     (if \<not> is_binary_clause w then scan_successors index in_s l ws low
      else let i = unat (lit_index (w_literal w))
        in if index ! i = - 1 then (w # ws, low)
           else scan_successors index in_s l ws (if in_s ! i then lower_to l (index ! i) low else low))"

section \<open>A component\<close>

text \<open>The component is on the stack, down to the literal \<open>l\<close>.\<close>

primrec consume_stack :: "literal \<Rightarrow> literal list \<Rightarrow> bool list \<Rightarrow> literal list \<times> bool list" where
  "consume_stack l [] in_s = ([], in_s)"
| "consume_stack l (x # s) in_s =
     (let in_s = in_s[unat (lit_index x) := False] in if x = l then (s, in_s) else consume_stack l s in_s)"

text \<open>Its root, the first external literal or else \<open>l\<close>; \<open>None\<close> is a conflict.\<close>

primrec choose_root :: "(bool_var \<Rightarrow> bool) \<Rightarrow> literal \<Rightarrow> literal list \<Rightarrow> literal option" where
  "choose_root external l [] = Some l"
| "choose_root external l (x # s) =
     (if x = lit_neg l then None else if external (lit_var x) then Some x else if x = l then Some l
      else choose_root external l s)"

definition assign_root :: "literal \<Rightarrow> literal \<Rightarrow> literal list \<times> bool_var list \<Rightarrow> literal list \<times> bool_var list" where
  "assign_root r x = (\<lambda>(roots, to_elim).
     let v = lit_var x
     in if roots ! unat v = null_literal
        then (roots[unat v := (if lit_sign x then lit_neg r else r)], if v \<noteq> lit_var r then to_elim @ [v] else to_elim)
        else (roots, to_elim))"

primrec assign_roots ::
  "literal \<Rightarrow> literal \<Rightarrow> literal list \<Rightarrow> bool list \<Rightarrow> literal list \<times> bool_var list
     \<Rightarrow> literal list \<times> bool list \<times> literal list \<times> bool_var list" where
  "assign_roots r l [] in_s rt = ([], in_s, rt)"
| "assign_roots r l (x # s) in_s rt =
     (let in_s = in_s[unat (lit_index x) := False];
          rt = assign_root r x rt
      in if x = l then (s, in_s, rt) else assign_roots r l s in_s rt)"

definition new_component :: "(bool_var \<Rightarrow> bool) \<Rightarrow> literal \<Rightarrow> scc_state \<Rightarrow> scc_state option" where
  "new_component external l st =
     (if sc_roots st ! unat (lit_var l) \<noteq> null_literal then
        (case consume_stack l (sc_s st) (sc_in_s st) of (s, in_s) \<Rightarrow> Some (st\<lparr>sc_s := s, sc_in_s := in_s\<rparr>))
      else (case choose_root external l (sc_s st) of
         None \<Rightarrow> None
       | Some r \<Rightarrow>
          (case assign_roots r l (sc_s st) (sc_in_s st) (sc_roots st, sc_to_elim st) of
             (s, in_s, roots, to_elim) \<Rightarrow>
               Some (st\<lparr>sc_s := s, sc_in_s := in_s, sc_roots := roots, sc_to_elim := to_elim\<rparr>))))"

section \<open>The search\<close>

text \<open>One pass of the loop over the frames; \<open>None\<close> is a conflict.\<close>

definition scc_step :: "scc_solver \<Rightarrow> scc_frame \<Rightarrow> scc_frame list \<Rightarrow> scc_state \<Rightarrow> scc_state option" where
  "scc_step so fr frs st =
     (let l = fr_lit fr;
          (it, low) = after_child fr (sc_lowlink st);
          (it, low) = scan_successors (sc_index st) (sc_in_s st) l it low;
          st = st\<lparr>sc_lowlink := low\<rparr>
      in case it of
           w # ws \<Rightarrow> Some (new_node so (w_literal w) (st\<lparr>sc_frames := fr\<lparr>fr_first := False, fr_it := it\<rparr> # frs\<rparr>))
         | [] \<Rightarrow>
            map_option (sc_frames_update (\<lambda>_. frs))
              (if low ! unat (lit_index l) = sc_index st ! unat (lit_index l) then new_component (so_external so) l st
               else Some st))"

text \<open>The loops: the outer option is that they end, the inner one that there is no conflict.\<close>

partial_function (option) scc_loop :: "scc_solver \<Rightarrow> scc_state \<Rightarrow> scc_state option option" where
  "scc_loop so st =
     (case sc_frames st of
        [] \<Rightarrow> Some (Some st)
      | fr # frs \<Rightarrow> (case scc_step so fr frs st of None \<Rightarrow> Some None | Some st \<Rightarrow> scc_loop so st))"

declare scc_loop.simps [code]

primrec scc_search :: "scc_solver \<Rightarrow> nat list \<Rightarrow> scc_state \<Rightarrow> scc_state option option" where
  "scc_search so [] st = Some (Some st)"
| "scc_search so (i # is) st =
     (let l = Literal (of_nat i)
      in if sc_index st ! i \<noteq> - 1 \<or> so_eliminated so ! unat (lit_var l) then scc_search so is st
         else Option.bind (scc_loop so (new_node so l st)) (\<lambda>r. case r of None \<Rightarrow> Some None | Some st \<Rightarrow> scc_search so is st))"

text \<open>The literals without a root are their own.\<close>

definition own_roots :: "literal list \<Rightarrow> literal list" where
  "own_roots roots = map (\<lambda>(v, r). if r = null_literal then mk_literal (of_nat v) False else r) (enumerate 0 roots)"

definition scc_roots :: "scc_solver \<Rightarrow> nat \<Rightarrow> (literal list \<times> bool_var list) option option" where
  "scc_roots so num_vars =
     map_option (map_option (\<lambda>st. (own_roots (sc_roots st), sc_to_elim st)))
       (scc_search so [0..<2 * num_vars] (scc_init num_vars))"

end
