(* ===== verification/SatSccGraph.thy ===== *)
theory SatSccGraph
  imports Prelude
begin

text \<open>
  Tarjan's algorithm on a graph: what holds of indices, links, the stack, the finished nodes and the frames after every
  move of the search, and that the nodes above a node that is its own link are a component.
\<close>

text \<open>A frame: its node, the child that is being visited, and the successors that are not done.\<close>

type_synonym 'a gframe = "'a \<times> 'a option \<times> 'a set"

definition eff :: "('a \<Rightarrow> nat) \<Rightarrow> 'a gframe \<Rightarrow> nat" where
  "eff L f = (case f of (l, p, T) \<Rightarrow> (case p of None \<Rightarrow> L l | Some c \<Rightarrow> min (L l) (L c)))"

definition handled :: "('a \<times> 'a) set \<Rightarrow> 'a gframe list \<Rightarrow> ('a \<times> 'a) set" where
  "handled E F = {(x, y) \<in> E. \<forall>f \<in> set F. fst f = x \<longrightarrow> y \<notin> snd (snd f)}"

definition ordered :: "('a \<Rightarrow> nat) \<Rightarrow> 'a list \<Rightarrow> bool" where
  "ordered I xs = sorted_wrt (\<lambda>a b. I b < I a) xs"

text \<open>Successors are visited; those of finished nodes are finished.\<close>

definition visit_inv :: "('a \<times> 'a) set \<Rightarrow> 'a set \<Rightarrow> 'a set \<Rightarrow> 'a gframe list \<Rightarrow> bool" where
  "visit_inv E S B F \<longleftrightarrow> S \<inter> B = {} \<and> E `` B \<subseteq> B \<and> (\<forall>(x, y) \<in> handled E F. x \<in> S \<longrightarrow> y \<in> S \<union> B) \<and>
     (\<forall>f \<in> set F. snd (snd f) \<subseteq> E `` {fst f} \<and> fst f \<in> S)"

text \<open>Links are indices of nodes that can be reached; every edge that leads down is known to a frame between its ends.\<close>

definition link_inv :: "('a \<times> 'a) set \<Rightarrow> ('a \<Rightarrow> nat) \<Rightarrow> ('a \<Rightarrow> nat) \<Rightarrow> 'a set \<Rightarrow> 'a gframe list \<Rightarrow> bool" where
  "link_inv E I L S F \<longleftrightarrow>
     (\<forall>x \<in> S. L x \<le> I x \<and> (\<exists>y \<in> S. I y = L x \<and> (x, y) \<in> E\<^sup>*)) \<and>
     (\<forall>x \<in> S. x \<notin> fst ` set F \<longrightarrow> (\<exists>y \<in> S. I y < I x \<and> (x, y) \<in> E\<^sup>*)) \<and>
     (\<forall>x \<in> S. \<forall>f \<in> set F. I (fst f) \<le> I x \<longrightarrow> (fst f, x) \<in> E\<^sup>*)"

definition down_inv :: "('a \<times> 'a) set \<Rightarrow> ('a \<Rightarrow> nat) \<Rightarrow> ('a \<Rightarrow> nat) \<Rightarrow> 'a set \<Rightarrow> 'a gframe list \<Rightarrow> bool" where
  "down_inv E I L S F \<longleftrightarrow>
     (\<forall>(x, y) \<in> handled E F. x \<in> S \<longrightarrow> y \<in> S \<longrightarrow>
       (\<forall>f \<in> set F. I y < I (fst f) \<longrightarrow> I (fst f) \<le> I x \<longrightarrow>
         (\<exists>g \<in> set F. I (fst f) \<le> I (fst g) \<and> I (fst g) \<le> I x \<and> eff L g \<le> I y)))"

text \<open>The child of a frame is the frame above it, or has been left.\<close>

fun chain :: "'a gframe list \<Rightarrow> bool" where
  "chain (f # g # F) \<longleftrightarrow> fst (snd g) = Some (fst f) \<and> chain (g # F)"
| "chain F \<longleftrightarrow> True"

definition child_inv :: "('a \<Rightarrow> nat) \<Rightarrow> ('a \<Rightarrow> nat) \<Rightarrow> 'a set \<Rightarrow> 'a set \<Rightarrow> 'a gframe list \<Rightarrow> bool" where
  "child_inv I L S B F \<longleftrightarrow> chain F \<and>
     (\<forall>f \<in> set F. \<forall>c. fst (snd f) = Some c \<longrightarrow> c \<in> snd (snd f) \<and> (c \<in> S \<and> I (fst f) < I c \<or> c \<in> B \<and> I (fst f) \<le> L c))"

definition tarjan :: "('a \<times> 'a) set \<Rightarrow> ('a \<Rightarrow> nat) \<Rightarrow> ('a \<Rightarrow> nat) \<Rightarrow> 'a list \<Rightarrow> 'a set \<Rightarrow> 'a gframe list \<Rightarrow> bool" where
  "tarjan E I L S B F \<longleftrightarrow> ordered I S \<and> ordered I (map fst F) \<and> visit_inv E (set S) B F \<and> link_inv E I L (set S) F \<and>
     down_inv E I L (set S) F \<and> child_inv I L (set S) B F"

lemma tarjan_facts:
  assumes "tarjan E I L S B F"
  shows "x \<in> set S \<Longrightarrow> L x \<le> I x" "x \<in> set S \<Longrightarrow> \<exists>y \<in> set S. I y = L x \<and> (x, y) \<in> E\<^sup>*"
    "x \<in> set S \<Longrightarrow> x \<notin> fst ` set F \<Longrightarrow> \<exists>y \<in> set S. I y < I x \<and> (x, y) \<in> E\<^sup>*"
    "x \<in> set S \<Longrightarrow> f \<in> set F \<Longrightarrow> I (fst f) \<le> I x \<Longrightarrow> (fst f, x) \<in> E\<^sup>*"
    "set S \<inter> B = {}" "E `` B \<subseteq> B" "(x, y) \<in> handled E F \<Longrightarrow> x \<in> set S \<Longrightarrow> y \<in> set S \<union> B"
    "f \<in> set F \<Longrightarrow> snd (snd f) \<subseteq> E `` {fst f}" "f \<in> set F \<Longrightarrow> fst f \<in> set S"
  using assms unfolding tarjan_def link_inv_def visit_inv_def by blast+

lemma tarjan_down:
  assumes "tarjan E I L S B F" "(x, y) \<in> handled E F" "x \<in> set S" "y \<in> set S" "f \<in> set F" "I y < I (fst f)" "I (fst f) \<le> I x"
  shows "\<exists>g \<in> set F. I (fst f) \<le> I (fst g) \<and> I (fst g) \<le> I x \<and> eff L g \<le> I y"
  using assms unfolding tarjan_def down_inv_def by fast

lemma tarjan_start: "tarjan E I L [] {} []"
  by (simp add: tarjan_def ordered_def visit_inv_def link_inv_def down_inv_def child_inv_def)

lemma ordered_Cons: "ordered I (x # xs) \<longleftrightarrow> (\<forall>y \<in> set xs. I y < I x) \<and> ordered I xs"
  by (simp add: ordered_def)

lemma chain_top: "chain (f # F) \<Longrightarrow> fst g = fst f \<Longrightarrow> chain (g # F)"
  by (cases F) simp_all

section \<open>A successor that has been visited\<close>

text \<open>
  The link of the top node \<open>l\<close> is lowered to \<open>m\<close>, because of its successor \<open>y\<close>.
\<close>

lemma tarjan_visited:
  assumes inv: "tarjan E I L S B ((l, p, T) # F)" and y: "y \<in> T" "y \<in> set S \<union> B" "y \<in> set S \<Longrightarrow> m \<le> I y \<or> I l < I y"
    and T: "T' \<subseteq> T" "T \<subseteq> insert y T'"
    and m: "L l \<le> m \<or> (\<exists>z \<in> set S. I z = m \<and> (y, z) \<in> E\<^sup>*)" "min (L l) m \<le> eff L (l, p, T)"
  shows "tarjan E I (L(l := min (L l) m)) S B ((l, None, T') # F)"
proof -
  let ?F = "(l, p, T) # F" and ?G = "(l, None, T') # F" and ?L = "L(l := min (L l) m)"
  have l: "l \<in> set S" "y \<in> E `` {l}" using inv y(1) by (auto simp: tarjan_def visit_inv_def)
  have ord: "\<forall>f \<in> set F. I (fst f) < I l" using inv by (auto simp: tarjan_def ordered_Cons)
  have h: "handled E ?G \<subseteq> insert (l, y) (handled E ?F)" using T ord by (auto simp: handled_def)
  have le: "?L x \<le> L x" for x by simp
  have e: "eff ?L f \<le> eff L f" if "f \<in> set F" for f
    using le by (cases f) (auto simp: eff_def split: option.split; fastforce intro: min.coboundedI1 min.coboundedI2)
  have el: "eff ?L (l, None, T') = min (L l) m" by (simp add: eff_def)
  have "visit_inv E (set S) B ?G" using inv h y(2) T by (auto simp: tarjan_def visit_inv_def)
  moreover have "link_inv E I ?L (set S) ?G"
  proof -
    have "?L x \<le> I x \<and> (\<exists>z \<in> set S. I z = ?L x \<and> (x, z) \<in> E\<^sup>*)" if x: "x \<in> set S" for x
    proof (cases "x = l \<and> m < L l")
      case True
      then obtain z where "z \<in> set S" "I z = m" "(y, z) \<in> E\<^sup>*" using m(1) by auto
      moreover have "L l \<le> I l" using inv l(1) by (simp add: tarjan_def link_inv_def)
      moreover have "(l, y) \<in> E" using l(2) by simp
      ultimately show ?thesis using True by (auto intro: converse_rtrancl_into_rtrancl)
    next
      case False
      then have "?L x = L x" by auto
      then show ?thesis using inv x by (simp add: tarjan_def link_inv_def)
    qed
    then show ?thesis using inv by (simp add: tarjan_def link_inv_def)
  qed
  moreover have "down_inv E I ?L (set S) ?G"
    unfolding down_inv_def
  proof (intro ballI impI, clarify)
    fix x z i q U
    assume hz: "(x, z) \<in> handled E ?G" "x \<in> set S" "z \<in> set S" and f: "(i, q, U) \<in> set ?G" "I z < I (fst (i, q, U))" "I (fst (i, q, U)) \<le> I x"
    show "\<exists>g \<in> set ?G. I (fst (i, q, U)) \<le> I (fst g) \<and> I (fst g) \<le> I x \<and> eff ?L g \<le> I z"
    proof (cases "(x, z) \<in> handled E ?F")
      case True
      have "\<exists>f \<in> set ?F. fst f = i" using f(1) by force
      then obtain f' where "f' \<in> set ?F" "fst f' = i" by blast
      then obtain g where g: "g \<in> set ?F" "I i \<le> I (fst g)" "I (fst g) \<le> I x" "eff L g \<le> I z"
        using inv True hz f unfolding tarjan_def down_inv_def by fastforce
      show ?thesis
      proof (cases "g \<in> set F")
        case True
        then show ?thesis using g e [OF True] by (intro bexI [of _ g]) auto
      next
        case False
        then have "g = (l, p, T)" using g(1) by simp
        then show ?thesis using g el m(2) by (intro bexI [of _ "(l, None, T')"]) auto
      qed
    next
      case False
      then have xz: "x = l" "z = y" using hz(1) h by auto
      then have "I z < I l" using f(2,3) by simp
      then have "m \<le> I z" using y(3) hz(3) xz by auto
      then show ?thesis using f(2,3) xz el by (intro bexI [of _ "(l, None, T')"]) auto
    qed
  qed
  moreover have "child_inv I ?L (set S) B ?G"
  proof -
    have "l \<notin> B" using inv l(1) by (auto simp: tarjan_def visit_inv_def)
    have "c \<in> snd (snd f) \<and> (c \<in> set S \<and> I (fst f) < I c \<or> c \<in> B \<and> I (fst f) \<le> ?L c)"
      if "f \<in> set F" "fst (snd f) = Some c" for f c
    proof -
      have q: "c \<in> snd (snd f)" "c \<in> set S \<and> I (fst f) < I c \<or> c \<in> B \<and> I (fst f) \<le> L c"
        using inv that by (auto simp: tarjan_def child_inv_def)
      then show ?thesis using \<open>l \<notin> B\<close> by (cases "c = l") auto
    qed
    moreover have "chain ?G" using inv by (auto simp: tarjan_def child_inv_def intro: chain_top)
    ultimately show ?thesis by (auto simp: child_inv_def)
  qed
  ultimately show ?thesis using inv by (simp add: tarjan_def)
qed

section \<open>A new node\<close>

definition child_of_top :: "'a \<Rightarrow> 'a gframe list \<Rightarrow> 'a gframe list" where
  "child_of_top y F = (case F of [] \<Rightarrow> [] | (l, p, T) # G \<Rightarrow> (l, Some y, T) # G)"

lemma tarjan_new:
  assumes inv: "tarjan E I L S B F" and top: "\<forall>l p T G. F = (l, p, T) # G \<longrightarrow> p = None \<and> y \<in> T"
    and y: "y \<notin> set S \<union> B" and k: "\<forall>x \<in> set S. I x < k"
  shows "tarjan E (I(y := k)) (L(y := k)) (y # S) B ((y, None, E `` {y}) # child_of_top y F)"
proof -
  let ?I = "I(y := k)" and ?L = "L(y := k)" and ?C = "child_of_top y F"
  let ?G = "(y, None, E `` {y}) # ?C"
  have fst: "map fst ?C = map fst F" by (auto simp: child_of_top_def split: list.split)
  have snd: "handled E ?C = handled E F" by (cases F) (auto simp: handled_def child_of_top_def)
  have frames: "\<exists>f' \<in> set F. fst f' = fst f \<and> snd (snd f') = snd (snd f)" if "f \<in> set ?C" for f
    using that by (auto simp: child_of_top_def split: list.splits)
  have FS: "fst ` set F \<subseteq> set S" using inv by (auto simp: tarjan_def visit_inv_def)
  have yF: "y \<notin> fst ` set F" using FS y by auto
  have fsts: "fst ` set ?C = fst ` set F" using fst by (metis list.set_map)
  have h: "handled E ?G = {(x, z) \<in> handled E F. x \<noteq> y}" unfolding snd [symmetric] by (auto simp: handled_def)
  have fr: "fst f \<in> set S" "fst f \<noteq> y" if "f \<in> set ?C" for f using that fsts FS y by auto
  have o: "ordered ?I S" "ordered ?I (map fst ?C)"
  proof -
    have "ordered I xs \<Longrightarrow> y \<notin> set xs \<Longrightarrow> ordered ?I xs" for xs unfolding ordered_def by (induction xs) auto
    then show "ordered ?I S" "ordered ?I (map fst ?C)" using inv y yF fst by (simp_all add: tarjan_def)
  qed
  have "visit_inv E (set (y # S)) B ?G"
  proof -
    have "\<forall>f \<in> set ?C. snd (snd f) \<subseteq> E `` {fst f} \<and> fst f \<in> set S"
      using inv frames unfolding tarjan_def visit_inv_def by metis
    then show ?thesis using inv y h by (auto simp: tarjan_def visit_inv_def)
  qed
  moreover have "link_inv E ?I ?L (set (y # S)) ?G"
  proof -
    have 1: "?L x \<le> ?I x \<and> (\<exists>z \<in> set (y # S). ?I z = ?L x \<and> (x, z) \<in> E\<^sup>*)" if "x \<in> set (y # S)" for x
    proof (cases "x = y")
      case False
      then have "x \<in> set S" using that by simp
      then obtain z where "z \<in> set S" "I z = L x" "(x, z) \<in> E\<^sup>*" "L x \<le> I x" using inv by (auto simp: tarjan_def link_inv_def)
      then show ?thesis using False y by (intro conjI bexI [of _ z]) auto
    qed simp
    have 2: "\<exists>z \<in> set (y # S). ?I z < ?I x \<and> (x, z) \<in> E\<^sup>*" if "x \<in> set (y # S)" "x \<notin> fst ` set ?G" for x
    proof -
      have x: "x \<in> set S" "x \<noteq> y" "x \<notin> fst ` set F" using that fsts by auto
      then obtain z where "z \<in> set S" "I z < I x" "(x, z) \<in> E\<^sup>*" using inv by (auto simp: tarjan_def link_inv_def)
      then show ?thesis using x y by (intro bexI [of _ z]) auto
    qed
    have 3: "(fst f, x) \<in> E\<^sup>*" if "x \<in> set (y # S)" "f \<in> set ?G" "?I (fst f) \<le> ?I x" for x f
    proof (cases "f \<in> set ?C")
      case True
      obtain f' where f': "f' \<in> set F" "fst f' = fst f" using frames [OF True] by blast
      show ?thesis
      proof (cases "x = y")
        case False
        then have "x \<in> set S" "I (fst f') \<le> I x" using that f'(2) fr [OF True] by auto
        then have "(fst f', x) \<in> E\<^sup>*" using inv f'(1) by (simp add: tarjan_def link_inv_def)
        then show ?thesis using f'(2) by simp
      next
        case xy: True
        obtain l p T G where F: "F = (l, p, T) # G" using f'(1) by (cases F) auto
        then have "l \<in> set S" "(l, y) \<in> E" using inv top by (auto simp: tarjan_def visit_inv_def)
        moreover have "I (fst f') \<le> I l" using inv f'(1) F by (auto simp: tarjan_def ordered_Cons intro: less_imp_le)
        then have "(fst f', l) \<in> E\<^sup>*" using inv f'(1) \<open>l \<in> set S\<close> by (simp add: tarjan_def link_inv_def)
        ultimately show ?thesis using xy f'(2) by (metis rtrancl.rtrancl_into_rtrancl)
      qed
    next
      case False
      then have "fst f = y" using that(2) by auto
      moreover have "x = y" using that(1,3) k \<open>fst f = y\<close> by (auto split: if_splits)
      ultimately show ?thesis by simp
    qed
    show ?thesis unfolding link_inv_def using 1 2 3 by blast
  qed
  moreover have "down_inv E ?I ?L (set (y # S)) ?G"
    unfolding down_inv_def
  proof (intro ballI impI, clarify)
    fix x z i q U
    assume hz: "(x, z) \<in> handled E ?G" "x \<in> set (y # S)" "z \<in> set (y # S)"
      and f: "(i, q, U) \<in> set ?G" "?I z < ?I (fst (i, q, U))" "?I (fst (i, q, U)) \<le> ?I x"
    have x: "x \<in> set S" "x \<noteq> y" "(x, z) \<in> handled E F" using hz h by auto
    have iy: "i \<noteq> y" using f(3) x k by auto
    have z: "z \<in> set S" "z \<noteq> y" using hz(3) f x k iy by auto
    have "(i, q, U) \<in> set ?C" using f(1) iy by auto
    then obtain f' where f': "f' \<in> set F" "fst f' = i" using frames by fastforce
    then obtain g where g: "g \<in> set F" "I i \<le> I (fst g)" "I (fst g) \<le> I x" "eff L g \<le> I z"
      using inv x z f iy unfolding tarjan_def down_inv_def by fastforce
    have "\<exists>g' \<in> set ?C. fst g' = fst g \<and> eff ?L g' \<le> I z"
    proof -
      obtain l p T G where F: "F = (l, p, T) # G" using g(1) by (cases F) auto
      have C: "?C = (l, Some y, T) # G" "p = None" using top F by (simp_all add: child_of_top_def)
      show ?thesis
      proof (cases "g \<in> set G")
        case True
        obtain j r V where gj: "g = (j, r, V)" by (cases g)
        have j: "j \<noteq> y" using yF g(1) gj by force
        have "c \<noteq> y" if "r = Some c" for c
        proof -
          have "c \<in> set S \<union> B" using inv g(1) gj that by (auto simp: tarjan_def child_inv_def)
          then show ?thesis using y by auto
        qed
        then have "eff ?L g = eff L g" using j by (auto simp: gj eff_def split: option.split)
        then show ?thesis using True C g(4) by auto
      next
        case False
        then have gl: "g = (l, None, T)" using g(1) F C by simp
        have "l \<noteq> y" "l \<in> set S" using yF FS F by auto
        then have "eff ?L (l, Some y, T) \<le> L l" by (simp add: eff_def)
        then show ?thesis using gl g(4) C by (intro bexI [of _ "(l, Some y, T)"]) (auto simp: eff_def)
      qed
    qed
    then obtain g' where g': "g' \<in> set ?C" "fst g' = fst g" "eff ?L g' \<le> I z" by blast
    have yg: "fst g \<noteq> y" using g(1) yF by auto
    show "\<exists>g \<in> set ?G. ?I (fst (i, q, U)) \<le> ?I (fst g) \<and> ?I (fst g) \<le> ?I x \<and> eff ?L g \<le> ?I z"
      using g g' x z iy yg by (intro bexI [of _ g']) auto
  qed
  moreover have "child_inv ?I ?L (set (y # S)) B ?G"
  proof -
    have "chain ?G"
      using inv by (cases F; cases "tl F") (auto simp: child_of_top_def tarjan_def child_inv_def)
    moreover have "c \<in> snd (snd f) \<and> (c \<in> set (y # S) \<and> ?I (fst f) < ?I c \<or> c \<in> B \<and> ?I (fst f) \<le> ?L c)"
      if f: "f \<in> set ?C" "fst (snd f) = Some c" for f c
    proof (cases "f \<in> set F")
      case True
      then have "c \<in> snd (snd f) \<and> (c \<in> set S \<and> I (fst f) < I c \<or> c \<in> B \<and> I (fst f) \<le> L c)"
        using inv that(2) by (simp add: tarjan_def child_inv_def)
      moreover have "fst f \<noteq> y" using True yF by auto
      ultimately show ?thesis using y by auto
    next
      case notF: False
      obtain l p T G where F: "F = (l, p, T) # G" using f(1) by (cases F) (auto simp: child_of_top_def)
      moreover have "f = (l, Some y, T)" using notF f(1) F by (auto simp: child_of_top_def)
      moreover have "y \<in> T" using top F by auto
      moreover have "l \<in> set S" "l \<noteq> y" using FS yF F by auto
      ultimately show ?thesis using that(2) k by auto
    qed
    ultimately show ?thesis by (auto simp: child_inv_def)
  qed
  moreover have "ordered ?I (y # S)" "ordered ?I (map fst ?G)" using o k fr by (auto simp: ordered_Cons) (use y in auto)
  ultimately show ?thesis by (simp add: tarjan_def)
qed


section \<open>The end of a node\<close>

text \<open>The node is not the first of its component.\<close>

lemma tarjan_leave:
  assumes inv: "tarjan E I L S B ((l, None, {}) # F)" and low: "L l \<noteq> I l"
  shows "tarjan E I L S B F"
proof -
  let ?F = "(l, None, {}) # F"
  have l: "l \<in> set S" using inv by (simp add: tarjan_def visit_inv_def)
  have h: "handled E F = handled E ?F" by (auto simp: handled_def)
  have ord: "\<forall>f \<in> set F. I (fst f) < I l" using inv by (auto simp: tarjan_def ordered_Cons)
  have "link_inv E I L (set S) F"
  proof -
    have "L l < I l" using inv l low by (simp add: tarjan_def link_inv_def order_less_le)
    moreover obtain y where "y \<in> set S" "I y = L l" "(l, y) \<in> E\<^sup>*" using inv l unfolding tarjan_def link_inv_def by blast
    ultimately have "\<exists>y \<in> set S. I y < I l \<and> (l, y) \<in> E\<^sup>*" by (intro bexI [of _ y]) simp_all
    then show ?thesis using inv by (auto simp: tarjan_def link_inv_def)
  qed
  moreover have "down_inv E I L (set S) F"
    unfolding down_inv_def
  proof (intro ballI impI, clarify)
    fix x z i q U
    assume hz: "(x, z) \<in> handled E F" "x \<in> set S" "z \<in> set S"
      and f: "(i, q, U) \<in> set F" "I z < I (fst (i, q, U))" "I (fst (i, q, U)) \<le> I x"
    then have "(i, q, U) \<in> set ?F" by simp
    then obtain g where g: "g \<in> set ?F" "I i \<le> I (fst g)" "I (fst g) \<le> I x" "eff L g \<le> I z"
      using inv hz f unfolding h tarjan_def down_inv_def by fastforce
    show "\<exists>g \<in> set F. I (fst (i, q, U)) \<le> I (fst g) \<and> I (fst g) \<le> I x \<and> eff L g \<le> I z"
    proof (cases "g \<in> set F")
      case False
      then have gl: "g = (l, None, {})" using g(1) by simp
      obtain j r V G where F: "F = (j, r, V) # G" using f(1) by (cases F) auto
      have "r = Some l" using inv F by (simp add: tarjan_def child_inv_def)
      then have "eff L (j, r, V) \<le> I z" using g(4) gl by (simp add: eff_def)
      moreover have "I i \<le> I j" using inv f(1) F by (auto simp: tarjan_def ordered_Cons intro: less_imp_le)
      moreover have "I j \<le> I x" using g(3) gl ord F by auto
      ultimately show ?thesis using F by (intro bexI [of _ "(j, r, V)"]) auto
    qed (use g in auto)
  qed
  moreover have "chain F" using inv by (cases F) (auto simp: tarjan_def child_inv_def)
  ultimately show ?thesis using inv h by (simp add: tarjan_def visit_inv_def child_inv_def ordered_Cons)
qed

text \<open>The node is the first of its component, which is the upper part of the stack.\<close>

definition upper :: "('a \<Rightarrow> nat) \<Rightarrow> 'a \<Rightarrow> 'a set \<Rightarrow> 'a set" where
  "upper I l S = {x \<in> S. I l \<le> I x}"

lemma component_closed:
  assumes inv: "tarjan E I L S B ((l, None, {}) # F)" and low: "L l = I l"
    and x: "x \<in> upper I l (set S) \<union> B" "(x, y) \<in> E\<^sup>*"
  shows "y \<in> upper I l (set S) \<union> B"
  using x(2,1)
proof (induction rule: rtrancl_induct)
  case (step y z)
  let ?F = "(l, None, {}) # F"
  have y: "y \<in> upper I l (set S) \<union> B" using step by simp
  show ?case
  proof (cases "y \<in> B")
    case True
    then show ?thesis using inv step(2) by (auto simp: tarjan_def visit_inv_def)
  next
    case False
    then have yu: "y \<in> set S" "I l \<le> I y" using y by (auto simp: upper_def)
    have "I (fst f) < I l" if "f \<in> set F" for f using that inv by (auto simp: tarjan_def ordered_Cons)
    then have h: "(y, z) \<in> handled E ?F" using step(2) yu(2) by (fastforce simp: handled_def)
    then have z: "z \<in> set S \<union> B" using inv yu by (auto simp: tarjan_def visit_inv_def)
    have "I l \<le> I z" if zs: "z \<in> set S"
    proof (rule ccontr)
      assume "\<not> I l \<le> I z"
      then have "I z < I (fst (l, None, {}))" "I (fst (l, None, {})) \<le> I y" using yu(2) by simp_all
      note d = tarjan_down [OF inv h yu(1) zs list.set_intros(1) this]
      obtain g where g: "g \<in> set ?F" "I l \<le> I (fst g)" "eff L g \<le> I z" using d by fastforce
      have "g = (l, None, {})" using g inv by (auto simp: tarjan_def ordered_Cons)
      then show False using g(3) low \<open>\<not> I l \<le> I z\<close> by (simp add: eff_def)
    qed
    then show ?thesis using z by (auto simp: upper_def)
  qed
qed simp

lemma component_mutual:
  assumes inv: "tarjan E I L S B ((l, None, {}) # F)" and low: "L l = I l" and x: "x \<in> upper I l (set S)"
  shows "(l, x) \<in> E\<^sup>*" "(x, l) \<in> E\<^sup>*"
proof -
  have F: "I (fst f) < I l" if "f \<in> set F" for f using that inv by (auto simp: tarjan_def ordered_Cons)
  show "(l, x) \<in> E\<^sup>*" using inv x by (auto simp: tarjan_def link_inv_def upper_def)
  have inj: "x = y" if "x \<in> set S" "y \<in> set S" "I x = I y" for x y
  proof -
    have "\<lbrakk>ordered I xs; x \<in> set xs; y \<in> set xs; I x = I y\<rbrakk> \<Longrightarrow> x = y" for xs
      by (induction xs) (auto simp: ordered_Cons)
    then show ?thesis using that inv by (auto simp: tarjan_def)
  qed
  show "(x, l) \<in> E\<^sup>*"
    using x
  proof (induction "I x" arbitrary: x rule: less_induct)
    case less
    show ?case
    proof (cases "x = l")
      case False
      have "x \<in> set S" "I l \<le> I x" using less.prems by (auto simp: upper_def)
      moreover have "x \<notin> fst ` set ((l, None, {}) # F)" using False F calculation by force
      ultimately obtain y where y: "y \<in> set S" "I y < I x" "(x, y) \<in> E\<^sup>*"
        using tarjan_facts(3) [OF inv] by blast
      have "y \<in> upper I l (set S)"
        using component_closed [OF inv low _ y(3)] less.prems y(1) tarjan_facts(5) [OF inv] by blast
      then have "(y, l) \<in> E\<^sup>*" using less.hyps y(2) by simp
      then show ?thesis using y(3) by simp
    qed simp
  qed
qed

lemma tarjan_component:
  assumes inv: "tarjan E I L S B ((l, None, {}) # F)" and low: "L l = I l"
    and S': "ordered I S'" "set S' = set S - upper I l (set S)"
  shows "tarjan E I L S' (B \<union> upper I l (set S)) F"
proof -
  let ?F = "(l, None, {}) # F" and ?C = "upper I l (set S)"
  have F: "I (fst f) < I l" if "f \<in> set F" for f using that inv by (auto simp: tarjan_def ordered_Cons)
  have s': "x \<in> set S' \<longleftrightarrow> x \<in> set S \<and> I x < I l" for x unfolding S'(2) upper_def by auto
  have h: "handled E F = handled E ?F" by (auto simp: handled_def)
  have "E `` (B \<union> ?C) \<subseteq> B \<union> ?C" using component_closed [OF inv low] by blast
  moreover have "set S' \<inter> (B \<union> ?C) = {}" using S'(2) tarjan_facts(5) [OF inv] by auto
  moreover have "y \<in> set S' \<union> (B \<union> ?C)" if "(x, y) \<in> handled E F" "x \<in> set S'" for x y
    using tarjan_facts(7) [OF inv, of x y] that S'(2) h by auto
  moreover have "snd (snd f) \<subseteq> E `` {fst f} \<and> fst f \<in> set S'" if "f \<in> set F" for f
    using tarjan_facts(8,9) [OF inv, of f] that F s' by auto
  ultimately have "visit_inv E (set S') (B \<union> ?C) F" unfolding visit_inv_def by blast
  moreover have "link_inv E I L (set S') F"
  proof -
    have 1: "L x \<le> I x \<and> (\<exists>y \<in> set S'. I y = L x \<and> (x, y) \<in> E\<^sup>*)" if "x \<in> set S'" for x
    proof -
      have x: "x \<in> set S" using that s' by simp
      obtain y where "y \<in> set S" "I y = L x" "(x, y) \<in> E\<^sup>*" "L x \<le> I x"
        using tarjan_facts(1,2) [OF inv x] by blast
      then show ?thesis using that s' by (intro conjI bexI [of _ y]) auto
    qed
    have 2: "\<exists>y \<in> set S'. I y < I x \<and> (x, y) \<in> E\<^sup>*" if "x \<in> set S'" "x \<notin> fst ` set F" for x
    proof -
      have x: "x \<in> set S" "x \<notin> fst ` set ?F" using that s' by auto
      obtain y where "y \<in> set S" "I y < I x" "(x, y) \<in> E\<^sup>*" using tarjan_facts(3) [OF inv x] by blast
      then show ?thesis using that s' by (intro bexI [of _ y]) auto
    qed
    have 3: "(fst f, x) \<in> E\<^sup>*" if "x \<in> set S'" "f \<in> set F" "I (fst f) \<le> I x" for x f
      using tarjan_facts(4) [OF inv, of x f] that s' by simp
    show ?thesis using 1 2 3 unfolding link_inv_def by blast
  qed
  moreover have "down_inv E I L (set S') F"
    unfolding down_inv_def
  proof (intro ballI impI, clarify)
    fix x z i q U
    assume hz: "(x, z) \<in> handled E F" "x \<in> set S'" "z \<in> set S'"
      and f: "(i, q, U) \<in> set F" "I z < I (fst (i, q, U))" "I (fst (i, q, U)) \<le> I x"
    have xz: "x \<in> set S" "z \<in> set S" "I x < I l" using hz s' by auto
    have "(i, q, U) \<in> set ?F" using f(1) by simp
    then obtain g where g: "g \<in> set ?F" "I i \<le> I (fst g)" "I (fst g) \<le> I x" "eff L g \<le> I z"
      using inv hz(1) xz f unfolding h tarjan_def down_inv_def by fastforce
    then have "g \<in> set F" using xz(3) by auto
    then show "\<exists>g \<in> set F. I (fst (i, q, U)) \<le> I (fst g) \<and> I (fst g) \<le> I x \<and> eff L g \<le> I z" using g by auto
  qed
  moreover have "child_inv I L (set S') (B \<union> ?C) F"
  proof -
    have "chain F" using inv by (cases F) (auto simp: tarjan_def child_inv_def)
    moreover have "c \<in> snd (snd f) \<and> (c \<in> set S' \<and> I (fst f) < I c \<or> c \<in> B \<union> ?C \<and> I (fst f) \<le> L c)"
      if f: "f \<in> set F" "fst (snd f) = Some c" for f c
    proof -
      have q: "c \<in> snd (snd f)" "c \<in> set S \<and> I (fst f) < I c \<or> c \<in> B \<and> I (fst f) \<le> L c"
        using inv f by (auto simp: tarjan_def child_inv_def)
      show ?thesis
      proof (cases "c \<in> ?C")
        case True
        then have "c \<in> set S" by (simp add: upper_def)
        then obtain y where y: "y \<in> set S" "I y = L c" "(c, y) \<in> E\<^sup>*" using tarjan_facts(2) [OF inv] by blast
        then have "y \<in> ?C" using component_closed [OF inv low _ y(3)] True tarjan_facts(5) [OF inv] by blast
        then have "I l \<le> L c" using y(2) by (simp add: upper_def)
        then show ?thesis using q True F [OF f(1)] by auto
      next
        case False
        then show ?thesis using q S'(2) by blast
      qed
    qed
    ultimately show ?thesis by (simp add: child_inv_def)
  qed
  moreover have "ordered I (map fst F)" using inv by (simp add: tarjan_def ordered_Cons)
  ultimately show ?thesis using S'(1) by (simp add: tarjan_def)
qed

end
