(* ===== verification/SatSccProof.thy ===== *)
theory SatSccProof
  imports SatScc SatSccGraph
begin

text \<open>
  The search of the code keeps the invariant of Tarjan's algorithm on the graph of the binary clauses, it ends, and
  literals get their roots from their component.
\<close>

section \<open>The state as a search on a graph\<close>

definition edges :: "nat \<Rightarrow> scc_solver \<Rightarrow> (literal \<times> literal) set" where
  "edges n so = {(a, b). lit_below n a \<and> b \<in> bin_lits (so_watches so ! idx a)}"

definition sc_ix :: "scc_state \<Rightarrow> literal \<Rightarrow> nat" where "sc_ix st l = unat (sc_index st ! idx l)"
definition sc_lo :: "scc_state \<Rightarrow> literal \<Rightarrow> nat" where "sc_lo st l = unat (sc_lowlink st ! idx l)"

definition sc_visited :: "nat \<Rightarrow> scc_state \<Rightarrow> literal set" where
  "sc_visited n st = {l. lit_below n l \<and> sc_index st ! idx l \<noteq> - 1}"

definition sc_done :: "nat \<Rightarrow> scc_state \<Rightarrow> literal set" where "sc_done n st = sc_visited n st - set (sc_s st)"

definition frame_of :: "scc_frame \<Rightarrow> literal gframe" where
  "frame_of fr = (fr_lit fr, if fr_first fr then None else Some (w_literal (hd (fr_it fr))), bin_lits (fr_it fr))"

text \<open>The search with the frames \<open>F\<close>.\<close>

definition scc_core :: "nat \<Rightarrow> scc_solver \<Rightarrow> scc_state \<Rightarrow> literal gframe list \<Rightarrow> bool" where
  "scc_core n so st F \<longleftrightarrow>
     length (sc_index st) = 2 * n \<and> length (sc_lowlink st) = 2 * n \<and> length (sc_in_s st) = 2 * n \<and>
     set (sc_s st) \<subseteq> sc_visited n st \<and> (\<forall>l. lit_below n l \<longrightarrow> sc_in_s st ! idx l = (l \<in> set (sc_s st))) \<and>
     unat (sc_next st) = card (sc_visited n st) \<and> (\<forall>l \<in> sc_visited n st. sc_ix st l < unat (sc_next st)) \<and>
     tarjan (edges n so) (sc_ix st) (sc_lo st) (sc_s st) (sc_done n st) F"

lemma lower_to_length [simp]: "length (lower_to l x low) = length low"
  by (simp add: lower_to_def)

lemma sc_lo_lower:
  assumes "idx l < length (sc_lowlink st)"
  shows "sc_lo (st\<lparr>sc_lowlink := lower_to l x (sc_lowlink st)\<rparr>) = (sc_lo st)(l := min (sc_lo st l) (unat x))"
  using assms by (auto simp: sc_lo_def lower_to_def fun_eq_iff word_less_nat_alt min_def nth_list_update)

lemma sc_fields [simp]:
  "sc_ix (st\<lparr>sc_lowlink := low\<rparr>) = sc_ix st" "sc_visited n (st\<lparr>sc_lowlink := low\<rparr>) = sc_visited n st"
  "sc_done n (st\<lparr>sc_lowlink := low\<rparr>) = sc_done n st"
  by (simp_all add: sc_ix_def sc_visited_def sc_done_def fun_eq_iff)

text \<open>The link of the top node is lowered because of the successor \<open>y\<close>.\<close>

lemma scc_core_visited:
  assumes core: "scc_core n so st ((l, p, T) # F)" and y: "y \<in> T" "y \<in> sc_visited n st" "y \<in> set (sc_s st) \<Longrightarrow> unat x \<le> sc_ix st y \<or> sc_ix st l < sc_ix st y"
    and T: "T' \<subseteq> T" "T \<subseteq> insert y T'"
    and m: "sc_lo st l \<le> unat x \<or> (\<exists>z \<in> set (sc_s st). sc_ix st z = unat x \<and> (y, z) \<in> (edges n so)\<^sup>*)"
      "min (sc_lo st l) (unat x) \<le> eff (sc_lo st) (l, p, T)"
  shows "scc_core n so (st\<lparr>sc_lowlink := lower_to l x (sc_lowlink st)\<rparr>) ((l, None, T') # F)"
proof -
  have t: "tarjan (edges n so) (sc_ix st) (sc_lo st) (sc_s st) (sc_done n st) ((l, p, T) # F)" using core by (simp add: scc_core_def)
  have "l \<in> set (sc_s st)" using tarjan_facts(9) [OF t, of "(l, p, T)"] by simp
  then have i: "idx l < length (sc_lowlink st)" using core lit_below_idx [of n l] by (auto simp: scc_core_def sc_visited_def)
  have "y \<in> set (sc_s st) \<union> sc_done n st" using y(2) by (simp add: sc_done_def)
  note tarjan_visited [OF t y(1) this y(3) T m]
  then show ?thesis using core by (auto simp: scc_core_def sc_lo_lower [OF i])
qed

lemma lower_to_same: "low ! idx l \<le> x \<Longrightarrow> lower_to l x low = low"
  by (auto simp: lower_to_def dest: leD)

text \<open>Back from a child.\<close>

lemma after_child_core:
  assumes core: "scc_core n so st (frame_of fr # F)" and fr: "fr_first fr \<or> fr_it fr \<noteq> [] \<and> is_binary_clause (hd (fr_it fr))"
    and e: "after_child fr (sc_lowlink st) = (it, low)"
  shows "scc_core n so (st\<lparr>sc_lowlink := low\<rparr>) ((fr_lit fr, None, bin_lits it) # F)"
    "length it \<le> length (fr_it fr)" "\<not> fr_first fr \<Longrightarrow> length it < length (fr_it fr)"
proof -
  have t: "tarjan (edges n so) (sc_ix st) (sc_lo st) (sc_s st) (sc_done n st) (frame_of fr # F)" using core by (simp add: scc_core_def)
  show "scc_core n so (st\<lparr>sc_lowlink := low\<rparr>) ((fr_lit fr, None, bin_lits it) # F)"
  proof (cases "fr_first fr")
    case True
    then have "it = fr_it fr" "low = sc_lowlink st" using e by (simp_all add: after_child_def)
    moreover have "st\<lparr>sc_lowlink := sc_lowlink st\<rparr> = st" by simp
    ultimately show ?thesis using core True by (simp add: frame_of_def)
  next
    case False
    then obtain w ws where w: "fr_it fr = w # ws" "is_binary_clause w" using fr by (cases "fr_it fr") auto
    let ?c = "w_literal w" and ?l = "fr_lit fr"
    have f: "frame_of fr = (?l, Some ?c, insert ?c (bin_lits ws))" using False w by (simp add: frame_of_def bin_lits_Cons)
    have c: "?c \<in> set (sc_s st) \<and> sc_ix st ?l < sc_ix st ?c \<or> ?c \<in> sc_done n st \<and> sc_ix st ?l \<le> sc_lo st ?c"
      using t f by (simp add: tarjan_def child_inv_def)
    have l: "?l \<in> set (sc_s st)" using tarjan_facts(9) [OF t, of "frame_of fr"] f by simp
    have v: "?c \<in> sc_visited n st" using c core by (auto simp: sc_done_def scc_core_def)
    have x: "unat (sc_lowlink st ! idx ?c) = sc_lo st ?c" by (simp add: sc_lo_def)
    have ee: "it = ws" "low = lower_to ?l (sc_lowlink st ! idx ?c) (sc_lowlink st)" using e False w by (auto simp: after_child_def)
    show ?thesis
      unfolding ee
    proof (rule scc_core_visited [where y = "w_literal w"])
      show "scc_core n so st ((?l, Some ?c, insert ?c (bin_lits ws)) # F)" using core f by simp
      show "sc_lo st ?l \<le> unat (sc_lowlink st ! idx ?c) \<or>
          (\<exists>z \<in> set (sc_s st). sc_ix st z = unat (sc_lowlink st ! idx ?c) \<and> (?c, z) \<in> (edges n so)\<^sup>*)"
        using c tarjan_facts(1) [OF t l] tarjan_facts(2) [OF t, of ?c] x by fastforce
      show "unat (sc_lowlink st ! idx ?c) \<le> sc_ix st ?c \<or> sc_ix st ?l < sc_ix st ?c" if "?c \<in> set (sc_s st)"
        using that c by (auto simp: sc_done_def)
    qed (use v x in \<open>auto simp: eff_def\<close>)
  qed
  show "length it \<le> length (fr_it fr)" "\<not> fr_first fr \<Longrightarrow> length it < length (fr_it fr)"
    using e fr by (auto simp: after_child_def split: if_splits)
qed

text \<open>The loop over the successors.\<close>

lemma edges_below: "(a, b) \<in> edges n so \<Longrightarrow> lit_below n a"
  by (simp add: edges_def)

lemma scan_core:
  assumes "scc_core n so (st\<lparr>sc_lowlink := low\<rparr>) ((l, None, bin_lits ws) # F)" "\<forall>(a, b) \<in> edges n so. lit_below n b"
    and "scan_successors (sc_index st) (sc_in_s st) l ws low = (it, low')"
  shows "scc_core n so (st\<lparr>sc_lowlink := low'\<rparr>) ((l, None, bin_lits it) # F) \<and> length it \<le> length ws \<and>
    (it = [] \<or> is_binary_clause (hd it) \<and> sc_index st ! idx (w_literal (hd it)) = - 1)"
  using assms(1,3)
proof (induction ws arbitrary: low)
  case (Cons w ws)
  let ?y = "w_literal w" and ?st = "st\<lparr>sc_lowlink := low\<rparr>"
  show ?case
  proof (cases "is_binary_clause w")
    case False
    then show ?thesis using Cons.IH [of low] Cons.prems by (simp add: bin_lits_Cons)
  next
    case b: True
    show ?thesis
    proof (cases "sc_index st ! idx ?y = - 1")
      case True
      then show ?thesis using Cons.prems b by auto
    next
      case False
      have t: "tarjan (edges n so) (sc_ix ?st) (sc_lo ?st) (sc_s ?st) (sc_done n ?st) ((l, None, insert ?y (bin_lits ws)) # F)"
        using Cons.prems(1) b by (simp add: scc_core_def bin_lits_Cons)
      have "(l, ?y) \<in> edges n so" using tarjan_facts(8) [OF t, of "(l, None, insert ?y (bin_lits ws))"] by auto
      then have y: "lit_below n ?y" "?y \<in> sc_visited n ?st" using assms(2) False by (auto simp: sc_visited_def)
      have s: "sc_in_s st ! idx ?y = (?y \<in> set (sc_s st))" using Cons.prems(1) y(1) by (simp add: scc_core_def)
      let ?low = "if sc_in_s st ! idx ?y then lower_to l (sc_index st ! idx ?y) low else low"
      have ix: "unat (sc_index st ! idx ?y) = sc_ix ?st ?y" by (simp add: sc_ix_def)
      have "scc_core n so (?st\<lparr>sc_lowlink := ?low\<rparr>) ((l, None, bin_lits ws) # F)"
      proof (cases "sc_in_s st ! idx ?y")
        case True
        have "scc_core n so (?st\<lparr>sc_lowlink := lower_to l (sc_index st ! idx ?y) (sc_lowlink ?st)\<rparr>) ((l, None, bin_lits ws) # F)"
          by (rule scc_core_visited [where y = ?y and p = None and T = "insert ?y (bin_lits ws)"])
            (use Cons.prems(1) b y ix s True in \<open>auto simp: bin_lits_Cons eff_def\<close>)
        then show ?thesis using True by simp
      next
        case F: False
        have "unat x \<le> unat (- 1 :: u32)" for x :: u32 using word_le_nat_alt [of x "- 1"] by simp
        note max = this [of "low ! idx l"]
        have "scc_core n so (?st\<lparr>sc_lowlink := lower_to l (- 1) (sc_lowlink ?st)\<rparr>) ((l, None, bin_lits ws) # F)"
          by (rule scc_core_visited [where y = ?y and p = None and T = "insert ?y (bin_lits ws)"])
            (use Cons.prems(1) b y s F in \<open>auto simp: bin_lits_Cons eff_def sc_lo_def max\<close>)
        moreover have "lower_to l (- 1) low = low" by (rule lower_to_same) (rule word_order.extremum)
        ultimately show ?thesis using F by simp
      qed
      then show ?thesis using Cons.IH [of ?low] Cons.prems(2) False b by (simp add: Let_def)
    qed
  qed
qed simp


text \<open>A new node.\<close>

lemma visited_card:
  assumes "below_null n"
  shows "finite (sc_visited n st)" "y \<notin> sc_visited n st \<Longrightarrow> lit_below n y \<Longrightarrow> card (sc_visited n st) < 2 * n"
proof -
  have sub: "{l. lit_below n l} \<subseteq> idx -` {..<2 * n}" using lit_below_idx by auto
  have inj: "inj idx" by (auto simp: inj_def)
  then have "finite (idx -` {..<2 * n})" by (rule finite_vimageI [OF finite_lessThan])
  then have f: "finite {l. lit_below n l}" using finite_subset [OF sub] by blast
  have "card {l. lit_below n l} = card (idx ` {l. lit_below n l})" using inj by (intro card_image [symmetric]) (auto simp: inj_def inj_on_def)
  also have "\<dots> \<le> card {..<2 * n}" using lit_below_idx by (intro card_mono) auto
  finally have c: "card {l. lit_below n l} \<le> 2 * n" by simp
  have v: "sc_visited n st \<subseteq> {l. lit_below n l}" by (auto simp: sc_visited_def)
  then show "finite (sc_visited n st)" using f finite_subset by blast
  show "card (sc_visited n st) < 2 * n" if "y \<notin> sc_visited n st" "lit_below n y"
  proof -
    have "sc_visited n st \<subset> {l. lit_below n l}" using v that by auto
    then have "card (sc_visited n st) < card {l. lit_below n l}" using f by (rule psubset_card_mono [rotated])
    then show ?thesis using c by simp
  qed
qed

lemma new_node_core:
  assumes core: "scc_core n so st F" and top: "\<forall>l p T G. F = (l, p, T) # G \<longrightarrow> p = None \<and> y \<in> T"
    and y: "lit_below n y" "sc_index st ! idx y = - 1" and n: "below_null n"
  shows "scc_core n so (new_node so y st) ((y, None, bin_lits (so_watches so ! idx y)) # child_of_top y F)"
    "sc_visited n (new_node so y st) = insert y (sc_visited n st)" "sc_done n (new_node so y st) = sc_done n st"
proof -
  let ?st = "new_node so y st" and ?k = "unat (sc_next st)"
  have yv: "y \<notin> sc_visited n st" using y by (simp add: sc_visited_def)
  have k: "?k < 2 * n" using core visited_card(2) [OF n yv y(1)] by (simp add: scc_core_def)
  have big: "?k < 4294967295" using k n by (simp add: below_null_def)
  have "unat (- 1 :: u32) = 4294967295" by (simp add: unsigned_minus_1_eq_mask mask_eq_exp_minus_1)
  then have kn: "sc_next st \<noteq> - 1" using big by auto
  have s: "unat (sc_next st + 1) = Suc ?k" using big by (simp add: unat_word_ariths(1))
  have i: "idx y < length (sc_index st)" "idx y < length (sc_lowlink st)" "idx y < length (sc_in_s st)"
    using core lit_below_idx [OF y(1)] by (auto simp: scc_core_def)
  have ix: "sc_ix ?st = (sc_ix st)(y := ?k)" "sc_lo ?st = (sc_lo st)(y := ?k)"
    using i by (auto simp: sc_ix_def sc_lo_def new_node_def Let_def fun_eq_iff nth_list_update)
  show v: "sc_visited n ?st = insert y (sc_visited n st)"
    using i y kn by (auto simp: sc_visited_def new_node_def Let_def nth_list_update)
  have f: "sc_s ?st = y # sc_s st" "sc_next ?st = sc_next st + 1" by (simp_all add: new_node_def Let_def)
  have ys: "y \<notin> set (sc_s st) \<union> sc_done n st" using yv core by (auto simp: scc_core_def sc_done_def)
  show d: "sc_done n ?st = sc_done n st" using v f ys by (auto simp: sc_done_def)
  have "edges n so `` {y} = bin_lits (so_watches so ! idx y)" using y(1) by (auto simp: edges_def)
  moreover have "\<forall>x \<in> set (sc_s st). sc_ix st x < ?k" using core by (auto simp: scc_core_def)
  ultimately have "tarjan (edges n so) (sc_ix ?st) (sc_lo ?st) (sc_s ?st) (sc_done n ?st) ((y, None, bin_lits (so_watches so ! idx y)) # child_of_top y F)"
    using tarjan_new [OF _ top ys, of "edges n so" "sc_ix st" "sc_lo st" ?k] core unfolding ix f d by (simp add: scc_core_def)
  moreover have "\<forall>l. lit_below n l \<longrightarrow> sc_in_s ?st ! idx l = (l \<in> set (sc_s ?st))"
    using core i by (auto simp: scc_core_def new_node_def Let_def nth_list_update)
  moreover have "\<forall>l \<in> sc_visited n ?st. sc_ix ?st l < unat (sc_next ?st)" using core unfolding v f ix s by (auto simp: scc_core_def less_Suc_eq)
  moreover have "unat (sc_next ?st) = card (sc_visited n ?st)"
    using core yv visited_card(1) [OF n] unfolding v f s by (simp add: scc_core_def)
  moreover have "length (sc_index ?st) = 2 * n" "length (sc_lowlink ?st) = 2 * n" "length (sc_in_s ?st) = 2 * n"
    using core by (simp_all add: scc_core_def new_node_def Let_def)
  moreover have "set (sc_s ?st) \<subseteq> sc_visited n ?st" using core unfolding f v by (auto simp: scc_core_def)
  ultimately show "scc_core n so ?st ((y, None, bin_lits (so_watches so ! idx y)) # child_of_top y F)"
    unfolding scc_core_def by blast
qed

section \<open>A component\<close>

lemma consume_stack_eq:
  assumes "l \<notin> set P"
  shows "consume_stack l (P @ l # R) in_s = (R, foldl (\<lambda>i x. i[idx x := False]) in_s (P @ [l]))"
  using assms by (induction P arbitrary: in_s) (auto simp: Let_def)

lemma assign_roots_eq:
  assumes "l \<notin> set P"
  shows "assign_roots r l (P @ l # R) in_s rt =
    (R, foldl (\<lambda>i x. i[idx x := False]) in_s (P @ [l]), foldl (\<lambda>rt x. assign_root r x rt) rt (P @ [l]))"
  using assms by (induction P arbitrary: in_s rt) (auto simp: Let_def)

lemma choose_root_None:
  assumes "l \<notin> set P" "choose_root external l (P @ l # R) = None"
  shows "lit_neg l \<in> set P"
  using assms by (induction P) (auto split: if_splits)

lemma choose_root_Some:
  assumes "l \<notin> set P" "choose_root external l (P @ l # R) = Some r"
  shows "\<exists>P1 P2. P @ [l] = P1 @ r # P2 \<and> lit_neg r \<notin> set P1"
proof -
  have "\<exists>P1 P2. P @ [l] = P1 @ r # P2 \<and> (\<forall>x \<in> set P1. x \<noteq> lit_neg l \<and> \<not> external (lit_var x)) \<and> (external (lit_var r) \<or> r = l)"
    using assms
  proof (induction P)
    case Nil
    then have "r = l" by (auto split: if_splits)
    then show ?case by (intro exI [of _ "[]"]) simp
  next
    case (Cons x P)
    show ?case
    proof (cases "external (lit_var x)")
      case True
      then have "x # P @ [l] = [] @ r # P @ [l] \<and> external (lit_var r)" using Cons.prems by (auto split: if_splits)
      then show ?thesis by (intro exI [of _ "[]"] exI [of _ "P @ [l]"]) auto
    next
      case False
      then have x: "choose_root external l (P @ l # R) = Some r" "x \<noteq> lit_neg l" using Cons.prems by (auto split: if_splits)
      obtain P1 P2 where "P @ [l] = P1 @ r # P2" "\<forall>x \<in> set P1. x \<noteq> lit_neg l \<and> \<not> external (lit_var x)" "external (lit_var r) \<or> r = l"
        using Cons.IH [OF _ x(1)] Cons.prems(1) by auto
      then show ?thesis using False x(2) by (intro exI [of _ "x # P1"] exI [of _ P2]) auto
    qed
  qed
  then show ?thesis using lit_neg(1) [of r] by metis
qed

lemma clear_nth:
  assumes "idx k < length in_s"
  shows "foldl (\<lambda>i x. i[idx x := False]) in_s xs ! idx k \<longleftrightarrow> in_s ! idx k \<and> k \<notin> set xs"
    "length (foldl (\<lambda>i x. i[idx x := False]) in_s xs) = length in_s"
  using assms by (induction xs arbitrary: in_s) (auto simp: nth_update_at)

lemma component_split:
  assumes "ordered I (P @ l # R)"
  shows "set (P @ [l]) = upper I l (set (P @ l # R))" "ordered I R" "set R = set (P @ l # R) - upper I l (set (P @ l # R))"
proof -
  have o: "\<forall>x \<in> set P. I l < I x" "\<forall>x \<in> set R. I x < I l" "ordered I R"
    using assms by (auto simp: ordered_def sorted_wrt_append)
  then show "set (P @ [l]) = upper I l (set (P @ l # R))" "ordered I R" "set R = set (P @ l # R) - upper I l (set (P @ l # R))"
    by (fastforce simp: upper_def)+
qed

text \<open>Taking the component from the stack.\<close>

lemma component_core:
  assumes core: "scc_core n so st ((l, None, {}) # F)" and low: "sc_lowlink st ! idx l = sc_index st ! idx l"
    and s: "sc_s st = P @ l # R"
  defines "st' \<equiv> st\<lparr>sc_s := R, sc_in_s := foldl (\<lambda>i x. i[idx x := False]) (sc_in_s st) (P @ [l])\<rparr>"
  shows "scc_core n so st' F" "sc_done n st' = sc_done n st \<union> set (P @ [l])" "sc_visited n st' = sc_visited n st"
    "x \<in> set (P @ [l]) \<Longrightarrow> (l, x) \<in> (edges n so)\<^sup>* \<and> (x, l) \<in> (edges n so)\<^sup>*" "x \<in> set (P @ [l]) \<Longrightarrow> lit_below n x"
    "x \<in> sc_done n st' \<Longrightarrow> (x, y) \<in> (edges n so)\<^sup>* \<Longrightarrow> y \<in> sc_done n st'"
proof -
  have t: "tarjan (edges n so) (sc_ix st) (sc_lo st) (sc_s st) (sc_done n st) ((l, None, {}) # F)" using core by (simp add: scc_core_def)
  have ll: "sc_lo st l = sc_ix st l" using low by (simp add: sc_lo_def sc_ix_def)
  have "ordered (sc_ix st) (P @ l # R)" using t s by (simp add: tarjan_def)
  note c = component_split [OF this, folded s]
  have sub: "set (sc_s st) \<subseteq> sc_visited n st" using core by (simp add: scc_core_def)
  have rest: "set R = set (sc_s st) - set (P @ [l])" using c by simp
  have f: "sc_ix st' = sc_ix st" "sc_lo st' = sc_lo st" "sc_s st' = R" "sc_visited n st' = sc_visited n st"
    by (simp_all add: st'_def sc_ix_def sc_lo_def sc_visited_def fun_eq_iff)
  show "sc_visited n st' = sc_visited n st" by (rule f(4))
  show d: "sc_done n st' = sc_done n st \<union> set (P @ [l])" using rest sub s unfolding sc_done_def f by auto
  note t' = tarjan_component [OF t ll c(2,3)]
  have "\<forall>k. lit_below n k \<longrightarrow> sc_in_s st' ! idx k = (k \<in> set R)"
  proof (intro allI impI)
    fix k assume k: "lit_below n k"
    then have "idx k < length (sc_in_s st)" using core lit_below_idx by (simp add: scc_core_def)
    then have "sc_in_s st' ! idx k \<longleftrightarrow> sc_in_s st ! idx k \<and> k \<notin> set (P @ [l])" unfolding st'_def using clear_nth(1) [of k "sc_in_s st" "P @ [l]"] by simp
    moreover have "sc_in_s st ! idx k = (k \<in> set (sc_s st))" using core k by (simp add: scc_core_def)
    ultimately show "sc_in_s st' ! idx k = (k \<in> set R)" using rest by blast
  qed
  moreover have "tarjan (edges n so) (sc_ix st') (sc_lo st') (sc_s st') (sc_done n st') F" using t' unfolding f d c(1) .
  moreover have "length (foldl (\<lambda>i x. i[idx x := False]) is xs) = length is" for "is" :: "bool list" and xs
    by (induction xs arbitrary: "is") auto
  then have "length (sc_in_s st') = 2 * n" using core by (simp add: st'_def scc_core_def)
  moreover have "sc_index st' = sc_index st" "sc_lowlink st' = sc_lowlink st" "sc_next st' = sc_next st" by (simp_all add: st'_def)
  ultimately show "scc_core n so st' F" using core sub rest f by (auto simp: scc_core_def)
  show "(l, x) \<in> (edges n so)\<^sup>* \<and> (x, l) \<in> (edges n so)\<^sup>*" if "x \<in> set (P @ [l])"
    using component_mutual [OF t ll, of x] that unfolding c(1) by blast
  show "lit_below n x" if "x \<in> set (P @ [l])" using that sub s by (auto simp: sc_visited_def)
  show "y \<in> sc_done n st'" if "x \<in> sc_done n st'" "(x, y) \<in> (edges n so)\<^sup>*"
    using component_closed [OF t ll, of x y] that unfolding d c(1) by auto
qed

end
