(* ===== verification/SatSccRoots.thy ===== *)
theory SatSccRoots
  imports SatSccProof
begin

text \<open>
  The roots that the search for components leaves: a literal and its root reach each other, and without a conflict
  literals that reach each other have one root. The search ends.
\<close>

section \<open>Implications and complements\<close>

definition mutual :: "(literal \<times> literal) set \<Rightarrow> literal \<Rightarrow> literal \<Rightarrow> bool" where
  "mutual E a b \<longleftrightarrow> (a, b) \<in> E\<^sup>* \<and> (b, a) \<in> E\<^sup>*"

definition skew :: "(literal \<times> literal) set \<Rightarrow> bool" where
  "skew E \<longleftrightarrow> (\<forall>(a, b) \<in> E. (lit_neg b, lit_neg a) \<in> E)"

lemma skew_rtrancl: "(a, b) \<in> E\<^sup>* \<Longrightarrow> skew E \<Longrightarrow> (lit_neg b, lit_neg a) \<in> E\<^sup>*"
proof (induction rule: rtrancl_induct)
  case (step y z)
  then have "(lit_neg z, lit_neg y) \<in> E" by (auto simp: skew_def)
  then show ?case using step by (meson converse_rtrancl_into_rtrancl)
qed simp

lemma mutual_simps [simp]: "mutual E a a"
  by (simp add: mutual_def)

lemma mutual_sym: "mutual E a b \<Longrightarrow> mutual E b a"
  by (simp add: mutual_def)

lemma mutual_trans [trans]: "mutual E a b \<Longrightarrow> mutual E b c \<Longrightarrow> mutual E a c"
  unfolding mutual_def by (meson rtrancl_trans)

lemma mutual_neg: "skew E \<Longrightarrow> mutual E a b \<Longrightarrow> mutual E (lit_neg a) (lit_neg b)"
  using skew_rtrancl by (auto simp: mutual_def)

definition contradictory :: "(literal \<times> literal) set \<Rightarrow> bool" where
  "contradictory E \<longleftrightarrow> (\<exists>l. mutual E l (lit_neg l))"

section \<open>Assigning roots\<close>

definition root_value :: "literal \<Rightarrow> literal \<Rightarrow> literal" where
  "root_value x r = (if lit_sign x then lit_neg r else r)"

lemma assign_root_simp:
  "assign_root r x (roots, te) =
     (if roots ! unat (lit_var x) = null_literal
      then (roots[unat (lit_var x) := root_value x r], if lit_var x \<noteq> lit_var r then te @ [lit_var x] else te) else (roots, te))"
  by (simp add: assign_root_def root_value_def Let_def)

lemma root_value_below:
  assumes "lit_below n r" "below_null n"
  shows "lit_below n (root_value x r)" "root_value x r \<noteq> null_literal" "lit_var (root_value x r) = lit_var r"
  using assms null_above [of n "root_value x r"] by (auto simp: root_value_def below_null_def)

abbreviation assign_all :: "literal \<Rightarrow> literal list \<Rightarrow> literal list \<times> bool_var list \<Rightarrow> literal list \<times> bool_var list" where
  "assign_all r xs rt \<equiv> foldl (\<lambda>rt x. assign_root r x rt) rt xs"

lemma assign_all_spec:
  assumes r: "lit_below n r" "below_null n" and x: "\<forall>x \<in> set xs. lit_below n x \<and> roots ! unat (lit_var x) = null_literal"
    and l: "length roots = n" and t: "distinct te" "\<forall>v \<in> set te. roots ! unat v \<noteq> null_literal"
    and e: "assign_all r xs (roots, te) = (roots', te')"
  shows "length roots' = n \<and> (\<forall>v. v \<notin> lit_var ` set xs \<longrightarrow> roots' ! unat v = roots ! unat v) \<and>
    (\<forall>v \<in> lit_var ` set xs. \<exists>x \<in> set xs. lit_var x = v \<and> roots' ! unat v = root_value x r) \<and>
    distinct te' \<and> set te' = set te \<union> (lit_var ` set xs - {lit_var r})"
  using x e
proof (induction xs arbitrary: roots' te' rule: rev_induct)
  case (snoc x xs)
  obtain roots1 te1 where e1: "assign_all r xs (roots, te) = (roots1, te1)" by (metis prod.exhaust)
  have ih: "length roots1 = n \<and> (\<forall>v. v \<notin> lit_var ` set xs \<longrightarrow> roots1 ! unat v = roots ! unat v) \<and>
    (\<forall>v \<in> lit_var ` set xs. \<exists>x \<in> set xs. lit_var x = v \<and> roots1 ! unat v = root_value x r) \<and>
    distinct te1 \<and> set te1 = set te \<union> (lit_var ` set xs - {lit_var r})"
    using snoc.IH [OF _ e1] snoc.prems(1) by simp
  have e2: "(roots', te') = assign_root r x (roots1, te1)" using snoc.prems(2) e1 by simp
  show ?case
  proof (cases "lit_var x \<in> lit_var ` set xs")
    case True
    then obtain y where y: "y \<in> set xs" "lit_var y = lit_var x" "roots1 ! unat (lit_var x) = root_value y r" using ih by metis
    then have "roots1 ! unat (lit_var x) \<noteq> null_literal" using root_value_below(2) [OF r] by simp
    then have "roots' = roots1" "te' = te1" using e2 by (simp_all add: assign_root_simp)
    moreover have "lit_var ` set (xs @ [x]) = lit_var ` set xs" using True by auto
    moreover have "\<exists>z \<in> set (xs @ [x]). lit_var z = v \<and> roots1 ! unat v = root_value z r" if "v \<in> lit_var ` set xs" for v
      using ih that by (metis Un_iff set_append)
    ultimately show ?thesis using ih by auto
  next
    case False
    then have "roots1 ! unat (lit_var x) = null_literal" using ih snoc.prems(1) by simp
    then have e3: "roots' = roots1[unat (lit_var x) := root_value x r]" "te' = (if lit_var x \<noteq> lit_var r then te1 @ [lit_var x] else te1)"
      using e2 by (simp_all add: assign_root_simp)
    have i: "unat (lit_var x) < length roots1" using ih snoc.prems(1) by (simp add: lit_below_def)
    have at: "roots' ! unat v = (if v = lit_var x then root_value x r else roots1 ! unat v)" for v
      unfolding e3(1) using i by (metis nth_list_update_eq nth_list_update_neq word_unat_eq_iff)
    have nt: "lit_var x \<notin> set te1" using False ih t(2) snoc.prems(1) by auto
    have dist: "distinct te1" using ih by blast
    show ?thesis
    proof (intro conjI allI ballI impI)
      show "length roots' = n" using ih e3 by simp
      show "roots' ! unat v = roots ! unat v" if "v \<notin> lit_var ` set (xs @ [x])" for v using that ih by (simp add: at)
      show "\<exists>y \<in> set (xs @ [x]). lit_var y = v \<and> roots' ! unat v = root_value y r" if "v \<in> lit_var ` set (xs @ [x])" for v
      proof (cases "v = lit_var x")
        case True
        then show ?thesis by (intro bexI [of _ x]) (simp_all add: at)
      next
        case neq: False
        then have "v \<in> lit_var ` set xs" using that by auto
        then obtain y where "y \<in> set xs" "lit_var y = v" "roots1 ! unat v = root_value y r" using ih by blast
        then show ?thesis using neq by (intro bexI [of _ y]) (simp_all add: at)
      qed
      show "distinct te'" using dist nt e3(2) by simp
      show "set te' = set te \<union> (lit_var ` set (xs @ [x]) - {lit_var r})" using ih e3(2) by auto
    qed
  qed
qed (use l t in simp)

lemma assign_all_keeps:
  fixes v :: bool_var
  shows "roots ! unat v \<noteq> null_literal \<Longrightarrow> fst (assign_all r xs (roots, te)) ! unat v = roots ! unat v"
proof (induction xs arbitrary: roots te)
  case (Cons x xs)
  obtain roots1 te1 where e: "assign_root r x (roots, te) = (roots1, te1)" by (metis prod.exhaust)
  have "roots1 ! unat v = roots ! unat v"
  proof (cases "lit_var x = v")
    case False
    then have "unat (lit_var x) \<noteq> unat v" by (simp add: word_unat_eq_iff)
    then show ?thesis using e by (auto simp: assign_root_simp split: if_splits)
  qed (use e Cons.prems in \<open>auto simp: assign_root_simp\<close>)
  then show ?case using Cons e by simp
qed simp

text \<open>The root itself comes before its complement, so that it is its own root.\<close>

lemma assign_all_root:
  assumes r: "lit_below n r" "below_null n" and x: "\<forall>x \<in> set xs. lit_below n x \<and> roots ! unat (lit_var x) = null_literal"
    and l: "length roots = n" "distinct te" "\<forall>v \<in> set te. roots ! unat v \<noteq> null_literal"
    and xs: "xs = P1 @ r # P2" "distinct xs" "lit_neg r \<notin> set P1"
  shows "fst (assign_all r xs (roots, te)) ! unat (lit_var r) = root_value r r"
proof -
  obtain roots1 te1 where e1: "assign_all r P1 (roots, te) = (roots1, te1)" by (metis prod.exhaust)
  have p: "\<forall>x \<in> set P1. lit_below n x \<and> roots ! unat (lit_var x) = null_literal" using x xs(1) by simp
  have "lit_var r \<notin> lit_var ` set P1"
  proof
    assume "lit_var r \<in> lit_var ` set P1"
    then obtain y where "y \<in> set P1" "lit_var y = lit_var r" by auto
    then show False using xs same_var [of y r] by auto
  qed
  then have "roots1 ! unat (lit_var r) = null_literal" "length roots1 = n" using assign_all_spec [OF r p l e1] x xs(1) by simp_all
  moreover have "unat (lit_var r) < n" using r by (simp add: lit_below_def)
  ultimately have "fst (assign_root r r (roots1, te1)) ! unat (lit_var r) = root_value r r" by (simp add: assign_root_simp)
  moreover obtain roots2 te2 where e2: "assign_root r r (roots1, te1) = (roots2, te2)" by (metis prod.exhaust)
  ultimately have "fst (assign_all r P2 (roots2, te2)) ! unat (lit_var r) = root_value r r"
    using assign_all_keeps [of roots2 "lit_var r" r te2 P2] root_value_below(2) [OF r, of r] by simp
  then show ?thesis using e1 e2 xs(1) by simp
qed

section \<open>What holds of the roots\<close>

definition roots_inv :: "nat \<Rightarrow> (literal \<times> literal) set \<Rightarrow> literal set \<Rightarrow> literal list \<Rightarrow> bool_var list \<Rightarrow> bool" where
  "roots_inv n E D roots te \<longleftrightarrow>
     length roots = n \<and> (\<forall>x \<in> D. lit_below n x \<and> roots ! unat (lit_var x) \<noteq> null_literal) \<and>
     (\<forall>v. unat v < n \<and> roots ! unat v \<noteq> null_literal \<longrightarrow> (\<exists>x \<in> D. lit_var x = v) \<and> lit_below n (roots ! unat v) \<and>
        mutual E (mk_literal v False) (roots ! unat v) \<and>
        roots ! unat (lit_var (roots ! unat v)) = mk_literal (lit_var (roots ! unat v)) False) \<and>
     distinct te \<and> set te = {v. unat v < n \<and> roots ! unat v \<noteq> null_literal \<and> lit_var (roots ! unat v) \<noteq> v} \<and>
     (\<not> contradictory E \<longrightarrow> (\<forall>x \<in> D. \<forall>y \<in> D. mutual E x y \<longrightarrow> norm_lit roots x = norm_lit roots y))"

lemma roots_inv_at:
  assumes "roots_inv n E D roots te" "unat v < n" "roots ! unat v \<noteq> null_literal"
  shows "(\<exists>x \<in> D. lit_var x = v) \<and> lit_below n (roots ! unat v) \<and> mutual E (mk_literal v False) (roots ! unat v) \<and>
    roots ! unat (lit_var (roots ! unat v)) = mk_literal (lit_var (roots ! unat v)) False"
  using assms unfolding roots_inv_def by blast

lemma below_parts:
  assumes "lit_below n l" "below_null n"
  shows "(if lit_sign l then lit_neg l else l) = mk_literal (lit_var l) False"
proof -
  have "lit_var l < 2147483648" using assms by (simp add: lit_below_def below_null_def word_less_nat_alt)
  then show ?thesis using mk_literal_parts [of "lit_var l" False] by (auto simp: lit_eq_iff)
qed

text \<open>A component whose complement has its roots.\<close>

lemma roots_inv_consume:
  assumes inv: "roots_inv n E D roots te" and E: "skew E" and closed: "\<And>x y. x \<in> D \<Longrightarrow> (x, y) \<in> E\<^sup>* \<Longrightarrow> y \<in> D"
    and C: "\<And>x. x \<in> C \<Longrightarrow> mutual E l x \<and> lit_below n x" "C \<inter> D = {}" "l \<in> C" and l: "roots ! unat (lit_var l) \<noteq> null_literal"
  shows "roots_inv n E (D \<union> C) roots te"
proof -
  have "unat (lit_var l) < n" using C by (simp add: lit_below_def)
  then obtain z where z: "z \<in> D" "lit_var z = lit_var l" using inv l unfolding roots_inv_def by blast
  then have nl: "lit_neg l \<in> D" using C same_var [of z l] by auto
  have neg: "lit_neg x \<in> D" if "x \<in> C" for x
    using closed [OF nl] mutual_neg [OF E, of l x] C(1) [OF that] by (simp add: mutual_def)
  have "norm_lit roots x = norm_lit roots y" if c: "\<not> contradictory E" and xy: "x \<in> D \<union> C" "y \<in> D \<union> C" "mutual E x y" for x y
  proof (cases "x \<in> C \<or> y \<in> C")
    case True
    have "x \<in> C \<and> y \<in> C" using True xy closed C(2) by (auto simp: mutual_def)
    then have "norm_lit roots (lit_neg x) = norm_lit roots (lit_neg y)"
      using inv c neg mutual_neg [OF E xy(3)] unfolding roots_inv_def by blast
    then show ?thesis by (simp add: norm_neg)
  next
    case False
    then show ?thesis using inv c xy unfolding roots_inv_def by blast
  qed
  moreover have "lit_below n x \<and> roots ! unat (lit_var x) \<noteq> null_literal" if "x \<in> C" for x
    using inv neg [OF that] C(1) [OF that] by (auto simp: roots_inv_def)
  ultimately show ?thesis using inv unfolding roots_inv_def by blast
qed

text \<open>A component that gets its roots.\<close>

lemma roots_inv_assign:
  assumes inv: "roots_inv n E D roots te" and E: "skew E" "below_null n" and closed: "\<And>x y. x \<in> D \<Longrightarrow> (x, y) \<in> E\<^sup>* \<Longrightarrow> y \<in> D"
    and C: "\<And>x. x \<in> set xs \<Longrightarrow> mutual E l x \<and> lit_below n x" "set xs \<inter> D = {}" "l \<in> set xs" and l: "roots ! unat (lit_var l) = null_literal"
    and xs: "xs = P1 @ r # P2" "distinct xs" "lit_neg r \<notin> set P1" and e: "assign_all r xs (roots, te) = (roots', te')"
  shows "roots_inv n E (D \<union> set xs) roots' te'"
proof -
  have r: "lit_below n r" "r \<in> set xs" using C(1) xs(1) by simp_all
  have null: "roots ! unat (lit_var x) = null_literal" if "x \<in> set xs" for x
  proof (rule ccontr)
    assume h: "roots ! unat (lit_var x) \<noteq> null_literal"
    have "unat (lit_var x) < n" using C(1) [OF that] by (simp add: lit_below_def)
    then obtain z where z: "z \<in> D" "lit_var z = lit_var x" using inv h unfolding roots_inv_def by blast
    then have "lit_neg x \<in> D" using C(2) that same_var [of z x] by auto
    then have "lit_neg l \<in> D" using closed mutual_neg [OF E(1)] C(1) [OF that] by (auto simp: mutual_def)
    then show False using inv l by (auto simp: roots_inv_def)
  qed
  have te: "distinct te" "\<forall>v \<in> set te. roots ! unat v \<noteq> null_literal" using inv by (auto simp: roots_inv_def)
  have len: "length roots = n" using inv by (simp add: roots_inv_def)
  have nb: "\<forall>x \<in> set xs. lit_below n x \<and> roots ! unat (lit_var x) = null_literal" using null C(1) by simp
  note sp = assign_all_spec [OF r(1) E(2) nb len te e]
  have old: "roots' ! unat v = roots ! unat v" if "v \<notin> lit_var ` set xs" for v using sp that by simp
  have new: "\<exists>x \<in> set xs. lit_var x = v \<and> roots' ! unat v = root_value x r" if "v \<in> lit_var ` set xs" for v using sp that by blast
  have rr: "roots' ! unat (lit_var r) = mk_literal (lit_var r) False"
    using assign_all_root [OF r(1) E(2) nb len te xs] e below_parts [OF r(1) E(2)] by (simp add: root_value_def)
  have nn: "root_value x r \<noteq> null_literal" "lit_var (root_value x r) = lit_var r" "lit_below n (root_value x r)" for x
    using root_value_below [OF r(1) E(2)] by simp_all
  have Dv: "lit_var x \<notin> lit_var ` set xs" if "x \<in> D" for x
  proof
    assume "lit_var x \<in> lit_var ` set xs"
    then have "roots ! unat (lit_var x) = null_literal" using null by auto
    then show False using inv that by (simp add: roots_inv_def)
  qed
  have m: "mutual E x r" if "x \<in> set xs" for x using C(1) [OF that] C(1) [OF r(2)] mutual_sym mutual_trans by blast
  have 1: "lit_below n x \<and> roots' ! unat (lit_var x) \<noteq> null_literal" if "x \<in> D \<union> set xs" for x
  proof (cases "lit_var x \<in> lit_var ` set xs")
    case True
    then have "roots' ! unat (lit_var x) \<noteq> null_literal" using new nn by metis
    then show ?thesis using that inv C(1) by (auto simp: roots_inv_def)
  next
    case False
    then show ?thesis using that inv old by (auto simp: roots_inv_def)
  qed
  have 2: "(\<exists>x \<in> D \<union> set xs. lit_var x = v) \<and> lit_below n (roots' ! unat v) \<and> mutual E (mk_literal v False) (roots' ! unat v) \<and>
      roots' ! unat (lit_var (roots' ! unat v)) = mk_literal (lit_var (roots' ! unat v)) False"
    if v: "unat v < n" "roots' ! unat v \<noteq> null_literal" for v
  proof (cases "v \<in> lit_var ` set xs")
    case True
    then obtain x where x: "x \<in> set xs" "lit_var x = v" "roots' ! unat v = root_value x r" using new by blast
    have "mk_literal v False = (if lit_sign x then lit_neg x else x)" using below_parts [of n x] C(1) [OF x(1)] E(2) x(2) by simp
    then have "mutual E (mk_literal v False) (root_value x r)" using m [OF x(1)] mutual_neg [OF E(1)] by (simp add: root_value_def)
    then show ?thesis using x nn rr by auto
  next
    case False
    have o: "roots' ! unat v = roots ! unat v" by (rule old [OF False])
    then have i: "(\<exists>x \<in> D. lit_var x = v) \<and> lit_below n (roots ! unat v) \<and> mutual E (mk_literal v False) (roots ! unat v) \<and>
        roots ! unat (lit_var (roots ! unat v)) = mk_literal (lit_var (roots ! unat v)) False"
      using roots_inv_at [OF inv v(1)] v(2) by simp
    let ?w = "lit_var (roots ! unat v)"
    have "mk_literal ?w False \<noteq> null_literal"
    proof -
      have "lit_below n (mk_literal ?w False)"
        using i below_parts [of n "roots ! unat v"] E(2) by (metis lit_below_neg)
      then show ?thesis using null_above E(2) by (simp add: below_null_def)
    qed
    then have "?w \<notin> lit_var ` set xs" using null i by auto
    then show ?thesis using i o old by auto
  qed
  have v: "unat v < n \<and> roots' ! unat v \<noteq> null_literal \<and> lit_var (roots' ! unat v) = lit_var r \<and> roots ! unat v = null_literal"
    if v: "v \<in> lit_var ` set xs" for v
  proof -
    obtain x where x: "x \<in> set xs" "lit_var x = v" "roots' ! unat v = root_value x r" using new [OF v] by blast
    then have "lit_below n x" "roots ! unat v = null_literal" using nb by auto
    then show ?thesis using nn x by (auto simp: lit_below_def)
  qed
  have te': "set te' = set te \<union> (lit_var ` set xs - {lit_var r})" using sp by simp
  have 3: "set te' = {v. unat v < n \<and> roots' ! unat v \<noteq> null_literal \<and> lit_var (roots' ! unat v) \<noteq> v}"
  proof (rule set_eqI)
    fix w
    have t: "w \<in> set te \<longleftrightarrow> unat w < n \<and> roots ! unat w \<noteq> null_literal \<and> lit_var (roots ! unat w) \<noteq> w"
      using inv by (simp add: roots_inv_def)
    show "w \<in> set te' \<longleftrightarrow> w \<in> {v. unat v < n \<and> roots' ! unat v \<noteq> null_literal \<and> lit_var (roots' ! unat v) \<noteq> v}"
    proof (cases "w \<in> lit_var ` set xs")
      case True
      have "w \<notin> set te" using t v [OF True] by simp
      moreover have "unat w < n" "roots' ! unat w \<noteq> null_literal" "lit_var (roots' ! unat w) = lit_var r" using v [OF True] by simp_all
      ultimately show ?thesis using True unfolding te' by auto
    next
      case False
      then show ?thesis using old [OF False] t te' by auto
    qed
  qed
  have 4: "norm_lit roots' x = norm_lit roots' y" if c: "\<not> contradictory E" and xy: "x \<in> D \<union> set xs" "y \<in> D \<union> set xs" "mutual E x y" for x y
  proof (cases "x \<in> set xs \<or> y \<in> set xs")
    case True
    then have s: "x \<in> set xs" "y \<in> set xs" using xy closed C(2) by (auto simp: mutual_def)
    have "norm_lit roots' z = r" if z: "z \<in> set xs" for z
    proof -
      obtain z' where z': "z' \<in> set xs" "lit_var z' = lit_var z" "roots' ! unat (lit_var z) = root_value z' r" using new z by blast
      have "z' \<noteq> lit_neg z"
      proof
        assume "z' = lit_neg z"
        then have "mutual E z (lit_neg z)" using m z z' mutual_sym mutual_trans by metis
        then show False using c by (auto simp: contradictory_def)
      qed
      then have "z' = z" using z'(2) same_var by blast
      then show ?thesis using z' by (simp add: norm_lit_def root_value_def)
    qed
    then show ?thesis using s by simp
  next
    case False
    then have "x \<in> D" "y \<in> D" using xy by auto
    then have "norm_lit roots x = norm_lit roots y" using inv c xy(3) unfolding roots_inv_def by blast
    moreover have "norm_lit roots' z = norm_lit roots z" if "z \<in> D" for z using old Dv [OF that] by (simp add: norm_lit_def)
    ultimately show ?thesis using \<open>x \<in> D\<close> \<open>y \<in> D\<close> by simp
  qed
  have i: "\<forall>x \<in> D \<union> set xs. lit_below n x \<and> roots' ! unat (lit_var x) \<noteq> null_literal" using 1 by blast
  have ii: "\<forall>v. unat v < n \<and> roots' ! unat v \<noteq> null_literal \<longrightarrow> (\<exists>x \<in> D \<union> set xs. lit_var x = v) \<and> lit_below n (roots' ! unat v) \<and>
      mutual E (mk_literal v False) (roots' ! unat v) \<and>
      roots' ! unat (lit_var (roots' ! unat v)) = mk_literal (lit_var (roots' ! unat v)) False" using 2 by blast
  have iv: "\<not> contradictory E \<longrightarrow> (\<forall>x \<in> D \<union> set xs. \<forall>y \<in> D \<union> set xs. mutual E x y \<longrightarrow> norm_lit roots' x = norm_lit roots' y)"
    using 4 by blast
  have v: "length roots' = n" "distinct te'" using sp by blast+
  show ?thesis unfolding roots_inv_def by (intro conjI) (fact v i ii 3 iv)+
qed

end
