(* ===== verification/SatSccSearch.thy ===== *)
theory SatSccSearch
  imports SatSccRoots
begin

text \<open>
  The search for components as a whole: each pass of its loop keeps the invariants, it ends, and its result is what
  the elimination of equivalent literals needs.
\<close>

section \<open>One pass\<close>

definition frames_ok :: "scc_frame list \<Rightarrow> bool" where
  "frames_ok frs \<longleftrightarrow> (\<forall>fr \<in> set frs. fr_first fr \<or> fr_it fr \<noteq> [] \<and> is_binary_clause (hd (fr_it fr)))"

definition scc_inv :: "nat \<Rightarrow> scc_solver \<Rightarrow> scc_state \<Rightarrow> bool" where
  "scc_inv n so st \<longleftrightarrow> scc_core n so st (map frame_of (sc_frames st)) \<and> frames_ok (sc_frames st) \<and>
     roots_inv n (edges n so) (sc_done n st) (sc_roots st) (sc_to_elim st)"

definition graph_ok :: "nat \<Rightarrow> scc_solver \<Rightarrow> bool" where
  "graph_ok n so \<longleftrightarrow> below_null n \<and> skew (edges n so) \<and> (\<forall>(a, b) \<in> edges n so. lit_below n b)"

lemma scc_core_frames [simp]: "scc_core n so (st\<lparr>sc_frames := frs\<rparr>) F = scc_core n so st F"
    "sc_done n (st\<lparr>sc_frames := frs\<rparr>) = sc_done n st" "sc_visited n (st\<lparr>sc_frames := frs\<rparr>) = sc_visited n st"
  by (simp_all add: scc_core_def sc_done_def sc_visited_def sc_ix_def [abs_def] sc_lo_def [abs_def])

lemma scc_core_roots [simp]: "scc_core n so (st\<lparr>sc_roots := r, sc_to_elim := t\<rparr>) F = scc_core n so st F"
    "sc_done n (st\<lparr>sc_roots := r, sc_to_elim := t\<rparr>) = sc_done n st"
    "sc_visited n (st\<lparr>sc_roots := r, sc_to_elim := t\<rparr>) = sc_visited n st"
  by (simp_all add: scc_core_def sc_done_def sc_visited_def sc_ix_def [abs_def] sc_lo_def [abs_def])

text \<open>A component at the top of the stack.\<close>

lemma new_component_inv:
  assumes g: "graph_ok n so" and core: "scc_core n so st ((l, None, {}) # F)"
    and low: "sc_lowlink st ! idx l = sc_index st ! idx l"
    and ri: "roots_inv n (edges n so) (sc_done n st) (sc_roots st) (sc_to_elim st)"
  shows "case new_component ext l st of None \<Rightarrow> contradictory (edges n so)
    | Some st' \<Rightarrow> scc_core n so st' F \<and> roots_inv n (edges n so) (sc_done n st') (sc_roots st') (sc_to_elim st') \<and>
        sc_visited n st' = sc_visited n st"
proof -
  let ?E = "edges n so"
  have t: "tarjan ?E (sc_ix st) (sc_lo st) (sc_s st) (sc_done n st) ((l, None, {}) # F)" using core by (simp add: scc_core_def)
  have "l \<in> set (sc_s st)" using tarjan_facts(9) [OF t, of "(l, None, {})"] by simp
  then obtain P R where s: "sc_s st = P @ l # R" "l \<notin> set P" by (meson split_list_first)
  let ?in = "foldl (\<lambda>i x. i[idx x := False]) (sc_in_s st) (P @ [l])"
  let ?st = "st\<lparr>sc_s := R, sc_in_s := ?in\<rparr>"
  note c = component_core [OF core low s(1)]
  have sk: "skew ?E" and nn: "below_null n" using g by (simp_all add: graph_ok_def)
  have closed: "y \<in> sc_done n st" if "x \<in> sc_done n st" "(x, y) \<in> ?E\<^sup>*" for x y
  proof -
    have "?E `` sc_done n st \<subseteq> sc_done n st" by (rule tarjan_facts(6) [OF t])
    with that(2,1) show ?thesis by (induction rule: rtrancl_induct) auto
  qed
  have C: "mutual ?E l x \<and> lit_below n x" if "x \<in> set (P @ [l])" for x using c(4,5) [OF that] by (simp add: mutual_def)
  have disj: "set (P @ [l]) \<inter> sc_done n st = {}" using s by (auto simp: sc_done_def)
  have dist: "distinct (P @ [l])"
  proof -
    have "ordered I xs \<Longrightarrow> distinct xs" for I :: "literal \<Rightarrow> nat" and xs by (induction xs) (auto simp: ordered_Cons)
    moreover have "ordered (sc_ix st) (sc_s st)" using t by (simp add: tarjan_def)
    ultimately have "distinct (sc_s st)" by blast
    then show ?thesis using s by simp
  qed
  show ?thesis
  proof (cases "sc_roots st ! unat (lit_var l) = null_literal")
    case False
    have "new_component ext l st = Some ?st" using False by (simp add: new_component_def s(1) consume_stack_eq [OF s(2)])
    moreover have "roots_inv n ?E (sc_done n st \<union> set (P @ [l])) (sc_roots st) (sc_to_elim st)"
      by (rule roots_inv_consume [where l = l, OF ri sk closed C disj _ False]) simp_all
    ultimately show ?thesis using c(1-3) by simp
  next
    case null: True
    show ?thesis
    proof (cases "choose_root ext l (sc_s st)")
      case None
      then have "lit_neg l \<in> set (P @ [l])" using choose_root_None [OF s(2)] s(1) by simp
      then have "contradictory ?E" using C unfolding contradictory_def by blast
      then show ?thesis using null None by (simp add: new_component_def)
    next
      case (Some r)
      obtain P1 P2 where p: "P @ [l] = P1 @ r # P2" "lit_neg r \<notin> set P1" using choose_root_Some [OF s(2)] Some s(1) by metis
      obtain roots' te' where e: "assign_all r (P @ [l]) (sc_roots st, sc_to_elim st) = (roots', te')" by (metis prod.exhaust)
      have "new_component ext l st = Some (?st\<lparr>sc_roots := roots', sc_to_elim := te'\<rparr>)"
        using null Some e by (simp add: new_component_def s(1) assign_roots_eq [OF s(2)])
      moreover have "roots_inv n ?E (sc_done n st \<union> set (P @ [l])) roots' te'"
        by (rule roots_inv_assign [where l = l, OF ri sk nn closed C disj _ null p(1) dist p(2) e]) simp_all
      ultimately show ?thesis using c(1-3) by simp
    qed
  qed
qed

lemma scc_step_inv:
  assumes g: "graph_ok n so" and inv: "scc_inv n so st" and fs: "sc_frames st = fr # frs"
  shows "case scc_step so fr frs st of None \<Rightarrow> contradictory (edges n so)
    | Some st' \<Rightarrow> scc_inv n so st' \<and> sc_visited n st \<subseteq> sc_visited n st' \<and>
        (sc_visited n st' = sc_visited n st \<and> sc_frames st' = frs \<or> card (sc_visited n st') = Suc (card (sc_visited n st)) \<and> card (sc_visited n st') \<le> 2 * n)"
proof -
  let ?l = "fr_lit fr" and ?F = "map frame_of frs"
  have core: "scc_core n so st (frame_of fr # ?F)" and fok: "fr_first fr \<or> fr_it fr \<noteq> [] \<and> is_binary_clause (hd (fr_it fr))" "frames_ok frs"
    and ri: "roots_inv n (edges n so) (sc_done n st) (sc_roots st) (sc_to_elim st)"
    using inv fs by (simp_all add: scc_inv_def frames_ok_def)
  have nn: "below_null n" and tgt: "\<forall>(a, b) \<in> edges n so. lit_below n b" using g by (simp_all add: graph_ok_def)
  obtain it1 low1 where e1: "after_child fr (sc_lowlink st) = (it1, low1)" by (metis prod.exhaust)
  obtain it low where e2: "scan_successors (sc_index st) (sc_in_s st) ?l it1 low1 = (it, low)" by (metis prod.exhaust)
  let ?st = "st\<lparr>sc_lowlink := low\<rparr>"
  note c1 = after_child_core(1) [OF core fok(1) e1]
  have c2: "scc_core n so ?st ((?l, None, bin_lits it) # ?F)"
    "it = [] \<or> is_binary_clause (hd it) \<and> sc_index st ! idx (w_literal (hd it)) = - 1"
    using scan_core [OF c1 tgt e2] by simp_all
  show ?thesis
  proof (cases it)
    case Nil
    show ?thesis
    proof (cases "low ! idx ?l = sc_index st ! idx ?l")
      case True
      have "scc_core n so ?st ((?l, None, {}) # ?F)" using c2(1) Nil by simp
      note nc = new_component_inv [OF g this, of "so_external so"]
      show ?thesis using nc True ri fok(2) e1 e2 Nil by (cases "new_component (so_external so) ?l ?st") (auto simp: scc_step_def scc_inv_def)
    next
      case False
      have t: "tarjan (edges n so) (sc_ix ?st) (sc_lo ?st) (sc_s ?st) (sc_done n ?st) ((?l, None, {}) # ?F)"
        using c2(1) Nil by (simp add: scc_core_def)
      have "sc_lo ?st ?l \<noteq> sc_ix ?st ?l" using False by (simp add: sc_lo_def sc_ix_def word_unat_eq_iff)
      note tarjan_leave [OF t this]
      then have "scc_core n so ?st ?F" using c2(1) by (auto simp: scc_core_def)
      then show ?thesis using False ri fok(2) e1 e2 Nil by (simp add: scc_step_def scc_inv_def)
    qed
  next
    case (Cons w ws)
    let ?y = "w_literal w" and ?fr = "fr\<lparr>fr_first := False, fr_it := it\<rparr>"
    let ?st1 = "?st\<lparr>sc_frames := ?fr # frs\<rparr>"
    have w: "is_binary_clause w" "sc_index ?st1 ! idx ?y = - 1" using c2(2) Cons by simp_all
    have core1: "scc_core n so ?st1 ((?l, None, bin_lits it) # ?F)" using c2(1) by simp
    have t: "tarjan (edges n so) (sc_ix ?st1) (sc_lo ?st1) (sc_s ?st1) (sc_done n ?st1) ((?l, None, bin_lits it) # ?F)"
      using core1 unfolding scc_core_def by blast
    have y: "?y \<in> bin_lits it" using Cons w(1) by (simp add: bin_lits_Cons)
    then have "(?l, ?y) \<in> edges n so" using tarjan_facts(8) [OF t, of "(?l, None, bin_lits it)"] by auto
    then have yb: "lit_below n ?y" using tgt by auto
    have top: "\<forall>l p T G. (?l, None, bin_lits it) # ?F = (l, p, T) # G \<longrightarrow> p = None \<and> ?y \<in> T" using y by simp
    note nw = new_node_core [OF core1 top yb w(2) nn]
    have e: "scc_step so fr frs st = Some (new_node so ?y ?st1)" using e1 e2 Cons by (simp add: scc_step_def)
    let ?st2 = "new_node so ?y ?st1"
    have f: "sc_frames ?st2 = \<lparr>fr_lit = ?y, fr_first = True, fr_it = so_watches so ! idx ?y\<rparr> # ?fr # frs"
      "sc_roots ?st2 = sc_roots st" "sc_to_elim ?st2 = sc_to_elim st" by (simp_all add: new_node_def Let_def)
    have m: "map frame_of (sc_frames ?st2) = (?y, None, bin_lits (so_watches so ! idx ?y)) # child_of_top ?y ((?l, None, bin_lits it) # ?F)"
      unfolding f using Cons by (simp add: frame_of_def child_of_top_def)
    have "frames_ok (sc_frames ?st2)" unfolding f using fok(2) Cons w(1) by (simp add: frames_ok_def)
    then have i: "scc_inv n so ?st2" using nw(1) ri unfolding scc_inv_def m f(2,3) nw(3) by simp
    have yv: "?y \<notin> sc_visited n st" using w(2) by (simp add: sc_visited_def)
    have v: "sc_visited n ?st2 = insert ?y (sc_visited n st)" using nw(2) by simp
    have "card (sc_visited n ?st2) = Suc (card (sc_visited n st))" unfolding v using yv visited_card(1) [OF nn] by simp
    then show ?thesis using i v visited_card(2) [OF nn yv yb] unfolding e by auto
  qed
qed

section \<open>The loops\<close>

definition scc_measure :: "nat \<Rightarrow> (scc_state \<times> scc_state) set" where
  "scc_measure n = inv_image (less_than <*lex*> less_than) (\<lambda>st. (2 * n - card (sc_visited n st), length (sc_frames st)))"

lemma wf_scc_measure: "wf (scc_measure n)"
  by (simp add: scc_measure_def wf_lex_prod)

text \<open>The loop over the frames ends: a pass visits a literal, or takes a frame away.\<close>

lemma scc_loop_inv:
  assumes g: "graph_ok n so"
  shows "scc_inv n so st \<Longrightarrow> \<exists>r. scc_loop so st = Some r \<and> (r = None \<longrightarrow> contradictory (edges n so)) \<and>
    (\<forall>st'. r = Some st' \<longrightarrow> scc_inv n so st' \<and> sc_frames st' = [] \<and> sc_visited n st \<subseteq> sc_visited n st')"
proof (induction st rule: wf_induct_rule [OF wf_scc_measure [of n]])
  case (1 st)
  show ?case
  proof (cases "sc_frames st")
    case Nil
    then show ?thesis using 1(2) by (intro exI [of _ "Some st"]) (simp add: scc_loop.simps)
  next
    case (Cons fr frs)
    note s = scc_step_inv [OF g 1(2) Cons]
    show ?thesis
    proof (cases "scc_step so fr frs st")
      case None
      then show ?thesis using s Cons by (intro exI [of _ None]) (simp add: scc_loop.simps)
    next
      case (Some st')
      have i: "scc_inv n so st'" "sc_visited n st \<subseteq> sc_visited n st'"
        "sc_visited n st' = sc_visited n st \<and> sc_frames st' = frs \<or> card (sc_visited n st') = Suc (card (sc_visited n st)) \<and> card (sc_visited n st') \<le> 2 * n"
        using s Some by simp_all
      then have "(st', st) \<in> scc_measure n" using Cons by (auto simp: scc_measure_def)
      from 1(1) [OF this i(1)] obtain r where r: "scc_loop so st' = Some r" "r = None \<longrightarrow> contradictory (edges n so)"
        "\<forall>st''. r = Some st'' \<longrightarrow> scc_inv n so st'' \<and> sc_frames st'' = [] \<and> sc_visited n st' \<subseteq> sc_visited n st''" by blast
      have "scc_loop so st = Some r" using Cons Some r(1) scc_loop.simps [of so st] by simp
      then show ?thesis using r i(2) by (intro exI [of _ r]) auto
    qed
  qed
qed

lemma scc_search_inv:
  assumes g: "graph_ok n so" and st: "scc_inv n so st" "sc_frames st = []" and i: "\<forall>i \<in> set is. i < 2 * n"
  shows "\<exists>r. scc_search so is st = Some r \<and> (r = None \<longrightarrow> contradictory (edges n so)) \<and>
    (\<forall>st'. r = Some st' \<longrightarrow> scc_inv n so st' \<and> sc_frames st' = [] \<and> sc_visited n st \<subseteq> sc_visited n st' \<and>
      (\<forall>l. idx l \<in> set is \<and> \<not> so_eliminated so ! unat (lit_var l) \<longrightarrow> l \<in> sc_visited n st'))"
  using st i
proof (induction "is" arbitrary: st)
  case (Cons i "is")
  let ?l = "Literal (of_nat i)"
  have nn: "below_null n" using g by (simp add: graph_ok_def)
  have ii: "i < 2 * n" using Cons.prems(3) by simp
  have il: "idx ?l = i" "lit_below n ?l" using lit_at [OF ii nn] by (simp_all add: lit_at_def)
  have eq: "l = ?l" if "idx l = i" for l using that il(1) idx_inject by metis
  show ?case
  proof (cases "sc_index st ! i \<noteq> - 1 \<or> so_eliminated so ! unat (lit_var ?l)")
    case True
    obtain r where r: "scc_search so is st = Some r" "r = None \<longrightarrow> contradictory (edges n so)"
      "\<forall>st'. r = Some st' \<longrightarrow> scc_inv n so st' \<and> sc_frames st' = [] \<and> sc_visited n st \<subseteq> sc_visited n st' \<and>
        (\<forall>l. idx l \<in> set is \<and> \<not> so_eliminated so ! unat (lit_var l) \<longrightarrow> l \<in> sc_visited n st')"
      using Cons.IH [OF Cons.prems(1,2)] Cons.prems(3) by auto
    have "?l \<in> sc_visited n st" if "\<not> so_eliminated so ! unat (lit_var ?l)" using True that il by (simp add: sc_visited_def)
    then show ?thesis using r True eq by (intro exI [of _ r]) auto
  next
    case False
    let ?st = "new_node so ?l st"
    have core: "scc_core n so st []" using Cons.prems(1,2) by (simp add: scc_inv_def)
    have new: "sc_index st ! idx ?l = - 1" using False il by simp
    note nw = new_node_core [OF core _ il(2) new nn, simplified child_of_top_def, simplified]
    have f: "sc_frames ?st = [\<lparr>fr_lit = ?l, fr_first = True, fr_it = so_watches so ! i\<rparr>]" "sc_roots ?st = sc_roots st" "sc_to_elim ?st = sc_to_elim st"
      using Cons.prems(2) il by (simp_all add: new_node_def Let_def)
    have "scc_inv n so ?st"
      using nw Cons.prems(1) il unfolding scc_inv_def f by (simp add: frame_of_def frames_ok_def)
    from scc_loop_inv [OF g this] obtain r1 where r1: "scc_loop so ?st = Some r1" "r1 = None \<longrightarrow> contradictory (edges n so)"
      "\<forall>st'. r1 = Some st' \<longrightarrow> scc_inv n so st' \<and> sc_frames st' = [] \<and> sc_visited n ?st \<subseteq> sc_visited n st'" by blast
    show ?thesis
    proof (cases r1)
      case None
      then show ?thesis using r1 False by (intro exI [of _ None]) simp
    next
      case (Some st1)
      then have s1: "scc_inv n so st1" "sc_frames st1 = []" "sc_visited n ?st \<subseteq> sc_visited n st1" using r1(3) by simp_all
      obtain r where r: "scc_search so is st1 = Some r" "r = None \<longrightarrow> contradictory (edges n so)"
        "\<forall>st'. r = Some st' \<longrightarrow> scc_inv n so st' \<and> sc_frames st' = [] \<and> sc_visited n st1 \<subseteq> sc_visited n st' \<and>
          (\<forall>l. idx l \<in> set is \<and> \<not> so_eliminated so ! unat (lit_var l) \<longrightarrow> l \<in> sc_visited n st')"
        using Cons.IH [OF s1(1,2)] Cons.prems(3) by auto
      have "scc_search so (i # is) st = Some r" using False r1(1) Some r(1) by (simp add: Let_def)
      moreover have "insert ?l (sc_visited n st) \<subseteq> sc_visited n st1" using s1(3) nw(2) by simp
      then have "\<forall>st'. r = Some st' \<longrightarrow> sc_visited n st \<subseteq> sc_visited n st' \<and> ?l \<in> sc_visited n st'" using r(3) by blast
      ultimately show ?thesis using r eq by (intro exI [of _ r]) auto
    qed
  qed
qed simp

lemma scc_init_inv:
  assumes "below_null n"
  shows "scc_inv n so (scc_init n)"
proof -
  have i: "idx l < 2 * n" if "lit_below n l" for l using lit_below_idx that by simp
  then have v: "sc_visited n (scc_init n) = {}" by (auto simp: sc_visited_def scc_init_def)
  have "scc_core n so (scc_init n) []"
    using i tarjan_start [of "edges n so" "sc_ix (scc_init n)" "sc_lo (scc_init n)"]
    unfolding scc_core_def v by (simp add: sc_done_def v) (simp add: scc_init_def)
  moreover have "roots_inv n (edges n so) (sc_done n (scc_init n)) (sc_roots (scc_init n)) (sc_to_elim (scc_init n))"
    unfolding sc_done_def v by (simp add: roots_inv_def scc_init_def)
  moreover have "sc_frames (scc_init n) = []" by (simp add: scc_init_def)
  ultimately show ?thesis by (simp add: scc_inv_def frames_ok_def)
qed


section \<open>The result\<close>

lemma own_roots:
  assumes "unat v < length roots"
  shows "own_roots roots ! unat v = (if roots ! unat v = null_literal then mk_literal v False else roots ! unat v)"
    "length (own_roots roots) = length roots"
  using assms by (simp_all add: own_roots_def nth_enumerate_eq)

lemma finished_stack:
  assumes "scc_core n so st []"
  shows "sc_done n st = sc_visited n st"
proof -
  have t: "tarjan (edges n so) (sc_ix st) (sc_lo st) (sc_s st) (sc_done n st) []" using assms by (simp add: scc_core_def)
  have e: "False" if "x \<in> set (sc_s st)" for x
    using that
  proof (induction "sc_ix st x" arbitrary: x rule: less_induct)
    case less
    then show ?case using tarjan_facts(3) [OF t, of x] by auto
  qed
  have "set (sc_s st) = {}" by (rule equals0I) (rule e)
  then show ?thesis by (simp add: sc_done_def)
qed

lemma scc_roots_spec:
  assumes g: "graph_ok n so"
  shows "\<exists>r. scc_roots so n = Some r \<and> (r = None \<longrightarrow> contradictory (edges n so)) \<and>
    (\<forall>roots to_elim. r = Some (roots, to_elim) \<longrightarrow> classes_ok n roots to_elim \<and>
      (\<forall>l. lit_below n l \<longrightarrow> mutual (edges n so) l (norm_lit roots l)) \<and>
      (\<not> contradictory (edges n so) \<longrightarrow> (\<forall>l k. lit_below n l \<and> lit_below n k \<and> \<not> so_eliminated so ! unat (lit_var l) \<and>
         \<not> so_eliminated so ! unat (lit_var k) \<and> mutual (edges n so) l k \<longrightarrow> norm_lit roots l = norm_lit roots k)))"
proof -
  let ?E = "edges n so"
  have nn: "below_null n" and sk: "skew ?E" using g by (simp_all add: graph_ok_def)
  have "sc_frames (scc_init n) = []" by (simp add: scc_init_def)
  from scc_search_inv [OF g scc_init_inv [OF nn] this, of "[0..<2 * n]"]
  obtain r where r: "scc_search so [0..<2 * n] (scc_init n) = Some r" "r = None \<longrightarrow> contradictory ?E"
    "\<forall>st'. r = Some st' \<longrightarrow> scc_inv n so st' \<and> sc_frames st' = [] \<and>
      (\<forall>l. idx l \<in> set [0..<2 * n] \<and> \<not> so_eliminated so ! unat (lit_var l) \<longrightarrow> l \<in> sc_visited n st')" by auto
  show ?thesis
  proof (cases r)
    case None
    then show ?thesis using r by (simp add: scc_roots_def)
  next
    case (Some st)
    let ?R = "sc_roots st" and ?T = "sc_to_elim st"
    let ?r = "own_roots ?R"
    have i: "scc_inv n so st" "sc_frames st = []" using r(3) Some by simp_all
    have vis: "l \<in> sc_done n st" if "lit_below n l" "\<not> so_eliminated so ! unat (lit_var l)" for l
    proof -
      have "idx l \<in> set [0..<2 * n]" using lit_below_idx [OF that(1)] by simp
      then have "l \<in> sc_visited n st" using r(3) Some that(2) by blast
      moreover have "scc_core n so st []" using i by (simp add: scc_inv_def)
      ultimately show ?thesis using finished_stack by blast
    qed
    have ri: "roots_inv n ?E (sc_done n st) ?R ?T" using i(1) by (simp add: scc_inv_def)
    then have len: "length ?R = n" by (simp add: roots_inv_def)
    have te: "distinct ?T" "\<And>v. v \<in> set ?T \<longleftrightarrow> unat v < n \<and> ?R ! unat v \<noteq> null_literal \<and> lit_var (?R ! unat v) \<noteq> v"
      using ri by (simp_all add: roots_inv_def)
    have at: "?r ! unat v = (if ?R ! unat v = null_literal then mk_literal v False else ?R ! unat v)" if "unat v < n" for v
      using own_roots(1) that len by simp
    have mk: "lit_below n (mk_literal v False)" "lit_var (mk_literal v False) = v" if "unat v < n" for v
    proof -
      have "v < 2147483648" using that nn by (simp add: below_null_def word_less_nat_alt)
      then show "lit_var (mk_literal v False) = v" by (rule mk_literal_parts(1))
      then show "lit_below n (mk_literal v False)" using that by (simp add: lit_below_def)
    qed
    have ok: "lit_below n (?r ! unat v) \<and> mutual ?E (mk_literal v False) (?r ! unat v)" if "unat v < n" for v
      using at [OF that] roots_inv_at [OF ri that] mk [OF that] by simp
    have own: "?r ! unat v = mk_literal v False" if v: "unat v < n" "v \<notin> set ?T" for v
    proof (cases "?R ! unat v = null_literal")
      case False
      then have "lit_var (?R ! unat v) = v" using te(2) v by auto
      then show ?thesis using roots_inv_at [OF ri v(1) False] at [OF v(1)] False by simp
    qed (use at [OF v(1)] in simp)
    have nrm: "norm_lit ?r l = (if lit_sign l then lit_neg (?r ! unat (lit_var l)) else ?r ! unat (lit_var l))" for l
      by (simp add: norm_lit_def)
    have mut: "mutual ?E l (norm_lit ?r l)" if l: "lit_below n l" for l
    proof -
      have v: "unat (lit_var l) < n" using l by (simp add: lit_below_def)
      have "(if lit_sign l then lit_neg l else l) = mk_literal (lit_var l) False" by (rule below_parts [OF l nn])
      then have "mutual ?E (if lit_sign l then lit_neg l else l) (?r ! unat (lit_var l))" using ok [OF v] by simp
      then show ?thesis using mutual_neg [OF sk, of "lit_neg l" "?r ! unat (lit_var l)"] by (auto simp: nrm split: if_splits)
    qed
    have cls: "classes_ok n ?r ?T"
      unfolding classes_ok_def roots_ok_def lits_below_def
    proof (intro conjI ballI allI impI)
      show lr: "length ?r = n" using len by (simp add: own_roots_def)
      show "lit_below n l" if m: "l \<in> set ?r" for l
      proof -
        obtain j where j: "j < n" "l = ?r ! j" using m lr by (auto simp: in_set_conv_nth)
        have "unat (of_nat j :: u32) = j" using j(1) nn by (simp add: below_null_def unat_of_nat)
        then show ?thesis using ok [of "of_nat j"] j by simp
      qed
      show "distinct ?T" by (rule te(1))
      show "unat v < n" if "v \<in> set ?T" for v using te(2) that by simp
      show "lit_var (?r ! unat v) \<notin> set ?T" if "v \<in> set ?T" for v
      proof -
        have v: "unat v < n" "?R ! unat v \<noteq> null_literal" using te(2) that by auto
        note p = roots_inv_at [OF ri v]
        have "unat (lit_var (?R ! unat v)) < n" using p by (simp add: lit_below_def)
        then have "lit_var (?R ! unat (lit_var (?R ! unat v))) = lit_var (?R ! unat v)" using p mk(2) by simp
        then show ?thesis using te(2) at [OF v(1)] v(2) by simp
      qed
      show "norm_lit ?r l = l" if "lit_below n l \<and> lit_var l \<notin> set ?T" for l
      proof -
        have "unat (lit_var l) < n" using that by (simp add: lit_below_def)
        then have "?r ! unat (lit_var l) = (if lit_sign l then lit_neg l else l)" using own that below_parts [of n l] nn by simp
        then show ?thesis by (simp add: nrm)
      qed
    qed
    have fin: "norm_lit ?r l = norm_lit ?r k" if c: "\<not> contradictory ?E" and b: "lit_below n l" "lit_below n k"
      "\<not> so_eliminated so ! unat (lit_var l)" "\<not> so_eliminated so ! unat (lit_var k)" and m: "mutual ?E l k" for l k
    proof -
      have d: "l \<in> sc_done n st" "k \<in> sc_done n st" using vis b by simp_all
      have "norm_lit ?R l = norm_lit ?R k" using ri c d m unfolding roots_inv_def by blast
      moreover have "norm_lit ?r x = norm_lit ?R x" if "x \<in> sc_done n st" for x
      proof -
        have "lit_below n x \<and> ?R ! unat (lit_var x) \<noteq> null_literal" using ri that unfolding roots_inv_def by blast
        then show ?thesis using at [of "lit_var x"] by (simp add: nrm norm_lit_def lit_below_def)
      qed
      ultimately show ?thesis using d by simp
    qed
    have "classes_ok n ?r ?T \<and> (\<forall>l. lit_below n l \<longrightarrow> mutual ?E l (norm_lit ?r l)) \<and>
      (\<not> contradictory ?E \<longrightarrow> (\<forall>l k. lit_below n l \<and> lit_below n k \<and> \<not> so_eliminated so ! unat (lit_var l) \<and>
         \<not> so_eliminated so ! unat (lit_var k) \<and> mutual ?E l k \<longrightarrow> norm_lit ?r l = norm_lit ?r k))"
      using cls mut fin by blast
    moreover have "scc_roots so n = Some (Some (?r, ?T))" using r(1) Some by (simp add: scc_roots_def)
    ultimately show ?thesis by (intro exI [of _ "Some (?r, ?T)"]) simp
  qed
qed

section \<open>Models\<close>

text \<open>The solver of the elimination of equivalent literals, as the search sees it.\<close>

definition solver_graph :: "bool list \<Rightarrow> (bool_var \<Rightarrow> bool) \<Rightarrow> eq_state \<Rightarrow> scc_solver" where
  "solver_graph eliminated ext s = \<lparr>so_watches = eq_watches s, so_eliminated = eliminated, so_external = ext\<rparr>"

lemma edges_bins: "(a, b) \<in> edges n (solver_graph el ext s) \<longleftrightarrow> [lit_neg a, b] \<in> watched_bins n s"
  by (simp add: edges_def solver_graph_def watched_bins_iff eq_wlist_def)

lemma eq_inv_graph:
  assumes "eq_inv n s" "below_null n"
  shows "graph_ok n (solver_graph el ext s)"
proof -
  have "[b, a] \<in> watched_bins n s" "lit_below n b" if "[a, b] \<in> watched_bins n s" for a b
    using that assms(1) wf_pair [of n a b] by (auto simp: eq_inv_def)
  then have "skew (edges n (solver_graph el ext s)) \<and> (\<forall>(a, b) \<in> edges n (solver_graph el ext s). lit_below n b)"
    by (auto simp: skew_def edges_bins)
  then show ?thesis using assms(2) by (simp add: graph_ok_def)
qed

lemma reach_true:
  assumes "(a, b) \<in> (edges n (solver_graph el ext s))\<^sup>*" "models m (watched_bins n s)" "value_at a m = L_true"
  shows "value_at b m = L_true"
  using assms
proof (induction rule: rtrancl_induct)
  case (step y z)
  have "[lit_neg y, z] \<in> watched_bins n s" using step(2) by (simp add: edges_bins)
  then have "satisfied_by [lit_neg y, z] m" using step(4) unfolding models_def by blast
  moreover have "value_at y m = L_true" using step by blast
  ultimately show ?case by (simp add: satisfied_by_def)
qed

text \<open>Literals that reach each other have one value, and if they are different ones they have a value.\<close>

lemma mutual_values:
  assumes g: "graph_ok n (solver_graph el ext s)" and m: "models m (watched_bins n s)"
    and ab: "mutual (edges n (solver_graph el ext s)) a b"
  shows "value_at a m = value_at b m" "a \<noteq> b \<Longrightarrow> value_at a m \<noteq> L_undef"
proof -
  let ?E = "edges n (solver_graph el ext s)"
  have sk: "skew ?E" using g by (simp add: graph_ok_def)
  have t: "value_at x m = L_true \<longleftrightarrow> value_at y m = L_true" if "mutual ?E x y" for x y
    using that reach_true [OF _ m] by (auto simp: mutual_def)
  show "value_at a m = value_at b m"
    using t [OF ab] t [OF mutual_neg [OF sk ab]] by (cases "value_at a m"; cases "value_at b m") auto
  show "value_at a m \<noteq> L_undef" if ne: "a \<noteq> b"
  proof -
    have "(a, b) \<in> ?E\<^sup>*" "(b, a) \<in> ?E\<^sup>*" using ab by (simp_all add: mutual_def)
    then obtain z where z: "(a, z) \<in> ?E" "(z, b) \<in> ?E\<^sup>*" using ne by (metis converse_rtranclE)
    have "[lit_neg a, z] \<in> watched_bins n s" using z(1) by (simp add: edges_bins)
    then have "satisfied_by [lit_neg a, z] m" using m unfolding models_def by blast
    then have "value_at a m = L_false \<or> value_at z m = L_true" by (simp add: satisfied_by_def)
    moreover have "value_at a m = L_true" if "value_at z m = L_true"
      using reach_true [OF rtrancl_trans [OF z(2) \<open>(b, a) \<in> ?E\<^sup>*\<close>] m that] .
    ultimately show ?thesis by auto
  qed
qed

lemma contradictory_models:
  assumes "graph_ok n (solver_graph el ext s)" "contradictory (edges n (solver_graph el ext s))"
  shows "\<not> models m (watched_bins n s)"
proof
  assume m: "models m (watched_bins n s)"
  obtain l where "mutual (edges n (solver_graph el ext s)) l (lit_neg l)" using assms(2) by (auto simp: contradictory_def)
  from mutual_values [OF assms(1) m this] show False by (cases "value_at l m") auto
qed

lemma mutual_agrees:
  assumes "graph_ok n (solver_graph el ext s)" "models m (watched_bins n s)"
    and "\<forall>l. lit_below n l \<longrightarrow> mutual (edges n (solver_graph el ext s)) l (norm_lit roots l)"
  shows "agrees n roots m"
  unfolding agrees_def using mutual_values [OF assms(1,2)] assms(3) by metis

text \<open>A literal without binary clauses is its own root.\<close>

definition settled :: "nat \<Rightarrow> eq_state \<Rightarrow> bool" where
  "settled n s \<longleftrightarrow> (\<forall>l \<in> eq_units n s. bin_lits (eq_wlist s l) = {})"

lemma settled_roots:
  assumes "settled n s" "l \<in> eq_units n s" "mutual (edges n (solver_graph el ext s)) l k"
  shows "k = l"
proof (rule ccontr)
  assume "k \<noteq> l"
  then obtain z where "(l, z) \<in> edges n (solver_graph el ext s)" using assms(3) by (metis converse_rtranclE mutual_def)
  then show False using assms(1,2) by (auto simp: edges_def solver_graph_def settled_def eq_wlist_def)
qed

lemma scc_finds_classes:
  assumes "eq_inv n s" "below_null n" "scc_roots (solver_graph el ext s) n = Some (Some (roots, to_elim))"
  shows "classes_ok n roots to_elim" "models m (watched_bins n s) \<Longrightarrow> agrees n roots m"
    "settled n s \<Longrightarrow> \<forall>l \<in> eq_units n s. norm_lit roots l = l"
proof -
  note g = eq_inv_graph [OF assms(1,2), of el ext]
  note sp = scc_roots_spec [OF g]
  show "classes_ok n roots to_elim" using sp assms(3) by auto
  have mu: "\<forall>l. lit_below n l \<longrightarrow> mutual (edges n (solver_graph el ext s)) l (norm_lit roots l)" using sp assms(3) by auto
  then show "models m (watched_bins n s) \<Longrightarrow> agrees n roots m" using mutual_agrees [OF g] by blast
  show "settled n s \<Longrightarrow> \<forall>l \<in> eq_units n s. norm_lit roots l = l"
    using mu settled_roots [of n s] by (auto simp: eq_units_def)
qed

lemma scc_roots_exact:
  fixes el :: "bool list" and ext :: "bool_var \<Rightarrow> bool"
  assumes "eq_inv n s" "below_null n"
  defines "E \<equiv> edges n (solver_graph el ext s)"
  shows "\<exists>r. scc_roots (solver_graph el ext s) n = Some r \<and> (r = None \<longrightarrow> (\<nexists>m. models m (watched_bins n s))) \<and>
    (\<forall>roots to_elim. r = Some (roots, to_elim) \<longrightarrow> classes_ok n roots to_elim \<and>
      (\<forall>m. models m (watched_bins n s) \<longrightarrow> agrees n roots m) \<and>
      ((\<exists>m. models m (watched_bins n s)) \<longrightarrow>
        (\<forall>l k. lit_below n l \<and> lit_below n k \<and> \<not> el ! unat (lit_var l) \<and> \<not> el ! unat (lit_var k) \<longrightarrow>
          (norm_lit roots l = norm_lit roots k \<longleftrightarrow> (l, k) \<in> E\<^sup>* \<and> (k, l) \<in> E\<^sup>*))))"
proof -
  note g = eq_inv_graph [OF assms(1,2), of el ext]
  note nc = contradictory_models [OF g]
  obtain r where r: "scc_roots (solver_graph el ext s) n = Some r" "r = None \<longrightarrow> contradictory E" and
    s: "\<And>roots to_elim. r = Some (roots, to_elim) \<Longrightarrow> classes_ok n roots to_elim \<and> (\<forall>l. lit_below n l \<longrightarrow> mutual E l (norm_lit roots l)) \<and>
      (\<not> contradictory E \<longrightarrow> (\<forall>l k. lit_below n l \<and> lit_below n k \<and> \<not> el ! unat (lit_var l) \<and> \<not> el ! unat (lit_var k) \<and>
         mutual E l k \<longrightarrow> norm_lit roots l = norm_lit roots k))"
    using scc_roots_spec [OF g] unfolding E_def solver_graph_def by auto
  have "norm_lit roots l = norm_lit roots k \<longleftrightarrow> (l, k) \<in> E\<^sup>* \<and> (k, l) \<in> E\<^sup>*"
    if q: "r = Some (roots, to_elim)" "models m (watched_bins n s)" "lit_below n l" "lit_below n k"
      "\<not> el ! unat (lit_var l)" "\<not> el ! unat (lit_var k)" for roots to_elim m l k
  proof -
    have c: "\<not> contradictory E" using nc q(2) unfolding E_def by blast
    have "mutual E l (norm_lit roots l)" "mutual E k (norm_lit roots k)" using s [OF q(1)] q(3,4) by simp_all
    then have "mutual E l k" if "norm_lit roots l = norm_lit roots k" using that mutual_sym mutual_trans by metis
    moreover have "norm_lit roots l = norm_lit roots k" if "mutual E l k" using s [OF q(1)] c q that by blast
    ultimately show ?thesis unfolding mutual_def by blast
  qed
  moreover have "agrees n roots m" if "r = Some (roots, to_elim)" "models m (watched_bins n s)" for roots to_elim m
    using mutual_agrees [OF g that(2)] s [OF that(1)] unfolding E_def by blast
  ultimately show ?thesis using r s nc unfolding E_def by (intro exI [of _ r]) auto
qed

end
