(* ===== verification/SatSteps.thy ===== *)
theory SatSteps
  imports SatCleaner SatSccSearch
begin

text \<open>
  The definitions that equivalences leave in the converter, the elimination of equivalent literals from one problem
  to the next, and any sequence of simplifications: a model of the last problem, converted, is a model of the first.
\<close>

section \<open>The converter and the definitions\<close>

lemma def_of_ok:
  assumes n: "unat v < n" "below_null n" and r: "lit_below n (roots ! unat v)" "lit_var (roots ! unat v) \<noteq> v"
  shows "\<forall>c \<in> set (def_of roots v). clause_ok v n c \<and> clause_wf n c \<and> vars c = {v, lit_var (roots ! unat v)}"
proof -
  let ?l = "mk_literal v False" and ?r = "roots ! unat v"
  note lv = literals_of_var [OF n]
  have v: "lit_var ?l = v" using lv(1) by blast
  have ne: "?l \<noteq> ?r" "?l \<noteq> lit_neg ?r" using v r(2) by auto
  then have "lit_neg ?l \<noteq> ?r" by (metis lit_neg(3))
  then have w: "clause_wf n c" "vars c = {v, lit_var ?r}" if "c \<in> set (def_of roots v)" for c
    using that ne v r(1) lv(3) [of False] by (auto simp: def_of_def Let_def wf_pair) (auto simp: vars_def)
  have "clause_ok v n c" if "c \<in> set (def_of roots v)" for c
    using w [OF that] n(2) by (intro clause_wf_ok) (auto simp: clause_wf_def)
  then show ?thesis using w by blast
qed

lemma def_of_clash:
  assumes n: "unat v < n" "below_null n" and r: "lit_var (roots ! unat v) \<noteq> v"
    and c: "c \<in> set (def_of roots v)" "d \<in> set (def_of roots v)" "clashes v c d"
  shows "resolvent_holds v m c d"
proof -
  let ?l = "mk_literal v False" and ?r = "roots ! unat v"
  have v: "lit_var ?l = v" using literals_of_var(1) [OF n] by blast
  have c': "c = [lit_neg ?l, ?r] \<or> c = [?l, lit_neg ?r]" "d = [lit_neg ?l, ?r] \<or> d = [?l, lit_neg ?r]"
    using c(1,2) by (auto simp: def_of_def Let_def)
  moreover have "c \<noteq> d"
  proof
    assume "c = d"
    then obtain k where k: "k \<in> set c" "lit_var k = v" "lit_neg k \<in> set c" using c(3) by (auto simp: clashes_def)
    moreover obtain a b where "c = [a, b]" "lit_var b \<noteq> v" using c' r lit_neg(1) by metis
    ultimately show False using lit_neg(1,4) by (metis empty_iff insert_iff list.set)
  qed
  ultimately consider "c = [lit_neg ?l, ?r]" "d = [?l, lit_neg ?r]" | "c = [?l, lit_neg ?r]" "d = [lit_neg ?l, ?r]" by auto
  then show ?thesis
  proof cases
    case 1
    then show ?thesis using r unfolding resolvent_holds_def by (intro disjI1 bexI [of _ ?r]) auto
  next
    case 2
    then show ?thesis using r unfolding resolvent_holds_def by (intro disjI1 bexI [of _ "lit_neg ?r"]) auto
  qed
qed

lemma converts_defs:
  assumes "below_null n" "distinct gone"
    and "\<forall>v \<in> set gone. unat v < n \<and> lit_below n (roots ! unat v) \<and> lit_var (roots ! unat v) \<notin> set gone"
    and "\<forall>d \<in> H. vars d \<inter> set gone = {}"
  shows "converts n (map (\<lambda>v. entry_of v ELIM_VAR (def_of roots v)) gone) (H \<union> defs_of roots (set gone)) H"
  using assms(2-4)
proof (induction gone)
  case Nil
  then show ?case by (simp add: converts_none defs_of_def)
next
  case (Cons v vs)
  let ?G = "H \<union> defs_of roots (set vs)"
  have v: "unat v < n" "lit_below n (roots ! unat v)" "lit_var (roots ! unat v) \<noteq> v" using Cons.prems(2) by auto
  note ok = def_of_ok [of v n roots, OF v(1) assms(1) v(2,3)]
  have "converts n [entry_of v ELIM_VAR (def_of roots v)] (H \<union> defs_of roots (set (v # vs))) ?G"
  proof (rule converts_entry)
    show "\<forall>c \<in> set (def_of roots v). clause_ok v n c" using ok by blast
    show "v \<noteq> null_bool_var" using var_not_null [OF v(1) assms(1)] by simp
    fix c assume "c \<in> H \<union> defs_of roots (set (v # vs))"
    then show "c \<in> ?G \<or> set c \<in> set ` set (def_of roots v)" by (auto simp: defs_of_def)
  next
    fix m c d
    assume c: "c \<in> set (def_of roots v)" and d: "d \<in> (H \<union> defs_of roots (set (v # vs))) \<inter> ?G \<union> set (def_of roots v)"
      and cd: "clashes v c d"
    obtain k where "lit_var k = v" "lit_neg k \<in> set d" using cd by (auto simp: clashes_def)
    then have "v \<in> vars d" unfolding vars_def by (metis image_eqI lit_neg(1))
    then have "d \<notin> H" using Cons.prems(3) by auto
    moreover have "v \<notin> vars e" if e: "e \<in> defs_of roots (set vs)" for e
    proof -
      obtain w where w: "w \<in> set vs" "e \<in> set (def_of roots w)" using e by (auto simp: defs_of_def)
      then have "unat w < n" "lit_below n (roots ! unat w)" "lit_var (roots ! unat w) \<noteq> w" "lit_var (roots ! unat w) \<noteq> v"
        using Cons.prems(2) by auto
      then show ?thesis using def_of_ok [of w n roots] assms(1) w Cons.prems(1) by auto
    qed
    ultimately have "d \<in> set (def_of roots v)" using d \<open>v \<in> vars d\<close> by blast
    then show "resolvent_holds v m c d" using def_of_clash [OF v(1) assms(1) v(3) c _ cd] by blast
  qed simp
  moreover have "converts n (map (\<lambda>v. entry_of v ELIM_VAR (def_of roots v)) vs) ?G H"
    using Cons.prems by (intro Cons.IH) auto
  ultimately show ?case using converts_trans by fastforce
qed

section \<open>Saving the definitions\<close>

lemma save_elim_conflict:
  "save_elim roots sv set_root vs (mc, el, s) = Some (mc', el', s') \<Longrightarrow> eq_inconsistent s \<Longrightarrow> eq_inconsistent s'"
proof (induction vs arbitrary: mc el s)
  case (Cons v vs)
  then show ?case using eq_mk_bin_conflict by (auto simp: Let_def split: bind_splits if_splits)
qed simp

definition stays :: "literal list \<Rightarrow> solver_view \<Rightarrow> (literal \<Rightarrow> literal \<Rightarrow> bool) \<Rightarrow> bool_var \<Rightarrow> bool" where
  "stays roots sv set_root v = must_stay sv set_root v (roots ! unat v)"

lemma save_elim_spec:
  assumes inv: "eq_inv n s" and nn: "below_null n" and es: "m_elim_stack mc = []"
    and vs: "\<forall>v \<in> set vs. unat v < n \<and> lit_below n (roots ! unat v) \<and> lit_var (roots ! unat v) \<noteq> v"
    and e: "save_elim roots sv set_root vs (mc, el, s) = Some (mc', el', s')" and c: "\<not> eq_inconsistent s'"
  defines "st \<equiv> stays roots sv set_root"
  shows "m_entries mc' = m_entries mc @ map (\<lambda>v. entry_of v ELIM_VAR (def_of roots v)) (filter (\<lambda>v. \<not> st v) vs) \<and>
    m_elim_stack mc' = [] \<and> eq_inv n s' \<and>
    (\<forall>m. models m (held n K s') = models m (held n K s \<union> defs_of roots {v \<in> set vs. st v})) \<and>
    (\<forall>d \<in> held n K s'. d \<in> held n K s \<or> clause_wf n d \<and> (\<exists>v \<in> set vs. st v \<and> vars d \<subseteq> {v, lit_var (roots ! unat v)}))"
  using inv es vs e
proof (induction vs arbitrary: mc el s)
  case Nil
  then show ?case by (simp add: defs_of_def)
next
  case (Cons v vs)
  let ?l = "mk_literal v False" and ?r = "roots ! unat v"
  have v: "unat v < n" "lit_below n ?r" "lit_var ?r \<noteq> v" and vs': "\<forall>v \<in> set vs. unat v < n \<and> lit_below n (roots ! unat v) \<and> lit_var (roots ! unat v) \<noteq> v"
    using Cons.prems(3) by auto
  note ok = def_of_ok [of v n roots, OF v(1) nn v(2,3)]
  show ?case
  proof (cases "st v")
    case True
    then obtain s1 s2 where s: "eq_mk_bin_clause (lit_neg ?l) ?r False s = Some s1" "eq_mk_bin_clause ?l (lit_neg ?r) False s1 = Some s2"
      and rest: "save_elim roots sv set_root vs (mc, el, s2) = Some (mc', el', s')"
      using Cons.prems(4) by (auto simp: st_def stays_def Let_def split: bind_splits)
    have c2: "\<not> eq_inconsistent s2" using save_elim_conflict [OF rest] c by blast
    have c1: "\<not> eq_inconsistent s1" using eq_mk_bin_conflict [OF s(2)] c2 by blast
    have w: "clause_wf n [lit_neg ?l, ?r]" "clause_wf n [?l, lit_neg ?r]" using ok by (auto simp: def_of_def Let_def)
    note q1 = eq_mk_bin_clause_spec [OF Cons.prems(1) w(1) s(1) c1, of K]
    note q2 = eq_mk_bin_clause_spec [OF conjunct1 [OF q1] w(2) s(2) c2, of K]
    note ih = Cons.IH [OF conjunct1 [OF q2] Cons.prems(2) vs' rest]
    have d: "models m (defs_of roots {w \<in> set (v # vs). st w}) \<longleftrightarrow>
        models m {[lit_neg ?l, ?r], [?l, lit_neg ?r]} \<and> models m (defs_of roots {w \<in> set vs. st w})" for m
      using True by (auto simp: defs_of_def def_of_def Let_def models_def)
    have lv: "lit_var ?l = v" using literals_of_var(1) [OF v(1) nn] by blast
    have g: "d \<in> held n K s \<or> clause_wf n d \<and> vars d \<subseteq> {v, lit_var ?r}" if "d \<in> held n K s2" for d
    proof -
      have "d \<in> held n K s \<or> d \<in> {[lit_neg ?l], [?r], [lit_neg ?l, ?r], [?r, lit_neg ?l]} \<or> d \<in> {[?l], [lit_neg ?r], [?l, lit_neg ?r], [lit_neg ?r, ?l]}"
        using that q1 q2 by blast
      then show ?thesis using w lv by (auto simp: clause_wf_def lits_below_def vars_def)
    qed
    have "\<forall>m. models m (held n K s') = models m (held n K s \<union> defs_of roots {w \<in> set (v # vs). st w})"
      using ih q1 q2 d by auto
    moreover have "\<forall>d \<in> held n K s'. d \<in> held n K s \<or> clause_wf n d \<and> (\<exists>w \<in> set (v # vs). st w \<and> vars d \<subseteq> {w, lit_var (roots ! unat w)})"
    proof
      fix d assume "d \<in> held n K s'"
      then have "d \<in> held n K s2 \<or> clause_wf n d \<and> (\<exists>v \<in> set vs. st v \<and> vars d \<subseteq> {v, lit_var (roots ! unat v)})" using ih by blast
      then show "d \<in> held n K s \<or> clause_wf n d \<and> (\<exists>w \<in> set (v # vs). st w \<and> vars d \<subseteq> {w, lit_var (roots ! unat w)})"
        using g [of d] True by auto
    qed
    ultimately show ?thesis using ih True by simp
  next
    case False
    then obtain mc1 where mk: "mc_mk (Some sv) ELIM_VAR v mc = Some mc1"
      and rest: "save_elim roots sv set_root vs (mc_insert2 ?l (lit_neg ?r) (mc_insert2 (lit_neg ?l) ?r mc1), el[unat v := True], s) = Some (mc', el', s')"
      using Cons.prems(4) by (auto simp: st_def stays_def Let_def split: bind_splits)
    have 1: "m_entries mc1 = m_entries mc @ [entry_of v ELIM_VAR []]" "m_elim_stack mc1 = []"
      using mc_mk_entry [OF mk] Cons.prems(2) by auto
    note 2 = mc_insert_entry [OF 1, of "[lit_neg ?l, ?r]"]
    note 3 = mc_insert_entry [OF 2, of "[?l, lit_neg ?r]"]
    have m: "m_entries (mc_insert2 ?l (lit_neg ?r) (mc_insert2 (lit_neg ?l) ?r mc1)) = m_entries mc @ [entry_of v ELIM_VAR (def_of roots v)]"
      "m_elim_stack (mc_insert2 ?l (lit_neg ?r) (mc_insert2 (lit_neg ?l) ?r mc1)) = []"
      using 3 by (simp_all add: mc_insert2_def def_of_def Let_def)
    have "{w \<in> set (v # vs). st w} = {w \<in> set vs. st w}" using False by auto
    then show ?thesis using Cons.IH [OF Cons.prems(1) m(2) vs' rest] False m(1) by auto
  qed
qed

section \<open>The elimination of equivalent literals\<close>

definition problem :: "nat \<Rightarrow> (clause \<times> bool) list \<Rightarrow> (clause \<times> bool) list \<Rightarrow> eq_state \<Rightarrow> clause set" where
  "problem n clauses learned s = held n (fst ` set clauses \<union> fst ` set learned) s"

lemma models_held: "models m (held n K s) \<longleftrightarrow> models m K \<and> models m (held n {} s)"
  by (auto simp: held_def)

lemma elim_eqs_stages:
  assumes e: "elim_eqs roots to_elim sv set_root clauses learned (mc, el, s) = Some (clauses', learned', mc', el', s')"
    and c: "\<not> eq_inconsistent s'"
  obtains s1 s2 s3 where "cleanup_bin_watches roots s = Some s1"
    "cleanup_eq_clauses roots (\<lambda>v. el ! unat v) clauses [] s1 = Some (clauses', s2)"
    "cleanup_eq_clauses roots (\<lambda>v. el ! unat v) learned [] s2 = Some (learned', s3)"
    "save_elim roots sv set_root to_elim (mc, el, s3) = Some (mc', el', s')"
    "\<not> eq_inconsistent s1" "\<not> eq_inconsistent s2" "\<not> eq_inconsistent s3"
proof -
  obtain s1 cl s2 where s1: "cleanup_bin_watches roots s = Some s1"
    and s2: "cleanup_eq_clauses roots (\<lambda>v. el ! unat v) clauses [] s1 = Some (cl, s2)"
    using e by (auto simp: elim_eqs_def split: bind_splits prod.splits)
  have n2: "\<not> eq_inconsistent s2" using e s1 s2 c by (auto simp: elim_eqs_def)
  then obtain ln s3 where s3: "cleanup_eq_clauses roots (\<lambda>v. el ! unat v) learned [] s2 = Some (ln, s3)"
    using e s1 s2 by (auto simp: elim_eqs_def split: bind_splits prod.splits)
  have n3: "\<not> eq_inconsistent s3" using e s1 s2 n2 s3 c by (auto simp: elim_eqs_def)
  have "save_elim roots sv set_root to_elim (mc, el, s3) = Some (mc', el', s')" "cl = clauses'" "ln = learned'"
    using e s1 s2 n2 s3 n3 by (auto simp: elim_eqs_def split: bind_splits prod.splits)
  then show ?thesis using s1 s2 s3 n2 n3 cleanup_eq_conflict [OF s2] by (intro that [of s1 s2 s3]) auto
qed

lemma elim_eqs_step:
  assumes inv: "eq_inv n s" and nn: "below_null n" and es: "m_elim_stack mc = []"
    and cl: "classes_ok n roots to_elim" "\<forall>l \<in> eq_units n s. norm_lit roots l = l"
    and wf: "\<forall>c \<in> problem n clauses learned s. clause_wf n c"
    and e: "elim_eqs roots to_elim sv set_root clauses learned (mc, el, s) = Some (clauses', learned', mc', el', s')"
    and c: "\<not> eq_inconsistent s'"
  defines "P \<equiv> problem n clauses learned s" and "P' \<equiv> problem n clauses' learned' s'"
  shows "eq_inv n s'" "\<forall>d \<in> P'. clause_wf n d" "m_elim_stack mc' = []"
    "\<exists>fs. m_entries mc' = m_entries mc @ fs \<and> converts n fs P P'"
    "models m P \<Longrightarrow> agrees n roots m \<Longrightarrow> models m P'"
proof -
  obtain s1 s2 s3 where s: "cleanup_bin_watches roots s = Some s1"
    "cleanup_eq_clauses roots (\<lambda>v. el ! unat v) clauses [] s1 = Some (clauses', s2)"
    "cleanup_eq_clauses roots (\<lambda>v. el ! unat v) learned [] s2 = Some (learned', s3)"
    "save_elim roots sv set_root to_elim (mc, el, s3) = Some (mc', el', s')"
    and nc: "\<not> eq_inconsistent s1" "\<not> eq_inconsistent s2" "\<not> eq_inconsistent s3"
    using elim_eqs_stages [OF e c] by blast
  have r: "roots_ok n roots" and dist: "distinct to_elim"
    and el: "\<forall>v \<in> set to_elim. unat v < n \<and> lit_var (roots ! unat v) \<notin> set to_elim"
    using cl(1) by (auto simp: classes_ok_def)
  have wc: "\<forall>cl \<in> set clauses. clause_wf n (fst cl)" "\<forall>cl \<in> set learned. clause_wf n (fst cl)"
    using wf by (auto simp: problem_def held_def)
  note q1 = cleanup_bin_watches_spec [OF inv r nn classes_idempotent [OF cl(1)] cl(2) s(1) nc(1)]
  note q2 = cleanup_eq_clauses_spec [OF q1(1) wc(1) r nn s(2) nc(2), simplified]
  note q3 = cleanup_eq_clauses_spec [OF conjunct1 [OF q2] wc(2) r nn s(3) nc(3), simplified]
  let ?K = "fst ` set clauses' \<union> fst ` set learned'"
  have f2: "\<forall>d \<in> held n (fst ` set clauses') s2. clause_wf n d \<and> fixed roots d" using q1(2) q2 by (auto simp: grown_def)
  have "held n {} s2 \<subseteq> held n (fst ` set clauses') s2" by (auto simp: held_def)
  then have f3: "\<forall>d \<in> held n (fst ` set learned') s3. clause_wf n d \<and> fixed roots d" using f2 q3 unfolding grown_def by blast
  have f: "\<forall>d \<in> held n ?K s3. clause_wf n d \<and> fixed roots d" using f2 f3 by (auto simp: held_def)
  have same: "models m P \<longleftrightarrow> models m (held n ?K s3)" if a: "agrees n roots m" for m
  proof -
    have "models m (held n {} s) = models m (held n {} s1)" using q1(3) a by (simp add: same_models_def)
    moreover have "models m (held n {} s1) \<and> models m (fst ` set clauses) \<longleftrightarrow> models m (fst ` set clauses') \<and> models m (held n {} s2)"
      using q2 a models_held [of m n "fst ` set clauses'" s2] by (simp add: same_models_def)
    moreover have "models m (held n {} s2) \<and> models m (fst ` set learned) \<longleftrightarrow> models m (fst ` set learned') \<and> models m (held n {} s3)"
      using q3 a models_held [of m n "fst ` set learned'" s3] by (simp add: same_models_def)
    ultimately show ?thesis
      unfolding P_def problem_def models_held [of m n "_ \<union> _"] by auto
  qed
  have vs: "\<forall>v \<in> set to_elim. unat v < n \<and> lit_below n (roots ! unat v) \<and> lit_var (roots ! unat v) \<noteq> v"
  proof
    fix v assume v: "v \<in> set to_elim"
    then have "roots ! unat v \<in> set roots" using el r by (auto simp: roots_ok_def)
    then show "unat v < n \<and> lit_below n (roots ! unat v) \<and> lit_var (roots ! unat v) \<noteq> v"
      using v el r by (auto simp: roots_ok_def lits_below_def)
  qed
  note q4 = save_elim_spec [OF conjunct1 [OF q3] nn es vs s(4) c, of ?K]
  let ?st = "stays roots sv set_root"
  define gone where "gone = filter (\<lambda>v. \<not> ?st v) to_elim"
  have all: "models m (defs_of roots (set to_elim)) \<longleftrightarrow>
      models m (defs_of roots {v \<in> set to_elim. ?st v}) \<and> models m (defs_of roots (set gone))" for m
    by (auto simp: defs_of_def models_def gone_def)
  have P': "models m P' \<longleftrightarrow> models m (held n ?K s3) \<and> models m (defs_of roots {v \<in> set to_elim. ?st v})" for m
    using q4 by (simp add: P'_def problem_def)
  show "eq_inv n s'" "m_elim_stack mc' = []" using q4 by auto
  show "\<forall>d \<in> P'. clause_wf n d" using q4 f unfolding P'_def problem_def by blast
  show "models m P'" if "models m P" "agrees n roots m" for m
    using that same P' defs_agree [OF cl(1) nn] all by blast
  have "vars d \<inter> set gone = {}" if "d \<in> P'" for d
  proof -
    have "d \<in> held n ?K s3 \<or> (\<exists>v \<in> set to_elim. ?st v \<and> vars d \<subseteq> {v, lit_var (roots ! unat v)})"
      using that q4 unfolding P'_def problem_def by blast
    then show ?thesis
    proof
      assume "d \<in> held n ?K s3"
      then have "vars d \<inter> set to_elim = {}" using f fixed_vars [OF cl(1)] by blast
      then show ?thesis by (auto simp: gone_def)
    next
      assume "\<exists>v \<in> set to_elim. ?st v \<and> vars d \<subseteq> {v, lit_var (roots ! unat v)}"
      then show ?thesis using el unfolding gone_def set_filter by blast
    qed
  qed
  then have cd: "converts n (map (\<lambda>v. entry_of v ELIM_VAR (def_of roots v)) gone) (P' \<union> defs_of roots (set gone)) P'"
    using dist vs el by (intro converts_defs [OF nn]) (auto simp: gone_def)
  have "models m P" if "models m (P' \<union> defs_of roots (set gone))" for m
  proof -
    have "models m P'" "models m (defs_of roots (set gone))" using that by simp_all
    then have "agrees n roots m" using P' all defs_agree [OF cl(1) nn] by blast
    then show ?thesis using same P' \<open>models m P'\<close> by blast
  qed
  then have "converts n [] P (P' \<union> defs_of roots (set gone))" by (rule converts_none)
  then have "converts n (map (\<lambda>v. entry_of v ELIM_VAR (def_of roots v)) gone) P P'" using converts_trans [OF _ cd] by fastforce
  then show "\<exists>fs. m_entries mc' = m_entries mc @ fs \<and> converts n fs P P'" using q4 unfolding gone_def by blast
qed

lemma clean_pass_step:
  assumes inv: "eq_inv n s" "below_null n" "propagated n s" and wf: "\<forall>c \<in> problem n clauses learned s. clause_wf n c"
    and e: "clean_pass clauses learned s = Some (clauses', learned', s')" "\<not> eq_inconsistent s'"
  shows "eq_inv n s'" "\<forall>c \<in> problem n clauses' learned' s'. clause_wf n c"
    "models m (problem n clauses' learned' s') = models m (problem n clauses learned s)"
proof -
  obtain s1 where s1: "clean_clauses clauses [] (clean_watches s) = Some (clauses', s1)"
    "clean_clauses learned [] s1 = Some (learned', s')"
    using e(1) by (auto simp: clean_pass_def split: bind_splits prod.splits)
  have c1: "\<not> eq_inconsistent s1" using clean_clauses_conflict [OF s1(2)] e(2) by blast
  have wc: "\<forall>cl \<in> set clauses. clause_wf n (fst cl)" "\<forall>cl \<in> set learned. clause_wf n (fst cl)"
    using wf by (auto simp: problem_def held_def)
  note w = clean_watches_spec [OF inv]
  note q1 = clean_clauses_spec [OF w(1) wc(1) s1(1) c1, simplified]
  note q2 = clean_clauses_spec [OF conjunct1 [OF q1] wc(2) s1(2) e(2), simplified]
  show "eq_inv n s'" using q2 by simp
  have h: "held n {} t \<subseteq> held n K t" for t K by (auto simp: held_def)
  have "\<forall>c \<in> held n {} s. clause_wf n c" using wf by (auto simp: problem_def held_def)
  then have k1: "\<forall>c \<in> held n (fst ` set clauses') s1. clause_wf n c" using q1 w(2) by blast
  then have "\<forall>c \<in> held n (fst ` set learned') s'. clause_wf n c" using q2 h [of s1] by blast
  then show "\<forall>c \<in> problem n clauses' learned' s'. clause_wf n c" using k1 by (auto simp: problem_def held_def)
  have "models m (held n {} s) \<and> models m (fst ` set clauses) \<longleftrightarrow> models m (fst ` set clauses') \<and> models m (held n {} s1)"
    using q1 w(3) [where K = "{}"] models_held [of m n "fst ` set clauses'" s1] by simp
  moreover have "models m (held n {} s1) \<and> models m (fst ` set learned) \<longleftrightarrow> models m (fst ` set learned') \<and> models m (held n {} s')"
    using q2 models_held [of m n "fst ` set learned'" s'] by simp
  ultimately show "models m (problem n clauses' learned' s') = models m (problem n clauses learned s)"
    unfolding problem_def models_held [of m n "_ \<union> _"] by auto
qed

text \<open>The search for components and the elimination one after the other.\<close>

lemma scc_and_elim_eqs:
  assumes inv: "eq_inv n s" "below_null n" "m_elim_stack mc = []" "settled n s" and wf: "\<forall>c \<in> problem n clauses learned s. clause_wf n c"
    and sc: "scc_roots (solver_graph el ext s) n = Some (Some (roots, to_elim))"
    and e: "elim_eqs roots to_elim sv set_root clauses learned (mc, el, s) = Some (clauses', learned', mc', el', s')" "\<not> eq_inconsistent s'"
  shows "(\<forall>d \<in> problem n clauses' learned' s'. clause_wf n d) \<and>
    (\<forall>m. models m (problem n clauses learned s) \<longrightarrow> models m (problem n clauses' learned' s')) \<and>
    (\<exists>fs. m_entries mc' = m_entries mc @ fs \<and>
      (\<forall>m. length m = n \<and> models m (problem n clauses' learned' s') \<longrightarrow>
        (\<exists>m'. process_entries None (rev fs) m = Some m' \<and> length m' = n \<and> models m' (problem n clauses learned s))))"
proof -
  note c = scc_finds_classes [OF inv(1,2) sc]
  note st = elim_eqs_step [OF inv(1-3) c(1) c(3) [OF inv(4)] wf e]
  have "agrees n roots m" if "models m (problem n clauses learned s)" for m
    using c(2) that by (simp add: problem_def held_def)
  then show ?thesis using st by (simp add: converts_def)
qed

section \<open>Sequences of simplifications\<close>

type_synonym sat_problem = "clause set \<times> literal set \<times> model_converter"

definition val_of :: "literal set \<Rightarrow> literal \<Rightarrow> lbool" where
  "val_of U l = (if l \<in> U then L_true else if lit_neg l \<in> U then L_false else L_undef)"

text \<open>
  One simplification. The premises are the tests and the results of the operations of the code.
\<close>

inductive simplify :: "nat \<Rightarrow> sat_problem \<Rightarrow> sat_problem \<Rightarrow> bool" for n where
  eliminate: "represents n s F U \<Longrightarrow> unat v < n \<Longrightarrow> try_eliminate cfg ext solver v s = Some (Some rs, s') \<Longrightarrow>
    simplify n (F, U, sp_mc s) ({c \<in> F. v \<notin> vars c} \<union> set rs, U, sp_mc s')"
| block: "represents n s F U \<Longrightarrow> c \<in> F \<Longrightarrow> l \<in> set c \<Longrightarrow> set d = set c \<Longrightarrow>
    check_abce_tautology (process_var assumption external s) (s\<lparr>sp_visited := mark_all c (sp_visited s)\<rparr>) l taut = Some (True, t) \<Longrightarrow>
    block_clause solver k l d (sp_mc s) = Some mc' \<Longrightarrow> k \<noteq> ATE \<Longrightarrow>
    simplify n (F, U, sp_mc s) (F - {c}, U, mc')"
| subsume: "c \<in> F \<Longrightarrow> d \<in> F \<Longrightarrow> c \<noteq> d \<Longrightarrow> clean n vis \<Longrightarrow> subsumes0 c d vis = (True, vis') \<Longrightarrow>
    simplify n (F, U, mc) (F - {d}, U, mc)"
| strengthen: "c \<in> F \<Longrightarrow> c_view o2 \<in> F \<Longrightarrow> clause_ok_obj o2 \<Longrightarrow> clean n vis \<Longrightarrow> subsumes1 c (c_view o2) vis = (True, l, vis') \<Longrightarrow>
    l \<noteq> null_literal \<Longrightarrow>
    simplify n (F, U, mc) (insert (c_view (clause_elim l o2)) (F - {c_view o2}), U, mc)"
| satisfied: "d \<in> F \<Longrightarrow> cleanup_lits (val_of U) d = (True, d') \<Longrightarrow> simplify n (F, U, mc) (F - {d}, U, mc)"
| shorten: "d \<in> F \<Longrightarrow> cleanup_lits (val_of U) d = (False, d') \<Longrightarrow> simplify n (F, U, mc) (insert d' (F - {d}), U, mc)"
| unit: "[l] \<in> F \<Longrightarrow> simplify n (F, U, mc) (F - {[l]}, insert l U, mc)"
| equivalences: "eq_inv n s \<Longrightarrow> settled n s \<Longrightarrow> scc_roots (solver_graph el ext s) n = Some (Some (roots, to_elim)) \<Longrightarrow>
    elim_eqs roots to_elim sv set_root clauses learned (mc, el, s) = Some (clauses', learned', mc', el', s') \<Longrightarrow>
    \<not> eq_inconsistent s' \<Longrightarrow>
    simplify n (fst ` set clauses \<union> fst ` set learned \<union> watched_bins n s, eq_units n s, mc)
      (fst ` set clauses' \<union> fst ` set learned' \<union> watched_bins n s', eq_units n s', mc')"
| tidy: "eq_inv n s \<Longrightarrow> propagated n s \<Longrightarrow> clean_pass clauses learned s = Some (clauses', learned', s') \<Longrightarrow>
    \<not> eq_inconsistent s' \<Longrightarrow>
    simplify n (fst ` set clauses \<union> fst ` set learned \<union> watched_bins n s, eq_units n s, mc)
      (fst ` set clauses' \<union> fst ` set learned' \<union> watched_bins n s', eq_units n s', mc)"

definition step_ok :: "nat \<Rightarrow> sat_problem \<Rightarrow> sat_problem \<Rightarrow> bool" where
  "step_ok n p q = (case p of (F, U, mc) \<Rightarrow> case q of (F', U', mc') \<Rightarrow>
     state_wf n F' U' \<and> m_elim_stack mc' = [] \<and>
     (\<exists>es. m_entries mc' = m_entries mc @ es \<and> converts n es (F \<union> units U) (F' \<union> units U')) \<and>
     (\<forall>m. models m (F \<union> units U) \<longrightarrow> models m (F' \<union> units U')))"

text \<open>A step that has the same models and leaves the converter as it is.\<close>

lemma same_step_ok:
  assumes "state_wf n F' U'" "m_elim_stack mc = []" "\<And>m. models m (F \<union> units U) \<longleftrightarrow> models m (F' \<union> units U')"
  shows "step_ok n (F, U, mc) (F', U', mc)"
  using assms converts_none [of "F' \<union> units U'" "F \<union> units U" n] by (auto simp: step_ok_def)

lemma remove_redundant:
  assumes "\<And>m. models m (F - {d} \<union> G) \<Longrightarrow> satisfied_by d m"
  shows "models m (F \<union> G) \<longleftrightarrow> models m (F - {d} \<union> G)"
  using assms [of m] by (auto simp: models_def)

lemma clause_wf_subset: "clause_wf n d \<Longrightarrow> set d' \<subseteq> set d \<Longrightarrow> distinct d' \<Longrightarrow> clause_wf n d'"
  by (auto simp: clause_wf_def lits_below_def)

lemma val_of_sat:
  assumes "models m (units U)"
  shows "val_of U l = L_true \<Longrightarrow> value_at l m = L_true" "val_of U l = L_false \<Longrightarrow> value_at l m = L_false"
proof -
  have u: "value_at k m = L_true" if "k \<in> U" for k using assms that by (auto simp: models_def units_def)
  show "val_of U l = L_true \<Longrightarrow> value_at l m = L_true" using u by (auto simp: val_of_def split: if_splits)
  show "val_of U l = L_false \<Longrightarrow> value_at l m = L_false" using u [of "lit_neg l"] by (auto simp: val_of_def split: if_splits)
qed

lemma simplify_ok:
  assumes "simplify n (F, U, mc) q" "state_wf n F U" "m_elim_stack mc = []" "below_null n"
  shows "step_ok n (F, U, mc) q"
  using assms
proof (induction "(F, U, mc)" q rule: simplify.induct)
  case (eliminate s v cfg ext solver rs s')
  show ?case
    using eliminate_step [OF \<open>below_null n\<close> \<open>unat v < n\<close> \<open>state_wf n F U\<close> \<open>represents n s F U\<close> eliminate(3)] eliminate.hyps
    by (simp add: step_ok_def)
next
  case (block s c l d assumption external taut t solver k mc')
  show ?case
    using block_step [OF \<open>below_null n\<close> \<open>state_wf n F U\<close> block(1-7)] block.hyps by (simp add: step_ok_def)
next
  case (subsume c d vis vis')
  have c: "lits_below n c" using subsume by (auto simp: state_wf_def clause_wf_def)
  then have sub: "set c \<subseteq> set d" using subsumes0_eq [OF \<open>clean n vis\<close> c, of d] subsume by simp
  have "satisfied_by d m" if "models m (F - {d} \<union> units U)" for m
  proof -
    have "satisfied_by c m" using that subsume by (auto simp: models_def)
    then show ?thesis using sub by (auto simp: satisfied_by_def)
  qed
  then have "models m (F \<union> units U) \<longleftrightarrow> models m (F - {d} \<union> units U)" for m by (rule remove_redundant)
  then show ?case using subsume by (intro same_step_ok) (auto simp: state_wf_def)
next
  case (strengthen c o2 vis l vis')
  let ?d = "c_view o2"
  let ?e = "c_view (clause_elim l o2)"
  have w: "clause_wf n c" "clause_wf n ?d" using strengthen by (auto simp: state_wf_def)
  have c: "lits_below n c" "distinct c" using w(1) by (auto simp: clause_wf_def)
  have r: "resolves_into c ?d l"
    using subsumes1_spec(3) [OF \<open>clean n vis\<close> _ c strengthen(5)] strengthen by (simp add: below_null_def)
  have e: "?e = remove1 l ?d" using clause_elim_view [of o2 l] strengthen r by (simp add: resolves_into_def clause_ok_obj_def)
  then have se: "set ?e = set ?d - {l}" "distinct ?e" using w(2) by (auto simp: clause_wf_def)
  have cd: "c \<noteq> ?d" using r w by (auto simp: resolves_into_def clause_wf_def)
  have up: "satisfied_by ?d m" if "satisfied_by ?e m" for m using that se by (auto simp: satisfied_by_def)
  have down: "satisfied_by ?e m" if "satisfied_by c m" "satisfied_by ?d m" for m
  proof -
    obtain k where k: "k \<in> set c" "value_at k m = L_true" using \<open>satisfied_by c m\<close> by (auto simp: satisfied_by_def)
    obtain j where j: "j \<in> set ?d" "value_at j m = L_true" using \<open>satisfied_by ?d m\<close> by (auto simp: satisfied_by_def)
    show ?thesis
    proof (cases "j = l")
      case True
      then have "k \<noteq> lit_neg l" using j(2) k(2) by auto
      moreover have "k \<noteq> l" using r k(1) w(1) by (auto simp: resolves_into_def clause_wf_def)
      ultimately have "k \<in> set ?e" using k(1) r se by (auto simp: resolves_into_def)
      then show ?thesis using k(2) by (auto simp: satisfied_by_def)
    qed (use j se in \<open>auto simp: satisfied_by_def\<close>)
  qed
  have "models m (F \<union> units U) \<longleftrightarrow> models m (insert ?e (F - {?d}) \<union> units U)" for m
  proof
    assume "models m (F \<union> units U)"
    then show "models m (insert ?e (F - {?d}) \<union> units U)" using down strengthen by (auto simp: models_def)
  next
    assume "models m (insert ?e (F - {?d}) \<union> units U)"
    then show "models m (F \<union> units U)" using up unfolding models_def by blast
  qed
  moreover have "clause_wf n ?e" using clause_wf_subset [OF w(2)] se by auto
  ultimately show ?case using strengthen by (intro same_step_ok) (auto simp: state_wf_def)
next
  case (satisfied d d')
  have "\<exists>l \<in> set d. val_of U l = L_true" using cleanup_lits_eq [of d "val_of U"] satisfied(2) by (auto split: if_splits)
  then have "satisfied_by d m" if "models m (F - {d} \<union> units U)" for m
    using that val_of_sat by (auto simp: satisfied_by_def)
  then have "models m (F \<union> units U) \<longleftrightarrow> models m (F - {d} \<union> units U)" for m by (rule remove_redundant)
  then show ?case using satisfied by (intro same_step_ok) (auto simp: state_wf_def)
next
  case (shorten d d')
  have d': "d' = filter (\<lambda>l. val_of U l = L_undef) d" and nt: "\<forall>l \<in> set d. val_of U l \<noteq> L_true"
    using cleanup_lits_eq [of d "val_of U"] shorten(2) by (auto split: if_splits)
  have w: "clause_wf n d" using shorten by (auto simp: state_wf_def)
  have sat: "satisfied_by d' m \<longleftrightarrow> satisfied_by d m" if "models m (units U)" for m
    using val_of_sat(2) [OF that] nt unfolding d' by (auto simp: satisfied_by_def) (metis lbool.distinct lbool.exhaust)
  have "models m (F \<union> units U) \<longleftrightarrow> models m (insert d' (F - {d}) \<union> units U)" for m
    using sat [of m] shorten(1) by (auto simp: models_def)
  moreover have "clause_wf n d'" using w unfolding d' by (auto simp: clause_wf_def lits_below_def)
  ultimately show ?case using shorten by (intro same_step_ok) (auto simp: state_wf_def)
next
  case (unit l)
  have "models m (F \<union> units U) \<longleftrightarrow> models m (F - {[l]} \<union> units (insert l U))" for m
    using unit(1) unfolding units_simps(2) models_def by blast
  moreover have "lit_below n l" using unit by (auto simp: state_wf_def clause_wf_def lits_below_def)
  ultimately show ?case using unit by (intro same_step_ok) (auto simp: state_wf_def)
next
  case (equivalences s el ext roots to_elim sv set_root clauses learned clauses' learned' mc' el' s')
  have p: "problem n clauses learned s = F \<union> units U"
    "problem n clauses' learned' s' = fst ` set clauses' \<union> fst ` set learned' \<union> watched_bins n s' \<union> units (eq_units n s')"
    using equivalences.hyps by (auto simp: problem_def held_def)
  have wf: "\<forall>c \<in> problem n clauses learned s. clause_wf n c"
    using \<open>state_wf n F U\<close> unfolding p by (auto simp: state_wf_def units_def clause_wf_def lits_below_def)
  note sc = scc_finds_classes [OF equivalences(1) \<open>below_null n\<close> equivalences(3)]
  note st = elim_eqs_step [OF equivalences(1) \<open>below_null n\<close> \<open>m_elim_stack mc = []\<close> sc(1) sc(3) [OF equivalences(2)] wf equivalences(4,5), unfolded p]
  have "\<forall>m. models m (F \<union> units U) \<longrightarrow> agrees n roots m"
    using sc(2) equivalences.hyps by (auto simp: models_def)
  then show ?case using st by (auto simp: step_ok_def state_wf_def eq_units_def)
next
  case (tidy s clauses learned clauses' learned' s')
  have p: "problem n clauses learned s = F \<union> units U"
    "problem n clauses' learned' s' = fst ` set clauses' \<union> fst ` set learned' \<union> watched_bins n s' \<union> units (eq_units n s')"
    using tidy.hyps by (auto simp: problem_def held_def)
  have wf: "\<forall>c \<in> problem n clauses learned s. clause_wf n c"
    using \<open>state_wf n F U\<close> unfolding p by (auto simp: state_wf_def units_def clause_wf_def lits_below_def)
  note st = clean_pass_step [OF tidy(1) \<open>below_null n\<close> tidy(2) wf tidy(3,4), unfolded p]
  show ?case using st tidy.prems by (intro same_step_ok) (auto simp: state_wf_def eq_units_def)
qed

text \<open>
  What the converter relies on: every step stores what gives a model of the problem before it back, and loses no
  model.
\<close>

locale simplification =
  fixes step :: "nat \<Rightarrow> sat_problem \<Rightarrow> sat_problem \<Rightarrow> bool"
  assumes step_sound: "step n (F, U, mc) q \<Longrightarrow> state_wf n F U \<Longrightarrow> m_elim_stack mc = [] \<Longrightarrow> below_null n \<Longrightarrow>
    step_ok n (F, U, mc) q"
begin

lemma steps_ok:
  assumes "(step n)\<^sup>*\<^sup>* (F, U, mc) q" "state_wf n F U" "m_elim_stack mc = []" "below_null n"
  shows "step_ok n (F, U, mc) q"
  using assms(1)
proof (induction rule: rtranclp_induct)
  case base
  show ?case using assms by (intro same_step_ok) simp_all
next
  case (step q r)
  obtain F1 U1 mc1 where q: "q = (F1, U1, mc1)" by (metis prod_cases3)
  obtain F2 U2 mc2 where r: "r = (F2, U2, mc2)" by (metis prod_cases3)
  obtain es where es: "m_entries mc1 = m_entries mc @ es" "converts n es (F \<union> units U) (F1 \<union> units U1)"
    and w: "state_wf n F1 U1" "m_elim_stack mc1 = []" "\<forall>m. models m (F \<union> units U) \<longrightarrow> models m (F1 \<union> units U1)"
    using step.IH q by (auto simp: step_ok_def)
  have "step_ok n (F1, U1, mc1) r" using step(2) w(1,2) assms(4) unfolding q by (rule step_sound)
  then obtain fs where fs: "m_entries mc2 = m_entries mc1 @ fs" "converts n fs (F1 \<union> units U1) (F2 \<union> units U2)"
    and v: "state_wf n F2 U2" "m_elim_stack mc2 = []" "\<forall>m. models m (F1 \<union> units U1) \<longrightarrow> models m (F2 \<union> units U2)"
    by (auto simp: step_ok_def r)
  have "m_entries mc2 = m_entries mc @ (es @ fs)" using es(1) fs(1) by simp
  then show ?case using converts_trans [OF es(2) fs(2)] v w(3) by (auto simp: step_ok_def r)
qed

text \<open>A model of what is left, converted, is a model of the first problem; and no model is lost.\<close>

lemma reconstruction:
  assumes "(step n)\<^sup>*\<^sup>* (F0, U0, mc0) (F, U, mc)" "state_wf n F0 U0" "below_null n" "m_entries mc0 = []" "m_elim_stack mc0 = []"
    and "length m = n" "models m (F \<union> units U)"
  shows "\<exists>m'. convert_model None mc m = Some m' \<and> length m' = n \<and> models m' (F0 \<union> units U0) \<and>
    (\<forall>solver m''. convert_model solver mc m = Some m'' \<longrightarrow> m'' = m')"
proof -
  obtain es where es: "m_entries mc = es" "converts n es (F0 \<union> units U0) (F \<union> units U)"
    using steps_ok [OF assms(1,2,5,3)] assms(4) by (auto simp: step_ok_def)
  obtain m' where m': "process_entries None (rev es) m = Some m'" "length m' = n" "models m' (F0 \<union> units U0)"
    using es(2) assms(6,7) unfolding converts_def by blast
  have "m'' = m'" if "convert_model solver mc m = Some m''" for solver m''
    using process_entries_solver [of solver "rev es" m m''] that m'(1) es(1) by (simp add: convert_model_def)
  moreover have "convert_model None mc m = Some m'" using m'(1) es(1) by (simp add: convert_model_def)
  ultimately show ?thesis using m' by blast
qed

lemma no_model_lost:
  assumes "(step n)\<^sup>*\<^sup>* (F0, U0, mc0) (F, U, mc)" "state_wf n F0 U0" "below_null n" "m_elim_stack mc0 = []"
    and "models m (F0 \<union> units U0)"
  shows "models m (F \<union> units U)"
  using steps_ok [OF assms(1,2,4,3)] assms(5) by (auto simp: step_ok_def)

end

interpretation sat_pre: simplification simplify
  by unfold_locales (rule simplify_ok)

end
