(* ===== verification/SatSubsume.thy ===== *)
theory SatSubsume
  imports SatPreprocess
begin

text \<open>
  The searches for the clauses that a clause subsumes or strengthens: the filters (the least frequent literal, the
  sizes, the approximations) lose none of them.
\<close>

section \<open>What is searched for\<close>

definition subsumption :: "clause \<Rightarrow> clause \<Rightarrow> literal \<Rightarrow> bool" where
  "subsumption c1 c2 l \<longleftrightarrow> (if l = null_literal then set c1 \<subseteq> set c2 else resolves_into c1 c2 l)"

lemma subsumes1_iff:
  assumes "clean n vis" "n < 2147483648" "lits_below n c1" "distinct c1"
  shows "\<exists>r k. subsumes1 c1 c2 vis = (r, k, vis) \<and> (\<forall>l. subsumption c1 c2 l \<longleftrightarrow> r \<and> l = k)"
proof -
  obtain r k v where e: "subsumes1 c1 c2 vis = (r, k, v)" by (metis prod_cases3)
  note s = subsumes1_spec [OF assms e]
  have l: "subsumes1_loop (mark_all c2 vis) c1 null_literal = (r, k)" using e by (auto simp: subsumes1_def Let_def split: prod.splits)
  have "subsumption c1 c2 x \<Longrightarrow> r \<and> x = k" for x
    using subsumes1_loop_complete [OF assms, of c2] l by (auto simp: subsumption_def split: if_splits)
  moreover have "r \<Longrightarrow> subsumption c1 c2 k" using s by (auto simp: subsumption_def)
  ultimately show ?thesis using e s(1) by blast
qed

lemma subsumption_size:
  assumes "clause_wf n c1" "subsumption c1 c2 l"
  shows "length c1 \<le> length c2" "lit_var ` set c1 \<subseteq> lit_var ` set c2"
proof -
  have "length c1 \<le> card (set c2) \<and> lit_var ` set c1 \<subseteq> lit_var ` set c2"
  proof (cases "l = null_literal")
    case True
    then have sub: "set c1 \<subseteq> set c2" using assms(2) by (simp add: subsumption_def)
    have "length c1 = card (set c1)" using assms(1) distinct_card [of c1] by (simp add: clause_wf_def)
    then show ?thesis using card_mono [OF _ sub] sub by auto
  next
    case False
    then have r: "resolves_into c1 c2 l" using assms(2) by (simp add: subsumption_def)
    then have l: "l \<notin> set c1" using assms(1) by (auto simp: resolves_into_def clause_wf_def)
    have sub: "insert l (set c1 - {lit_neg l}) \<subseteq> set c2" using r by (auto simp: resolves_into_def)
    have "card (insert l (set c1 - {lit_neg l})) = card (set c1)"
    proof -
      have "card (insert l (set c1 - {lit_neg l})) = Suc (card (set c1 - {lit_neg l}))" using l by (intro card_insert_disjoint) auto
      also have "\<dots> = card (set c1)" using r by (intro card_Suc_Diff1) (auto simp: resolves_into_def)
      finally show ?thesis .
    qed
    then have "length c1 \<le> card (set c2)"
      using card_mono [OF _ sub] assms(1) distinct_card [of c1] by (simp add: clause_wf_def)
    moreover have "lit_var k \<in> lit_var ` set c2" if "k \<in> set c1" for k
    proof (cases "k = lit_neg l")
      case True
      then have "lit_var k = lit_var l" "l \<in> set c2" using sub by auto
      then show ?thesis by simp
    qed (use that sub in auto)
    ultimately show ?thesis by blast
  qed
  then show "length c1 \<le> length c2" "lit_var ` set c1 \<subseteq> lit_var ` set c2" using card_length [of c2] by auto
qed

section \<open>The loops over an occurrence list\<close>

definition searchable :: "nat \<Rightarrow> clause_store \<Rightarrow> cref set \<Rightarrow> bool" where
  "searchable n st A \<longleftrightarrow> n < 2147483648 \<and> (\<forall>r \<in> A. clause_wf n (c_view (st r)) \<and> clause_ok_obj (st r))"

lemma may_subsume_complete:
  assumes "searchable n st A" "r1 \<in> A" "r2 \<in> A" "r2 \<noteq> r1" "subsumption (c_view (st r1)) (c_view (st r2)) l"
  shows "may_subsume st r1 r2"
proof -
  have ok: "clause_ok_obj (st r1)" "clause_ok_obj (st r2)" "clause_wf n (c_view (st r1))"
    using assms(1-3) by (auto simp: searchable_def)
  note s = subsumption_size [OF ok(3) assms(5)]
  have len: "length (c_view (st r)) = c_size (st r)" if "clause_ok_obj (st r)" for r
    using that by (simp add: clause_ok_obj_def c_view_def c_capacity_def)
  have "approx_subset (c_approx (st r1)) (c_approx (st r2))"
    using ok(1,2) approx_of_subset [of "map lit_var (c_view (st r1))" "map lit_var (c_view (st r2))"] s(2)
    by (simp add: clause_ok_obj_def check_approx_def clause_approx_def)
  then show ?thesis using assms(4) s(1) len ok by (simp add: may_subsume_def)
qed

definition same_search :: "simp_state \<Rightarrow> simp_state \<Rightarrow> bool" where
  "same_search s s' \<longleftrightarrow> (\<exists>k. s' = s\<lparr>sp_sub_counter := k\<rparr>)"

lemma same_search_refl [simp]: "same_search s s"
  unfolding same_search_def by (rule exI [of _ "sp_sub_counter s"]) simp

lemma collect0_loop_eq:
  assumes "searchable n (sp_clauses s) A" "r1 \<in> A" "set rs \<subseteq> A" "clean n (sp_visited s)" "collect0_loop r1 rs out s = (out', s')"
  shows "same_search s s' \<and>
    out' = out @ filter (\<lambda>r2. r2 \<noteq> r1 \<and> set (c_view (sp_clauses s r1)) \<subseteq> set (c_view (sp_clauses s r2))) rs"
  using assms
proof (induction rs arbitrary: out s)
  case (Cons r2 rs)
  let ?st = "sp_clauses s"
  have b: "lits_below n (c_view (?st r1))" using Cons.prems by (auto simp: searchable_def clause_wf_def)
  show ?case
  proof (cases "may_subsume ?st r1 r2")
    case True
    let ?s = "s\<lparr>sp_sub_counter := sp_sub_counter s - (of_nat (c_size (?st r1)) + of_nat (c_size (?st r2)))\<rparr>"
    let ?out = "if set (c_view (?st r1)) \<subseteq> set (c_view (?st r2)) then out @ [r2] else out"
    have vis: "?s\<lparr>sp_visited := sp_visited s\<rparr> = ?s" by simp
    have "collect0_loop r1 rs ?out ?s = (out', s')"
      using Cons.prems(5) True subsumes0_eq [OF Cons.prems(4) b, of "c_view (?st r2)"] by (simp add: Let_def vis)
    then have "same_search ?s s' \<and> out' = ?out @ filter (\<lambda>r2. r2 \<noteq> r1 \<and> set (c_view (?st r1)) \<subseteq> set (c_view (?st r2))) rs"
      using Cons.IH [of ?s ?out] Cons.prems by simp
    then show ?thesis using True by (auto simp: same_search_def may_subsume_def)
  next
    case False
    then have "r2 = r1 \<or> \<not> set (c_view (?st r1)) \<subseteq> set (c_view (?st r2))"
      using may_subsume_complete [OF Cons.prems(1,2), of r2 null_literal] Cons.prems(3) by (auto simp: subsumption_def)
    then show ?thesis using Cons.IH [of s out] Cons.prems False by auto
  qed
qed simp

lemma collect1_loop_eq:
  assumes "searchable n (sp_clauses s) A" "r1 \<in> A" "set rs \<subseteq> A" "clean n (sp_visited s)" "collect1_loop r1 rs out s = (out', s')"
  shows "same_search s s' \<and> set out' = set out \<union>
    {(r2, l). r2 \<in> set rs \<and> r2 \<noteq> r1 \<and> subsumption (c_view (sp_clauses s r1)) (c_view (sp_clauses s r2)) l}"
  using assms
proof (induction rs arbitrary: out s)
  case (Cons r2 rs)
  let ?st = "sp_clauses s"
  have b: "lits_below n (c_view (?st r1))" "distinct (c_view (?st r1))" "n < 2147483648"
    using Cons.prems by (auto simp: searchable_def clause_wf_def)
  show ?case
  proof (cases "may_subsume ?st r1 r2")
    case True
    let ?s = "s\<lparr>sp_sub_counter := sp_sub_counter s - (of_nat (c_size (?st r1)) + of_nat (c_size (?st r2)))\<rparr>"
    have vis: "?s\<lparr>sp_visited := sp_visited s\<rparr> = ?s" by simp
    obtain r k where e: "subsumes1 (c_view (?st r1)) (c_view (?st r2)) (sp_visited s) = (r, k, sp_visited s)"
      and i: "\<forall>l. subsumption (c_view (?st r1)) (c_view (?st r2)) l \<longleftrightarrow> r \<and> l = k"
      using subsumes1_iff [OF Cons.prems(4) b(3,1,2)] by blast
    let ?out = "if r then out @ [(r2, k)] else out"
    have "collect1_loop r1 rs ?out ?s = (out', s')"
      using Cons.prems(5) True e by (simp add: Let_def vis)
    then have "same_search ?s s' \<and> set out' = set ?out \<union>
        {(r2, l). r2 \<in> set rs \<and> r2 \<noteq> r1 \<and> subsumption (c_view (?st r1)) (c_view (?st r2)) l}"
      using Cons.IH [of ?s ?out] Cons.prems by simp
    then show ?thesis using True i by (auto simp: same_search_def may_subsume_def)
  next
    case False
    then have "r2 = r1 \<or> (\<forall>l. \<not> subsumption (c_view (?st r1)) (c_view (?st r2)) l)"
      using may_subsume_complete [OF Cons.prems(1,2)] Cons.prems(3) by auto
    then show ?thesis using Cons.IH [of s out] Cons.prems False by auto
  qed
qed simp

section \<open>The searches\<close>

lemma min_occ_loop_mem:
  "l_best \<in> set c \<or> (\<exists>l \<in> set ls. num l < best) \<Longrightarrow> set ls \<subseteq> set c \<Longrightarrow> min_occ_loop num ls l_best best \<in> set c"
proof (induction ls arbitrary: l_best best)
  case (Cons l ls)
  then show ?case by (cases "num l < best") auto
qed simp

text \<open>The occurrence lists list the clauses, and are not absurdly long.\<close>

definition indexed :: "nat \<Rightarrow> simp_state \<Rightarrow> cref set \<Rightarrow> bool" where
  "indexed n s A \<longleftrightarrow> searchable n (sp_clauses s) A \<and> clean n (sp_visited s) \<and>
     (\<forall>l. lit_below n l \<longrightarrow> set (occs s l) = {r \<in> A. l \<in> set (c_view (sp_clauses s r))} \<and>
        unat (ul_size (use_of (sp_use s) l)) < 2147483647)"

lemma small_size: "unat (x :: u32) < 2147483647 \<Longrightarrow> x < - 1"
  by (simp add: word_less_nat_alt unsigned_minus_1_eq_mask mask_eq_exp_minus_1)

lemma small_sum: "unat (x :: u32) < 2147483647 \<Longrightarrow> unat y < 2147483647 \<Longrightarrow> x + y < - 1"
  by (simp add: word_less_nat_alt unat_word_ariths unsigned_minus_1_eq_mask mask_eq_exp_minus_1)

lemma collect_subsumed0_eq:
  assumes i: "indexed n s A" "r1 \<in> A" "c_view (sp_clauses s r1) \<noteq> []" and e: "collect_subsumed0 r1 s = (out, s')"
  shows "same_search s s' \<and> set out = {r2 \<in> A. r2 \<noteq> r1 \<and> set (c_view (sp_clauses s r1)) \<subseteq> set (c_view (sp_clauses s r2))}"
proof -
  let ?c = "c_view (sp_clauses s r1)"
  let ?l = "get_min_occ_var0 s ?c"
  have b: "lit_below n l" if "l \<in> set ?c" for l using i that by (auto simp: indexed_def searchable_def clause_wf_def lits_below_def)
  obtain k where "k \<in> set ?c" using i(3) by (cases ?c) auto
  then have "\<exists>l \<in> set ?c. ul_size (use_of (sp_use s) l) < - 1" using b i(1) small_size by (auto simp: indexed_def)
  then have l: "?l \<in> set ?c" unfolding get_min_occ_var0_def by (intro min_occ_loop_mem) simp_all
  have o: "set (occs s ?l) = {r \<in> A. ?l \<in> set (c_view (sp_clauses s r))}" using i(1) b [OF l] by (simp add: indexed_def)
  have "same_search s s' \<and> out = [] @ filter (\<lambda>r2. r2 \<noteq> r1 \<and> set ?c \<subseteq> set (c_view (sp_clauses s r2))) (occs s ?l)"
    using i o e by (intro collect0_loop_eq [of n _ A]) (auto simp: collect_subsumed0_def collect_subsumed0_core_def indexed_def)
  then show ?thesis using o l by auto
qed

lemma collect_subsumed1_eq:
  assumes i: "indexed n s A" "r1 \<in> A" "c_view (sp_clauses s r1) \<noteq> []" and e: "collect_subsumed1 r1 s = (out, s')"
  shows "same_search s s' \<and> set out = {(r2, l). r2 \<in> A \<and> r2 \<noteq> r1 \<and> subsumption (c_view (sp_clauses s r1)) (c_view (sp_clauses s r2)) l}"
proof -
  let ?c = "c_view (sp_clauses s r1)"
  let ?num = "\<lambda>l. ul_size (use_of (sp_use s) l) + ul_size (use_of (sp_use s) (lit_neg l))"
  define l where "l = min_occ_loop ?num ?c null_literal (- 1)"
  let ?v = "get_min_occ_var s ?c"
  have b: "lit_below n l" if "l \<in> set ?c" for l using i that by (auto simp: indexed_def searchable_def clause_wf_def lits_below_def)
  obtain k where k: "k \<in> set ?c" using i(3) by (cases ?c) auto
  have sz: "unat (ul_size (use_of (sp_use s) l)) < 2147483647" if "lit_below n l" for l using i(1) that by (simp add: indexed_def)
  have "?num k < - 1" using sz [OF b [OF k]] sz [of "lit_neg k"] b [OF k] small_sum by force
  then have "l \<in> set ?c" unfolding l_def using k by (intro min_occ_loop_mem) auto
  have v: "?v = lit_var l" by (simp add: get_min_occ_var_def l_def)
  have n: "unat ?v < n" "below_null n" using b [OF \<open>l \<in> set ?c\<close>] i(1) v by (auto simp: lit_below_def indexed_def searchable_def below_null_def)
  note lv = literals_of_var [OF n]
  obtain o1 s1 where e1: "collect_subsumed1_core r1 (mk_literal ?v False) [] s = (o1, s1)" by (metis prod.exhaust)
  then have e2: "collect_subsumed1_core r1 (mk_literal ?v True) o1 s1 = (out, s')" using e by (simp add: collect_subsumed1_def Let_def)
  have oc: "set (occs s (mk_literal ?v x)) = {r \<in> A. mk_literal ?v x \<in> set (c_view (sp_clauses s r))}" for x
    using i(1) lv(3) by (simp add: indexed_def)
  have q1: "same_search s s1 \<and> set o1 = set [] \<union>
      {(r2, l). r2 \<in> set (occs s (mk_literal ?v False)) \<and> r2 \<noteq> r1 \<and> subsumption ?c (c_view (sp_clauses s r2)) l}"
    by (rule collect1_loop_eq [of n _ A]) (use i oc e1 in \<open>auto simp: collect_subsumed1_core_def indexed_def\<close>)
  then have s1: "sp_clauses s1 = sp_clauses s" "sp_visited s1 = sp_visited s" "occs s1 = occs s"
    by (auto simp: same_search_def occs_def fun_eq_iff)
  have q2: "same_search s1 s' \<and> set out = set o1 \<union>
      {(r2, l). r2 \<in> set (occs s (mk_literal ?v True)) \<and> r2 \<noteq> r1 \<and> subsumption (c_view (sp_clauses s1 r1)) (c_view (sp_clauses s1 r2)) l}"
    by (rule collect1_loop_eq [of n _ A]) (use i oc e2 s1 in \<open>auto simp: collect_subsumed1_core_def indexed_def\<close>)
  have hit: "r2 \<in> set (occs s (mk_literal ?v False)) \<or> r2 \<in> set (occs s (mk_literal ?v True))"
    if "r2 \<in> A" "subsumption ?c (c_view (sp_clauses s r2)) x" for r2 x
  proof -
    have "clause_wf n ?c" using i by (auto simp: indexed_def searchable_def)
    then have "lit_var l \<in> lit_var ` set (c_view (sp_clauses s r2))"
      using subsumption_size(2) that(2) \<open>l \<in> set ?c\<close> by blast
    then obtain j where "j \<in> set (c_view (sp_clauses s r2))" "lit_var j = ?v" using v by auto
    then show ?thesis using oc that(1) lv(1) by auto
  qed
  have "same_search s s'" using q1 q2 by (auto simp: same_search_def)
  moreover have "set out = {(r2, l). r2 \<in> A \<and> r2 \<noteq> r1 \<and> subsumption ?c (c_view (sp_clauses s r2)) l}"
    using q1 q2 s1(1) hit oc by auto
  ultimately show ?thesis by simp
qed

section \<open>Duplicate binary clauses\<close>

text \<open>
  \<open>bin_lt\<close> orders binary clauses by literal, those that are not learned first, and puts the rest behind them; the
  stable sort by it is the sort by a key. Of the copies of a binary clause the first one stays.
\<close>

definition bin_lt :: "watched \<Rightarrow> watched \<Rightarrow> bool" where
  "bin_lt w1 w2 =
     (if \<not> is_binary_clause w1 then False else if \<not> is_binary_clause w2 then True
      else if lit_index (w_literal w1) < lit_index (w_literal w2) then True
      else lit_index (w_literal w1) = lit_index (w_literal w2) \<and> \<not> w_learned w1 \<and> w_learned w2)"

definition bin_key :: "watched \<Rightarrow> nat" where
  "bin_key w = (if is_binary_clause w then 2 * unat (lit_index (w_literal w)) + of_bool (w_learned w) else 8589934592)"

primrec elim_dup_loop :: "literal \<Rightarrow> watched list \<Rightarrow> watched list" where
  "elim_dup_loop last_lit [] = []"
| "elim_dup_loop last_lit (w # ws) =
     (if \<not> is_binary_clause w then w # elim_dup_loop last_lit ws
      else if w_literal w = last_lit then elim_dup_loop last_lit ws
      else w # elim_dup_loop (w_literal w) ws)"

definition elim_dup_bins :: "watched list list \<Rightarrow> watched list list" where
  "elim_dup_bins wss = map (\<lambda>ws. elim_dup_loop null_literal (sort_key bin_key ws)) wss"

primrec mark_as_not_learned_core :: "literal \<Rightarrow> watched list \<Rightarrow> watched list" where
  "mark_as_not_learned_core l2 [] = []"
| "mark_as_not_learned_core l2 (w # ws) =
     (if is_binary_clause w \<and> w_literal w = l2 \<and> w_learned w then w_set_learned False w # ws
      else w # mark_as_not_learned_core l2 ws)"

lemma bin_key_less: "bin_lt w1 w2 \<longleftrightarrow> bin_key w1 < bin_key w2"
proof -
  have b: "unat (lit_index (w_literal w)) < 4294967296" for w
    using unsigned_less [of "lit_index (w_literal w)", where ?'a = nat] by simp
  have i: "w_literal w1 = w_literal w2" if "idx (w_literal w1) = idx (w_literal w2)" using that by simp
  show ?thesis
  proof (cases "is_binary_clause w1 \<and> is_binary_clause w2")
    case False
    then show ?thesis using b [of w1] b [of w2] by (cases "w_learned w1"; cases "w_learned w2") (auto simp: bin_lt_def bin_key_def)
  next
    case True
    consider "idx (w_literal w1) < idx (w_literal w2)" | "idx (w_literal w1) = idx (w_literal w2)" | "idx (w_literal w2) < idx (w_literal w1)"
      by linarith
    then show ?thesis
      by cases (use True i in \<open>auto simp: bin_lt_def bin_key_def word_less_nat_alt of_bool_def\<close>)
  qed
qed

lemma bin_key_le:
  assumes "bin_key w \<le> bin_key v" "is_binary_clause v"
  shows "is_binary_clause w" "idx (w_literal w) \<le> idx (w_literal v)" "w_literal w = w_literal v \<Longrightarrow> w_learned w \<Longrightarrow> w_learned v"
proof -
  have b: "unat (lit_index (w_literal v)) < 4294967296"
    using unsigned_less [of "lit_index (w_literal v)", where ?'a = nat] by simp
  then show w: "is_binary_clause w" using assms by (cases "w_learned v") (auto simp: bin_key_def split: if_splits)
  show "idx (w_literal w) \<le> idx (w_literal v)" using assms w by (cases "w_learned w"; cases "w_learned v") (auto simp: bin_key_def)
  show "w_literal w = w_literal v \<Longrightarrow> w_learned w \<Longrightarrow> w_learned v" using assms w by (auto simp: bin_key_def of_bool_def split: if_splits)
qed

definition first_copies :: "watched set \<Rightarrow> watched set \<Rightarrow> bool" where
  "first_copies W V \<longleftrightarrow> (\<forall>w \<in> V. is_binary_clause w \<longrightarrow> w \<in> W \<and>
     (\<forall>v \<in> W. is_binary_clause v \<and> w_literal v = w_literal w \<and> w_learned w \<longrightarrow> w_learned v))"

lemma first_copies_insert:
  assumes "first_copies W V" "\<And>w. w \<in> V \<Longrightarrow> is_binary_clause w \<Longrightarrow> w_literal w \<noteq> w_literal x"
  shows "first_copies (insert x W) V"
    "(\<And>v. v \<in> W \<Longrightarrow> is_binary_clause v \<Longrightarrow> w_literal v = w_literal x \<Longrightarrow> w_learned x \<Longrightarrow> w_learned v) \<Longrightarrow>
       first_copies (insert x W) (insert x V)"
proof -
  have w: "w \<in> W" "w_literal w \<noteq> w_literal x" "\<And>v. v \<in> W \<Longrightarrow> is_binary_clause v \<Longrightarrow> w_literal v = w_literal w \<Longrightarrow> w_learned w \<Longrightarrow> w_learned v"
    if "w \<in> V" "is_binary_clause w" for w
    using assms that unfolding first_copies_def by blast+
  have "w \<in> insert x W \<and> (\<forall>v \<in> insert x W. is_binary_clause v \<and> w_literal v = w_literal w \<and> w_learned w \<longrightarrow> w_learned v)"
    if "w \<in> V" "is_binary_clause w" for w
    using w [OF that] by (metis insert_iff)
  then show v: "first_copies (insert x W) V" unfolding first_copies_def by blast
  show "first_copies (insert x W) (insert x V)"
    if "\<And>v. v \<in> W \<Longrightarrow> is_binary_clause v \<Longrightarrow> w_literal v = w_literal x \<Longrightarrow> w_learned x \<Longrightarrow> w_learned v"
  proof -
    have "\<forall>v \<in> insert x W. is_binary_clause v \<and> w_literal v = w_literal x \<and> w_learned x \<longrightarrow> w_learned v"
      using that by (metis insert_iff)
    then show ?thesis using v unfolding first_copies_def by (metis insert_iff)
  qed
qed

lemma first_copies_other:
  "\<not> is_binary_clause x \<Longrightarrow> first_copies W V \<Longrightarrow> first_copies (insert x W) (insert x V)"
  unfolding first_copies_def by blast

lemma elim_dup_loop_spec:
  assumes "sorted (map bin_key xs)" "(\<forall>l \<in> bin_lits xs. idx last_lit \<le> idx l) \<or> last_lit \<notin> bin_lits xs"
  defines "ys \<equiv> elim_dup_loop last_lit xs"
  shows "filter (\<lambda>w. \<not> is_binary_clause w) ys = filter (\<lambda>w. \<not> is_binary_clause w) xs \<and>
    bin_lits ys = bin_lits xs - {last_lit} \<and> distinct (map w_literal (filter is_binary_clause ys)) \<and>
    first_copies (set xs) (set ys)"
  using assms(1,2) unfolding ys_def
proof (induction xs arbitrary: last_lit)
  case Nil
  then show ?case by (simp add: bin_lits_def first_copies_def)
next
  case (Cons x xs)
  have s: "sorted (map bin_key xs)" "\<forall>v \<in> set xs. bin_key x \<le> bin_key v" using Cons.prems(1) by auto
  have mem: "w \<in> set ws \<Longrightarrow> is_binary_clause w \<Longrightarrow> w_literal w \<in> bin_lits ws" for w ws by (auto simp: bin_lits_def)
  show ?case
  proof (cases "is_binary_clause x")
    case False
    then have nb: "\<forall>v \<in> set xs. \<not> is_binary_clause v" using s(2) bin_key_le(1) by blast
    then have e: "bin_lits xs = {}" by (auto simp: bin_lits_def)
    note ih = Cons.IH [OF s(1), of last_lit]
    show ?thesis using ih False e first_copies_other [OF False, of "set xs" "set (elim_dup_loop last_lit xs)"]
      by (simp add: bin_lits_Cons)
  next
    case True
    note x = bin_lits_Cons [of x xs]
    show ?thesis
    proof (cases "w_literal x = last_lit")
      case same: True
      have "(\<forall>l \<in> bin_lits xs. idx last_lit \<le> idx l) \<or> last_lit \<notin> bin_lits xs" using Cons.prems(2) True same by (auto simp: x)
      note ih = Cons.IH [OF s(1) this]
      have "w_literal w \<noteq> last_lit" if "w \<in> set (elim_dup_loop last_lit xs)" "is_binary_clause w" for w
        using ih mem [OF that] by auto
      then have "first_copies (insert x (set xs)) (set (elim_dup_loop last_lit xs))"
        using ih same by (intro first_copies_insert(1)) auto
      moreover have "bin_lits (x # xs) - {last_lit} = bin_lits xs - {last_lit}" using True same by (auto simp: x)
      ultimately show ?thesis using ih True same by simp
    next
      case other: False
      have ge: "\<forall>l \<in> bin_lits xs. idx (w_literal x) \<le> idx l"
        using s(2) bin_key_le(2) by (auto simp: bin_lits_def)
      note ih = Cons.IH [OF s(1), of "w_literal x", OF disjI1 [OF ge]]
      have "last_lit \<notin> bin_lits xs"
      proof
        assume l: "last_lit \<in> bin_lits xs"
        then have "idx last_lit \<le> idx (w_literal x)" "idx (w_literal x) \<le> idx last_lit"
          using Cons.prems(2) True ge by (auto simp: x)
        then show False using other idx_inject [of "w_literal x" last_lit] by simp
      qed
      then have b: "insert (w_literal x) (bin_lits xs - {w_literal x}) = bin_lits (x # xs) - {last_lit}"
        using True other by (auto simp: x)
      have ne: "w_literal w \<noteq> w_literal x" if "w \<in> set (elim_dup_loop (w_literal x) xs)" "is_binary_clause w" for w
        using ih mem [OF that] by auto
      have "first_copies (insert x (set xs)) (insert x (set (elim_dup_loop (w_literal x) xs)))"
        by (rule first_copies_insert(2)) (use ih ne s(2) bin_key_le(3) [of x] in auto)
      moreover have "bin_lits (x # elim_dup_loop (w_literal x) xs) = bin_lits (x # xs) - {last_lit}"
        using ih True b by (simp add: bin_lits_Cons)
      moreover have "w_literal x \<notin> w_literal ` set (filter is_binary_clause (elim_dup_loop (w_literal x) xs))"
      proof
        assume "w_literal x \<in> w_literal ` set (filter is_binary_clause (elim_dup_loop (w_literal x) xs))"
        then obtain w where "w \<in> set (elim_dup_loop (w_literal x) xs)" "is_binary_clause w" "w_literal x = w_literal w" by auto
        then show False using ne [of w] by simp
      qed
      ultimately show ?thesis using ih True other by simp
    qed
  qed
qed

text \<open>One copy of every binary clause stays, and it is learned only if all copies are.\<close>

lemma elim_dup_bins_list:
  assumes "null_literal \<notin> bin_lits ws"
  defines "ys \<equiv> elim_dup_loop null_literal (sort_key bin_key ws)"
  shows "mset (filter (\<lambda>w. \<not> is_binary_clause w) ys) = mset (filter (\<lambda>w. \<not> is_binary_clause w) ws)"
    "bin_lits ys = bin_lits ws" "distinct (map w_literal (filter is_binary_clause ys))"
    "first_copies (set ws) (set ys)"
proof -
  have b: "bin_lits (sort_key bin_key ws) = bin_lits ws" by (simp add: bin_lits_def)
  have "sorted (map bin_key (sort_key bin_key ws))" by simp
  note s = elim_dup_loop_spec [OF this, of null_literal, unfolded b, OF disjI2 [OF assms(1)], folded ys_def]
  have "mset (filter (\<lambda>w. \<not> is_binary_clause w) (sort_key bin_key ws)) = mset (filter (\<lambda>w. \<not> is_binary_clause w) ws)"
    by (simp add: mset_filter)
  then show "mset (filter (\<lambda>w. \<not> is_binary_clause w) ys) = mset (filter (\<lambda>w. \<not> is_binary_clause w) ws)" using s by simp
  show "bin_lits ys = bin_lits ws" "distinct (map w_literal (filter is_binary_clause ys))" using s assms(1) by auto
  show "first_copies (set ws) (set ys)" using s by simp
qed

lemma bin_lits_mark [simp]: "bin_lits (mark_as_not_learned_core l ws) = bin_lits ws"
proof (induction ws)
  case (Cons w ws)
  then show ?case by (simp add: bin_lits_Cons is_binary_clause_def)
qed simp

end
