(* ===== verification/SatExample.thy ===== *)
theory SatExample
  imports SatSteps SatSubsume
begin

text \<open>
  Concrete problems, which show that the hypotheses of the theorems on the preprocessor can hold.
\<close>

section \<open>Eliminating a variable\<close>

text \<open>A small problem, \<open>x0 \<or> x1\<close> and \<open>\<not> x0 \<or> x2\<close>, from which the first variable is eliminated.\<close>

definition example_state :: simp_state where
  "example_state = \<lparr>sp_clauses = (\<lambda>_. new_clause 0 [] False), sp_use = replicate 6 ul_new,
     sp_watches = [[w_binary (Literal 4) False], [w_binary (Literal 2) False], [], [w_binary (Literal 0) False], [],
                   [w_binary (Literal 1) False]],
     sp_assignment = replicate 6 L_undef, sp_visited = replicate 6 False, sp_eliminated = replicate 3 False,
     sp_num_clauses = 0, sp_sub_counter = 1000, sp_elim_counter = 1000, sp_mc = \<lparr>m_entries = [], m_elim_stack = []\<rparr>\<rparr>"

definition example_config :: simp_config where
  "example_config = \<lparr>res_occ_cutoff = 10, res_occ_cutoff1 = 8, res_occ_cutoff2 = 5, res_occ_cutoff3 = 3,
     res_lit_cutoff1 = 700, res_lit_cutoff2 = 400, res_lit_cutoff3 = 300, res_cls_cutoff1 = 100000, res_cls_cutoff2 = 700000\<rparr>"

definition example_problem :: "clause set" where
  "example_problem = {[Literal 0, Literal 2], [Literal 1, Literal 4]}"

lemma small_literals:
  assumes "lit_below 3 l"
  shows "l \<in> {Literal 0, Literal 1, Literal 2, Literal 3, Literal 4, Literal 5}"
proof -
  have "idx l < 6" using lit_below_idx [OF assms] by simp
  then have "lit_index l < 6" by (simp add: word_less_nat_alt)
  then have "lit_index l \<in> {0, 1, 2, 3, 4, 5}" by unat_arith
  then show ?thesis by (cases l) auto
qed

lemma example_collect:
  "collect_clauses example_state (Literal 0) = [Binary_clause (Literal 0) (Literal 2)]"
  "collect_clauses example_state (Literal 1) = [Binary_clause (Literal 1) (Literal 4)]"
  "collect_clauses example_state (Literal 2) = [Binary_clause (Literal 2) (Literal 0)]"
  "collect_clauses example_state (Literal 3) = []"
  "collect_clauses example_state (Literal 4) = [Binary_clause (Literal 4) (Literal 1)]"
  "collect_clauses example_state (Literal 5) = []"
  by code_simp+

lemma example_wf:
  "clause_wf 3 [Literal 0, Literal 2]" "clause_wf 3 [Literal 1, Literal 4]" "clause_wf 3 [Literal 2, Literal 0]"
  "clause_wf 3 [Literal 4, Literal 1]"
  by code_simp+

lemma example_represented: "represents 3 example_state example_problem {}" "state_wf 3 example_problem {}"
proof -
  have "(\<forall>w \<in> set (collect_clauses example_state l). clause_wf 3 (cw_view w)) \<and>
      (\<lambda>w. set (cw_view w)) ` set (collect_clauses example_state l) = {C \<in> set ` example_problem. l \<in> C} \<and>
      lit_value example_state l = L_undef" if "lit_below 3 l" for l
    using small_literals [OF that] example_wf
    by (auto simp: example_collect example_problem_def cw_view_def lit_value_def) (simp_all add: example_state_def)
  moreover have "clean 3 (sp_visited example_state)" by (simp add: example_state_def clean_def)
  ultimately show "represents 3 example_state example_problem {}" by (simp add: represents_def example_state_def)
  show "state_wf 3 example_problem {}" using example_wf by (simp add: state_wf_def example_problem_def)
qed

text \<open>The elimination leaves one clause, and the two others in the converter.\<close>

lemma example_eliminate:
  obtains s' where "try_eliminate example_config (\<lambda>_. False) None 0 example_state = Some (Some [[Literal 2, Literal 4]], s')"
proof -
  have "map_option fst (try_eliminate example_config (\<lambda>_. False) None 0 example_state) = Some (Some [[Literal 2, Literal 4]])"
    by code_simp
  then show ?thesis using that by auto
qed

lemma example_step:
  obtains mc where "simplify 3 (example_problem, {}, \<lparr>m_entries = [], m_elim_stack = []\<rparr>) ({[Literal 2, Literal 4]}, {}, mc)"
proof -
  obtain s' where e: "try_eliminate example_config (\<lambda>_. False) None 0 example_state = Some (Some [[Literal 2, Literal 4]], s')"
    by (rule example_eliminate)
  have "vars [Literal 0, Literal 2] = {0, 1}" "vars [Literal 1, Literal 4] = {0, 2}" by code_simp+
  then have "{c \<in> example_problem. 0 \<notin> vars c} \<union> set [[Literal 2, Literal 4]] = {[Literal 2, Literal 4]}"
    by (auto simp: example_problem_def)
  moreover have "sp_mc example_state = \<lparr>m_entries = [], m_elim_stack = []\<rparr>" by (simp add: example_state_def)
  moreover have "simplify 3 (example_problem, {}, sp_mc example_state)
      ({c \<in> example_problem. 0 \<notin> vars c} \<union> set [[Literal 2, Literal 4]], {}, sp_mc s')"
    by (rule simplify.eliminate [OF example_represented(1) _ e]) simp
  ultimately show ?thesis using that by metis
qed

section \<open>Equivalent literals\<close>

text \<open>The second variable is equivalent to the first, and occurs in a clause of three literals.\<close>

definition example_eq_state :: eq_state where
  "example_eq_state = \<lparr>eq_assignment = replicate 8 L_undef, eq_inconsistent = False,
     eq_watches = [[w_binary (Literal 2) False], [w_binary (Literal 3) False], [w_binary (Literal 0) False],
                   [w_binary (Literal 1) False], [], [], [], []],
     eq_new_bin = []\<rparr>"

definition example_roots :: "literal list" where "example_roots = [Literal 0, Literal 0, Literal 4, Literal 6]"
definition example_clauses :: "(clause \<times> bool) list" where "example_clauses = [([Literal 2, Literal 4, Literal 6], False)]"
definition example_solver :: solver_view where
  "example_solver = \<lparr>sv_assumption = (\<lambda>_. False), sv_external = (\<lambda>_. False), sv_incremental = False\<rparr>"

lemma eight_literals:
  assumes "lit_below 4 l"
  shows "l \<in> {Literal 0, Literal 1, Literal 2, Literal 3, Literal 4, Literal 5, Literal 6, Literal 7}"
proof -
  have "idx l < 8" using lit_below_idx [OF assms] by simp
  then have "lit_index l < 8" by (simp add: word_less_nat_alt)
  then have "lit_index l \<in> {0, 1, 2, 3, 4, 5, 6, 7}" by unat_arith
  then show ?thesis by (cases l) auto
qed

lemma example_bins:
  "[a, b] \<in> watched_bins 4 example_eq_state \<longleftrightarrow>
     (a, b) \<in> {(Literal 1, Literal 2), (Literal 0, Literal 3), (Literal 3, Literal 0), (Literal 2, Literal 1)}"
proof -
  have w: "bin_lits (eq_wlist example_eq_state (Literal 0)) = {Literal 2}" "bin_lits (eq_wlist example_eq_state (Literal 1)) = {Literal 3}"
    "bin_lits (eq_wlist example_eq_state (Literal 2)) = {Literal 0}" "bin_lits (eq_wlist example_eq_state (Literal 3)) = {Literal 1}"
    "bin_lits (eq_wlist example_eq_state (Literal 4)) = {}" "bin_lits (eq_wlist example_eq_state (Literal 5)) = {}"
    "bin_lits (eq_wlist example_eq_state (Literal 6)) = {}" "bin_lits (eq_wlist example_eq_state (Literal 7)) = {}"
    by (simp_all add: eq_wlist_def example_eq_state_def)
  have b: "lit_below 4 (Literal 0)" "lit_below 4 (Literal 1)" "lit_below 4 (Literal 2)" "lit_below 4 (Literal 3)" by code_simp+
  have n: "lit_neg (Literal 0) = Literal 1" "lit_neg (Literal 1) = Literal 0" "lit_neg (Literal 2) = Literal 3"
    "lit_neg (Literal 3) = Literal 2" "lit_neg (Literal 4) = Literal 5" "lit_neg (Literal 5) = Literal 4"
    "lit_neg (Literal 6) = Literal 7" "lit_neg (Literal 7) = Literal 6" by code_simp+
  show ?thesis
  proof
    assume h: "[a, b] \<in> watched_bins 4 example_eq_state"
    then have "lit_below 4 a" by (simp add: watched_bins_iff)
    from eight_literals [OF this] h show "(a, b) \<in> {(Literal 1, Literal 2), (Literal 0, Literal 3), (Literal 3, Literal 0), (Literal 2, Literal 1)}"
      by (auto simp: watched_bins_iff w n)
  next
    assume "(a, b) \<in> {(Literal 1, Literal 2), (Literal 0, Literal 3), (Literal 3, Literal 0), (Literal 2, Literal 1)}"
    then show "[a, b] \<in> watched_bins 4 example_eq_state" using b by (auto simp: watched_bins_iff w n)
  qed
qed

lemma example_eq_inv: "eq_inv 4 example_eq_state" "eq_units 4 example_eq_state = {}"
proof -
  have v: "eq_value example_eq_state l = L_undef" if "lit_below 4 l" for l
    using eight_literals [OF that] by (auto simp: eq_value_def example_eq_state_def)
  have "clause_wf 4 d" if "d \<in> watched_bins 4 example_eq_state" for d
  proof -
    have "clause_wf 4 [Literal 1, Literal 2]" "clause_wf 4 [Literal 0, Literal 3]" "clause_wf 4 [Literal 3, Literal 0]" "clause_wf 4 [Literal 2, Literal 1]"
      by code_simp+
    then show ?thesis using watched_bins_pair [OF that] that by (auto simp: example_bins)
  qed
  moreover have "eq_ok 4 example_eq_state" using v by (simp add: eq_ok_def) (simp add: example_eq_state_def)
  moreover have "length (eq_watches example_eq_state) = 8" by (simp add: example_eq_state_def)
  ultimately show "eq_inv 4 example_eq_state" by (auto simp: eq_inv_def example_bins)
  show "eq_units 4 example_eq_state = {}" using v by (auto simp: eq_units_def)
qed

lemma example_problem_wf: "\<forall>c \<in> problem 4 example_clauses [] example_eq_state. clause_wf 4 c"
proof -
  have "clause_wf 4 [Literal 2, Literal 4, Literal 6]" by code_simp
  then show ?thesis
    using example_eq_inv by (auto simp: problem_def held_def eq_inv_def example_clauses_def units_def)
qed

lemma example_scc: "scc_roots (solver_graph (replicate 4 False) (\<lambda>_. False) example_eq_state) 4 = Some (Some (example_roots, [1]))"
  by code_simp

lemma example_settled: "settled 4 example_eq_state"
  by (simp add: settled_def example_eq_inv)

lemma example_elim_eqs:
  obtains mc el s where "elim_eqs example_roots [1] example_solver (\<lambda>_ _. True) example_clauses []
      (\<lparr>m_entries = [], m_elim_stack = []\<rparr>, replicate 4 False, example_eq_state) = Some ([([Literal 0, Literal 4, Literal 6], False)], [], mc, el, s)"
    "\<not> eq_inconsistent s" "eq_units 4 s = {}" "watched_bins 4 s = {}"
proof -
  let ?r = "elim_eqs example_roots [1] example_solver (\<lambda>_ _. True) example_clauses []
      (\<lparr>m_entries = [], m_elim_stack = []\<rparr>, replicate 4 False, example_eq_state)"
  have "map_option (\<lambda>(cs, ls, mc, el, s). (cs, ls, s)) ?r = Some ([([Literal 0, Literal 4, Literal 6], False)], [],
      \<lparr>eq_assignment = replicate 8 L_undef, eq_inconsistent = False, eq_watches = replicate 8 [], eq_new_bin = []\<rparr>)"
    by code_simp
  then obtain mc el where e: "?r = Some ([([Literal 0, Literal 4, Literal 6], False)], [], mc, el,
      \<lparr>eq_assignment = replicate 8 L_undef, eq_inconsistent = False, eq_watches = replicate 8 [], eq_new_bin = []\<rparr>)"
    by auto
  let ?s = "\<lparr>eq_assignment = replicate 8 L_undef, eq_inconsistent = False, eq_watches = replicate 8 [], eq_new_bin = []\<rparr>"
  have "eq_units 4 ?s = {}" using eight_literals by (force simp: eq_units_def eq_value_def)
  moreover have "watched_bins 4 ?s = {}" using lit_below_idx [of 4] by (auto simp: watched_bins_def eq_wlist_def)
  ultimately show ?thesis using e by (intro that [of mc el ?s]) simp_all
qed

section \<open>Subsumption\<close>

text \<open>The first clause subsumes the second, and takes a literal out of the third.\<close>

definition example_store :: clause_store where
  "example_store r = (if r = 0 then new_clause 0 [Literal 0, Literal 2] False
     else if r = 1 then new_clause 1 [Literal 0, Literal 2, Literal 5] False else new_clause 2 [Literal 1, Literal 2, Literal 4] False)"

definition example_index :: simp_state where
  "example_index = example_state\<lparr>sp_clauses := example_store, sp_use := use_list_insert example_store 2
     (use_list_insert example_store 1 (use_list_insert example_store 0 (use_list_init 3)))\<rparr>"

lemma example_occs:
  "occs example_index (Literal 0) = [0, 1]" "occs example_index (Literal 1) = [2]" "occs example_index (Literal 2) = [0, 1, 2]"
  "occs example_index (Literal 3) = []" "occs example_index (Literal 4) = [2]" "occs example_index (Literal 5) = [1]"
  by code_simp+

lemma example_views:
  "sp_clauses example_index = example_store" "c_view (example_store 0) = [Literal 0, Literal 2]"
  "c_view (example_store 1) = [Literal 0, Literal 2, Literal 5]" "c_view (example_store 2) = [Literal 1, Literal 2, Literal 4]"
  by (simp_all add: example_index_def example_store_def)

lemma example_sizes:
  "ul_size (use_of (sp_use example_index) (Literal 0)) = 2" "ul_size (use_of (sp_use example_index) (Literal 1)) = 1"
  "ul_size (use_of (sp_use example_index) (Literal 2)) = 3" "ul_size (use_of (sp_use example_index) (Literal 3)) = 0"
  "ul_size (use_of (sp_use example_index) (Literal 4)) = 1" "ul_size (use_of (sp_use example_index) (Literal 5)) = 1"
  by code_simp+

lemma example_indexed: "indexed 3 example_index {0, 1, 2}"
proof -
  have "clause_wf 3 [Literal 0, Literal 2]" "clause_wf 3 [Literal 0, Literal 2, Literal 5]" "clause_wf 3 [Literal 1, Literal 2, Literal 4]"
    by code_simp+
  moreover have "clause_ok_obj (example_store r)" for r by (simp add: example_store_def)
  ultimately have s: "searchable 3 (sp_clauses example_index) {0, 1, 2}" by (simp add: searchable_def example_views [unfolded One_nat_def])
  have "set (occs example_index l) = {r \<in> {0, 1, 2}. l \<in> set (c_view (sp_clauses example_index r))} \<and>
      unat (ul_size (use_of (sp_use example_index) l)) < 2147483647" if "lit_below 3 l" for l
    using small_literals [OF that] by (auto simp: example_occs example_sizes example_views example_views [unfolded One_nat_def])
  moreover have "clean 3 (sp_visited example_index)" by (simp add: example_index_def example_state_def clean_def)
  ultimately show ?thesis using s by (simp add: indexed_def)
qed

end
