(* ===== verification/PyScanner.thy ===== *)
theory PyScanner
  imports "HOL-Library.Word"
begin

text \<open>
  Model of the external scanner of the Python grammar (tree-sitter-python/scanner.cc): the stack of
  indentations and the stack of open string delimiters, the recognition of newlines, indentation
  changes and the parts of string literals, and the serialized form that the parser stores between
  scans. The lexer is the parser library's: the functions of its interface are a parameter.
\<close>

section \<open>Tokens and delimiters\<close>

type_synonym u16 = "16 word"
type_synonym i8 = "8 word"
type_synonym code_point = "32 word"

datatype token_type =
  NEWLINE | INDENT | DEDENT | STRING_START | STRING_CONTENT | STRING_END | COMMENT
| CLOSE_PAREN | CLOSE_BRACKET | CLOSE_BRACE

abbreviation ch :: "char \<Rightarrow> code_point" where "ch c \<equiv> of_char c"

abbreviation "QUOTE \<equiv> ch (CHR 0x27)"
abbreviation "DQUOTE \<equiv> ch (CHR 0x22)"
abbreviation "BQUOTE \<equiv> ch (CHR 0x60)"
abbreviation "BACKSLASH \<equiv> ch (CHR 0x5C)"
abbreviation "NL \<equiv> ch (CHR 0x0A)"
abbreviation "CR \<equiv> ch (CHR 0x0D)"

text \<open>The delimiter is one character of flags, which is what the serialized form stores.\<close>

record delimiter =
  flags :: i8

definition is_format :: "delimiter \<Rightarrow> bool" where "is_format d = bit (flags d) 4"
definition is_raw :: "delimiter \<Rightarrow> bool" where "is_raw d = bit (flags d) 3"
definition is_triple :: "delimiter \<Rightarrow> bool" where "is_triple d = bit (flags d) 5"
definition is_bytes :: "delimiter \<Rightarrow> bool" where "is_bytes d = bit (flags d) 6"

definition end_character :: "delimiter \<Rightarrow> code_point" where
  "end_character d =
     (if bit (flags d) 0 then QUOTE else if bit (flags d) 1 then DQUOTE
      else if bit (flags d) 2 then BQUOTE else 0)"

definition set_flag :: "nat \<Rightarrow> delimiter \<Rightarrow> delimiter" where
  "set_flag n d = d\<lparr>flags := set_bit n (flags d)\<rparr>"

definition set_format :: "delimiter \<Rightarrow> delimiter" where "set_format = set_flag 4"
definition set_raw :: "delimiter \<Rightarrow> delimiter" where "set_raw = set_flag 3"
definition set_triple :: "delimiter \<Rightarrow> delimiter" where "set_triple = set_flag 5"
definition set_bytes :: "delimiter \<Rightarrow> delimiter" where "set_bytes = set_flag 6"

definition set_end_character :: "code_point \<Rightarrow> delimiter \<Rightarrow> delimiter" where
  "set_end_character c d =
     (if c = QUOTE then set_flag 0 d else if c = DQUOTE then set_flag 1 d
      else if c = BQUOTE then set_flag 2 d else d)"

section \<open>The state and its serialized form\<close>

record scanner =
  indent_length_stack :: "u16 list"
  delimiter_stack :: "delimiter list"

definition serialization_buffer_size :: nat where "serialization_buffer_size = 1024"

text \<open>The bytes written: the number of delimiters, the delimiters, the indentations above the first.\<close>

definition serialize :: "scanner \<Rightarrow> i8 list" where
  "serialize s =
     (let n = min (length (delimiter_stack s)) 255
      in of_nat n # map flags (take n (delimiter_stack s)) @
         map ucast (take (serialization_buffer_size - (1 + n)) (tl (indent_length_stack s))))"

text \<open>
  Reading back. The number of delimiters is one unsigned byte, the indentations are signed characters
  that are converted to 16 bits. \<open>None\<close> is a read beyond the end of the buffer.
\<close>

definition deserialize :: "i8 list \<Rightarrow> scanner option" where
  "deserialize buffer =
     (case buffer of
        [] \<Rightarrow> Some \<lparr>indent_length_stack = [0], delimiter_stack = []\<rparr>
      | b # rest \<Rightarrow>
          let n = unat b
          in if length rest < n then None
             else Some \<lparr>indent_length_stack = 0 # map scast (drop n rest),
                        delimiter_stack = map delimiter.make (take n rest)\<rparr>)"

section \<open>Scanning\<close>

text \<open>
  The interface of the lexer: the character ahead (0 at the end of the input), moving past it with or
  without including it in the token, and marking the end of the token.
\<close>

record 'l lexer_api =
  lookahead :: "'l \<Rightarrow> code_point"
  advance_fn :: "'l \<Rightarrow> bool \<Rightarrow> 'l"
  mark_end :: "'l \<Rightarrow> 'l"

definition advance :: "'l lexer_api \<Rightarrow> 'l \<Rightarrow> 'l" where "advance lx l = advance_fn lx l False"
definition skip :: "'l lexer_api \<Rightarrow> 'l \<Rightarrow> 'l" where "skip lx l = advance_fn lx l True"

text \<open>
  How the scan of a string ends: with a return (the symbol set, if any, the returned value, and
  whether the delimiter is popped), or at the end of the input, where the rest of the scan follows.
\<close>

datatype 'l string_exit = At_end 'l | Returns 'l "token_type option" bool bool

definition string_quote :: "'l lexer_api \<Rightarrow> delimiter \<Rightarrow> 'l \<Rightarrow> bool \<Rightarrow> 'l string_exit" where
  "string_quote lx d l has_content =
     (if is_triple d then
        (let l = advance lx (mark_end lx l)
         in if lookahead lx l = end_character d then
              (let l = advance lx l
               in if lookahead lx l = end_character d then
                    (if has_content then Returns l (Some STRING_CONTENT) True False
                     else Returns (mark_end lx (advance lx l)) (Some STRING_END) True True)
                  else Returns (mark_end lx l) (Some STRING_CONTENT) True False)
            else Returns (mark_end lx l) (Some STRING_CONTENT) True False)
      else if has_content then Returns (mark_end lx l) (Some STRING_CONTENT) True False
      else Returns (mark_end lx (advance lx l)) (Some STRING_END) True True)"

partial_function (option) string_loop ::
  "'l lexer_api \<Rightarrow> delimiter \<Rightarrow> 'l \<Rightarrow> bool \<Rightarrow> 'l string_exit option" where
  "string_loop lx d l has_content =
     (if lookahead lx l = 0 then Some (At_end l)
      else if (lookahead lx l = ch (CHR ''{'') \<or> lookahead lx l = ch (CHR ''}'')) \<and> is_format d then
        Some (Returns (mark_end lx l) (Some STRING_CONTENT) has_content False)
      else if lookahead lx l = BACKSLASH then
        (if is_raw d then
           (let l = advance lx l
            in string_loop lx d
                 (if lookahead lx l = end_character d \<or> lookahead lx l = BACKSLASH then advance lx l else l) has_content)
         else if is_bytes d then
           (let l = advance lx (mark_end lx l)
            in if lookahead lx l = ch (CHR ''N'') \<or> lookahead lx l = ch (CHR ''u'') \<or> lookahead lx l = ch (CHR ''U'')
               then string_loop lx d (advance lx (advance lx l)) True
               else Some (Returns l (Some STRING_CONTENT) has_content False))
         else Some (Returns (mark_end lx l) (Some STRING_CONTENT) has_content False))
      else if lookahead lx l = end_character d then Some (string_quote lx d l has_content)
      else if lookahead lx l = NL \<and> has_content \<and> \<not> is_triple d then Some (Returns l None False False)
      else string_loop lx d (advance lx l) True)"

partial_function (option) comment_loop :: "'l lexer_api \<Rightarrow> 'l \<Rightarrow> 'l option" where
  "comment_loop lx l =
     (if lookahead lx l \<noteq> 0 \<and> lookahead lx l \<noteq> NL then comment_loop lx (skip lx l) else Some l)"

text \<open>
  White space and comments before a token: whether a line ended, the indentation of the last line, and
  the indentation of the first comment (\<open>- 1\<close> for none). The inner \<open>None\<close> is a return without token,
  after a backslash that does not continue the line.
\<close>

record line_start =
  found_end_of_line :: bool
  indent_length :: "32 word"
  first_comment :: "32 word"

partial_function (option) space_loop ::
  "'l lexer_api \<Rightarrow> 'l \<Rightarrow> line_start \<Rightarrow> ('l \<times> line_start option) option" where
  "space_loop lx l w =
     (if lookahead lx l = NL then
        space_loop lx (skip lx l) (w\<lparr>found_end_of_line := True, indent_length := 0\<rparr>)
      else if lookahead lx l = ch (CHR '' '') then
        space_loop lx (skip lx l) (w\<lparr>indent_length := indent_length w + 1\<rparr>)
      else if lookahead lx l = CR then space_loop lx (skip lx l) (w\<lparr>indent_length := 0\<rparr>)
      else if lookahead lx l = ch (CHR 0x09) then
        space_loop lx (skip lx l) (w\<lparr>indent_length := indent_length w + 8\<rparr>)
      else if lookahead lx l = ch (CHR ''#'') then
        Option.bind (comment_loop lx l)
          (\<lambda>l. space_loop lx (skip lx l)
             (w\<lparr>first_comment := (if first_comment w = - 1 then indent_length w else first_comment w),
                indent_length := 0\<rparr>))
      else if lookahead lx l = BACKSLASH then
        (let l = skip lx l; l = (if lookahead lx l = CR then skip lx l else l)
         in if lookahead lx l = NL then space_loop lx (skip lx l) w else Some (l, None))
      else if lookahead lx l = ch (CHR 0x0C) then space_loop lx (skip lx l) (w\<lparr>indent_length := 0\<rparr>)
      else if lookahead lx l = 0 then Some (l, Some (w\<lparr>indent_length := 0, found_end_of_line := True\<rparr>))
      else Some (l, Some w))"

text \<open>The tokens at the start of a line.\<close>

definition line_token :: "(token_type \<Rightarrow> bool) \<Rightarrow> line_start \<Rightarrow> scanner \<Rightarrow> (scanner \<times> token_type) option" where
  "line_token valid w s =
     (let within_brackets = (valid CLOSE_BRACE \<or> valid CLOSE_PAREN \<or> valid CLOSE_BRACKET);
          error_recovery_mode = (valid STRING_CONTENT \<and> valid INDENT);
          newline = (if valid NEWLINE \<and> \<not> error_recovery_mode then Some (s, NEWLINE) else None)
      in if \<not> found_end_of_line w then None
         else if indent_length_stack s = [] then newline
         else
           let current = last (indent_length_stack s)
           in if valid INDENT \<and> unat current < unat (indent_length w) then
                Some (s\<lparr>indent_length_stack := indent_length_stack s @ [ucast (indent_length w)]\<rparr>, INDENT)
              else if (valid DEDENT \<or> \<not> valid NEWLINE \<and> \<not> within_brackets) \<and>
                  unat (indent_length w) < unat current \<and> sint (first_comment w) < int (unat current) then
                Some (s\<lparr>indent_length_stack := butlast (indent_length_stack s)\<rparr>, DEDENT)
              else newline)"

text \<open>The prefix letters of a string, and its opening quotes.\<close>

partial_function (option) prefix_loop ::
  "'l lexer_api \<Rightarrow> 'l \<Rightarrow> delimiter \<Rightarrow> bool \<Rightarrow> ('l \<times> delimiter \<times> bool) option" where
  "prefix_loop lx l d has_flags =
     (let c = lookahead lx l
      in if c = 0 then Some (l, d, has_flags)
         else if c = ch (CHR ''f'') \<or> c = ch (CHR ''F'') then prefix_loop lx (advance lx l) (set_format d) True
         else if c = ch (CHR ''r'') \<or> c = ch (CHR ''R'') then prefix_loop lx (advance lx l) (set_raw d) True
         else if c = ch (CHR ''b'') \<or> c = ch (CHR ''B'') then prefix_loop lx (advance lx l) (set_bytes d) True
         else if c \<noteq> ch (CHR ''u'') \<and> c \<noteq> ch (CHR ''U'') then Some (l, d, has_flags)
         else prefix_loop lx (advance lx l) d True)"

definition open_quotes :: "'l lexer_api \<Rightarrow> code_point \<Rightarrow> 'l \<Rightarrow> delimiter \<Rightarrow> 'l \<times> delimiter" where
  "open_quotes lx q l d =
     (let d = set_end_character q d; l = mark_end lx (advance lx l)
      in if lookahead lx l = q then
           (let l = advance lx l
            in if lookahead lx l = q then (mark_end lx (advance lx l), set_triple d) else (l, d))
         else (l, d))"

definition string_start :: "'l lexer_api \<Rightarrow> 'l \<Rightarrow> delimiter \<Rightarrow> 'l \<times> delimiter" where
  "string_start lx l d =
     (if lookahead lx l = BQUOTE then (mark_end lx (advance lx l), set_end_character BQUOTE d)
      else if lookahead lx l = QUOTE then open_quotes lx QUOTE l d
      else if lookahead lx l = DQUOTE then open_quotes lx DQUOTE l d
      else (l, d))"

text \<open>A scan: the new state, the lexer, the symbol that was set, and the returned value.\<close>

type_synonym 'l scan_result = "scanner \<times> 'l \<times> token_type option \<times> bool"

definition scan_token ::
  "'l lexer_api \<Rightarrow> (token_type \<Rightarrow> bool) \<Rightarrow> scanner \<Rightarrow> 'l \<Rightarrow> 'l scan_result option" where
  "scan_token lx valid s l =
     Option.bind (space_loop lx (mark_end lx l) \<lparr>found_end_of_line = False, indent_length = 0, first_comment = - 1\<rparr>)
       (\<lambda>(l, w). case w of
          None \<Rightarrow> Some (s, l, None, False)
        | Some w \<Rightarrow>
            (case line_token valid w s of
               Some (s', t) \<Rightarrow> Some (s', l, Some t, True)
             | None \<Rightarrow>
                 if first_comment w = - 1 \<and> valid STRING_START then
                   Option.bind (prefix_loop lx l \<lparr>flags = 0\<rparr> False)
                     (\<lambda>(l, d, has_flags). case string_start lx l d of (l, d) \<Rightarrow>
                        if end_character d \<noteq> 0 then
                          Some (s\<lparr>delimiter_stack := delimiter_stack s @ [d]\<rparr>, l, Some STRING_START, True)
                        else Some (s, l, None, False))
                 else Some (s, l, None, False)))"

definition scan :: "'l lexer_api \<Rightarrow> (token_type \<Rightarrow> bool) \<Rightarrow> scanner \<Rightarrow> 'l \<Rightarrow> 'l scan_result option" where
  "scan lx valid s l =
     (if valid STRING_CONTENT \<and> delimiter_stack s \<noteq> [] \<and> \<not> (valid STRING_CONTENT \<and> valid INDENT) then
        Option.bind (string_loop lx (last (delimiter_stack s)) l False)
          (\<lambda>e. case e of
             At_end l \<Rightarrow> scan_token lx valid s l
           | Returns l t ok popped \<Rightarrow>
               Some (if popped then s\<lparr>delimiter_stack := butlast (delimiter_stack s)\<rparr> else s, l, t, ok))
      else scan_token lx valid s l)"

end
