(* ===== verification/PyScannerProof.thy ===== *)
theory PyScannerProof
  imports PyScanner Prelude
begin

text \<open>
  Correctness of the Python scanner: every scan returns over a lexer that makes progress, the stacks
  stay well formed and change exactly with the tokens that are reported, and the serialized form
  fits its buffer and restores the state when the indentations are small.
\<close>

section \<open>Lexers\<close>

text \<open>
  What the scanner needs of the lexer: moving past a character other than the end consumes input,
  moving never gives input back, and marking the end of the token moves nothing.
\<close>

locale progressing_lexer =
  fixes lx :: "'l lexer_api" and remaining :: "'l \<Rightarrow> nat"
  assumes progress: "lookahead lx l \<noteq> 0 \<Longrightarrow> remaining (advance_fn lx l b) < remaining l"
    and no_regress: "remaining (advance_fn lx l b) \<le> remaining l"
    and mark_remaining: "remaining (mark_end lx l) = remaining l"
    and mark_lookahead: "lookahead lx (mark_end lx l) = lookahead lx l"
begin

lemma advance_less: "lookahead lx l \<noteq> 0 \<Longrightarrow> remaining (advance lx l) < remaining l"
  "lookahead lx l \<noteq> 0 \<Longrightarrow> remaining (skip lx l) < remaining l"
  by (simp_all add: advance_def skip_def progress)

lemma advance_le: "remaining (advance lx l) \<le> remaining l" "remaining (skip lx l) \<le> remaining l"
  by (simp_all add: advance_def skip_def no_regress)

lemma string_loop_returns: "\<exists>e. string_loop lx d l has_content = Some e"
proof (induction "remaining l" arbitrary: l has_content rule: less_induct)
  case less
  show ?case
  proof (cases "lookahead lx l = 0")
    case True
    then show ?thesis by (subst string_loop.simps) simp
  next
    case False
    have one: "remaining (advance lx l) < remaining l" by (rule advance_less(1) [OF False])
    have two: "remaining (advance lx (advance lx l)) < remaining l" using one advance_le(1) [of "advance lx l"] by simp
    let ?m = "advance lx (mark_end lx l)"
    have three: "remaining (advance lx (advance lx ?m)) < remaining l" if "lookahead lx ?m \<noteq> 0"
      using advance_le(1) [of "mark_end lx l"] advance_less(1) [OF that] advance_le(1) [of "advance lx ?m"]
      by (simp add: mark_remaining)
    show ?thesis
      using less [OF one] less [OF two] less [OF three]
      by (subst string_loop.simps) (auto simp: Let_def)
  qed
qed

lemma comment_loop_returns: "\<exists>l'. comment_loop lx l = Some l' \<and> remaining l' \<le> remaining l"
proof (induction "remaining l" arbitrary: l rule: less_induct)
  case less
  show ?case
  proof (cases "lookahead lx l \<noteq> 0 \<and> lookahead lx l \<noteq> NL")
    case True
    then have one: "remaining (skip lx l) < remaining l" using advance_less(2) by blast
    then show ?thesis using less [OF one] True by (subst comment_loop.simps) (auto intro: order_trans)
  next
    case False
    then show ?thesis by (subst comment_loop.simps) auto
  qed
qed

lemma comment_loop_less:
  assumes "lookahead lx l = ch (CHR ''#'')" "comment_loop lx l = Some l'"
  shows "remaining (skip lx l') < remaining l"
proof -
  have nz: "lookahead lx l \<noteq> 0" "lookahead lx l \<noteq> NL" using assms(1) by simp_all
  then have "comment_loop lx (skip lx l) = Some l'"
    using assms(2) by (subst (asm) comment_loop.simps) simp
  then have "remaining l' \<le> remaining (skip lx l)" using comment_loop_returns [of "skip lx l"] by auto
  then show ?thesis using advance_less(2) [OF nz(1)] advance_le(2) [of l'] by linarith
qed

lemma space_loop_returns: "\<exists>r. space_loop lx l w = Some r"
proof (induction "remaining l" arbitrary: l w rule: less_induct)
  case less
  show ?case
  proof (cases "lookahead lx l = 0")
    case True
    then show ?thesis by (subst space_loop.simps) simp
  next
    case False
    have one: "remaining (skip lx l) < remaining l" by (rule advance_less(2) [OF False])
    have two: "remaining (skip lx (skip lx l)) < remaining l" using one advance_le(2) [of "skip lx l"] by simp
    have three: "remaining (skip lx (skip lx (skip lx l))) < remaining l" using two advance_le(2) [of "skip lx (skip lx l)"] by simp
    show ?thesis
    proof (cases "lookahead lx l = ch (CHR ''#'')")
      case True
      obtain l' where l': "comment_loop lx l = Some l'" using comment_loop_returns [of l] by blast
      have c: "lookahead lx l \<noteq> NL" "lookahead lx l \<noteq> ch (CHR '' '')" "lookahead lx l \<noteq> CR" "lookahead lx l \<noteq> ch (CHR 0x09)"
        using True by simp_all
      show ?thesis using less [OF comment_loop_less [OF True l']] True l' c
        by (subst space_loop.simps) (simp del: of_char_Char)
    next
      case no: False
      show ?thesis using less [OF one] less [OF two] less [OF three] no
        by (subst space_loop.simps) (simp add: Let_def)
    qed
  qed
qed

lemma prefix_loop_returns: "\<exists>r. prefix_loop lx l d f = Some r"
proof (induction "remaining l" arbitrary: l d f rule: less_induct)
  case less
  show ?case
  proof (cases "lookahead lx l = 0")
    case True
    then show ?thesis by (subst prefix_loop.simps) simp
  next
    case False
    from less [OF advance_less(1) [OF False]] show ?thesis by (subst prefix_loop.simps) (simp add: Let_def)
  qed
qed

lemma scan_returns: "\<exists>r. scan lx valid s l = Some r"
proof -
  have tok: "\<exists>r. scan_token lx valid s l = Some r" for l
  proof -
    obtain l1 w where "space_loop lx (mark_end lx l) \<lparr>found_end_of_line = False, indent_length = 0, first_comment = - 1\<rparr> = Some (l1, w)"
      using space_loop_returns by fast
    moreover obtain l2 d f where "prefix_loop lx l1 \<lparr>flags = 0\<rparr> False = Some (l2, d, f)"
      using prefix_loop_returns by (metis prod_cases3)
    ultimately show ?thesis
      by (auto simp: scan_token_def split: option.splits prod.splits)
  qed
  obtain e where "string_loop lx (last (delimiter_stack s)) l False = Some e" using string_loop_returns by blast
  then show ?thesis using tok by (auto simp: scan_def split: string_exit.splits)
qed

end

section \<open>A lexer over a text\<close>

text \<open>The interface over a list of characters: the rest of the input, and what remained at the last mark.\<close>

record text_lexer =
  tl_input :: "code_point list"
  tl_marked :: nat

definition text_api :: "text_lexer lexer_api" where
  "text_api =
     \<lparr>lookahead = (\<lambda>l. case tl_input l of [] \<Rightarrow> 0 | c # _ \<Rightarrow> c),
      advance_fn = (\<lambda>l b. l\<lparr>tl_input := tl (tl_input l)\<rparr>),
      mark_end = (\<lambda>l. l\<lparr>tl_marked := length (tl_input l)\<rparr>)\<rparr>"

definition text_of :: "string \<Rightarrow> text_lexer" where
  "text_of str = \<lparr>tl_input = map of_char str, tl_marked = 0\<rparr>"

interpretation text_lx: progressing_lexer text_api "\<lambda>l. length (tl_input l)"
  by unfold_locales (auto simp: text_api_def split: list.splits)

section \<open>The stacks\<close>

definition wf_scanner :: "scanner \<Rightarrow> bool" where
  "wf_scanner s \<longleftrightarrow> indent_length_stack s \<noteq> [] \<and> hd (indent_length_stack s) = 0 \<and>
     (\<forall>d \<in> set (delimiter_stack s). end_character d \<noteq> 0)"

text \<open>What the tokens do to the state, without the characters.\<close>

inductive scanner_step :: "scanner \<Rightarrow> token_type option \<Rightarrow> scanner \<Rightarrow> bool" where
  nothing: "scanner_step s None s"
| newline: "scanner_step s (Some NEWLINE) s"
| content: "scanner_step s (Some STRING_CONTENT) s"
| indent: "unat (last (indent_length_stack s)) < unat (i :: 32 word) \<Longrightarrow>
    scanner_step s (Some INDENT) (s\<lparr>indent_length_stack := indent_length_stack s @ [ucast i]\<rparr>)"
| dedent: "\<lbrakk>indent_length_stack s \<noteq> []; last (indent_length_stack s) \<noteq> 0\<rbrakk> \<Longrightarrow>
    scanner_step s (Some DEDENT) (s\<lparr>indent_length_stack := butlast (indent_length_stack s)\<rparr>)"
| string_start: "end_character d \<noteq> 0 \<Longrightarrow>
    scanner_step s (Some STRING_START) (s\<lparr>delimiter_stack := delimiter_stack s @ [d]\<rparr>)"
| string_end: "delimiter_stack s \<noteq> [] \<Longrightarrow>
    scanner_step s (Some STRING_END) (s\<lparr>delimiter_stack := butlast (delimiter_stack s)\<rparr>)"

inductive_cases scanner_stepE: "scanner_step s t s'"

lemma line_token_step: "line_token valid w s = Some (s', t) \<Longrightarrow> scanner_step s (Some t) s'"
  by (auto simp: line_token_def Let_def unat_eq_0 intro: scanner_step.intros split: if_splits)

text \<open>The exits of the string loop: a delimiter is popped exactly with the end of a string.\<close>

definition string_exit_ok :: "'l lexer_api \<Rightarrow> 'l string_exit \<Rightarrow> bool" where
  "string_exit_ok lx e \<longleftrightarrow>
     (case e of At_end l \<Rightarrow> lookahead lx l = 0
      | Returns l t ok popped \<Rightarrow>
          popped \<and> t = Some STRING_END \<and> ok \<or> \<not> popped \<and> (t = Some STRING_CONTENT \<or> t = None \<and> \<not> ok))"

lemma string_loop_exit:
  assumes "string_loop lx d l has_content = Some e"
  shows "string_exit_ok lx e"
proof (rule string_loop.raw_induct [OF _ assms])
  fix f lx d l has_content e
  assume IH: "\<And>lx d l b e. f lx d l b = Some e \<Longrightarrow> string_exit_ok lx e"
    and e: "(if lookahead lx l = 0 then Some (At_end l)
      else if (lookahead lx l = ch (CHR ''{'') \<or> lookahead lx l = ch (CHR ''}'')) \<and> is_format d then
        Some (Returns (mark_end lx l) (Some STRING_CONTENT) has_content False)
      else if lookahead lx l = BACKSLASH then
        (if is_raw d then
           (let l = advance lx l
            in f lx d
                 (if lookahead lx l = end_character d \<or> lookahead lx l = BACKSLASH then advance lx l else l) has_content)
         else if is_bytes d then
           (let l = advance lx (mark_end lx l)
            in if lookahead lx l = ch (CHR ''N'') \<or> lookahead lx l = ch (CHR ''u'') \<or> lookahead lx l = ch (CHR ''U'')
               then f lx d (advance lx (advance lx l)) True
               else Some (Returns l (Some STRING_CONTENT) has_content False))
         else Some (Returns (mark_end lx l) (Some STRING_CONTENT) has_content False))
      else if lookahead lx l = end_character d then Some (string_quote lx d l has_content)
      else if lookahead lx l = NL \<and> has_content \<and> \<not> is_triple d then Some (Returns l None False False)
      else f lx d (advance lx l) True) = Some e"
  then show "string_exit_ok lx e"
    by (auto simp: Let_def string_quote_def string_exit_ok_def split: if_splits)
qed

lemma scan_token_step:
  assumes "scan_token lx valid s l = Some (s', l', t, ok)"
  shows "scanner_step s (if ok then t else None) s'"
proof -
  obtain l1 w where "space_loop lx (mark_end lx l) \<lparr>found_end_of_line = False, indent_length = 0, first_comment = - 1\<rparr> = Some (l1, w)"
    and r: "(case w of None \<Rightarrow> Some (s, l1, None, False)
        | Some w \<Rightarrow>
            (case line_token valid w s of
               Some (s', t) \<Rightarrow> Some (s', l1, Some t, True)
             | None \<Rightarrow>
                 if first_comment w = - 1 \<and> valid STRING_START then
                   Option.bind (prefix_loop lx l1 \<lparr>flags = 0\<rparr> False)
                     (\<lambda>(l, d, has_flags). case string_start lx l d of (l, d) \<Rightarrow>
                        if end_character d \<noteq> 0 then
                          Some (s\<lparr>delimiter_stack := delimiter_stack s @ [d]\<rparr>, l, Some STRING_START, True)
                        else Some (s, l, None, False))
                 else Some (s, l1, None, False))) = Some (s', l', t, ok)"
    using assms unfolding scan_token_def bind_eq_Some_conv by auto
  show ?thesis
  proof (cases w)
    case None
    then show ?thesis using r by (simp add: scanner_step.nothing)
  next
    case w: (Some v)
    show ?thesis
    proof (cases "line_token valid v s")
      case None
      show ?thesis
      proof (cases "first_comment v = - 1 \<and> valid STRING_START")
        case True
        then obtain l2 d f where "prefix_loop lx l1 \<lparr>flags = 0\<rparr> False = Some (l2, d, f)"
          using r w None by (cases "prefix_loop lx l1 \<lparr>flags = 0\<rparr> False") auto
        moreover obtain l3 d3 where "string_start lx l2 d = (l3, d3)" by force
        ultimately show ?thesis using r w None True
          by (auto intro: scanner_step.nothing scanner_step.string_start split: if_splits)
      next
        case False
        then show ?thesis using r w None by (auto intro: scanner_step.nothing)
      qed
    next
      case (Some a)
      then show ?thesis using r w line_token_step [of valid] by (cases a) auto
    qed
  qed
qed

lemma scan_step:
  assumes "scan lx valid s l = Some (s', l', t, ok)"
  shows "scanner_step s (if ok then t else None) s'"
proof (cases "valid STRING_CONTENT \<and> delimiter_stack s \<noteq> [] \<and> \<not> (valid STRING_CONTENT \<and> valid INDENT)")
  case False
  then have "scan lx valid s l = scan_token lx valid s l" unfolding scan_def by (rule if_not_P)
  then show ?thesis using assms scan_token_step by metis
next
  case True
  then obtain e where e: "string_loop lx (last (delimiter_stack s)) l False = Some e"
    using assms by (cases "string_loop lx (last (delimiter_stack s)) l False") (auto simp: scan_def)
  show ?thesis
  proof (cases e)
    case (At_end l2)
    then have "scan_token lx valid s l2 = Some (s', l', t, ok)" using assms True e by (simp add: scan_def)
    then show ?thesis by (rule scan_token_step)
  next
    case (Returns l2 t2 ok2 popped)
    then show ?thesis using assms True e string_loop_exit [OF e]
      by (auto simp: scan_def string_exit_ok_def intro: scanner_step.intros split: if_splits)
  qed
qed

lemma wf_scanner_step: "scanner_step s t s' \<Longrightarrow> wf_scanner s \<Longrightarrow> wf_scanner s'"
proof (induction rule: scanner_step.induct)
  case (dedent s)
  then have "length (indent_length_stack s) \<noteq> 1" by (cases "indent_length_stack s") (auto simp: wf_scanner_def)
  then obtain a b c where "indent_length_stack s = a # b # c"
    using dedent(1) by (metis One_nat_def length_0_conv length_Cons list.exhaust)
  then show ?case using dedent by (auto simp: wf_scanner_def)
qed (auto simp: wf_scanner_def dest: in_set_butlastD)

inductive scanner_run :: "scanner \<Rightarrow> token_type list \<Rightarrow> scanner \<Rightarrow> bool" where
  empty: "scanner_run s [] s"
| silent: "\<lbrakk>scanner_run s ts s'; scanner_step s' None s''\<rbrakk> \<Longrightarrow> scanner_run s ts s''"
| token: "\<lbrakk>scanner_run s ts s'; scanner_step s' (Some t) s''\<rbrakk> \<Longrightarrow> scanner_run s (ts @ [t]) s''"

lemma scanner_run_balance:
  assumes "scanner_run s ts s'" "wf_scanner s"
  shows "wf_scanner s' \<and>
    count_list ts INDENT + length (indent_length_stack s) = count_list ts DEDENT + length (indent_length_stack s') \<and>
    count_list ts STRING_START + length (delimiter_stack s) = count_list ts STRING_END + length (delimiter_stack s')"
  using assms
proof (induction rule: scanner_run.induct)
  case (token s ts s' t s'')
  have "wf_scanner s''" using wf_scanner_step [OF token(2)] token.IH token.prems by blast
  then show ?case using token.IH token.prems token(2)
    by (auto elim!: scanner_stepE)
next
  case (silent s ts s' s'')
  then show ?case by (auto elim: scanner_stepE)
qed simp

section \<open>The serialized form\<close>

lemma length_serialize: "length (serialize s) \<le> serialization_buffer_size"
  by (simp add: serialize_def serialization_buffer_size_def Let_def)

text \<open>What a stored state keeps: at most 255 delimiters, and as many indentations as fit, as signed bytes.\<close>

lemma flags_make [simp]: "delimiter.make (flags d) = d"
  by (cases d) (simp add: delimiter.make_def)

lemma deserialize_serialize:
  "deserialize (serialize s) = Some \<lparr>
     indent_length_stack = 0 # map (\<lambda>i. scast (ucast i :: i8))
       (take (1023 - min (length (delimiter_stack s)) 255) (tl (indent_length_stack s))),
     delimiter_stack = take 255 (delimiter_stack s)\<rparr>"
proof -
  let ?n = "min (length (delimiter_stack s)) 255"
  have n: "unat (of_nat ?n :: i8) = ?n" by (simp add: unat_of_nat take_bit_nat_eq_self min_def)
  have t: "take ?n (delimiter_stack s) = take 255 (delimiter_stack s)" by (simp add: min_def)
  have len: "length (map flags (take 255 (delimiter_stack s))) = ?n" by simp
  have ser: "serialize s = of_nat ?n # map flags (take 255 (delimiter_stack s)) @
      map ucast (take (1023 - ?n) (tl (indent_length_stack s)))"
    unfolding serialize_def Let_def t serialization_buffer_size_def by simp
  show ?thesis
    unfolding ser deserialize_def list.case Let_def n
    by (simp add: comp_def min_def take_map drop_map)
qed

lemma small_byte: "unat (i :: u16) < 128 \<Longrightarrow> scast (ucast i :: i8) = i"
proof -
  assume i: "unat (i :: u16) < 128"
  then have b: "0 \<le> uint i" "uint i < 128" using uint_nat [of i] by linarith+
  have "- (2 ^ 7) \<le> uint i" by (rule order_trans [OF _ b(1)]) simp
  then have "signed_take_bit 7 (uint i) = uint i" using b(2) by (intro signed_take_bit_int_eq_self) simp_all
  then have "sint (ucast i :: i8) = uint i"
    unfolding sint_uint using b by (simp add: unsigned_ucast_eq take_bit_int_eq_self)
  then have "scast (ucast i :: i8) = (word_of_int (uint i) :: u16)" by (metis scast_eq)
  then show ?thesis by simp
qed

lemma serialize_roundtrip:
  assumes "wf_scanner s" "length (delimiter_stack s) \<le> 255"
    and "length (delimiter_stack s) + length (indent_length_stack s) \<le> 1024"
    and "\<forall>i \<in> set (indent_length_stack s). unat i < 128"
  shows "deserialize (serialize s) = Some s"
proof -
  obtain rest where r: "indent_length_stack s = 0 # rest"
    using assms(1) by (cases "indent_length_stack s") (auto simp: wf_scanner_def)
  have "map (\<lambda>i. scast (ucast i :: i8)) rest = rest"
    using assms(4) by (intro map_idI small_byte) (simp add: r)
  then show ?thesis using assms(2,3) using r unfolding deserialize_serialize by (cases s) simp
qed

text \<open>An indentation of 200 columns comes back as 65480.\<close>

lemma serialize_sign_extends:
  "deserialize (serialize \<lparr>indent_length_stack = [0, 200], delimiter_stack = []\<rparr>) =
     Some \<lparr>indent_length_stack = [0, 65480], delimiter_stack = []\<rparr>"
  by (simp add: deserialize_serialize)

section \<open>The order of the indentations\<close>

text \<open>The indentation is at most eight columns for every character read.\<close>

context progressing_lexer
begin

lemma space_loop_indent:
  assumes "space_loop lx l w = Some (l', Some w')"
  shows "unat (indent_length w') \<le> unat (indent_length w) + 8 * remaining l"
proof -
  have "\<forall>w'. snd r = Some w' \<longrightarrow> unat (indent_length w') \<le> unat (indent_length w) + 8 * remaining l"
    if "space_loop lx l w = Some r" for r
    using that
  proof (induction "remaining l" arbitrary: l w r rule: less_induct)
    case less
    show ?case
    proof (cases "lookahead lx l = 0")
      case True
      then show ?thesis using less.prems by (subst (asm) space_loop.simps) auto
    next
      case False
      note one = advance_less(2) [OF False]
      have two: "remaining (skip lx (skip lx l)) < remaining l" using one advance_le(2) [of "skip lx l"] by simp
      have three: "remaining (skip lx (skip lx (skip lx l))) < remaining l" using two advance_le(2) [of "skip lx (skip lx l)"] by simp
      have step: "\<forall>w'. snd r = Some w' \<longrightarrow> unat (indent_length w') \<le> unat (indent_length w) + 8 * remaining l"
        if "space_loop lx l1 w1 = Some r" "remaining l1 < remaining l" "unat (indent_length w1) \<le> unat (indent_length w) + 8"
        for l1 w1
        using less.hyps [OF that(2,1)] that(2,3) by fastforce
      have plus: "unat (indent_length w + 1) \<le> unat (indent_length w) + 8" "unat (indent_length w + 8) \<le> unat (indent_length w) + 8"
        by (simp_all add: unat_word_ariths)
      note unf = less.prems [unfolded space_loop.simps [of lx l w]]
      consider "lookahead lx l = NL" | "lookahead lx l = ch (CHR '' '')" | "lookahead lx l = CR"
        | "lookahead lx l = ch (CHR 0x09)" | "lookahead lx l = ch (CHR ''#'')" | "lookahead lx l = BACKSLASH"
        | "lookahead lx l = ch (CHR 0x0C)"
        | "lookahead lx l \<notin> {NL, ch (CHR '' ''), CR, ch (CHR 0x09), ch (CHR ''#''), BACKSLASH, ch (CHR 0x0C)}" by blast
      then show ?thesis
      proof cases
        case 1
        then show ?thesis using unf by (intro step [OF _ one]) (auto simp del: of_char_Char)
      next
        case 2
        then show ?thesis using unf plus by (intro step [OF _ one]) auto
      next
        case 3
        then show ?thesis using unf by (intro step [OF _ one]) auto
      next
        case 4
        then show ?thesis using unf plus by (intro step [OF _ one]) auto
      next
        case 5
        then obtain l2 where "comment_loop lx l = Some l2" using comment_loop_returns [of l] by blast
        then show ?thesis using unf 5 by (intro step [OF _ comment_loop_less [OF 5]]) auto
      next
        case 6
        then show ?thesis using unf step [OF _ two] step [OF _ three]
          by (auto simp: Let_def split: if_splits)
      next
        case 7
        then show ?thesis using unf by (intro step [OF _ one]) auto
      next
        case 8
        then show ?thesis using unf False by auto
      qed
    qed
  qed
  then show ?thesis using assms by simp
qed

lemma space_loop_at_end: "lookahead lx l = 0 \<Longrightarrow> space_loop lx l w = Some (l, Some (w\<lparr>indent_length := 0, found_end_of_line := True\<rparr>))"
  by (subst space_loop.simps) simp

text \<open>The indentations increase strictly, as long as no line is so long that 16 bits wrap.\<close>

lemma line_token_increasing:
  assumes t: "line_token valid w s = Some (s', t)" and s: "sorted_wrt (<) (indent_length_stack s)"
    and w: "unat (indent_length w) < 65536"
  shows "sorted_wrt (<) (indent_length_stack s')"
proof -
  let ?st = "indent_length_stack s"
  have push: "sorted_wrt (<) (?st @ [ucast (indent_length w)])"
    if "?st \<noteq> []" "unat (last ?st) < unat (indent_length w)"
  proof -
    have split: "?st = butlast ?st @ [last ?st]" using that(1) by simp
    have "unat (ucast (indent_length w) :: u16) = unat (indent_length w)"
      using w by (simp add: unsigned_ucast_eq take_bit_nat_eq_self)
    then have "last ?st < ucast (indent_length w)" using that(2) by (simp add: word_less_nat_alt)
    moreover have "x \<le> last ?st" if "x \<in> set ?st" for x
      using s that by (subst (asm) split, subst (asm) split) (auto simp: sorted_wrt_append)
    ultimately show ?thesis using s by (auto simp: sorted_wrt_append intro: order_le_less_trans)
  qed
  have pop: "sorted_wrt (<) (butlast ?st)" if "?st \<noteq> []"
    using s by (subst (asm) append_butlast_last_id [OF that, symmetric]) (simp only: sorted_wrt_append)
  show ?thesis using t push pop s by (auto simp: line_token_def Let_def split: if_splits)
qed

lemma scan_token_increasing:
  assumes "scan_token lx valid s l = Some (s', l', t, ok)" "sorted_wrt (<) (indent_length_stack s)"
    and "8 * remaining l < 65536 \<or> lookahead lx l = 0"
  shows "sorted_wrt (<) (indent_length_stack s')"
proof -
  let ?w = "\<lparr>found_end_of_line = False, indent_length = 0, first_comment = - 1\<rparr>"
  obtain l1 w where sp: "space_loop lx (mark_end lx l) ?w = Some (l1, w)"
    using space_loop_returns [of "mark_end lx l" ?w] by auto
  show ?thesis
  proof (cases w)
    case None
    then show ?thesis using assms(1,2) sp by (auto simp: scan_token_def)
  next
    case (Some v)
    have b: "unat (indent_length v) < 65536"
      using assms(3)
    proof
      assume "8 * remaining l < 65536"
      then show ?thesis using space_loop_indent [OF sp [unfolded Some]] by (simp add: mark_remaining)
    next
      assume "lookahead lx l = 0"
      then show ?thesis using space_loop_at_end [of "mark_end lx l" ?w] sp Some by (auto simp: mark_lookahead)
    qed
    show ?thesis
    proof (cases "line_token valid v s")
      case (Some p)
      then show ?thesis
        using assms(1) sp \<open>w = _\<close> line_token_increasing [OF _ assms(2) b] by (cases p) (auto simp: scan_token_def)
    next
      case none: None
      obtain l2 d f where p: "prefix_loop lx l1 \<lparr>flags = 0\<rparr> False = Some (l2, d, f)"
        using prefix_loop_returns by (metis prod_cases3)
      obtain l3 d3 where "string_start lx l2 d = (l3, d3)" by force
      then have "indent_length_stack s' = indent_length_stack s"
        using assms(1) sp p none \<open>w = _\<close> by (auto simp: scan_token_def split: if_splits)
      then show ?thesis using assms(2) by simp
    qed
  qed
qed

lemma scan_increasing:
  assumes "scan lx valid s l = Some (s', l', t, ok)" "sorted_wrt (<) (indent_length_stack s)" "8 * remaining l < 65536"
  shows "sorted_wrt (<) (indent_length_stack s')"
proof (cases "valid STRING_CONTENT \<and> delimiter_stack s \<noteq> [] \<and> \<not> (valid STRING_CONTENT \<and> valid INDENT)")
  case False
  then have "scan lx valid s l = scan_token lx valid s l" unfolding scan_def by (rule if_not_P)
  then show ?thesis using assms scan_token_increasing [of valid s l] by (metis)
next
  case True
  then obtain e where e: "string_loop lx (last (delimiter_stack s)) l False = Some e"
    using string_loop_returns by blast
  show ?thesis
  proof (cases e)
    case (At_end l2)
    then have "scan_token lx valid s l2 = Some (s', l', t, ok)" using assms(1) True e by (simp add: scan_def)
    then show ?thesis using scan_token_increasing [of valid s l2] assms(2) string_loop_exit [OF e] At_end
      by (auto simp: string_exit_ok_def)
  next
    case (Returns l2 t2 ok2 popped)
    then show ?thesis using assms True e by (auto simp: scan_def split: if_splits)
  qed
qed

end

text \<open>With 8192 tabs, the indentation wraps to 0 and the order is lost.\<close>

lemma indent_wraps:
  "line_token (\<lambda>t. t = INDENT) \<lparr>found_end_of_line = True, indent_length = 65536, first_comment = - 1\<rparr>
     \<lparr>indent_length_stack = [0], delimiter_stack = []\<rparr> =
   Some (\<lparr>indent_length_stack = [0, 0], delimiter_stack = []\<rparr>, INDENT)"
  by (simp add: line_token_def)

text \<open>
  In a bytes string, the character after \<open>\N\<close>, \<open>\u\<close> or \<open>\U\<close> is passed without being looked at, the
  closing quote included: the string \<open>b'\N'\<close> is not closed.
\<close>

lemma text_api_simps [simp]:
  "lookahead text_api l = (case tl_input l of [] \<Rightarrow> 0 | c # _ \<Rightarrow> c)"
  "advance text_api l = l\<lparr>tl_input := tl (tl_input l)\<rparr>" "skip text_api l = l\<lparr>tl_input := tl (tl_input l)\<rparr>"
  "mark_end text_api l = l\<lparr>tl_marked := length (tl_input l)\<rparr>"
  by (simp_all add: text_api_def advance_def skip_def)

definition bytes_delimiter :: delimiter where
  "bytes_delimiter = set_bytes (set_end_character QUOTE \<lparr>flags = 0\<rparr>)"

lemma bytes_delimiter_flags [simp]:
  "is_format bytes_delimiter = False" "is_raw bytes_delimiter = False" "is_bytes bytes_delimiter = True"
  "is_triple bytes_delimiter = False" "end_character bytes_delimiter = QUOTE"
  by code_simp+

lemma bytes_quote_missed:
  "scan text_api (\<lambda>t. t = STRING_CONTENT \<or> t = STRING_END)
     \<lparr>indent_length_stack = [0], delimiter_stack = [bytes_delimiter]\<rparr> (text_of [CHR 0x5C, CHR ''N'', CHR 0x27]) =
   Some (\<lparr>indent_length_stack = [0], delimiter_stack = [bytes_delimiter]\<rparr>, \<lparr>tl_input = [], tl_marked = 0\<rparr>, None, False)"
proof -
  have fin: "string_loop text_api bytes_delimiter \<lparr>tl_input = [], tl_marked = n\<rparr> True = Some (At_end \<lparr>tl_input = [], tl_marked = n\<rparr>)" for n
    by (subst string_loop.simps) simp
  have "string_loop text_api bytes_delimiter (text_of [CHR 0x5C, CHR ''N'', CHR 0x27]) False =
      Some (At_end \<lparr>tl_input = [], tl_marked = 3\<rparr>)"
    by (subst string_loop.simps) (simp add: text_of_def fin)
  then show ?thesis
    by (simp add: scan_def scan_token_def text_lx.space_loop_at_end line_token_def)
qed

end
