(* ===== verification/Spec2Isabelle.thy ===== *)
theory Spec2Isabelle
  imports MpbqBounds MpqDecimal MpqInts NlInterval BoolRewriterProof SatExample PyScannerProof
begin

text \<open>
  A verification library for C++ code of DryadSynth: parts of the Z3 solver that it builds and links
  (dryadsynth/StarExec/src/z3/src, written \<open>z3\<close> below) and the scanner of the Python grammar
  (dryadsynth-bv/tree-sitter/tree-sitter-python). Every definition is translated from the file that its
  theory names; the properties C1, C2, ... in this theory span the components, and
  some further facts follow them at its end.

  \<^bold>\<open>Parts and how they interact.\<close> Multi-precision numbers carry the whole arithmetic of the solver. Digits
  (\<open>mpn_manager\<close>) are the bottom; integers (\<open>mpz_manager\<close>) are machine words as long as they fit and
  digits otherwise; rationals (\<open>mpq_manager\<close>) are pairs of them in lowest terms; binary rationals (\<open>mpbq_manager\<close>) are integers over a power of two, used for the
  isolating intervals of algebraic numbers. Intervals with dependencies (\<open>old_interval\<close>) are what the
  arithmetic theory (\<open>theory_arith\<close>) evaluates non-linear monomials with: it derives bounds from
  intervals, and the dependencies become the explanations of these bounds. The rewriter of the Boolean connectives
  (\<open>bool_rewriter\<close>) simplifies the formulas before the search. The SAT solver's preprocessor
  (\<open>sat::simplifier\<close>, \<open>elim_eqs\<close>, \<open>cleaner\<close>) removes clauses and variables, and its model converter gives the
  variables their values back. The Python scanner is
  independent of all these.

  \<^bold>\<open>Theories and sources.\<close>
  \<^item> \<open>Prelude\<close>: machine words, digit sequences and their value \<open>nval\<close>.
  \<^item> \<open>Mpn\<close>, \<open>MpnDiv\<close>, \<open>MpnDivProof\<close>: z3/util/mpn.cpp. Arrays are lists of 32-bit words; the buffers that
    the code passes in and out are arguments and results; the scratch buffers of the manager are the
    record \<open>mpn_manager\<close>. C1.
  \<^item> \<open>Mpz\<close>, \<open>MpzProof\<close>: z3/util/mpz.h and mpz.cpp, the data type and the ring operations; \<open>mpz_val\<close> is the
    integer a representation stands for, \<open>wf_mpz\<close> the representation invariant. C3, C4.
  \<^item> \<open>MpzBits\<close>, \<open>MpzBitsProof\<close>, \<open>MpzShift\<close>, \<open>MpzWords\<close>: shifts, logarithms, machine integers and the gcd of
    two machine words. Their theorems are among the further facts.
  \<^item> \<open>MpzGcd\<close>, \<open>MpzAlgo\<close>: Lehmer's gcd and the algorithms over it. C2, C5 to C8.
  \<^item> \<open>MpzText\<close>, \<open>MpzBitwise\<close>: decimal text and bitwise operations. C9, C10.
  \<^item> \<open>Mpq\<close>: z3/util/mpq.h and mpq.cpp, the record \<open>mpq\<close> of a numerator and a denominator and every operation
    that the manager defines on it. \<open>MpqProof\<close>: \<open>mpq_val\<close> is the rational it stands for, \<open>wf_mpq\<close> lowest terms with a
    positive denominator; arithmetic, order, rounding, powers. \<open>MpqText\<close>, \<open>MpqDecimal\<close>: parsing, printing and
    decimal expansions. \<open>MpqRoots\<close>, \<open>MpqInts\<close>: square roots, sums into an operand, machine integers and
    integer operations. C11 to C16.
  \<^item> \<open>MpzView\<close>: the integers with executable counterparts of what \<open>mpbq\<close> calls, each refined by the
    operation on representations; \<open>Mpbq\<close>, \<open>MpbqProof\<close>, \<open>MpbqBounds\<close>: z3/util/mpbq.h and mpbq.cpp. C23 to C26.
  \<^item> \<open>OldInterval\<close>, \<open>OldIntervalSound\<close>, \<open>OldIntervalOps\<close>: z3/smt/old_interval.h and .cpp and the dependency
    trees of z3/util/dependency.h. C17 to C19.
  \<^item> \<open>NlInterval\<close>: z3/smt/theory_arith_nl.h, and \<open>normalize_bound\<close> of theory_arith_aux.h. C20 to C22.
  \<^item> \<open>PyScanner\<close>, \<open>PyScannerProof\<close>: tree-sitter-python/scanner.cc. The class \<open>Scanner\<close> is the record
    \<open>scanner\<close>; the lexer of the parser library is the record of functions \<open>lexer_api\<close>, a parameter.
    C27 to C31.
  \<^item> \<open>BoolRewriter\<close>, \<open>BoolConnectives\<close>: z3/ast/rewriter/bool_rewriter.h and .cpp over a datatype of terms; shared
    subterms are equal terms, as hash-consing makes them one. \<open>BoolProof\<close> gives the semantics and proves negation,
    equality and the collection of literals, \<open>BoolLocal\<close> the local-context simplification and its end,
    \<open>BoolRewriterProof\<close> the connectives. C32 to C34.
  \<^item> \<open>SatTypes\<close>, \<open>SatClause\<close>, \<open>SatWatched\<close>, \<open>SatUseList\<close>: z3/sat/sat_types.h, sat_clause.h and .cpp, sat_watched.h
    and .cpp, sat_clause_use_list.h and .cpp, util/approx_set.h and lbool.h. Words are packed as in the code; references
    to clauses are keys of a store. C39, C40.
  \<^item> \<open>SatConverter\<close>, \<open>SatConverterProof\<close>: sat_model_converter.h and .cpp; \<open>process_entries\<close> is the loop of its
    \<open>operator()\<close>, last entry first.
  \<^item> \<open>SatSimplifier\<close>, \<open>SatSimplifierProof\<close>, \<open>SatSubsume\<close>: sat_simplifier.h and .cpp over the record \<open>simp_state\<close>;
    \<open>SatEliminate\<close> says what eliminating a variable or a blocked clause does to the set of clauses. C36.
  \<^item> \<open>SatElimEqs\<close>, \<open>SatElimEqsProof\<close>, \<open>SatReconstruct\<close>, \<open>SatPreprocess\<close>, \<open>SatEqStep\<close>: sat_elim_eqs.cpp;
    \<open>SatCleaner\<close>: sat_cleaner.cpp. C38.
  \<^item> \<open>SatScc\<close>: sat_scc.cpp, Tarjan's algorithm with a stack of frames, which gives \<open>elim_eqs\<close> its roots.
    \<open>SatSccGraph\<close> is the algorithm on any graph, as moves that keep an invariant; \<open>SatSccProof\<close> shows that the code
    makes these moves, \<open>SatSccRoots\<close> what becomes of the roots, \<open>SatSccSearch\<close> that the search ends, with the
    number of unvisited literals and the number of frames as measure, and what models say. C37.
  \<^item> \<open>SatSteps\<close>: the relation \<open>simplify\<close>, whose rules are the operations of all these on a problem (the set of clauses
    that are not learned, the literals assigned at the base level, the converter), and its reconstruction theorem.
    \<open>SatExample\<close> holds concrete problems. C35.
  \<^bold>\<open>Conventions.\<close> A number's cell is the list of the digits in use; capacity, ownership and reuse of
  memory are left out. Loops that may run forever are partial functions with the value \<open>None\<close> when they do not
  return, or when the code would access memory out of bounds or pass a null pointer; the theorems then
  show that they return \<open>Some\<close>. Other loops carry a termination proof with the measure they decrease.
  No loop uses fuel, except \<open>u_gcd_loop\<close>, whose bound \<open>u + v\<close> \<open>binary_gcd\<close> shows to be enough.

  \<^bold>\<open>Groups of lemmas.\<close> Interfaces are locales, interpreted on the model: \<open>digit_arithmetic\<close> (what signed
  arithmetic needs of digits), \<open>chunk_operation\<close> (a 64-bit operation that computes one on all integers),
  \<open>integer_selection\<close> (an integer in an interval, from which the search for the least exponent follows, for the
  four combinations of end points), \<open>simplification\<close> (a relation between problems that converts models back),
  \<open>interval_domain\<close> (an abstract domain for expressions), and
  \<open>progressing_lexer\<close> (a lexer that consumes input, from which every scan returns). Refinement lemmas read
  \<open>mpz_val (f x) = g (mpz_val x)\<close> or \<open>to_rational (f x) = g (to_rational x)\<close>, with the invariant preserved.

  \<^bold>\<open>Not modelled.\<close> DryadSynth's own synthesizers, in Java and Rust, are outside this library. Of Z3: the
  SAT search with its propagation, covered clauses, eliminations by BDDs and the drivers of the simplifier; the
  SMT search, the tactics, the other theory solvers and their rewriters, polynomials and algebraic
  numbers, the term manager, parsers and bindings; these are large, and later work may take them up from
  the numbers upwards. Of the modelled files: trace functions and display to streams, memory management, hash codes,
  \<open>get_double\<close>, and the GMP configuration. The generated parsers and character tables of the grammars are
  data; the Markdown scanner is not modelled.
\<close>

section \<open>Numbers: digits\<close>

text \<open>C1: \<open>mpn_manager::div\<close> is exact division. For a denominator whose top digit is not zero and a numerator at least as long, the call returns, the quotient buffer holds \<open>numer div denom\<close> and the remainder buffer \<open>numer mod denom\<close>, on every path (single digits, numerator below denominator, one-digit denominator, Knuth's Algorithm D with its quotient-digit correction and its add-back step).\<close>

theorem mpn_div_exact:
  assumes "denom \<noteq> []" "last denom \<noteq> 0" "length denom \<le> length numer"
    and "length quot = length numer - length denom + 1" "length rem = length denom"
  shows "\<exists>m' res q r. mpn_div m numer denom quot rem = Some (m', res, q, r) \<and>
    length q = length quot \<and> nval q = nval numer div nval denom \<and>
    length r = length denom \<and> nval r = nval numer mod nval denom"
  by (rule mpn_div_correct [OF assms])

theorem mpn_div_exact_witness:
  "\<exists>m' res q r. mpn_div new_manager [5, 0, 7] [3, 2] [0, 0] [0, 0] =
     Some (m', res, q, r) \<and> nval q = nval [5, 0, 7] div nval [3, 2] \<and> nval r = nval [5, 0, 7] mod nval [3, 2]"
  using mpn_div_exact [of "[3, 2]" "[5, 0, 7]" "[0, 0]" "[0, 0]" new_manager]
  by fastforce

section \<open>Numbers: multi-precision integers\<close>

text \<open>C2: \<open>mpz_manager::gcd\<close> computes the greatest common divisor. For two well-formed, canonical numbers (no large representation of \<open>2^31 - 1\<close>) the call returns, whatever combination of the binary gcd, Euclid's loop and Lehmer's leading-digit steps it takes, and the result is the mathematical gcd, again well formed and canonical.\<close>

theorem gcd_is_gcd:
  assumes "wf_mpz a" "wf_mpz b" "canonical a" "canonical b"
  shows "\<exists>c. mpz_gcd m a b = Some c \<and> wf_mpz c \<and> canonical c \<and> mpz_val c = gcd (mpz_val a) (mpz_val b)"
  by (rule mpz_gcd_correct [OF assms])

theorem gcd_is_gcd_witness:
  "\<exists>c. mpz_gcd new_manager (Large 1 [6, 3]) (Large (- 1) [0, 2]) = Some c \<and> mpz_val c = gcd 12884901894 (- 8589934592)"
  using gcd_is_gcd [of "Large 1 [6, 3]" "Large (- 1) [0, 2]" new_manager] by (auto simp: canonical_val)

text \<open>C3: The arithmetic of \<open>mpz_manager\<close> refines the integers. On well-formed numbers, small or large, addition, subtraction, multiplication, the fused \<open>addmul\<close> and \<open>submul\<close>, negation and absolute value keep the representation well formed and return the exact integer, with no overflow of the small representation, and equality and order of the representations are those of the integers.\<close>

theorem mpz_refines_int:
  assumes "wf_mpz a" "wf_mpz b" "wf_mpz c"
  shows "(wf_mpz (mpz_add a b) \<and> mpz_val (mpz_add a b) = mpz_val a + mpz_val b) \<and>
    (wf_mpz (mpz_sub a b) \<and> mpz_val (mpz_sub a b) = mpz_val a - mpz_val b) \<and>
    (wf_mpz (mpz_mul a b) \<and> mpz_val (mpz_mul a b) = mpz_val a * mpz_val b) \<and>
    (wf_mpz (mpz_addmul a b c) \<and> mpz_val (mpz_addmul a b c) = mpz_val a + mpz_val b * mpz_val c) \<and>
    (wf_mpz (mpz_submul a b c) \<and> mpz_val (mpz_submul a b c) = mpz_val a - mpz_val b * mpz_val c) \<and>
    (wf_mpz (mpz_neg a) \<and> mpz_val (mpz_neg a) = - mpz_val a) \<and>
    (wf_mpz (mpz_abs a) \<and> mpz_val (mpz_abs a) = \<bar>mpz_val a\<bar>) \<and>
    (mpz_eq a b \<longleftrightarrow> mpz_val a = mpz_val b) \<and> (mpz_lt a b \<longleftrightarrow> mpz_val a < mpz_val b)"
  by (intro conjI mpz_add_correct mpz_sub_correct mpz_mul_correct mpz_addmul_correct mpz_neg_correct mpz_abs_correct
      mpz_compare_correct assms)

theorem mpz_refines_int_witness:
  "mpz_val (mpz_mul (Small int_min) (Large 1 [0, 1])) = - 9223372036854775808"
  using mpz_refines_int [of "Small int_min" "Large 1 [0, 1]" "Small 0"] by (simp add: sint_int_min)

text \<open>C4: Division of \<open>mpz_manager\<close>. For a divisor that is not zero, \<open>machine_div_rem\<close> returns the quotient and remainder truncated towards zero, and \<open>div\<close> and \<open>mod\<close> the Euclidean ones (remainder between 0 and the magnitude of the divisor), also for the small pair \<open>- 2^31\<close> and \<open>- 1\<close>.\<close>

theorem mpz_division:
  assumes "wf_mpz a" "wf_mpz b" "mpz_val b \<noteq> 0"
  shows "(\<exists>q r. machine_div_rem m a b = Some (q, r) \<and> wf_mpz q \<and> wf_mpz r \<and>
      mpz_val q = mpz_val a sdiv mpz_val b \<and> mpz_val r = mpz_val a smod mpz_val b) \<and>
    (\<exists>q r. mpz_div m a b = Some q \<and> mpz_mod m a b = Some r \<and> wf_mpz q \<and> wf_mpz r \<and>
      mpz_val q * mpz_val b + mpz_val r = mpz_val a \<and> 0 \<le> mpz_val r \<and> mpz_val r < \<bar>mpz_val b\<bar>)"
  using machine_div_rem_correct [OF assms] mpz_div_correct [OF assms] by blast

theorem mpz_division_witness:
  "\<exists>q r. machine_div_rem new_manager (Small int_min) (Small (- 1)) = Some (q, r) \<and> mpz_val q = 2147483648"
  using mpz_division [of "Small int_min" "Small (- 1)" new_manager] by (auto simp: sint_int_min signed_divide_int_def)

text \<open>C5: The extended gcd returns Bezout coefficients: for well-formed \<open>r1\<close> and \<open>r2\<close> the call returns \<open>a\<close>, \<open>b\<close> and \<open>r\<close> with \<open>a * r1 + b * r2 = r = gcd r1 r2\<close>.\<close>

theorem ext_gcd_bezout:
  assumes "wf_mpz r1" "wf_mpz r2"
  shows "\<exists>a b r. ext_gcd m r1 r2 = Some (a, b, r) \<and> wf_mpz a \<and> wf_mpz b \<and> wf_mpz r \<and>
    mpz_val r = gcd (mpz_val r1) (mpz_val r2) \<and>
    mpz_val a * mpz_val r1 + mpz_val b * mpz_val r2 = mpz_val r"
  by (rule ext_gcd_correct [OF assms])

theorem ext_gcd_bezout_witness:
  "\<exists>a b r. ext_gcd new_manager (Small 12) (Large 1 [2, 1]) = Some (a, b, r) \<and>
     mpz_val a * 12 + mpz_val b * 4294967298 = gcd 12 4294967298"
  using ext_gcd_bezout [of "Small 12" "Large 1 [2, 1]" new_manager] by force

text \<open>C6: \<open>mpz_manager::power\<close> by repeated squaring returns, and returns the exact power, for every exponent below \<open>2^31\<close> (and every exponent for base 2, which is a shift); the code's excluded case \<open>0^0\<close> apart.\<close>

theorem power_terminates:
  assumes "wf_mpz a" "unat p < 2147483648 \<or> mpz_val a = 2" "mpz_val a \<noteq> 0 \<or> p \<noteq> 0"
  shows "\<exists>c. mpz_power a p = Some c \<and> wf_mpz c \<and> mpz_val c = mpz_val a ^ unat p"
  by (rule mpz_power_correct [OF assms])

theorem power_terminates_witness:
  "\<exists>c. mpz_power (Large (- 1) [0, 1]) 3 = Some c \<and> mpz_val c = (- 4294967296) ^ 3"
  using power_terminates [of "Large (- 1) [0, 1]" 3] by force

text \<open>C7: The squaring loop compares a one-bit mask with the exponent and shifts the mask left until it exceeds it. For an exponent of \<open>2^31\<close> or more the 32-bit mask never exceeds it, wraps to 0 and stays there, so the call never returns for any base other than 0, 1 and 2.\<close>

theorem power_never_returns:
  assumes "wf_mpz a" "mpz_val a \<notin> {0, 1, 2}" "2147483648 \<le> unat p"
  shows "mpz_power a p = None"
  by (rule mpz_power_diverges [OF assms])

theorem power_never_returns_witness: "mpz_power (Small 3) 2147483648 = None"
  using power_never_returns [of "Small 3" 2147483648] by simp

text \<open>C8: Integer roots. For \<open>0 < n < 2^31\<close>, odd when the number is negative, \<open>root\<close> returns: when it reports an exact root, its \<open>n\<close>-th power is the number, otherwise the result is the least integer above the real root. \<open>is_perfect_square\<close> decides whether the number is a square and returns the non-negative root when it is.\<close>

theorem roots_exact_or_tight:
  assumes "wf_mpz a" "0 < unat n" "unat n < 2147483648" "mpz_val a < 0 \<longrightarrow> odd (unat n)" "mpz_bitsize a < 4294967296"
  shows "(\<exists>r exact. mpz_root a n = Some (r, exact) \<and> wf_mpz r \<and>
      (if exact then mpz_val r ^ unat n = mpz_val a
       else (mpz_val r - 1) ^ unat n < mpz_val a \<and> mpz_val a < mpz_val r ^ unat n)) \<and>
    (\<exists>r exact. is_perfect_square m a r0 = Some (r, exact) \<and> (exact \<longleftrightarrow> (\<exists>x. mpz_val a = x ^ 2)) \<and>
      (exact \<longrightarrow> 0 \<le> mpz_val r \<and> mpz_val r ^ 2 = mpz_val a))"
  using mpz_root_correct [OF assms(1-3) mp [OF assms(4)] assms(5)] is_perfect_square_correct [OF assms(1), of m r0]
  unfolding root_result_def by blast

theorem roots_exact_or_tight_witness:
  "(\<exists>r exact. mpz_root (Small 10) 2 = Some (r, exact) \<and>
      (if exact then mpz_val r ^ 2 = 10 else (mpz_val r - 1) ^ 2 < 10 \<and> 10 < mpz_val r ^ 2)) \<and>
   (\<exists>r exact. is_perfect_square new_manager (Small 10) (Small 0) = Some (r, exact) \<and>
      (exact \<longrightarrow> 0 \<le> mpz_val r \<and> mpz_val r ^ 2 = 10))"
proof -
  have u: "unat (2 :: u32) = 2" "mpz_val (Small 10) = 10" by simp_all
  have h: "wf_mpz (Small 10)" "(0 :: nat) < 2" "(2 :: nat) < 2147483648" "(10 :: int) < 0 \<longrightarrow> odd (2 :: nat)" by simp_all
  have "mpz_bitsize (Small 10) = 4" by code_simp
  then have b: "mpz_bitsize (Small 10) < 4294967296" by simp
  show ?thesis using roots_exact_or_tight [of "Small 10" 2 new_manager "Small 0", unfolded u, OF h b] by blast
qed

text \<open>C9: The bitwise operations, which work in chunks of 64 bits, implement the bitwise operations on the binary expansions of non-negative integers of any length; \<open>bitwise_not\<close> is the complement truncated to \<open>sz\<close> bits.\<close>

theorem bitwise_refines_int:
  assumes "wf_mpz a" "wf_mpz b" "0 \<le> mpz_val a" "0 \<le> mpz_val b"
  shows "(\<exists>c. bitwise_or m a b = Some c \<and> wf_mpz c \<and> mpz_val c = or (mpz_val a) (mpz_val b)) \<and>
    (\<exists>c. bitwise_and m a b = Some c \<and> wf_mpz c \<and> mpz_val c = and (mpz_val a) (mpz_val b)) \<and>
    (\<exists>c. bitwise_xor m a b = Some c \<and> wf_mpz c \<and> mpz_val c = xor (mpz_val a) (mpz_val b)) \<and>
    (\<exists>c. bitwise_not m sz a = Some c \<and> wf_mpz c \<and> mpz_val c = take_bit sz (not (mpz_val a)))"
  using bitwise_or_correct [OF assms] bitwise_and_correct [OF assms] bitwise_xor_correct [OF assms]
    bitwise_not_correct [OF assms(1,3)] by blast

theorem bitwise_refines_int_witness:
  "\<exists>c. bitwise_xor new_manager (Large 1 [1, 2, 3]) (Small 6) = Some c \<and> mpz_val c = xor (mpz_val (Large 1 [1, 2, 3])) 6"
  using bitwise_refines_int [of "Large 1 [1, 2, 3]" "Small 6" new_manager] by force

text \<open>C10: Printing and parsing: \<open>to_string\<close> returns the decimal notation of a number, with a minus sign for a negative one, and setting a number from the printed string restores the number.\<close>

theorem print_parse_roundtrip:
  assumes "wf_mpz a"
  shows "\<exists>str. mpz_to_string a = Some str \<and> str = decimal_int (mpz_val a) \<and>
    wf_mpz (mpz_of_string str) \<and> mpz_val (mpz_of_string str) = mpz_val a"
  using mpz_to_string_correct [OF assms] parse_print [OF assms] mpz_of_string_correct(1) by force

theorem print_parse_roundtrip_witness:
  "\<exists>str. mpz_to_string (Large (- 1) [7, 3]) = Some str \<and> mpz_val (mpz_of_string str) = - 12884901895"
  using print_parse_roundtrip [of "Large (- 1) [7, 3]"] by auto

section \<open>Rationals\<close>

text \<open>C11: The arithmetic of \<open>mpq_manager\<close>, on numerators and denominators in their machine representation, refines the field of rational numbers: from rationals in lowest terms every operation returns, the result is again in lowest terms with a positive denominator, and its value is exact. Sums go over the gcd of the denominators and products over the cross gcds, without a final normalization.\<close>

theorem mpq_refines_rationals:
  assumes "wf_mpq a" "wf_mpq b" "wf_mpq c" "good z" "good y"
  shows "qret (mpq_add m a b) (mpq_val a + mpq_val b) \<and> qret (mpq_sub m a b) (mpq_val a - mpq_val b) \<and>
    qret (mpq_mul m a b) (mpq_val a * mpq_val b) \<and> qret (mpq_add_z m a z) (mpq_val a + of_int (mpz_val z)) \<and>
    qret (mpq_mul_z m z a) (of_int (mpz_val z) * mpq_val a) \<and>
    qret (mpq_addmul m a b c) (mpq_val a + mpq_val b * mpq_val c) \<and>
    qret (mpq_submul m a b c) (mpq_val a - mpq_val b * mpq_val c) \<and>
    qret (mpq_addmul_z m a z c) (mpq_val a + of_int (mpz_val z) * mpq_val c) \<and>
    qret (mpq_submul_z m a z c) (mpq_val a - of_int (mpz_val z) * mpq_val c) \<and>
    qret (Some (mpq_neg a)) (- mpq_val a) \<and> qret (Some (mpq_abs a)) \<bar>mpq_val a\<bar> \<and>
    (mpq_val b \<noteq> 0 \<longrightarrow> qret (mpq_div m a b) (mpq_val a / mpq_val b) \<and> qret (Some (mpq_inv b)) (inverse (mpq_val b))) \<and>
    (mpz_val z \<noteq> 0 \<longrightarrow> qret (mpq_div_z m a z) (mpq_val a / of_int (mpz_val z)) \<and>
       qret (mpq_set_zz m y z) (of_int (mpz_val y) / of_int (mpz_val z)))"
  using add_sub_mul_correct [OF assms(1,2)] add_mul_z_correct [OF assms(1,4)] addmul_correct [OF assms(1-3)]
    addmul_z_correct [OF assms(1,4,3)] wf_neg_abs [OF assms(1)] div_correct [OF assms(1,2)] inv_correct [OF assms(2)]
    div_z_correct [OF assms(1,4)] set_zz_correct [OF assms(5,4)]
  by (simp add: qret_def [of "Some _"])

theorem mpq_refines_rationals_witness:
  "qret (mpq_add new_manager \<lparr>m_num = set_int 1, m_den = set_int 2\<rparr> \<lparr>m_num = set_int 1, m_den = set_int 2\<rparr>) 1 \<and>
    qret (mpq_div new_manager \<lparr>m_num = set_int 1, m_den = set_int 2\<rparr> \<lparr>m_num = set_int 1, m_den = set_int 2\<rparr>) 1"
proof -
  let ?h = "\<lparr>m_num = set_int 1, m_den = set_int 2\<rparr>"
  have w: "wf_mpq ?h" and v: "mpq_val ?h = 1 / 2" by (simp_all add: wf_mpq_def mpq_val_def)
  show ?thesis using mpq_refines_rationals [OF w w w, of "set_int 1" "set_int 1" new_manager] by (simp add: v)
qed

text \<open>C12: Printing and parsing rationals: \<open>to_string\<close> returns the numerator in decimal, followed by a slash and the denominator unless that is one, and setting any rational from the printed text gives the same value back, in lowest terms.\<close>

theorem mpq_print_parse_roundtrip:
  assumes "wf_mpq a"
  shows "mpq_to_string a =
      Some (decimal_int (mpz_val (m_num a)) @ (if mpz_val (m_den a) = 1 then [] else ''/'' @ decimal_int (mpz_val (m_den a)))) \<and>
    (\<exists>str c. mpq_to_string a = Some str \<and> mpq_of_string m old str = Some (Inr c) \<and> wf_mpq c \<and> mpq_val c = mpq_val a)"
  using to_string_correct [OF assms] parse_print_mpq [OF assms] by blast

theorem mpq_print_parse_roundtrip_witness: "mpq_to_string (of_mpz (set_int 10)) = Some ''10''"
proof -
  have "decimal_int 10 = ''10''" by code_simp
  then show ?thesis using mpq_print_parse_roundtrip [of "of_mpz (set_int 10)" new_manager "of_mpz (set_int 0)"] by simp
qed



text \<open>C14: \<open>display_decimal\<close> prints the integer part of the magnitude and then at most \<open>prec\<close> digits, cut towards zero: what is printed never exceeds the magnitude and is less than one unit of its last digit below it; all \<open>prec\<close> digits are there, and (unless the caller asked to truncate silently) a question mark, exactly when the printed number is not the exact one.\<close>

theorem mpq_decimal_expansion:
  assumes "wf_mpq a"
  defines "x \<equiv> \<bar>mpq_val a\<bar>"
  defines "w \<equiv> decimal (nat \<lfloor>x\<rfloor>)"
  shows "if x \<in> \<int> then mpq_display_decimal m a prec trunc = Some (number_text (mpq_val a < 0) w None None)
    else \<exists>ds v. v = number_value False w (Some ds) None \<and>
      mpq_display_decimal m a prec trunc =
        Some (number_text (mpq_val a < 0) w (Some ds) None @ (if v \<noteq> x \<and> \<not> trunc then ''?'' else [])) \<and>
      list_all is_digit ds \<and> length ds \<le> unat prec \<and> (v \<noteq> x \<longrightarrow> length ds = unat prec) \<and>
      v \<le> x \<and> x < v + 1 / 10 ^ length ds"
proof -
  have v: "\<bar>number_value neg w (Some ds) None\<bar> = number_value False w (Some ds) None" for neg ds
    using horner10_nonneg [of 0 w] horner10_nonneg [of 0 ds] by (simp add: number_value_def exponent_value_def abs_mult)
  show ?thesis
    using display_decimal_correct [OF assms(1), of m prec trunc, folded x_def, folded w_def] unfolding v by (simp split: if_splits)
qed

theorem mpq_decimal_expansion_witness:
  "mpq_display_decimal new_manager (of_mpz (set_int 10)) 5 False = Some ''10''"
proof -
  have "decimal 10 = ''10''" by code_simp
  then show ?thesis
    using mpq_decimal_expansion [of "of_mpz (set_int 10)" new_manager 5 False] by (simp add: number_text_def exponent_text_def)
qed

text \<open>C15: A sum or difference written into its own second operand computes another value: when the denominators have a common factor, the first operand is scaled by the cofactor of their gcd in its denominator, because the denominator of the second one is overwritten too early. So the result is the sum exactly when the denominators are coprime, the first divides the second, or the first operand is zero; \<open>1/6 + 1/4\<close> gives \<open>3/4\<close>.\<close>

theorem sum_into_second_operand:
  assumes "wf_mpq a" "wf_mpq b"
  shows "\<exists>c. lin_arith_op_into_b SUB m a b = Some c \<and>
      mpq_val c = plus_minus SUB (of_int (scale_into_b a b) * mpq_val a) (mpq_val b) \<and>
      (mpq_val c = plus_minus SUB (mpq_val a) (mpq_val b) \<longleftrightarrow>
        mpq_val a = 0 \<or> coprime (mpz_val (m_den a)) (mpz_val (m_den b)) \<or> mpz_val (m_den a) dvd mpz_val (m_den b))"
proof -
  obtain c where c: "lin_arith_op_into_b SUB m a b = Some c"
      "mpq_val c = plus_minus SUB (of_int (scale_into_b a b) * mpq_val a) (mpq_val b)"
    using sum_into_b_value [OF assms] by blast
  have "mpq_val c = plus_minus SUB (mpq_val a) (mpq_val b) \<longleftrightarrow> mpq_val a = 0 \<or> scale_into_b a b = 1"
    unfolding c(2) plus_minus_def by (cases SUB) auto
  then show ?thesis using c scale_into_b_1 [OF assms] by blast
qed

theorem sum_into_second_operand_witness:
  "\<exists>c. lin_arith_op_into_b False new_manager \<lparr>m_num = set_int 1, m_den = set_int 6\<rparr> \<lparr>m_num = set_int 1, m_den = set_int 4\<rparr> = Some c \<and>
     mpq_val c = 3 / 4"
proof -
  let ?a = "\<lparr>m_num = set_int 1, m_den = set_int 6\<rparr>" and ?b = "\<lparr>m_num = set_int 1, m_den = set_int 4\<rparr>"
  have v: "mpz_val (set_int 6) = 6" "mpz_val (set_int 4) = 4" by (simp_all add: set_int_def)
  have g: "gcd 6 (4 :: int) = 2" by (simp add: gcd_non_0_int)
  have w: "wf_mpq ?a" "wf_mpq ?b" and s: "scale_into_b ?a ?b = 3" by (simp_all add: wf_mpq_def scale_into_b_def v g)
  obtain c where "lin_arith_op_into_b False new_manager ?a ?b = Some c"
      "mpq_val c = plus_minus False (of_int (scale_into_b ?a ?b) * mpq_val ?a) (mpq_val ?b)"
    using sum_into_second_operand [OF w, of False new_manager] by blast
  moreover have "plus_minus False (of_int (scale_into_b ?a ?b) * mpq_val ?a) (mpq_val ?b) = 3 / 4"
    unfolding s by (simp add: plus_minus_def mpq_val_def v)
  ultimately show ?thesis by simp
qed

text \<open>C16: Rationals from machine integers: setting a numerator and a denominator of either sign is exact unless the negation of an operand overflows; setting them from 64-bit integers is exact unless the denominator is \<open>2 ^ 31 - 1\<close>, which \<open>set(uint64_t)\<close> stores in a form that the gcd of the normalization does not take: \<open>(2 ^ 31 - 1) / (2 ^ 31 - 1)\<close> reads the digits of a small number (a null pointer, \<open>None\<close> of the model). The tests for 64-bit integers are exact.\<close>

theorem mpq_machine_integers:
  assumes "wf_mpq a"
  shows "(d \<noteq> 0 \<and> (d <s 0 \<longrightarrow> n \<noteq> int_min \<and> d \<noteq> int_min) \<longrightarrow>
      qret (mpq_set_int_int m n d) (of_int (sint n) / of_int (sint d))) \<and>
    (u \<noteq> 0 \<and> u \<noteq> 2147483647 \<longrightarrow> qret (mpq_set_i64_u64 m k u) (of_int (sint k) / of_int (uint u))) \<and>
    mpq_set_i64_u64 m 2147483647 2147483647 = None \<and>
    (mpq_is_int64 a \<longleftrightarrow> (\<exists>x. mpq_val a = of_int x \<and> - 9223372036854775808 \<le> x \<and> x \<le> 9223372036854775807)) \<and>
    (mpq_is_uint64 a \<longleftrightarrow> (\<exists>x. mpq_val a = of_int x \<and> 0 \<le> x \<and> x < 18446744073709551616))"
  using set_int_int_correct [of d n m] set_i64_u64_correct [of u m k] mpz_gcd_int_max [of m] machine_views_correct [OF assms]
  by (simp add: mpq_set_i64_u64_def mpq_normalize_def set_uint64_def set_big_ui64_def set_i64_def)

theorem mpq_machine_integers_witness: "qret (mpq_set_int_int new_manager 3 (- 2)) (- 3 / 2)"
  using mpq_machine_integers [of "of_mpz (set_int 1)" "- 2" 3 new_manager 1 0] by (simp add: int_min_def word_sless_alt)

section \<open>Intervals with dependencies\<close>

text \<open>C17: Interval arithmetic encloses the arithmetic of the numbers. For well-formed intervals, open or closed, finite or unbounded, the sum, difference, negation, product (all nine sign cases and the zero cases), power with a positive exponent, and inverse and quotient by an interval without zero contain the results for all members.\<close>

theorem interval_arithmetic_encloses:
  assumes "wf_interval i" "wf_interval j" "contains i x" "contains j y"
  shows "contains (interval_add i j) (x + y) \<and> contains (interval_sub i j) (x - y) \<and>
    contains (interval_neg i) (- x) \<and> contains (interval_mul i j) (x * y) \<and>
    (0 < n \<longrightarrow> contains (interval_expt i n) (x ^ n)) \<and>
    (\<not> contains_zero j \<longrightarrow> contains (interval_inv j) (1 / y) \<and> contains (interval_div i j) (x / y))"
  using contains_ops [OF assms] contains_div [OF assms(1,2) _ assms(3,4)] by blast

theorem interval_arithmetic_encloses_witness:
  "contains (interval_mul (interval_rat (- 2) True Null 3 False Null) (interval_half 1 False True Null :: nat interval)) (- 5)"
proof -
  have "wf_interval (interval_rat (- 2) True Null 3 False Null :: nat interval)" "wf_interval (interval_half 1 False True Null :: nat interval)"
    by (simp_all add: interval_rat_def interval_half_def wf_interval_def ext_of_bool_def less_eq_ext_numeral_def ext_lt_def)
  moreover have "contains (interval_rat (- 2) True Null 3 False Null :: nat interval) (- 1)" "contains (interval_half 1 False True Null :: nat interval) 5"
    by (simp_all add: interval_rat_def interval_half_def contains_def ext_of_bool_def)
  ultimately have "contains (interval_mul (interval_rat (- 2) True Null 3 False Null :: nat interval) (interval_half 1 False True Null)) (- 1 * 5)"
    using interval_arithmetic_encloses by blast
  then show ?thesis by simp
qed

text \<open>C18: Every operation on intervals preserves the representation invariant: the lower end is not \<open>+oo\<close> and the upper end not \<open>-oo\<close>, the ends are ordered, and infinite ends are open.\<close>

theorem interval_invariant:
  assumes "wf_interval i" "wf_interval j"
  shows "wf_interval (interval_add i j) \<and> wf_interval (interval_sub i j) \<and> wf_interval (interval_neg i) \<and>
    wf_interval (interval_mul i j) \<and> (0 < n \<longrightarrow> wf_interval (interval_expt i n)) \<and>
    (\<not> contains_zero j \<longrightarrow> wf_interval (interval_inv j) \<and> wf_interval (interval_div i j))"
  using wf_add wf_neg wf_mul wf_expt wf_inv wf_div assms unfolding interval_sub_def by metis

theorem interval_invariant_witness:
  "wf_interval (interval_mul interval_full (interval_val 0 (Leaf 1) (Leaf (2 :: nat))))"
  using interval_invariant [OF wf_full wf_const] by blast



section \<open>Non-linear bound propagation\<close>

text \<open>C20: Upward propagation is sound. Every bound that \<open>propagate_nl_upward\<close> derives for a monomial, tightened to integers where the variable is one, is a bound on the monomial's variable and holds in every assignment in which the bounds at the leaves of its justification hold.\<close>

theorem upward_bounds_hold:
  assumes "bounds_consistent th" "bounds_true th s H" "integers_respected th s"
    and "is_mul m" "wf_expr m" "get_monomial_coeff m = 1"
  shows "\<forall>(b, dep) \<in> set (propagate_nl_upward th m).
    deps_hold H dep \<longrightarrow> th_expr2var th m = Some (b_var b) \<and> bound_true b (expr_value s m)"
  using propagate_nl_upward_sound [OF assms] by blast

theorem upward_bounds_hold_witness:
  "\<exists>th m b. propagate_nl_upward th m = [(b, Leaf \<lparr>b_var = 0, b_kind = B_LOWER, b_rational = 2, b_infinitesimal = 0\<rparr>)] \<and>
     bound_true b 9"
proof -
  define l where "l = \<lparr>b_var = 0, b_kind = B_LOWER, b_rational = 2, b_infinitesimal = 0\<rparr>"
  define th where "th = \<lparr>th_lower = (\<lambda>v. if v = 0 then Some l else None), th_upper = (\<lambda>v. None),
     th_expr2var = (\<lambda>e. if e = Unknown 0 then Some 0 else if e = Mul [Unknown 0, Unknown 0] then Some 1 else None),
     th_is_int = (\<lambda>v. False)\<rparr>"
  let ?m = "Mul [Unknown 0, Unknown 0]"
  have "bounds_consistent th" by (simp add: bounds_consistent_def th_def l_def)
  moreover have "bounds_true th (\<lambda>k. 3) {l}"
    by (simp add: bounds_true_def th_def l_def bound_true_def)
  moreover have "integers_respected th (\<lambda>k. 3)" by (simp add: integers_respected_def th_def)
  moreover have "is_mul ?m" "wf_expr ?m" "get_monomial_coeff ?m = 1" by (simp_all add: get_monomial_coeff_def)
  ultimately have "\<forall>(b, dep) \<in> set (propagate_nl_upward th ?m).
      deps_hold {l} dep \<longrightarrow> th_expr2var th ?m = Some (b_var b) \<and> bound_true b (expr_value (\<lambda>k. 3) ?m)"
    by (rule upward_bounds_hold)
  moreover have "propagate_nl_upward th ?m = [(\<lparr>b_var = 1, b_kind = B_LOWER, b_rational = 4, b_infinitesimal = 0\<rparr>, Leaf l)]"
    unfolding th_def l_def by code_simp
  ultimately show ?thesis by (auto simp: deps_hold_def l_def)
qed

text \<open>C21: Downward propagation is sound. When a factor occurs once in a monomial, every bound that \<open>propagate_nl_downward\<close> derives for it, by dividing the monomial's interval by the product of the other factors' intervals, holds in every assignment in which the bounds at the leaves of its justification hold.\<close>

theorem downward_bounds_hold:
  assumes "bounds_consistent th" "bounds_true th s H" "integers_respected th s"
    and "is_mul n" "wf_expr n" "get_monomial_coeff n = 1"
    and "i < get_num_vars_in_monomial n" "get_var_and_degree n i = (Some v, pow)" "occurs_once v n"
  shows "\<forall>(b, dep) \<in> set (propagate_nl_downward th n i).
    deps_hold H dep \<longrightarrow> th_expr2var th v = Some (b_var b) \<and> bound_true b (expr_value s v)"
  using propagate_nl_downward_sound [OF assms] by blast

theorem downward_bounds_hold_witness:
  "\<exists>th n b dep. propagate_nl_downward th n 1 = [(b, dep)] \<and> leaves dep \<noteq> {} \<and> b_rational b = 2 \<and> bound_true b 5"
proof -
  define c where "c = \<lparr>b_var = 0, b_kind = B_LOWER, b_rational = 3, b_infinitesimal = 0\<rparr>"
  define d where "d = \<lparr>b_var = 0, b_kind = B_UPPER, b_rational = 3, b_infinitesimal = 0\<rparr>"
  define l where "l = \<lparr>b_var = 2, b_kind = B_LOWER, b_rational = 6, b_infinitesimal = 0\<rparr>"
  define th where "th = \<lparr>th_lower = (\<lambda>v. if v = 0 then Some c else if v = 2 then Some l else None),
     th_upper = (\<lambda>v. if v = 0 then Some d else None),
     th_expr2var = (\<lambda>e. if e = Unknown 0 then Some 0 else if e = Unknown 1 then Some 1
        else if e = Mul [Unknown 0, Unknown 1] then Some 2 else None),
     th_is_int = (\<lambda>v. False)\<rparr>"
  let ?n = "Mul [Unknown 0, Unknown 1]" and ?s = "\<lambda>k. if k = 0 then 3 else 5 :: rat"
  have "bounds_consistent th" by (auto simp: bounds_consistent_def th_def l_def c_def d_def)
  moreover have "bounds_true th ?s {c, d, l}"
    by (auto simp: bounds_true_def th_def l_def c_def d_def bound_true_def)
  moreover have "integers_respected th ?s" by (simp add: integers_respected_def th_def)
  moreover have "is_mul ?n" "wf_expr ?n" "get_monomial_coeff ?n = 1" by (simp_all add: get_monomial_coeff_def)
  moreover have "1 < get_num_vars_in_monomial ?n" "get_var_and_degree ?n 1 = (Some (Unknown 1), 1)" by code_simp+
  moreover have "occurs_once (Unknown 1) ?n" by (simp add: occurs_once_def monomial_powers_def get_monomial_body_def)
  ultimately have "\<forall>(b, dep) \<in> set (propagate_nl_downward th ?n 1). deps_hold {c, d, l} dep \<longrightarrow>
      th_expr2var th (Unknown 1) = Some (b_var b) \<and> bound_true b (expr_value ?s (Unknown 1))"
    by (rule downward_bounds_hold)
  moreover have p: "propagate_nl_downward th ?n 1 =
      [(\<lparr>b_var = 1, b_kind = B_LOWER, b_rational = 2, b_infinitesimal = 0\<rparr>, Join (Leaf l) (Join (Leaf c) (Leaf d)))]"
    unfolding th_def l_def c_def d_def by code_simp
  ultimately have "bound_true \<lparr>b_var = 1, b_kind = B_LOWER, b_rational = 2, b_infinitesimal = 0\<rparr> 5"
    by (auto simp: deps_hold_def)
  with p show ?thesis by (intro exI conjI) (assumption | simp)+
qed

text \<open>C22: \<open>evaluate_as_interval\<close> is a sound abstract interpretation: the interval of an expression is well formed and its bounds are justified for the value of the expression, for sums, products with repeated factors and coefficients, \<open>to_real\<close> and numerals, by recursion on the expression.\<close>

theorem evaluation_sound:
  assumes "bounds_consistent th" "bounds_true th s H" "wf_expr n"
  shows "wf_interval (evaluate_as_interval th n) \<and> justified H (evaluate_as_interval th n) (expr_value s n)"
  by (rule evaluate_as_interval_sound [OF assms])

theorem evaluation_sound_witness:
  "justified {} (evaluate_as_interval \<lparr>th_lower = \<lambda>v. None, th_upper = \<lambda>v. None, th_expr2var = \<lambda>e. None, th_is_int = \<lambda>v. False\<rparr>
     (Add [Numeral 3, Mul [Unknown 0, Unknown 0]])) (3 + 7 * 7)"
proof -
  let ?th = "\<lparr>th_lower = \<lambda>v. None, th_upper = \<lambda>v. None, th_expr2var = \<lambda>e. None, th_is_int = \<lambda>v. False\<rparr>"
  have "bounds_consistent ?th" "bounds_true ?th (\<lambda>k. 7) {}" "wf_expr (Add [Numeral 3, Mul [Unknown 0, Unknown 0]])"
    by (simp_all add: bounds_consistent_def bounds_true_def)
  from evaluation_sound [OF this] show ?thesis by simp
qed

section \<open>Binary rationals\<close>



text \<open>C24: \<open>select_small\<close> returns for every non-empty closed interval, after a linear or a binary search of exponents, a normalized number inside it whose exponent no other binary rational of the interval undercuts, and reports the empty interval; the variants with rational, strict ends do the same for their half-open and open intervals.\<close>

theorem select_small_least:
  assumes "wf_bq l" "wf_bq u"
  shows "(if to_rational l \<le> to_rational u
      then \<exists>r. select_small l u = Some (Some r) \<and> least_inside (\<lambda>x. to_rational l \<le> x \<and> x \<le> to_rational u) r
      else select_small l u = Some None) \<and>
    (p < to_rational u \<longrightarrow> (\<exists>r. select_small_core_qb p u = Some r \<and> least_inside (\<lambda>x. p < x \<and> x \<le> to_rational u) r)) \<and>
    (to_rational l < q \<longrightarrow> (\<exists>r. select_small_core_bq l q = Some r \<and> least_inside (\<lambda>x. to_rational l \<le> x \<and> x < q) r)) \<and>
    (p < q \<longrightarrow> (\<exists>r. select_small_core_qq p q = Some r \<and> least_inside (\<lambda>x. p < x \<and> x < q) r))"
  using select_small_correct [OF assms] select_small_strict_correct assms by blast

theorem select_small_least_witness:
  "\<exists>r. select_small \<lparr>bq_num = 3, bq_k = 3\<rparr> \<lparr>bq_num = 7, bq_k = 4\<rparr> = Some (Some r) \<and> wf_bq r \<and>
     3 / 8 \<le> to_rational r \<and> to_rational r \<le> 7 / 16"
proof -
  have "wf_bq \<lparr>bq_num = 3, bq_k = 3\<rparr>" "wf_bq \<lparr>bq_num = 7, bq_k = 4\<rparr>" by (simp_all add: wf_bq_def)
  from conjunct1 [OF select_small_least [OF this]]
  obtain r where "select_small \<lparr>bq_num = 3, bq_k = 3\<rparr> \<lparr>bq_num = 7, bq_k = 4\<rparr> = Some (Some r)"
    "least_inside (\<lambda>x. to_rational \<lparr>bq_num = 3, bq_k = 3\<rparr> \<le> x \<and> x \<le> to_rational \<lparr>bq_num = 7, bq_k = 4\<rparr>) r" by auto
  then show ?thesis by (simp add: least_inside_def)
qed





section \<open>The Python scanner\<close>

text \<open>C27: Every scan returns. Over any lexer that makes progress (advancing past a character other than the end consumes input), the string, white-space, comment and prefix loops end for every state of the scanner, every set of valid symbols and every input.\<close>

theorem scan_terminates:
  assumes "progressing_lexer lx remaining"
  shows "\<exists>s' l' t ok. scan lx valid s l = Some (s', l', t, ok)"
  using progressing_lexer.scan_returns [OF assms, of valid s l] by auto

theorem scan_terminates_witness:
  "\<exists>s' l' t ok. scan text_api (\<lambda>t. True) \<lparr>indent_length_stack = [0, 4], delimiter_stack = []\<rparr> (text_of ''  # x'') = Some (s', l', t, ok)"
  by (rule scan_terminates [OF text_lx.progressing_lexer_axioms])

text \<open>C28: A scan changes the state exactly by the token it reports, for any lexer: an INDENT pushes a larger indentation, a DEDENT pops one that is not 0, a STRING_START pushes a delimiter with a quote, a STRING_END pops one, and everything else, failed scans included, leaves the stacks alone. So the stack of indentations always keeps its bottom element 0, and no pop is from an empty stack.\<close>

theorem scan_follows_tokens:
  assumes "scan lx valid s l = Some (s', l', t, ok)" "wf_scanner s"
  shows "scanner_step s (if ok then t else None) s' \<and> wf_scanner s' \<and> (\<not> ok \<longrightarrow> s' = s)"
proof -
  note st = scan_step [OF assms(1)]
  have "s' = s" if "\<not> ok" using st that by (auto elim: scanner_stepE)
  then show ?thesis using st wf_scanner_step [OF st assms(2)] by blast
qed

theorem scan_follows_tokens_witness:
  "wf_scanner \<lparr>indent_length_stack = [0], delimiter_stack = [bytes_delimiter]\<rparr> \<and>
   scanner_step \<lparr>indent_length_stack = [0], delimiter_stack = [bytes_delimiter]\<rparr> None
     \<lparr>indent_length_stack = [0], delimiter_stack = [bytes_delimiter]\<rparr>"
  using scan_follows_tokens [OF bytes_quote_missed] by (simp add: wf_scanner_def)

text \<open>C29: Over whole runs the tokens balance: in every state reached from a well-formed one, the indentations on the stack are the INDENT tokens less the DEDENT tokens, and the open strings the STRING_START less the STRING_END tokens; and on inputs of less than 8192 characters a scan keeps the indentations strictly increasing.\<close>

theorem tokens_balance:
  assumes "scanner_run s ts s'" "wf_scanner s"
    and "progressing_lexer lx remaining" "scan lx valid s' l = Some (s'', l', t, ok)"
    and "sorted_wrt (<) (indent_length_stack s')" "remaining l < 8192"
  shows "wf_scanner s' \<and>
    count_list ts INDENT + length (indent_length_stack s) = count_list ts DEDENT + length (indent_length_stack s') \<and>
    count_list ts STRING_START + length (delimiter_stack s) = count_list ts STRING_END + length (delimiter_stack s') \<and>
    scanner_run s (if ok \<and> t \<noteq> None then ts @ [the t] else ts) s'' \<and> sorted_wrt (<) (indent_length_stack s'')"
proof -
  have "scanner_run s (if ok \<and> t \<noteq> None then ts @ [the t] else ts) s''"
    using scan_step [OF assms(4)] assms(1) by (cases t; cases ok) (auto intro: scanner_run.intros)
  then show ?thesis
    using scanner_run_balance [OF assms(1,2)] progressing_lexer.scan_increasing [OF assms(3-5)] assms(6) by simp
qed

theorem tokens_balance_witness:
  "scanner_run \<lparr>indent_length_stack = [0], delimiter_stack = [bytes_delimiter]\<rparr> []
     \<lparr>indent_length_stack = [0], delimiter_stack = [bytes_delimiter]\<rparr>"
  using tokens_balance [OF scanner_run.empty _ text_lx.progressing_lexer_axioms bytes_quote_missed]
  by (simp add: wf_scanner_def text_of_def)




section \<open>Rewriting of the Boolean connectives\<close>

text \<open>C32: The rewriter of the Boolean connectives is an equivalence. Under every setting of its options and every value of its cost counter, rewriting a well-sorted application returns (an \<open>xor\<close> of three or more arguments, which the code calls unreachable, apart), and when a rule applies the new term is well sorted, has the same sort, and has the same value in every interpretation.\<close>

theorem bool_rewriter_preserves:
  assumes "wt app" "\<And>xs. app = T_xor xs \<Longrightarrow> length xs \<le> 2"
  shows "\<exists>x cost'. mk_app_core rw app cost = Some (x, cost') \<and>
    (\<forall>s t. x = Some (s, t) \<longrightarrow> wt t \<and> is_bool t = is_bool app \<and> (\<forall>I. eval I t = eval I app))"
  using mk_app_core_means [OF assms] by (simp add: preserving_def same_value_def)

theorem bool_rewriter_preserves_witness:
  "\<forall>I s t. \<exists>x c. mk_app_core plain_rewriter (T_ite (T_const True 0) (T_const True 1) T_true) 0 = Some (x, c) \<and>
     (x = Some (s, t) \<longrightarrow> eval I t = eval I (T_ite (T_const True 0) (T_const True 1) T_true))"
  using bool_rewriter_preserves [of "T_ite (T_const True 0) (T_const True 1) T_true" plain_rewriter 0] by fastforce

text \<open>C33: Local-context simplification of a disjunction ends: the rounds of forward and backward passes, whose number no counter bounds, come to an end from any Boolean arguments, because every round that changes something leaves lighter arguments; and a result is equivalent to the disjunction of the arguments.\<close>

theorem local_ctx_simp_terminates:
  assumes "\<forall>t \<in> set ts. wt t \<and> is_bool t"
  shows "\<exists>r cost'. local_ctx_simp rw ts cost = Some (r, cost') \<and>
    (\<forall>t. r = Some t \<longrightarrow> wt t \<and> is_bool t \<and> (\<forall>I. eval I t = eval I (T_or ts)))"
proof -
  obtain r c where l: "local_ctx_simp rw ts cost = Some (r, c)"
      "\<And>t. r = Some t \<Longrightarrow> rep t (\<lambda>I. truth I (T_or ts))"
    using local_ctx_simp_means [OF assms, of rw cost] by (auto simp: loop_result_def all_have_def)
  have "same_value (T_or ts) t" if "r = Some t" for t
    using assms by (intro same_value_rep [OF l(2) [OF that]]) simp_all
  then show ?thesis using l(1) by (simp add: same_value_def)
qed

theorem local_ctx_simp_terminates_witness:
  "\<exists>r c. local_ctx_simp plain_rewriter [T_const True 0, T_not (T_or [T_const True 0, T_const True 1])] 0 = Some (r, c)"
  using local_ctx_simp_terminates [of "[T_const True 0, T_not (T_or [T_const True 0, T_const True 1])]" plain_rewriter 0]
  by auto

text \<open>C34: The constructors are well sorted: from Boolean arguments, negation, equality, conjunction, disjunction, nand, nor, exclusive disjunction and implication return a well-sorted Boolean term (the variadic ones and implication for every state of the cost counter), and it denotes the connective.\<close>

theorem constructors_well_sorted:
  assumes "wt a" "is_bool a" "wt b" "is_bool b" "\<forall>t \<in> set ts. wt t \<and> is_bool t"
  shows "rep (mk_not rw a) (\<lambda>I. \<not> truth I a) \<and> rep (mk_eq rw a b) (\<lambda>I. truth I a = truth I b) \<and>
    rep (mk_xor rw a b) (\<lambda>I. truth I a \<noteq> truth I b) \<and>
    (\<exists>t c. mk_implies rw a b cost = Some (t, c) \<and> rep t (\<lambda>I. truth I a \<longrightarrow> truth I b)) \<and>
    (\<exists>t c. mk_and rw ts cost = Some (t, c) \<and> rep t (\<lambda>I. \<forall>x \<in> set ts. truth I x)) \<and>
    (\<exists>t c. mk_or rw ts cost = Some (t, c) \<and> rep t (\<lambda>I. \<exists>x \<in> set ts. truth I x)) \<and>
    (\<exists>t c. mk_nand rw ts cost = Some (t, c) \<and> rep t (\<lambda>I. \<exists>x \<in> set ts. \<not> truth I x)) \<and>
    (\<exists>t c. mk_nor rw ts cost = Some (t, c) \<and> rep t (\<lambda>I. \<forall>x \<in> set ts. \<not> truth I x))"
proof (intro conjI)
  show "rep (mk_not rw a) (\<lambda>I. \<not> truth I a)" using assms by (simp add: mk_not_means)
  show "rep (mk_eq rw a b) (\<lambda>I. truth I a = truth I b)"
    using mk_eq_means [of a b rw] assms by (simp add: rep_def bool_eq)
  show "rep (mk_xor rw a b) (\<lambda>I. truth I a \<noteq> truth I b)"
    using mk_xor_means [OF assms(1-4)] by (rule rep_cong) auto
  show "\<exists>t c. mk_implies rw a b cost = Some (t, c) \<and> rep t (\<lambda>I. truth I a \<longrightarrow> truth I b)"
    using mk_implies_means [OF assms(1-4)] by (simp add: gives_def)
  show "\<exists>t c. mk_and rw ts cost = Some (t, c) \<and> rep t (\<lambda>I. \<forall>x \<in> set ts. truth I x)"
    using mk_and_means [OF assms(5)] by (simp add: gives_def)
  show "\<exists>t c. mk_or rw ts cost = Some (t, c) \<and> rep t (\<lambda>I. \<exists>x \<in> set ts. truth I x)"
    using mk_or_means [OF assms(5)] by (simp add: gives_def)
  show "\<exists>t c. mk_nand rw ts cost = Some (t, c) \<and> rep t (\<lambda>I. \<exists>x \<in> set ts. \<not> truth I x)"
    using mk_nand_means [OF assms(5)] by (simp add: gives_def)
  show "\<exists>t c. mk_nor rw ts cost = Some (t, c) \<and> rep t (\<lambda>I. \<forall>x \<in> set ts. \<not> truth I x)"
    using mk_nor_means [OF assms(5)] by (simp add: gives_def)
qed

theorem constructors_well_sorted_witness:
  "is_bool (mk_xor plain_rewriter (T_const True 0) (T_eq (T_const True 1) (T_const True 2)))"
  using constructors_well_sorted [of "T_const True 0" "T_eq (T_const True 1) (T_const True 2)" "[]" plain_rewriter 0]
  by (auto simp: rep_def)

section \<open>SAT preprocessing\<close>





text \<open>C37: Tarjan's algorithm finds the equivalent literals. On the graph of the binary clauses of any well-formed state the search always ends; it reports a conflict only if the binary clauses have no model; otherwise every literal has a root of a variable that stays, every model gives a literal and its root the same value, and, if there is a model, two literals of variables that are not eliminated have the same root exactly when each of them reaches the other in the graph.\<close>

theorem equivalent_literals_found:
  assumes "eq_inv n s" "below_null n"
  shows "\<exists>r. scc_roots (solver_graph el ext s) n = Some r \<and>
    (r = None \<longrightarrow> (\<nexists>m. models m (watched_bins n s))) \<and>
    (\<forall>roots to_elim. r = Some (roots, to_elim) \<longrightarrow> classes_ok n roots to_elim \<and>
      (\<forall>m. models m (watched_bins n s) \<longrightarrow> agrees n roots m) \<and>
      ((\<exists>m. models m (watched_bins n s)) \<longrightarrow>
        (\<forall>l k. lit_below n l \<and> lit_below n k \<and> \<not> el ! unat (lit_var l) \<and> \<not> el ! unat (lit_var k) \<longrightarrow>
          (norm_lit roots l = norm_lit roots k \<longleftrightarrow>
            (l, k) \<in> (edges n (solver_graph el ext s))\<^sup>* \<and> (k, l) \<in> (edges n (solver_graph el ext s))\<^sup>*))))"
  using scc_roots_exact [OF assms, of el ext] by blast

theorem equivalent_literals_found_witness:
  "\<exists>roots to_elim. scc_roots (solver_graph (replicate 4 False) (\<lambda>_. False) example_eq_state) 4 = Some (Some (roots, to_elim)) \<and>
     classes_ok 4 roots to_elim \<and> norm_lit roots (Literal 2) = Literal 0"
proof -
  have "below_null 4" by (simp add: below_null_def)
  from equivalent_literals_found [OF example_eq_inv(1) this, of "replicate 4 False" "\<lambda>_. False"]
  have "classes_ok 4 example_roots [1]" using example_scc by auto
  moreover have "norm_lit example_roots (Literal 2) = Literal 0" by code_simp
  ultimately show ?thesis using example_scc by blast
qed



text \<open>C39: Operations on one clause. Resolution answers whether the resolvent is not a tautology, gives its literals without duplicates in their order, and leaves the scratch marks clean; removing false literals reports a satisfied clause and otherwise keeps exactly the other literals, permuting the array and keeping the approximate set exact; taking a literal out moves it behind the end, where restoring the size finds it again.\<close>

theorem sat_clause_operations:
  assumes "clean n vis" "lits_below n c1" "lits_below n c2" "c_size c \<le> c_capacity c" "check_approx c" "k \<in> set (c_view c)"
  shows "(\<exists>r. resolve c1 c2 l [] vis = (\<not> (\<exists>x \<in> set c2. x \<noteq> lit_neg l \<and> lit_neg x \<in> set c1 - {l}), r, vis) \<and>
        (\<not> (\<exists>x \<in> set c2. x \<noteq> lit_neg l \<and> lit_neg x \<in> set c1 - {l}) \<longrightarrow>
          r = filter (\<lambda>x. x \<noteq> l) c1 @ filter (\<lambda>x. x \<noteq> lit_neg l \<and> x \<notin> set (filter (\<lambda>x. x \<noteq> l) c1)) c2)) \<and>
    (case cleanup_clause val c of (sat, c') \<Rightarrow>
        sat = (\<exists>x \<in> set (c_view c). val x = L_true) \<and> mset (c_lits c') = mset (c_lits c) \<and>
        (\<not> sat \<longrightarrow> c_view c' = filter (\<lambda>x. val x \<noteq> L_false) (c_view c) \<and> check_approx c')) \<and>
    c_view (clause_elim k c) = remove1 k (c_view c) \<and> check_approx (clause_elim k c) \<and>
    c_view (clause_restore (c_size c) (clause_elim k c)) = remove1 k (c_view c) @ [k]"
proof -
  obtain res r vis' where e: "resolve c1 c2 l [] vis = (res, r, vis')" by (metis prod_cases3)
  obtain sat c' where e2: "cleanup_clause val c = (sat, c')" by (metis prod.exhaust)
  have t: "tautological l c1 c2 \<longleftrightarrow> (\<exists>x \<in> set c2. x \<noteq> lit_neg l \<and> lit_neg x \<in> set c1 - {l})" by (auto simp: tautological_def)
  show ?thesis
    using resolve_eq [OF assms(1-3) e] e t cleanup_clause_eq [OF assms(4,5), of val] clause_elim_view [OF assms(4,6)]
    by (simp add: resolvent_of_def Let_def e2)
qed

theorem sat_clause_operations_witness:
  "resolve [Literal 0, Literal 2] [Literal 1, Literal 2, Literal 4] (Literal 0) [] (init_visited 3) =
     (True, [Literal 2, Literal 4], init_visited 3)"
proof -
  have c: "clean 3 (init_visited 3)" "lits_below 3 [Literal 0, Literal 2]" "lits_below 3 [Literal 1, Literal 2, Literal 4]"
    by code_simp+
  have "c_size (example_store 0) \<le> c_capacity (example_store 0)" "check_approx (example_store 0)" "Literal 0 \<in> set (c_view (example_store 0))"
    using new_clause_ok [of 0 "[Literal 0, Literal 2]" False] by (simp_all add: example_store_def clause_ok_obj_def)
  note f = sat_clause_operations [OF c this, of "Literal 0"]
  have n: "lit_neg (Literal 0) = Literal 1" "lit_neg (Literal 2) = Literal 3" "lit_neg (Literal 4) = Literal 5" by code_simp+
  show ?thesis using f by (simp add: n)
qed



section \<open>Further facts\<close>

text \<open>\<open>mpn_manager::mul\<close> writes the exact product of its operands into the \<open>lnga + lngb\<close> digits of its result: no carry is lost in the 64-bit accumulator.\<close>

theorem mpn_mul_exact:
  assumes "length c = length a + length b"
  shows "length (mpn_mul a b c) = length a + length b \<and> nval (mpn_mul a b c) = nval a * nval b"
  by (rule mpn_mul_correct [OF assms])

theorem mpn_mul_exact_witness:
  "nval (mpn_mul [4294967295, 1] [4294967295] [9, 9, 9]) = nval [4294967295, 1] * nval [4294967295]"
  using mpn_mul_exact [of "[9, 9, 9]" "[4294967295, 1]" "[4294967295]"] by simp

text \<open>Addition, subtraction and comparison of digit sequences of any two lengths: the sum is exact and its reported size drops leading zeros, the difference is exact modulo the base to the length with the borrow telling when it is negative, and the comparison returns the sign of the difference.\<close>

theorem mpn_add_sub_compare:
  "(case mpn_add a b of (c, os) \<Rightarrow>
      length c = Suc (max (length a) (length b)) \<and> nval (take os c) = nval a + nval b \<and>
      0 < os \<and> os \<le> length c \<and> (os = 1 \<or> c ! (os - 1) \<noteq> 0)) \<and>
   (case mpn_sub a b of (c, borrow) \<Rightarrow>
      length c = max (length a) (length b) \<and> borrow = of_bool (nval a < nval b) \<and>
      int (nval c) = int (nval a) - int (nval b) + 4294967296 ^ length c * of_bool (nval a < nval b)) \<and>
   mpn_compare a b = sgn (int (nval a) - int (nval b))"
  using mpn_add_correct [of a b] mpn_sub_correct [of a b] mpn_compare_correct [of a b]
  by (auto split: prod.splits)

theorem mpn_add_sub_compare_witness: "case mpn_add [4294967295] [1] of (c, os) \<Rightarrow> nval (take os c) = 4294967296"
  using mpn_add_sub_compare [of "[4294967295]" "[1]"] by (auto split: prod.splits)

text \<open>Lehmer's inner loop never overflows its 64-bit variables. From leading digits \<open>y <= x < 2^32\<close>, every state the loop reaches has cofactors of at most \<open>2^32\<close> in magnitude and leading digits between 0 and \<open>2^32\<close>, the products that the next step forms stay within \<open>2^33\<close>, and the run of the loop goes through that state.\<close>

theorem lehmer_no_overflow:
  assumes "lehmer_reach x y (a_hat, b_hat, A, B, C, D)" "0 \<le> y" "y \<le> x" "x < 4294967296"
  shows "lehmer_loop x y 1 0 0 1 = lehmer_loop a_hat b_hat A B C D \<and>
    0 \<le> a_hat \<and> a_hat \<le> 4294967296 \<and> 0 \<le> b_hat \<and> b_hat \<le> 4294967296 \<and>
    \<bar>A\<bar> \<le> 4294967296 \<and> \<bar>B\<bar> \<le> 4294967296 \<and> \<bar>C\<bar> \<le> 4294967296 \<and> \<bar>D\<bar> \<le> 4294967296 \<and>
    (\<forall>q. lehmer_step a_hat b_hat A B C D q \<longrightarrow>
      0 \<le> q \<and> \<bar>q * b_hat\<bar> \<le> 8589934592 \<and> \<bar>q * C\<bar> \<le> 8589934592 \<and> \<bar>q * D\<bar> \<le> 8589934592)"
proof -
  note b = lehmer_reach_bound [OF assms]
  show ?thesis
    using lehmer_bound_range [OF b] lehmer_products [OF b] lehmer_step_bound(1) [OF b]
    by (intro conjI lehmer_reach_loop [OF assms(1)] allI impI) blast+
qed

theorem lehmer_no_overflow_witness:
  "lehmer_loop 100 40 1 0 0 1 = lehmer_loop 40 20 0 1 1 (- 2)"
proof -
  have "lehmer_step 100 40 1 0 0 1 2" by (simp add: lehmer_step_def sdiv_nonneg)
  from lehmer_reach.step [OF lehmer_reach.start this] show ?thesis
    using lehmer_no_overflow [of 100 40 40 20 0 1 1 "- 2"] by simp
qed

text \<open>The gcd of an array is the gcd of the set of its values (0 for the empty array), and \<open>lcm\<close> returns a number whose magnitude is the least common multiple, for canonical numbers.\<close>

theorem gcd_array_and_lcm:
  assumes "\<forall>a \<in> set as'. wf_mpz a \<and> canonical a" "a \<in> set as'" "b \<in> set as'"
  shows "(\<exists>c. gcd_array m as' = Some c \<and> wf_mpz c \<and> mpz_val c = Gcd (mpz_val ` set as')) \<and>
    (\<exists>c. mpz_lcm m a b = Some c \<and> wf_mpz c \<and> \<bar>mpz_val c\<bar> = lcm (mpz_val a) (mpz_val b))"
  using gcd_array_correct [OF assms(1)] mpz_lcm_correct assms by blast

theorem gcd_array_and_lcm_witness:
  "(\<exists>c. gcd_array new_manager [set_int 12, set_int 18] = Some c \<and> mpz_val c = Gcd {12, 18}) \<and>
   (\<exists>c. mpz_lcm new_manager (set_int 12) (set_int 18) = Some c \<and> \<bar>mpz_val c\<bar> = lcm 12 18)"
  using gcd_array_and_lcm [of "[set_int 12, set_int 18]" "set_int 12" "set_int 18" new_manager] by auto

text \<open>The binary gcd of two small numbers terminates: from numbers below \<open>2^31\<close> the subtract-and-shift loop needs at most the sum of its operands in steps, and returns the gcd, although its minimum and difference are computed with the sign of a wrapping subtraction.\<close>

theorem binary_gcd:
  assumes "unat u < 2147483648" "unat v < 2147483648"
  shows "unat (u_gcd u v) = gcd (unat u) (unat v) \<and>
    (odd (unat u) \<and> v \<noteq> 0 \<longrightarrow> (\<forall>fuel \<ge> unat u + unat v. unat (u_gcd_loop fuel u v) = gcd (unat u) (unat v)))"
  using u_gcd_correct [OF assms] u_gcd_loop_correct [OF _ _ assms] by blast

theorem binary_gcd_witness: "unat (u_gcd 12 18) = 6"
  using binary_gcd [of 12 18] by (simp add: gcd_non_0_nat)

text \<open>\<open>is_int64\<close> and \<open>is_uint64\<close> hold exactly for the numbers in the range of the machine type, including \<open>- 2^63\<close>, and then \<open>get_int64\<close> and \<open>get_uint64\<close> return the number without loss.\<close>

theorem machine_conversions:
  assumes "wf_mpz a"
  shows "(is_int64 a \<longleftrightarrow> - (2 ^ 63) \<le> mpz_val a \<and> mpz_val a \<le> 2 ^ 63 - 1) \<and>
    (is_int64 a \<longrightarrow> sint (get_int64 a) = mpz_val a) \<and>
    (is_uint64 a \<longleftrightarrow> 0 \<le> mpz_val a \<and> mpz_val a < 2 ^ 64) \<and>
    (is_uint64 a \<longrightarrow> uint (get_uint64 a) = mpz_val a)"
  using is_int64_correct [OF assms] is_uint64_correct [OF assms] by simp

theorem machine_conversions_witness:
  "is_int64 (Large (- 1) [0, 2147483648]) \<and> sint (get_int64 (Large (- 1) [0, 2147483648])) = - (2 ^ 63)"
  using machine_conversions [of "Large (- 1) [0, 2147483648]"] by simp

text \<open>Shifts: \<open>mul2k\<close> multiplies by \<open>2^k\<close> and \<open>machine_div2k\<close> divides by \<open>2^k\<close> towards zero, on the digits, for every \<open>k\<close>; the one exception is the small number \<open>- 2^31\<close> shifted by 31, where the divisor \<open>1 << 31\<close> of the code is negative and the quotient is \<open>1\<close> instead of \<open>- 1\<close>.\<close>

theorem shifts_by_powers_of_two:
  assumes "wf_mpz a"
  shows "wf_mpz (mul2k a k) \<and> mpz_val (mul2k a k) = mpz_val a * 2 ^ k \<and>
    (if a = Small int_min \<and> k = 31 then mpz_val (machine_div2k a k) = 1
     else wf_mpz (machine_div2k a k) \<and> mpz_val (machine_div2k a k) = mpz_val a sdiv 2 ^ k)"
  using mul2k_correct [OF assms] machine_div2k_correct [OF assms] machine_div2k_int_min
  by (auto simp: sdiv_pow2)

theorem shifts_by_powers_of_two_witness:
  "mpz_val (machine_div2k (Large (- 1) [5, 0, 1]) 33) = - 18446744073709551621 sdiv 2 ^ 33"
  using shifts_by_powers_of_two [of "Large (- 1) [5, 0, 1]" 33] by simp

text \<open>Logarithms: \<open>log2\<close> of a positive number (\<open>mlog2\<close> of a negative one) is the position of its top bit, \<open>power_of_two_multiple\<close> the number of its trailing zero bits, and \<open>is_power_of_two\<close> recognises the powers of two with their exponent.\<close>

theorem logarithms:
  assumes "wf_mpz a" "mpz_val a \<noteq> 0"
  shows "(0 < mpz_val a \<longrightarrow> 2 ^ mpz_log2 a \<le> mpz_val a \<and> mpz_val a < 2 ^ Suc (mpz_log2 a)) \<and>
    (mpz_val a < 0 \<longrightarrow> 2 ^ mpz_mlog2 a \<le> - mpz_val a \<and> - mpz_val a < 2 ^ Suc (mpz_mlog2 a)) \<and>
    (\<exists>w. odd w \<and> mpz_val a = w * 2 ^ power_of_two_multiple a) \<and>
    (\<forall>k. mpz_is_power_of_two a = Some k \<longleftrightarrow> mpz_val a = 2 ^ k)"
  using mpz_log2_correct [OF assms(1)] mpz_mlog2_correct [OF assms(1)] power_of_two_multiple_correct [OF assms]
    mpz_is_power_of_two_correct [OF assms(1)] by blast

theorem logarithms_witness: "mpz_is_power_of_two (Large 1 [0, 0, 4]) = Some 66"
  using logarithms [of "Large 1 [0, 0, 4]"] by simp

text \<open>Error path of the gcd: \<open>set(uint64_t)\<close> stores \<open>2^31 - 1\<close> as a large number, against the small one that every other setter makes, and the gcd of the two representations reaches the digit arithmetic with a small operand that has no digits (a null dereference, \<open>None\<close> of the model), although both numbers are well formed and equal.\<close>

theorem gcd_of_two_representations:
  "wf_mpz (set_uint64 2147483647) \<and> mpz_val (set_uint64 2147483647) = mpz_val (Small 2147483647) \<and>
   set_uint64 2147483647 \<noteq> set_i64 2147483647 \<and> mpz_gcd m (Small 2147483647) (set_uint64 2147483647) = None"
  using set_uint64_correct [of 2147483647] mpz_gcd_int_max [of m]
  by (simp add: set_uint64_def set_big_ui64_def set_i64_def)

text \<open>Order, rounding, powers and square roots of rationals in lowest terms: comparison decides the order of the values and equality is equality of the parts; floor and ceiling are exact, and are what the binary rationals assume of them; a power with an exponent below \<open>2 ^ 31\<close> is exact, and from \<open>2 ^ 31\<close> on the loop never ends; \<open>is_perfect_square\<close> answers whether a rational square root exists, and returns it.\<close>

theorem mpq_order_rounding_powers:
  assumes "wf_mpq a" "wf_mpq b"
  shows "(mpq_eq a b \<longleftrightarrow> mpq_val a = mpq_val b) \<and> (mpq_lt a b \<longleftrightarrow> mpq_val a < mpq_val b) \<and>
    (mpq_is_int a \<longleftrightarrow> mpq_val a \<in> \<int>) \<and> (mpq_is_zero a \<longleftrightarrow> mpq_val a = 0) \<and>
    (mpq_is_pos a \<longleftrightarrow> 0 < mpq_val a) \<and> (mpq_is_neg a \<longleftrightarrow> mpq_val a < 0) \<and>
    zret (mpq_floor m a) (q_floor (mpq_val a)) \<and> zret (mpq_floor m a) \<lfloor>mpq_val a\<rfloor> \<and>
    zret (mpq_ceil m a) (q_ceil (mpq_val a)) \<and> zret (mpq_ceil m a) \<lceil>mpq_val a\<rceil> \<and>
    (if unat p < 2147483648 then qret (mpq_power m a p) (mpq_val a ^ unat p) else mpq_power m a p = None) \<and>
    (\<exists>r exact. mpq_is_perfect_square m a old = Some (r, exact) \<and> (exact \<longleftrightarrow> (\<exists>x. mpq_val a = x ^ 2)) \<and>
      (exact \<longrightarrow> wf_mpq r \<and> 0 \<le> mpq_val r \<and> mpq_val r ^ 2 = mpq_val a))"
  using eq_correct [OF assms] lt_correct [OF assms] is_one_val [OF assms(1)] floor_ceil_correct [OF assms(1)]
    power_correct [OF assms(1)] power_diverges perfect_square_correct [OF assms(1)]
  by (simp add: q_floor_ceil not_less)

theorem mpq_order_rounding_powers_witness:
  "mpq_lt (of_mpz (set_int 1)) (of_mpz (set_int 10)) \<and>
    (\<exists>r. mpq_is_perfect_square new_manager (of_mpz (set_int 1)) (of_mpz (set_int 0)) = Some (r, True))"
proof -
  have "\<exists>x. (1 :: rat) = x ^ 2" by (intro exI [of _ 1]) simp
  then show ?thesis
    using mpq_order_rounding_powers [of "of_mpz (set_int 1)" "of_mpz (set_int 10)" new_manager 0 "of_mpz (set_int 0)"] by auto
qed

text \<open>The product of an interval that is exactly zero returns it unchanged, with its two separate dependencies. Neither of them alone justifies the product: with the lower bound's hypothesis true and the upper bound's false, the member may be positive, the other factor negative, and the claimed lower bound 0 wrong.\<close>

theorem zero_product_loses_dependency:
  "\<exists>i j x y. wf_interval i \<and> wf_interval j \<and> justified {True} i x \<and> justified {True} j y \<and>
     \<not> justified {True} (interval_mul i j) (x * y)"
proof (intro exI conjI)
  let ?i = "interval_val 0 (Leaf True) (Leaf False)" and ?j = "interval_val (- 1) Null Null :: bool interval"
  show "wf_interval ?i" "wf_interval ?j" by (rule wf_const)+
  show "justified {True} ?i 1" "justified {True} ?j (- 1)" by (simp_all add: justified_def interval_val_def deps_hold_def)
  show "\<not> justified {True} (interval_mul ?i ?j) (1 * - 1)"
    by (simp add: interval_mul_def interval_val_def is_zero_interval_def ext_is_zero_def justified_def deps_hold_def)
qed

text \<open>\<open>root_lower\<close> and \<open>root_upper\<close> bound the \<open>n\<close>-th root of a binary rational from the two sides, by rounding the root of the numerator and the exponent in the matching direction for either sign, and a root that is reported exact is exact.\<close>

theorem root_bounds:
  assumes "0 < n" "bq_num a < 0 \<longrightarrow> odd n"
  shows "(case root_lower a n of (l, exact) \<Rightarrow>
      wf_bq l \<and> to_rational l ^ n \<le> to_rational a \<and> (exact \<longrightarrow> to_rational l ^ n = to_rational a)) \<and>
    (case root_upper a n of (u, exact) \<Rightarrow>
      wf_bq u \<and> to_rational a \<le> to_rational u ^ n \<and> (exact \<longrightarrow> to_rational u ^ n = to_rational a))"
  using root_lower_correct [OF assms(1) mp [OF assms(2)]] root_upper_correct [OF assms(1) mp [OF assms(2)]]
  by (auto split: prod.splits)

theorem root_bounds_witness:
  "case root_lower \<lparr>bq_num = - 5, bq_k = 4\<rparr> 3 of (l, exact) \<Rightarrow> to_rational l ^ 3 \<le> - 5 / 16"
  using root_bounds [of 3 "\<lparr>bq_num = - 5, bq_k = 4\<rparr>"] by (auto split: prod.splits)

text \<open>Multiplication into its own first operand differs from multiplication: \<open>mul(a, b, r)\<close> tests \<open>a.m_k == 0\<close> after it has overwritten \<open>r.m_k\<close>, so that \<open>a *= b\<close> agrees with the product unless \<open>a\<close> is an integer and \<open>b\<close> is not; then the result is not normalized, and equality with the same number built elsewhere fails.\<close>

theorem aliased_product:
  "(bq_k a \<noteq> 0 \<or> bq_k b = 0 \<longrightarrow> bq_mul_into a b = bq_mul a b) \<and>
   (let a = bq_set_int 2; b = bq_set 1 1 in
     wf_bq a \<and> wf_bq b \<and> to_rational (bq_mul_into a b) = to_rational (bq_mul a b) \<and>
     \<not> wf_bq (bq_mul_into a b) \<and> \<not> bq_eq (bq_mul_into a b) (bq_mul a b))"
proof -
  have "bq_set 1 1 = \<lparr>bq_num = 1, bq_k = 1\<rparr>" by code_simp
  moreover have "bq_mul (bq_set_int 2) \<lparr>bq_num = 1, bq_k = 1\<rparr> = \<lparr>bq_num = 1, bq_k = 0\<rparr>" by code_simp
  ultimately show ?thesis
    by (auto simp: bq_mul_into_def bq_mul_def Let_def bq_set_int_def wf_bq_def bq_eq_def to_rational_def)
qed

theorem aliased_product_witness: "bq_mul_into (bq_set 3 2) (bq_set 5 1) = bq_mul (bq_set 3 2) (bq_set 5 1)"
proof -
  have "bq_k (bq_set 3 2) \<noteq> 0" by code_simp
  then show ?thesis using aliased_product by blast
qed

end
